(* ===== verification/Prelude.thy ===== *)
theory Prelude
  imports Main "HOL-Library.Word" "HOL-Library.Multiset"
begin

unbundle bit_operations_syntax

section \<open>Shared types, automation and generic lemmas\<close>

text \<open>
  What the component theories of the development share: names for the machine integers of
  the C++ sources, the simplification collections the proofs draw on, the model of writing a
  run of bytes into a buffer (\<^verbatim>\<open>memcpy\<close> and the element loops of the codecs), and the
  facts on words, lists and masks that more than one component needs.
\<close>

type_synonym byte = "8 word"
type_synonym u16 = "16 word"
type_synonym u32 = "32 word"
type_synonym u64 = "64 word"

type_synonym bytes = "byte list"

text \<open>\<^verbatim>\<open>UINT64_MAX\<close>, the "no timer" and "no timeout" value of the sources.\<close>

abbreviation u64_max :: u64 where
  "u64_max \<equiv> -1"

named_theorems codec_simps \<open>unfolding rules of the byte codecs\<close>
named_theorems inv_simps \<open>definitions of the component invariants\<close>
named_theorems op_defs \<open>definitions of state-changing operations\<close>

text \<open>
  How a call can fail without returning: \<^verbatim>\<open>M_SYLAR_ASSERT2\<close> aborts the process, an element of
  a \<^verbatim>\<open>std::vector\<close> past its end, a null
  pointer that is followed, a division by zero and a shift by a negative amount are undefined
  behaviour, a
  \<^verbatim>\<open>throw\<close> unwinds to the caller.
\<close>

datatype failure = AssertionFailed | OutOfRange | NullDeref | DivisionByZero | BadShift | Thrown string

subsection \<open>Writing into a buffer\<close>

text \<open>
  \<open>write_at xs off ys\<close> is the buffer \<open>xs\<close> after \<^verbatim>\<open>memcpy(&xs[off], ys, |ys|)\<close>. The sources
  only write inside the buffer; where a component does so, the corresponding lemma shows
  \<open>off + length ys \<le> length xs\<close>.
\<close>

definition write_at :: "'a list \<Rightarrow> nat \<Rightarrow> 'a list \<Rightarrow> 'a list" where
  "write_at xs off ys = take off xs @ ys @ drop (off + length ys) xs"

lemma length_write_at [simp]:
  "off + length ys \<le> length xs \<Longrightarrow> length (write_at xs off ys) = length xs"
  by (simp add: write_at_def)

lemma write_at_Nil [simp]: "write_at xs off [] = xs"
  by (simp add: write_at_def)

lemma write_at_append:
  assumes "off + length ys + length zs \<le> length xs"
  shows "write_at (write_at xs off ys) (off + length ys) zs = write_at xs off (ys @ zs)"
  using assms by (cases ys) (auto simp: write_at_def min_def add_ac)

lemma write_at_whole: "length ys = length xs \<Longrightarrow> write_at xs 0 ys = ys"
  by (simp add: write_at_def)

lemma take_write_at:
  "off + length ys \<le> length xs \<Longrightarrow> take (off + length ys) (write_at xs off ys) = take off xs @ ys"
  by (cases ys) (auto simp: write_at_def min_def)

subsection \<open>Words\<close>

lemma unat_pred: "w \<noteq> 0 \<Longrightarrow> unat (w - 1) = unat w - 1" for w :: "'a::len word"
  by (rule unat_minus_one)

lemma unat_diff_of_nat:
  fixes w :: "'a::len word"
  assumes "n \<le> unat w"
  shows "unat (w - of_nat n) = unat w - n"
proof -
  have "n < 2 ^ LENGTH('a)" using assms unsigned_less [of w] by (rule le_less_trans)
  then have n: "unat (of_nat n :: 'a word) = n" by (simp add: unat_of_nat take_bit_nat_eq_self)
  then have "of_nat n \<le> w" using assms by (simp add: word_le_nat_alt)
  then show ?thesis by (simp add: unat_sub n)
qed

lemma byte_high_bit [simp]: "8 \<le> n \<Longrightarrow> \<not> bit b n" for b :: byte
  using bit_imp_le_length [of b n] by auto

lemma and_mask_bit_iff: "w AND 2 ^ n \<noteq> 0 \<longleftrightarrow> bit w n" for w :: "'a::len word"
proof
  assume "w AND 2 ^ n \<noteq> 0"
  then obtain m where "bit (w AND 2 ^ n) m" by (auto simp: bit_eq_iff)
  then show "bit w n" by (auto simp: bit_and_iff bit_exp_iff)
next
  assume b: "bit w n"
  then have "n < LENGTH('a)" by (rule bit_imp_le_length)
  with b have "bit (w AND 2 ^ n) n" by (simp add: bit_and_iff bit_exp_iff)
  then show "w AND 2 ^ n \<noteq> 0" by auto
qed

lemma take_bit_small: "unat n < 2 ^ k \<Longrightarrow> take_bit k n = n" for n :: "'a::len word"
  by (simp add: word_unat_eq_iff unsigned_take_bit_eq take_bit_nat_eq_self)

lemma bit_small: "unat n < 2 ^ k \<Longrightarrow> bit n m \<Longrightarrow> m < k" for n :: "'a::len word"
  by (metis bit_take_bit_iff take_bit_small)

text \<open>Appending a byte to a big-endian accumulator.\<close>

lemma byte_acc:
  "push_bit 8 (drop_bit (k + 8) n) OR ucast (ucast (drop_bit k n) :: byte) = drop_bit k n" for n :: u64
  by (rule bit_word_eqI) (auto simp: bit_simps)

lemma byte_acc_top: "ucast (ucast (drop_bit 56 n) :: byte) = drop_bit 56 n" for n :: u64
  by (rule bit_word_eqI) (auto simp: bit_simps dest: bit_imp_le_length)

lemma be64_bytes:
  "push_bit 8 (push_bit 8 (push_bit 8 (push_bit 8 (push_bit 8 (push_bit 8 (push_bit 8
     (ucast (ucast (drop_bit 56 n) :: byte)) OR ucast (ucast (drop_bit 48 n) :: byte))
     OR ucast (ucast (drop_bit 40 n) :: byte)) OR ucast (ucast (drop_bit 32 n) :: byte))
     OR ucast (ucast (drop_bit 24 n) :: byte)) OR ucast (ucast (drop_bit 16 n) :: byte))
     OR ucast (ucast (drop_bit 8 n) :: byte)) OR ucast (ucast n :: byte) = n" for n :: u64
  using byte_acc [of 0 n] byte_acc [of 8 n] byte_acc [of 16 n] byte_acc [of 24 n] byte_acc [of 32 n]
    byte_acc [of 40 n] byte_acc [of 48 n]
  by (simp add: byte_acc_top)

lemma be16_bytes:
  assumes "n \<le> 0xFFFF"
  shows "push_bit 8 (ucast (ucast (drop_bit 8 n) :: byte)) OR ucast (ucast n :: byte) = (n :: u64)"
proof -
  have "unat n < 2 ^ 16" using assms by (simp add: word_le_nat_alt)
  then have *: "bit n m \<Longrightarrow> m < 16" for m by (rule bit_small)
  then show ?thesis by (intro bit_word_eqI) (auto simp: bit_simps less_diff_conv2 dest: *)
qed

text \<open>The length field of a frame header beside its mask bit.\<close>

lemma low7_numeral: "(0x7F :: 'a::len word) = mask 7"
  by (simp add: mask_eq_exp_minus_1)

lemma bit_0x80: "bit (0x80 :: 'a::len word) m \<longleftrightarrow> m = 7 \<and> 7 < LENGTH('a)"
  using bit_exp_iff [of 7 m, where 'a = "'a word"] by auto

lemma bit_int_0x80: "bit (0x80 :: int) m \<longleftrightarrow> m = 7"
  using bit_exp_iff [of 7 m, where 'a = int] by auto

lemma low7_field:
  fixes n :: u64
  assumes "n < 126" "b = 0 \<or> b = (0x80 :: byte)"
  shows "ucast (b OR ucast n) AND 0x7F = n"
proof -
  have "unat n < 2 ^ 7" using assms(1) by (simp add: word_less_nat_alt)
  then have *: "bit n m \<Longrightarrow> m < 7" for m by (rule bit_small)
  show ?thesis
    using assms(2) unfolding low7_numeral
    by (intro bit_word_eqI) (auto simp: bit_simps bit_0x80 bit_int_0x80 dest: *)
qed

lemma mask_bit_field:
  fixes n :: u64
  assumes "n < 126"
  shows "(0x80 OR ucast n) AND (0x80 :: byte) \<noteq> 0" "ucast n AND (0x80 :: byte) = 0"
proof -
  have "unat n < 2 ^ 7" using assms by (simp add: word_less_nat_alt)
  then have "\<not> bit n 7" using bit_small [of n 7 7] by auto
  then have "\<not> bit (ucast n :: byte) m" if "m = 7" for m using that by (simp add: bit_simps)
  then show "ucast n AND (0x80 :: byte) = 0"
    by (intro bit_word_eqI) (auto simp: bit_simps bit_0x80 bit_int_0x80)
  have "bit ((0x80 OR ucast n) AND (0x80 :: byte)) 7" by (simp add: bit_simps bit_0x80)
  then show "(0x80 OR ucast n) AND (0x80 :: byte) \<noteq> 0" by auto
qed

end
