(* ===== verification/Multimap.thy ===== *)
theory Multimap
  imports Prelude
begin

section \<open>Ordered multimaps\<close>

text \<open>
  \<^verbatim>\<open>std::multimap\<close> as the list of its elements in iteration order: the keys ascend and
  elements of equal key keep the order in which they were inserted. \<open>mm_insert\<close> is
  \<^verbatim>\<open>insert\<close> (at the upper bound of the key), \<open>mm_find\<close> is \<^verbatim>\<open>find\<close>, \<open>mm_upto k\<close> the
  elements a loop \<^verbatim>\<open>while(it != end() && it->first <= k)\<close> visits and \<open>mm_after k\<close> the ones
  it leaves. The interface \<open>timed_queue\<close> states the laws the timer relies on.
\<close>

fun mm_insert :: "'k::linorder \<Rightarrow> 'v \<Rightarrow> ('k \<times> 'v) list \<Rightarrow> ('k \<times> 'v) list" where
  "mm_insert k v [] = [(k, v)]"
| "mm_insert k v ((k', v') # xs) =
     (if k < k' then (k, v) # (k', v') # xs else (k', v') # mm_insert k v xs)"

definition mm_find :: "'k \<Rightarrow> ('k \<times> 'v) list \<Rightarrow> 'v option" where
  "mm_find k xs = map_of xs k"

definition mm_upto :: "'k::linorder \<Rightarrow> ('k \<times> 'v) list \<Rightarrow> ('k \<times> 'v) list" where
  "mm_upto k xs = takeWhile (\<lambda>x. fst x \<le> k) xs"

definition mm_after :: "'k::linorder \<Rightarrow> ('k \<times> 'v) list \<Rightarrow> ('k \<times> 'v) list" where
  "mm_after k xs = dropWhile (\<lambda>x. fst x \<le> k) xs"

definition mm_sorted :: "('k::linorder \<times> 'v) list \<Rightarrow> bool" where
  "mm_sorted xs \<longleftrightarrow> sorted (map fst xs)"

lemma mm_sorted_simps [simp]:
  "mm_sorted []" "mm_sorted (x # xs) \<longleftrightarrow> (\<forall>y\<in>set xs. fst x \<le> fst y) \<and> mm_sorted xs"
  by (auto simp: mm_sorted_def)

lemma set_mm_insert [simp]: "set (mm_insert k v xs) = insert (k, v) (set xs)"
  by (induction xs rule: mm_insert.induct) auto

lemma mset_mm_insert [simp]: "mset (mm_insert k v xs) = add_mset (k, v) (mset xs)"
  by (induction k v xs rule: mm_insert.induct) auto

lemma length_mm_insert [simp]: "length (mm_insert k v xs) = Suc (length xs)"
  by (induction k v xs rule: mm_insert.induct) auto

lemma mm_insert_not_Nil [simp]: "mm_insert k v xs \<noteq> []"
  by (cases xs) (auto split: if_splits)

lemma mm_sorted_insert: "mm_sorted xs \<Longrightarrow> mm_sorted (mm_insert k v xs)"
  by (induction k v xs rule: mm_insert.induct) auto

lemma mm_upto_filter: "mm_sorted xs \<Longrightarrow> mm_upto k xs = filter (\<lambda>x. fst x \<le> k) xs"
  by (induction xs) (auto simp: mm_upto_def filter_empty_conv dest: order_trans intro!: sym [OF filter_False])

lemma mm_after_filter: "mm_sorted xs \<Longrightarrow> mm_after k xs = filter (\<lambda>x. k < fst x) xs"
  by (induction xs) (auto simp: mm_after_def not_le[symmetric] filter_id_conv intro!: filter_True[symmetric])

lemma mm_sorted_filter: "mm_sorted xs \<Longrightarrow> mm_sorted (filter P xs)"
  by (induction xs) auto

lemma mm_upto_after: "mm_upto k xs @ mm_after k xs = xs"
  by (simp add: mm_upto_def mm_after_def)

lemma mm_sorted_after: "mm_sorted xs \<Longrightarrow> mm_sorted (mm_after k xs)"
  by (induction xs) (auto simp: mm_after_def)

text \<open>Insertion is stable: it goes after the elements of equal key.\<close>

lemma mm_insert_append:
  "mm_sorted xs \<Longrightarrow> mm_insert k v xs = mm_upto k xs @ (k, v) # mm_after k xs"
  by (induction k v xs rule: mm_insert.induct) (auto simp: mm_upto_def mm_after_def)

lemma mm_find_insert:
  "mm_find k xs = None \<Longrightarrow> mm_find j (mm_insert k v xs) = (if j = k then Some v else mm_find j xs)"
  by (induction k v xs rule: mm_insert.induct) (auto simp: mm_find_def split: if_splits)

locale timed_queue =
  fixes ins :: "'k::linorder \<Rightarrow> 'v \<Rightarrow> 'q \<Rightarrow> 'q" and due :: "'k \<Rightarrow> 'q \<Rightarrow> 'q" and rest :: "'k \<Rightarrow> 'q \<Rightarrow> 'q"
    and items :: "'q \<Rightarrow> ('k \<times> 'v) list" and inv :: "'q \<Rightarrow> bool"
  assumes inv_ins: "inv q \<Longrightarrow> inv (ins k v q)"
    and mset_ins: "inv q \<Longrightarrow> mset (items (ins k v q)) = add_mset (k, v) (mset (items q))"
    and due_items: "inv q \<Longrightarrow> items (due k q) = filter (\<lambda>x. fst x \<le> k) (items q)"
    and rest_items: "inv q \<Longrightarrow> items (rest k q) = filter (\<lambda>x. k < fst x) (items q)"
    and inv_rest: "inv q \<Longrightarrow> inv (rest k q)"
begin

text \<open>Nothing is lost and nothing fires twice: taking the due items splits the queue.\<close>

lemma due_rest_partition: "inv q \<Longrightarrow> mset (items (due k q)) + mset (items (rest k q)) = mset (items q)"
  using multiset_partition [of "mset (items q)" "\<lambda>x. fst x \<le> k"]
  by (simp add: due_items rest_items not_le mset_filter)

lemma ins_future_not_due: "inv q \<Longrightarrow> k < t \<Longrightarrow> mset (items (due k (ins t v q))) = mset (items (due k q))"
  by (simp add: due_items inv_ins mset_ins mset_filter)

lemma ins_due: "inv q \<Longrightarrow> t \<le> k \<Longrightarrow> (t, v) \<in> set (items (due k (ins t v q)))"
  using mset_ins [of q t v]
  by (simp add: due_items inv_ins flip: set_mset_mset)

end

interpretation mm: timed_queue mm_insert mm_upto mm_after "\<lambda>xs. xs" mm_sorted
  by unfold_locales (simp_all add: mm_sorted_insert mm_upto_filter mm_after_filter mm_sorted_filter)

end
