(* ===== verification/Timer.thy ===== *)
theory Timer
  imports Multimap
begin

section \<open>Timers (basic/timer)\<close>

text \<open>
  A timer task, a block of tasks of one time slice, and the manager that files tasks into
  blocks, arms the timerfd for the earliest of them and, when it fires, schedules every
  task that is due.

  Tasks and blocks are reached through shared pointers, so they have identities (\<open>tid\<close>,
  \<open>bid\<close>) and live in stores of the manager's state. The callbacks of a task are user code:
  each acts on a world of type \<open>'w\<close> and says whether it called \<^verbatim>\<open>cancel()\<close> on its task. The
  clock and the result of \<^verbatim>\<open>timerfd_settime\<close> are arguments, one for every read or call of
  the source. \<^verbatim>\<open>m_iom->schedule\<close> of a timer is recorded in the list \<open>scheduled\<close>.
\<close>

type_synonym tid = nat
type_synonym bid = nat

subsection \<open>Timer tasks (timer\_task)\<close>

record 'w time_task =
  m_main_cb :: "'w \<Rightarrow> bool \<times> 'w"
  m_condition :: "('w \<Rightarrow> bool \<times> bool \<times> 'w) option"
  m_condition_cb :: "('w \<Rightarrow> bool \<times> 'w) option"
  m_interval_ms :: u64
  m_execute_ms :: u64
  m_is_cycle :: bool
  m_is_canceled :: bool

definition TimeTask_create ::
  "u64 \<Rightarrow> u64 \<Rightarrow> bool \<Rightarrow> ('w \<Rightarrow> bool \<times> 'w) \<Rightarrow> ('w \<Rightarrow> bool \<times> bool \<times> 'w) option \<Rightarrow>
   ('w \<Rightarrow> bool \<times> 'w) option \<Rightarrow> 'w time_task" where
  "TimeTask_create now ms is_cycle main_cb condition condition_cb =
     \<lparr>m_main_cb = main_cb, m_condition = condition, m_condition_cb = condition_cb,
      m_interval_ms = ms, m_execute_ms = now + ms, m_is_cycle = is_cycle, m_is_canceled = False\<rparr>"

definition shouldReEnroll :: "'w time_task \<Rightarrow> bool" where
  "shouldReEnroll t \<longleftrightarrow> \<not> m_is_canceled t \<and> m_is_cycle t"

definition TimeTask_cancel :: "'w time_task \<Rightarrow> 'w time_task" where
  "TimeTask_cancel t = t\<lparr>m_is_canceled := True\<rparr>"

definition TimeTask_next :: "'w time_task \<Rightarrow> 'w time_task" where
  "TimeTask_next t =
     (if m_is_cycle t then t\<lparr>m_execute_ms := m_execute_ms t + m_interval_ms t\<rparr>
      else t\<lparr>m_execute_ms := 0\<rparr>)"

text \<open>Running a callback, which may cancel the task it belongs to.\<close>

definition after_cb :: "'w time_task \<Rightarrow> bool \<times> 'w \<Rightarrow> 'w time_task \<times> 'w" where
  "after_cb t r = (t\<lparr>m_is_canceled := m_is_canceled t \<or> fst r\<rparr>, snd r)"

definition TimeTask_runner :: "'w time_task \<Rightarrow> 'w \<Rightarrow> 'w time_task \<times> 'w" where
  "TimeTask_runner t w =
     (let (t', w') =
        (case m_condition t of
           Some cond \<Rightarrow>
             (let (holds, c, w1) = cond w; (t1, w1) = after_cb t (c, w1)
              in if holds then after_cb t1 (m_main_cb t w1)
                 else (case m_condition_cb t of Some cb \<Rightarrow> after_cb t1 (cb w1) | None \<Rightarrow> (t1, w1)))
         | None \<Rightarrow> after_cb t (m_main_cb t w))
      in (TimeTask_next t', w'))"

subsection \<open>Timer blocks (timer\_block)\<close>

record timer_block =
  start_time :: u64
  end_time :: u64
  time_tasks :: "(u64 \<times> tid) list"
  task_count :: u64

definition TimerBlock_new :: "u64 \<Rightarrow> u64 \<Rightarrow> timer_block" where
  "TimerBlock_new s e = \<lparr>start_time = s, end_time = e, time_tasks = [], task_count = 0\<rparr>"

definition TimerBlock_insert :: "u64 \<Rightarrow> tid \<Rightarrow> timer_block \<Rightarrow> timer_block" where
  "TimerBlock_insert et i b =
     b\<lparr>task_count := task_count b + 1, time_tasks := mm_insert et i (time_tasks b)\<rparr>"

definition TimerBlock_getAndRemove :: "u64 \<Rightarrow> timer_block \<Rightarrow> (u64 \<times> tid) list \<times> timer_block" where
  "TimerBlock_getAndRemove timeMs b =
     (let expired = mm_upto timeMs (time_tasks b)
      in (expired, b\<lparr>task_count := task_count b - of_nat (length expired),
                     time_tasks := mm_after timeMs (time_tasks b)\<rparr>))"

definition TimerBlock_empty :: "timer_block \<Rightarrow> bool" where
  "TimerBlock_empty b \<longleftrightarrow> time_tasks b = []"

definition getNextExecuteTime :: "timer_block \<Rightarrow> u64" where
  "getNextExecuteTime b = (case time_tasks b of [] \<Rightarrow> u64_max | x # _ \<Rightarrow> fst x)"

subsection \<open>The manager (timer)\<close>

record 'w time_manager =
  m_nextTimerTime :: u64
  m_timerFd :: int
  m_time_blocks :: "(u64 \<times> bid) list"
  m_block_size_ms :: u64
  m_base_time :: u64
  m_timerCount :: u64
  block_store :: "bid \<Rightarrow> timer_block"
  next_bid :: bid
  task_store :: "tid \<Rightarrow> 'w time_task"
  armed :: "(u64 \<times> u64) option"
  scheduled :: "tid list"

definition TimeManager_new :: "u64 \<Rightarrow> 'w time_manager" where
  "TimeManager_new blockLength =
     \<lparr>m_nextTimerTime = u64_max, m_timerFd = -1, m_time_blocks = [], m_block_size_ms = blockLength,
      m_base_time = 0, m_timerCount = 0, block_store = (\<lambda>_. TimerBlock_new 0 0), next_bid = 0,
      task_store = (\<lambda>_. TimeTask_create 0 0 False (Pair False) None None), armed = None, scheduled = []\<rparr>"

text \<open>
  \<open>fd\<close> is what \<^verbatim>\<open>timerfd_create\<close> returned. \<^verbatim>\<open>init\<close> and \<^verbatim>\<open>close\<close> also return the descriptor whose
  read event they register with, or remove from, the IO manager.
\<close>

definition TimeManager_init :: "int \<Rightarrow> u64 \<Rightarrow> 'w time_manager \<Rightarrow> int \<times> int option \<times> 'w time_manager" where
  "TimeManager_init fd now tm =
     (if fd = -1 then (-1, None, tm\<lparr>m_timerFd := fd\<rparr>)
      else (0, Some fd, tm\<lparr>m_timerFd := fd, m_base_time := now\<rparr>))"

definition TimeManager_close :: "'w time_manager \<Rightarrow> int \<times> int option" where
  "TimeManager_close tm = (0, if m_timerFd tm \<noteq> -1 then Some (m_timerFd tm) else None)"

definition TimeManager_destroy :: "'w time_manager \<Rightarrow> int option \<times> 'w time_manager" where
  "TimeManager_destroy tm =
     (if m_timerFd tm \<noteq> -1 then (snd (TimeManager_close tm), tm\<lparr>m_timerFd := -1\<rparr>) else (None, tm))"

definition schedule_timer :: "tid \<Rightarrow> 'w time_manager \<Rightarrow> 'w time_manager" where
  "schedule_timer i tm = tm\<lparr>scheduled := scheduled tm @ [i]\<rparr>"

definition timer_spec :: "u64 \<Rightarrow> u64 \<Rightarrow> u64 \<times> u64" where
  "timer_spec now et =
     (if et \<le> now then (0, 1000000)
      else ((et - now) div 1000, ((et - now) mod 1000) * 1000000))"

definition updateTimerFd :: "u64 \<Rightarrow> bool \<Rightarrow> u64 \<Rightarrow> 'w time_manager \<Rightarrow> int \<times> 'w time_manager" where
  "updateTimerFd now settime_ok et tm =
     (if et \<ge> m_nextTimerTime tm then (0, tm)
      else if \<not> settime_ok then (-1, tm)
      else (0, tm\<lparr>armed := Some (timer_spec now et), m_nextTimerTime := et\<rparr>))"

definition block_begin :: "u64 \<Rightarrow> 'w time_manager \<Rightarrow> u64" where
  "block_begin et tm =
     m_base_time tm + (et - m_base_time tm) div m_block_size_ms tm * m_block_size_ms tm"

text \<open>The section under the exclusive lock: look again, then publish the new block.\<close>

definition publish_block :: "u64 \<Rightarrow> u64 \<Rightarrow> 'w time_manager \<Rightarrow> bid \<times> 'w time_manager" where
  "publish_block b e tm =
     (case mm_find b (m_time_blocks tm) of
        Some i \<Rightarrow> (i, tm)
      | None \<Rightarrow> (next_bid tm,
          tm\<lparr>m_time_blocks := mm_insert b (next_bid tm) (m_time_blocks tm),
             block_store := (block_store tm)(next_bid tm := TimerBlock_new b e),
             next_bid := Suc (next_bid tm)\<rparr>))"

definition getOrCreateTimerBlock ::
  "u64 \<Rightarrow> u64 \<Rightarrow> 'w time_manager \<Rightarrow> failure + (bid option \<times> 'w time_manager)" where
  "getOrCreateTimerBlock now et tm =
     (if et < now then Inr (None, tm)
      else if m_block_size_ms tm = 0 then Inl DivisionByZero
      else (let b = block_begin et tm; e = b + m_block_size_ms tm
            in case mm_find b (m_time_blocks tm) of
                 Some i \<Rightarrow> Inr (Some i, tm)
               | None \<Rightarrow>
                   if b \<le> et \<and> et < e
                   then (let (i, tm') = publish_block b e tm in Inr (Some i, tm'))
                   else Inl AssertionFailed))"

definition block_insert :: "bid \<Rightarrow> u64 \<Rightarrow> tid \<Rightarrow> 'w time_manager \<Rightarrow> 'w time_manager" where
  "block_insert b et i tm =
     tm\<lparr>block_store := (block_store tm)(b := TimerBlock_insert et i (block_store tm b))\<rparr>"

text \<open>The part of \<^verbatim>\<open>insertTimeTask\<close> after the block is found.\<close>

definition file_task ::
  "u64 \<Rightarrow> bool \<Rightarrow> bid \<Rightarrow> u64 \<Rightarrow> tid \<Rightarrow> 'w time_manager \<Rightarrow> int \<times> 'w time_manager" where
  "file_task now settime_ok b et i tm =
     (if et < start_time (block_store tm b) \<or> et \<ge> end_time (block_store tm b) then (-1, tm)
      else (let tm1 = block_insert b et i tm
            in if et < m_nextTimerTime tm1
               then (let (rc, tm2) = updateTimerFd now settime_ok et tm1
                     in if rc = -1 then (-1, tm2)
                        else (0, tm2\<lparr>m_timerCount := m_timerCount tm2 + 1\<rparr>))
               else (0, tm1\<lparr>m_timerCount := m_timerCount tm1 + 1\<rparr>)))"

text \<open>
  \<open>now1\<close>, \<open>now2\<close>, \<open>now3\<close> are the clock readings in \<^verbatim>\<open>insertTimeTask\<close> itself, in
  \<^verbatim>\<open>getOrCreateTimerBlock\<close> and in \<^verbatim>\<open>updateTimerFd\<close>.
\<close>

record clock3 =
  now1 :: u64
  now2 :: u64
  now3 :: u64

definition insertTimeTask ::
  "clock3 \<Rightarrow> bool \<Rightarrow> tid option \<Rightarrow> 'w time_manager \<Rightarrow> failure + (int \<times> 'w time_manager)" where
  "insertTimeTask clk settime_ok time_task tm =
     (case time_task of
        None \<Rightarrow> Inr (-1, tm)
      | Some i \<Rightarrow>
          (let et = m_execute_ms (task_store tm i)
           in if et \<le> now1 clk then Inr (0, schedule_timer i tm)
              else (case getOrCreateTimerBlock (now2 clk) et tm of
                      Inl e \<Rightarrow> Inl e
                    | Inr (None, tm') \<Rightarrow> Inr (-1, tm')
                    | Inr (Some b, tm') \<Rightarrow> Inr (file_task (now3 clk) settime_ok b et i tm'))))"

definition addTimer :: "clock3 \<Rightarrow> bool \<Rightarrow> tid \<Rightarrow> 'w time_manager \<Rightarrow> failure + (tid \<times> 'w time_manager)" where
  "addTimer clk settime_ok i tm =
     (case insertTimeTask clk settime_ok (Some i) tm of Inl e \<Rightarrow> Inl e | Inr (rc, tm') \<Rightarrow> Inr (i, tm'))"

definition addConditionTimer ::
  "clock3 \<Rightarrow> bool \<Rightarrow> tid \<Rightarrow> 'w time_manager \<Rightarrow> failure + (tid \<times> 'w time_manager)" where
  "addConditionTimer clk settime_ok i tm =
     (if m_condition (task_store tm i) = None \<or> m_condition_cb (task_store tm i) = None then Inr (i, tm)
      else (case insertTimeTask clk settime_ok (Some i) tm of Inl e \<Rightarrow> Inl e | Inr (rc, tm') \<Rightarrow> Inr (i, tm')))"

definition cancelTimer :: "tid \<Rightarrow> 'w time_manager \<Rightarrow> 'w time_manager" where
  "cancelTimer i tm = tm\<lparr>task_store := (task_store tm)(i := TimeTask_cancel (task_store tm i))\<rparr>"

definition runTimeTask ::
  "clock3 \<Rightarrow> bool \<Rightarrow> tid \<Rightarrow> 'w \<Rightarrow> 'w time_manager \<Rightarrow> failure + ('w \<times> 'w time_manager)" where
  "runTimeTask clk settime_ok i w tm =
     (let (t, w') = TimeTask_runner (task_store tm i) w;
          tm1 = tm\<lparr>task_store := (task_store tm)(i := t)\<rparr>
      in if \<not> m_is_canceled t \<and> m_is_cycle t
         then (case insertTimeTask clk settime_ok (Some i) tm1 of
                 Inl e \<Rightarrow> Inl e | Inr (rc, tm2) \<Rightarrow> Inr (w', tm2))
         else Inr (w', tm1))"

subsection \<open>The timer fires\<close>

definition collect_blocks :: "u64 \<Rightarrow> 'w time_manager \<Rightarrow> bid list" where
  "collect_blocks now tm = map snd (mm_upto now (m_time_blocks tm))"

fun drain_blocks :: "u64 \<Rightarrow> bid list \<Rightarrow> 'w time_manager \<Rightarrow> tid list \<times> 'w time_manager" where
  "drain_blocks now [] tm = ([], tm)"
| "drain_blocks now (b # bs) tm =
     (let (expired, blk) = TimerBlock_getAndRemove now (block_store tm b);
          (rest, tm') = drain_blocks now bs (tm\<lparr>block_store := (block_store tm)(b := blk)\<rparr>)
      in (map snd expired @ rest, tm'))"

definition clean_blocks :: "u64 \<Rightarrow> 'w time_manager \<Rightarrow> 'w time_manager" where
  "clean_blocks now tm =
     tm\<lparr>m_time_blocks := filter (\<lambda>(k, b). \<not> (end_time (block_store tm b) \<le> now \<or>
                                             TimerBlock_empty (block_store tm b))) (m_time_blocks tm)\<rparr>"

fun first_execute_time :: "(bid \<Rightarrow> timer_block) \<Rightarrow> (u64 \<times> bid) list \<Rightarrow> u64" where
  "first_execute_time st [] = u64_max"
| "first_execute_time st ((k, b) # bs) =
     (if getNextExecuteTime (st b) \<noteq> u64_max then getNextExecuteTime (st b)
      else first_execute_time st bs)"

text \<open>\<open>now'\<close> is the clock read by \<^verbatim>\<open>updateTimerFd\<close>.\<close>

definition rearm :: "u64 \<Rightarrow> bool \<Rightarrow> 'w time_manager \<Rightarrow> 'w time_manager" where
  "rearm now' settime_ok tm =
     (let next_time = first_execute_time (block_store tm) (m_time_blocks tm);
          tm1 = tm\<lparr>m_nextTimerTime := u64_max\<rparr>
      in if m_time_blocks tm \<noteq> [] \<and> next_time \<noteq> u64_max
         then snd (updateTimerFd now' settime_ok next_time tm1) else tm1)"

definition schedule_expired :: "tid list \<Rightarrow> 'w time_manager \<Rightarrow> 'w time_manager" where
  "schedule_expired is tm = foldl (\<lambda>tm i. schedule_timer i (tm\<lparr>m_timerCount := m_timerCount tm - 1\<rparr>)) tm is"

definition onTimerTriggered :: "u64 \<Rightarrow> u64 \<Rightarrow> bool \<Rightarrow> 'w time_manager \<Rightarrow> 'w time_manager" where
  "onTimerTriggered now now' settime_ok tm =
     (let (expired, tm1) = drain_blocks now (collect_blocks now tm) tm
      in schedule_expired expired (rearm now' settime_ok (clean_blocks now tm1)))"

subsection \<open>Invariant\<close>

definition block_tasks :: "'w time_manager \<Rightarrow> bid \<Rightarrow> (u64 \<times> tid) list" where
  "block_tasks tm b = time_tasks (block_store tm b)"

text \<open>The tasks the manager holds, in the order in which they fall due.\<close>

definition pending :: "'w time_manager \<Rightarrow> (u64 \<times> tid) list" where
  "pending tm = concat (map (\<lambda>x. block_tasks tm (snd x)) (m_time_blocks tm))"

definition block_wf :: "u64 \<Rightarrow> u64 \<Rightarrow> timer_block \<Rightarrow> bool" where
  "block_wf sz k b \<longleftrightarrow> start_time b = k \<and> end_time b = k + sz \<and> unat k + unat sz < 2 ^ 64 \<and>
     mm_sorted (time_tasks b) \<and> (\<forall>x\<in>set (time_tasks b). k \<le> fst x \<and> fst x < end_time b) \<and>
     task_count b = of_nat (length (time_tasks b))"

definition aligned :: "'w time_manager \<Rightarrow> u64 \<Rightarrow> bool" where
  "aligned tm k \<longleftrightarrow> (\<exists>j. unat k = unat (m_base_time tm) + j * unat (m_block_size_ms tm))"

definition blocks_inv :: "'w time_manager \<Rightarrow> bool" where
  "blocks_inv tm \<longleftrightarrow> m_block_size_ms tm \<noteq> 0 \<and> distinct (map snd (m_time_blocks tm)) \<and>
     sorted_wrt (<) (map fst (m_time_blocks tm)) \<and>
     (\<forall>(k, b)\<in>set (m_time_blocks tm). b < next_bid tm \<and> aligned tm k \<and>
        block_wf (m_block_size_ms tm) k (block_store tm b))"

definition tm_inv :: "'w time_manager \<Rightarrow> bool" where
  "tm_inv tm \<longleftrightarrow> blocks_inv tm \<and> m_timerCount tm = of_nat (length (pending tm)) \<and>
     (\<forall>x\<in>set (pending tm). m_nextTimerTime tm \<le> fst x)"

lemma unat_end: "block_wf sz k b \<Longrightarrow> unat (end_time b) = unat k + unat sz"
  by (simp add: block_wf_def unat_word_ariths)

lemma aligned_gap:
  assumes "aligned tm k" "aligned tm k'" "k < k'"
  shows "unat k + unat (m_block_size_ms tm) \<le> unat k'"
proof -
  obtain i j where ij: "unat k = unat (m_base_time tm) + i * unat (m_block_size_ms tm)"
    "unat k' = unat (m_base_time tm) + j * unat (m_block_size_ms tm)"
    using assms(1,2) by (auto simp: aligned_def)
  then have "i * unat (m_block_size_ms tm) < j * unat (m_block_size_ms tm)"
    using assms(3) by (simp add: word_less_nat_alt)
  then have "Suc i * unat (m_block_size_ms tm) \<le> j * unat (m_block_size_ms tm)"
    by (intro mult_le_mono1) simp
  then show ?thesis using ij by simp
qed

lemma block_wf_bounds:
  assumes "block_wf sz k b" "x \<in> set (time_tasks b)"
  shows "unat k \<le> unat (fst x)" "unat (fst x) < unat k + unat sz" "fst x \<noteq> u64_max"
proof -
  have "fst x < end_time b" "k \<le> fst x" using assms by (auto simp: block_wf_def)
  then show "unat k \<le> unat (fst x)" "unat (fst x) < unat k + unat sz"
    using unat_end [OF assms(1)] by (simp_all add: word_le_nat_alt word_less_nat_alt)
  show "fst x \<noteq> u64_max" using \<open>fst x < end_time b\<close> by (metis word_not_simps(3))
qed

text \<open>Blocks in order hold tasks in order.\<close>

lemma pending_sorted_aux:
  assumes "sorted_wrt (<) (map fst bl)" "\<forall>(k, b)\<in>set bl. aligned tm k \<and> block_wf (m_block_size_ms tm) k (st b)"
  shows "mm_sorted (concat (map (\<lambda>x. time_tasks (st (snd x))) bl))"
  using assms
proof (induction bl)
  case (Cons kb bl)
  obtain k b where kb: "kb = (k, b)" by fastforce
  have wf: "block_wf (m_block_size_ms tm) k (st b)" "aligned tm k" using Cons.prems(2) kb by auto
  have "fst x \<le> fst y"
    if x: "x \<in> set (time_tasks (st b))" and y: "(k', b') \<in> set bl" "y \<in> set (time_tasks (st b'))" for x y k' b'
  proof -
    have wf': "block_wf (m_block_size_ms tm) k' (st b')" "aligned tm k'" "k < k'"
      using Cons.prems y kb by auto
    have "unat (fst x) < unat k'"
      using block_wf_bounds(2) [OF wf(1) x] aligned_gap [OF wf(2) wf'(2,3)] by simp
    then show ?thesis
      using block_wf_bounds(1) [OF wf'(1) y(2)] by (simp add: word_le_nat_alt)
  qed
  moreover have "mm_sorted (time_tasks (st b))" using wf(1) by (simp add: block_wf_def)
  moreover have "mm_sorted (concat (map (\<lambda>x. time_tasks (st (snd x))) bl))"
    using Cons by simp
  ultimately show ?case
    using kb by (auto simp: mm_sorted_def sorted_append)
qed simp

lemma pending_sorted: "blocks_inv tm \<Longrightarrow> mm_sorted (pending tm)"
  unfolding pending_def block_tasks_def [abs_def]
  by (rule pending_sorted_aux) (auto simp: blocks_inv_def)

subsection \<open>Draining, cleaning and rearming\<close>

lemma fst_getAndRemove: "fst (TimerBlock_getAndRemove now b) = mm_upto now (time_tasks b)"
  by (simp add: TimerBlock_getAndRemove_def Let_def)

lemma drain_Cons:
  "drain_blocks now (b # bs) tm =
     (let r = drain_blocks now bs
            (tm\<lparr>block_store := (block_store tm)(b := snd (TimerBlock_getAndRemove now (block_store tm b)))\<rparr>)
      in (map snd (mm_upto now (block_tasks tm b)) @ fst r, snd r))"
  by (simp add: fst_getAndRemove [symmetric] block_tasks_def Let_def split: prod.splits)

lemma drain_frame:
  "\<exists>st. snd (drain_blocks now bs tm) = tm\<lparr>block_store := st\<rparr>"
proof (induction bs arbitrary: tm)
  case Nil
  show ?case by (rule exI [of _ "block_store tm"]) simp
next
  case (Cons b bs)
  then obtain st where "snd (drain_blocks now bs
      (tm\<lparr>block_store := (block_store tm)(b := snd (TimerBlock_getAndRemove now (block_store tm b)))\<rparr>)) =
      tm\<lparr>block_store := (block_store tm)(b := snd (TimerBlock_getAndRemove now (block_store tm b)))\<rparr>\<lparr>block_store := st\<rparr>"
    by blast
  then show ?case by (auto simp: drain_Cons Let_def simp del: drain_blocks.simps(2))
qed

lemma drain_blocks_effect:
  "distinct bs \<Longrightarrow>
   fst (drain_blocks now bs tm) = concat (map (\<lambda>b. map snd (mm_upto now (block_tasks tm b))) bs) \<and>
   block_store (snd (drain_blocks now bs tm)) =
     (\<lambda>b. if b \<in> set bs then snd (TimerBlock_getAndRemove now (block_store tm b)) else block_store tm b)"
proof (induction bs arbitrary: tm)
  case (Cons b bs)
  let ?tm = "tm\<lparr>block_store := (block_store tm)(b := snd (TimerBlock_getAndRemove now (block_store tm b)))\<rparr>"
  have same: "block_tasks ?tm b' = block_tasks tm b'" "block_store ?tm b' = block_store tm b'" if "b' \<in> set bs" for b'
    using Cons.prems that by (auto simp: block_tasks_def)
  then have "concat (map (\<lambda>b. map snd (mm_upto now (block_tasks ?tm b))) bs) =
      concat (map (\<lambda>b. map snd (mm_upto now (block_tasks tm b))) bs)"
    by (intro arg_cong [where f = concat] map_cong) simp_all
  then show ?case
    using Cons.IH [of ?tm] Cons.prems same
    by (simp add: drain_Cons Let_def fun_eq_iff del: drain_blocks.simps(2))
qed simp

text \<open>
  Draining the blocks that start by \<open>now\<close> leaves in every block exactly its future tasks: a
  later block holds no due task.
\<close>

lemma later_block_future:
  assumes "block_wf sz k b" "\<not> k \<le> now"
  shows "mm_upto now (time_tasks b) = []" "mm_after now (time_tasks b) = time_tasks b"
proof -
  have "\<not> fst x \<le> now" if "x \<in> set (time_tasks b)" for x
    using assms that unfolding block_wf_def by (meson order_trans)
  then show "mm_upto now (time_tasks b) = []" "mm_after now (time_tasks b) = time_tasks b"
    by (cases "time_tasks b"; simp add: mm_upto_def mm_after_def)+
qed

definition drained :: "u64 \<Rightarrow> 'w time_manager \<Rightarrow> 'w time_manager" where
  "drained now tm = snd (drain_blocks now (collect_blocks now tm) tm)"

lemma blocks_inv_lookup:
  assumes "blocks_inv tm" "(k, b) \<in> set (m_time_blocks tm)"
  shows "block_wf (m_block_size_ms tm) k (block_store tm b)" "aligned tm k" "b < next_bid tm"
  using assms by (auto simp: blocks_inv_def)

lemma collect_blocks_iff:
  assumes "blocks_inv tm" "(k, b) \<in> set (m_time_blocks tm)"
  shows "b \<in> set (collect_blocks now tm) \<longleftrightarrow> k \<le> now"
proof -
  have "sorted_wrt (\<le>) (map fst (m_time_blocks tm))"
    using assms(1) unfolding blocks_inv_def by (auto intro: sorted_wrt_mono_rel [of _ "(<)"])
  then have "mm_sorted (m_time_blocks tm)" by (simp add: mm_sorted_def)
  then have "b \<in> set (collect_blocks now tm) \<longleftrightarrow> (\<exists>k'. (k', b) \<in> set (m_time_blocks tm) \<and> k' \<le> now)"
    by (force simp: collect_blocks_def mm_upto_filter)
  moreover have "k' = k" if "(k', b) \<in> set (m_time_blocks tm)" for k'
    using assms that unfolding blocks_inv_def by (metis (no_types, lifting) distinct_map inj_onD prod.inject snd_conv)
  ultimately show ?thesis using assms(2) by blast
qed

lemma distinct_collect: "blocks_inv tm \<Longrightarrow> distinct (collect_blocks now tm)"
  unfolding blocks_inv_def collect_blocks_def mm_upto_def
  by (auto simp: distinct_map intro: inj_on_subset dest: set_takeWhileD)

lemma drained_frame:
  "m_time_blocks (drained now tm) = m_time_blocks tm" "m_block_size_ms (drained now tm) = m_block_size_ms tm"
  "m_base_time (drained now tm) = m_base_time tm" "m_timerCount (drained now tm) = m_timerCount tm"
  "next_bid (drained now tm) = next_bid tm" "scheduled (drained now tm) = scheduled tm"
  "task_store (drained now tm) = task_store tm"
  using drain_frame [of now "collect_blocks now tm" tm] by (auto simp: drained_def)

lemma drained_tasks:
  assumes "blocks_inv tm" "(k, b) \<in> set (m_time_blocks tm)"
  shows "block_tasks (drained now tm) b = filter (\<lambda>x. now < fst x) (block_tasks tm b)"
    and "block_wf (m_block_size_ms tm) k (block_store (drained now tm) b)"
proof -
  let ?blk = "block_store tm b"
  have wf: "block_wf (m_block_size_ms tm) k ?blk" by (rule blocks_inv_lookup [OF assms])
  then have srt: "mm_sorted (time_tasks ?blk)" by (simp add: block_wf_def)
  have st: "block_store (drained now tm) b =
      (if k \<le> now then snd (TimerBlock_getAndRemove now ?blk) else ?blk)"
    using drain_blocks_effect [OF distinct_collect [OF assms(1)], of now now tm] collect_blocks_iff [OF assms]
    by (simp add: drained_def)
  have len: "length (time_tasks ?blk) = length (mm_upto now (time_tasks ?blk)) + length (mm_after now (time_tasks ?blk))"
    by (metis length_append mm_upto_after)
  show "block_tasks (drained now tm) b = filter (\<lambda>x. now < fst x) (block_tasks tm b)"
    using st later_block_future(2) [OF wf] mm_after_filter [OF srt, of now]
    by (simp add: block_tasks_def TimerBlock_getAndRemove_def Let_def split: if_splits)
  show "block_wf (m_block_size_ms tm) k (block_store (drained now tm) b)"
    using wf st len srt
    by (auto simp: block_wf_def TimerBlock_getAndRemove_def Let_def mm_after_filter mm_sorted_filter)
qed

lemma drained_pending:
  assumes "blocks_inv tm"
  shows "pending (drained now tm) = filter (\<lambda>x. now < fst x) (pending tm)"
proof -
  have "map (\<lambda>x. block_tasks (drained now tm) (snd x)) (m_time_blocks tm) =
      map (\<lambda>x. filter (\<lambda>x. now < fst x) (block_tasks tm (snd x))) (m_time_blocks tm)"
    by (rule map_cong) (auto simp: drained_tasks [OF assms])
  then show ?thesis
    by (simp add: pending_def drained_frame filter_concat comp_def del: map_eq_conv)
qed

lemma drained_blocks_inv:
  assumes "blocks_inv tm"
  shows "blocks_inv (drained now tm)"
proof -
  have "aligned (drained now tm) k = aligned tm k" for k
    by (simp add: aligned_def drained_frame)
  then have "\<forall>(k, b)\<in>set (m_time_blocks tm). b < next_bid tm \<and> aligned (drained now tm) k \<and>
      block_wf (m_block_size_ms tm) k (block_store (drained now tm) b)"
    using drained_tasks(2) [OF assms] blocks_inv_lookup [OF assms] by auto
  then show ?thesis using assms by (simp add: blocks_inv_def drained_frame)
qed

text \<open>Cleaning removes only blocks without tasks.\<close>

lemma clean_frame:
  "block_store (clean_blocks now tm) = block_store tm" "m_block_size_ms (clean_blocks now tm) = m_block_size_ms tm"
  "m_base_time (clean_blocks now tm) = m_base_time tm" "m_timerCount (clean_blocks now tm) = m_timerCount tm"
  "next_bid (clean_blocks now tm) = next_bid tm" "scheduled (clean_blocks now tm) = scheduled tm"
  by (simp_all add: clean_blocks_def)

lemma clean_blocks_inv:
  assumes "blocks_inv tm"
  shows "blocks_inv (clean_blocks now tm)"
proof -
  have "aligned (clean_blocks now tm) k = aligned tm k" for k
    by (simp add: aligned_def clean_frame)
  then show ?thesis
    using assms
    by (auto simp: blocks_inv_def clean_frame clean_blocks_def distinct_map_filter sorted_wrt_map
        sorted_wrt_filter)
qed

lemma concat_filter_nonempty:
  "(\<And>x. x \<in> set xs \<Longrightarrow> \<not> P x \<Longrightarrow> f x = []) \<Longrightarrow> concat (map f (filter P xs)) = concat (map f xs)"
  by (induction xs) auto

lemma clean_pending:
  assumes "blocks_inv tm" "\<forall>x\<in>set (pending tm). now < fst x"
  shows "pending (clean_blocks now tm) = pending tm"
proof -
  have "block_tasks tm b = []"
    if "(k, b) \<in> set (m_time_blocks tm)" "end_time (block_store tm b) \<le> now" for k b
  proof (rule ccontr)
    assume "block_tasks tm b \<noteq> []"
    then obtain x where x: "x \<in> set (time_tasks (block_store tm b))" by (cases "block_tasks tm b") (auto simp: block_tasks_def)
    then have "x \<in> set (pending tm)" using that(1) by (force simp: pending_def block_tasks_def)
    moreover have "fst x < end_time (block_store tm b)"
      using blocks_inv_lookup(1) [OF assms(1) that(1)] x unfolding block_wf_def by blast
    ultimately show False using assms(2) that(2) by (meson leD order_less_trans less_le_trans)
  qed
  then show ?thesis
    unfolding pending_def block_tasks_def clean_frame
    by (simp add: clean_blocks_def)
      (rule concat_filter_nonempty, auto simp: TimerBlock_empty_def block_tasks_def)
qed

lemma clean_nonempty:
  "(k, b) \<in> set (m_time_blocks (clean_blocks now tm)) \<Longrightarrow> time_tasks (block_store (clean_blocks now tm) b) \<noteq> []"
  by (auto simp: clean_blocks_def TimerBlock_empty_def)

text \<open>When every block has a task, the first task of the first block is the next to fall due.\<close>

definition next_due :: "'w time_manager \<Rightarrow> u64" where
  "next_due tm = (case pending tm of [] \<Rightarrow> u64_max | x # _ \<Rightarrow> fst x)"

lemma first_execute_time_next:
  assumes "blocks_inv tm" "\<forall>(k, b)\<in>set (m_time_blocks tm). block_tasks tm b \<noteq> []"
  shows "first_execute_time (block_store tm) (m_time_blocks tm) = next_due tm"
    and "m_time_blocks tm \<noteq> [] \<Longrightarrow> next_due tm \<noteq> u64_max"
proof -
  have "first_execute_time (block_store tm) (m_time_blocks tm) = next_due tm \<and>
    (m_time_blocks tm \<noteq> [] \<longrightarrow> next_due tm \<noteq> u64_max)"
  proof (cases "m_time_blocks tm")
    case Nil
    then show ?thesis by (simp add: next_due_def pending_def)
  next
    case (Cons kb bl)
    obtain k b where kb: "kb = (k, b)" by fastforce
    then have mem: "(k, b) \<in> set (m_time_blocks tm)" using Cons by simp
    then obtain x xs where x: "block_tasks tm b = x # xs"
      using assms(2) by (cases "block_tasks tm b") auto
    have "fst x \<noteq> u64_max"
      using block_wf_bounds(3) [OF blocks_inv_lookup(1) [OF assms(1) mem], of x] x by (simp add: block_tasks_def)
    then show ?thesis
      using Cons kb x by (simp add: next_due_def pending_def block_tasks_def getNextExecuteTime_def)
  qed
  then show "first_execute_time (block_store tm) (m_time_blocks tm) = next_due tm"
    and "m_time_blocks tm \<noteq> [] \<Longrightarrow> next_due tm \<noteq> u64_max" by simp_all
qed

lemma rearm_frame:
  "m_time_blocks (rearm now' ok tm) = m_time_blocks tm" "block_store (rearm now' ok tm) = block_store tm"
  "m_block_size_ms (rearm now' ok tm) = m_block_size_ms tm" "m_base_time (rearm now' ok tm) = m_base_time tm"
  "m_timerCount (rearm now' ok tm) = m_timerCount tm" "next_bid (rearm now' ok tm) = next_bid tm"
  "scheduled (rearm now' ok tm) = scheduled tm"
  by (simp_all add: rearm_def updateTimerFd_def Let_def)

lemma rearm_next:
  assumes "blocks_inv tm" "\<forall>(k, b)\<in>set (m_time_blocks tm). block_tasks tm b \<noteq> []"
  shows "m_nextTimerTime (rearm now' True tm) = next_due tm"
  using first_execute_time_next [OF assms]
  by (cases "m_time_blocks tm = []")
    (auto simp: rearm_def updateTimerFd_def Let_def next_due_def pending_def dest: word_order.extremum_unique [THEN iffD1])

lemma schedule_expired_frame:
  "m_time_blocks (schedule_expired is tm) = m_time_blocks tm" "block_store (schedule_expired is tm) = block_store tm"
  "m_block_size_ms (schedule_expired is tm) = m_block_size_ms tm" "m_base_time (schedule_expired is tm) = m_base_time tm"
  "next_bid (schedule_expired is tm) = next_bid tm" "m_nextTimerTime (schedule_expired is tm) = m_nextTimerTime tm"
  "scheduled (schedule_expired is tm) = scheduled tm @ is"
  "m_timerCount (schedule_expired is tm) = m_timerCount tm - of_nat (length is)"
  by (induction "is" arbitrary: tm) (simp_all add: schedule_expired_def schedule_timer_def)

lemma pending_cong:
  "m_time_blocks tm = m_time_blocks tm' \<Longrightarrow> block_store tm = block_store tm' \<Longrightarrow> pending tm = pending tm'"
  by (simp add: pending_def block_tasks_def)

lemma blocks_inv_cong:
  "m_time_blocks tm = m_time_blocks tm' \<Longrightarrow> block_store tm = block_store tm' \<Longrightarrow>
   m_block_size_ms tm = m_block_size_ms tm' \<Longrightarrow> m_base_time tm = m_base_time tm' \<Longrightarrow>
   next_bid tm = next_bid tm' \<Longrightarrow> blocks_inv tm = blocks_inv tm'"
  by (simp add: blocks_inv_def aligned_def)

lemma expired_pending:
  assumes "blocks_inv tm"
  shows "fst (drain_blocks now (collect_blocks now tm) tm) = map snd (filter (\<lambda>x. fst x \<le> now) (pending tm))"
proof -
  have up: "mm_upto now (block_tasks tm b) = filter (\<lambda>x. fst x \<le> now) (block_tasks tm b)"
    if "(k, b) \<in> set (m_time_blocks tm)" for k b
    using blocks_inv_lookup(1) [OF assms that] by (simp add: mm_upto_filter block_wf_def block_tasks_def)
  have later: "mm_upto now (block_tasks tm b) = []" if "(k, b) \<in> set (m_time_blocks tm)" "\<not> k \<le> now" for k b
    using later_block_future(1) [OF blocks_inv_lookup(1) [OF assms that(1)] that(2)] by (simp add: block_tasks_def)
  have "mm_sorted (m_time_blocks tm)"
    using assms unfolding blocks_inv_def mm_sorted_def by (auto intro: sorted_wrt_mono_rel [of _ "(<)"])
  then have "concat (map (\<lambda>b. map snd (mm_upto now (block_tasks tm b))) (collect_blocks now tm)) =
      concat (map (\<lambda>x. map snd (mm_upto now (block_tasks tm (snd x)))) (m_time_blocks tm))"
    by (simp add: collect_blocks_def mm_upto_filter [of "m_time_blocks tm"] comp_def)
      (rule concat_filter_nonempty, use later in auto)
  also have "\<dots> = concat (map (\<lambda>x. map snd (filter (\<lambda>x. fst x \<le> now) (block_tasks tm (snd x)))) (m_time_blocks tm))"
    by (intro arg_cong [where f = concat] map_cong) (auto simp: up)
  also have "\<dots> = map snd (filter (\<lambda>x. fst x \<le> now) (pending tm))"
    by (simp add: pending_def filter_concat map_concat comp_def)
  finally show ?thesis
    using drain_blocks_effect [OF distinct_collect [OF assms], of now now tm] by simp
qed

text \<open>What \<^verbatim>\<open>onTimerTriggered\<close> does, on any state that satisfies the invariant.\<close>

lemma trigger_effect:
  assumes "tm_inv tm" and tm'_def: "tm' = onTimerTriggered now now' True tm"
  shows "blocks_inv tm'" "pending tm' = filter (\<lambda>x. now < fst x) (pending tm)"
    "scheduled tm' = scheduled tm @ map snd (filter (\<lambda>x. fst x \<le> now) (pending tm))"
    "m_nextTimerTime tm' = next_due tm'" "m_timerCount tm' = of_nat (length (pending tm'))"
proof -
  have inv: "blocks_inv tm" and cnt: "m_timerCount tm = of_nat (length (pending tm))"
    using assms(1) by (simp_all add: tm_inv_def)
  let ?d = "drained now tm" and ?e = "map snd (filter (\<lambda>x. fst x \<le> now) (pending tm))"
  let ?c = "clean_blocks now ?d"
  have tm': "tm' = schedule_expired ?e (rearm now' True ?c)"
    using expired_pending [OF inv, of now]
    by (cases "drain_blocks now (collect_blocks now tm) tm") (simp add: tm'_def onTimerTriggered_def drained_def)
  have ci: "blocks_inv ?c" by (intro clean_blocks_inv drained_blocks_inv inv)
  have cp: "pending ?c = filter (\<lambda>x. now < fst x) (pending tm)"
    using clean_pending [OF drained_blocks_inv [OF inv], of now now] drained_pending [OF inv, of now] by simp
  have ne: "\<forall>(k, b)\<in>set (m_time_blocks ?c). block_tasks ?c b \<noteq> []"
    using clean_nonempty by (fastforce simp: block_tasks_def)
  show bi: "blocks_inv tm'"
    using ci blocks_inv_cong [of tm' ?c] by (simp add: tm' schedule_expired_frame rearm_frame)
  have pc: "pending tm' = pending ?c"
    by (rule pending_cong) (simp_all add: tm' schedule_expired_frame rearm_frame)
  then show p: "pending tm' = filter (\<lambda>x. now < fst x) (pending tm)" using cp by simp
  show "scheduled tm' = scheduled tm @ ?e"
    by (simp add: tm' schedule_expired_frame rearm_frame clean_frame drained_frame)
  show "m_nextTimerTime tm' = next_due tm'"
    using rearm_next [OF ci ne] pc by (simp add: tm' schedule_expired_frame next_due_def)
  have len: "length (pending tm) = length (filter (\<lambda>x. fst x \<le> now) (pending tm)) + length (pending tm')"
    using sum_length_filter_compl [of "\<lambda>x. fst x \<le> now" "pending tm"] p by (simp add: not_le)
  then show "m_timerCount tm' = of_nat (length (pending tm'))"
    by (simp add: tm' schedule_expired_frame rearm_frame clean_frame drained_frame cnt)
qed

lemma sorted_head_min: "mm_sorted xs \<Longrightarrow> x \<in> set xs \<Longrightarrow> (case xs of [] \<Rightarrow> z | y # _ \<Rightarrow> fst y) \<le> fst x"
  by (cases xs) auto

lemma trigger_inv:
  assumes "tm_inv tm"
  shows "tm_inv (onTimerTriggered now now' True tm)"
proof -
  let ?t = "onTimerTriggered now now' True tm"
  note eff = trigger_effect [OF assms refl, of now now']
  have "\<forall>x\<in>set (pending ?t). next_due ?t \<le> fst x"
    using sorted_head_min [OF pending_sorted [OF eff(1)]] unfolding next_due_def by blast
  then show ?thesis using eff(1,4,5) by (simp add: tm_inv_def)
qed

subsection \<open>Filing a task\<close>

text \<open>The slice of a time at or after the base time.\<close>

lemma unat_block_begin:
  assumes "m_base_time tm \<le> et" "m_block_size_ms tm \<noteq> 0"
  shows "unat (block_begin et tm) = unat (m_base_time tm) +
      (unat et - unat (m_base_time tm)) div unat (m_block_size_ms tm) * unat (m_block_size_ms tm)"
    and "aligned tm (block_begin et tm)" and "block_begin et tm \<le> et"
    and "unat et < unat (block_begin et tm) + unat (m_block_size_ms tm)"
proof -
  let ?b = "m_base_time tm" and ?s = "m_block_size_ms tm"
  let ?q = "(unat et - unat ?b) div unat ?s"
  have le: "unat ?b \<le> unat et" using assms(1) by (simp add: word_le_nat_alt)
  have s0: "0 < unat ?s" using assms(2) by (simp add: unat_gt_0)
  have q: "?q * unat ?s \<le> unat et - unat ?b" by simp
  have lt: "unat et < 2 ^ 64" using unsigned_less [of et] by simp
  have "unat ((et - ?b) div ?s) = ?q" using assms(1) by (simp add: unat_div unat_sub)
  moreover have "?q * unat ?s < 2 ^ 64" using q lt by linarith
  ultimately have uX: "unat ((et - ?b) div ?s * ?s) = ?q * unat ?s"
    by (simp add: unat_word_ariths)
  have "unat ?b + ?q * unat ?s < 2 ^ 64" using q lt le by linarith
  then show u: "unat (block_begin et tm) = unat ?b + ?q * unat ?s"
    unfolding block_begin_def unat_word_ariths(1) uX by simp
  show "aligned tm (block_begin et tm)" using u unfolding aligned_def by blast
  show "block_begin et tm \<le> et" unfolding word_le_nat_alt u using q le by linarith
  have "unat et - unat ?b < ?q * unat ?s + unat ?s"
    using s0 by (metis dividend_less_div_times add.commute)
  then show "unat et < unat (block_begin et tm) + unat ?s" using u by simp
qed

lemma strict_sorted_insert:
  "sorted_wrt (<) (map fst xs) \<Longrightarrow> mm_find k xs = None \<Longrightarrow> sorted_wrt (<) (map fst (mm_insert k v xs))"
  by (induction k v xs rule: mm_insert.induct) (auto simp: mm_find_def split: if_splits)

lemma concat_insert_empty:
  "f v = [] \<Longrightarrow> concat (map (\<lambda>x. f (snd x)) (mm_insert k v xs)) = concat (map (\<lambda>x. f (snd x)) xs)"
  by (induction k v xs rule: mm_insert.induct) auto

lemma mset_concat_update:
  "distinct (map snd xs) \<Longrightarrow> (k, b) \<in> set xs \<Longrightarrow> mset (g b) = add_mset x (mset (f b)) \<Longrightarrow>
   (\<And>b'. b' \<noteq> b \<Longrightarrow> g b' = f b') \<Longrightarrow>
   mset (concat (map (\<lambda>x. g (snd x)) xs)) = add_mset x (mset (concat (map (\<lambda>x. f (snd x)) xs)))"
proof (induction xs)
  case (Cons y ys)
  show ?case
  proof (cases "snd y = b")
    case True
    then have "map (\<lambda>x. g (snd x)) ys = map (\<lambda>x. f (snd x)) ys"
      using Cons.prems by (intro map_cong) (auto simp: image_iff)
    then show ?thesis using True Cons.prems by (simp del: map_eq_conv)
  next
    case False
    then show ?thesis using Cons by auto
  qed
qed simp

text \<open>The frame of filing: what it leaves alone.\<close>

definition same_frame :: "'w time_manager \<Rightarrow> 'w time_manager \<Rightarrow> bool" where
  "same_frame tm tm' \<longleftrightarrow> scheduled tm' = scheduled tm \<and> task_store tm' = task_store tm \<and>
     m_block_size_ms tm' = m_block_size_ms tm \<and> m_base_time tm' = m_base_time tm"

lemma publish_block_inv:
  assumes "blocks_inv tm" "mm_find b (m_time_blocks tm) = None" "aligned tm b"
    "unat b + unat (m_block_size_ms tm) < 2 ^ 64"
    and pub: "publish_block b (b + m_block_size_ms tm) tm = (i, tm')"
  shows "blocks_inv tm'" "(b, i) \<in> set (m_time_blocks tm')" "pending tm' = pending tm" "same_frame tm tm'"
    "m_timerCount tm' = m_timerCount tm" "m_nextTimerTime tm' = m_nextTimerTime tm"
proof -
  let ?n = "next_bid tm"
  have tm': "i = ?n" "tm' = tm\<lparr>m_time_blocks := mm_insert b ?n (m_time_blocks tm),
      block_store := (block_store tm)(?n := TimerBlock_new b (b + m_block_size_ms tm)), next_bid := Suc ?n\<rparr>"
    using pub assms(2) by (auto simp: publish_block_def)
  have fresh: "?n \<notin> snd ` set (m_time_blocks tm)"
    using blocks_inv_lookup(3) [OF assms(1)] by fastforce
  have al: "aligned tm' k = aligned tm k" for k by (simp add: aligned_def tm')
  have "block_wf (m_block_size_ms tm) b (TimerBlock_new b (b + m_block_size_ms tm))"
    using assms(4) by (simp add: block_wf_def TimerBlock_new_def)
  moreover have "distinct (map snd (mm_insert b ?n (m_time_blocks tm)))"
  proof -
    have "mset (map snd (mm_insert b ?n (m_time_blocks tm))) = mset (?n # map snd (m_time_blocks tm))" by simp
    then have "distinct (map snd (mm_insert b ?n (m_time_blocks tm))) = distinct (?n # map snd (m_time_blocks tm))"
      by (rule mset_eq_imp_distinct_iff)
    then show ?thesis using assms(1) fresh by (simp add: blocks_inv_def)
  qed
  ultimately show "blocks_inv tm'"
    using assms(1-3) fresh strict_sorted_insert [OF _ assms(2), of ?n] al
    unfolding blocks_inv_def by (auto simp: tm' less_Suc_eq)
  show "(b, i) \<in> set (m_time_blocks tm')" "same_frame tm tm'" "m_timerCount tm' = m_timerCount tm"
    "m_nextTimerTime tm' = m_nextTimerTime tm"
    by (simp_all add: tm' same_frame_def)
  have "map (\<lambda>x. block_tasks tm' (snd x)) (m_time_blocks tm) = map (\<lambda>x. block_tasks tm (snd x)) (m_time_blocks tm)"
    using fresh by (intro map_cong) (auto simp: block_tasks_def tm' image_iff)
  then show "pending tm' = pending tm"
    using concat_insert_empty [of "block_tasks tm'" ?n b "m_time_blocks tm"]
    by (simp add: pending_def tm'(2) block_tasks_def TimerBlock_new_def del: map_eq_conv)
qed

lemma getOrCreate_inv:
  assumes "blocks_inv tm" "now \<le> et" "m_base_time tm \<le> et" "unat et + unat (m_block_size_ms tm) < 2 ^ 64"
  obtains b i tm' where "getOrCreateTimerBlock now et tm = Inr (Some i, tm')" "b = block_begin et tm"
    "blocks_inv tm'" "(b, i) \<in> set (m_time_blocks tm')" "pending tm' = pending tm" "same_frame tm tm'"
    "m_timerCount tm' = m_timerCount tm" "m_nextTimerTime tm' = m_nextTimerTime tm"
proof -
  let ?b = "block_begin et tm" and ?s = "m_block_size_ms tm"
  have s0: "?s \<noteq> 0" using assms(1) by (simp add: blocks_inv_def)
  note bb = unat_block_begin [OF assms(3) s0]
  have room: "unat ?b + unat ?s < 2 ^ 64" using bb(3) assms(4) by (simp add: word_le_nat_alt)
  then have e: "et < ?b + ?s" using bb(4) by (simp add: word_less_nat_alt unat_word_ariths)
  show thesis
  proof (cases "mm_find ?b (m_time_blocks tm)")
    case (Some i)
    then have "(?b, i) \<in> set (m_time_blocks tm)" by (auto simp: mm_find_def dest: map_of_SomeD)
    then show ?thesis
      using that [of i tm ?b] Some assms(1,2) s0
      by (simp add: getOrCreateTimerBlock_def Let_def same_frame_def not_less [symmetric])
  next
    case None
    obtain i tm' where pub: "publish_block ?b (?b + ?s) tm = (i, tm')" by fastforce
    then have "getOrCreateTimerBlock now et tm = Inr (Some i, tm')"
      using None assms(2) s0 e bb(3) by (simp add: getOrCreateTimerBlock_def Let_def not_less [symmetric])
    then show ?thesis
      using that [of i tm' ?b] publish_block_inv [OF assms(1) None bb(2) room pub] by simp
  qed
qed

lemma file_task_inv:
  assumes inv: "tm_inv tm" and mem: "(b, i) \<in> set (m_time_blocks tm)" and rng: "b \<le> et"
    "unat et < unat b + unat (m_block_size_ms tm)"
  obtains tm' where "file_task now True i et t tm = (0, tm')" "tm_inv tm'" "same_frame tm tm'"
    "mset (pending tm') = add_mset (et, t) (mset (pending tm))" "m_nextTimerTime tm' \<le> et"
proof -
  let ?blk = "block_store tm i"
  have bi: "blocks_inv tm" using inv by (simp add: tm_inv_def)
  have wf: "block_wf (m_block_size_ms tm) b ?blk" by (rule blocks_inv_lookup(1) [OF bi mem])
  have in_rng: "\<not> et < start_time ?blk" "\<not> et \<ge> end_time ?blk" "et < end_time ?blk"
    using rng wf unat_end [OF wf] by (simp_all add: block_wf_def word_le_nat_alt word_less_nat_alt)
  let ?t1 = "block_insert i et t tm"
  let ?t2 = "if et < m_nextTimerTime tm then ?t1\<lparr>armed := Some (timer_spec now et), m_nextTimerTime := et\<rparr> else ?t1"
  let ?t3 = "?t2\<lparr>m_timerCount := m_timerCount tm + 1\<rparr>"
  have res: "file_task now True i et t tm = (0, ?t3)"
    using in_rng by (auto simp: file_task_def Let_def block_insert_def updateTimerFd_def)
  have wf': "block_wf (m_block_size_ms tm) b (TimerBlock_insert et t ?blk)"
    using wf in_rng rng by (auto simp: block_wf_def TimerBlock_insert_def mm_sorted_insert)
  have "i' = i \<longleftrightarrow> k = b" if "(k, i') \<in> set (m_time_blocks tm)" for k i'
  proof -
    have d: "distinct (map snd (m_time_blocks tm))" "distinct (map fst (m_time_blocks tm))"
      using bi strict_sorted_iff [of "map fst (m_time_blocks tm)"] by (simp_all add: blocks_inv_def)
    show ?thesis using d that mem by (metis distinct_map fst_conv inj_onD snd_conv prod.inject)
  qed
  then have "blocks_inv ?t3"
    using bi wf' unfolding blocks_inv_def by (auto simp: block_insert_def aligned_def)
  moreover have ms: "mset (pending ?t3) = add_mset (et, t) (mset (pending tm))"
  proof -
    have "mset (concat (map (\<lambda>x. block_tasks ?t1 (snd x)) (m_time_blocks tm))) =
        add_mset (et, t) (mset (concat (map (\<lambda>x. block_tasks tm (snd x)) (m_time_blocks tm))))"
      by (rule mset_concat_update [OF _ mem])
        (use bi in \<open>auto simp: blocks_inv_def block_tasks_def block_insert_def TimerBlock_insert_def\<close>)
    moreover have "pending ?t3 = pending ?t1"
      by (rule pending_cong) (simp_all add: block_insert_def)
    ultimately show ?thesis by (simp add: pending_def block_insert_def block_tasks_def)
  qed
  moreover have "length (pending ?t3) = Suc (length (pending tm))"
    using ms by (metis size_add_mset size_mset)
  moreover have st: "set (pending ?t3) = insert (et, t) (set (pending tm))"
    using ms by (metis set_mset_add_mset_insert set_mset_mset)
  moreover have nx: "m_nextTimerTime ?t3 \<le> et" "m_nextTimerTime ?t3 \<le> m_nextTimerTime tm"
    by (auto simp: block_insert_def)
  ultimately have "tm_inv ?t3"
    using inv unfolding tm_inv_def by (auto intro: order_trans)
  then show thesis
    using that [of ?t3] res ms nx(1) by (simp add: same_frame_def block_insert_def)
qed

text \<open>Insertion of a future task, the way \<^verbatim>\<open>addTimer\<close> and the re-enrolment use it.\<close>

lemma insert_future:
  assumes "tm_inv tm" and et: "et = m_execute_ms (task_store tm i)"
    and "now1 clk < et" "now2 clk \<le> et" "m_base_time tm \<le> et" "unat et + unat (m_block_size_ms tm) < 2 ^ 64"
  obtains tm' where "insertTimeTask clk True (Some i) tm = Inr (0, tm')" "tm_inv tm'" "same_frame tm tm'"
    "mset (pending tm') = add_mset (et, i) (mset (pending tm))" "m_nextTimerTime tm' \<le> et"
proof -
  have bi: "blocks_inv tm" using assms(1) by (simp add: tm_inv_def)
  then have s0: "m_block_size_ms tm \<noteq> 0" by (simp add: blocks_inv_def)
  obtain b j tm1 where g: "getOrCreateTimerBlock (now2 clk) et tm = Inr (Some j, tm1)" "b = block_begin et tm"
      "blocks_inv tm1" "(b, j) \<in> set (m_time_blocks tm1)" "pending tm1 = pending tm" "same_frame tm tm1"
      "m_timerCount tm1 = m_timerCount tm" "m_nextTimerTime tm1 = m_nextTimerTime tm"
    by (rule getOrCreate_inv [OF bi assms(4-6)])
  have inv1: "tm_inv tm1" using assms(1) g by (simp add: tm_inv_def)
  have "m_block_size_ms tm1 = m_block_size_ms tm" using g(6) by (simp add: same_frame_def)
  then have rng: "b \<le> et" "unat et < unat b + unat (m_block_size_ms tm1)"
    using unat_block_begin(3,4) [OF assms(5) s0] g(2) by simp_all
  obtain tm' where f: "file_task (now3 clk) True j et i tm1 = (0, tm')" "tm_inv tm'" "same_frame tm1 tm'"
      "mset (pending tm') = add_mset (et, i) (mset (pending tm1))" "m_nextTimerTime tm' \<le> et"
    by (rule file_task_inv [OF inv1 g(4) rng])
  have "insertTimeTask clk True (Some i) tm = Inr (0, tm')"
    using assms(3) g(1) f(1) by (simp add: insertTimeTask_def Let_def et [symmetric] not_le)
  then show thesis
    using that [of tm'] f g(5,6) by (simp add: same_frame_def)
qed

lemma new_tm_inv: "bl \<noteq> 0 \<Longrightarrow> tm_inv (snd (snd (TimeManager_init fd now (TimeManager_new bl))))"
  by (simp add: tm_inv_def blocks_inv_def TimeManager_init_def TimeManager_new_def pending_def)

subsection \<open>Properties\<close>

text \<open>A manager with 3000 ms blocks, started at time 1000, with a task due at 1500, for the witnesses.\<close>

definition demo_task :: "nat time_task" where
  "demo_task = TimeTask_create 1000 500 False (\<lambda>w. (False, Suc w)) None None"

definition demo_tm :: "nat time_manager" where
  "demo_tm = (snd (snd (TimeManager_init 3 1000 (TimeManager_new 3000))))\<lparr>task_store := (\<lambda>_. demo_task)\<rparr>"

definition demo_clock :: clock3 where
  "demo_clock = \<lparr>now1 = 1000, now2 = 1001, now3 = 1001\<rparr>"

lemma demo_inv: "tm_inv demo_tm"
  by (simp add: tm_inv_def blocks_inv_def demo_tm_def TimeManager_init_def TimeManager_new_def pending_def)

lemma demo_fields:
  "m_execute_ms (task_store demo_tm i) = 1500" "m_base_time demo_tm = 1000" "m_block_size_ms demo_tm = 3000"
  "now1 demo_clock = 1000" "now2 demo_clock = 1001" "pending demo_tm = []" "scheduled demo_tm = []"
  by (simp_all add: demo_tm_def demo_task_def demo_clock_def TimeTask_create_def TimeManager_init_def
      TimeManager_new_def pending_def)

lemma demo_inserted:
  obtains tm' where "insertTimeTask demo_clock True (Some 7) demo_tm = Inr (0, tm')" "tm_inv tm'"
    "pending tm' = [(1500, 7)]" "scheduled tm' = []"
  by (rule insert_future [OF demo_inv refl, of demo_clock 7])
    (simp_all add: demo_fields same_frame_def)

text \<open>
  C4. When the timer fires at time \<open>now\<close>, every task that is due is scheduled exactly once, in the
  order of the due times, every other task stays filed, the manager is left with its next
  trigger time at the earliest remaining task (or none), and its invariant holds again.
\<close>

theorem trigger_schedules_exactly_due:
  assumes "tm_inv tm"
  shows "let tm' = onTimerTriggered now now' True tm in
     tm_inv tm' \<and>
     scheduled tm' = scheduled tm @ map snd (filter (\<lambda>x. fst x \<le> now) (pending tm)) \<and>
     pending tm' = filter (\<lambda>x. now < fst x) (pending tm) \<and>
     mm_sorted (pending tm) \<and>
     m_nextTimerTime tm' = (case pending tm' of [] \<Rightarrow> u64_max | x # _ \<Rightarrow> fst x)"
  using trigger_effect [OF assms refl, of now now'] trigger_inv [OF assms, of now now'] pending_sorted [of tm] assms
  by (simp add: Let_def next_due_def tm_inv_def)

theorem trigger_schedules_exactly_due_witness:
  "\<exists>tm'. insertTimeTask demo_clock True (Some 7) demo_tm = Inr (0, tm') \<and>
     scheduled (onTimerTriggered 1499 1499 True tm') = [] \<and>
     scheduled (onTimerTriggered 1500 1500 True tm') = [7] \<and>
     pending (onTimerTriggered 1500 1500 True tm') = []"
proof (rule demo_inserted)
  fix tm' assume t: "insertTimeTask demo_clock True (Some 7) demo_tm = Inr (0, tm')" "tm_inv tm'"
    "pending tm' = [(1500, 7)]" "scheduled tm' = []"
  then show ?thesis
    using trigger_schedules_exactly_due [OF t(2), of 1499 1499] trigger_schedules_exactly_due [OF t(2), of 1500 1500]
    by (simp add: Let_def)
qed

text \<open>
  Inserting a task whose time is still in the future at both clock readings succeeds: the
  task is filed exactly once in the block of its time slice, nothing else changes, the timerfd
  is armed no later than its due time, and the manager's invariant is kept.
\<close>

theorem insert_files_task:
  assumes "tm_inv tm" "now1 clk < m_execute_ms (task_store tm i)" "now2 clk \<le> m_execute_ms (task_store tm i)"
    "m_base_time tm \<le> m_execute_ms (task_store tm i)"
    "unat (m_execute_ms (task_store tm i)) + unat (m_block_size_ms tm) < 2 ^ 64"
  shows "\<exists>tm'. insertTimeTask clk True (Some i) tm = Inr (0, tm') \<and> tm_inv tm' \<and>
     mset (pending tm') = add_mset (m_execute_ms (task_store tm i), i) (mset (pending tm)) \<and>
     scheduled tm' = scheduled tm \<and> m_nextTimerTime tm' \<le> m_execute_ms (task_store tm i)"
  by (rule insert_future [OF assms(1) refl assms(2-5)]) (auto simp: same_frame_def)

theorem insert_files_task_witness:
  "\<exists>tm'. insertTimeTask demo_clock True (Some 7) demo_tm = Inr (0, tm') \<and> tm_inv tm' \<and>
     mset (pending tm') = add_mset (1500, 7) (mset (pending demo_tm)) \<and>
     scheduled tm' = scheduled demo_tm \<and> m_nextTimerTime tm' \<le> 1500"
  using insert_files_task [OF demo_inv, of demo_clock 7] by (simp add: demo_fields)

text \<open>
  End to end: a task inserted for the future is not scheduled by a trigger before its time
  and is scheduled by the first trigger at or after it, whatever other tasks are filed.
\<close>

theorem inserted_task_fires_on_time:
  assumes "tm_inv tm" "now1 clk < m_execute_ms (task_store tm i)" "now2 clk \<le> m_execute_ms (task_store tm i)"
    "m_base_time tm \<le> m_execute_ms (task_store tm i)"
    "unat (m_execute_ms (task_store tm i)) + unat (m_block_size_ms tm) < 2 ^ 64"
    and ins: "insertTimeTask clk True (Some i) tm = Inr (rc, tm')"
  shows "(m_execute_ms (task_store tm i) \<le> now \<longrightarrow>
        i \<in> set (drop (length (scheduled tm')) (scheduled (onTimerTriggered now now' True tm')))) \<and>
     (now < m_execute_ms (task_store tm i) \<longrightarrow>
        (m_execute_ms (task_store tm i), i) \<in> set (pending (onTimerTriggered now now' True tm')))"
proof (rule insert_future [OF assms(1) refl assms(2-5)])
  let ?et = "m_execute_ms (task_store tm i)"
  fix tm2 assume t: "insertTimeTask clk True (Some i) tm = Inr (0, tm2)" "tm_inv tm2"
    "mset (pending tm2) = add_mset (?et, i) (mset (pending tm))"
  have mem: "(?et, i) \<in> set (pending tm2)" using t(3) by (metis set_mset_mset union_single_eq_member)
  have "tm' = tm2" using t(1) ins by simp
  then show ?thesis
    using trigger_effect(2,3) [OF t(2) refl, of now now'] mem by force
qed

theorem inserted_task_fires_on_time_witness:
  "\<exists>tm'. insertTimeTask demo_clock True (Some 7) demo_tm = Inr (0, tm') \<and>
     7 \<in> set (drop (length (scheduled tm')) (scheduled (onTimerTriggered 2000 2001 True tm')))"
proof (rule demo_inserted)
  fix tm' assume t: "insertTimeTask demo_clock True (Some 7) demo_tm = Inr (0, tm')"
  then show ?thesis
    using inserted_task_fires_on_time [OF demo_inv _ _ _ _ t, of 2000 2001] by (simp add: demo_fields)
qed

text \<open>
  The time the timerfd is armed with: the interval to the due time in seconds and
  nanoseconds, the latter below one second, and never zero, which would disarm the timer.
\<close>

theorem timer_spec_exact:
  "let (sec, nsec) = timer_spec now et in
     unat nsec < 1000000000 \<and> (sec, nsec) \<noteq> (0, 0) \<and>
     (now < et \<longrightarrow> unat sec * 1000 + unat nsec div 1000000 = unat et - unat now)"
proof (cases "et \<le> now")
  case False
  let ?d = "unat et - unat now"
  have lt: "now < et" using False by simp
  have d: "unat (et - now) = ?d" using lt by (simp add: unat_sub)
  have pos: "0 < ?d" using lt by (simp add: word_less_nat_alt)
  have sec: "unat ((et - now) div 1000) = ?d div 1000" using d by (simp add: unat_div)
  have "unat ((et - now) mod 1000) = ?d mod 1000" using d by (simp add: unat_mod)
  moreover have m: "?d mod 1000 < 1000" by simp
  then have "?d mod 1000 * 1000000 < 2 ^ 64" by simp
  ultimately have nsec: "unat ((et - now) mod 1000 * 1000000) = ?d mod 1000 * 1000000"
    by (simp add: unat_word_ariths)
  have "?d div 1000 * 1000 + ?d mod 1000 = ?d" by simp
  moreover have "?d mod 1000 * 1000000 < 1000000000" using m by simp
  moreover have "((et - now) div 1000, (et - now) mod 1000 * 1000000) \<noteq> (0, 0)"
    using sec nsec pos calculation(1) by (auto simp: word_unat_eq_iff)
  ultimately show ?thesis
    using False sec nsec by (simp add: timer_spec_def)
qed (simp add: timer_spec_def)

theorem timer_spec_exact_witness:
  "timer_spec 1000 3456 = (2, 456000000) \<and>
   (let (sec, nsec) = timer_spec 1000 3456 in unat sec * 1000 + unat nsec div 1000000 = 2456)"
proof -
  have "timer_spec 1000 3456 = (2, 456000000)" by code_simp
  then show ?thesis using timer_spec_exact [of 1000 3456] by (simp add: Let_def)
qed

text \<open>
  A timer can be dropped: when the clock passes the due time between the reading in
  \<^verbatim>\<open>insertTimeTask\<close> and the one in \<^verbatim>\<open>getOrCreateTimerBlock\<close>, the task is neither scheduled nor
  filed; \<^verbatim>\<open>addTimer\<close> returns it as if it had been added.
\<close>

theorem timer_dropped_when_clock_ticks:
  assumes "now1 clk < m_execute_ms (task_store tm i)" "m_execute_ms (task_store tm i) < now2 clk"
  shows "insertTimeTask clk ok (Some i) tm = Inr (-1, tm) \<and> addTimer clk ok i tm = Inr (i, tm)"
  using assms by (simp add: insertTimeTask_def addTimer_def getOrCreateTimerBlock_def Let_def not_le)

theorem timer_dropped_when_clock_ticks_witness:
  "addTimer \<lparr>now1 = 1499, now2 = 1501, now3 = 1501\<rparr> True 7 demo_tm = Inr (7, demo_tm) \<and> pending demo_tm = []"
  using timer_dropped_when_clock_ticks [of "\<lparr>now1 = 1499, now2 = 1501, now3 = 1501\<rparr>" demo_tm 7 True]
  by (simp add: demo_fields)

lemma drain_task_store:
  "drain_blocks now bs (t\<lparr>task_store := u\<rparr>) =
    (fst (drain_blocks now bs t), (snd (drain_blocks now bs t))\<lparr>task_store := u\<rparr>)"
proof (induction bs arbitrary: t)
  case (Cons b bs)
  let ?s = "(block_store t)(b := snd (TimerBlock_getAndRemove now (block_store t b)))"
  have "drain_blocks now bs (t\<lparr>task_store := u, block_store := ?s\<rparr>) =
      drain_blocks now bs ((t\<lparr>block_store := ?s\<rparr>)\<lparr>task_store := u\<rparr>)"
    by (rule arg_cong [where f = "drain_blocks now bs"]) simp
  also note Cons.IH [of "t\<lparr>block_store := ?s\<rparr>"]
  finally show ?case
    by (simp add: drain_Cons Let_def block_tasks_def del: drain_blocks.simps(2))
qed simp

text \<open>
  Cancelling does not stop a filed timer: the trigger schedules a cancelled task like any
  other, and running a cancelled task without a condition still calls its callback; only a
  cyclic task is not filed again.
\<close>

theorem cancelled_timer_still_runs:
  assumes "m_condition (task_store tm i) = None"
  shows "scheduled (onTimerTriggered now now' ok (cancelTimer i tm)) = scheduled (onTimerTriggered now now' ok tm) \<and>
    (\<exists>tm'. runTimeTask clk ok' i w (cancelTimer i tm) = Inr (snd (m_main_cb (task_store tm i) w), tm') \<and>
       pending tm' = pending tm)"
proof -
  have "scheduled (onTimerTriggered now now' ok (t\<lparr>task_store := u\<rparr>)) = scheduled (onTimerTriggered now now' ok t)" for t u
    by (simp add: onTimerTriggered_def drain_task_store collect_blocks_def schedule_expired_frame rearm_frame clean_frame
        split: prod.splits)
  then have "scheduled (onTimerTriggered now now' ok (cancelTimer i tm)) = scheduled (onTimerTriggered now now' ok tm)"
    by (simp add: cancelTimer_def)
  moreover have "\<exists>tm'. runTimeTask clk ok' i w (cancelTimer i tm) = Inr (snd (m_main_cb (task_store tm i) w), tm') \<and>
       pending tm' = pending tm"
    using assms by (auto simp: runTimeTask_def TimeTask_runner_def cancelTimer_def TimeTask_cancel_def after_cb_def
        TimeTask_next_def pending_def block_tasks_def)
  ultimately show ?thesis by blast
qed

theorem cancelled_timer_still_runs_witness:
  "\<exists>tm'. runTimeTask demo_clock True 7 (41 :: nat) (cancelTimer 7 demo_tm) = Inr (42, tm')"
proof -
  have "m_condition (task_store demo_tm 7) = None" "m_main_cb (task_store demo_tm 7) 41 = (False, 42)"
    by (simp_all add: demo_tm_def demo_task_def TimeTask_create_def)
  then show ?thesis using cancelled_timer_still_runs [of demo_tm 7 0 0 True demo_clock True 41] by auto
qed

text \<open>
  A trigger that runs between the two halves of an insertion. A new block has no task until
  \<^verbatim>\<open>block->insert\<close>, and cleaning removes blocks without tasks.
\<close>

lemma drain_empty_block:
  "time_tasks (block_store tm b) = [] \<Longrightarrow>
   block_store (snd (drain_blocks now bs tm)) b = block_store tm b"
proof (induction bs arbitrary: tm)
  case (Cons c bs)
  have "snd (TimerBlock_getAndRemove now (block_store tm c)) = block_store tm c" if "c = b"
    using Cons.prems that by (simp add: TimerBlock_getAndRemove_def mm_upto_def mm_after_def)
  then have "((block_store tm)(c := snd (TimerBlock_getAndRemove now (block_store tm c)))) b = block_store tm b"
    by auto
  then show ?case
    using Cons.IH [of "tm\<lparr>block_store := (block_store tm)(c := snd (TimerBlock_getAndRemove now (block_store tm c)))\<rparr>"]
      Cons.prems by (simp add: drain_Cons Let_def del: drain_blocks.simps(2))
qed simp

lemma trigger_frame:
  "m_time_blocks (onTimerTriggered now now' ok tm) = m_time_blocks (clean_blocks now (drained now tm))"
  "block_store (onTimerTriggered now now' ok tm) = block_store (drained now tm)"
  by (simp_all add: onTimerTriggered_def drained_def schedule_expired_frame rearm_frame clean_frame split: prod.splits)

lemma trigger_removes_empty:
  assumes "time_tasks (block_store tm b) = []"
  shows "b \<notin> snd ` set (m_time_blocks (onTimerTriggered now now' ok tm))"
    and "block_store (onTimerTriggered now now' ok tm) b = block_store tm b"
proof -
  have st: "block_store (drained now tm) b = block_store tm b"
    by (simp add: drained_def drain_empty_block assms)
  then show "block_store (onTimerTriggered now now' ok tm) b = block_store tm b" by (simp add: trigger_frame)
  show "b \<notin> snd ` set (m_time_blocks (onTimerTriggered now now' ok tm))"
    using st assms by (auto simp: trigger_frame clean_blocks_def TimerBlock_empty_def)
qed

lemma fresh_block:
  assumes "getOrCreateTimerBlock now et tm = Inr (Some b, tm1)"
    "mm_find (block_begin et tm) (m_time_blocks tm) = None"
  shows "time_tasks (block_store tm1 b) = []" "start_time (block_store tm1 b) \<le> et" "et < end_time (block_store tm1 b)"
  using assms by (auto simp: getOrCreateTimerBlock_def publish_block_def TimerBlock_new_def Let_def split: if_splits)

lemma file_task_orphan:
  assumes "start_time (block_store tm b) \<le> et" "et < end_time (block_store tm b)"
    "b \<notin> snd ` set (m_time_blocks tm)"
  shows "\<exists>tm'. file_task now True b et i tm = (0, tm') \<and> pending tm' = pending tm \<and> scheduled tm' = scheduled tm"
proof -
  have "map (\<lambda>x. time_tasks (if snd x = b then c else block_store tm (snd x))) (m_time_blocks tm) =
      map (\<lambda>x. time_tasks (block_store tm (snd x))) (m_time_blocks tm)" for c
    using assms(3) by (intro map_cong) auto
  then show ?thesis
    using assms(1,2) by (auto simp: file_task_def block_insert_def updateTimerFd_def pending_def block_tasks_def not_less
      not_le Let_def simp del: map_eq_conv)
qed

text \<open>
  An insertion and a trigger that run at the same time can lose the timer: when the trigger
  runs after \<^verbatim>\<open>getOrCreateTimerBlock\<close> published the new block and before the task is put into
  it, the block is erased as empty and the task is filed in a block the manager no longer
  knows. The insertion reports success, but the task is neither pending nor scheduled.
\<close>

theorem insert_lost_by_concurrent_trigger:
  assumes "getOrCreateTimerBlock t2 et tm = Inr (Some b, tm1)"
    "mm_find (block_begin et tm) (m_time_blocks tm) = None"
  shows "let tm2 = onTimerTriggered now now' ok tm1; (rc, tm3) = file_task t3 True b et i tm2
    in rc = 0 \<and> pending tm3 = pending tm2 \<and> scheduled tm3 = scheduled tm2"
proof -
  note fresh = fresh_block [OF assms]
  let ?tm2 = "onTimerTriggered now now' ok tm1"
  have "\<exists>tm3. file_task t3 True b et i ?tm2 = (0, tm3) \<and> pending tm3 = pending ?tm2 \<and> scheduled tm3 = scheduled ?tm2"
    by (rule file_task_orphan) (use fresh trigger_removes_empty [OF fresh(1)] in simp_all)
  then show ?thesis by auto
qed

theorem insert_lost_by_concurrent_trigger_witness:
  "\<exists>tm1. getOrCreateTimerBlock 1400 1500 demo_tm = Inr (Some 0, tm1) \<and>
     (let (rc, tm3) = file_task 1400 True 0 1500 7 (onTimerTriggered 1400 1400 True tm1)
      in rc = 0 \<and> (1500, 7) \<notin> set (pending tm3) \<and> 7 \<notin> set (scheduled tm3))"
proof -
  let ?r = "getOrCreateTimerBlock 1400 1500 demo_tm"
  have "\<not> isl ?r \<and> fst (projr ?r) = Some 0" by code_simp
  then have r: "?r = Inr (Some 0, snd (projr ?r))" by (cases ?r) (auto simp: prod_eq_iff)
  have f: "mm_find (block_begin 1500 demo_tm) (m_time_blocks demo_tm) = None"
    and p: "pending (onTimerTriggered 1400 1400 True (snd (projr ?r))) = []"
      "scheduled (onTimerTriggered 1400 1400 True (snd (projr ?r))) = []"
    by code_simp+
  show ?thesis
    using insert_lost_by_concurrent_trigger [OF r f, of 1400 1400 True 1400 7] p
    by (intro exI [of _ "snd (projr ?r)"]) (auto simp: r [symmetric] Let_def split: prod.splits)
qed

end
