(* ===== verification/Timeout.thy ===== *)
theory Timeout
  imports Timer
begin

section \<open>Time limits (basic/timer: \<^verbatim>\<open>TimeLimitInfo\<close> and its users)\<close>

text \<open>
  \<^verbatim>\<open>addEventWithTimeout\<close> and \<^verbatim>\<open>addTaskWithTimeout\<close> start a race between a timer and an event (or
  the end of a task). Both sides first try to move a shared atomic state away from
  \<open>WAITING\<close>; the side that wins runs its closure. A closure is the list of the effects it
  has on shared state, in program order. The sequential meaning of the closures plugs into
  the timer tasks of the timer component; their concurrent meaning is a step relation in
  which the effects of any number of invocations interleave.
\<close>

datatype limit_state = WAITING | FINISHED | ERROR | TIMEOUT

definition setState :: "limit_state \<Rightarrow> limit_state \<Rightarrow> limit_state \<Rightarrow> int \<times> limit_state" where
  "setState origin_state new_state m_state =
     (if m_state = origin_state then (0, new_state) else (-1, m_state))"

datatype effect =
    SetRt limit_state
  | CancelTimer
  | CloseWithNoClose int
  | DelEvent int nat
  | ScheduleTask
  | TimeoutCb

text \<open>
  What the closures share: the atomic state, the caller's state variable (\<open>None\<close> for a null
  pointer), the flag of the timer, and the calls made so far.
\<close>

record limit_world =
  exeInfo :: limit_state
  rtState :: "limit_state option"
  canceled :: bool
  calls :: "effect list"

definition exec_effect :: "effect \<Rightarrow> limit_world \<Rightarrow> limit_world" where
  "exec_effect e w =
     (case e of
        SetRt s \<Rightarrow> w\<lparr>rtState := map_option (\<lambda>_. s) (rtState w)\<rparr>
      | CancelTimer \<Rightarrow> w\<lparr>canceled := True\<rparr>
      | _ \<Rightarrow> w\<lparr>calls := calls w @ [e]\<rparr>)"

definition exec_body :: "effect list \<Rightarrow> limit_world \<Rightarrow> limit_world" where
  "exec_body es w = fold exec_effect es w"

subsection \<open>The closures\<close>

definition timeout_body :: "int \<Rightarrow> nat \<Rightarrow> bool \<Rightarrow> effect list" where
  "timeout_body fd event closeFlag =
     [SetRt TIMEOUT, if closeFlag then CloseWithNoClose fd else DelEvent fd event, ScheduleTask]"

definition event_body :: "effect list" where
  "event_body = [SetRt FINISHED, CancelTimer, ScheduleTask]"

definition timeout_condition :: "limit_world \<Rightarrow> bool \<times> bool \<times> limit_world" where
  "timeout_condition w =
     (let (rc, s) = setState WAITING TIMEOUT (exeInfo w) in (rc = 0, False, w\<lparr>exeInfo := s\<rparr>))"

definition event_callback :: "limit_world \<Rightarrow> limit_world" where
  "event_callback w =
     (let (rc, s) = setState WAITING FINISHED (exeInfo w); w1 = w\<lparr>exeInfo := s\<rparr>
      in if rc = 0 then exec_body event_body w1 else w1)"

definition task_timeout_body :: "bool \<Rightarrow> bool \<Rightarrow> effect list" where
  "task_timeout_body has_rt has_cb =
     (if has_rt then [SetRt TIMEOUT] else []) @ (if has_cb then [TimeoutCb] else [])"

definition finished_body :: "bool \<Rightarrow> bool \<Rightarrow> effect list" where
  "finished_body has_rt has_timer =
     (if has_rt then [SetRt FINISHED] else []) @ (if has_timer then [CancelTimer] else [])"

definition createTaskTimeoutTimer :: "u64 \<Rightarrow> u64 \<Rightarrow> bool \<Rightarrow> bool \<Rightarrow> limit_world time_task" where
  "createTaskTimeoutTimer now timeout_ms has_rt has_cb =
     TimeTask_create now timeout_ms False (\<lambda>w. (False, exec_body (task_timeout_body has_rt has_cb) w))
       (Some timeout_condition) (Some (Pair False))"

definition markTaskFinished :: "bool \<Rightarrow> bool \<Rightarrow> limit_world \<Rightarrow> limit_world" where
  "markTaskFinished has_rt has_timer w =
     (let (rc, s) = setState WAITING FINISHED (exeInfo w); w1 = w\<lparr>exeInfo := s\<rparr>
      in if rc = 0 then exec_body (finished_body has_rt has_timer) w1 else w1)"

subsection \<open>The entry points\<close>

text \<open>
  The new timer gets the identity \<open>i\<close>; the registration handed to \<^verbatim>\<open>iom->addEvent\<close> is
  returned beside the manager's state. \<^verbatim>\<open>*rtState\<close> is written without a test, so the caller
  has to pass a valid pointer.
\<close>

record registration =
  reg_fd :: int
  reg_event :: nat
  reg_cb :: "limit_world \<Rightarrow> limit_world"

definition store_task :: "tid \<Rightarrow> 'w time_task \<Rightarrow> 'w time_manager \<Rightarrow> 'w time_manager" where
  "store_task i t tm = tm\<lparr>task_store := (task_store tm)(i := t)\<rparr>"

definition addEventWithTimeout ::
  "u64 \<Rightarrow> clock3 \<Rightarrow> bool \<Rightarrow> tid \<Rightarrow> int \<Rightarrow> nat \<Rightarrow> u64 \<Rightarrow> bool \<Rightarrow> limit_world time_manager \<Rightarrow>
   failure + (registration \<times> limit_world time_manager)" where
  "addEventWithTimeout now clk settime_ok i fd event timeout closeFlag tm =
     (let t = TimeTask_create now timeout False (\<lambda>w. (False, exec_body (timeout_body fd event closeFlag) w))
                (Some timeout_condition) (Some (Pair False));
          reg = \<lparr>reg_fd = fd, reg_event = event, reg_cb = event_callback\<rparr>
      in case addConditionTimer clk settime_ok i (store_task i t tm) of
           Inl e \<Rightarrow> Inl e
         | Inr (_, tm') \<Rightarrow> Inr (reg, tm'))"

text \<open>
  The result's first part is the task handed to \<^verbatim>\<open>m_iom->schedule\<close>: the caller's work, which
  may throw, followed by \<^verbatim>\<open>markTaskFinished\<close> on both exits.
\<close>

definition addTaskWithTimeout ::
  "u64 \<Rightarrow> clock3 \<Rightarrow> bool \<Rightarrow> tid \<Rightarrow> (limit_world \<Rightarrow> (unit + unit) \<times> limit_world) \<Rightarrow> u64 \<Rightarrow> bool \<Rightarrow> bool \<Rightarrow>
   limit_world time_manager \<Rightarrow> failure + ((limit_world \<Rightarrow> limit_world) \<times> limit_world time_manager)" where
  "addTaskWithTimeout now clk settime_ok i func timeout has_rt has_cb tm =
     (let t = createTaskTimeoutTimer now timeout has_rt has_cb;
          task = (\<lambda>w. case func w of (Inl _, w') \<Rightarrow> markTaskFinished has_rt True w'
                                   | (Inr _, w') \<Rightarrow> markTaskFinished has_rt True w')
      in case addConditionTimer clk settime_ok i (store_task i t tm) of
           Inl e \<Rightarrow> Inl e
         | Inr (_, tm') \<Rightarrow> Inr (task, tm'))"

subsection \<open>Interleavings\<close>

text \<open>
  A state of the race: the shared world, and for every invocation that won its
  compare-and-exchange and has not returned the effects it still has to perform. An
  invocation of either side may start at any time and any number of times.
\<close>

record race =
  world :: limit_world
  running :: "effect list list"

definition cas :: "limit_state \<Rightarrow> effect list \<Rightarrow> race \<Rightarrow> race" where
  "cas new_state body r =
     (let (rc, s) = setState WAITING new_state (exeInfo (world r));
          r1 = r\<lparr>world := (world r)\<lparr>exeInfo := s\<rparr>\<rparr>
      in if rc = 0 then r1\<lparr>running := body # running r1\<rparr> else r1)"

inductive race_step :: "effect list \<Rightarrow> effect list \<Rightarrow> race \<Rightarrow> race \<Rightarrow> bool" for tb eb where
  timer_fires: "race_step tb eb r (cas TIMEOUT tb r)"
| event_occurs: "race_step tb eb r (cas FINISHED eb r)"
| performs: "running r = bs @ (e # es) # cs \<Longrightarrow>
    race_step tb eb r (r\<lparr>world := exec_effect e (world r), running := bs @ es # cs\<rparr>)"
| returns: "running r = bs @ [] # cs \<Longrightarrow> race_step tb eb r (r\<lparr>running := bs @ cs\<rparr>)"

inductive_simps race_step_iff: "race_step tb eb r r'"

inductive race_reachable :: "effect list \<Rightarrow> effect list \<Rightarrow> limit_world \<Rightarrow> race \<Rightarrow> bool" for tb eb w0 where
  start: "race_reachable tb eb w0 \<lparr>world = w0, running = []\<rparr>"
| step: "race_reachable tb eb w0 r \<Longrightarrow> race_step tb eb r r' \<Longrightarrow> race_reachable tb eb w0 r'"

definition body_of :: "effect list \<Rightarrow> effect list \<Rightarrow> limit_state \<Rightarrow> effect list" where
  "body_of tb eb s = (if s = TIMEOUT then tb else if s = FINISHED then eb else [])"

text \<open>What has been performed is a prefix of one closure, the winner's; its rest is still running.\<close>

definition race_inv :: "effect list \<Rightarrow> effect list \<Rightarrow> limit_world \<Rightarrow> race \<Rightarrow> bool" where
  "race_inv tb eb w0 r \<longleftrightarrow>
     exeInfo (world r) \<noteq> ERROR \<and>
     (\<exists>dn rest. world r = (exec_body dn w0)\<lparr>exeInfo := exeInfo (world r)\<rparr> \<and>
        body_of tb eb (exeInfo (world r)) = dn @ rest \<and>
        (running r = [] \<and> rest = [] \<or> exeInfo (world r) \<noteq> WAITING \<and> running r = [rest]))"

lemma exec_body_append: "exec_body (xs @ ys) w = exec_body ys (exec_body xs w)"
  by (simp add: exec_body_def)

lemma exec_effect_exeInfo [simp]: "exeInfo (exec_effect e w) = exeInfo w"
  by (simp add: exec_effect_def split: effect.splits)

lemma exec_effect_set_exeInfo: "exec_effect e (w\<lparr>exeInfo := s\<rparr>) = (exec_effect e w)\<lparr>exeInfo := s\<rparr>"
  by (cases w) (simp add: exec_effect_def split: effect.splits)

lemma exec_body_exeInfo [simp]: "exeInfo (exec_body es w) = exeInfo w"
  by (induction es arbitrary: w) (simp_all add: exec_body_def)

lemma exec_body_set_exeInfo: "exec_body es (w\<lparr>exeInfo := s\<rparr>) = (exec_body es w)\<lparr>exeInfo := s\<rparr>"
  by (induction es arbitrary: w) (simp_all add: exec_body_def exec_effect_set_exeInfo)

lemma split_singleton: "bs @ y # cs = [x] \<longleftrightarrow> bs = [] \<and> cs = [] \<and> x = y"
  by (cases bs) auto

lemma cas_inv:
  assumes "race_inv tb eb w0 r" "s = TIMEOUT \<and> body = tb \<or> s = FINISHED \<and> body = eb"
  shows "race_inv tb eb w0 (cas s body r)"
proof (cases "exeInfo (world r) = WAITING")
  case True
  then have "world r = w0\<lparr>exeInfo := WAITING\<rparr>" "running r = []"
    using assms(1) by (auto simp: race_inv_def body_of_def exec_body_def)
  then have "world (cas s body r) = (exec_body [] w0)\<lparr>exeInfo := s\<rparr>" "running (cas s body r) = [body]"
    by (simp_all add: cas_def setState_def exec_body_def)
  then show ?thesis
    using assms(2) unfolding race_inv_def by (intro conjI exI [of _ "[]"] exI [of _ body]) (auto simp: body_of_def)
next
  case False
  then have "cas s body r = r" by (simp add: cas_def setState_def)
  then show ?thesis using assms(1) by simp
qed

lemma race_step_inv:
  assumes "race_step tb eb r r'" "race_inv tb eb w0 r"
  shows "race_inv tb eb w0 r'"
  using assms
proof cases
  case (performs bs e es cs)
  obtain dn rest where d: "world r = (exec_body dn w0)\<lparr>exeInfo := exeInfo (world r)\<rparr>"
    "body_of tb eb (exeInfo (world r)) = dn @ rest" "exeInfo (world r) \<noteq> WAITING" "running r = [rest]"
    using assms(2) performs by (auto simp: race_inv_def)
  then have one: "bs = []" "cs = []" "rest = e # es" using performs by (simp_all add: split_singleton)
  have "exec_effect e (world r) = (exec_body (dn @ [e]) w0)\<lparr>exeInfo := exeInfo (world r)\<rparr>"
    using exec_effect_set_exeInfo [of e "exeInfo (world r)" "exec_body dn w0"] d(1)
    by (simp add: exec_body_append) (simp add: exec_body_def)
  then show ?thesis
    using d one performs assms(2) unfolding race_inv_def by (intro conjI exI [of _ "dn @ [e]"] exI [of _ es]) auto
next
  case (returns bs cs)
  then show ?thesis using assms(2) by (auto simp: race_inv_def split_singleton)
qed (auto intro: cas_inv)

lemma race_reachable_inv:
  "race_reachable tb eb w0 r \<Longrightarrow> exeInfo w0 = WAITING \<Longrightarrow> race_inv tb eb w0 r"
proof (induction rule: race_reachable.induct)
  case start
  then show ?case by (auto simp: race_inv_def body_of_def exec_body_def)
qed (blast intro: race_step_inv)

text \<open>Every state can be continued until no invocation is running, without a new one starting.\<close>

lemma race_completes: "\<exists>r'. (race_step tb eb)\<^sup>*\<^sup>* r r' \<and> running r' = []"
proof (induction "sum_list (map (\<lambda>b. Suc (length b)) (running r))" arbitrary: r rule: less_induct)
  case less
  show ?case
  proof (cases "running r")
    case (Cons b bs)
    obtain r1 where r1: "race_step tb eb r r1"
      "sum_list (map (\<lambda>b. Suc (length b)) (running r1)) < sum_list (map (\<lambda>b. Suc (length b)) (running r))"
    proof (cases b)
      case Nil
      then show ?thesis using that [OF returns [of r "[]" bs]] Cons by simp
    next
      case (Cons e es)
      then show ?thesis using that [OF performs [of r "[]" e es bs]] \<open>running r = b # bs\<close> by simp
    qed
    then show ?thesis using less [OF r1(2)] by (meson converse_rtranclp_into_rtranclp)
  qed blast
qed

text \<open>The prefixes of a closure of at most three effects.\<close>

lemma prefix3: "[a, b, c] = dn @ rest \<longleftrightarrow>
    dn = [] \<and> rest = [a, b, c] \<or> dn = [a] \<and> rest = [b, c] \<or> dn = [a, b] \<and> rest = [c] \<or> dn = [a, b, c] \<and> rest = []"
  by (cases dn; cases "tl dn"; cases "tl (tl dn)") auto

lemma prefix2: "[a, b] = dn @ rest \<longleftrightarrow> dn = [] \<and> rest = [a, b] \<or> dn = [a] \<and> rest = [b] \<or> dn = [a, b] \<and> rest = []"
  by (cases dn; cases "tl dn") auto

lemma prefix1: "[a] = dn @ rest \<longleftrightarrow> dn = [] \<and> rest = [a] \<or> dn = [a] \<and> rest = []"
  by (cases dn) auto

lemmas body_simps = timeout_body_def event_body_def task_timeout_body_def finished_body_def body_of_def
  exec_body_def exec_effect_def prefix1 prefix2 prefix3

definition fresh_world :: "limit_state option \<Rightarrow> limit_world" where
  "fresh_world rt = \<lparr>exeInfo = WAITING, rtState = rt, canceled = False, calls = []\<rparr>"

lemma race_cases:
  assumes "race_reachable tb eb (fresh_world rt) r"
  obtains dn rest where "world r = (exec_body dn (fresh_world rt))\<lparr>exeInfo := exeInfo (world r)\<rparr>"
    "body_of tb eb (exeInfo (world r)) = dn @ rest"
    "running r = [] \<and> rest = [] \<or> exeInfo (world r) \<noteq> WAITING \<and> running r = [rest]" "exeInfo (world r) \<noteq> ERROR"
  using race_reachable_inv [OF assms] by (auto simp: race_inv_def fresh_world_def)

text \<open>
  C22. The race between an event and its time limit has one winner, however the callbacks
  interleave and however often they are called: the waiting task is scheduled at most once,
  and exactly once when a callback has run to its end; at that moment the caller's state
  variable already tells how the wait ended. The event is removed only after a timeout, the
  timer cancelled only after the event.
\<close>

theorem event_timeout_single_winner:
  assumes "race_reachable (timeout_body fd event closeFlag) event_body (fresh_world (Some s)) r"
  shows "count_list (calls (world r)) ScheduleTask \<le> 1 \<and>
    (ScheduleTask \<in> set (calls (world r)) \<longrightarrow> rtState (world r) = Some (exeInfo (world r))) \<and>
    (running r = [] \<and> exeInfo (world r) \<noteq> WAITING \<longrightarrow> ScheduleTask \<in> set (calls (world r))) \<and>
    (CloseWithNoClose fd \<in> set (calls (world r)) \<or> DelEvent fd event \<in> set (calls (world r)) \<longrightarrow> exeInfo (world r) = TIMEOUT) \<and>
    (canceled (world r) \<longrightarrow> exeInfo (world r) = FINISHED) \<and> exeInfo (world r) \<noteq> ERROR"
  using assms
proof (rule race_cases)
  fix dn rest
  assume "world r = (exec_body dn (fresh_world (Some s)))\<lparr>exeInfo := exeInfo (world r)\<rparr>"
    and "body_of (timeout_body fd event closeFlag) event_body (exeInfo (world r)) = dn @ rest"
    and "running r = [] \<and> rest = [] \<or> exeInfo (world r) \<noteq> WAITING \<and> running r = [rest]" "exeInfo (world r) \<noteq> ERROR"
  then show ?thesis
    by (cases "exeInfo (world r)"; cases closeFlag) (auto simp: body_simps fresh_world_def)
qed

lemma event_wins_reachable:
  "race_reachable tb event_body (fresh_world (Some s))
     \<lparr>world = \<lparr>exeInfo = FINISHED, rtState = Some FINISHED, canceled = True, calls = [ScheduleTask]\<rparr>, running = [[]]\<rparr>"
proof -
  let ?w = "\<lambda>e rt c cs. \<lparr>exeInfo = e, rtState = rt, canceled = c, calls = cs\<rparr>"
  have "race_reachable tb event_body (fresh_world (Some s)) \<lparr>world = ?w FINISHED (Some s) False [], running = [event_body]\<rparr>"
    using race_reachable.step [OF race_reachable.start event_occurs, of tb event_body "fresh_world (Some s)"]
    by (simp add: cas_def setState_def fresh_world_def)
  from race_reachable.step [OF this performs [of _ "[]" "SetRt FINISHED" _ "[]"]]
  have "race_reachable tb event_body (fresh_world (Some s))
      \<lparr>world = ?w FINISHED (Some FINISHED) False [], running = [[CancelTimer, ScheduleTask]]\<rparr>"
    by (simp add: event_body_def exec_effect_def)
  from race_reachable.step [OF this performs [of _ "[]" CancelTimer _ "[]"]]
  have "race_reachable tb event_body (fresh_world (Some s))
      \<lparr>world = ?w FINISHED (Some FINISHED) True [], running = [[ScheduleTask]]\<rparr>"
    by (simp add: exec_effect_def)
  from race_reachable.step [OF this performs [of _ "[]" ScheduleTask _ "[]"]]
  show ?thesis by (simp add: exec_effect_def)
qed

theorem event_timeout_single_winner_witness:
  "\<exists>r. race_reachable (timeout_body 5 1 False) event_body (fresh_world (Some WAITING)) r \<and>
     ScheduleTask \<in> set (calls (world r)) \<and> rtState (world r) = Some (exeInfo (world r)) \<and>
     count_list (calls (world r)) ScheduleTask \<le> 1"
proof -
  let ?r = "\<lparr>world = \<lparr>exeInfo = FINISHED, rtState = Some FINISHED, canceled = True, calls = [ScheduleTask]\<rparr>, running = [[]]\<rparr>"
  have r: "race_reachable (timeout_body 5 1 False) event_body (fresh_world (Some WAITING)) ?r"
    by (rule event_wins_reachable)
  then show ?thesis using event_timeout_single_winner [OF r] by (intro exI [of _ ?r]) simp
qed

text \<open>
  The time limit of a task: its timeout callback runs at most once, only when the task had
  not finished, and the caller's variable ends up at the state the race was decided in; no
  execution gets stuck before the winning side has returned.
\<close>

theorem task_timeout_single_winner:
  assumes "race_reachable (task_timeout_body True has_cb) (finished_body True True) (fresh_world (Some s)) r"
  shows "count_list (calls (world r)) TimeoutCb \<le> 1 \<and>
    (TimeoutCb \<in> set (calls (world r)) \<longrightarrow> has_cb \<and> exeInfo (world r) = TIMEOUT \<and> rtState (world r) = Some TIMEOUT) \<and>
    (running r = [] \<and> exeInfo (world r) \<noteq> WAITING \<longrightarrow> rtState (world r) = Some (exeInfo (world r)) \<and>
       (TimeoutCb \<in> set (calls (world r)) \<longleftrightarrow> has_cb \<and> exeInfo (world r) = TIMEOUT)) \<and>
    (\<exists>r'. (race_step (task_timeout_body True has_cb) (finished_body True True))\<^sup>*\<^sup>* r r' \<and> running r' = [])"
proof (rule race_cases [OF assms])
  fix dn rest
  assume "world r = (exec_body dn (fresh_world (Some s)))\<lparr>exeInfo := exeInfo (world r)\<rparr>"
    and "body_of (task_timeout_body True has_cb) (finished_body True True) (exeInfo (world r)) = dn @ rest"
    and "running r = [] \<and> rest = [] \<or> exeInfo (world r) \<noteq> WAITING \<and> running r = [rest]" "exeInfo (world r) \<noteq> ERROR"
  then show ?thesis
    by (intro conjI race_completes; cases "exeInfo (world r)"; cases has_cb) (auto simp: body_simps fresh_world_def)
qed

lemma timer_wins_reachable:
  "race_reachable (task_timeout_body True True) eb (fresh_world (Some s))
     \<lparr>world = \<lparr>exeInfo = TIMEOUT, rtState = Some TIMEOUT, canceled = False, calls = [TimeoutCb]\<rparr>, running = []\<rparr>"
proof -
  let ?tb = "task_timeout_body True True"
  let ?w = "\<lambda>e rt cs. \<lparr>exeInfo = e, rtState = rt, canceled = False, calls = cs\<rparr>"
  have "race_reachable ?tb eb (fresh_world (Some s)) \<lparr>world = ?w TIMEOUT (Some s) [], running = [?tb]\<rparr>"
    using race_reachable.step [OF race_reachable.start timer_fires, of ?tb eb "fresh_world (Some s)"]
    by (simp add: cas_def setState_def fresh_world_def)
  from race_reachable.step [OF this performs [of _ "[]" "SetRt TIMEOUT" _ "[]"]]
  have "race_reachable ?tb eb (fresh_world (Some s)) \<lparr>world = ?w TIMEOUT (Some TIMEOUT) [], running = [[TimeoutCb]]\<rparr>"
    by (simp add: task_timeout_body_def exec_effect_def)
  from race_reachable.step [OF this performs [of _ "[]" TimeoutCb _ "[]"]]
  have "race_reachable ?tb eb (fresh_world (Some s)) \<lparr>world = ?w TIMEOUT (Some TIMEOUT) [TimeoutCb], running = [[]]\<rparr>"
    by (simp add: exec_effect_def)
  from race_reachable.step [OF this returns [of _ "[]" "[]"]]
  show ?thesis by simp
qed

theorem task_timeout_single_winner_witness:
  "\<exists>r. race_reachable (task_timeout_body True True) (finished_body True True) (fresh_world (Some WAITING)) r \<and>
     TimeoutCb \<in> set (calls (world r)) \<and> rtState (world r) = Some (exeInfo (world r))"
proof -
  let ?r = "\<lparr>world = \<lparr>exeInfo = TIMEOUT, rtState = Some TIMEOUT, canceled = False, calls = [TimeoutCb]\<rparr>, running = []\<rparr>"
  have r: "race_reachable (task_timeout_body True True) (finished_body True True) (fresh_world (Some WAITING)) ?r"
    by (rule timer_wins_reachable)
  then show ?thesis using task_timeout_single_winner [OF r] by (intro exI [of _ ?r]) simp
qed

lemma insert_keeps_tasks:
  "insertTimeTask clk ok (Some i) tm = Inr (rc, tm') \<Longrightarrow> task_store tm' = task_store tm"
  by (auto simp: insertTimeTask_def getOrCreateTimerBlock_def publish_block_def file_task_def updateTimerFd_def
      block_insert_def schedule_timer_def Let_def split: if_splits option.splits)

lemma addEventWithTimeout_task:
  assumes "addEventWithTimeout now clk ok i fd event timeout closeFlag tm = Inr (reg, tm')"
  shows "reg_cb reg = event_callback"
    and "task_store tm' i = TimeTask_create now timeout False (\<lambda>w. (False, exec_body (timeout_body fd event closeFlag) w))
           (Some timeout_condition) (Some (Pair False))"
  using assms by (auto simp: addEventWithTimeout_def addConditionTimer_def store_task_def Let_def TimeTask_create_def
      dest!: insert_keeps_tasks split: sum.splits)

text \<open>
  The timer and the registration that \<^verbatim>\<open>addEventWithTimeout\<close> leaves behind: whichever runs
  first on a waiting operation schedules the task and records how the wait ended, and the
  other one then changes nothing.
\<close>

theorem addEventWithTimeout_first_wins:
  assumes "addEventWithTimeout now clk ok i fd event timeout closeFlag tm = Inr (reg, tm')"
    and "exeInfo w = WAITING" "rtState w = Some s"
  shows "let t = task_store tm' i; we = reg_cb reg w; wt = snd (TimeTask_runner t w)
    in rtState we = Some FINISHED \<and> calls we = calls w @ [ScheduleTask] \<and> canceled we \<and>
       snd (TimeTask_runner t we) = we \<and>
       rtState wt = Some TIMEOUT \<and> reg_cb reg wt = wt \<and>
       calls wt = calls w @ [if closeFlag then CloseWithNoClose fd else DelEvent fd event, ScheduleTask]"
  using assms(2,3) unfolding addEventWithTimeout_task [OF assms(1)]
  by (cases w) (simp add: TimeTask_create_def TimeTask_runner_def after_cb_def timeout_condition_def event_callback_def
      setState_def timeout_body_def event_body_def exec_body_def exec_effect_def)

definition limit_demo_tm :: "limit_world time_manager" where
  "limit_demo_tm = (TimeManager_new 1000)\<lparr>m_base_time := 1000\<rparr>"

theorem addEventWithTimeout_first_wins_witness:
  "\<exists>reg tm'. addEventWithTimeout 1000 \<lparr>now1 = 1000, now2 = 1000, now3 = 1000\<rparr> True 3 5 1 500 False limit_demo_tm
      = Inr (reg, tm') \<and>
     calls (snd (TimeTask_runner (task_store tm' 3) (fresh_world (Some WAITING)))) = [DelEvent 5 1, ScheduleTask]"
proof -
  let ?r = "addEventWithTimeout 1000 \<lparr>now1 = 1000, now2 = 1000, now3 = 1000\<rparr> True 3 5 1 500 False limit_demo_tm"
  have "\<not> isl ?r" by code_simp
  then obtain reg tm' where r: "?r = Inr (reg, tm')" by (cases ?r) auto
  then show ?thesis
    using addEventWithTimeout_first_wins [OF r, of "fresh_world (Some WAITING)" WAITING]
    by (simp add: fresh_world_def Let_def)
qed

end
