(* ===== verification/Coro_Task.thy ===== *)
theory Coro_Task
  imports Prelude
begin

section \<open>Coroutine tasks (coroutine/coro20/task.hpp)\<close>

text \<open>
  Results and their exceptions, the promise with its completion callbacks, the awaiter that
  resumes a waiting coroutine, and the protocol by which the \<^verbatim>\<open>Task\<close> object and the coroutine
  decide who frees the coroutine frame.

  A completion callback acts on a world \<open>'w\<close> and may throw. An exception is a
  \<^verbatim>\<open>std::exception\<close> with its message or an object of another type, which no handler of this
  file catches.
\<close>

datatype exn = Std_exception string | Other_exception

datatype 'a result = Result_value 'a | Result_exception exn

definition getOrThrow :: "'a result \<Rightarrow> exn + 'a" where
  "getOrThrow r = (case r of Result_value v \<Rightarrow> Inr v | Result_exception e \<Rightarrow> Inl e)"

text \<open>
  \<^verbatim>\<open>Result(const std::exception&)\<close> stores a copy of its argument at the static type
  \<^verbatim>\<open>std::exception\<close>, so the message of the derived object is lost.
\<close>

definition Result_of_std_exception :: "string \<Rightarrow> 'a result" where
  "Result_of_std_exception msg = Result_exception (Std_exception ''std::exception'')"

type_synonym ('a, 'w) complete_cb = "'a result \<Rightarrow> 'w \<Rightarrow> (exn + unit) \<times> 'w"

subsection \<open>The promise\<close>

record ('a, 'w) promise =
  pr_result :: "'a result option"
  pr_callbacks :: "('a, 'w) complete_cb list"

definition promise_new :: "('a, 'w) promise" where
  "promise_new = \<lparr>pr_result = None, pr_callbacks = []\<rparr>"

fun call_cbs :: "('a, 'w) complete_cb list \<Rightarrow> 'a result \<Rightarrow> 'w \<Rightarrow> (exn + unit) \<times> 'w" where
  "call_cbs [] r w = (Inr (), w)"
| "call_cbs (cb # cbs) r w =
     (case cb r w of (Inl e, w') \<Rightarrow> (Inl e, w') | (Inr _, w') \<Rightarrow> call_cbs cbs r w')"

text \<open>The list is cleared only when every callback has returned.\<close>

definition notifyAllCbs :: "('a, 'w) promise \<Rightarrow> 'w \<Rightarrow> (exn + unit) \<times> ('a, 'w) promise \<times> 'w" where
  "notifyAllCbs p w =
     (case pr_result p of
        None \<Rightarrow> (Inl (Std_exception ''bad optional access''), p, w)
      | Some r \<Rightarrow>
          (case call_cbs (pr_callbacks p) r w of
             (Inl e, w') \<Rightarrow> (Inl e, p, w')
           | (Inr _, w') \<Rightarrow> (Inr (), p\<lparr>pr_callbacks := []\<rparr>, w')))"

definition return_value :: "'a \<Rightarrow> ('a, 'w) promise \<Rightarrow> 'w \<Rightarrow> (exn + unit) \<times> ('a, 'w) promise \<times> 'w" where
  "return_value v p w = notifyAllCbs (p\<lparr>pr_result := Some (Result_value v)\<rparr>) w"

text \<open>An exception that is not a \<^verbatim>\<open>std::exception\<close> escapes from the handler that prints it.\<close>

definition unhandled_exception :: "exn \<Rightarrow> ('a, 'w) promise \<Rightarrow> 'w \<Rightarrow> (exn + unit) \<times> ('a, 'w) promise \<times> 'w" where
  "unhandled_exception e p w =
     (let p1 = p\<lparr>pr_result := Some (Result_exception e)\<rparr>
      in case e of Other_exception \<Rightarrow> (Inl Other_exception, p1, w) | Std_exception _ \<Rightarrow> notifyAllCbs p1 w)"

text \<open>
  The end of a coroutine body: \<^verbatim>\<open>co_return v\<close> calls \<^verbatim>\<open>return_value\<close> inside the implicit
  \<^verbatim>\<open>try\<close> of the body, and an exception of the body or of that call goes to
  \<^verbatim>\<open>unhandled_exception\<close>.
\<close>

definition coroutine_ends :: "exn + 'a \<Rightarrow> ('a, 'w) promise \<Rightarrow> 'w \<Rightarrow> (exn + unit) \<times> ('a, 'w) promise \<times> 'w" where
  "coroutine_ends out p w =
     (case out of
        Inl e \<Rightarrow> unhandled_exception e p w
      | Inr v \<Rightarrow> (case return_value v p w of
                    (Inl e, p', w') \<Rightarrow> unhandled_exception e p' w'
                  | (Inr u, p', w') \<Rightarrow> (Inr u, p', w')))"

definition setCompleteCb :: "('a, 'w) complete_cb \<Rightarrow> ('a, 'w) promise \<Rightarrow> 'w \<Rightarrow> (exn + unit) \<times> ('a, 'w) promise \<times> 'w" where
  "setCompleteCb cb p w =
     (case pr_result p of
        Some r \<Rightarrow> (let (x, w') = cb r w in (x, p, w'))
      | None \<Rightarrow> (Inr (), p\<lparr>pr_callbacks := pr_callbacks p @ [cb]\<rparr>, w))"

text \<open>\<open>None\<close>: the caller waits on the condition variable.\<close>

definition promise_getResult :: "('a, 'w) promise \<Rightarrow> (exn + 'a) option" where
  "promise_getResult p = map_option getOrThrow (pr_result p)"

subsection \<open>Callbacks of a task\<close>

definition task_then :: "('a, 'w) complete_cb \<Rightarrow> ('a, 'w) promise \<Rightarrow> 'w \<Rightarrow> (exn + unit) \<times> ('a, 'w) promise \<times> 'w" where
  "task_then cb = setCompleteCb cb"

definition catching_cb :: "('a, 'w) complete_cb \<Rightarrow> ('a, 'w) complete_cb" where
  "catching_cb func r w =
     (case getOrThrow r of
        Inr _ \<Rightarrow> (Inr (), w)
      | Inl (Std_exception msg) \<Rightarrow> func (Result_of_std_exception msg) w
      | Inl Other_exception \<Rightarrow> (Inl Other_exception, w))"

definition task_catching :: "('a, 'w) complete_cb \<Rightarrow> ('a, 'w) promise \<Rightarrow> 'w \<Rightarrow> (exn + unit) \<times> ('a, 'w) promise \<times> 'w" where
  "task_catching func = setCompleteCb (catching_cb func)"

text \<open>\<^verbatim>\<open>func\<close> is called inside the \<^verbatim>\<open>try\<close>, so its own standard exceptions are swallowed too.\<close>

definition finally_cb :: "('a, 'w) complete_cb \<Rightarrow> ('a, 'w) complete_cb" where
  "finally_cb func r w =
     (case getOrThrow r of
        Inl (Std_exception _) \<Rightarrow> (Inr (), w)
      | Inl Other_exception \<Rightarrow> (Inl Other_exception, w)
      | Inr _ \<Rightarrow>
          (case func r w of
             (Inl (Std_exception _), w') \<Rightarrow> (Inr (), w')
           | (Inl Other_exception, w') \<Rightarrow> (Inl Other_exception, w')
           | (Inr u, w') \<Rightarrow> (Inr u, w')))"

definition task_finally :: "('a, 'w) complete_cb \<Rightarrow> ('a, 'w) promise \<Rightarrow> 'w \<Rightarrow> (exn + unit) \<times> ('a, 'w) promise \<times> 'w" where
  "task_finally func = setCompleteCb (finally_cb func)"

subsection \<open>The awaiter\<close>

text \<open>
  \<open>aw_done\<close> is \<^verbatim>\<open>m_handle.done()\<close> of the waiting coroutine and \<open>aw_resumptions\<close> the results
  with which it was resumed; both executers of the program run a dispatched function at once.
\<close>

record 'a awaiter =
  aw_result :: "'a result option"
  aw_is_resumed :: bool
  aw_done :: bool
  aw_resumptions :: "'a result list"

definition awaiter_new :: "'a awaiter" where
  "awaiter_new = \<lparr>aw_result = None, aw_is_resumed = False, aw_done = False, aw_resumptions = []\<rparr>"

definition awaiter_resume :: "'a \<Rightarrow> 'a awaiter \<Rightarrow> 'a awaiter" where
  "awaiter_resume v a =
     (if aw_is_resumed a then a
      else (let a1 = a\<lparr>aw_is_resumed := True\<rparr>
            in if aw_done a1 then a1
               else a1\<lparr>aw_result := Some (Result_value v), aw_resumptions := aw_resumptions a1 @ [Result_value v]\<rparr>))"

definition awaiter_resume_exception :: "exn \<Rightarrow> 'a awaiter \<Rightarrow> 'a awaiter" where
  "awaiter_resume_exception e a =
     a\<lparr>aw_result := Some (Result_exception e), aw_resumptions := aw_resumptions a @ [Result_exception e]\<rparr>"

definition awaiter_await_resume :: "'a awaiter \<Rightarrow> exn + 'a" where
  "awaiter_await_resume a =
     (case aw_result a of None \<Rightarrow> Inl (Std_exception ''bad optional access'') | Some r \<Rightarrow> getOrThrow r)"

text \<open>The specialisation for \<^verbatim>\<open>void\<close> has no guard against a second resumption.\<close>

definition awaiter_resume_void :: "unit awaiter \<Rightarrow> unit awaiter" where
  "awaiter_resume_void a =
     a\<lparr>aw_result := Some (Result_value ()), aw_resumptions := aw_resumptions a @ [Result_value ()]\<rparr>"

text \<open>
  Waiting for a child task: the callback resumes the parent with the child's result. The
  world of the child's callbacks is the parent's awaiter.
\<close>

definition task_awaiter_cb :: "('a, 'a awaiter) complete_cb" where
  "task_awaiter_cb r a =
     (case getOrThrow r of Inl e \<Rightarrow> (Inl e, a) | Inr v \<Rightarrow> (Inr (), awaiter_resume v a))"

definition task_awaiter_on_suspend ::
  "('a, 'a awaiter) promise \<Rightarrow> 'a awaiter \<Rightarrow> (exn + unit) \<times> ('a, 'a awaiter) promise \<times> 'a awaiter" where
  "task_awaiter_on_suspend child a = task_finally task_awaiter_cb child a"

subsection \<open>Who frees the frame\<close>

datatype coro_state = RUNNING | SUSPEND | FINISHED
datatype task_state = DESTRUCTED | EXIST

text \<open>
  \<open>Executing\<close>: the body runs or is suspended before its end; \<open>FinalChecked\<close>: \<^verbatim>\<open>await_ready\<close> of
  the final awaiter returned false, the coroutine is not yet suspended; \<open>AtFinal\<close>: suspended
  at the end, where \<^verbatim>\<open>done()\<close> holds; \<open>Gone\<close>: the frame is freed.
\<close>

datatype phase = Executing | FinalChecked | AtFinal | Gone

record frame_life =
  fl_phase :: phase
  fl_coro :: coro_state
  fl_task :: task_state
  fl_alive :: bool
  fl_destroyed :: nat

definition frame_new :: frame_life where
  "frame_new = \<lparr>fl_phase = Executing, fl_coro = RUNNING, fl_task = EXIST, fl_alive = True, fl_destroyed = 0\<rparr>"

definition destroy_frame :: "frame_life \<Rightarrow> frame_life" where
  "destroy_frame f = f\<lparr>fl_phase := Gone, fl_destroyed := Suc (fl_destroyed f)\<rparr>"

text \<open>The final awaiter; when it is ready the coroutine runs off its end, which frees the frame.\<close>

definition final_await_ready :: "frame_life \<Rightarrow> failure + (bool \<times> frame_life)" where
  "final_await_ready f =
     (if fl_coro f = FINISHED then Inl AssertionFailed
      else (let f1 = f\<lparr>fl_coro := FINISHED\<rparr>
            in if fl_task f1 = DESTRUCTED then Inr (True, destroy_frame f1)
               else Inr (False, f1\<lparr>fl_phase := FinalChecked\<rparr>)))"

definition handle_done :: "frame_life \<Rightarrow> bool" where
  "handle_done f \<longleftrightarrow> fl_phase f = AtFinal"

text \<open>The destructor, and the part of the move assignment that gives up the old frame.\<close>

definition task_release :: "frame_life \<Rightarrow> frame_life" where
  "task_release f =
     (let f1 = f\<lparr>fl_alive := False\<rparr>
      in if handle_done f \<and> fl_coro f = FINISHED then destroy_frame f1
         else f1\<lparr>fl_task := DESTRUCTED\<rparr>)"

text \<open>
  The coroutine and the owner of the task in any order; both critical sections are under the
  mutex of \<^verbatim>\<open>PTStateSync\<close>. With \<open>window\<close> the task may also be released between
  \<^verbatim>\<open>await_ready\<close> and the suspension.
\<close>

inductive frame_step :: "bool \<Rightarrow> frame_life \<Rightarrow> frame_life \<Rightarrow> bool" for window where
  ends: "fl_phase f = Executing \<Longrightarrow> final_await_ready f = Inr (rdy, f') \<Longrightarrow> frame_step window f f'"
| suspends: "fl_phase f = FinalChecked \<Longrightarrow> frame_step window f (f\<lparr>fl_phase := AtFinal\<rparr>)"
| released: "fl_alive f \<Longrightarrow> window \<or> fl_phase f \<noteq> FinalChecked \<Longrightarrow> frame_step window f (task_release f)"

inductive_simps frame_step_iff: "frame_step window f f'"

inductive frame_reachable :: "bool \<Rightarrow> frame_life \<Rightarrow> bool" for window where
  start: "frame_reachable window frame_new"
| step: "frame_reachable window f \<Longrightarrow> frame_step window f f' \<Longrightarrow> frame_reachable window f'"

subsection \<open>Lemmas\<close>

lemmas frame_defs = task_release_def final_await_ready_def destroy_frame_def handle_done_def Let_def

definition frame_inv :: "frame_life \<Rightarrow> bool" where
  "frame_inv f \<longleftrightarrow> fl_destroyed f = (if fl_phase f = Gone then 1 else 0) \<and>
     (fl_phase f = Gone \<longrightarrow> \<not> fl_alive f) \<and>
     (fl_coro f = FINISHED \<longleftrightarrow> fl_phase f \<noteq> Executing) \<and>
     (fl_phase f \<noteq> Gone \<longrightarrow> (fl_task f = EXIST \<longleftrightarrow> fl_alive f))"

lemma frame_reachable_inv: "frame_reachable window f \<Longrightarrow> frame_inv f"
proof (induction rule: frame_reachable.induct)
  case (step f f')
  then show ?case
    by (cases "fl_phase f"; cases "fl_task f") (auto simp: frame_step_iff frame_inv_def frame_defs split: if_splits)
qed (simp add: frame_inv_def frame_new_def)

text \<open>Without the window, an abandoned frame never reaches the final suspension.\<close>

lemma no_window_alive:
  "frame_reachable False f \<Longrightarrow> fl_phase f = FinalChecked \<or> fl_phase f = AtFinal \<Longrightarrow> fl_alive f"
proof (induction rule: frame_reachable.induct)
  case (step f f')
  then show ?case
    using frame_reachable_inv [OF step.hyps(1)]
    by (cases "fl_phase f"; cases "fl_task f") (auto simp: frame_step_iff frame_inv_def frame_defs split: if_splits)
qed (simp add: frame_new_def)

definition nothrow :: "('a, 'w) complete_cb \<Rightarrow> bool" where
  "nothrow cb \<longleftrightarrow> (\<forall>r w. fst (cb r w) = Inr ())"

lemma call_cbs_ok:
  "\<forall>cb\<in>set cbs. nothrow cb \<Longrightarrow> call_cbs cbs r w = (Inr (), fold (\<lambda>cb w. snd (cb r w)) cbs w)"
proof (induction cbs arbitrary: w)
  case (Cons cb cbs)
  then have "fst (cb r w) = Inr ()" by (simp add: nothrow_def)
  then obtain w' where "cb r w = (Inr (), w')" by (metis prod.collapse)
  then show ?case using Cons by simp
qed simp

lemma call_cbs_append:
  "call_cbs (xs @ ys) r w =
     (case call_cbs xs r w of (Inl e, w') \<Rightarrow> (Inl e, w') | (Inr _, w') \<Rightarrow> call_cbs ys r w')"
  by (induction xs arbitrary: w) (auto split: prod.splits sum.splits)

definition outcome :: "exn + 'a \<Rightarrow> 'a result" where
  "outcome out = (case out of Inl e \<Rightarrow> Result_exception e | Inr v \<Rightarrow> Result_value v)"

text \<open>
  C16. A coroutine frame is freed at most once, and when neither side can move any more it has
  been freed exactly once, provided the owner does not release the task in the instant between
  the final check and the final suspension.
\<close>

theorem frame_freed_exactly_once:
  assumes "frame_reachable False f"
  shows "fl_destroyed f \<le> 1 \<and> (fl_destroyed f = 1 \<longrightarrow> \<not> fl_alive f \<and> fl_coro f = FINISHED) \<and>
    ((\<nexists>f'. frame_step False f f') \<longrightarrow> fl_destroyed f = 1)"
proof -
  note inv = frame_reachable_inv [OF assms]
  have "fl_phase f = Gone" if none: "\<nexists>f'. frame_step False f f'"
  proof (cases "fl_phase f")
    case Executing
    then have "\<exists>rdy f'. final_await_ready f = Inr (rdy, f')" using inv by (auto simp: frame_inv_def frame_defs)
    then show ?thesis using none Executing by (auto intro: ends)
  next
    case FinalChecked
    then show ?thesis using none suspends by blast
  next
    case AtFinal
    then show ?thesis using none released [of f False] no_window_alive [OF assms] by auto
  qed
  then show ?thesis using inv by (auto simp: frame_inv_def)
qed

lemma freed_by_coroutine:
  "frame_reachable False \<lparr>fl_phase = Gone, fl_coro = FINISHED, fl_task = DESTRUCTED, fl_alive = False, fl_destroyed = 1\<rparr>"
proof -
  let ?f = "\<lparr>fl_phase = Executing, fl_coro = RUNNING, fl_task = DESTRUCTED, fl_alive = False, fl_destroyed = 0\<rparr>"
  have "frame_reachable False ?f"
    using frame_reachable.step [OF frame_reachable.start released [of frame_new False]]
    by (simp add: frame_new_def frame_defs)
  then show ?thesis by (rule frame_reachable.step) (rule ends; simp add: frame_defs)
qed

theorem frame_freed_exactly_once_witness:
  "\<exists>f. frame_reachable False f \<and> fl_destroyed f = 1 \<and> \<not> fl_alive f"
  using frame_freed_exactly_once [OF freed_by_coroutine] freed_by_coroutine by auto

text \<open>
  In that instant the frame leaks: \<^verbatim>\<open>done()\<close> does not hold yet, so the owner leaves the frame
  to the coroutine, which has already decided to leave it to the owner.
\<close>

theorem frame_leaks_in_window:
  "\<exists>f. frame_reachable True f \<and> fl_coro f = FINISHED \<and> fl_task f = DESTRUCTED \<and>
     fl_destroyed f = 0 \<and> (\<nexists>f'. frame_step True f f')"
proof -
  let ?f = "\<lambda>ph t al. \<lparr>fl_phase = ph, fl_coro = FINISHED, fl_task = t, fl_alive = al, fl_destroyed = 0\<rparr>"
  have "frame_reachable True (?f FinalChecked EXIST True)"
    by (rule frame_reachable.step [OF frame_reachable.start ends [where rdy = False]]) (simp_all add: frame_new_def frame_defs)
  then have "frame_reachable True (?f FinalChecked DESTRUCTED False)"
    using frame_reachable.step [OF _ released [of "?f FinalChecked EXIST True" True]] by (simp add: frame_defs)
  then have "frame_reachable True (?f AtFinal DESTRUCTED False)"
    using frame_reachable.step [OF _ suspends [of "?f FinalChecked DESTRUCTED False" True]] by simp
  moreover have "\<nexists>f'. frame_step True (?f AtFinal DESTRUCTED False) f'" by (simp add: frame_step_iff)
  ultimately show ?thesis by (intro exI [of _ "?f AtFinal DESTRUCTED False"]) simp
qed

text \<open>
  The completion callbacks of a coroutine, when none of them throws, are each called exactly
  once, in the order of registration and with the coroutine's outcome; a callback registered
  afterwards is called at once with the same outcome.
\<close>

theorem complete_callbacks_once:
  assumes "\<forall>cb\<in>set (pr_callbacks p). nothrow cb" "out \<noteq> Inl Other_exception"
  shows "let (x, p', w') = coroutine_ends out p w
    in x = Inr () \<and> w' = fold (\<lambda>cb w. snd (cb (outcome out) w)) (pr_callbacks p) w \<and>
       pr_callbacks p' = [] \<and> promise_getResult p' = Some out \<and>
       setCompleteCb cb p' w' = (fst (cb (outcome out) w'), p', snd (cb (outcome out) w'))"
proof (cases out)
  case (Inl e)
  then show ?thesis
    using assms(2) call_cbs_ok [OF assms(1), where r = "outcome out" and w = w]
    by (cases e) (auto simp: coroutine_ends_def unhandled_exception_def notifyAllCbs_def outcome_def setCompleteCb_def
        promise_getResult_def getOrThrow_def case_prod_unfold Let_def)
next
  case (Inr v)
  then show ?thesis
    using call_cbs_ok [OF assms(1), where r = "outcome out" and w = w]
    by (auto simp: coroutine_ends_def return_value_def notifyAllCbs_def outcome_def setCompleteCb_def
        promise_getResult_def getOrThrow_def case_prod_unfold Let_def)
qed

definition log_cb :: "('a, 'a result list) complete_cb" where
  "log_cb r w = (Inr (), w @ [r])"

theorem complete_callbacks_once_witness:
  "let (x, p', w') = coroutine_ends (Inr (7 :: nat)) \<lparr>pr_result = None, pr_callbacks = [log_cb, log_cb]\<rparr> []
   in x = Inr () \<and> w' = [Result_value 7, Result_value 7] \<and> promise_getResult p' = Some (Inr 7)"
  using complete_callbacks_once [of "\<lparr>pr_result = None, pr_callbacks = [log_cb, log_cb]\<rparr>" "Inr (7 :: nat)" "[]" log_cb]
  by (simp add: log_cb_def nothrow_def outcome_def case_prod_unfold Let_def)

text \<open>
  A callback that throws: the exception goes back into the coroutine and is treated as the
  outcome of its body. The callbacks are called a second time, now with that exception, and the
  value the coroutine returned is lost.
\<close>

theorem throwing_callback_repeats:
  assumes "pr_callbacks p = cbs @ [bad]" "\<forall>cb\<in>set cbs. nothrow cb"
    and "\<And>w. bad (Result_value v) w = (Inl (Std_exception m), w)"
    and "\<And>w. bad (Result_exception (Std_exception m)) w = (Inr (), w)"
  shows "let (x, p', w') = coroutine_ends (Inr v) p w
    in x = Inr () \<and> promise_getResult p' = Some (Inl (Std_exception m)) \<and>
       w' = fold (\<lambda>cb w. snd (cb (Result_exception (Std_exception m)) w)) cbs
              (fold (\<lambda>cb w. snd (cb (Result_value v) w)) cbs w)"
  using call_cbs_ok [OF assms(2), where r = "Result_value v" and w = w]
    call_cbs_ok [OF assms(2), where r = "Result_exception (Std_exception m)" and
      w = "fold (\<lambda>cb w. snd (cb (Result_value v) w)) cbs w"]
  by (simp add: coroutine_ends_def return_value_def unhandled_exception_def notifyAllCbs_def call_cbs_append assms
      promise_getResult_def getOrThrow_def)

definition bad_cb :: "('a, 'a result list) complete_cb" where
  "bad_cb r w = (case r of Result_value _ \<Rightarrow> (Inl (Std_exception ''late''), w) | Result_exception _ \<Rightarrow> (Inr (), w))"

theorem throwing_callback_repeats_witness:
  "let (x, p', w') = coroutine_ends (Inr (7 :: nat)) \<lparr>pr_result = None, pr_callbacks = [log_cb, bad_cb]\<rparr> []
   in w' = [Result_value 7, Result_exception (Std_exception ''late'')] \<and>
      promise_getResult p' = Some (Inl (Std_exception ''late''))"
  using throwing_callback_repeats [of "\<lparr>pr_result = None, pr_callbacks = [log_cb, bad_cb]\<rparr>" "[log_cb]" bad_cb "7 :: nat" "''late''" "[]"]
  by (simp add: log_cb_def bad_cb_def nothrow_def case_prod_unfold Let_def)

text \<open>
  Waiting for a child task: whether the child returns after or before the parent suspends, the
  parent is resumed exactly once, with the value the child returned.
\<close>

theorem await_resumes_with_value:
  fixes v :: 'a
  shows "(let (_, child, a) = task_awaiter_on_suspend promise_new awaiter_new; (x, _, a') = coroutine_ends (Inr v) child a
    in x = Inr () \<and> aw_resumptions a = [] \<and> aw_resumptions a' = [Result_value v] \<and> awaiter_await_resume a' = Inr v) \<and>
    (let (_, child, a) = coroutine_ends (Inr v) promise_new awaiter_new; (x, _, a') = task_awaiter_on_suspend child a
    in x = Inr () \<and> aw_resumptions a = [] \<and> aw_resumptions a' = [Result_value v] \<and> awaiter_await_resume a' = Inr v)"
  by (simp add: task_awaiter_on_suspend_def task_finally_def setCompleteCb_def promise_new_def awaiter_new_def
      coroutine_ends_def return_value_def notifyAllCbs_def finally_cb_def task_awaiter_cb_def getOrThrow_def
      awaiter_resume_def awaiter_await_resume_def)

text \<open>
  A parent that waits for a child which ends with a standard exception is never resumed: the
  awaiter registers its callback with \<^verbatim>\<open>finally\<close>, which skips it in that case.
\<close>

theorem await_hangs_on_exception:
  "let (_, child, a) = task_awaiter_on_suspend promise_new awaiter_new;
       (x, child', a') = coroutine_ends (Inl (Std_exception m)) child a
   in x = Inr () \<and> pr_callbacks child' = [] \<and> promise_getResult child' = Some (Inl (Std_exception m)) \<and>
      aw_resumptions a' = [] \<and> aw_result a' = None"
  by (simp add: task_awaiter_on_suspend_def task_finally_def setCompleteCb_def promise_new_def awaiter_new_def
      coroutine_ends_def unhandled_exception_def notifyAllCbs_def finally_cb_def getOrThrow_def promise_getResult_def)

text \<open>
  However often an awaiter with a result type is told to resume, the waiting coroutine is
  resumed once, with the first value; the specialisation for \<^verbatim>\<open>void\<close> resumes it every time.
\<close>

theorem awaiter_resumes_once:
  "aw_resumptions (fold awaiter_resume (v # vs) awaiter_new) = [Result_value v] \<and>
   awaiter_await_resume (fold awaiter_resume (v # vs) awaiter_new) = Inr v \<and>
   length (aw_resumptions ((awaiter_resume_void ^^ n) awaiter_new)) = n"
proof -
  let ?a = "awaiter_resume v awaiter_new"
  have "fold awaiter_resume vs ?a = ?a"
    by (induction vs) (simp_all add: awaiter_resume_def awaiter_new_def Let_def)
  moreover have "length (aw_resumptions ((awaiter_resume_void ^^ n) awaiter_new)) = n"
    by (induction n) (simp_all add: awaiter_resume_void_def awaiter_new_def)
  moreover have "aw_resumptions ?a = [Result_value v]" "awaiter_await_resume ?a = Inr v"
    by (simp_all add: awaiter_await_resume_def getOrThrow_def awaiter_resume_def awaiter_new_def Let_def)
  ultimately show ?thesis by simp
qed

end
