(* ===== verification/Task_Object.thy ===== *)
theory Task_Object
  imports Coro_Task
begin

section \<open>Task objects and child tasks (coroutine/coro20/task.hpp)\<close>

text \<open>
  Many coroutines at once: \<^verbatim>\<open>Task\<close> objects that are moved, assigned and destroyed, and promises that keep the task
  they wait for in \<^verbatim>\<open>m_child_task_ptr\<close>, so that freeing a frame destroys a task, which may free another frame. The life of
  one frame is that of \<^verbatim>\<open>Coro_Task\<close>. A \<^verbatim>\<open>Task\<close> object is the number of its frame; \<open>None\<close> is an empty or moved one.
  Using the memory of a freed frame is the failure \<open>NullDeref\<close>. At the end, the specialisations for \<^verbatim>\<open>void\<close>.
\<close>

record task_frame =
  tf_life :: frame_life
  tf_child :: "nat option"

record task_world =
  tw_frames :: "task_frame list"
  tw_tasks :: "nat option list"

text \<open>
  The destructor of a task, with what \<^verbatim>\<open>handler.destroy()\<close> does: the destructor of the promise destroys the child
  task. The recursion follows the children; \<open>fuel\<close> bounds its depth.
\<close>

fun task_destroy :: "nat \<Rightarrow> nat option \<Rightarrow> task_frame list \<Rightarrow> (failure + task_frame list) option" where
  "task_destroy fuel None fs = Some (Inr fs)"
| "task_destroy 0 (Some i) fs = None"
| "task_destroy (Suc fuel) (Some i) fs =
     (let f = fs ! i
      in if fl_phase (tf_life f) = Gone then Some (Inl NullDeref)
         else (let life = task_release (tf_life f)
               in if fl_phase life = Gone
                  then task_destroy fuel (tf_child f) (fs[i := \<lparr>tf_life = life, tf_child = None\<rparr>])
                  else Some (Inr (fs[i := f\<lparr>tf_life := life\<rparr>]))))"

text \<open>The end of a coroutine: the final awaiter, and the frame that frees itself when its task is gone.\<close>

definition coro_finish :: "nat \<Rightarrow> nat \<Rightarrow> task_frame list \<Rightarrow> (failure + task_frame list) option" where
  "coro_finish fuel i fs =
     (let f = fs ! i
      in case final_await_ready (tf_life f) of
           Inl e \<Rightarrow> Some (Inl e)
         | Inr (True, life) \<Rightarrow> task_destroy fuel (tf_child f) (fs[i := \<lparr>tf_life = life, tf_child = None\<rparr>])
         | Inr (False, life) \<Rightarrow> Some (Inr (fs[i := f\<lparr>tf_life := life\<rparr>])))"

definition coro_suspend :: "nat \<Rightarrow> task_frame list \<Rightarrow> task_frame list" where
  "coro_suspend i fs = fs[i := (fs ! i)\<lparr>tf_life := (tf_life (fs ! i))\<lparr>fl_phase := AtFinal\<rparr>\<rparr>]"

text \<open>A call of a coroutine: \<^verbatim>\<open>get_return_object\<close> makes the task.\<close>

definition get_return_object :: "task_world \<Rightarrow> task_world" where
  "get_return_object w =
     w\<lparr>tw_frames := tw_frames w @ [\<lparr>tf_life = frame_new, tf_child = None\<rparr>], tw_tasks := tw_tasks w @ [Some (length (tw_frames w))]\<rparr>"

definition Task_move :: "nat \<Rightarrow> task_world \<Rightarrow> task_world" where
  "Task_move t w = w\<lparr>tw_tasks := (tw_tasks w)[t := None] @ [tw_tasks w ! t]\<rparr>"

definition Task_move_assign :: "nat \<Rightarrow> nat \<Rightarrow> nat \<Rightarrow> task_world \<Rightarrow> (failure + task_world) option" where
  "Task_move_assign fuel s t w =
     (if s = t then Some (Inr w)
      else map_option (map_sum (\<lambda>e. e) (\<lambda>fs. w\<lparr>tw_frames := fs, tw_tasks := (tw_tasks w)[s := tw_tasks w ! t, t := None]\<rparr>))
             (task_destroy fuel (tw_tasks w ! s) (tw_frames w)))"

text \<open>The destructor of a task in the world; what is left of it is an empty object.\<close>

definition Task_destroy :: "nat \<Rightarrow> nat \<Rightarrow> task_world \<Rightarrow> (failure + task_world) option" where
  "Task_destroy fuel t w =
     map_option (map_sum (\<lambda>e. e) (\<lambda>fs. w\<lparr>tw_frames := fs, tw_tasks := (tw_tasks w)[t := None]\<rparr>))
       (task_destroy fuel (tw_tasks w ! t) (tw_frames w))"

text \<open>\<^verbatim>\<open>await_transform\<close> of the promise \<open>i\<close>: the task moves into the promise, then the former child is destroyed.\<close>

definition await_transform :: "nat \<Rightarrow> nat \<Rightarrow> nat \<Rightarrow> task_world \<Rightarrow> (failure + task_world) option" where
  "await_transform fuel i t w =
     (let f = tw_frames w ! i; old = tf_child f; fs = (tw_frames w)[i := f\<lparr>tf_child := tw_tasks w ! t\<rparr>]
      in map_option (map_sum (\<lambda>e. e) (\<lambda>fs. w\<lparr>tw_frames := fs, tw_tasks := (tw_tasks w)[t := None]\<rparr>)) (task_destroy fuel old fs))"

subsection \<open>Programs\<close>

datatype task_op = Spawn | Move_task nat | Assign_task nat nat | Drop_task nat | Await nat nat | Finish nat | Suspend nat

definition fuel_of :: "task_world \<Rightarrow> nat" where
  "fuel_of w = length (tw_frames w)"

fun task_op_step :: "task_op \<Rightarrow> task_world \<Rightarrow> (failure + task_world) option" where
  "task_op_step Spawn w = Some (Inr (get_return_object w))"
| "task_op_step (Move_task t) w = Some (Inr (Task_move t w))"
| "task_op_step (Assign_task s t) w = Task_move_assign (fuel_of w) s t w"
| "task_op_step (Drop_task t) w = Task_destroy (fuel_of w) t w"
| "task_op_step (Await i t) w = await_transform (fuel_of w) i t w"
| "task_op_step (Finish i) w = map_option (map_sum (\<lambda>e. e) (\<lambda>fs. w\<lparr>tw_frames := fs\<rparr>)) (coro_finish (fuel_of w) i (tw_frames w))"
| "task_op_step (Suspend i) w = Some (Inr (w\<lparr>tw_frames := coro_suspend i (tw_frames w)\<rparr>))"

text \<open>Tasks that exist, and coroutines that are at the point where the operation happens.\<close>

fun task_op_ok :: "task_op \<Rightarrow> task_world \<Rightarrow> bool" where
  "task_op_ok Spawn w = True"
| "task_op_ok (Move_task t) w = (t < length (tw_tasks w))"
| "task_op_ok (Assign_task s t) w = (s < length (tw_tasks w) \<and> t < length (tw_tasks w))"
| "task_op_ok (Drop_task t) w = (t < length (tw_tasks w))"
| "task_op_ok (Await i t) w = (i < length (tw_frames w) \<and> fl_phase (tf_life (tw_frames w ! i)) = Executing \<and> t < length (tw_tasks w))"
| "task_op_ok (Finish i) w = (i < length (tw_frames w) \<and> fl_phase (tf_life (tw_frames w ! i)) = Executing)"
| "task_op_ok (Suspend i) w = (i < length (tw_frames w) \<and> fl_phase (tf_life (tw_frames w ! i)) = FinalChecked)"

inductive task_reach :: "task_world \<Rightarrow> bool" where
  start: "task_reach \<lparr>tw_frames = [], tw_tasks = []\<rparr>"
| step: "task_reach w \<Longrightarrow> task_op_ok a w \<Longrightarrow> task_op_step a w = Some (Inr w') \<Longrightarrow> task_reach w'"

subsection \<open>References\<close>

text \<open>The tasks in promises of frames that are not freed, and the invariant for a multiset of other references.\<close>

definition kid :: "task_frame \<Rightarrow> nat multiset" where
  "kid f = (if fl_phase (tf_life f) = Gone then {#} else case tf_child f of None \<Rightarrow> {#} | Some c \<Rightarrow> {#c#})"

definition kids :: "task_frame list \<Rightarrow> nat multiset" where
  "kids fs = sum_list (map kid fs)"

definition ref_of :: "nat option \<Rightarrow> nat multiset" where
  "ref_of t = (case t of None \<Rightarrow> {#} | Some i \<Rightarrow> {#i#})"

definition refs :: "nat option list \<Rightarrow> nat multiset" where
  "refs ts = sum_list (map ref_of ts)"

definition owned :: "nat multiset \<Rightarrow> task_frame list \<Rightarrow> bool" where
  "owned R fs \<longleftrightarrow>
     (\<forall>j. Multiset.count (R + kids fs) j = (if j < length fs \<and> fl_alive (tf_life (fs ! j)) then 1 else 0)) \<and>
     (\<forall>j < length fs. frame_inv (tf_life (fs ! j)))"

definition living :: "task_frame list \<Rightarrow> nat" where
  "living fs = length (filter (\<lambda>f. fl_phase (tf_life f) \<noteq> Gone) fs)"

lemma sum_list_update_ms: "i < length xs \<Longrightarrow> sum_list (map f (xs[i := x])) + f (xs ! i) = sum_list (map f xs) + (f x :: 'a multiset)"
  by (induction xs arbitrary: i) (auto simp: ac_simps split: nat.split)

lemma kids_update: "i < length fs \<Longrightarrow> kids (fs[i := f]) + kid (fs ! i) = kids fs + kid f"
  unfolding kids_def by (rule sum_list_update_ms)

lemma refs_update: "i < length ts \<Longrightarrow> refs (ts[i := t]) + ref_of (ts ! i) = refs ts + ref_of t"
  unfolding refs_def by (rule sum_list_update_ms)

lemma kids_simps [simp]: "kids [] = {#}" "kids (fs @ gs) = kids fs + kids gs" "kids [f] = kid f"
  by (simp_all add: kids_def)

lemma refs_simps [simp]: "refs [] = {#}" "refs (ts @ us) = refs ts + refs us" "refs [t] = ref_of t" "ref_of None = {#}" "ref_of (Some i) = {#i#}"
  by (simp_all add: refs_def ref_of_def)

lemma living_update:
  "i < length fs \<Longrightarrow> fl_phase (tf_life (fs ! i)) \<noteq> Gone \<Longrightarrow> fl_phase (tf_life f) = Gone \<Longrightarrow> Suc (living (fs[i := f])) = living fs"
  unfolding living_def by (induction fs arbitrary: i) (auto split: nat.split)

lemma living_le: "living fs \<le> length fs"
  by (simp add: living_def)

text \<open>What releasing a task does to the life of its frame.\<close>

lemma release_inv:
  assumes "frame_inv l" and "fl_alive l"
  shows "frame_inv (task_release l) \<and> \<not> fl_alive (task_release l) \<and> fl_phase l \<noteq> Gone"
  using assms by (cases "fl_phase l"; cases "fl_task l") (auto simp: frame_inv_def frame_defs)

lemma owned_replace:
  assumes "owned (R + {#i#}) fs" and "i < length fs" and "frame_inv (tf_life f)" and "\<not> fl_alive (tf_life f)" and "R' + kid f = R + kid (fs ! i)"
  shows "owned R' (fs[i := f])"
proof -
  have k: "kids (fs[i := f]) + kid (fs ! i) = kids fs + kid f" by (rule kids_update [OF assms(2)])
  have "R' + kids (fs[i := f]) + (kid f + kid (fs ! i)) = (R' + kid f) + (kids (fs[i := f]) + kid (fs ! i))" by (simp add: ac_simps)
  also have "\<dots> = (R + kids fs) + (kid f + kid (fs ! i))" unfolding k assms(5) by (simp add: ac_simps)
  finally have e: "R' + kids (fs[i := f]) = R + kids fs" by simp
  have c: "Multiset.count (R + kids fs) j = (if j < length fs \<and> j \<noteq> i \<and> fl_alive (tf_life (fs ! j)) then 1 else 0)" for j
    using assms(1) [unfolded owned_def, THEN conjunct1, rule_format, of j] assms(2) by (auto split: if_splits)
  have "Multiset.count (R + kids fs) j = (if j < length (fs[i := f]) \<and> fl_alive (tf_life (fs[i := f] ! j)) then 1 else 0)" for j
    using c [of j] assms(2,4) by (cases "j = i") auto
  moreover have "frame_inv (tf_life (fs[i := f] ! j))" if "j < length fs" for j
    using assms(1,3) that by (cases "j = i") (auto simp: owned_def)
  ultimately show ?thesis unfolding owned_def e by simp
qed

lemma owned_ref: "owned (R + {#i#}) fs \<Longrightarrow> i < length fs \<and> fl_alive (tf_life (fs ! i)) \<and> frame_inv (tf_life (fs ! i))"
proof -
  assume o: "owned (R + {#i#}) fs"
  then have "Multiset.count (R + {#i#} + kids fs) i = (if i < length fs \<and> fl_alive (tf_life (fs ! i)) then 1 else 0)" by (simp only: owned_def)
  then have "i < length fs \<and> fl_alive (tf_life (fs ! i))" by (auto split: if_splits)
  then show ?thesis using o by (simp add: owned_def)
qed

text \<open>Destroying a task returns, without a failure, when there is fuel for all living frames.\<close>

lemma task_destroy_owned:
  "owned (R + ref_of t) fs \<Longrightarrow> living fs \<le> fuel \<Longrightarrow> \<exists>fs'. task_destroy fuel t fs = Some (Inr fs') \<and> owned R fs' \<and> length fs' = length fs"
proof (induction fuel t fs arbitrary: R rule: task_destroy.induct)
  case (2 i fs)
  then have o: "i < length fs" "fl_phase (tf_life (fs ! i)) \<noteq> Gone" using owned_ref [of R i fs] release_inv by auto
  then have "filter (\<lambda>f. fl_phase (tf_life f) \<noteq> Gone) fs \<noteq> []" by (auto simp: filter_empty_conv)
  then show ?case using "2.prems"(2) by (simp add: living_def)
next
  case (3 fuel i fs)
  let ?f = "fs ! i" and ?l = "task_release (tf_life (fs ! i))"
  have o: "i < length fs" "fl_alive (tf_life ?f)" "frame_inv (tf_life ?f)" using owned_ref [of R i fs] "3.prems"(1) by auto
  note r = release_inv [OF o(3,2)]
  show ?case
  proof (cases "fl_phase ?l = Gone")
    case True
    let ?fs = "fs[i := \<lparr>tf_life = ?l, tf_child = None\<rparr>]"
    have "owned (R + ref_of (tf_child ?f)) ?fs"
      by (rule owned_replace [of R]) (use "3.prems"(1) o(1) r True in \<open>auto simp: kid_def ref_of_def\<close>)
    moreover have "living ?fs \<le> fuel" using living_update [OF o(1), of "\<lparr>tf_life = ?l, tf_child = None\<rparr>"] r True "3.prems"(2) by simp
    ultimately show ?thesis using "3.IH" [OF refl _ refl True] r True by (auto simp: Let_def)
  next
    case False
    have "owned R (fs[i := ?f\<lparr>tf_life := ?l\<rparr>])"
      by (rule owned_replace [of R]) (use "3.prems"(1) o(1) r False in \<open>auto simp: kid_def\<close>)
    then show ?thesis using r False by (simp add: Let_def)
  qed
qed auto

lemma owned_same:
  assumes "owned R fs" and "i < length fs" and "frame_inv (tf_life f)" and "fl_alive (tf_life f) = fl_alive (tf_life (fs ! i))"
    and "R' + kid f = R + kid (fs ! i)"
  shows "owned R' (fs[i := f])"
proof -
  have k: "kids (fs[i := f]) + kid (fs ! i) = kids fs + kid f" by (rule kids_update [OF assms(2)])
  have "R' + kids (fs[i := f]) + (kid f + kid (fs ! i)) = (R' + kid f) + (kids (fs[i := f]) + kid (fs ! i))" by (simp add: ac_simps)
  also have "\<dots> = (R + kids fs) + (kid f + kid (fs ! i))" unfolding k assms(5) by (simp add: ac_simps)
  finally have e: "R' + kids (fs[i := f]) = R + kids fs" by simp
  have "Multiset.count (R + kids fs) j = (if j < length (fs[i := f]) \<and> fl_alive (tf_life (fs[i := f] ! j)) then 1 else 0)" for j
    using assms(1) [unfolded owned_def, THEN conjunct1, rule_format, of j] assms(2,4) by (cases "j = i") auto
  moreover have "frame_inv (tf_life (fs[i := f] ! j))" if "j < length fs" for j
    using assms(1,3) that by (cases "j = i") (auto simp: owned_def)
  ultimately show ?thesis unfolding owned_def e by simp
qed

definition tasks_inv :: "task_world \<Rightarrow> bool" where
  "tasks_inv w \<longleftrightarrow> owned (refs (tw_tasks w)) (tw_frames w)"

lemma tasks_inv_frame: "tasks_inv w \<Longrightarrow> i < length (tw_frames w) \<Longrightarrow> frame_inv (tf_life (tw_frames w ! i))"
  by (simp add: tasks_inv_def owned_def)

lemma spawn_inv: "tasks_inv w \<Longrightarrow> tasks_inv (get_return_object w)"
proof -
  assume i: "tasks_inv w"
  let ?fs = "tw_frames w" and ?n = "\<lparr>tf_life = frame_new, tf_child = None\<rparr>"
  have k: "kid ?n = {#}" by (simp add: kid_def frame_new_def)
  have c: "Multiset.count (refs (tw_tasks w)) j + Multiset.count (kids ?fs) j = (if j < length ?fs \<and> fl_alive (tf_life (?fs ! j)) then 1 else 0)" for j
    using i by (simp add: tasks_inv_def owned_def)
  have "frame_inv (tf_life ((?fs @ [?n]) ! j))" if "j < Suc (length ?fs)" for j
    using tasks_inv_frame [OF i, of j] that by (cases "j = length ?fs") (auto simp: nth_append frame_inv_def frame_new_def)
  moreover have "Multiset.count (refs (tw_tasks w @ [Some (length ?fs)]) + kids (?fs @ [?n])) j
      = (if j < length (?fs @ [?n]) \<and> fl_alive (tf_life ((?fs @ [?n]) ! j)) then 1 else 0)" for j
    using c [of j] k by (cases "j = length ?fs") (auto simp: nth_append frame_new_def)
  ultimately show ?thesis by (simp add: tasks_inv_def get_return_object_def owned_def)
qed

lemma refs_take: "t < length ts \<Longrightarrow> refs ts = refs (ts[t := None]) + ref_of (ts ! t)"
  using refs_update [of t ts None] by simp

lemma move_task_inv: "tasks_inv w \<Longrightarrow> t < length (tw_tasks w) \<Longrightarrow> tasks_inv (Task_move t w)"
  using refs_take [of t "tw_tasks w"] by (simp add: tasks_inv_def Task_move_def)

lemma assign_task_inv:
  assumes "tasks_inv w" and "s < length (tw_tasks w)" and "t < length (tw_tasks w)"
  shows "\<exists>w'. Task_move_assign (fuel_of w) s t w = Some (Inr w') \<and> tasks_inv w'"
proof (cases "s = t")
  case False
  let ?ts = "tw_tasks w" and ?us = "(tw_tasks w)[s := tw_tasks w ! t, t := None]"
  have "refs ?us + ref_of (?ts ! t) = refs (?ts[s := ?ts ! t])" using refs_update [of t "?ts[s := ?ts ! t]" None] assms(2,3) False by simp
  moreover have "refs (?ts[s := ?ts ! t]) + ref_of (?ts ! s) = refs ?ts + ref_of (?ts ! t)" by (rule refs_update [OF assms(2)])
  ultimately have "refs ?us + ref_of (?ts ! s) + ref_of (?ts ! t) = refs ?ts + ref_of (?ts ! t)" by (simp add: ac_simps)
  then have "owned (refs ?us + ref_of (?ts ! s)) (tw_frames w)" using assms(1) by (simp add: tasks_inv_def)
  from task_destroy_owned [OF this living_le] False show ?thesis
    by (auto simp: Task_move_assign_def tasks_inv_def fuel_of_def)
qed (use assms in \<open>simp add: Task_move_assign_def\<close>)

lemma drop_task_inv:
  assumes "tasks_inv w" and "t < length (tw_tasks w)"
  shows "\<exists>w'. Task_destroy (fuel_of w) t w = Some (Inr w') \<and> tasks_inv w'"
proof -
  have "owned (refs ((tw_tasks w)[t := None]) + ref_of (tw_tasks w ! t)) (tw_frames w)"
    using assms refs_take [OF assms(2)] by (simp add: tasks_inv_def)
  from task_destroy_owned [OF this living_le] show ?thesis by (auto simp: Task_destroy_def tasks_inv_def fuel_of_def)
qed

lemma await_inv:
  assumes "tasks_inv w" and "i < length (tw_frames w)" and "fl_phase (tf_life (tw_frames w ! i)) = Executing" and "t < length (tw_tasks w)"
  shows "\<exists>w'. await_transform (fuel_of w) i t w = Some (Inr w') \<and> tasks_inv w'"
proof -
  let ?f = "tw_frames w ! i" and ?ts = "(tw_tasks w)[t := None]"
  let ?fs = "(tw_frames w)[i := ?f\<lparr>tf_child := tw_tasks w ! t\<rparr>]"
  have "refs ?ts + ref_of (tf_child ?f) + kid (?f\<lparr>tf_child := tw_tasks w ! t\<rparr>) = refs (tw_tasks w) + kid ?f"
    using refs_take [OF assms(4)] assms(3) by (simp add: kid_def ref_of_def ac_simps)
  then have "owned (refs ?ts + ref_of (tf_child ?f)) ?fs"
    using owned_same [of "refs (tw_tasks w)" "tw_frames w" i "?f\<lparr>tf_child := tw_tasks w ! t\<rparr>"] assms(1,2) tasks_inv_frame [OF assms(1,2)]
    by (simp add: tasks_inv_def)
  from task_destroy_owned [OF this living_le] show ?thesis by (auto simp: await_transform_def tasks_inv_def fuel_of_def Let_def)
qed

lemma finish_inv:
  assumes "tasks_inv w" and "i < length (tw_frames w)" and "fl_phase (tf_life (tw_frames w ! i)) = Executing"
  shows "\<exists>w'. task_op_step (Finish i) w = Some (Inr w') \<and> tasks_inv w'"
proof -
  let ?f = "tw_frames w ! i" and ?R = "refs (tw_tasks w)" and ?fs = "tw_frames w"
  note fi = tasks_inv_frame [OF assms(1,2)]
  have o: "owned ?R ?fs" using assms(1) by (simp add: tasks_inv_def)
  show ?thesis
  proof (cases "fl_task (tf_life ?f)")
    case DESTRUCTED
    let ?l = "destroy_frame ((tf_life ?f)\<lparr>fl_coro := FINISHED\<rparr>)"
    have r: "final_await_ready (tf_life ?f) = Inr (True, ?l)" using fi assms(3) DESTRUCTED by (auto simp: final_await_ready_def frame_inv_def Let_def)
    have "owned (?R + ref_of (tf_child ?f)) (?fs[i := \<lparr>tf_life = ?l, tf_child = None\<rparr>])"
      by (rule owned_same [OF o assms(2)]) (use fi assms(3) DESTRUCTED in \<open>auto simp: frame_inv_def destroy_frame_def kid_def ref_of_def\<close>)
    moreover have "living (?fs[i := \<lparr>tf_life = ?l, tf_child = None\<rparr>]) \<le> length ?fs" using living_le [of "?fs[i := \<lparr>tf_life = ?l, tf_child = None\<rparr>]"] by simp
    ultimately show ?thesis using task_destroy_owned r by (fastforce simp: coro_finish_def tasks_inv_def fuel_of_def Let_def)
  next
    case EXIST
    let ?l = "(tf_life ?f)\<lparr>fl_coro := FINISHED, fl_phase := FinalChecked\<rparr>"
    have r: "final_await_ready (tf_life ?f) = Inr (False, ?l)" using fi assms(3) EXIST by (auto simp: final_await_ready_def frame_inv_def Let_def)
    have "owned ?R (?fs[i := ?f\<lparr>tf_life := ?l\<rparr>])"
      by (rule owned_same [OF o assms(2)]) (use fi assms(3) EXIST in \<open>auto simp: frame_inv_def kid_def\<close>)
    then show ?thesis using r by (simp add: coro_finish_def tasks_inv_def Let_def)
  qed
qed

lemma suspend_inv:
  assumes "tasks_inv w" and "i < length (tw_frames w)" and "fl_phase (tf_life (tw_frames w ! i)) = FinalChecked"
  shows "tasks_inv (w\<lparr>tw_frames := coro_suspend i (tw_frames w)\<rparr>)"
proof -
  have "owned (refs (tw_tasks w)) (coro_suspend i (tw_frames w))" unfolding coro_suspend_def
    by (rule owned_same) (use assms tasks_inv_frame [OF assms(1,2)] in \<open>auto simp: tasks_inv_def frame_inv_def kid_def\<close>)
  then show ?thesis by (simp add: tasks_inv_def)
qed

lemma task_op_inv:
  assumes "tasks_inv w" and "task_op_ok a w"
  shows "\<exists>w'. task_op_step a w = Some (Inr w') \<and> tasks_inv w'"
proof (cases a)
  case Spawn
  then show ?thesis using spawn_inv [OF assms(1)] by simp
next
  case (Finish i)
  then show ?thesis using finish_inv [OF assms(1)] assms(2) by simp
qed (use assms move_task_inv assign_task_inv drop_task_inv await_inv suspend_inv in \<open>auto\<close>)

lemma task_reach_inv: "task_reach w \<Longrightarrow> tasks_inv w"
proof (induction rule: task_reach.induct)
  case start
  then show ?case by (simp add: tasks_inv_def owned_def)
next
  case (step w a w')
  then show ?case using task_op_inv by fastforce
qed

text \<open>C17. However coroutines are started, awaited as children, moved, assigned, dropped and finished, no operation on tasks uses a freed frame, fails
  or recurses without end; every frame is freed at most once, and only after its coroutine has finished and its task is gone; and as long as a
  frame has a task, exactly one \<^verbatim>\<open>Task\<close> object or promise refers to it.\<close>

theorem task_frames_safe:
  assumes "task_reach w"
  shows "(\<forall>f \<in> set (tw_frames w). fl_destroyed (tf_life f) \<le> 1 \<and>
      (fl_destroyed (tf_life f) = 1 \<longrightarrow> \<not> fl_alive (tf_life f) \<and> fl_coro (tf_life f) = FINISHED)) \<and>
    (\<forall>a. task_op_ok a w \<longrightarrow> (\<exists>w'. task_op_step a w = Some (Inr w'))) \<and>
    (\<forall>i < length (tw_frames w). fl_alive (tf_life (tw_frames w ! i)) \<longrightarrow>
      Multiset.count (refs (tw_tasks w) + kids (tw_frames w)) i = 1)"
proof -
  have i: "tasks_inv w" by (rule task_reach_inv [OF assms])
  have "fl_destroyed (tf_life f) \<le> 1 \<and> (fl_destroyed (tf_life f) = 1 \<longrightarrow> \<not> fl_alive (tf_life f) \<and> fl_coro (tf_life f) = FINISHED)"
    if "f \<in> set (tw_frames w)" for f
    using tasks_inv_frame [OF i] that by (auto simp: in_set_conv_nth frame_inv_def split: if_splits)
  moreover have "\<exists>w'. task_op_step a w = Some (Inr w')" if "task_op_ok a w" for a using task_op_inv [OF i that] by blast
  ultimately show ?thesis using i by (auto simp: tasks_inv_def owned_def)
qed

text \<open>A parent that awaits a child, both finished, and a task that is dropped: the frame of the parent takes that of the child with it.\<close>

theorem task_frames_safe_witness:
  "\<exists>w. task_reach w \<and> map (fl_destroyed \<circ> tf_life) (tw_frames w) = [1, 1] \<and>
     (\<forall>f \<in> set (tw_frames w). \<not> fl_alive (tf_life f))"
proof -
  let ?x = "\<lparr>fl_phase = Executing, fl_coro = RUNNING, fl_task = EXIST, fl_alive = True, fl_destroyed = 0\<rparr>"
  let ?a = "\<lparr>fl_phase = AtFinal, fl_coro = FINISHED, fl_task = EXIST, fl_alive = True, fl_destroyed = 0\<rparr>"
  let ?c = "\<lparr>fl_phase = FinalChecked, fl_coro = FINISHED, fl_task = EXIST, fl_alive = True, fl_destroyed = 0\<rparr>"
  let ?g = "\<lparr>fl_phase = Gone, fl_coro = FINISHED, fl_task = EXIST, fl_alive = False, fl_destroyed = 1\<rparr>"
  let ?w = "\<lambda>p pc k kc ts. \<lparr>tw_frames = [\<lparr>tf_life = p, tf_child = pc\<rparr>, \<lparr>tf_life = k, tf_child = kc\<rparr>], tw_tasks = ts\<rparr>"
  have 1: "task_reach \<lparr>tw_frames = [\<lparr>tf_life = ?x, tf_child = None\<rparr>], tw_tasks = [Some 0]\<rparr>"
    by (rule task_reach.step [OF task_reach.start, of Spawn]) (simp_all add: get_return_object_def frame_new_def)
  have 2: "task_reach (?w ?x None ?x None [Some 0, Some 1])"
    by (rule task_reach.step [OF 1, of Spawn]) (simp_all add: get_return_object_def frame_new_def)
  have 3: "task_reach (?w ?x (Some 1) ?x None [Some 0, None])"
    by (rule task_reach.step [OF 2, of "Await 0 1"]) (simp_all add: await_transform_def Let_def)
  have 4: "task_reach (?w ?x (Some 1) ?c None [Some 0, None])"
    by (rule task_reach.step [OF 3, of "Finish 1"]) (simp_all add: coro_finish_def final_await_ready_def Let_def)
  have 5: "task_reach (?w ?x (Some 1) ?a None [Some 0, None])"
    by (rule task_reach.step [OF 4, of "Suspend 1"]) (simp_all add: coro_suspend_def)
  have 6: "task_reach (?w ?c (Some 1) ?a None [Some 0, None])"
    by (rule task_reach.step [OF 5, of "Finish 0"]) (simp_all add: coro_finish_def final_await_ready_def Let_def)
  have 7: "task_reach (?w ?a (Some 1) ?a None [Some 0, None])"
    by (rule task_reach.step [OF 6, of "Suspend 0"]) (simp_all add: coro_suspend_def)
  have 8: "task_reach (?w ?g None ?g None [None, None])"
    by (rule task_reach.step [OF 7, of "Drop_task 0"]) (simp_all add: Task_destroy_def fuel_of_def task_release_def handle_done_def destroy_frame_def Let_def numeral_2_eq_2)
  from task_frames_safe [OF 8] show ?thesis using 8 by (intro exI [of _ "?w ?g None ?g None [None, None]"]) simp
qed

subsection \<open>The specialisations for void\<close>

definition notifyAllCbs_void :: "(unit, 'w) promise \<Rightarrow> 'w \<Rightarrow> (exn + unit) \<times> (unit, 'w) promise \<times> 'w" where
  "notifyAllCbs_void p w =
     (case pr_result p of
        None \<Rightarrow> (Inl (Std_exception ''bad optional access''), p, w)
      | Some r \<Rightarrow>
          (case call_cbs (pr_callbacks p) r w of
             (Inl e, w') \<Rightarrow> (Inl e, p, w')
           | (Inr _, w') \<Rightarrow> (Inr (), p\<lparr>pr_callbacks := []\<rparr>, w')))"

definition return_void :: "(unit, 'w) promise \<Rightarrow> 'w \<Rightarrow> (exn + unit) \<times> (unit, 'w) promise \<times> 'w" where
  "return_void p w = notifyAllCbs_void (p\<lparr>pr_result := Some (Result_value ())\<rparr>) w"

definition unhandled_exception_void :: "exn \<Rightarrow> (unit, 'w) promise \<Rightarrow> 'w \<Rightarrow> (exn + unit) \<times> (unit, 'w) promise \<times> 'w" where
  "unhandled_exception_void e p w =
     (let p1 = p\<lparr>pr_result := Some (Result_exception e)\<rparr>
      in case e of Other_exception \<Rightarrow> (Inl Other_exception, p1, w) | Std_exception _ \<Rightarrow> notifyAllCbs_void p1 w)"

definition setCompleteCb_void :: "(unit, 'w) complete_cb \<Rightarrow> (unit, 'w) promise \<Rightarrow> 'w \<Rightarrow> (exn + unit) \<times> (unit, 'w) promise \<times> 'w" where
  "setCompleteCb_void cb p w =
     (case pr_result p of
        Some r \<Rightarrow> (let (x, w') = cb r w in (x, p, w'))
      | None \<Rightarrow> (Inr (), p\<lparr>pr_callbacks := pr_callbacks p @ [cb]\<rparr>, w))"

definition task_then_void :: "(unit, 'w) complete_cb \<Rightarrow> (unit, 'w) promise \<Rightarrow> 'w \<Rightarrow> (exn + unit) \<times> (unit, 'w) promise \<times> 'w" where
  "task_then_void cb = setCompleteCb_void cb"

definition task_catching_void :: "(unit, 'w) complete_cb \<Rightarrow> (unit, 'w) promise \<Rightarrow> 'w \<Rightarrow> (exn + unit) \<times> (unit, 'w) promise \<times> 'w" where
  "task_catching_void func = setCompleteCb_void (\<lambda>r w.
     case getOrThrow r of
       Inr _ \<Rightarrow> (Inr (), w)
     | Inl (Std_exception msg) \<Rightarrow> func (Result_of_std_exception msg) w
     | Inl Other_exception \<Rightarrow> (Inl Other_exception, w))"

definition task_finally_void :: "(unit, 'w) complete_cb \<Rightarrow> (unit, 'w) promise \<Rightarrow> 'w \<Rightarrow> (exn + unit) \<times> (unit, 'w) promise \<times> 'w" where
  "task_finally_void func = setCompleteCb_void (\<lambda>r w.
     case getOrThrow r of
       Inl (Std_exception _) \<Rightarrow> (Inr (), w)
     | Inl Other_exception \<Rightarrow> (Inl Other_exception, w)
     | Inr _ \<Rightarrow>
         (case func r w of
            (Inl (Std_exception _), w') \<Rightarrow> (Inr (), w')
          | (Inl Other_exception, w') \<Rightarrow> (Inl Other_exception, w')
          | (Inr u, w') \<Rightarrow> (Inr u, w')))"

text \<open>\<^verbatim>\<open>getResult\<close> of a void task or promise has an empty body.\<close>

definition getResult_void :: "(unit, 'w) promise \<Rightarrow> (exn + unit) option" where
  "getResult_void p = Some (Inr ())"

definition awaiter_resume_exception_void :: "exn \<Rightarrow> unit awaiter \<Rightarrow> unit awaiter" where
  "awaiter_resume_exception_void e a =
     a\<lparr>aw_result := Some (Result_exception e), aw_resumptions := aw_resumptions a @ [Result_exception e]\<rparr>"

definition awaiter_await_resume_void :: "unit awaiter \<Rightarrow> exn + unit" where
  "awaiter_await_resume_void a =
     (case aw_result a of None \<Rightarrow> Inl (Std_exception ''bad optional access'') | Some r \<Rightarrow> getOrThrow r)"

definition task_awaiter_on_suspend_void ::
  "(unit, unit awaiter) promise \<Rightarrow> unit awaiter \<Rightarrow> (exn + unit) \<times> (unit, unit awaiter) promise \<times> unit awaiter" where
  "task_awaiter_on_suspend_void child a = task_finally_void (\<lambda>r a. (Inr (), awaiter_resume_void a)) child a"

text \<open>The specialisation behaves like the template at the type with one value.\<close>

lemma notify_void_is_unit: "notifyAllCbs_void = notifyAllCbs"
  by (simp add: fun_eq_iff notifyAllCbs_void_def notifyAllCbs_def)

lemma void_is_unit:
  "return_void = return_value ()" "unhandled_exception_void = unhandled_exception"
  "setCompleteCb_void = setCompleteCb" "task_then_void = task_then" "task_catching_void = task_catching" "task_finally_void = task_finally"
  by (simp_all add: fun_eq_iff notify_void_is_unit return_void_def return_value_def unhandled_exception_void_def
      unhandled_exception_def setCompleteCb_void_def setCompleteCb_def task_then_void_def task_then_def task_catching_void_def task_catching_def
      task_finally_void_def task_finally_def catching_cb_def [abs_def] finally_cb_def [abs_def] Let_def split: exn.split)

text \<open>Awaiting a void child: with its end the parent is resumed once; when it ends with an exception the parent is never resumed.\<close>

lemma await_void:
  assumes "task_awaiter_on_suspend_void promise_new a = (Inr (), child, a)"
  shows "\<exists>p. return_void child a = (Inr (), p, awaiter_resume_void a)"
    and "\<exists>p. unhandled_exception_void (Std_exception msg) child a = (Inr (), p, a)"
  using assms by (auto simp: task_awaiter_on_suspend_void_def void_is_unit task_finally_def setCompleteCb_def promise_new_def
      return_value_def unhandled_exception_def notifyAllCbs_def finally_cb_def getOrThrow_def)

text \<open>Asking a void task for its result neither waits nor reports its exception.\<close>

lemma void_result_lost: "getResult_void (promise_new\<lparr>pr_result := Some (Result_exception e)\<rparr>) = Some (Inr ())" "getResult_void promise_new = Some (Inr ())"
  by (simp_all add: getResult_void_def)

subsection \<open>Executers\<close>

text \<open>
  Who runs the resumption of a coroutine: the base executer at once, the one of the scheduler not at the start, where the
  task waits for a worker, but at once later on. An awaiter without executer resumes by itself.
\<close>

datatype executer = BaseExecutor | TaskBeginExecuter

definition execute :: "executer \<Rightarrow> ('w \<Rightarrow> 'w) \<Rightarrow> 'w \<Rightarrow> 'w" where
  "execute ex func w = func w"

fun initialExecute :: "executer \<Rightarrow> ('w \<Rightarrow> 'w) \<Rightarrow> 'w \<Rightarrow> 'w" where
  "initialExecute BaseExecutor func w = func w"
| "initialExecute TaskBeginExecuter func w = w"

definition dispatch :: "executer option \<Rightarrow> ('w \<Rightarrow> 'w) \<Rightarrow> 'w \<Rightarrow> 'w" where
  "dispatch ex func w = (case ex of Some e \<Rightarrow> execute e func w | None \<Rightarrow> func w)"

text \<open>A call of a coroutine up to its initial suspension; \<open>resume i\<close> runs the body of the frame \<open>i\<close>.\<close>

definition initial_await_suspend :: "executer \<Rightarrow> (nat \<Rightarrow> task_world \<Rightarrow> task_world) \<Rightarrow> task_world \<Rightarrow> task_world" where
  "initial_await_suspend ex resume w = (let w1 = get_return_object w in initialExecute ex (resume (length (tw_frames w))) w1)"

lemma call_coroutine:
  "initial_await_suspend TaskBeginExecuter resume w = get_return_object w"
  "initial_await_suspend BaseExecutor resume w = dispatch None (resume (length (tw_frames w))) (get_return_object w)"
  "dispatch (Some ex) func v = dispatch None func v"
  by (simp_all add: initial_await_suspend_def dispatch_def execute_def)

end
