(* ===== verification/Task_Pool.thy ===== *)
theory Task_Pool
  imports Prelude "HOL-Library.Multiset"
begin

section \<open>The task pool (coroutine/coro20/taskPool)\<close>

text \<open>
  The pool keeps one queue per worker thread; \<^verbatim>\<open>taskAlloc\<close> and \<^verbatim>\<open>taskGet\<close> walk over the queues
  with two wrapping 32 bit counters. The element type is a parameter here; the scheduler puts
  \<^verbatim>\<open>TaskCoro20\<close> objects into it. Operations are atomic: each runs under the lock of its node
  or on an atomic counter.
\<close>

subsection \<open>One node\<close>

type_synonym 'a node = "'a list"

definition M_SYLAR_SINGLE_GET_TASK_NUM :: int where
  "M_SYLAR_SINGLE_GET_TASK_NUM = 15"

definition node_addTask :: "'a \<Rightarrow> 'a node \<Rightarrow> 'a node" where
  "node_addTask t q = q @ [t]"

definition node_addTasks :: "'a list \<Rightarrow> 'a node \<Rightarrow> 'a node" where
  "node_addTasks ts q = q @ ts"

text \<open>The size of a queue is an \<^verbatim>\<open>int\<close> in the code; a queue is taken to hold fewer than \<open>2\<^sup>31\<close> tasks.\<close>

definition node_getTask :: "'a list \<Rightarrow> int \<Rightarrow> 'a node \<Rightarrow> int \<times> 'a list \<times> 'a node" where
  "node_getTask tasks num q =
     (if q = [] then (0, tasks, q)
      else (let task_num = int (length q)
            in if task_num < num then (task_num, tasks @ q, [])
               else (num, tasks @ take (nat num) q, drop (nat num) q)))"

subsection \<open>The pool\<close>

record 'a task_pool =
  m_nodes :: "'a node list"
  m_loop_idx :: u32
  m_alloc_idx :: u32
  m_task_count :: u32
  m_node_num :: int

definition TaskPool_new :: "int \<Rightarrow> 'a task_pool" where
  "TaskPool_new nodeNum =
     \<lparr>m_nodes = replicate (nat nodeNum) [], m_loop_idx = 0, m_alloc_idx = 0, m_task_count = 0, m_node_num = nodeNum\<rparr>"

text \<open>\<^verbatim>\<open>idx % m_node_num\<close> is computed at the unsigned 32 bit type.\<close>

definition node_index :: "u32 \<Rightarrow> 'a task_pool \<Rightarrow> failure + nat" where
  "node_index idx p =
     (let n = (of_int (m_node_num p) :: u32)
      in if n = 0 then Inl DivisionByZero
         else if unat (idx mod n) < length (m_nodes p) then Inr (unat (idx mod n)) else Inl OutOfRange)"

definition taskAlloc :: "'a \<Rightarrow> 'a task_pool \<Rightarrow> failure + 'a task_pool" where
  "taskAlloc t p =
     (case node_index (m_alloc_idx p) p of
        Inl e \<Rightarrow> Inl e
      | Inr i \<Rightarrow> Inr (p\<lparr>m_alloc_idx := m_alloc_idx p + 1,
                         m_nodes := (m_nodes p)[i := node_addTask t (m_nodes p ! i)],
                         m_task_count := m_task_count p + 1\<rparr>))"

text \<open>The assertion \<^verbatim>\<open>m_task_count >= 0\<close> compares an unsigned value and always holds.\<close>

definition taskGet :: "'a list \<Rightarrow> 'a task_pool \<Rightarrow> failure + (int \<times> 'a list \<times> 'a task_pool)" where
  "taskGet tasks p =
     (case node_index (m_loop_idx p) p of
        Inl e \<Rightarrow> Inl e
      | Inr i \<Rightarrow>
          (let (rt, tasks', q) = node_getTask tasks M_SYLAR_SINGLE_GET_TASK_NUM (m_nodes p ! i)
           in Inr (rt, tasks', p\<lparr>m_loop_idx := m_loop_idx p + 1, m_nodes := (m_nodes p)[i := q],
                                 m_task_count := m_task_count p - of_int rt\<rparr>)))"

text \<open>\<^verbatim>\<open>getTaskCount\<close> converts the counter to \<^verbatim>\<open>int\<close>.\<close>

definition getTaskCount :: "'a task_pool \<Rightarrow> int" where
  "getTaskCount p = sint (m_task_count p)"

text \<open>The loop of a worker that looks for tasks: \<^verbatim>\<open>while(!taskGet(work_list) && getTaskCount()) {}\<close>.\<close>

partial_function (option) fetch :: "'a list \<Rightarrow> 'a task_pool \<Rightarrow> (failure + ('a list \<times> 'a task_pool)) option" where
  "fetch work p =
     (case taskGet work p of
        Inl e \<Rightarrow> Some (Inl e)
      | Inr (rt, work', p') \<Rightarrow>
          if rt = 0 \<and> getTaskCount p' \<noteq> 0 then fetch work' p' else Some (Inr (work', p')))"

subsection \<open>Invariant\<close>

definition pool_tasks :: "'a task_pool \<Rightarrow> 'a multiset" where
  "pool_tasks p = (\<Sum>q\<leftarrow>m_nodes p. mset q)"

definition pool_inv :: "'a task_pool \<Rightarrow> bool" where
  "pool_inv p \<longleftrightarrow> 0 < m_node_num p \<and> m_node_num p < 2 ^ 31 \<and> length (m_nodes p) = nat (m_node_num p) \<and>
     m_task_count p = of_nat (size (pool_tasks p))"

lemma node_index_ok:
  assumes "pool_inv p"
  shows "node_index idx p = Inr (unat idx mod length (m_nodes p))"
    and "unat idx mod length (m_nodes p) < length (m_nodes p)"
proof -
  let ?n = "m_node_num p"
  have b: "0 < ?n" "?n < 2 ^ 31" "length (m_nodes p) = nat ?n" using assms by (simp_all add: pool_inv_def)
  obtain k where k: "?n = int k" using b(1) zero_less_imp_eq_int by blast
  then have n: "unat (of_int ?n :: u32) = nat ?n"
    using b(2) by (simp add: unsigned_of_nat take_bit_nat_eq_self)
  then have "unat (of_int ?n :: u32) \<noteq> unat (0 :: u32)" using b(1) by simp
  then have "(of_int ?n :: u32) \<noteq> 0" by (rule contrapos_nn) simp
  then show "node_index idx p = Inr (unat idx mod length (m_nodes p))"
    using n b by (simp add: node_index_def Let_def unat_mod)
  show "unat idx mod length (m_nodes p) < length (m_nodes p)" using b by simp
qed

lemma sum_list_0_aux: "(\<Sum>q\<leftarrow>qs. mset q) = {#} \<longleftrightarrow> (\<forall>q\<in>set qs. q = [])"
  by (induction qs) auto

lemma sum_list_update:
  "i < length qs \<Longrightarrow> (\<Sum>q\<leftarrow>qs[i := q']. mset q) + mset (qs ! i) = (\<Sum>q\<leftarrow>qs. mset q) + mset q'"
proof (induction qs arbitrary: i)
  case (Cons q qs)
  then show ?case by (cases i) (auto simp: ac_simps)
qed simp

lemma taskAlloc_ok:
  assumes "pool_inv p"
  obtains p' where "taskAlloc t p = Inr p'" "pool_inv p'" "pool_tasks p' = add_mset t (pool_tasks p)"
    "m_node_num p' = m_node_num p" "m_loop_idx p' = m_loop_idx p"
proof -
  let ?i = "unat (m_alloc_idx p) mod length (m_nodes p)"
  let ?p' = "p\<lparr>m_alloc_idx := m_alloc_idx p + 1, m_nodes := (m_nodes p)[?i := node_addTask t (m_nodes p ! ?i)],
      m_task_count := m_task_count p + 1\<rparr>"
  note idx = node_index_ok [OF assms, of "m_alloc_idx p"]
  have c: "pool_tasks ?p' = add_mset t (pool_tasks p)"
    using sum_list_update [OF idx(2), of "node_addTask t (m_nodes p ! ?i)"]
    by (simp add: pool_tasks_def node_addTask_def add.commute)
  have "pool_inv ?p'"
    using assms c by (simp add: pool_inv_def)
  then show ?thesis using that [of ?p'] idx c by (simp add: taskAlloc_def)
qed

lemma node_getTask_split:
  "node_getTask tasks 15 q = (int (min 15 (length q)), tasks @ take 15 q, drop 15 q)"
  by (simp add: node_getTask_def Let_def)

lemma taskGet_ok:
  assumes "pool_inv p"
  defines "i \<equiv> unat (m_loop_idx p) mod length (m_nodes p)"
  obtains p' where "taskGet work p = Inr (int (min 15 (length (m_nodes p ! i))), work @ take 15 (m_nodes p ! i), p')"
    "pool_inv p'" "pool_tasks p = mset (take 15 (m_nodes p ! i)) + pool_tasks p'"
    "m_nodes p' = (m_nodes p)[i := drop 15 (m_nodes p ! i)]" "m_loop_idx p' = m_loop_idx p + 1"
    "m_node_num p' = m_node_num p" "m_alloc_idx p' = m_alloc_idx p"
proof -
  let ?q = "m_nodes p ! i"
  let ?p' = "p\<lparr>m_loop_idx := m_loop_idx p + 1, m_nodes := (m_nodes p)[i := drop 15 ?q],
      m_task_count := m_task_count p - of_int (int (min 15 (length ?q)))\<rparr>"
  note idx = node_index_ok [OF assms(1), of "m_loop_idx p", folded i_def]
  have "mset ?q = mset (take 15 ?q) + mset (drop 15 ?q)" by (metis append_take_drop_id mset_append)
  then have c: "pool_tasks p = mset (take 15 ?q) + pool_tasks ?p'"
    using sum_list_update [OF idx(2), of "drop 15 ?q"] by (simp add: pool_tasks_def ac_simps)
  let ?T = "\<Sum>q\<leftarrow>(m_nodes p)[i := drop 15 ?q]. mset q"
  have "size (pool_tasks p) = min 15 (length ?q) + size ?T" using c by (simp add: pool_tasks_def)
  then have "m_task_count p - of_nat (min 15 (length ?q)) = of_nat (size ?T)"
    using assms(1) unfolding pool_inv_def by simp
  then have "pool_inv ?p'" using assms(1) by (simp add: pool_inv_def pool_tasks_def)
  then show ?thesis
    using that [of ?p'] idx c by (simp add: taskGet_def M_SYLAR_SINGLE_GET_TASK_NUM_def node_getTask_split)
qed

subsection \<open>A worker finds a task\<close>

lemma fetch_unfold:
  "fetch work p =
     (case taskGet work p of
        Inl e \<Rightarrow> Some (Inl e)
      | Inr (rt, work', p') \<Rightarrow>
          if rt = 0 \<and> getTaskCount p' \<noteq> 0 then fetch work' p' else Some (Inr (work', p')))"
  by (rule fetch.simps)

text \<open>Starting anywhere, the wrapping counter points at every node within two rounds.\<close>

lemma counter_visits:
  fixes idx :: u32
  assumes "j < n" "n \<le> 2 ^ 32"
  obtains k where "k < 2 * n" "unat (idx + of_nat k) mod n = j"
proof (cases "unat idx + n \<le> 2 ^ 32")
  case True
  define k where "k = (j + (n - unat idx mod n)) mod n"
  have k: "k < n" using assms(1) by (simp add: k_def)
  have "unat (idx + of_nat k) = unat idx + k"
    using True k by (simp add: unat_word_ariths unsigned_of_nat take_bit_nat_eq_self)
  moreover have "(unat idx + k) mod n = j"
  proof -
    have "unat idx mod n < n" using assms(1) by simp
    then have "unat idx mod n + (j + (n - unat idx mod n)) = j + n" by simp
    then have "(unat idx + k) mod n = (j + n) mod n" unfolding k_def by (metis mod_add_left_eq mod_add_right_eq)
    then show ?thesis using assms(1) by simp
  qed
  ultimately show ?thesis using that [of k] k by simp
next
  case False
  define k where "k = 2 ^ 32 - unat idx + j"
  have i: "unat idx < 2 ^ 32" using unsigned_less [of idx] by simp
  then have "unat idx + k = 2 ^ 32 + j" by (simp add: k_def)
  moreover have "unat (idx + of_nat k) = (unat idx + k) mod 2 ^ 32"
    by (simp add: unat_word_ariths unsigned_of_nat take_bit_eq_mod mod_simps)
  ultimately have "unat (idx + of_nat k) = j" using assms by simp
  moreover have "k < 2 * n" using False assms i unfolding k_def by linarith
  ultimately show ?thesis using that [of k] assms(1) by simp
qed

text \<open>Skipping over empty nodes changes only the counter.\<close>

lemma taskGet_empty:
  assumes "pool_inv p" "m_nodes p ! (unat (m_loop_idx p) mod length (m_nodes p)) = []"
  shows "taskGet work p = Inr (0, work, p\<lparr>m_loop_idx := m_loop_idx p + 1\<rparr>)"
proof -
  let ?i = "unat (m_loop_idx p) mod length (m_nodes p)"
  have "(m_nodes p)[?i := []] = m_nodes p" using assms(2) by (metis list_update_id)
  then show ?thesis
    using node_index_ok [OF assms(1), of "m_loop_idx p"] assms(2)
    by (cases p) (simp add: taskGet_def M_SYLAR_SINGLE_GET_TASK_NUM_def node_getTask_split)
qed

lemma sint_eq_0: "sint (w :: u32) = 0 \<longleftrightarrow> w = 0"
  using signed_word_eqI [of w 0] by auto

lemma count_pos:
  assumes "pool_inv p" "pool_tasks p \<noteq> {#}" "size (pool_tasks p) < 2 ^ 32"
  shows "getTaskCount p \<noteq> 0"
proof -
  have "unat (m_task_count p) = size (pool_tasks p)"
    using assms by (simp add: pool_inv_def unsigned_of_nat take_bit_nat_eq_self)
  then have "m_task_count p \<noteq> 0" using assms(2) by (metis size_eq_0_iff_empty unat_0)
  then show ?thesis by (simp add: getTaskCount_def sint_eq_0)
qed

lemma taskGet_nonempty:
  assumes "pool_inv p" "m_nodes p ! (unat (m_loop_idx p) mod length (m_nodes p)) \<noteq> []"
  shows "\<exists>ts p'. fetch work p = Some (Inr (work @ ts, p')) \<and> ts \<noteq> [] \<and> length ts \<le> 15 \<and> pool_inv p' \<and>
    pool_tasks p = mset ts + pool_tasks p'"
proof (rule taskGet_ok [OF assms(1), of work])
  let ?q = "m_nodes p ! (unat (m_loop_idx p) mod length (m_nodes p))"
  fix p' assume g: "taskGet work p = Inr (int (min 15 (length ?q)), work @ take 15 ?q, p')"
    and p': "pool_inv p'" "pool_tasks p = mset (take 15 ?q) + pool_tasks p'"
  have "int (min 15 (length ?q)) \<noteq> 0" using assms(2) by simp
  then obtain rt where "taskGet work p = Inr (rt, work @ take 15 ?q, p')" "rt \<noteq> 0" using g by blast
  then have "fetch work p = Some (Inr (work @ take 15 ?q, p'))" by (simp add: fetch_unfold [of work p])
  moreover have "take 15 ?q \<noteq> []" "length (take 15 ?q) \<le> 15" using assms(2) by simp_all
  ultimately show ?thesis using p' by blast
qed

lemma fetch_skips:
  assumes "pool_inv p" "m_nodes p ! (unat (m_loop_idx p) mod length (m_nodes p)) = []" "getTaskCount p \<noteq> 0"
  shows "fetch work p = fetch work (p\<lparr>m_loop_idx := m_loop_idx p + 1\<rparr>)"
  using taskGet_empty [OF assms(1,2)] assms(3) by (simp add: fetch_unfold [of work p] getTaskCount_def)

lemma fetch_reaches:
  assumes "pool_inv p" "getTaskCount p \<noteq> 0"
    "m_nodes p ! (unat (m_loop_idx p + of_nat k) mod length (m_nodes p)) \<noteq> []"
  shows "\<exists>ts p'. fetch work p = Some (Inr (work @ ts, p')) \<and> ts \<noteq> [] \<and> length ts \<le> 15 \<and> pool_inv p' \<and>
    pool_tasks p = mset ts + pool_tasks p'"
  using assms
proof (induction k arbitrary: p)
  case 0
  then show ?case using taskGet_nonempty [of p work] by simp
next
  case (Suc k)
  let ?p1 = "p\<lparr>m_loop_idx := m_loop_idx p + 1\<rparr>"
  show ?case
  proof (cases "m_nodes p ! (unat (m_loop_idx p) mod length (m_nodes p)) = []")
    case True
    have "pool_inv ?p1" "getTaskCount ?p1 \<noteq> 0" "pool_tasks ?p1 = pool_tasks p"
      using Suc.prems by (simp_all add: pool_inv_def getTaskCount_def pool_tasks_def)
    moreover have "m_nodes ?p1 ! (unat (m_loop_idx ?p1 + of_nat k) mod length (m_nodes ?p1)) \<noteq> []"
      using Suc.prems(3) by (simp add: add.assoc)
    ultimately show ?thesis using Suc.IH [of ?p1] fetch_skips [OF Suc.prems(1) True Suc.prems(2)] by simp
  next
    case False
    then show ?thesis using taskGet_nonempty [OF Suc.prems(1)] by simp
  qed
qed

lemma nonempty_node:
  assumes "pool_tasks p \<noteq> {#}"
  obtains j where "j < length (m_nodes p)" "m_nodes p ! j \<noteq> []"
proof -
  obtain q where "q \<in> set (m_nodes p)" "q \<noteq> []"
  proof (rule ccontr)
    assume "\<not> thesis"
    then have "\<forall>q\<in>set (m_nodes p). mset q = {#}" using that by auto
    then show False using assms by (simp add: pool_tasks_def sum_list_0_aux)
  qed
  then show ?thesis using that by (metis in_set_conv_nth)
qed

lemma fetch_finds:
  assumes "pool_inv p" "size (pool_tasks p) < 2 ^ 32"
  shows "\<exists>ts p'. fetch work p = Some (Inr (work @ ts, p')) \<and> length ts \<le> 15 \<and> pool_inv p' \<and>
    pool_tasks p = mset ts + pool_tasks p' \<and> (ts = [] \<longleftrightarrow> pool_tasks p = {#})"
proof (cases "pool_tasks p = {#}")
  case True
  let ?i = "unat (m_loop_idx p) mod length (m_nodes p)"
  have "m_nodes p ! ?i \<in> set (m_nodes p)" using node_index_ok(2) [OF assms(1)] by simp
  then have "m_nodes p ! ?i = []" using True by (auto simp: pool_tasks_def sum_list_0_aux)
  moreover have "getTaskCount p = 0" using assms(1) True by (simp add: pool_inv_def getTaskCount_def)
  ultimately show ?thesis
    using True assms(1) taskGet_empty [OF assms(1), of work]
    by (auto simp: fetch_unfold [of work p] getTaskCount_def pool_inv_def pool_tasks_def)
next
  case False
  obtain j where j: "j < length (m_nodes p)" "m_nodes p ! j \<noteq> []" using nonempty_node [OF False] .
  have "length (m_nodes p) \<le> 2 ^ 32" using assms(1) by (simp add: pool_inv_def nat_le_iff)
  then obtain k where "unat (m_loop_idx p + of_nat k) mod length (m_nodes p) = j"
    using counter_visits [OF j(1), of "m_loop_idx p"] by blast
  then show ?thesis
    using fetch_reaches [OF assms(1) count_pos [OF assms(1) False assms(2)], of k work] j False by auto
qed

text \<open>
  A worker looking for tasks always stops: when the pool holds a task, its search loop returns
  between one and fifteen of them, taken out of the pool, even across the wrap-around of the
  counter; when the pool is empty it returns at once with nothing.
\<close>

theorem worker_finds_task:
  assumes "pool_inv p" "size (pool_tasks p) < 2 ^ 32"
  shows "\<exists>ts p'. fetch work p = Some (Inr (work @ ts, p')) \<and> length ts \<le> 15 \<and> pool_inv p' \<and>
    pool_tasks p = mset ts + pool_tasks p' \<and> (ts = [] \<longleftrightarrow> pool_tasks p = {#})"
  by (rule fetch_finds [OF assms])

theorem worker_finds_task_witness:
  "\<exists>ts p'. fetch [] \<lparr>m_nodes = [[], [], [CHR ''a'']], m_loop_idx = 4294967295, m_alloc_idx = 0, m_task_count = 1, m_node_num = 3\<rparr>
      = Some (Inr (ts, p')) \<and> mset ts + pool_tasks p' = {#CHR ''a''#} \<and> ts \<noteq> []"
proof -
  let ?p = "\<lparr>m_nodes = [[], [], [CHR ''a'']], m_loop_idx = 4294967295, m_alloc_idx = 0, m_task_count = 1, m_node_num = 3\<rparr>"
  have "pool_inv ?p" "pool_tasks ?p = {#CHR ''a''#}" by (simp_all add: pool_inv_def pool_tasks_def)
  then show ?thesis using worker_finds_task [of ?p "[]"] by auto
qed

subsection \<open>No task is lost or run twice\<close>

text \<open>
  What the users of a pool rely on: putting adds one task, taking removes what it returns, and
  every operation keeps the pool usable. From these laws it follows that over any sequence of
  operations, of any number of threads, each task is handed out exactly as often as it was put.
\<close>

datatype 'a pool_op = Put 'a | Take

fun run_ops :: "('a \<Rightarrow> 'p \<Rightarrow> 'p) \<Rightarrow> ('p \<Rightarrow> 'a list \<times> 'p) \<Rightarrow> 'a pool_op list \<Rightarrow> 'p \<Rightarrow> 'a list \<times> 'p" where
  "run_ops put tk [] p = ([], p)"
| "run_ops put tk (Put t # ops) p = run_ops put tk ops (put t p)"
| "run_ops put tk (Take # ops) p =
     (let (ts, p') = tk p; (rest, p'') = run_ops put tk ops p' in (ts @ rest, p''))"

fun puts :: "'a pool_op list \<Rightarrow> 'a list" where
  "puts [] = []"
| "puts (Put t # ops) = t # puts ops"
| "puts (Take # ops) = puts ops"

locale work_pool =
  fixes put :: "'a \<Rightarrow> 'p \<Rightarrow> 'p" and tk :: "'p \<Rightarrow> 'a list \<times> 'p"
    and valid :: "'p \<Rightarrow> bool" and content :: "'p \<Rightarrow> 'a multiset"
  assumes put_valid: "valid p \<Longrightarrow> valid (put t p)"
    and put_content: "valid p \<Longrightarrow> content (put t p) = add_mset t (content p)"
    and take_valid: "valid p \<Longrightarrow> valid (snd (tk p))"
    and take_content: "valid p \<Longrightarrow> content p = mset (fst (tk p)) + content (snd (tk p))"
begin

lemma run_ops_conserves:
  "valid p \<Longrightarrow> valid (snd (run_ops put tk ops p)) \<and>
   mset (fst (run_ops put tk ops p)) + content (snd (run_ops put tk ops p)) = content p + mset (puts ops)"
proof (induction ops arbitrary: p)
  case (Cons x ops)
  show ?case
  proof (cases x)
    case (Put t)
    then show ?thesis using Cons.IH [OF put_valid [OF Cons.prems]] put_content [OF Cons.prems] by simp
  next
    case Take
    have "mset (fst (tk p)) + (mset (fst (run_ops put tk ops (snd (tk p)))) + content (snd (run_ops put tk ops (snd (tk p))))) =
        content p + mset (puts ops)"
      using Cons.IH [OF take_valid [OF Cons.prems]] take_content [OF Cons.prems] by (simp add: ac_simps)
    then show ?thesis
      using Take Cons.IH [OF take_valid [OF Cons.prems]] by (simp add: case_prod_unfold Let_def ac_simps)
  qed
qed simp

end

definition pool_put :: "'a \<Rightarrow> 'a task_pool \<Rightarrow> 'a task_pool" where
  "pool_put t p = (case taskAlloc t p of Inl _ \<Rightarrow> p | Inr p' \<Rightarrow> p')"

definition pool_take :: "'a task_pool \<Rightarrow> 'a list \<times> 'a task_pool" where
  "pool_take p = (case taskGet [] p of Inl _ \<Rightarrow> ([], p) | Inr (_, ts, p') \<Rightarrow> (ts, p'))"

interpretation tp: work_pool pool_put pool_take pool_inv pool_tasks
proof
  fix p :: "'a task_pool" and t
  assume inv: "pool_inv p"
  obtain p' where "taskAlloc t p = Inr p'" "pool_inv p'" "pool_tasks p' = add_mset t (pool_tasks p)"
    using taskAlloc_ok [OF inv] .
  then show "pool_inv (pool_put t p)" "pool_tasks (pool_put t p) = add_mset t (pool_tasks p)"
    by (simp_all add: pool_put_def)
next
  fix p :: "'a task_pool"
  assume inv: "pool_inv p"
  obtain ts n p' where "taskGet [] p = Inr (n, ts, p')" "pool_inv p'" "pool_tasks p = mset ts + pool_tasks p'"
    by (rule taskGet_ok [OF inv, of "[]"]) simp
  then show "pool_inv (snd (pool_take p))" "pool_tasks p = mset (fst (pool_take p)) + pool_tasks (snd (pool_take p))"
    by (simp_all add: pool_take_def)
qed

lemma TaskPool_new_inv:
  assumes "0 < n" "n < 2 ^ 31"
  shows "pool_inv (TaskPool_new n :: 'a task_pool)" "pool_tasks (TaskPool_new n :: 'a task_pool) = {#}"
proof -
  let ?p0 = "TaskPool_new n :: 'a task_pool"
  have "(\<Sum>q\<leftarrow>replicate k []. mset q) = {#}" for k :: nat by (induction k) simp_all
  then have t0: "pool_tasks ?p0 = {#}" by (simp only: pool_tasks_def TaskPool_new_def task_pool.simps)
  have "m_node_num ?p0 = n" "length (m_nodes ?p0) = nat n" "m_task_count ?p0 = 0" by (simp_all add: TaskPool_new_def)
  then show "pool_inv ?p0" "pool_tasks ?p0 = {#}"
    using assms t0 by (simp_all add: pool_inv_def)
qed

text \<open>
  C26. Over every sequence of \<^verbatim>\<open>taskAlloc\<close> and \<^verbatim>\<open>taskGet\<close> calls the tasks handed out together with
  those still in the pool are exactly the tasks put in: none is lost and none is handed out
  twice. No call fails and the counter keeps the number of tasks.
\<close>

theorem pool_conserves_tasks:
  assumes "0 < n" "n < 2 ^ 31"
  shows "let (got, p) = run_ops pool_put pool_take ops (TaskPool_new n)
    in mset got + pool_tasks p = mset (puts ops) \<and> m_task_count p = of_nat (size (pool_tasks p)) \<and>
       (\<forall>t. \<not> isl (taskAlloc t p)) \<and> \<not> isl (taskGet [] p)"
proof -
  let ?p0 = "TaskPool_new n :: 'a task_pool"
  note 0 = TaskPool_new_inv [OF assms, where 'a = 'a]
  obtain got p where r: "run_ops pool_put pool_take ops ?p0 = (got, p)" by fastforce
  have p: "pool_inv p" "mset got + pool_tasks p = mset (puts ops)"
    using tp.run_ops_conserves [OF 0(1), of ops] 0(2) r by simp_all
  have "\<not> isl (taskAlloc t p)" for t by (rule taskAlloc_ok [OF p(1), of t]) simp
  moreover have "\<not> isl (taskGet [] p)" by (rule taskGet_ok [OF p(1), of "[]"]) simp
  ultimately show ?thesis using r p by (simp add: pool_inv_def)
qed

theorem pool_conserves_tasks_witness:
  "let (got, p) = run_ops pool_put pool_take [Put (1 :: nat), Put 2, Take, Put 3] (TaskPool_new 2)
   in mset got + pool_tasks p = {#1, 2, 3#}"
  using pool_conserves_tasks [of 2 "[Put (1 :: nat), Put 2, Take, Put 3]"] by (simp add: case_prod_unfold Let_def)

end
