(* ===== verification/Scheduler.thy ===== *)
theory Scheduler
  imports Task_Pool
begin

section \<open>Tasks and the scheduler (coroutine/coro20: fiber.h, scheduler)\<close>

text \<open>
  A \<^verbatim>\<open>TaskCoro20\<close> is a function or a coroutine. Callables and coroutine factories have
  identities (\<open>nat\<close>), and so have coroutine handles; \<open>None\<close> is an empty callable or a null
  handle. A scheduler owns a task pool; a worker thread takes batches out of it and starts the
  tasks. What a started task does is user code: an argument \<open>user\<close>, which acts on the
  scheduler, and an argument \<open>ends\<close> that says whether a resumed coroutine runs to its end.
\<close>

datatype task_type = UNKNOWN | CORO | FUNC

record task_coro20 =
  m_func_task :: "nat option"
  m_coro_task :: "nat option"
  m_task :: "nat option"
  m_is_inited :: bool
  m_finished :: bool
  m_type :: task_type

subsection \<open>TaskCoro20\<close>

definition TaskCoro20_default :: task_coro20 where
  "TaskCoro20_default = \<lparr>m_func_task = None, m_coro_task = None, m_task = None, m_is_inited = False,
     m_finished = False, m_type = UNKNOWN\<rparr>"

definition TaskCoro20_func :: "nat option \<Rightarrow> task_coro20" where
  "TaskCoro20_func f = \<lparr>m_func_task = f, m_coro_task = None, m_task = None, m_is_inited = True,
     m_finished = False, m_type = FUNC\<rparr>"

text \<open>Calling the factory makes a new coroutine, suspended before its body; \<open>h\<close> is its handle.\<close>

definition TaskCoro20_coro :: "nat \<Rightarrow> nat option \<Rightarrow> failure + task_coro20" where
  "TaskCoro20_coro h f =
     (case f of
        None \<Rightarrow> Inl (Thrown ''bad function call'')
      | Some _ \<Rightarrow> Inr \<lparr>m_func_task = None, m_coro_task = f, m_task = Some h, m_is_inited = True,
                        m_finished = False, m_type = CORO\<rparr>)"

definition create_func :: "nat option \<Rightarrow> task_coro20" where
  "create_func f = TaskCoro20_default\<lparr>m_func_task := f, m_type := FUNC, m_is_inited := True, m_finished := False\<rparr>"

definition create_coro :: "nat \<Rightarrow> nat option \<Rightarrow> failure + task_coro20" where
  "create_coro h f =
     (case f of
        None \<Rightarrow> Inl (Thrown ''bad function call'')
      | Some _ \<Rightarrow> Inr (TaskCoro20_default\<lparr>m_coro_task := f, m_task := Some h, m_type := CORO,
                        m_is_inited := True, m_finished := False\<rparr>))"

definition clone :: "nat \<Rightarrow> task_coro20 \<Rightarrow> failure + task_coro20" where
  "clone h t =
     (case m_type t of
        FUNC \<Rightarrow> Inr (create_func (m_func_task t))
      | CORO \<Rightarrow> create_coro h (m_coro_task t)
      | UNKNOWN \<Rightarrow> Inr TaskCoro20_default)"

text \<open>Both moves give the new object and what is left of the old one.\<close>

definition move_assign :: "task_coro20 \<Rightarrow> task_coro20 \<Rightarrow> task_coro20 \<times> task_coro20" where
  "move_assign this other =
     (this\<lparr>m_func_task := m_func_task other, m_coro_task := m_coro_task other, m_task := m_task other,
           m_is_inited := m_is_inited other, m_finished := m_finished other, m_type := m_type other\<rparr>,
      other\<lparr>m_task := None, m_type := UNKNOWN\<rparr>)"

definition move_construct :: "task_coro20 \<Rightarrow> task_coro20 \<times> task_coro20" where
  "move_construct other =
     (\<lparr>m_func_task = m_func_task other, m_coro_task = m_coro_task other, m_task = m_task other,
       m_is_inited = m_is_inited other, m_finished = m_finished other, m_type = m_type other\<rparr>,
      other\<lparr>m_task := None, m_type := UNKNOWN\<rparr>)"

definition reset_from :: "task_coro20 \<Rightarrow> task_coro20 \<Rightarrow> task_coro20 \<times> task_coro20" where
  "reset_from this other =
     (this\<lparr>m_type := m_type other, m_is_inited := m_is_inited other, m_task := m_task other\<rparr>,
      other\<lparr>m_task := None\<rparr>)"

definition task_reset :: "task_coro20 \<Rightarrow> task_coro20" where
  "task_reset t = t\<lparr>m_func_task := None, m_coro_task := None, m_is_inited := False, m_type := UNKNOWN\<rparr>"

definition isLegal :: "task_coro20 \<Rightarrow> bool" where
  "isLegal t \<longleftrightarrow> m_is_inited t \<and>
     (case m_type t of CORO \<Rightarrow> m_task t \<noteq> None | FUNC \<Rightarrow> m_func_task t \<noteq> None | UNKNOWN \<Rightarrow> False)"

text \<open>\<open>dn h\<close> is \<^verbatim>\<open>done()\<close> of the coroutine with handle \<open>h\<close>.\<close>

definition isFinished :: "(nat \<Rightarrow> bool) \<Rightarrow> task_coro20 \<Rightarrow> bool" where
  "isFinished dn t \<longleftrightarrow> isLegal t \<and>
     (case m_type t of CORO \<Rightarrow> dn (the (m_task t)) | FUNC \<Rightarrow> m_finished t | UNKNOWN \<Rightarrow> True)"

datatype action = Call nat | Resume nat

text \<open>What \<^verbatim>\<open>start\<close> runs; resuming a null or a finished coroutine is undefined behaviour.\<close>

definition start :: "(nat \<Rightarrow> bool) \<Rightarrow> task_coro20 \<Rightarrow> failure + (action option \<times> task_coro20)" where
  "start dn t =
     (case m_type t of
        CORO \<Rightarrow>
          (case m_task t of
             None \<Rightarrow> Inl (Thrown ''null coroutine handle'')
           | Some h \<Rightarrow> if dn h then Inl (Thrown ''resume of a finished coroutine'')
                        else Inr (Some (Resume h), t))
      | FUNC \<Rightarrow>
          (case m_func_task t of
             None \<Rightarrow> Inl (Thrown ''bad function call'')
           | Some f \<Rightarrow> Inr (Some (Call f), t\<lparr>m_finished := True\<rparr>))
      | UNKNOWN \<Rightarrow> Inr (None, t))"

subsection \<open>The scheduler\<close>

record sched =
  m_activeThreadCount :: u64
  m_threads :: nat
  m_threads_count :: u64
  m_autoStop :: bool
  m_stop :: bool
  m_idleThreadCount :: u64
  m_task_pool :: "task_coro20 task_pool"
  tickles :: nat
  coro_done :: "nat \<Rightarrow> bool"
  executed :: "action list"

definition Scheduler_new :: "nat \<Rightarrow> sched" where
  "Scheduler_new thread_num =
     \<lparr>m_activeThreadCount = of_nat thread_num, m_threads = 0, m_threads_count = of_nat thread_num,
      m_autoStop = False, m_stop = False, m_idleThreadCount = 0, m_task_pool = TaskPool_new (int thread_num),
      tickles = 0, coro_done = (\<lambda>_. False), executed = []\<rparr>"

definition Scheduler_start :: "sched \<Rightarrow> failure + sched" where
  "Scheduler_start s =
     (if getTaskCount (m_task_pool s) \<noteq> 0 \<or> m_threads s \<noteq> 0 then Inl AssertionFailed
      else Inr (s\<lparr>m_threads := unat (m_threads_count s)\<rparr>))"

text \<open>The call of the virtual \<^verbatim>\<open>tickle\<close>, which an IO manager implements by writing to its eventfd.\<close>

definition tickle :: "sched \<Rightarrow> sched" where
  "tickle s = s\<lparr>tickles := Suc (tickles s)\<rparr>"

definition scheduleNoLock :: "task_coro20 \<Rightarrow> sched \<Rightarrow> failure + sched" where
  "scheduleNoLock t s =
     (if isFinished (coro_done s) t then Inr s
      else if m_autoStop s then Inr s
      else (case taskAlloc (fst (move_construct t)) (m_task_pool s) of
              Inl e \<Rightarrow> Inl e
            | Inr p \<Rightarrow> Inr (s\<lparr>m_task_pool := p\<rparr>)))"

definition schedule :: "task_coro20 \<Rightarrow> sched \<Rightarrow> failure + sched" where
  "schedule t s = map_sum id tickle (scheduleNoLock t s)"

fun schedule_each :: "task_coro20 list \<Rightarrow> sched \<Rightarrow> failure + sched" where
  "schedule_each [] s = Inr s"
| "schedule_each (t # ts) s = (case scheduleNoLock t s of Inl e \<Rightarrow> Inl e | Inr s' \<Rightarrow> schedule_each ts s')"

definition schedule_range :: "task_coro20 list \<Rightarrow> sched \<Rightarrow> failure + sched" where
  "schedule_range ts s = map_sum id tickle (schedule_each ts s)"

text \<open>Starting one task of the work list.\<close>

definition run_action :: "(action \<Rightarrow> sched \<Rightarrow> sched) \<Rightarrow> (nat \<Rightarrow> bool) \<Rightarrow> action \<Rightarrow> sched \<Rightarrow> sched" where
  "run_action user ends a s =
     user a (s\<lparr>executed := executed s @ [a],
               coro_done := (case a of Resume h \<Rightarrow> (coro_done s)(h := ends h) | Call _ \<Rightarrow> coro_done s)\<rparr>)"

fun run_work :: "(action \<Rightarrow> sched \<Rightarrow> sched) \<Rightarrow> (nat \<Rightarrow> bool) \<Rightarrow> task_coro20 list \<Rightarrow> sched \<Rightarrow> failure + sched" where
  "run_work user ends [] s = Inr s"
| "run_work user ends (t # ts) s =
     (if isLegal t \<and> \<not> isFinished (coro_done s) t
      then (case start (coro_done s) t of
              Inl e \<Rightarrow> Inl e
            | Inr (None, _) \<Rightarrow> run_work user ends ts s
            | Inr (Some a, _) \<Rightarrow> run_work user ends ts (run_action user ends a s))
      else run_work user ends ts s)"

datatype next_step = Break | Continue | Idle

definition what_next :: "sched \<Rightarrow> next_step" where
  "what_next s =
     (if m_stop s \<or> (getTaskCount (m_task_pool s) = 0 \<and> m_autoStop s) then Break
      else if getTaskCount (m_task_pool s) \<noteq> 0 then Continue else Idle)"

text \<open>One round of \<^verbatim>\<open>run\<close>: take tasks, wake another thread, start the tasks, decide.\<close>

definition run_round ::
  "(action \<Rightarrow> sched \<Rightarrow> sched) \<Rightarrow> (nat \<Rightarrow> bool) \<Rightarrow> sched \<Rightarrow> (failure + (next_step \<times> sched)) option" where
  "run_round user ends s =
     (case fetch [] (m_task_pool s) of
        None \<Rightarrow> None
      | Some (Inl e) \<Rightarrow> Some (Inl e)
      | Some (Inr (work, p)) \<Rightarrow>
          (let s1 = s\<lparr>m_task_pool := p\<rparr>;
               s2 = (if getTaskCount p \<noteq> 0 \<and> m_idleThreadCount s1 \<noteq> 0 then tickle s1 else s1)
           in case run_work user ends work s2 of
                Inl e \<Rightarrow> Some (Inl e)
              | Inr s3 \<Rightarrow> Some (Inr (what_next s3, s3))))"

text \<open>A worker until it goes idle or leaves; leaving takes it off the thread count.\<close>

partial_function (option) run_worker ::
  "(action \<Rightarrow> sched \<Rightarrow> sched) \<Rightarrow> (nat \<Rightarrow> bool) \<Rightarrow> sched \<Rightarrow> (failure + (next_step \<times> sched)) option" where
  "run_worker user ends s =
     (if m_stop s then Some (Inr (Break, s\<lparr>m_threads_count := m_threads_count s - 1\<rparr>))
      else (case run_round user ends s of
              None \<Rightarrow> None
            | Some (Inl e) \<Rightarrow> Some (Inl e)
            | Some (Inr (Break, s')) \<Rightarrow> Some (Inr (Break, s'\<lparr>m_threads_count := m_threads_count s' - 1\<rparr>))
            | Some (Inr (Idle, s')) \<Rightarrow> Some (Inr (Idle, s'))
            | Some (Inr (Continue, s')) \<Rightarrow> run_worker user ends s'))"

definition idle_enter :: "sched \<Rightarrow> sched" where
  "idle_enter s = s\<lparr>m_idleThreadCount := m_idleThreadCount s + 1, m_activeThreadCount := m_activeThreadCount s - 1\<rparr>"

definition idle_leave :: "sched \<Rightarrow> sched" where
  "idle_leave s = s\<lparr>m_idleThreadCount := m_idleThreadCount s - 1, m_activeThreadCount := m_activeThreadCount s + 1\<rparr>"

definition isStopping :: "sched \<Rightarrow> bool" where
  "isStopping s \<longleftrightarrow> m_stop s \<or> m_autoStop s"

subsection \<open>Lemmas\<close>

definition runnable :: "(nat \<Rightarrow> bool) \<Rightarrow> task_coro20 \<Rightarrow> bool" where
  "runnable dn t \<longleftrightarrow> isLegal t \<and> \<not> isFinished dn t"

definition action_of :: "task_coro20 \<Rightarrow> action" where
  "action_of t = (if m_type t = CORO then Resume (the (m_task t)) else Call (the (m_func_task t)))"

definition owns :: "nat \<Rightarrow> task_coro20 \<Rightarrow> bool" where
  "owns h t \<longleftrightarrow> m_type t = CORO \<and> m_task t = Some h"

text \<open>No coroutine belongs to two tasks: \<^verbatim>\<open>Task\<close> cannot be copied.\<close>

definition sole_owners :: "task_coro20 multiset \<Rightarrow> bool" where
  "sole_owners M \<longleftrightarrow> (\<forall>h. size (filter_mset (owns h) M) \<le> 1)"

text \<open>User code that does not schedule or stop anything.\<close>

definition quiet :: "(action \<Rightarrow> sched \<Rightarrow> sched) \<Rightarrow> bool" where
  "quiet user \<longleftrightarrow> (\<forall>a s. m_task_pool (user a s) = m_task_pool s \<and> m_stop (user a s) = m_stop s \<and>
     m_autoStop (user a s) = m_autoStop s \<and> coro_done (user a s) = coro_done s \<and> executed (user a s) = executed s)"

lemma start_runnable: "runnable dn t \<Longrightarrow> \<exists>t'. start dn t = Inr (Some (action_of t), t')"
  by (auto simp: runnable_def isLegal_def isFinished_def start_def action_of_def split: task_type.splits)

lemma runnable_cong:
  "(\<And>h. owns h t \<Longrightarrow> dn h = dn' h) \<Longrightarrow> runnable dn t = runnable dn' t"
  by (cases "m_type t"; cases "m_task t") (auto simp: runnable_def isLegal_def isFinished_def owns_def)

definition same_control :: "sched \<Rightarrow> sched \<Rightarrow> bool" where
  "same_control s s' \<longleftrightarrow> m_task_pool s' = m_task_pool s \<and> m_stop s' = m_stop s \<and> m_autoStop s' = m_autoStop s"

lemma run_action_quiet:
  assumes "quiet user"
  shows "same_control s (run_action user ends a s)" "executed (run_action user ends a s) = executed s @ [a]"
    "\<And>h. a \<noteq> Resume h \<Longrightarrow> coro_done (run_action user ends a s) h = coro_done s h"
  using assms by (auto simp: quiet_def run_action_def same_control_def split: action.splits)

lemma sole_owners_Cons:
  assumes "sole_owners (add_mset t M)" "owns h t" "t' \<in># M"
  shows "\<not> owns h t'"
proof
  assume "owns h t'"
  then have "size (filter_mset (owns h) M) \<noteq> 0" using assms(3) by auto
  moreover have "size (filter_mset (owns h) (add_mset t M)) \<le> 1" using assms(1) by (simp only: sole_owners_def)
  ultimately show False using assms(2) by auto
qed

lemma sole_owners_disjoint:
  assumes "sole_owners (mset ts + M)" "t \<in># M" "owns h t" "u \<in> set ts"
  shows "\<not> owns h u"
proof
  assume "owns h u"
  then have "0 < size (filter_mset (owns h) (mset ts))" "0 < size (filter_mset (owns h) M)"
    using assms(2-4) by (auto simp: nonempty_has_size [symmetric])
  moreover have "size (filter_mset (owns h) (mset ts + M)) \<le> 1" using assms(1) by (simp only: sole_owners_def)
  ultimately show False by simp
qed

lemma sole_owners_mono: "sole_owners (A + B) \<Longrightarrow> sole_owners A \<and> sole_owners B"
  unfolding sole_owners_def by (metis add_leD1 add_leD2 filter_union_mset size_union)

lemma action_of_owner: "runnable dn t \<Longrightarrow> action_of t = Resume h \<Longrightarrow> owns h t"
  by (auto simp: runnable_def isLegal_def action_of_def owns_def split: if_splits task_type.splits)

lemma run_work_quiet:
  assumes "quiet user" "sole_owners (mset ts)"
  shows "\<exists>s'. run_work user ends ts s = Inr s' \<and> same_control s s' \<and>
    executed s' = executed s @ map action_of (filter (runnable (coro_done s)) ts) \<and>
    (\<forall>h. (\<forall>t\<in>set ts. \<not> owns h t) \<longrightarrow> coro_done s' h = coro_done s h)"
  using assms(2)
proof (induction ts arbitrary: s)
  case (Cons t ts)
  have so: "sole_owners (add_mset t (mset ts))" "sole_owners (mset ts)"
    using Cons.prems sole_owners_mono [of "{#t#}" "mset ts"] by simp_all
  show ?case
  proof (cases "runnable (coro_done s) t")
    case True
    let ?s1 = "run_action user ends (action_of t) s"
    obtain t' where "start (coro_done s) t = Inr (Some (action_of t), t')" using start_runnable [OF True] by blast
    then have step: "run_work user ends (t # ts) s = run_work user ends ts ?s1"
      using True by (simp add: runnable_def)
    have keep: "coro_done ?s1 h = coro_done s h" if "\<not> owns h t" for h
      using run_action_quiet(3) [OF assms(1)] action_of_owner [OF True] that by blast
    have "runnable (coro_done ?s1) u = runnable (coro_done s) u" if "u \<in> set ts" for u
      by (rule runnable_cong) (use keep sole_owners_Cons [OF so(1)] that in force)
    then have eq: "filter (runnable (coro_done ?s1)) ts = filter (runnable (coro_done s)) ts" by (intro filter_cong) auto
    obtain s' where "run_work user ends ts ?s1 = Inr s'" "same_control ?s1 s'"
      "executed s' = executed ?s1 @ map action_of (filter (runnable (coro_done ?s1)) ts)"
      "\<forall>h. (\<forall>t\<in>set ts. \<not> owns h t) \<longrightarrow> coro_done s' h = coro_done ?s1 h"
      using Cons.IH [OF so(2), of ?s1] by blast
    then show ?thesis
      using True step eq keep run_action_quiet(1,2) [OF assms(1), where s = s and ends = ends and a = "action_of t"] unfolding same_control_def by simp
  next
    case False
    then have "run_work user ends (t # ts) s = run_work user ends ts s" by (auto simp: runnable_def)
    then show ?thesis using False Cons.IH [OF so(2), of s] by auto
  qed
qed (simp add: same_control_def)

lemma run_worker_unfold:
  "run_worker user ends s =
     (if m_stop s then Some (Inr (Break, s\<lparr>m_threads_count := m_threads_count s - 1\<rparr>))
      else (case run_round user ends s of
              None \<Rightarrow> None
            | Some (Inl e) \<Rightarrow> Some (Inl e)
            | Some (Inr (Break, s')) \<Rightarrow> Some (Inr (Break, s'\<lparr>m_threads_count := m_threads_count s' - 1\<rparr>))
            | Some (Inr (Idle, s')) \<Rightarrow> Some (Inr (Idle, s'))
            | Some (Inr (Continue, s')) \<Rightarrow> run_worker user ends s'))"
  by (rule run_worker.simps)

text \<open>One round of a worker: a batch leaves the pool and its runnable tasks are started in order.\<close>

lemma run_round_quiet:
  assumes "quiet user" "pool_inv (m_task_pool s)" "size (pool_tasks (m_task_pool s)) < 2 ^ 32"
    "sole_owners (pool_tasks (m_task_pool s))"
  shows "\<exists>ts s'. run_round user ends s = Some (Inr (what_next s', s')) \<and> pool_inv (m_task_pool s') \<and>
    pool_tasks (m_task_pool s) = mset ts + pool_tasks (m_task_pool s') \<and>
    (ts = [] \<longleftrightarrow> pool_tasks (m_task_pool s) = {#}) \<and> m_stop s' = m_stop s \<and> m_autoStop s' = m_autoStop s \<and>
    executed s' = executed s @ map action_of (filter (runnable (coro_done s)) ts) \<and>
    (\<forall>h. (\<forall>t\<in>set ts. \<not> owns h t) \<longrightarrow> coro_done s' h = coro_done s h)"
proof -
  obtain ts p where f: "fetch [] (m_task_pool s) = Some (Inr (ts, p))" "pool_inv p"
    "pool_tasks (m_task_pool s) = mset ts + pool_tasks p" "ts = [] \<longleftrightarrow> pool_tasks (m_task_pool s) = {#}"
    using fetch_finds [OF assms(2,3), of "[]"] by auto
  let ?s1 = "s\<lparr>m_task_pool := p\<rparr>"
  let ?s2 = "if getTaskCount p \<noteq> 0 \<and> m_idleThreadCount ?s1 \<noteq> 0 then tickle ?s1 else ?s1"
  have "sole_owners (mset ts)" using assms(4) f(3) sole_owners_mono by metis
  then obtain s' where w: "run_work user ends ts ?s2 = Inr s'" "same_control ?s2 s'"
    "executed s' = executed ?s2 @ map action_of (filter (runnable (coro_done ?s2)) ts)"
    "\<forall>h. (\<forall>t\<in>set ts. \<not> owns h t) \<longrightarrow> coro_done s' h = coro_done ?s2 h"
    using run_work_quiet [OF assms(1), of ts ends ?s2] by blast
  have s2: "m_task_pool ?s2 = p" "m_stop ?s2 = m_stop s" "m_autoStop ?s2 = m_autoStop s" "executed ?s2 = executed s"
    "coro_done ?s2 = coro_done s" by (simp_all add: tickle_def)
  have "run_round user ends s = Some (Inr (what_next s', s'))"
    using f(1) w(1) by (simp add: run_round_def Let_def)
  moreover have "m_task_pool s' = p" "m_stop s' = m_stop s" "m_autoStop s' = m_autoStop s"
    using w(2) unfolding same_control_def s2 by blast+
  ultimately show ?thesis
    using f w(3,4) unfolding s2 by (intro exI [of _ ts] exI [of _ s'] conjI) simp_all
qed

lemma worker_runs_all:
  assumes "quiet user" "pool_inv (m_task_pool s)" "size (pool_tasks (m_task_pool s)) < 2 ^ 32"
    "sole_owners (pool_tasks (m_task_pool s))" "\<not> m_stop s"
  shows "\<exists>s' acts. run_worker user ends s = Some (Inr (if m_autoStop s then Break else Idle, s')) \<and>
    pool_tasks (m_task_pool s') = {#} \<and> executed s' = executed s @ acts \<and>
    mset acts = image_mset action_of (filter_mset (runnable (coro_done s)) (pool_tasks (m_task_pool s)))"
  using assms(2-)
proof (induction "size (pool_tasks (m_task_pool s))" arbitrary: s rule: less_induct)
  case less
  obtain ts s1 where r: "run_round user ends s = Some (Inr (what_next s1, s1))" "pool_inv (m_task_pool s1)"
    "pool_tasks (m_task_pool s) = mset ts + pool_tasks (m_task_pool s1)"
    "ts = [] \<longleftrightarrow> pool_tasks (m_task_pool s) = {#}" "m_stop s1 = m_stop s" "m_autoStop s1 = m_autoStop s"
    "executed s1 = executed s @ map action_of (filter (runnable (coro_done s)) ts)"
    "\<forall>h. (\<forall>t\<in>set ts. \<not> owns h t) \<longrightarrow> coro_done s1 h = coro_done s h"
    using run_round_quiet [OF assms(1) less.prems(1-3), of ends] by blast
  have small: "size (pool_tasks (m_task_pool s1)) < 2 ^ 32" using less.prems(2) r(3) by simp
  let ?M = "pool_tasks (m_task_pool s1)"
  show ?case
  proof (cases "?M = {#}")
    case True
    then have "getTaskCount (m_task_pool s1) = 0" using r(2) by (simp add: pool_inv_def getTaskCount_def)
    then have n: "what_next s1 = (if m_autoStop s then Break else Idle)"
      using less.prems(4) r(5,6) by (simp add: what_next_def)
    let ?acts = "map action_of (filter (runnable (coro_done s)) ts)"
    have ex: "mset ?acts =
        image_mset action_of (filter_mset (runnable (coro_done s)) (pool_tasks (m_task_pool s)))"
      using r(3) True by (simp add: mset_filter)
    show ?thesis
    proof (cases "m_autoStop s")
      case b: True
      then show ?thesis using less.prems(4) r(1,7) n True ex
        by (intro exI [of _ "s1\<lparr>m_threads_count := m_threads_count s1 - 1\<rparr>"] exI [of _ ?acts]) (simp add: run_worker_unfold [of user ends s])
    next
      case False
      then show ?thesis using less.prems(4) r(1,7) n True ex
        by (intro exI [of _ s1] exI [of _ ?acts]) (simp add: run_worker_unfold [of user ends s])
    qed
  next
    case False
    have "getTaskCount (m_task_pool s1) \<noteq> 0" by (rule count_pos [OF r(2) False small])
    then have "what_next s1 = Continue" using less.prems(4) r(5) by (simp add: what_next_def)
    then have step: "run_worker user ends s = run_worker user ends s1"
      using r(1) less.prems(4) by (simp add: run_worker_unfold [of user ends s])
    have "ts \<noteq> []" using r(3,4) False by auto
    then have lt: "size ?M < size (pool_tasks (m_task_pool s))" using r(3) by simp
    have so: "sole_owners (mset ts + ?M)" using less.prems(3) r(3) by simp
    obtain s' acts where IH: "run_worker user ends s1 = Some (Inr (if m_autoStop s1 then Break else Idle, s'))"
      "pool_tasks (m_task_pool s') = {#}" "executed s' = executed s1 @ acts"
      "mset acts = image_mset action_of (filter_mset (runnable (coro_done s1)) ?M)"
      using less.hyps [OF lt r(2) small] so sole_owners_mono less.prems(4) r(5) by blast
    have "runnable (coro_done s1) t = runnable (coro_done s) t" if "t \<in># ?M" for t
      by (rule runnable_cong) (use r(8) so that sole_owners_disjoint in blast)
    then have "filter_mset (runnable (coro_done s1)) ?M = filter_mset (runnable (coro_done s)) ?M"
      by (intro filter_mset_cong) auto
    then have "mset (map action_of (filter (runnable (coro_done s)) ts) @ acts) =
        image_mset action_of (filter_mset (runnable (coro_done s)) (pool_tasks (m_task_pool s)))"
      using IH(4) r(3) by (simp add: mset_filter)
    then show ?thesis
      using step IH(1-3) r(6,7)
      by (intro exI [of _ s'] exI [of _ "map action_of (filter (runnable (coro_done s)) ts) @ acts"]) simp
  qed
qed

text \<open>
  C5. One worker thread, alone on a scheduler that is not stopped, starts every task in the pool that is legal and not
  finished exactly once, whatever batches it takes, and then goes idle, or leaves when \<^verbatim>\<open>autoStop\<close> was called; it
  never loops, fails or resumes a finished coroutine. The tasks themselves do not schedule others, stop the
  scheduler or throw, no coroutine has two tasks in the pool, and the pool holds fewer than \<open>2\<^sup>32\<close> tasks.
\<close>

theorem worker_runs_every_task_once:
  assumes "quiet user" "pool_inv (m_task_pool s)" "size (pool_tasks (m_task_pool s)) < 2 ^ 32"
    "sole_owners (pool_tasks (m_task_pool s))" "\<not> m_stop s"
  shows "\<exists>s' acts. run_worker user ends s = Some (Inr (if m_autoStop s then Break else Idle, s')) \<and>
    pool_tasks (m_task_pool s') = {#} \<and> executed s' = executed s @ acts \<and>
    mset acts = image_mset action_of (filter_mset (runnable (coro_done s)) (pool_tasks (m_task_pool s)))"
  by (rule worker_runs_all [OF assms])

lemma schedule_pool:
  assumes "pool_inv (m_task_pool s)" "runnable (coro_done s) t" "\<not> m_autoStop s"
  shows "\<exists>s'. schedule t s = Inr s' \<and> pool_inv (m_task_pool s') \<and> m_stop s' = m_stop s \<and> m_autoStop s' = m_autoStop s \<and>
    pool_tasks (m_task_pool s') = add_mset t (pool_tasks (m_task_pool s)) \<and> tickles s' = Suc (tickles s) \<and>
    coro_done s' = coro_done s \<and> executed s' = executed s"
proof -
  have mv: "fst (move_construct t) = t" by (simp add: move_construct_def)
  obtain p where p: "taskAlloc t (m_task_pool s) = Inr p" "pool_inv p"
    "pool_tasks p = add_mset t (pool_tasks (m_task_pool s))" using taskAlloc_ok [OF assms(1)] by metis
  then have "schedule t s = Inr (tickle (s\<lparr>m_task_pool := p\<rparr>))"
    using assms(2,3) mv by (simp add: schedule_def scheduleNoLock_def runnable_def)
  then show ?thesis using p by (simp add: tickle_def)
qed

definition demo_sched :: sched where
  "demo_sched = (Scheduler_new 2)\<lparr>m_task_pool := \<lparr>m_nodes = [[create_func (Some 5)], [create_func None]], m_loop_idx = 0,
     m_alloc_idx = 2, m_task_count = 2, m_node_num = 2\<rparr>\<rparr>"

theorem worker_runs_every_task_once_witness:
  "\<exists>s' acts. run_worker (\<lambda>a s. s) (\<lambda>h. True) demo_sched = Some (Inr (Idle, s')) \<and> executed s' = acts \<and> mset acts = {#Call 5#}"
proof -
  have d: "pool_inv (m_task_pool demo_sched)" "pool_tasks (m_task_pool demo_sched) = {#create_func (Some 5), create_func None#}"
    "coro_done demo_sched = (\<lambda>_. False)" "executed demo_sched = []" "\<not> m_stop demo_sched" "\<not> m_autoStop demo_sched"
    by (simp_all add: demo_sched_def Scheduler_new_def pool_inv_def pool_tasks_def)
  have so: "sole_owners (pool_tasks (m_task_pool demo_sched))"
    by (simp add: d(2) sole_owners_def owns_def create_func_def)
  have q: "quiet (\<lambda>a s. s)" by (simp add: quiet_def)
  have "image_mset action_of (filter_mset (runnable (\<lambda>_. False)) {#create_func (Some 5), create_func None#}) = {#Call 5#}"
    by (simp add: runnable_def isLegal_def isFinished_def create_func_def TaskCoro20_default_def action_of_def)
  moreover have "size (pool_tasks (m_task_pool demo_sched)) < 2 ^ 32" by (simp add: d(2))
  ultimately show ?thesis
    using worker_runs_every_task_once [OF q d(1) _ so d(5), of "\<lambda>h. True"] d(6) by (auto simp: d(2-4))
qed

text \<open>
  Scheduling a runnable task puts it into the pool, unchanged, and wakes a worker; a task
  that is finished, or any task after \<^verbatim>\<open>autoStop\<close>, is dropped without an error.
\<close>

theorem schedule_enqueues:
  assumes "pool_inv (m_task_pool s)"
  shows "(runnable (coro_done s) t \<and> \<not> m_autoStop s \<longrightarrow>
      (\<exists>s'. schedule t s = Inr s' \<and> pool_inv (m_task_pool s') \<and> tickles s' = Suc (tickles s) \<and>
         pool_tasks (m_task_pool s') = add_mset t (pool_tasks (m_task_pool s)))) \<and>
    (isFinished (coro_done s) t \<or> m_autoStop s \<longrightarrow> schedule t s = Inr (tickle s))"
  using schedule_pool [OF assms, of t] by (auto simp: schedule_def scheduleNoLock_def)

theorem schedule_enqueues_witness:
  "\<exists>s'. schedule (create_func (Some 9)) demo_sched = Inr s' \<and> tickles s' = 1 \<and>
     pool_tasks (m_task_pool s') = {#create_func (Some 9), create_func (Some 5), create_func None#}"
proof -
  have "pool_inv (m_task_pool demo_sched)" "pool_tasks (m_task_pool demo_sched) = {#create_func (Some 5), create_func None#}"
    "tickles demo_sched = 0" "\<not> m_autoStop demo_sched" "runnable (coro_done demo_sched) (create_func (Some 9))"
    by (simp_all add: demo_sched_def Scheduler_new_def pool_inv_def pool_tasks_def runnable_def isLegal_def
        isFinished_def create_func_def TaskCoro20_default_def)
  then show ?thesis using schedule_enqueues [of demo_sched "create_func (Some 9)"] by auto
qed

text \<open>
  Moving a task keeps what it does and leaves an object that is illegal and cannot be started
  by a worker; cloning gives a fresh task that can be run again even when the original has run.
\<close>

theorem move_and_clone:
  "isLegal (fst (move_assign this t)) = isLegal t \<and> start dn (fst (move_assign this t)) = start dn t \<and>
   isFinished dn (fst (move_assign this t)) = isFinished dn t \<and>
   \<not> isLegal (snd (move_assign this t)) \<and> \<not> isLegal (snd (move_construct t)) \<and>
   (isLegal t \<and> (m_type t = CORO \<longrightarrow> m_coro_task t \<noteq> None) \<and> \<not> dn h \<longrightarrow>
      (\<exists>t'. clone h t = Inr t' \<and> runnable dn t' \<and>
         action_of t' = (if m_type t = CORO then Resume h else action_of t)))"
proof -
  have "move_assign this t = (t, t\<lparr>m_task := None, m_type := UNKNOWN\<rparr>)"
    by (cases this; cases t) (simp add: move_assign_def)
  moreover have "\<exists>t'. clone h t = Inr t' \<and> runnable dn t' \<and> action_of t' = (if m_type t = CORO then Resume h else action_of t)"
    if "isLegal t" "m_type t = CORO \<longrightarrow> m_coro_task t \<noteq> None" "\<not> dn h"
    using that by (cases "m_type t"; cases "m_coro_task t")
      (auto simp: clone_def create_coro_def create_func_def isLegal_def isFinished_def runnable_def action_of_def)
  ultimately show ?thesis by (auto simp: isLegal_def move_construct_def)
qed

theorem move_and_clone_witness:
  "\<exists>t'. clone 8 (create_func (Some 5)) = Inr t' \<and> runnable (\<lambda>_. False) t' \<and> action_of t' = Call 5"
  using move_and_clone [of TaskCoro20_default "create_func (Some 5)" "\<lambda>_. False" 8]
  by (simp add: isLegal_def create_func_def action_of_def)

text \<open>\<^verbatim>\<open>reset(TaskCoro20&&)\<close> takes over the type of a function task but not its function.\<close>

lemma reset_from_keeps_old_function:
  "m_type t = FUNC \<Longrightarrow> m_func_task (fst (reset_from this t)) = m_func_task this \<and> m_type (fst (reset_from this t)) = FUNC"
  by (simp add: reset_from_def)

end
