(* ===== verification/Fd_Context.thy ===== *)
theory Fd_Context
  imports Scheduler
begin

unbundle bit_operations_syntax

section \<open>Events of one descriptor (coroutine/coro20/fdContext)\<close>

text \<open>
  \<^verbatim>\<open>FdContext\<close> holds the event mask of a descriptor and the tasks to start for reading and
  writing. \<^verbatim>\<open>FdContextManager\<close> serialises the requests on it: a request is queued, and the
  thread that moves the state from \<open>INIT\<close> or \<open>READY\<close> to \<open>BUSY\<close> works off the queue. The model
  comes in two forms: the sequential one, in which a callback that is started may queue
  further requests for its descriptor or throw (the argument \<open>user\<close>), and the interleaving of
  any number of threads as a step relation.
\<close>

subsection \<open>FdContext\<close>

type_synonym event = u32

definition NONE :: event where "NONE = 0"
definition READ :: event where "READ = 1"
definition WRITE :: event where "WRITE = 4"

record fd_context =
  m_fd :: int
  m_event :: event
  m_cb_read :: task_coro20
  m_cb_write :: task_coro20

definition FdContext_new :: "int \<Rightarrow> fd_context" where
  "FdContext_new fd = \<lparr>m_fd = fd, m_event = NONE, m_cb_read = TaskCoro20_default, m_cb_write = TaskCoro20_default\<rparr>"

text \<open>The task is moved into the read slot and, what is left of it, into the write slot.\<close>

definition FdContext_addEvent :: "event \<Rightarrow> task_coro20 \<Rightarrow> fd_context \<Rightarrow> fd_context" where
  "FdContext_addEvent event task c =
     (let c1 = c\<lparr>m_event := m_event c OR event\<rparr>;
          (c2, task2) = (if event AND READ \<noteq> 0
                         then (c1\<lparr>m_cb_read := fst (move_assign (m_cb_read c1) task)\<rparr>, snd (move_assign (m_cb_read c1) task))
                         else (c1, task))
      in if event AND WRITE \<noteq> 0 then c2\<lparr>m_cb_write := fst (move_assign (m_cb_write c2) task2)\<rparr> else c2)"

definition FdContext_delEvent :: "event \<Rightarrow> fd_context \<Rightarrow> fd_context" where
  "FdContext_delEvent event c =
     (let c1 = c\<lparr>m_event := m_event c AND NOT event\<rparr>;
          c2 = (if m_event c1 AND READ = 0 then c1\<lparr>m_cb_read := task_reset (m_cb_read c1)\<rparr> else c1)
      in if m_event c2 AND WRITE = 0 then c2\<lparr>m_cb_write := task_reset (m_cb_write c2)\<rparr> else c2)"

definition FdContext_reset :: "fd_context \<Rightarrow> fd_context" where
  "FdContext_reset c =
     c\<lparr>m_cb_read := task_reset (m_cb_read c), m_cb_write := task_reset (m_cb_write c), m_event := NONE\<rparr>"

definition hasEvent :: "fd_context \<Rightarrow> bool" where
  "hasEvent c \<longleftrightarrow> m_event c \<noteq> 0"

text \<open>Starting a clone of a stored task; \<open>h\<close> is the handle the clone gets if it is a coroutine.\<close>

definition fire :: "nat \<Rightarrow> task_coro20 \<Rightarrow> failure + action option" where
  "fire h cb =
     (case clone h cb of
        Inl e \<Rightarrow> Inl e
      | Inr t \<Rightarrow> if isLegal t then map_sum id fst (start (\<lambda>_. False) t) else Inr None)"

subsection \<open>The manager, sequentially\<close>

datatype fcm_state = INIT | READY | BUSY | ERROR

text \<open>The flag says whether the request carries the callback that synchronises epoll.\<close>

datatype registed_task =
    DEL_TASK event bool
  | ADD_TASK event task_coro20 bool
  | TRIGGER_TASK event bool
  | CLOSE_TASK bool
  | CLOSE_TASK_NOCLOSEFD bool

text \<open>
  What a request does outside its context: a callback is started, the synchronisation
  callback is called with the old and the new mask, the descriptor is closed.
\<close>

datatype io_effect = Started action | Sync int event event | CoClose int bool

record fcm =
  m_state :: fcm_state
  m_tasks :: "registed_task list"
  m_fdcontex :: fd_context
  next_handle :: nat
  effects :: "io_effect list"

definition FdContextManager_new :: "int \<Rightarrow> fcm" where
  "FdContextManager_new fd =
     \<lparr>m_state = INIT, m_tasks = [], m_fdcontex = FdContext_reset (FdContext_new fd), next_handle = 0, effects = []\<rparr>"

definition sync :: "bool \<Rightarrow> event \<Rightarrow> fcm \<Rightarrow> fcm" where
  "sync cb origin m =
     (if cb then m\<lparr>effects := effects m @ [Sync (m_fd (m_fdcontex m)) origin (m_event (m_fdcontex m))]\<rparr> else m)"

type_synonym callback = "action \<Rightarrow> failure + registed_task list"

text \<open>One half of \<^verbatim>\<open>FdContext::trigger\<close>. The requests the callback makes are queued, the state being \<open>BUSY\<close>.\<close>

definition trigger_slot :: "callback \<Rightarrow> task_coro20 \<Rightarrow> fcm \<Rightarrow> failure option \<times> fcm" where
  "trigger_slot user cb m =
     (let m1 = m\<lparr>next_handle := Suc (next_handle m)\<rparr>
      in case fire (next_handle m) cb of
           Inl e \<Rightarrow> (Some e, m1)
         | Inr None \<Rightarrow> (None, m1)
         | Inr (Some a) \<Rightarrow>
             (let m2 = m1\<lparr>effects := effects m1 @ [Started a]\<rparr>
              in case user a of
                   Inl e \<Rightarrow> (Some e, m2)
                 | Inr reqs \<Rightarrow> (None, m2\<lparr>m_tasks := m_tasks m2 @ reqs\<rparr>)))"

definition FdContext_trigger :: "callback \<Rightarrow> event \<Rightarrow> fcm \<Rightarrow> failure option \<times> fcm" where
  "FdContext_trigger user event m =
     (let merge = m_event (m_fdcontex m) AND event;
          (x, m1) = (if merge AND READ \<noteq> 0 then trigger_slot user (m_cb_read (m_fdcontex m)) m else (None, m))
      in if x \<noteq> None then (x, m1)
         else if merge AND WRITE \<noteq> 0 then trigger_slot user (m_cb_write (m_fdcontex m1)) m1 else (None, m1))"

definition run_registed :: "callback \<Rightarrow> registed_task \<Rightarrow> fcm \<Rightarrow> failure option \<times> fcm" where
  "run_registed user task m =
     (let origin = m_event (m_fdcontex m)
      in case task of
           DEL_TASK ev cb \<Rightarrow> (None, sync cb origin (m\<lparr>m_fdcontex := FdContext_delEvent ev (m_fdcontex m)\<rparr>))
         | ADD_TASK ev t cb \<Rightarrow> (None, sync cb origin (m\<lparr>m_fdcontex := FdContext_addEvent ev t (m_fdcontex m)\<rparr>))
         | TRIGGER_TASK ev cb \<Rightarrow>
             (case FdContext_trigger user ev m of
                (Some e, m1) \<Rightarrow> (Some e, m1)
              | (None, m1) \<Rightarrow> (None, sync cb origin m1))
         | CLOSE_TASK cb \<Rightarrow>
             (let m1 = sync cb origin (m\<lparr>m_fdcontex := FdContext_reset (m_fdcontex m)\<rparr>)
              in (None, m1\<lparr>effects := effects m1 @ [CoClose (m_fd (m_fdcontex m)) False]\<rparr>))
         | CLOSE_TASK_NOCLOSEFD cb \<Rightarrow>
             (let m1 = sync cb origin (m\<lparr>m_fdcontex := FdContext_reset (m_fdcontex m)\<rparr>)
              in (None, m1\<lparr>effects := effects m1 @ [CoClose (m_fd (m_fdcontex m)) True]\<rparr>)))"

fun run_batch :: "callback \<Rightarrow> registed_task list \<Rightarrow> fcm \<Rightarrow> failure option \<times> fcm" where
  "run_batch user [] m = (None, m)"
| "run_batch user (t # ts) m =
     (case run_registed user t m of (Some e, m') \<Rightarrow> (Some e, m') | (None, m') \<Rightarrow> run_batch user ts m')"

text \<open>The queue is taken as a whole; an exception leaves the rest of the batch undone.\<close>

definition solveSingleTask :: "callback \<Rightarrow> fcm \<Rightarrow> failure option \<times> bool \<times> fcm" where
  "solveSingleTask user m =
     (let tasks = m_tasks m; (x, m1) = run_batch user tasks (m\<lparr>m_tasks := []\<rparr>) in (x, tasks \<noteq> [], m1))"

text \<open>\<^verbatim>\<open>while(solveSingleTask()){}\<close>\<close>

partial_function (option) solve_loop :: "callback \<Rightarrow> fcm \<Rightarrow> (failure option \<times> fcm) option" where
  "solve_loop user m =
     (case solveSingleTask user m of
        (Some e, _, m1) \<Rightarrow> Some (Some e, m1)
      | (None, again, m1) \<Rightarrow> if again then solve_loop user m1 else Some (None, m1))"

definition settle :: "fcm \<Rightarrow> fcm" where
  "settle m = m\<lparr>m_state := (if hasEvent (m_fdcontex m) then READY else INIT)\<rparr>"

definition push_task :: "registed_task option \<Rightarrow> fcm \<Rightarrow> fcm" where
  "push_task task m = (case task of None \<Rightarrow> m | Some t \<Rightarrow> m\<lparr>m_tasks := m_tasks m @ [t]\<rparr>)"

text \<open>
  \<^verbatim>\<open>addTask\<close> with \<^verbatim>\<open>solveTasks\<close> inlined, which ends with a call of \<^verbatim>\<open>addTask(nullptr)\<close>. The
  result is the exception, if any, and the returned flag; an exception leaves the state at
  \<open>BUSY\<close>.
\<close>

partial_function (option) addTask ::
  "callback \<Rightarrow> registed_task option \<Rightarrow> fcm \<Rightarrow> (failure option \<times> bool \<times> fcm) option" where
  "addTask user task m =
     (let m1 = push_task task m
      in if m_tasks m1 = [] then Some (None, True, m1)
         else if m_state m1 = READY \<or> m_state m1 = INIT
         then (case solve_loop user (m1\<lparr>m_state := BUSY\<rparr>) of
                 None \<Rightarrow> None
               | Some (Some e, m2) \<Rightarrow> Some (Some e, False, m2)
               | Some (None, m2) \<Rightarrow>
                   (case solve_loop user m2 of
                      None \<Rightarrow> None
                    | Some (Some e, m3) \<Rightarrow> Some (Some e, False, m3)
                    | Some (None, m3) \<Rightarrow>
                        Option.bind (addTask user None (settle m3)) (\<lambda>(x, _, m4). Some (x, True, m4))))
         else if m_state m1 = ERROR then Some (Some (Thrown ''[fdContext.cc]Error State''), False, m1)
         else Some (None, False, m1))"

definition fcm_trigger :: "callback \<Rightarrow> event \<Rightarrow> bool \<Rightarrow> fcm \<Rightarrow> (failure option \<times> bool \<times> fcm) option" where
  "fcm_trigger user ev cb m = addTask user (Some (TRIGGER_TASK ev cb)) m"

definition fcm_addEvent :: "callback \<Rightarrow> event \<Rightarrow> task_coro20 \<Rightarrow> bool \<Rightarrow> fcm \<Rightarrow> (failure option \<times> bool \<times> fcm) option" where
  "fcm_addEvent user ev t cb m = addTask user (Some (ADD_TASK ev (fst (move_construct t)) cb)) m"

definition fcm_delEvent :: "callback \<Rightarrow> event \<Rightarrow> bool \<Rightarrow> fcm \<Rightarrow> (failure option \<times> bool \<times> fcm) option" where
  "fcm_delEvent user ev cb m = addTask user (Some (DEL_TASK ev cb)) m"

definition fcm_closeEvent :: "callback \<Rightarrow> bool \<Rightarrow> fcm \<Rightarrow> (failure option \<times> bool \<times> fcm) option" where
  "fcm_closeEvent user cb m = addTask user (Some (CLOSE_TASK cb)) m"

definition fcm_closeEventNoCloseFd :: "callback \<Rightarrow> bool \<Rightarrow> fcm \<Rightarrow> (failure option \<times> bool \<times> fcm) option" where
  "fcm_closeEventNoCloseFd user cb m = addTask user (Some (CLOSE_TASK_NOCLOSEFD cb)) m"

subsection \<open>The manager under concurrency\<close>

text \<open>
  The places of a thread in \<^verbatim>\<open>addTask\<close>: \<open>CasReady\<close> and \<open>CasInit\<close> before the two
  compare-and-exchanges, \<open>Loop\<close> before the next \<^verbatim>\<open>solveSingleTask\<close> of the first or (with \<open>True\<close>) the second
  loop, \<open>Run\<close> inside \<^verbatim>\<open>solveSingleTask\<close> with the requests it took off the queue and has not run yet, \<open>SetState\<close>
  before the state is written back, \<open>Recheck\<close> before \<^verbatim>\<open>addTask(nullptr)\<close> looks at the queue. Requests are
  opaque here; \<open>c_handled\<close> lists those that were run, \<open>c_pushed\<close> all that were ever queued, and
  \<open>has_event\<close> is whatever the mask is when the state is written back. A request that is run may queue others
  (the nested \<^verbatim>\<open>addTask\<close> finds the state \<open>BUSY\<close> and returns) and may throw: then the exception leaves
  \<^verbatim>\<open>addTask\<close>, the rest of its batch is dropped and the state stays \<open>BUSY\<close>.
\<close>

datatype 'r pc = Done | CasReady | CasInit | Loop bool | Run bool "'r list" | SetState | Recheck

record 'r fcm_conc =
  c_state :: fcm_state
  c_queue :: "'r list"
  c_handled :: "'r list"
  c_pushed :: "'r list"
  c_thrown :: bool
  c_dropped :: "'r list"
  c_pc :: "nat \<Rightarrow> 'r pc"

definition goto :: "nat \<Rightarrow> 'r pc \<Rightarrow> 'r fcm_conc \<Rightarrow> 'r fcm_conc" where
  "goto t l c = c\<lparr>c_pc := (c_pc c)(t := l)\<rparr>"

inductive fcm_step :: "'r fcm_conc \<Rightarrow> 'r fcm_conc \<Rightarrow> bool" where
  push: "c_pc c t = Done \<Longrightarrow> fcm_step c (goto t CasReady (c\<lparr>c_queue := c_queue c @ [r], c_pushed := c_pushed c @ [r]\<rparr>))"
| cas_ready: "c_pc c t = CasReady \<Longrightarrow>
    fcm_step c (if c_state c = READY then goto t (Loop False) (c\<lparr>c_state := BUSY\<rparr>) else goto t CasInit c)"
| cas_init: "c_pc c t = CasInit \<Longrightarrow>
    fcm_step c (if c_state c = INIT then goto t (Loop False) (c\<lparr>c_state := BUSY\<rparr>) else goto t Done c)"
| take_queue: "c_pc c t = Loop snd_loop \<Longrightarrow>
    fcm_step c (goto t (if c_queue c \<noteq> [] then Run snd_loop (c_queue c) else if snd_loop then SetState else Loop True) (c\<lparr>c_queue := []\<rparr>))"
| run: "c_pc c t = Run snd_loop (r # rs) \<Longrightarrow>
    fcm_step c (goto t (if rs = [] then Loop snd_loop else Run snd_loop rs) (c\<lparr>c_handled := c_handled c @ [r]\<rparr>))"
| nested: "c_pc c t = Run snd_loop rs \<Longrightarrow> fcm_step c (c\<lparr>c_queue := c_queue c @ [r], c_pushed := c_pushed c @ [r]\<rparr>)"
| throw: "c_pc c t = Run snd_loop (r # rs) \<Longrightarrow>
    fcm_step c (goto t Done (c\<lparr>c_handled := c_handled c @ [r], c_thrown := True, c_dropped := rs\<rparr>))"
| set_state: "c_pc c t = SetState \<Longrightarrow>
    fcm_step c (goto t Recheck (c\<lparr>c_state := (if has_event then READY else INIT)\<rparr>))"
| recheck: "c_pc c t = Recheck \<Longrightarrow> fcm_step c (goto t (if c_queue c = [] then Done else CasReady) c)"

inductive_simps fcm_step_iff: "fcm_step c c'"

definition fcm_conc_new :: "'r fcm_conc" where
  "fcm_conc_new = \<lparr>c_state = INIT, c_queue = [], c_handled = [], c_pushed = [], c_thrown = False, c_dropped = [], c_pc = (\<lambda>_. Done)\<rparr>"

inductive fcm_reachable :: "'r fcm_conc \<Rightarrow> bool" where
  fresh: "fcm_reachable fcm_conc_new"
| step: "fcm_reachable c \<Longrightarrow> fcm_step c c' \<Longrightarrow> fcm_reachable c'"

fun solving :: "'r pc \<Rightarrow> bool" where
  "solving (Loop snd_loop) = True"
| "solving (Run snd_loop rs) = True"
| "solving SetState = True"
| "solving l = False"

fun will_look :: "'r pc \<Rightarrow> bool" where
  "will_look Done = False"
| "will_look CasInit = False"
| "will_look l = True"

fun batch_of :: "'r pc \<Rightarrow> 'r list" where
  "batch_of (Run snd_loop rs) = rs"
| "batch_of l = []"

text \<open>
  \<open>BUSY\<close> has a unique owner unless an exception has left it behind, and until then some thread is bound to look at the
  queue again while requests wait.
\<close>

definition fcm_inv :: "'r fcm_conc \<Rightarrow> bool" where
  "fcm_inv c \<longleftrightarrow> c_state c \<noteq> ERROR \<and> (c_state c = BUSY \<longleftrightarrow> c_thrown c \<or> (\<exists>t. solving (c_pc c t))) \<and>
     (c_thrown c \<longrightarrow> (\<forall>t. \<not> solving (c_pc c t))) \<and>
     (\<forall>t u. solving (c_pc c t) \<and> solving (c_pc c u) \<longrightarrow> t = u) \<and>
     (\<not> c_thrown c \<and> c_queue c \<noteq> [] \<longrightarrow> (\<exists>t. will_look (c_pc c t)) \<or> c_state c = INIT \<and> (\<exists>t. c_pc c t = CasInit))"

text \<open>The requests between the handled ones and the queue: the batch of the thread that is at work, or what an exception dropped.\<close>

definition fifo_inv :: "'r fcm_conc \<Rightarrow> bool" where
  "fifo_inv c \<longleftrightarrow> (\<exists>rest. c_pushed c = c_handled c @ rest @ c_queue c \<and>
     (if c_thrown c then rest = c_dropped c
      else (\<forall>t. solving (c_pc c t) \<longrightarrow> batch_of (c_pc c t) = rest) \<and> ((\<forall>t. \<not> solving (c_pc c t)) \<longrightarrow> rest = [])))"

lemma goto_simps [simp]:
  "c_pc (goto t l c) u = (if u = t then l else c_pc c u)" "c_state (goto t l c) = c_state c" "c_thrown (goto t l c) = c_thrown c"
  "c_queue (goto t l c) = c_queue c" "c_handled (goto t l c) = c_handled c" "c_pushed (goto t l c) = c_pushed c"
  "c_dropped (goto t l c) = c_dropped c"
  by (simp_all add: goto_def)

lemma solver_looks: "solving l \<Longrightarrow> will_look l"
  by (cases l) simp_all

lemma fcm_inv_solver:
  assumes "fcm_inv c" "solving (c_pc c t)"
  shows "c_state c = BUSY" "\<not> c_thrown c" "\<And>u. u \<noteq> t \<Longrightarrow> \<not> solving (c_pc c u)"
  using assms by (auto simp: fcm_inv_def)

text \<open>A thread that does not own \<open>BUSY\<close> moves; the owner moves.\<close>

lemma fcm_inv_idle_move:
  assumes "fcm_inv c" "\<not> solving (c_pc c t)" "\<not> solving l"
    and "\<not> c_thrown c \<Longrightarrow> c_queue c' \<noteq> [] \<Longrightarrow> (\<exists>u. will_look (c_pc c' u)) \<or> c_state c' = INIT \<and> (\<exists>u. c_pc c' u = CasInit)"
    and "c_state c' = c_state c" "c_thrown c' = c_thrown c" "c_pc c' = (c_pc c)(t := l)"
  shows "fcm_inv c'"
proof -
  have "solving (c_pc c' u) \<longleftrightarrow> solving (c_pc c u)" for u using assms(2,3,7) by simp
  then show ?thesis using assms(1,4,5,6) unfolding fcm_inv_def by simp
qed

lemma fcm_inv_owner_move:
  assumes "fcm_inv c" "solving (c_pc c t)" "solving l" "c_state c' = c_state c" "c_thrown c' = c_thrown c" "c_pc c' = (c_pc c)(t := l)"
  shows "fcm_inv c'"
proof -
  note o = fcm_inv_solver [OF assms(1,2)]
  have s: "solving (c_pc c' u) \<longleftrightarrow> u = t" for u using assms(3,6) o(3) [of u] by simp
  have "will_look (c_pc c' t)" using s [of t] solver_looks by blast
  then show ?thesis using s o(1,2) assms(4,5) unfolding fcm_inv_def by auto
qed

lemma fcm_inv_acquire:
  assumes "fcm_inv c" "c_state c = READY \<or> c_state c = INIT" "c' = goto t (Loop False) (c\<lparr>c_state := BUSY\<rparr>)"
  shows "fcm_inv c'"
proof -
  have "\<not> c_thrown c" "\<And>u. \<not> solving (c_pc c u)" using assms(1,2) by (auto simp: fcm_inv_def)
  then show ?thesis using assms(3) unfolding fcm_inv_def by (auto intro: exI [of _ t])
qed

lemma fcm_step_inv:
  assumes "fcm_step c c'" "fcm_inv c"
  shows "fcm_inv c'"
  using assms(1)
proof cases
  case (push t r)
  then show ?thesis by (intro fcm_inv_idle_move [OF assms(2), of t CasReady]) (auto simp: goto_def)
next
  case (cas_ready t)
  show ?thesis
  proof (cases "c_state c = READY")
    case True
    then show ?thesis using fcm_inv_acquire [OF assms(2)] cas_ready by simp
  next
    case False
    show ?thesis
    proof (rule fcm_inv_idle_move [OF assms(2), of t CasInit])
      assume n: "\<not> c_thrown c"
      have "c_state c = INIT \<or> c_state c = BUSY" using False assms(2) by (cases "c_state c") (auto simp: fcm_inv_def)
      moreover have "\<exists>u. u \<noteq> t \<and> solving (c_pc c u)" if "c_state c = BUSY"
        using that n assms(2) cas_ready unfolding fcm_inv_def by (metis solving.simps(5))
      ultimately show "(\<exists>u. will_look (c_pc c' u)) \<or> c_state c' = INIT \<and> (\<exists>u. c_pc c' u = CasInit)"
        using False cas_ready solver_looks by fastforce
    qed (use False cas_ready in \<open>auto simp: goto_def\<close>)
  qed
next
  case (cas_init t)
  show ?thesis
  proof (cases "c_state c = INIT")
    case True
    then show ?thesis using fcm_inv_acquire [OF assms(2)] cas_init by simp
  next
    case False
    show ?thesis
    proof (rule fcm_inv_idle_move [OF assms(2), of t Done])
      assume "\<not> c_thrown c" "c_queue c' \<noteq> []"
      then have "\<exists>u. will_look (c_pc c u)" using False cas_init assms(2) by (auto simp: fcm_inv_def)
      then show "(\<exists>u. will_look (c_pc c' u)) \<or> c_state c' = INIT \<and> (\<exists>u. c_pc c' u = CasInit)"
        using False cas_init by (metis goto_simps(1) will_look.simps(2))
    qed (use False cas_init in \<open>auto simp: goto_def\<close>)
  qed
next
  case (take_queue t snd_loop)
  then show ?thesis
    by (intro fcm_inv_owner_move [OF assms(2), of t "if c_queue c \<noteq> [] then Run snd_loop (c_queue c) else if snd_loop then SetState else Loop True"])
      (simp_all add: goto_def)
next
  case (run t snd_loop r rs)
  then show ?thesis by (intro fcm_inv_owner_move [OF assms(2), of t "if rs = [] then Loop snd_loop else Run snd_loop rs"]) (simp_all add: goto_def)
next
  case (nested t snd_loop rs r)
  then show ?thesis by (intro fcm_inv_owner_move [OF assms(2), of t "Run snd_loop rs"]) (simp_all add: fun_upd_idem)
next
  case (throw t snd_loop r rs)
  then show ?thesis using fcm_inv_solver [OF assms(2), of t] by (auto simp: fcm_inv_def)
next
  case (set_state t has_event)
  then show ?thesis using assms(2) fcm_inv_solver [OF assms(2), of t] unfolding fcm_inv_def by (auto split: if_splits)
next
  case (recheck t)
  then show ?thesis
    by (intro fcm_inv_idle_move [OF assms(2), of t "if c_queue c = [] then Done else CasReady"])
      (auto simp: goto_def)
qed

lemma fcm_reachable_inv: "fcm_reachable c \<Longrightarrow> fcm_inv c"
proof (induction rule: fcm_reachable.induct)
  case fresh
  then show ?case by (simp add: fcm_inv_def fcm_conc_new_def)
qed (blast intro: fcm_step_inv)

lemma fifo_idle_move:
  assumes "fifo_inv c" "\<not> solving (c_pc c t)" "\<not> solving l" "c_thrown c' = c_thrown c" "c_dropped c' = c_dropped c" "c_handled c' = c_handled c"
    and "c_pc c' = (c_pc c)(t := l)" "c_pushed c' = c_pushed c @ rs" "c_queue c' = c_queue c @ rs"
  shows "fifo_inv c'"
proof -
  have "solving (c_pc c' u) \<longleftrightarrow> solving (c_pc c u)" "solving (c_pc c u) \<Longrightarrow> c_pc c' u = c_pc c u" for u using assms(2,3,7) by auto
  then have "fifo_inv c' \<longleftrightarrow> (\<exists>rest. c_pushed c @ rs = c_handled c @ rest @ c_queue c @ rs \<and>
     (if c_thrown c then rest = c_dropped c
      else (\<forall>t. solving (c_pc c t) \<longrightarrow> batch_of (c_pc c t) = rest) \<and> ((\<forall>t. \<not> solving (c_pc c t)) \<longrightarrow> rest = [])))"
    unfolding fifo_inv_def using assms(4-9) by simp
  then show ?thesis using assms(1) unfolding fifo_inv_def by auto
qed

lemma fifo_owner:
  assumes "fifo_inv c" "fcm_inv c" "solving (c_pc c t)"
  shows "c_pushed c = c_handled c @ batch_of (c_pc c t) @ c_queue c"
proof -
  obtain rest where "c_pushed c = c_handled c @ rest @ c_queue c" "batch_of (c_pc c t) = rest"
    using assms(1,3) fcm_inv_solver(2) [OF assms(2,3)] unfolding fifo_inv_def by auto
  then show ?thesis by simp
qed

lemma fifo_owner_move:
  assumes "fcm_inv c" "solving (c_pc c t)" "c_thrown c' = c_thrown c" "c_pc c' = (c_pc c)(t := l)"
    and "c_pushed c' = c_handled c' @ batch_of l @ c_queue c'" "\<not> solving l \<Longrightarrow> batch_of l = []"
  shows "fifo_inv c'"
proof -
  note o = fcm_inv_solver [OF assms(1,2)]
  have n: "\<not> solving (c_pc c' u)" if "u \<noteq> t" for u using assms(4) o(3) [OF that] that by simp
  have t: "c_pc c' t = l" using assms(4) by simp
  have "batch_of (c_pc c' u) = batch_of l" if "solving (c_pc c' u)" for u using that n [of u] t by (cases "u = t") simp_all
  then show ?thesis using assms(3,5,6) o(2) t unfolding fifo_inv_def by metis
qed

lemma fifo_step:
  assumes "fcm_step c c'" "fcm_inv c" "fifo_inv c"
  shows "fifo_inv c'"
  using assms(1)
proof cases
  case (push t r)
  then show ?thesis by (intro fifo_idle_move [OF assms(3), of t CasReady _ "[r]"]) (simp_all add: goto_def)
next
  case (cas_ready t)
  then have "fifo_inv c'" if "c_state c \<noteq> READY" using that by (intro fifo_idle_move [OF assms(3), of t CasInit _ "[]"]) (simp_all add: goto_def)
  moreover have "\<And>u. \<not> solving (c_pc c u)" "\<not> c_thrown c" if "c_state c = READY" using that assms(2) by (auto simp: fcm_inv_def)
  ultimately show ?thesis using assms(3) cas_ready by (cases "c_state c = READY") (auto simp: fifo_inv_def)
next
  case (cas_init t)
  then have "fifo_inv c'" if "c_state c \<noteq> INIT" using that by (intro fifo_idle_move [OF assms(3), of t Done _ "[]"]) (simp_all add: goto_def)
  moreover have "\<And>u. \<not> solving (c_pc c u)" "\<not> c_thrown c" if "c_state c = INIT" using that assms(2) by (auto simp: fcm_inv_def)
  ultimately show ?thesis using assms(3) cas_init by (cases "c_state c = INIT") (auto simp: fifo_inv_def)
next
  case (take_queue t snd_loop)
  then show ?thesis using fifo_owner [OF assms(3,2), of t]
    by (intro fifo_owner_move [OF assms(2), of t c' "if c_queue c \<noteq> [] then Run snd_loop (c_queue c) else if snd_loop then SetState else Loop True"])
      (simp_all add: goto_def split: if_splits)
next
  case (run t snd_loop r rs)
  then show ?thesis using fifo_owner [OF assms(3,2), of t]
    by (intro fifo_owner_move [OF assms(2), of t c' "if rs = [] then Loop snd_loop else Run snd_loop rs"]) (simp_all add: goto_def split: if_splits)
next
  case (nested t snd_loop rs r)
  then show ?thesis using fifo_owner [OF assms(3,2), of t]
    by (intro fifo_owner_move [OF assms(2), of t c' "Run snd_loop rs"]) (simp_all add: fun_upd_idem)
next
  case (throw t snd_loop r rs)
  then show ?thesis using fifo_owner [OF assms(3,2), of t] by (simp add: fifo_inv_def)
next
  case (set_state t has_event)
  then show ?thesis using fifo_owner [OF assms(3,2), of t]
    by (intro fifo_owner_move [OF assms(2), of t c' Recheck]) (simp_all add: goto_def)
next
  case (recheck t)
  then show ?thesis
    by (intro fifo_idle_move [OF assms(3), of t "if c_queue c = [] then Done else CasReady" _ "[]"]) (simp_all add: goto_def)
qed

lemma fcm_reachable_fifo: "fcm_reachable c \<Longrightarrow> fifo_inv c"
proof (induction rule: fcm_reachable.induct)
  case fresh
  then show ?case by (simp add: fifo_inv_def fcm_conc_new_def)
qed (blast intro: fifo_step fcm_reachable_inv)

text \<open>
  C3. Requests on a descriptor, made by any number of threads in any interleaving and by the callbacks of requests: at most one
  thread works on the descriptor at a time; requests are run in the order in which they were queued and none twice, what is
  between the ones that ran and the queue being the batch of the thread at work; and, as long as no callback has thrown, every
  request has been run when no thread is inside \<^verbatim>\<open>addTask\<close> any more, although threads return from \<^verbatim>\<open>addTask\<close> without waiting.
  Once a callback has thrown, the rest of its batch is dropped, the state stays \<open>BUSY\<close> and no thread ever works on the descriptor again.
\<close>

theorem no_request_lost:
  assumes "fcm_reachable c"
  shows "(\<forall>t u. solving (c_pc c t) \<and> solving (c_pc c u) \<longrightarrow> t = u) \<and>
    (\<exists>rest. c_pushed c = c_handled c @ rest @ c_queue c \<and>
       (if c_thrown c then rest = c_dropped c else rest = [] \<or> (\<exists>t snd_loop. c_pc c t = Run snd_loop rest))) \<and>
    (\<not> c_thrown c \<and> (\<forall>t. c_pc c t = Done) \<longrightarrow> c_handled c = c_pushed c) \<and>
    (c_thrown c \<longrightarrow> c_state c = BUSY \<and> (\<forall>t. \<not> solving (c_pc c t)))"
proof -
  note i = fcm_reachable_inv [OF assms] and f = fcm_reachable_fifo [OF assms]
  have q: "c_queue c = []" if "\<not> c_thrown c" "\<forall>t. c_pc c t = Done" using i that by (auto simp: fcm_inv_def)
  have "\<exists>t snd_loop. c_pc c t = Run snd_loop rest" if "solving (c_pc c t)" "batch_of (c_pc c t) = rest" "rest \<noteq> []" for t rest
    using that by (cases "c_pc c t") auto
  then have "\<exists>rest. c_pushed c = c_handled c @ rest @ c_queue c \<and>
      (if c_thrown c then rest = c_dropped c else rest = [] \<or> (\<exists>t snd_loop. c_pc c t = Run snd_loop rest))"
    using f unfolding fifo_inv_def by metis
  moreover have "c_handled c = c_pushed c" if "\<not> c_thrown c" "\<forall>t. c_pc c t = Done" using f q that by (auto simp: fifo_inv_def)
  ultimately show ?thesis using i by (auto simp: fcm_inv_def)
qed

lemma pushed_reachable:
  "fcm_reachable (goto 0 CasReady (fcm_conc_new\<lparr>c_queue := [r], c_pushed := [r]\<rparr>))"
  using fcm_reachable.step [OF fcm_reachable.fresh push [of fcm_conc_new 0 r]]
  by (simp add: fcm_conc_new_def)

theorem no_request_lost_witness:
  "\<exists>c. fcm_reachable c \<and> c_pc c 0 = CasReady \<and> \<not> c_thrown c \<and> (\<exists>rest. [7 :: nat] = c_handled c @ rest @ c_queue c)"
  using no_request_lost [OF pushed_reachable [of "7 :: nat"]] pushed_reachable [of "7 :: nat"]
  by (intro exI [of _ "goto 0 CasReady (fcm_conc_new\<lparr>c_queue := [7], c_pushed := [7 :: nat]\<rparr>)"]) (auto simp: fcm_conc_new_def)

subsection \<open>The context\<close>

definition fd_ctx_inv :: "fd_context \<Rightarrow> bool" where
  "fd_ctx_inv c \<longleftrightarrow> (m_event c AND READ = 0 \<longrightarrow> \<not> isLegal (m_cb_read c)) \<and>
     (m_event c AND WRITE = 0 \<longrightarrow> \<not> isLegal (m_cb_write c))"

lemma not_legal_simps [simp]:
  "\<not> isLegal (task_reset t)" "\<not> isLegal TaskCoro20_default"
  by (simp_all add: isLegal_def task_reset_def TaskCoro20_default_def)

lemma move_assign_fst [simp]: "fst (move_assign this t) = t"
  by (cases this; cases t) (simp add: move_assign_def)

lemma move_assign_snd: "\<not> isLegal (snd (move_assign this t))"
  by (simp add: move_assign_def isLegal_def)

lemma or_and_eq_0: "((a :: event) OR b) AND m = 0 \<longleftrightarrow> a AND m = 0 \<and> b AND m = 0"
  by (simp add: bit.conj_disj_distrib2 or_eq_0_iff)

lemma fd_ctx_inv_ops:
  "fd_ctx_inv (FdContext_reset (FdContext_new fd))"
  "fd_ctx_inv (FdContext_delEvent ev c)"
  "fd_ctx_inv (FdContext_reset c)"
  "fd_ctx_inv c \<Longrightarrow> fd_ctx_inv (FdContext_addEvent ev t c)"
  by (auto simp: fd_ctx_inv_def FdContext_reset_def FdContext_delEvent_def FdContext_addEvent_def Let_def or_and_eq_0
      move_assign_snd)

text \<open>What a task object always satisfies: a coroutine task keeps the factory it was made from.\<close>

definition wf_task :: "task_coro20 \<Rightarrow> bool" where
  "wf_task t \<longleftrightarrow> (m_type t = CORO \<longrightarrow> m_coro_task t \<noteq> None)"

definition wf_ctx :: "fd_context \<Rightarrow> bool" where
  "wf_ctx c \<longleftrightarrow> wf_task (m_cb_read c) \<and> wf_task (m_cb_write c)"

definition wf_req :: "registed_task \<Rightarrow> bool" where
  "wf_req r = (case r of ADD_TASK ev t cb \<Rightarrow> wf_task t | _ \<Rightarrow> True)"

definition is_trigger :: "registed_task \<Rightarrow> bool" where
  "is_trigger r = (case r of TRIGGER_TASK ev cb \<Rightarrow> True | _ \<Rightarrow> False)"

text \<open>Callbacks that return and do not themselves fire events of their descriptor.\<close>

definition tame :: "callback \<Rightarrow> bool" where
  "tame user \<longleftrightarrow> (\<forall>a. \<exists>reqs. user a = Inr reqs \<and> (\<forall>r\<in>set reqs. wf_req r \<and> \<not> is_trigger r))"

lemma wf_task_simps [simp]: "wf_task (task_reset t)" "wf_task TaskCoro20_default" "wf_task (snd (move_assign this t))"
  by (simp_all add: wf_task_def task_reset_def TaskCoro20_default_def move_assign_def)

lemma wf_ctx_ops:
  "wf_ctx c \<Longrightarrow> wf_ctx (FdContext_delEvent ev c)" "wf_ctx (FdContext_reset c)"
  "wf_ctx c \<Longrightarrow> wf_task t \<Longrightarrow> wf_ctx (FdContext_addEvent ev t c)"
  by (auto simp: wf_ctx_def FdContext_delEvent_def FdContext_reset_def FdContext_addEvent_def Let_def)

lemma fire_wf:
  "wf_task t \<Longrightarrow> \<exists>x. fire h t = Inr x"
  "wf_task t \<Longrightarrow> isLegal t \<Longrightarrow> fire h t = Inr (Some (if m_type t = CORO then Resume h else action_of t))"
  by (cases "m_type t"; cases "m_coro_task t"; cases "m_func_task t";
      simp add: fire_def clone_def wf_task_def create_func_def create_coro_def isLegal_def start_def action_of_def
        TaskCoro20_default_def)+

text \<open>What running a request adds to the queue.\<close>

definition quiet_after :: "fcm \<Rightarrow> failure option \<times> fcm \<Rightarrow> bool \<Rightarrow> bool" where
  "quiet_after m r trg \<longleftrightarrow> fst r = None \<and> wf_ctx (m_fdcontex (snd r)) \<and> m_state (snd r) = m_state m \<and>
     (\<exists>reqs. m_tasks (snd r) = m_tasks m @ reqs \<and> (\<forall>q\<in>set reqs. wf_req q \<and> \<not> is_trigger q) \<and> (\<not> trg \<longrightarrow> reqs = []))"

lemma trigger_slot_quiet:
  assumes "tame user" "wf_task cb" "wf_ctx (m_fdcontex m)"
  shows "quiet_after m (trigger_slot user cb m) True" "m_fdcontex (snd (trigger_slot user cb m)) = m_fdcontex m"
proof -
  obtain x where x: "fire (next_handle m) cb = Inr x" using fire_wf(1) [OF assms(2)] by blast
  show "quiet_after m (trigger_slot user cb m) True"
  proof (cases x)
    case (Some a)
    obtain reqs where "user a = Inr reqs" "\<forall>r\<in>set reqs. wf_req r \<and> \<not> is_trigger r"
      using assms(1) unfolding tame_def by blast
    then show ?thesis using x Some assms(3) by (simp add: quiet_after_def trigger_slot_def Let_def)
  qed (use x assms(3) in \<open>simp add: quiet_after_def trigger_slot_def Let_def\<close>)
  show "m_fdcontex (snd (trigger_slot user cb m)) = m_fdcontex m"
    by (simp add: trigger_slot_def Let_def split: sum.split option.split)
qed

lemma quiet_after_trans:
  assumes "quiet_after m r a" "quiet_after (snd r) r' b"
  shows "quiet_after m r' (a \<or> b)"
  using assms by (fastforce simp: quiet_after_def)

lemma trigger_quiet:
  assumes "tame user" "wf_ctx (m_fdcontex m)"
  shows "quiet_after m (FdContext_trigger user ev m) True"
proof -
  let ?merge = "m_event (m_fdcontex m) AND ev"
  let ?r = "if ?merge AND READ \<noteq> 0 then trigger_slot user (m_cb_read (m_fdcontex m)) m else (None, m)"
  have wf: "wf_task (m_cb_read (m_fdcontex m))" "wf_task (m_cb_write (m_fdcontex m))"
    using assms(2) by (simp_all add: wf_ctx_def)
  have r: "quiet_after m ?r True" "m_fdcontex (snd ?r) = m_fdcontex m"
    using trigger_slot_quiet [OF assms(1) wf(1) assms(2)] assms(2) by (simp_all add: quiet_after_def)
  have "quiet_after (snd ?r) (trigger_slot user (m_cb_write (m_fdcontex (snd ?r))) (snd ?r)) True"
    by (rule trigger_slot_quiet(1) [OF assms(1)]) (use wf(2) r(2) assms(2) in simp_all)
  from quiet_after_trans [OF r(1) this] r(1) show ?thesis
    by (simp add: FdContext_trigger_def Let_def case_prod_unfold quiet_after_def)
qed

lemma sync_simps [simp]:
  "m_fdcontex (sync cb origin m) = m_fdcontex m" "m_tasks (sync cb origin m) = m_tasks m"
  "m_state (sync cb origin m) = m_state m" "next_handle (sync cb origin m) = next_handle m"
  by (simp_all add: sync_def)

lemma run_registed_quiet:
  assumes "tame user" "wf_ctx (m_fdcontex m)" "wf_req r"
  shows "quiet_after m (run_registed user r m) (is_trigger r)"
proof (cases r)
  case (TRIGGER_TASK ev cb)
  obtain m1 where m1: "FdContext_trigger user ev m = (None, m1)" "quiet_after m (None, m1) True"
    using trigger_quiet [OF assms(1,2), of ev] by (metis prod.collapse quiet_after_def)
  then show ?thesis using TRIGGER_TASK by (simp add: run_registed_def is_trigger_def quiet_after_def)
qed (use assms(2,3) in \<open>simp_all add: run_registed_def is_trigger_def quiet_after_def wf_req_def wf_ctx_ops Let_def\<close>)

lemma run_batch_quiet:
  assumes "tame user" "wf_ctx (m_fdcontex m)" "\<forall>r\<in>set rs. wf_req r"
  shows "quiet_after m (run_batch user rs m) (\<exists>r\<in>set rs. is_trigger r)"
  using assms(2,3)
proof (induction rs arbitrary: m)
  case Nil
  then show ?case by (simp add: quiet_after_def)
next
  case (Cons r rs)
  have q: "quiet_after m (run_registed user r m) (is_trigger r)"
    using run_registed_quiet [OF assms(1)] Cons.prems by simp
  then obtain m1 where m1: "run_registed user r m = (None, m1)" by (metis prod.collapse quiet_after_def)
  have "wf_ctx (m_fdcontex m1)" using q m1 by (simp add: quiet_after_def)
  then have "quiet_after m1 (run_batch user rs m1) (\<exists>r\<in>set rs. is_trigger r)"
    using Cons by simp
  then show ?case using quiet_after_trans [of m "(None, m1)" "is_trigger r"] q m1 by simp
qed

lemma solve_loop_unfold:
  "solve_loop user m =
     (case solveSingleTask user m of
        (Some e, _, m1) \<Rightarrow> Some (Some e, m1)
      | (None, again, m1) \<Rightarrow> if again then solve_loop user m1 else Some (None, m1))"
  by (rule solve_loop.simps)

lemma solve_loop_empty: "m_tasks m = [] \<Longrightarrow> solve_loop user m = Some (None, m)"
  by (cases m) (simp add: solve_loop_unfold solveSingleTask_def)

lemma solve_loop_round:
  "m_tasks m \<noteq> [] \<Longrightarrow> run_batch user (m_tasks m) (m\<lparr>m_tasks := []\<rparr>) = (None, m1) \<Longrightarrow> solve_loop user m = solve_loop user m1"
  by (simp add: solve_loop_unfold [of user m] solveSingleTask_def)

text \<open>Requests that are run one after the other, none of them a trigger, queue nothing; so working off a trigger takes two rounds.\<close>

definition run_each :: "callback \<Rightarrow> registed_task list \<Rightarrow> fcm \<Rightarrow> fcm" where
  "run_each user rs m = foldl (\<lambda>m r. snd (run_registed user r m)) m rs"

lemma run_batch_each:
  assumes "tame user"
  shows "wf_ctx (m_fdcontex m) \<Longrightarrow> \<forall>r\<in>set rs. wf_req r \<Longrightarrow> run_batch user rs m = (None, run_each user rs m)"
proof (induction rs arbitrary: m)
  case (Cons r rs)
  have q: "quiet_after m (run_registed user r m) (is_trigger r)" using run_registed_quiet [OF assms] Cons.prems by simp
  then obtain m1 where "run_registed user r m = (None, m1)" "wf_ctx (m_fdcontex m1)" by (metis prod.collapse quiet_after_def)
  then show ?case using Cons by (simp add: run_each_def)
qed (simp add: run_each_def)

lemma solve_loop_plain:
  assumes "tame user" "wf_ctx (m_fdcontex m)" "\<forall>r\<in>set (m_tasks m). wf_req r \<and> \<not> is_trigger r"
  shows "solve_loop user m = Some (None, run_each user (m_tasks m) (m\<lparr>m_tasks := []\<rparr>))"
    "m_tasks (run_each user (m_tasks m) (m\<lparr>m_tasks := []\<rparr>)) = []" "wf_ctx (m_fdcontex (run_each user (m_tasks m) (m\<lparr>m_tasks := []\<rparr>)))"
proof -
  let ?m = "run_each user (m_tasks m) (m\<lparr>m_tasks := []\<rparr>)"
  have b: "run_batch user (m_tasks m) (m\<lparr>m_tasks := []\<rparr>) = (None, ?m)" using run_batch_each [OF assms(1)] assms(2,3) by simp
  have "quiet_after (m\<lparr>m_tasks := []\<rparr>) (None, ?m) (\<exists>r\<in>set (m_tasks m). is_trigger r)"
    using run_batch_quiet [OF assms(1), of "m\<lparr>m_tasks := []\<rparr>" "m_tasks m"] assms(2,3) b by simp
  then show e: "m_tasks ?m = []" "wf_ctx (m_fdcontex ?m)" using assms(3) by (auto simp: quiet_after_def)
  show "solve_loop user m = Some (None, ?m)"
  proof (cases "m_tasks m = []")
    case True
    then have "?m = m" by (cases m) (simp add: run_each_def)
    then show ?thesis using solve_loop_empty [OF True] by simp
  qed (use b e(1) solve_loop_round solve_loop_empty in simp)
qed

lemma addTask_unfold:
  "addTask user task m =
     (let m1 = push_task task m
      in if m_tasks m1 = [] then Some (None, True, m1)
         else if m_state m1 = READY \<or> m_state m1 = INIT
         then (case solve_loop user (m1\<lparr>m_state := BUSY\<rparr>) of
                 None \<Rightarrow> None
               | Some (Some e, m2) \<Rightarrow> Some (Some e, False, m2)
               | Some (None, m2) \<Rightarrow>
                   (case solve_loop user m2 of
                      None \<Rightarrow> None
                    | Some (Some e, m3) \<Rightarrow> Some (Some e, False, m3)
                    | Some (None, m3) \<Rightarrow>
                        Option.bind (addTask user None (settle m3)) (\<lambda>(x, _, m4). Some (x, True, m4))))
         else if m_state m1 = ERROR then Some (Some (Thrown ''[fdContext.cc]Error State''), False, m1)
         else Some (None, False, m1))"
  by (rule addTask.simps)

definition settled :: "fcm \<Rightarrow> bool" where
  "settled m \<longleftrightarrow> m_tasks m = [] \<and> wf_ctx (m_fdcontex m) \<and> m_state m = (if hasEvent (m_fdcontex m) then READY else INIT)"

lemma settled_settle: "m_tasks m = [] \<Longrightarrow> wf_ctx (m_fdcontex m) \<Longrightarrow> settled (settle m)"
  by (simp add: settled_def settle_def)

lemma addTask_busy_loop:
  assumes "settled m" "solve_loop user (m\<lparr>m_tasks := [r], m_state := BUSY\<rparr>) = Some (None, m')" "m_tasks m' = []"
  shows "addTask user (Some r) m = Some (None, True, settle m')"
proof -
  have again: "addTask user None (settle m') = Some (None, True, settle m')"
    using assms(3) by (simp add: addTask_unfold [of user None] push_task_def settle_def)
  have "m_state m = READY \<or> m_state m = INIT" "push_task (Some r) m = m\<lparr>m_tasks := [r]\<rparr>"
    using assms(1) by (simp_all add: settled_def push_task_def)
  then show ?thesis
    using assms(2) solve_loop_empty [OF assms(3), of user] again
    by (simp add: addTask_unfold [of user "Some r" m])
qed

text \<open>The effect of one request: it is run, and then the requests its callbacks queued, once each and in order.\<close>

definition carried_out :: "callback \<Rightarrow> registed_task \<Rightarrow> fcm \<Rightarrow> fcm" where
  "carried_out user r m = (let m1 = snd (run_registed user r (m\<lparr>m_state := BUSY\<rparr>)) in settle (run_each user (m_tasks m1) (m1\<lparr>m_tasks := []\<rparr>)))"

lemma run_batch_single: "run_registed user r m = (None, m1) \<Longrightarrow> run_batch user [r] m = (None, m1)"
  by simp

lemma addTask_carried:
  assumes "tame user" "settled m" "wf_req r"
  shows "addTask user (Some r) m = Some (None, True, carried_out user r m)" "settled (carried_out user r m)"
    "\<not> is_trigger r \<Longrightarrow> m_tasks (snd (run_registed user r (m\<lparr>m_state := BUSY\<rparr>))) = []"
proof -
  let ?b = "m\<lparr>m_tasks := [r], m_state := BUSY\<rparr>" and ?m1 = "snd (run_registed user r (m\<lparr>m_state := BUSY\<rparr>))"
  have wf: "wf_ctx (m_fdcontex m)" "m\<lparr>m_state := BUSY, m_tasks := []\<rparr> = m\<lparr>m_state := BUSY\<rparr>" "m_tasks m = []"
    using assms(2) by (cases m; simp add: settled_def)+
  have q: "quiet_after (m\<lparr>m_state := BUSY\<rparr>) (run_registed user r (m\<lparr>m_state := BUSY\<rparr>)) (is_trigger r)"
    by (rule run_registed_quiet [OF assms(1) _ assms(3)]) (use wf(1) in simp)
  then have m1: "run_registed user r (m\<lparr>m_state := BUSY\<rparr>) = (None, ?m1)" "wf_ctx (m_fdcontex ?m1)" "\<forall>q\<in>set (m_tasks ?m1). wf_req q \<and> \<not> is_trigger q"
    using wf(3) by (auto simp: quiet_after_def prod_eq_iff)
  show "\<not> is_trigger r \<Longrightarrow> m_tasks ?m1 = []" using q wf(3) by (auto simp: quiet_after_def)
  have "run_batch user (m_tasks ?b) (?b\<lparr>m_tasks := []\<rparr>) = (None, ?m1)" 
    using run_batch_single [OF m1(1)] wf(2) by simp
  then have "solve_loop user ?b = solve_loop user ?m1" by (intro solve_loop_round) simp_all
  then have "solve_loop user ?b = Some (None, run_each user (m_tasks ?m1) (?m1\<lparr>m_tasks := []\<rparr>))" using solve_loop_plain(1) [OF assms(1) m1(2,3)] by simp
  from addTask_busy_loop [OF assms(2) this solve_loop_plain(2) [OF assms(1) m1(2,3)]]
  show "addTask user (Some r) m = Some (None, True, carried_out user r m)" by (simp add: carried_out_def Let_def)
  show "settled (carried_out user r m)"
    using settled_settle [OF solve_loop_plain(2,3) [OF assms(1) m1(2,3)]] by (simp add: carried_out_def Let_def)
qed

lemma addTask_completes:
  assumes "tame user" "settled m" "wf_req r"
  obtains m' where "addTask user (Some r) m = Some (None, True, m')" "settled m'"
    "\<not> is_trigger r \<Longrightarrow> m' = settle (snd (run_registed user r (m\<lparr>m_state := BUSY\<rparr>)))"
proof (rule that [OF addTask_carried(1,2) [OF assms]])
  let ?m1 = "snd (run_registed user r (m\<lparr>m_state := BUSY\<rparr>))"
  assume "\<not> is_trigger r"
  then have e: "m_tasks ?m1 = []" by (rule addTask_carried(3) [OF assms])
  have u: "x\<lparr>m_tasks := []\<rparr> = x" if "m_tasks x = []" for x :: fcm using that by (cases x) simp
  show "carried_out user r m = settle ?m1" unfolding carried_out_def Let_def u [OF e] e by (simp add: run_each_def)
qed

text \<open>
  C27. A request on an idle descriptor is carried out before \<^verbatim>\<open>addTask\<close> returns, as long as the callbacks of the descriptor
  return normally and queue only well-formed requests that do not fire events themselves: the loops end, and the result is exactly
  that of running the request and then every request its callbacks queued, once and in order, with the state written back; the queue is
  empty and the state tells whether an event is watched.
\<close>

theorem request_completes:
  assumes "tame user" "settled m" "wf_req r"
  shows "addTask user (Some r) m = Some (None, True, carried_out user r m) \<and> settled (carried_out user r m)"
  using addTask_carried(1,2) [OF assms] by simp

lemma new_settled: "settled (FdContextManager_new fd)"
  by (simp add: settled_def FdContextManager_new_def FdContext_reset_def hasEvent_def wf_ctx_def NONE_def)

lemma tame_silent: "tame (\<lambda>a. Inr [])"
  by (simp add: tame_def)

theorem request_completes_witness:
  "\<exists>m. addTask (\<lambda>a. Inr [DEL_TASK READ True]) (Some (TRIGGER_TASK READ True))
       (settle ((FdContextManager_new 9)\<lparr>m_fdcontex := FdContext_addEvent READ (create_func (Some 3)) (FdContext_new 9)\<rparr>)) = Some (None, True, m) \<and>
     m_state m = INIT \<and> m_event (m_fdcontex m) = 0 \<and> effects m = [Started (Call 3), Sync 9 1 1, Sync 9 1 0]"
proof -
  let ?u = "\<lambda>a. Inr [DEL_TASK READ True]" and ?m = "settle ((FdContextManager_new 9)\<lparr>m_fdcontex := FdContext_addEvent READ (create_func (Some 3)) (FdContext_new 9)\<rparr>)"
  have t: "tame ?u" by (simp add: tame_def wf_req_def is_trigger_def)
  have s: "settled ?m"
    by (rule settled_settle) (simp_all add: FdContextManager_new_def wf_ctx_def FdContext_addEvent_def FdContext_new_def READ_def WRITE_def wf_task_def create_func_def TaskCoro20_default_def)
  have w: "wf_req (TRIGGER_TASK READ True)" by (simp add: wf_req_def)
  have e: "m_state (carried_out ?u (TRIGGER_TASK READ True) ?m) = INIT" "m_event (m_fdcontex (carried_out ?u (TRIGGER_TASK READ True) ?m)) = 0"
    "effects (carried_out ?u (TRIGGER_TASK READ True) ?m) = [Started (Call 3), Sync 9 1 1, Sync 9 1 0]" by code_simp+
  show ?thesis using request_completes [OF t s w] e by simp
qed

lemma addTask_single:
  assumes "settled m" "run_registed user r (m\<lparr>m_state := BUSY\<rparr>) = (x, m1)" "m_tasks m1 = []"
  shows "addTask user (Some r) m = Some (x, x = None, if x = None then settle m1 else m1)"
proof -
  let ?b = "m\<lparr>m_tasks := [r], m_state := BUSY\<rparr>"
  have "?b\<lparr>m_tasks := []\<rparr> = m\<lparr>m_state := BUSY\<rparr>" using assms(1) by (cases m) (simp add: settled_def)
  then have s: "solveSingleTask user ?b = (x, True, m1)"
    using assms(2) by (cases x) (simp_all add: solveSingleTask_def)
  show ?thesis
  proof (cases x)
    case None
    then have "solve_loop user ?b = Some (None, m1)"
      using s solve_loop_empty [OF assms(3)] by (simp add: solve_loop_unfold [of user ?b])
    then show ?thesis using addTask_busy_loop [OF assms(1) _ assms(3)] None by simp
  next
    case (Some e)
    then have "solve_loop user ?b = Some (Some e, m1)" using s by (simp add: solve_loop_unfold [of user ?b])
    moreover have "m_state m = READY \<or> m_state m = INIT" "push_task (Some r) m = m\<lparr>m_tasks := [r]\<rparr>"
      using assms(1) by (simp_all add: settled_def push_task_def)
    ultimately show ?thesis using Some by (simp add: addTask_unfold [of user "Some r" m])
  qed
qed

lemma trigger_read:
  assumes "m_event (m_fdcontex m) AND READ \<noteq> 0" "isLegal (m_cb_read (m_fdcontex m))" "wf_ctx (m_fdcontex m)"
  defines "cb \<equiv> m_cb_read (m_fdcontex m)"
  defines "a \<equiv> if m_type cb = CORO then Resume (next_handle m) else action_of cb"
  shows "FdContext_trigger user READ m =
    (let m1 = m\<lparr>next_handle := Suc (next_handle m), effects := effects m @ [Started a]\<rparr>
     in case user a of Inl e \<Rightarrow> (Some e, m1) | Inr reqs \<Rightarrow> (None, m1\<lparr>m_tasks := m_tasks m @ reqs\<rparr>))"
proof -
  have f: "fire (next_handle m) cb = Inr (Some a)"
    unfolding a_def by (rule fire_wf(2)) (use assms(2,3) in \<open>simp_all add: cb_def wf_ctx_def\<close>)
  have "(m_event (m_fdcontex m) AND READ) AND WRITE = 0" by (simp add: and.assoc READ_def WRITE_def)
  then show ?thesis
    using assms(1) f unfolding FdContext_trigger_def trigger_slot_def cb_def
    by (cases "user a") (simp_all add: Let_def and.assoc and.idem)
qed

lemma add_read_ctx:
  "m_cb_read (FdContext_addEvent READ t c) = t" "m_event (FdContext_addEvent READ t c) = m_event c OR READ"
  "m_cb_write (FdContext_addEvent READ t c) = m_cb_write c" "m_fd (FdContext_addEvent READ t c) = m_fd c"
  by (simp_all add: FdContext_addEvent_def Let_def READ_def WRITE_def)

text \<open>
  A task registered for reading is started when the descriptor is reported readable: once
  for the report, as a fresh copy, with the stored task and the mask kept for the next report.
\<close>

theorem registered_task_fires:
  assumes "settled m" "wf_task t" "isLegal t"
  defines "silent \<equiv> \<lambda>a. Inr []"
  shows "\<exists>m1 m2. addTask silent (Some (ADD_TASK READ t True)) m = Some (None, True, m1) \<and>
    m_cb_read (m_fdcontex m1) = t \<and> m_event (m_fdcontex m1) = m_event (m_fdcontex m) OR READ \<and>
    addTask silent (Some (TRIGGER_TASK READ True)) m1 = Some (None, True, m2) \<and> m_fdcontex m2 = m_fdcontex m1 \<and>
    effects m2 = effects m1 @ [Started (if m_type t = CORO then Resume (next_handle m1) else action_of t),
      Sync (m_fd (m_fdcontex m)) (m_event (m_fdcontex m1)) (m_event (m_fdcontex m1))]"
proof -
  let ?m1 = "settle (snd (run_registed silent (ADD_TASK READ t True) (m\<lparr>m_state := BUSY\<rparr>)))"
  have w: "wf_req (ADD_TASK READ t True)" "\<not> is_trigger (ADD_TASK READ t True)" "tame silent"
    using assms(2) by (simp_all add: wf_req_def is_trigger_def silent_def tame_silent)
  obtain m1 where m1: "addTask silent (Some (ADD_TASK READ t True)) m = Some (None, True, m1)" "settled m1"
    and eq: "\<not> is_trigger (ADD_TASK READ t True) \<Longrightarrow> m1 = ?m1"
    using addTask_completes [OF w(3) assms(1) w(1)] by blast
  have c: "m_fdcontex m1 = FdContext_addEvent READ t (m_fdcontex m)"
    using eq [OF w(2)] by (simp add: run_registed_def settle_def Let_def)
  let ?b = "m1\<lparr>m_state := BUSY\<rparr>"
  have "m_event (m_fdcontex ?b) AND READ \<noteq> 0"
    using c by (simp add: add_read_ctx or_and_eq_0) (simp add: READ_def)
  moreover have "isLegal (m_cb_read (m_fdcontex ?b))" "wf_ctx (m_fdcontex ?b)"
    using c assms(3) m1(2) by (simp_all add: add_read_ctx settled_def)
  ultimately have pre: "m_event (m_fdcontex ?b) AND READ \<noteq> 0" "isLegal (m_cb_read (m_fdcontex ?b))"
    "wf_ctx (m_fdcontex ?b)" by blast+
  have "FdContext_trigger silent READ ?b = (None, ?b\<lparr>next_handle := Suc (next_handle m1), effects := effects m1 @
      [Started (if m_type t = CORO then Resume (next_handle m1) else action_of t)]\<rparr>)"
    using trigger_read [OF pre, of silent] m1(2) c
    by (cases m1) (simp add: add_read_ctx settled_def silent_def)
  then have r: "run_registed silent (TRIGGER_TASK READ True) ?b =
      (None, sync True (m_event (m_fdcontex m1)) (?b\<lparr>next_handle := Suc (next_handle m1), effects := effects m1 @
      [Started (if m_type t = CORO then Resume (next_handle m1) else action_of t)]\<rparr>))"
    by (simp add: run_registed_def)
  show ?thesis
    using m1(1) c addTask_single [OF m1(2) r] m1(2)
    by (simp add: settled_def) (simp add: add_read_ctx sync_def settle_def)
qed

theorem registered_task_fires_witness:
  "\<exists>m1 m2. addTask (\<lambda>a. Inr []) (Some (ADD_TASK READ (create_func (Some 3)) True)) (FdContextManager_new 9) = Some (None, True, m1) \<and>
     addTask (\<lambda>a. Inr []) (Some (TRIGGER_TASK READ True)) m1 = Some (None, True, m2) \<and>
     Started (Call 3) \<in> set (effects m2)"
proof -
  have "wf_task (create_func (Some 3))" "isLegal (create_func (Some 3))" "action_of (create_func (Some 3)) = Call 3"
    "m_type (create_func (Some 3)) = FUNC"
    by (simp_all add: wf_task_def isLegal_def create_func_def action_of_def)
  then show ?thesis using registered_task_fires [OF new_settled, of "create_func (Some 3)" 9] by fastforce
qed

text \<open>
  An exception thrown by a callback leaves the descriptor blocked for good: the state stays
  \<open>BUSY\<close>, and every later request, an event report or the close of the descriptor included, is
  only queued and never carried out.
\<close>

theorem throwing_callback_blocks_fd:
  assumes "settled m" "m_event (m_fdcontex m) AND READ \<noteq> 0" "isLegal (m_cb_read (m_fdcontex m))"
    and "\<And>a. user a = Inl e"
  shows "\<exists>m'. addTask user (Some (TRIGGER_TASK READ cb)) m = Some (Some e, False, m') \<and> m_state m' = BUSY \<and>
    addTask user' (Some r) m' = Some (None, False, m'\<lparr>m_tasks := [r]\<rparr>)"
proof -
  let ?b = "m\<lparr>m_state := BUSY\<rparr>"
  have pre: "m_event (m_fdcontex ?b) AND READ \<noteq> 0" "isLegal (m_cb_read (m_fdcontex ?b))" "wf_ctx (m_fdcontex ?b)"
    using assms(1-3) by (simp_all add: settled_def)
  obtain m' where "FdContext_trigger user READ ?b = (Some e, m')" and m': "m_tasks m' = []" "m_state m' = BUSY"
    using trigger_read [OF pre, of user] assms(1,4) by (simp add: Let_def settled_def)
  then have "run_registed user (TRIGGER_TASK READ cb) ?b = (Some e, m')" by (simp add: run_registed_def)
  from addTask_single [OF assms(1) this m'(1)]
  show ?thesis using m' by (intro exI [of _ m']) (simp add: addTask_unfold [of user'] push_task_def)
qed

definition blocked_demo :: fcm where
  "blocked_demo = settle ((FdContextManager_new 9)\<lparr>m_fdcontex := FdContext_addEvent READ (create_func (Some 3)) (FdContext_new 9)\<rparr>)"

theorem throwing_callback_blocks_fd_witness:
  "\<exists>m'. addTask (\<lambda>a. Inl (Thrown ''bad'')) (Some (TRIGGER_TASK READ True)) blocked_demo = Some (Some (Thrown ''bad''), False, m') \<and>
     addTask (\<lambda>a. Inr []) (Some (CLOSE_TASK True)) m' = Some (None, False, m'\<lparr>m_tasks := [CLOSE_TASK True]\<rparr>)"
proof -
  have wf: "wf_ctx (FdContext_new 9)" "wf_task (create_func (Some 3))" "isLegal (create_func (Some 3))"
    by (simp_all add: wf_ctx_def FdContext_new_def wf_task_def create_func_def isLegal_def TaskCoro20_default_def)
  have "settled blocked_demo"
    unfolding blocked_demo_def
    by (rule settled_settle) (use wf in \<open>simp_all add: wf_ctx_ops FdContextManager_new_def\<close>)
  moreover have "m_event (m_fdcontex blocked_demo) AND READ \<noteq> 0" by code_simp
  moreover have "isLegal (m_cb_read (m_fdcontex blocked_demo))"
    using wf(3) by (simp add: blocked_demo_def settle_def add_read_ctx)
  ultimately show ?thesis
    using throwing_callback_blocks_fd [of blocked_demo "\<lambda>a. Inl (Thrown ''bad'')" "Thrown ''bad''" True "\<lambda>a. Inr []" "CLOSE_TASK True"] by blast
qed

text \<open>
  Registering one task for reading and writing at once loses the write half: the task is
  moved into the read slot first, the write slot receives the empty rest, and although the
  mask contains the write event its report starts nothing.
\<close>

theorem add_both_loses_write:
  assumes "isLegal t"
  shows "let c = FdContext_addEvent (READ OR WRITE) t c0
    in isLegal (m_cb_read c) \<and> \<not> isLegal (m_cb_write c) \<and> m_event c AND WRITE \<noteq> 0 \<and> fire h (m_cb_write c) = Inr None"
proof -
  have e: "(READ OR WRITE) AND READ \<noteq> 0" "(READ OR WRITE) AND WRITE \<noteq> 0" by (simp_all add: READ_def WRITE_def)
  have "m_event (FdContext_addEvent (READ OR WRITE) t c0) AND WRITE \<noteq> 0"
    using e by (simp add: FdContext_addEvent_def Let_def or_and_eq_0)
  then show ?thesis
    using e assms by (simp add: FdContext_addEvent_def Let_def move_assign_snd) (simp add: move_assign_def fire_def clone_def)
qed

theorem add_both_loses_write_witness:
  "let c = FdContext_addEvent (READ OR WRITE) (create_func (Some 3)) (FdContext_new 9)
   in isLegal (m_cb_read c) \<and> m_event c AND WRITE \<noteq> 0 \<and> fire 0 (m_cb_write c) = Inr None"
  using add_both_loses_write [of "create_func (Some 3)" "FdContext_new 9" 0]
  by (simp add: Let_def isLegal_def create_func_def)

end
