(* ===== verification/Io_Manager.thy ===== *)
theory Io_Manager
  imports Fd_Context
begin

unbundle bit_operations_syntax

section \<open>The IO manager (coroutine/coro20/ioManager)\<close>

text \<open>
  The IO manager keeps one \<^verbatim>\<open>FdContextManager\<close> per descriptor in a vector that grows on
  demand, and mirrors the masks in an epoll instance. A request hands \<^verbatim>\<open>stateSync\<close> to the
  context manager, which calls it with the old mask after the change; the calls of
  \<^verbatim>\<open>epoll_ctl\<close> for a descriptor are therefore a function of the \<open>Sync\<close> effects its context
  manager recorded. Operations return \<open>None\<close> when they would not return, and the exception, if
  any, beside the new state. As for a context manager, the argument \<open>user\<close> says what started
  callbacks request for their own descriptor.
\<close>

definition EPOLLET :: event where "EPOLLET = 0x80000000"

datatype epoll_op = EPOLL_CTL_ADD | EPOLL_CTL_MOD | EPOLL_CTL_DEL

text \<open>The call of \<^verbatim>\<open>epoll_ctl\<close> that \<^verbatim>\<open>stateSync\<close> makes; its failure is only logged.\<close>

definition stateSync :: "int \<Rightarrow> int \<Rightarrow> event \<Rightarrow> event \<Rightarrow> (epoll_op \<times> int \<times> event) option" where
  "stateSync eventFd fd origin_event new_event =
     (if new_event = origin_event \<or> fd = eventFd then None
      else Some (if new_event = NONE \<and> origin_event \<noteq> NONE then EPOLL_CTL_DEL
                 else if origin_event = NONE \<and> new_event \<noteq> NONE then EPOLL_CTL_ADD
                 else EPOLL_CTL_MOD, fd, new_event OR EPOLLET))"

record iom =
  m_eventFd :: int
  m_fd_events :: "fcm list"

fun epoll_calls_of :: "int \<Rightarrow> io_effect list \<Rightarrow> (epoll_op \<times> int \<times> event) list" where
  "epoll_calls_of efd [] = []"
| "epoll_calls_of efd (Sync fd origin new # es) =
     (case stateSync efd fd origin new of None \<Rightarrow> epoll_calls_of efd es | Some c \<Rightarrow> c # epoll_calls_of efd es)"
| "epoll_calls_of efd (Started a # es) = epoll_calls_of efd es"
| "epoll_calls_of efd (CoClose fd b # es) = epoll_calls_of efd es"

definition IOManager_new :: "int \<Rightarrow> failure + iom" where
  "IOManager_new eventFd =
     (let ms = map (\<lambda>i. FdContextManager_new (int i)) [0..<128]
      in if eventFd < 0 \<or> int (length ms) \<le> eventFd then Inl OutOfRange
         else (case fcm_addEvent (\<lambda>_. Inr []) READ TaskCoro20_default False (ms ! nat eventFd) of
                 Some (None, _, m) \<Rightarrow> Inr \<lparr>m_eventFd = eventFd, m_fd_events = ms[nat eventFd := m]\<rparr>
               | _ \<Rightarrow> Inl AssertionFailed))"

text \<open>
  \<^verbatim>\<open>MAX(curr_size * 1.5, fd * 1.3)\<close> converted to \<^verbatim>\<open>int\<close>; the products are computed in double
  precision, which is exact enough to give the integer part of the true product.
\<close>

definition after_size :: "nat \<Rightarrow> nat \<Rightarrow> nat" where
  "after_size curr_size fd = max (curr_size * 3 div 2) (fd * 13 div 10)"

definition ResizeEvents :: "int \<Rightarrow> iom \<Rightarrow> iom" where
  "ResizeEvents fd s =
     (let curr_size = length (m_fd_events s)
      in if int curr_size \<le> fd
         then s\<lparr>m_fd_events := m_fd_events s @
                 map (\<lambda>i. FdContextManager_new (int i)) [curr_size..<after_size curr_size (nat fd)]\<rparr>
         else s)"

text \<open>\<^verbatim>\<open>fd >= m_fd_events.size()\<close> compares at the unsigned type, where a negative \<open>fd\<close> is huge.\<close>

definition past_end :: "int \<Rightarrow> iom \<Rightarrow> bool" where
  "past_end fd s \<longleftrightarrow> fd < 0 \<or> int (length (m_fd_events s)) \<le> fd"

text \<open>The access \<^verbatim>\<open>m_fd_events[fd]\<close> followed by a request to the context manager.\<close>

definition with_fd ::
  "(fcm \<Rightarrow> (failure option \<times> bool \<times> fcm) option) \<Rightarrow> int \<Rightarrow> iom \<Rightarrow> (failure option \<times> iom) option" where
  "with_fd request fd s =
     (if past_end fd s then Some (Some OutOfRange, s)
      else (case request (m_fd_events s ! nat fd) of
              None \<Rightarrow> None
            | Some (x, _, m) \<Rightarrow> Some (x, s\<lparr>m_fd_events := (m_fd_events s)[nat fd := m]\<rparr>)))"

definition and_then ::
  "(failure option \<times> iom) option \<Rightarrow> (iom \<Rightarrow> (failure option \<times> iom) option) \<Rightarrow> (failure option \<times> iom) option" where
  "and_then r f = (case r of Some (None, s) \<Rightarrow> f s | _ \<Rightarrow> r)"

definition iom_addEvent :: "callback \<Rightarrow> int \<Rightarrow> event \<Rightarrow> task_coro20 \<Rightarrow> iom \<Rightarrow> (failure option \<times> iom) option" where
  "iom_addEvent user fd ev t s =
     (if \<not> isLegal t then Some (None, s)
      else (let s1 = (if past_end fd s then ResizeEvents fd s else s)
            in with_fd (fcm_addEvent user ev t True) fd s1))"

definition iom_addEvent_func :: "callback \<Rightarrow> int \<Rightarrow> event \<Rightarrow> nat option \<Rightarrow> iom \<Rightarrow> (failure option \<times> iom) option" where
  "iom_addEvent_func user fd ev cb_func s =
     (if cb_func = None then Some (None, s)
      else (let s1 = (if past_end fd s then ResizeEvents fd s else s)
            in with_fd (fcm_addEvent user ev (TaskCoro20_func cb_func) True) fd s1))"

definition iom_delEvent :: "callback \<Rightarrow> int \<Rightarrow> event \<Rightarrow> iom \<Rightarrow> (failure option \<times> iom) option" where
  "iom_delEvent user fd ev s =
     (if past_end fd s then Some (Some (Thrown ''fd is bigger than fd_event.size()''), s)
      else with_fd (fcm_delEvent user ev True) fd s)"

definition addOnceEvent :: "callback \<Rightarrow> int \<Rightarrow> event \<Rightarrow> task_coro20 \<Rightarrow> iom \<Rightarrow> (failure option \<times> iom) option" where
  "addOnceEvent user fd ev t s =
     (if \<not> isLegal t then Some (None, s)
      else (let s1 = (if past_end fd s then ResizeEvents fd s else s)
            in with_fd (fcm_addEvent user ev t True) fd s1))"

definition addOnceEvent_func :: "callback \<Rightarrow> int \<Rightarrow> event \<Rightarrow> nat option \<Rightarrow> iom \<Rightarrow> (failure option \<times> iom) option" where
  "addOnceEvent_func user fd ev cb_func s =
     (if cb_func = None then Some (None, s)
      else (let s1 = (if past_end fd s then ResizeEvents fd s else s)
            in and_then (with_fd (fcm_addEvent user ev (TaskCoro20_func cb_func) True) fd s1)
                 (with_fd (fcm_delEvent user ev True) fd)))"

definition closeFd :: "callback \<Rightarrow> int \<Rightarrow> iom \<Rightarrow> (failure option \<times> iom) option" where
  "closeFd user fd s = (if past_end fd s then Some (None, s) else with_fd (fcm_closeEvent user True) fd s)"

definition closeWithNoClose :: "callback \<Rightarrow> int \<Rightarrow> iom \<Rightarrow> (failure option \<times> iom) option" where
  "closeWithNoClose user fd s =
     (if past_end fd s then Some (None, s) else with_fd (fcm_closeEventNoCloseFd user True) fd s)"

definition cancelEvent :: "callback \<Rightarrow> int \<Rightarrow> event \<Rightarrow> iom \<Rightarrow> (failure option \<times> iom) option" where
  "cancelEvent user fd ev s =
     (if past_end fd s then Some (Some AssertionFailed, s)
      else and_then (with_fd (fcm_trigger user ev True) fd s) (with_fd (fcm_delEvent user ev True) fd))"

definition cancelAll :: "callback \<Rightarrow> int \<Rightarrow> iom \<Rightarrow> (failure option \<times> iom) option" where
  "cancelAll user fd s = cancelEvent user fd (READ OR WRITE) s"

text \<open>
  The loop of \<^verbatim>\<open>idle\<close> over the events \<^verbatim>\<open>epoll_wait\<close> reported; the flag is \<^verbatim>\<open>is_have_event\<close>, set
  when the eventfd was among them.
\<close>

fun handle_events ::
  "callback \<Rightarrow> (int \<times> event) list \<Rightarrow> bool \<Rightarrow> iom \<Rightarrow> (failure option \<times> bool \<times> iom) option" where
  "handle_events user [] got s = Some (None, got, s)"
| "handle_events user ((fd, ev) # evs) got s =
     (if fd = m_eventFd s then handle_events user evs True s
      else (case with_fd (fcm_trigger user ev True) fd s of
              None \<Rightarrow> None
            | Some (Some e, s') \<Rightarrow> Some (Some e, got, s')
            | Some (None, s') \<Rightarrow> handle_events user evs got s'))"

subsection \<open>Growing the vector\<close>

lemma after_size_covers: "128 \<le> n \<Longrightarrow> n \<le> fd \<Longrightarrow> fd < after_size n fd"
  by (simp add: after_size_def)

lemma ResizeEvents_covers:
  assumes "128 \<le> length (m_fd_events s)" "0 \<le> fd"
  shows "\<not> past_end fd (ResizeEvents fd s)"
proof (cases "int (length (m_fd_events s)) \<le> fd")
  case True
  then have "nat fd < after_size (length (m_fd_events s)) (nat fd)"
    using after_size_covers [OF assms(1)] by (simp add: nat_le_iff le_nat_iff)
  then show ?thesis using True assms(2) by (simp add: ResizeEvents_def past_end_def Let_def)
qed (use assms(2) in \<open>simp add: ResizeEvents_def past_end_def Let_def\<close>)

lemma ResizeEvents_frame:
  "m_eventFd (ResizeEvents fd s) = m_eventFd s" "length (m_fd_events s) \<le> length (m_fd_events (ResizeEvents fd s))"
  "i < length (m_fd_events s) \<Longrightarrow> m_fd_events (ResizeEvents fd s) ! i = m_fd_events s ! i"
  "length (m_fd_events s) \<le> i \<Longrightarrow> i < length (m_fd_events (ResizeEvents fd s)) \<Longrightarrow>
     m_fd_events (ResizeEvents fd s) ! i = FdContextManager_new (int i)"
  by (simp_all add: ResizeEvents_def Let_def nth_append split: if_splits)

subsection \<open>epoll mirrors the masks\<close>

text \<open>
  The interest list of epoll for one descriptor, as its manual page describes it: adding an
  entry that exists and changing or deleting one that does not are errors. The outer
  \<open>None\<close> is such an error. Other reasons for a call to fail (a descriptor that the program has closed, memory) are not
  part of this view.
\<close>

fun epoll_replay :: "(epoll_op \<times> int \<times> event) list \<Rightarrow> event option \<Rightarrow> event option option" where
  "epoll_replay [] r = Some r"
| "epoll_replay ((EPOLL_CTL_ADD, fd, ev) # cs) r = (if r = None then epoll_replay cs (Some ev) else None)"
| "epoll_replay ((EPOLL_CTL_MOD, fd, ev) # cs) r = (if r = None then None else epoll_replay cs (Some ev))"
| "epoll_replay ((EPOLL_CTL_DEL, fd, ev) # cs) r = (if r = None then None else epoll_replay cs None)"

definition watched :: "event \<Rightarrow> event option" where
  "watched ev = (if ev = 0 then None else Some (ev OR EPOLLET))"

text \<open>Every synchronisation starts from the mask the previous one ended with.\<close>

fun follows :: "int \<Rightarrow> event \<Rightarrow> io_effect list \<Rightarrow> event \<Rightarrow> bool" where
  "follows fd e [] e' = (e = e')"
| "follows fd e (Sync fd' origin new # es) e' = (fd' = fd \<and> origin = e \<and> follows fd new es e')"
| "follows fd e (Started a # es) e' = follows fd e es e'"
| "follows fd e (CoClose fd' b # es) e' = follows fd e es e'"

lemma follows_append: "follows fd e (xs @ ys) e' \<longleftrightarrow> (\<exists>e1. follows fd e xs e1 \<and> follows fd e1 ys e')"
  by (induction fd e xs e' rule: follows.induct) auto

lemma follows_replay:
  "follows fd e es e' \<Longrightarrow> fd \<noteq> efd \<Longrightarrow> epoll_replay (epoll_calls_of efd es) (watched e) = Some (watched e')"
proof (induction fd e es e' rule: follows.induct)
  case (2 fd e fd' origin new es e')
  then show ?case by (auto simp: stateSync_def watched_def NONE_def)
qed simp_all

text \<open>Requests that carry the synchronisation callback, as all requests of the IO manager do.\<close>

definition synced :: "registed_task \<Rightarrow> bool" where
  "synced r = (case r of DEL_TASK _ cb \<Rightarrow> cb | ADD_TASK _ _ cb \<Rightarrow> cb | TRIGGER_TASK _ cb \<Rightarrow> cb
     | CLOSE_TASK cb \<Rightarrow> cb | CLOSE_TASK_NOCLOSEFD cb \<Rightarrow> cb)"

definition synced_user :: "callback \<Rightarrow> bool" where
  "synced_user user \<longleftrightarrow> (\<forall>a reqs. user a = Inr reqs \<longrightarrow> (\<forall>r\<in>set reqs. synced r))"

definition mirrored :: "int \<Rightarrow> fcm \<Rightarrow> bool" where
  "mirrored fd m \<longleftrightarrow> m_fd (m_fdcontex m) = fd \<and> (\<forall>r\<in>set (m_tasks m). synced r) \<and>
     follows fd 0 (effects m) (m_event (m_fdcontex m))"

lemma ctx_fd [simp]:
  "m_fd (FdContext_delEvent ev c) = m_fd c" "m_fd (FdContext_addEvent ev t c) = m_fd c" "m_fd (FdContext_reset c) = m_fd c"
  by (simp_all add: FdContext_delEvent_def FdContext_addEvent_def FdContext_reset_def Let_def)

lemma trigger_slot_ctx [simp]: "m_fdcontex (snd (trigger_slot user cb m)) = m_fdcontex m"
  by (simp add: trigger_slot_def Let_def split: sum.split option.split)

lemma trigger_slot_mirrored:
  assumes "synced_user user" "mirrored fd m"
  shows "mirrored fd (snd (trigger_slot user cb m))"
  using assms by (auto simp: trigger_slot_def mirrored_def synced_user_def Let_def follows_append
      split: sum.split option.split)

lemma trigger_mirrored:
  assumes "synced_user user" "mirrored fd m"
  shows "mirrored fd (snd (FdContext_trigger user ev m))" "m_fdcontex (snd (FdContext_trigger user ev m)) = m_fdcontex m"
  using assms trigger_slot_mirrored
  by (simp_all add: FdContext_trigger_def Let_def case_prod_unfold trigger_slot_mirrored)

lemma sync_mirrored:
  "m_fd (m_fdcontex m) = fd \<Longrightarrow> \<forall>r\<in>set (m_tasks m). synced r \<Longrightarrow> follows fd 0 (effects m) origin \<Longrightarrow>
   mirrored fd (sync True origin m)"
  by (auto simp: mirrored_def sync_def follows_append)

lemma run_registed_mirrored:
  assumes "synced_user user" "mirrored fd m" "synced r"
  shows "mirrored fd (snd (run_registed user r m))"
proof (cases r)
  case (TRIGGER_TASK ev cb)
  have t: "mirrored fd (snd (FdContext_trigger user ev m))" "m_fdcontex (snd (FdContext_trigger user ev m)) = m_fdcontex m"
    by (rule trigger_mirrored [OF assms(1,2)])+
  then have "mirrored fd (sync True (m_event (m_fdcontex m)) (snd (FdContext_trigger user ev m)))"
    by (intro sync_mirrored) (auto simp: mirrored_def)
  then show ?thesis
    using t assms(3) TRIGGER_TASK by (auto simp: run_registed_def synced_def split: prod.split option.split)
qed (use assms(2,3) in \<open>auto simp: run_registed_def synced_def mirrored_def sync_def follows_append Let_def\<close>)

lemma run_batch_mirrored:
  assumes "synced_user user"
  shows "mirrored fd m \<Longrightarrow> \<forall>r\<in>set rs. synced r \<Longrightarrow> mirrored fd (snd (run_batch user rs m))"
proof (induction rs arbitrary: m)
  case (Cons r rs)
  have "mirrored fd (snd (run_registed user r m))" using run_registed_mirrored [OF assms Cons.prems(1)] Cons.prems(2) by simp
  then show ?case using Cons.IH Cons.prems(2) by (cases "run_registed user r m") (auto split: option.split)
qed simp

lemma solveSingleTask_mirrored:
  assumes "synced_user user" "mirrored fd m"
  shows "mirrored fd (snd (snd (solveSingleTask user m)))"
proof -
  have "mirrored fd (m\<lparr>m_tasks := []\<rparr>)" "\<forall>r\<in>set (m_tasks m). synced r" using assms(2) by (simp_all add: mirrored_def)
  then show ?thesis using run_batch_mirrored [OF assms(1)] by (simp add: solveSingleTask_def case_prod_unfold Let_def)
qed

lemma solve_loop_mirrored:
  assumes "solve_loop user m = Some r" "synced_user user" "mirrored fd m"
  shows "mirrored fd (snd r)"
proof -
  have "synced_user user \<longrightarrow> mirrored fd m \<longrightarrow> mirrored fd (snd r)"
  proof (rule solve_loop.raw_induct [OF _ assms(1)], intro impI)
    fix f user m r
    assume IH: "\<And>u b y. f u b = Some y \<Longrightarrow> synced_user u \<longrightarrow> mirrored fd b \<longrightarrow> mirrored fd (snd y)"
      and eq: "(case solveSingleTask user m of (Some e, _, m1) \<Rightarrow> Some (Some e, m1)
        | (None, again, m1) \<Rightarrow> if again then f user m1 else Some (None, m1)) = Some r"
      and m: "synced_user user" "mirrored fd m"
    have "mirrored fd (snd (snd (solveSingleTask user m)))" by (rule solveSingleTask_mirrored [OF m])
    then show "mirrored fd (snd r)" using eq IH m(1) by (auto split: prod.splits option.splits if_splits)
  qed
  then show ?thesis using assms(2,3) by blast
qed

lemma settle_mirrored [simp]: "mirrored fd (settle m) = mirrored fd m" "mirrored fd (m\<lparr>m_state := st\<rparr>) = mirrored fd m"
  by (simp_all add: mirrored_def settle_def)

lemma push_mirrored: "mirrored fd m \<Longrightarrow> (\<And>r. task = Some r \<Longrightarrow> synced r) \<Longrightarrow> mirrored fd (push_task task m)"
  by (auto simp: mirrored_def push_task_def split: option.split)

lemma addTask_mirrored:
  assumes "addTask user task m = Some r" "synced_user user" "mirrored fd m" "\<And>q. task = Some q \<Longrightarrow> synced q"
  shows "mirrored fd (snd (snd r))"
proof -
  have "synced_user user \<longrightarrow> mirrored fd m \<longrightarrow> (\<forall>q. task = Some q \<longrightarrow> synced q) \<longrightarrow> mirrored fd (snd (snd r))"
  proof (rule addTask.raw_induct [OF _ assms(1)], intro impI)
    fix f user task m r
    assume IH: "\<And>u t b y. f u t b = Some y \<Longrightarrow> synced_user u \<longrightarrow> mirrored fd b \<longrightarrow>
        (\<forall>q. t = Some q \<longrightarrow> synced q) \<longrightarrow> mirrored fd (snd (snd y))"
      and eq: "(let m1 = push_task task m
         in if m_tasks m1 = [] then Some (None, True, m1)
            else if m_state m1 = READY \<or> m_state m1 = INIT
            then (case solve_loop user (m1\<lparr>m_state := BUSY\<rparr>) of
                    None \<Rightarrow> None
                  | Some (Some e, m2) \<Rightarrow> Some (Some e, False, m2)
                  | Some (None, m2) \<Rightarrow>
                      (case solve_loop user m2 of
                         None \<Rightarrow> None
                       | Some (Some e, m3) \<Rightarrow> Some (Some e, False, m3)
                       | Some (None, m3) \<Rightarrow> Option.bind (f user None (settle m3)) (\<lambda>(x, _, m4). Some (x, True, m4))))
            else if m_state m1 = ERROR then Some (Some (Thrown ''[fdContext.cc]Error State''), False, m1)
            else Some (None, False, m1)) = Some r"
      and m: "synced_user user" "mirrored fd m" "\<forall>q. task = Some q \<longrightarrow> synced q"
    let ?m1 = "push_task task m"
    have m1: "mirrored fd (?m1\<lparr>m_state := BUSY\<rparr>)" "mirrored fd ?m1" using push_mirrored [OF m(2)] m(3) by simp_all
    have l1: "mirrored fd m2" if "solve_loop user (?m1\<lparr>m_state := BUSY\<rparr>) = Some (x, m2)" for x m2
      using solve_loop_mirrored [OF that m(1) m1(1)] by simp
    have l2: "mirrored fd m3" if "solve_loop user m2 = Some (x, m3)" "mirrored fd m2" for x m2 m3
      using solve_loop_mirrored [OF that(1) m(1) that(2)] by simp
    have l3: "mirrored fd m4" if "f user None (settle m3) = Some (x, b, m4)" "mirrored fd m3" for m3 x b m4
      using IH [OF that(1)] that(2) m(1) by simp
    show "mirrored fd (snd (snd r))"
      using eq m1(2) unfolding Let_def
      by (auto split: if_splits option.splits prod.splits bind_splits dest!: l1 dest: l2 l3)
  qed
  then show ?thesis using assms(2-4) by blast
qed

subsection \<open>Sequences of operations\<close>

datatype iom_op =
    Op_addEvent int event task_coro20
  | Op_addEvent_func int event "nat option"
  | Op_addOnceEvent int event task_coro20
  | Op_addOnceEvent_func int event "nat option"
  | Op_delEvent int event
  | Op_closeFd int
  | Op_closeWithNoClose int
  | Op_cancelEvent int event
  | Op_cancelAll int
  | Op_report "(int \<times> event) list"

definition iom_exec :: "callback \<Rightarrow> iom_op \<Rightarrow> iom \<Rightarrow> (failure option \<times> iom) option" where
  "iom_exec user op s =
     (case op of
        Op_addEvent fd ev t \<Rightarrow> iom_addEvent user fd ev t s
      | Op_addEvent_func fd ev f \<Rightarrow> iom_addEvent_func user fd ev f s
      | Op_addOnceEvent fd ev t \<Rightarrow> addOnceEvent user fd ev t s
      | Op_addOnceEvent_func fd ev f \<Rightarrow> addOnceEvent_func user fd ev f s
      | Op_delEvent fd ev \<Rightarrow> iom_delEvent user fd ev s
      | Op_closeFd fd \<Rightarrow> closeFd user fd s
      | Op_closeWithNoClose fd \<Rightarrow> closeWithNoClose user fd s
      | Op_cancelEvent fd ev \<Rightarrow> cancelEvent user fd ev s
      | Op_cancelAll fd \<Rightarrow> cancelAll user fd s
      | Op_report evs \<Rightarrow> map_option (\<lambda>(x, _, s'). (x, s')) (handle_events user evs False s))"

text \<open>The callers go on after an exception.\<close>

fun iom_run :: "callback \<Rightarrow> iom_op list \<Rightarrow> iom \<Rightarrow> iom option" where
  "iom_run user [] s = Some s"
| "iom_run user (op # ops) s = (case iom_exec user op s of None \<Rightarrow> None | Some (_, s') \<Rightarrow> iom_run user ops s')"

definition iom_inv :: "int \<Rightarrow> iom \<Rightarrow> bool" where
  "iom_inv efd s \<longleftrightarrow> m_eventFd s = efd \<and> 128 \<le> length (m_fd_events s) \<and>
     (\<forall>i<length (m_fd_events s). int i \<noteq> efd \<longrightarrow> mirrored (int i) (m_fd_events s ! i))"

lemma new_mirrored: "mirrored fd (FdContextManager_new fd)"
  by (simp add: mirrored_def FdContextManager_new_def FdContext_reset_def FdContext_new_def NONE_def)

lemma ResizeEvents_inv: "iom_inv efd s \<Longrightarrow> iom_inv efd (ResizeEvents fd s)"
  unfolding iom_inv_def using ResizeEvents_frame new_mirrored by (metis leI le_trans)

text \<open>An operation that, whenever it returns, leaves the invariant.\<close>

definition keeps :: "int \<Rightarrow> (failure option \<times> iom) option \<Rightarrow> bool" where
  "keeps efd r \<longleftrightarrow> (case r of None \<Rightarrow> True | Some (x, s) \<Rightarrow> iom_inv efd s)"

lemma keeps_simps [simp]: "keeps efd None" "keeps efd (Some (x, s)) = iom_inv efd s"
  by (simp_all add: keeps_def)

lemma with_fd_keeps:
  assumes "iom_inv efd s" "\<And>m r. request m = Some r \<Longrightarrow> mirrored fd m \<Longrightarrow> mirrored fd (snd (snd r))"
  shows "keeps efd (with_fd request fd s)"
proof (cases "past_end fd s")
  case False
  let ?m = "m_fd_events s ! nat fd"
  have fd: "0 \<le> fd" "nat fd < length (m_fd_events s)" using False by (auto simp: past_end_def)
  then have "mirrored fd ?m" if "fd \<noteq> efd" using assms(1) that by (metis iom_inv_def int_nat_eq)
  then have "mirrored fd m" if "fd \<noteq> efd" "request ?m = Some (y, b, m)" for y b m
    using assms(2) [OF that(2)] that(1) by simp
  then show ?thesis
    using assms(1) False fd by (auto simp: with_fd_def iom_inv_def nth_list_update split: option.split)
qed (use assms(1) in \<open>simp add: with_fd_def\<close>)

lemma and_then_keeps:
  assumes "keeps efd r" "\<And>t. iom_inv efd t \<Longrightarrow> keeps efd (f t)"
  shows "keeps efd (and_then r f)"
  using assms by (cases r) (auto simp: and_then_def split: prod.split option.split)

lemma addTask_synced:
  assumes "synced_user user" "synced q" "addTask user (Some q) m = Some r" "mirrored fd m"
  shows "mirrored fd (snd (snd r))"
  using addTask_mirrored [OF assms(3,1,4)] assms(2) by simp

lemma requests_keep:
  assumes "synced_user user" "iom_inv efd s"
  shows "keeps efd (with_fd (fcm_addEvent user ev t True) fd s)" "keeps efd (with_fd (fcm_delEvent user ev True) fd s)"
    "keeps efd (with_fd (fcm_trigger user ev True) fd s)" "keeps efd (with_fd (fcm_closeEvent user True) fd s)"
    "keeps efd (with_fd (fcm_closeEventNoCloseFd user True) fd s)"
  by (rule with_fd_keeps [OF assms(2)];
      simp only: fcm_addEvent_def fcm_delEvent_def fcm_trigger_def fcm_closeEvent_def fcm_closeEventNoCloseFd_def;
      rule addTask_synced [OF assms(1)]; simp add: synced_def)+

lemma handle_events_inv:
  assumes "synced_user user"
  shows "iom_inv efd s \<Longrightarrow> keeps efd (map_option (\<lambda>(x, _, s'). (x, s')) (handle_events user evs got s))"
proof (induction evs arbitrary: got s)
  case (Cons e evs)
  obtain fd ev where e: "e = (fd, ev)" by fastforce
  then show ?case
    using Cons requests_keep(3) [OF assms Cons.prems, of ev fd]
    by (cases "with_fd (fcm_trigger user ev True) fd s") (auto split: option.split)
qed simp

lemma grow_inv: "iom_inv efd s \<Longrightarrow> iom_inv efd (if past_end fd s then ResizeEvents fd s else s)"
  by (simp add: ResizeEvents_inv)

lemma iom_exec_keeps:
  assumes "synced_user user" "iom_inv efd s"
  shows "keeps efd (iom_exec user op s)"
proof -
  note rq = requests_keep [OF assms(1)]
  note g = grow_inv [OF assms(2)]
  show ?thesis
    by (cases op)
      (simp_all add: iom_exec_def iom_addEvent_def iom_addEvent_func_def addOnceEvent_def addOnceEvent_func_def
        iom_delEvent_def closeFd_def closeWithNoClose_def cancelEvent_def cancelAll_def Let_def assms(2)
        handle_events_inv [OF assms] rq assms(2) ResizeEvents_inv and_then_keeps)
qed

lemma iom_run_inv:
  "synced_user user \<Longrightarrow> iom_inv efd s \<Longrightarrow> iom_run user ops s = Some s' \<Longrightarrow> iom_inv efd s'"
proof (induction ops arbitrary: s)
  case (Cons op ops)
  then show ?case using iom_exec_keeps [OF Cons.prems(1,2), of op] by (auto split: option.splits)
qed simp

lemma IOManager_new_inv:
  assumes "IOManager_new efd = Inr s"
  shows "iom_inv efd s"
proof -
  let ?ms = "map (\<lambda>i. FdContextManager_new (int i)) [0..<128]"
  obtain m where "s = \<lparr>m_eventFd = efd, m_fd_events = ?ms[nat efd := m]\<rparr>" "0 \<le> efd"
    using assms by (auto simp: IOManager_new_def Let_def simp del: upt_rec_numeral split: if_splits option.splits)
  then show ?thesis
    using new_mirrored by (auto simp: iom_inv_def nth_list_update simp del: upt_rec_numeral)
qed

subsection \<open>Registration\<close>

definition all_settled :: "iom \<Rightarrow> bool" where
  "all_settled s \<longleftrightarrow> 128 \<le> length (m_fd_events s) \<and> (\<forall>m\<in>set (m_fd_events s). settled m)"

text \<open>The context of a descriptor, which the vector may not hold yet.\<close>

definition context_of :: "iom \<Rightarrow> int \<Rightarrow> fd_context" where
  "context_of s fd = (if past_end fd s then FdContext_reset (FdContext_new fd) else m_fdcontex (m_fd_events s ! nat fd))"

lemma ResizeEvents_settled:
  assumes "all_settled s" "0 \<le> fd"
  shows "all_settled (ResizeEvents fd s)" "\<not> past_end fd (ResizeEvents fd s)"
    "0 \<le> fd' \<Longrightarrow> context_of (ResizeEvents fd s) fd' = context_of s fd'"
proof -
  let ?s = "ResizeEvents fd s"
  have len: "128 \<le> length (m_fd_events s)" using assms(1) by (simp add: all_settled_def)
  show "all_settled ?s"
    using assms(1) new_settled by (auto simp: all_settled_def ResizeEvents_def Let_def)
  show "\<not> past_end fd ?s" by (rule ResizeEvents_covers [OF len assms(2)])
  show "context_of ?s fd' = context_of s fd'" if "0 \<le> fd'"
  proof (cases "nat fd' < length (m_fd_events s)")
    case True
    then have "\<not> past_end fd' s" "\<not> past_end fd' ?s" "m_fd_events ?s ! nat fd' = m_fd_events s ! nat fd'"
      using that ResizeEvents_frame(2) [of s fd] ResizeEvents_frame(3) [OF True, of fd] by (auto simp: past_end_def)
    then show ?thesis by (simp add: context_of_def)
  next
    case False
    then have "past_end fd' s" using that by (simp add: past_end_def nat_le_iff not_less le_nat_iff)
    moreover have "m_fdcontex (m_fd_events ?s ! nat fd') = FdContext_reset (FdContext_new fd')" if "\<not> past_end fd' ?s"
      using False that \<open>0 \<le> fd'\<close> ResizeEvents_frame(4) [of s "nat fd'" fd]
      by (auto simp: past_end_def FdContextManager_new_def)
    ultimately show ?thesis by (simp add: context_of_def)
  qed
qed

text \<open>A request other than a trigger, on a settled vector.\<close>

lemma with_fd_request:
  assumes "all_settled s" "\<not> past_end fd s" "tame user" "wf_req r" "\<not> is_trigger r"
    "m_fdcontex (snd (run_registed user r ((m_fd_events s ! nat fd)\<lparr>m_state := BUSY\<rparr>))) = c"
  obtains s' where "with_fd (addTask user (Some r)) fd s = Some (None, s')" "all_settled s'" "\<not> past_end fd s'"
    "context_of s' fd = c" "\<And>fd'. fd' \<noteq> fd \<Longrightarrow> 0 \<le> fd' \<Longrightarrow> context_of s' fd' = context_of s fd'"
proof -
  let ?m = "m_fd_events s ! nat fd"
  have i: "0 \<le> fd" "nat fd < length (m_fd_events s)" using assms(2) by (auto simp: past_end_def)
  then have "settled ?m" using assms(1) by (simp add: all_settled_def)
  then obtain m' where m': "addTask user (Some r) ?m = Some (None, True, m')" "settled m'" "m_fdcontex m' = c"
    using addTask_completes [OF assms(3) _ assms(4)] assms(5,6)
    by (metis (no_types, lifting) fcm.ext_inject fcm.surjective fcm.update_convs(1) settle_def)
  let ?s' = "s\<lparr>m_fd_events := (m_fd_events s)[nat fd := m']\<rparr>"
  have "context_of ?s' fd' = context_of s fd'" if "fd' \<noteq> fd" "0 \<le> fd'" for fd'
    using that i by (auto simp: context_of_def past_end_def nth_list_update)
  moreover have "all_settled ?s'" using assms(1) m'(2) by (auto simp: all_settled_def dest!: set_update_subset_insert [THEN subsetD])
  ultimately show ?thesis
    using that [of ?s'] m' i assms(2) by (simp add: with_fd_def context_of_def past_end_def)
qed

lemma add_request:
  assumes "all_settled s" "0 \<le> fd" "tame user" "wf_task t"
  obtains s' where "with_fd (fcm_addEvent user ev t True) fd (if past_end fd s then ResizeEvents fd s else s) = Some (None, s')"
    "all_settled s'" "\<not> past_end fd s'" "context_of s' fd = FdContext_addEvent ev t (context_of s fd)"
    "\<And>fd'. fd' \<noteq> fd \<Longrightarrow> 0 \<le> fd' \<Longrightarrow> context_of s' fd' = context_of s fd'"
proof -
  let ?s = "if past_end fd s then ResizeEvents fd s else s"
  have s: "all_settled ?s" "\<not> past_end fd ?s" "\<And>fd'. 0 \<le> fd' \<Longrightarrow> context_of ?s fd' = context_of s fd'"
    using ResizeEvents_settled [OF assms(1,2)] assms(1) by auto
  have mv: "fst (move_construct t) = t" by (simp add: move_construct_def)
  have eq: "fcm_addEvent user ev t True = addTask user (Some (ADD_TASK ev t True))"
    by (rule ext) (simp add: fcm_addEvent_def mv)
  have c: "m_fdcontex (m_fd_events ?s ! nat fd) = context_of s fd" using s(2) s(3) [OF assms(2)] by (simp add: context_of_def)
  show ?thesis
    by (rule with_fd_request [OF s(1,2) assms(3), of "ADD_TASK ev t True" "FdContext_addEvent ev t (context_of s fd)"])
      (use that [unfolded eq] s(3) c assms(4) in \<open>auto simp: wf_req_def is_trigger_def run_registed_def Let_def\<close>)
qed

text \<open>
  Any non-negative descriptor can be registered: the vector grows far enough, the mask of the
  descriptor gains the event, and no other descriptor is affected.
\<close>

theorem watch_any_descriptor:
  assumes "all_settled s" "0 \<le> fd" "tame user" "isLegal t" "wf_task t"
  shows "\<exists>s'. iom_addEvent user fd ev t s = Some (None, s') \<and> all_settled s' \<and> \<not> past_end fd s' \<and>
    m_event (context_of s' fd) = m_event (context_of s fd) OR ev \<and>
    (\<forall>fd'. fd' \<noteq> fd \<and> 0 \<le> fd' \<longrightarrow> context_of s' fd' = context_of s fd')"
proof (rule add_request [OF assms(1,2,3,5), of ev])
  fix s' assume "with_fd (fcm_addEvent user ev t True) fd (if past_end fd s then ResizeEvents fd s else s) = Some (None, s')"
    and r: "all_settled s'" "\<not> past_end fd s'" "context_of s' fd = FdContext_addEvent ev t (context_of s fd)"
    "\<And>fd'. fd' \<noteq> fd \<Longrightarrow> 0 \<le> fd' \<Longrightarrow> context_of s' fd' = context_of s fd'"
  then have "iom_addEvent user fd ev t s = Some (None, s')" using assms(4) by (simp add: iom_addEvent_def Let_def)
  moreover have "m_event (FdContext_addEvent ev t c) = m_event c OR ev" for c by (simp add: FdContext_addEvent_def Let_def)
  ultimately show ?thesis using r by (intro exI [of _ s']) simp
qed

lemma IOManager_new_ok:
  assumes "0 \<le> efd" "efd < 128"
  obtains s where "IOManager_new efd = Inr s" "all_settled s" "m_eventFd s = efd" "length (m_fd_events s) = 128"
    "\<And>i. i < 128 \<Longrightarrow> int i \<noteq> efd \<Longrightarrow> m_fd_events s ! i = FdContextManager_new (int i)"
proof -
  let ?ms = "map (\<lambda>i. FdContextManager_new (int i)) [0..<128]"
  have "settled (?ms ! nat efd)" using assms by (simp add: new_settled del: upt_rec_numeral)
  moreover have "wf_req (ADD_TASK READ (fst (move_construct TaskCoro20_default)) False)"
    by (simp add: wf_req_def move_construct_def wf_task_def TaskCoro20_default_def)
  ultimately obtain m where m: "fcm_addEvent (\<lambda>_. Inr []) READ TaskCoro20_default False (?ms ! nat efd) = Some (None, True, m)" "settled m"
    unfolding fcm_addEvent_def using addTask_completes [OF tame_silent] by blast
  show ?thesis
  proof (rule that [of "\<lparr>m_eventFd = efd, m_fd_events = ?ms[nat efd := m]\<rparr>"])
    show "IOManager_new efd = Inr \<lparr>m_eventFd = efd, m_fd_events = ?ms[nat efd := m]\<rparr>"
      unfolding IOManager_new_def Let_def using assms m(1) by (simp del: upt_rec_numeral)
    show "all_settled \<lparr>m_eventFd = efd, m_fd_events = ?ms[nat efd := m]\<rparr>"
      using m(2) new_settled
      by (auto simp: all_settled_def simp del: upt_rec_numeral dest!: set_update_subset_insert [THEN subsetD])
  qed (use assms in \<open>auto simp: nth_list_update simp del: upt_rec_numeral\<close>)
qed

theorem watch_any_descriptor_witness:
  "\<exists>s s'. IOManager_new 5 = Inr s \<and> iom_addEvent (\<lambda>_. Inr []) 2000 READ (create_func (Some 3)) s = Some (None, s') \<and>
     m_event (context_of s' 2000) = READ"
proof -
  obtain s where s: "IOManager_new 5 = Inr s" "all_settled s" "length (m_fd_events s) = 128"
    using IOManager_new_ok [of 5] by auto
  have t: "isLegal (create_func (Some 3))" "wf_task (create_func (Some 3))"
    by (simp_all add: isLegal_def wf_task_def create_func_def)
  have "context_of s 2000 = FdContext_reset (FdContext_new 2000)" using s(3) by (simp add: context_of_def past_end_def)
  then show ?thesis
    using watch_any_descriptor [OF s(2) _ tame_silent t, of 2000 READ] s(1) by (auto simp: FdContext_reset_def NONE_def)
qed

text \<open>
  C23. Whatever sequence of operations and event reports the IO manager goes through, for every
  descriptor but the eventfd its \<^verbatim>\<open>epoll_ctl\<close> calls are accepted by epoll (an entry is added
  only when absent, changed or deleted only when present), and the entry they leave is exactly
  the mask of the descriptor, with edge triggering.
\<close>

theorem epoll_mirrors_masks:
  assumes "IOManager_new efd = Inr s0" "synced_user user" "iom_run user ops s0 = Some s"
    "i < length (m_fd_events s)" "int i \<noteq> efd"
  shows "epoll_replay (epoll_calls_of efd (effects (m_fd_events s ! i))) None =
    Some (watched (m_event (m_fdcontex (m_fd_events s ! i))))"
proof -
  have "mirrored (int i) (m_fd_events s ! i)"
    using iom_run_inv [OF assms(2) IOManager_new_inv [OF assms(1)] assms(3)] assms(4,5) by (simp add: iom_inv_def)
  then show ?thesis
    using follows_replay [of "int i" 0 _ _ efd] assms(5) by (simp add: mirrored_def watched_def)
qed

lemma synced_silent: "synced_user (\<lambda>_. Inr [])"
  by (simp add: synced_user_def)

theorem epoll_mirrors_masks_witness:
  "\<exists>s0 s. IOManager_new 5 = Inr s0 \<and>
     iom_run (\<lambda>_. Inr []) [Op_addEvent 7 READ (create_func (Some 3))] s0 = Some s \<and>
     epoll_replay (epoll_calls_of 5 (effects (m_fd_events s ! 7))) None = Some (Some (READ OR EPOLLET))"
proof -
  obtain s0 where s0: "IOManager_new 5 = Inr s0" "all_settled s0" "length (m_fd_events s0) = 128"
    and nth: "\<And>i. i < 128 \<Longrightarrow> int i \<noteq> 5 \<Longrightarrow> m_fd_events s0 ! i = FdContextManager_new (int i)"
    by (rule IOManager_new_ok [of 5]) simp_all
  have t: "isLegal (create_func (Some 3))" "wf_task (create_func (Some 3))"
    by (simp_all add: isLegal_def wf_task_def create_func_def)
  have fd7: "(0 :: int) \<le> 7" by simp
  have c0: "m_event (context_of s0 7) = 0" using s0(3) nth [of 7]
    by (simp add: context_of_def past_end_def FdContextManager_new_def FdContext_reset_def NONE_def)
  obtain s where add: "with_fd (fcm_addEvent (\<lambda>_. Inr []) READ (create_func (Some 3)) True) 7
      (if past_end 7 s0 then ResizeEvents 7 s0 else s0) = Some (None, s)" "\<not> past_end 7 s"
    "context_of s 7 = FdContext_addEvent READ (create_func (Some 3)) (context_of s0 7)"
    using add_request [OF s0(2) fd7 tame_silent t(2), of READ] by blast
  have run: "iom_run (\<lambda>_. Inr []) [Op_addEvent 7 READ (create_func (Some 3))] s0 = Some s"
    using add(1) t(1) by (simp add: iom_exec_def iom_addEvent_def Let_def)
  have i: "7 < length (m_fd_events s)" using add(2) by (simp add: past_end_def)
  have "m_event (m_fdcontex (m_fd_events s ! 7)) = READ"
    using add(2,3) c0 by (simp add: context_of_def add_read_ctx)
  then show ?thesis
    using epoll_mirrors_masks [OF s0(1) synced_silent run i] run s0(1) by (auto simp: watched_def READ_def)
qed

lemma del_request:
  assumes "all_settled s" "\<not> past_end fd s" "tame user"
  obtains s' where "with_fd (fcm_delEvent user ev True) fd s = Some (None, s')"
    "\<not> past_end fd s'" "context_of s' fd = FdContext_delEvent ev (context_of s fd)"
proof -
  have eq: "fcm_delEvent user ev True = addTask user (Some (DEL_TASK ev True))"
    by (rule ext) (simp add: fcm_delEvent_def)
  show ?thesis
    by (rule with_fd_request [OF assms(1,2,3), of "DEL_TASK ev True" "FdContext_delEvent ev (context_of s fd)"])
      (use that [unfolded eq] assms(2) in \<open>auto simp: wf_req_def is_trigger_def run_registed_def Let_def context_of_def\<close>)
qed

text \<open>
  The overload of \<^verbatim>\<open>addOnceEvent\<close> for functions removes the event in the same call that adds
  it: afterwards the descriptor does not watch the event and holds no callback for it, so the
  callback that should run once never runs.
\<close>

theorem once_event_never_runs:
  assumes "all_settled s" "0 \<le> fd" "tame user"
  shows "\<exists>s'. addOnceEvent_func user fd READ (Some f) s = Some (None, s') \<and>
    m_event (context_of s' fd) AND READ = 0 \<and> \<not> isLegal (m_cb_read (context_of s' fd))"
proof -
  have wf: "wf_task (TaskCoro20_func (Some f))" by (simp add: wf_task_def TaskCoro20_func_def)
  obtain s1 where s1: "with_fd (fcm_addEvent user READ (TaskCoro20_func (Some f)) True) fd
      (if past_end fd s then ResizeEvents fd s else s) = Some (None, s1)" "all_settled s1" "\<not> past_end fd s1"
    using add_request [OF assms(1-3) wf, of READ] by metis
  obtain s2 where s2: "with_fd (fcm_delEvent user READ True) fd s1 = Some (None, s2)"
    "context_of s2 fd = FdContext_delEvent READ (context_of s1 fd)"
    using del_request [OF s1(2,3) assms(3), of READ] by metis
  have "addOnceEvent_func user fd READ (Some f) s = Some (None, s2)"
    using s1(1) s2(1) by (simp add: addOnceEvent_func_def and_then_def Let_def)
  moreover have "m_event (FdContext_delEvent READ c) AND READ = 0" "\<not> isLegal (m_cb_read (FdContext_delEvent READ c))" for c
    by (simp_all add: FdContext_delEvent_def Let_def and.assoc)
  ultimately show ?thesis using s2(2) by (intro exI [of _ s2]) simp
qed

theorem once_event_never_runs_witness:
  "\<exists>s s'. IOManager_new 5 = Inr s \<and> addOnceEvent_func (\<lambda>_. Inr []) 9 READ (Some 3) s = Some (None, s') \<and>
     m_event (context_of s' 9) AND READ = 0"
proof -
  obtain s where s: "IOManager_new 5 = Inr s" "all_settled s" using IOManager_new_ok [of 5] by auto
  then show ?thesis using once_event_never_runs [OF s(2) _ tame_silent, of 9 3] by auto
qed

end
