(* ===== verification/Shutdown.thy ===== *)
theory Shutdown
  imports Io_Manager
begin

section \<open>Worker threads and stopping (coroutine/coro20: scheduler.cc, ioManager.cc)\<close>

text \<open>
  An IO manager with all its threads: the workers in \<^verbatim>\<open>Scheduler::run\<close> and \<^verbatim>\<open>IOManager::idle\<close>, the eventfd that
  \<^verbatim>\<open>tickle\<close> writes, a thread that calls \<^verbatim>\<open>autoStop\<close> or \<^verbatim>\<open>stop\<close>, and threads in the middle of \<^verbatim>\<open>schedule\<close>. Each thread is
  at a point of its function and moves by small steps, in any order. What \<^verbatim>\<open>epoll_wait\<close> returns is part of the step; what
  a task does when it is started is an argument, and a task that schedules others does so in steps of its own.

  The points of a worker: the head of the loop, taking tasks, starting them, the test for stopping, the test for more
  tasks, before and after locking \<^verbatim>\<open>m_mutex\<close> shared in \<^verbatim>\<open>idle\<close>, before and after locking it exclusively behind the loop,
  and the end of \<^verbatim>\<open>run\<close>.
\<close>

datatype worker =
  At_loop | At_body | At_run "task_coro20 list" | At_decide | At_more | To_wait | In_wait | At_exit | In_exit | Has_left

text \<open>
  \<^verbatim>\<open>m_mutex\<close> is held shared by the workers inside \<^verbatim>\<open>epoll_wait\<close> and exclusively by one that is leaving \<^verbatim>\<open>run\<close>; a worker
  that cannot have it stays where it is. (\<^verbatim>\<open>start\<close> holds it too, until all threads exist.) Waiting writers do not keep
  readers out, as with the reader-writer locks of glibc.
\<close>

definition may_share :: "worker list \<Rightarrow> bool" where
  "may_share ws \<longleftrightarrow> In_exit \<notin> set ws"

definition may_own :: "worker list \<Rightarrow> bool" where
  "may_own ws \<longleftrightarrow> In_exit \<notin> set ws \<and> In_wait \<notin> set ws"

text \<open>A call of \<^verbatim>\<open>schedule\<close> that has passed the tests, or has only to wake a worker.\<close>

datatype sched_call = Allocating task_coro20 | Tickling

datatype stopper = Not_called | Auto_tasks | Auto_threads | Stop_threads | Joining nat | Returned

datatype ep_result = Ep_interrupted | Ep_failed | Ep_events "(int \<times> event) list"

record cluster =
  cl_sched :: sched
  cl_iom :: iom
  cl_eventfd :: nat
  cl_workers :: "worker list"
  cl_stopper :: stopper
  cl_calls :: "sched_call list"
  cl_accepted :: "task_coro20 multiset"
  cl_started :: "task_coro20 multiset"
  cl_open :: "task_coro20 multiset"

text \<open>
  Three fields only record the history: the tasks that were put into the pool, those a worker has taken up, and those
  whose \<^verbatim>\<open>schedule\<close> was between its tests and the pool when \<^verbatim>\<open>autoStop\<close> set its flag.

  The counter of an eventfd holds at most \<open>2\<^sup>64 - 2\<close>; a write that would pass it fails on a non-blocking one, and
  \<^verbatim>\<open>throw;\<close> outside a handler ends the program.
\<close>

definition IOManager_tickle :: "nat \<Rightarrow> failure + nat" where
  "IOManager_tickle c = (if 2 ^ 64 - 2 \<le> c then Inl (Thrown ''terminate'') else Inr (c + 1))"

fun tickle_times :: "nat \<Rightarrow> nat \<Rightarrow> failure + nat" where
  "tickle_times 0 c = Inr c"
| "tickle_times (Suc k) c = (case IOManager_tickle c of Inl e \<Rightarrow> Inl e | Inr c' \<Rightarrow> tickle_times k c')"

subsection \<open>A worker\<close>

definition leave_run :: "sched \<Rightarrow> sched" where
  "leave_run s = s\<lparr>m_threads_count := m_threads_count s - 1\<rparr>"

text \<open>
  One point of \<^verbatim>\<open>run\<close>, of a worker among the workers \<open>ws\<close>. The count goes down under the exclusive lock, which is
  released as \<^verbatim>\<open>run\<close> returns.
\<close>

fun run_step ::
  "(action \<Rightarrow> sched \<Rightarrow> sched) \<Rightarrow> (nat \<Rightarrow> bool) \<Rightarrow> worker list \<Rightarrow> worker \<Rightarrow> sched \<Rightarrow> (failure + (worker \<times> sched)) option" where
  "run_step user ends ws At_loop s = Some (Inr (if m_stop s then At_exit else At_body, s))"
| "run_step user ends ws At_body s =
     (case fetch [] (m_task_pool s) of
        None \<Rightarrow> None
      | Some (Inl e) \<Rightarrow> Some (Inl e)
      | Some (Inr (work, p)) \<Rightarrow>
          (let s1 = s\<lparr>m_task_pool := p\<rparr>
           in Some (Inr (At_run work, if getTaskCount p \<noteq> 0 \<and> m_idleThreadCount s1 \<noteq> 0 then tickle s1 else s1))))"
| "run_step user ends ws (At_run []) s = Some (Inr (At_decide, s))"
| "run_step user ends ws (At_run (t # ts)) s = Some (map_sum (\<lambda>e. e) (\<lambda>s'. (At_run ts, s')) (run_work user ends [t] s))"
| "run_step user ends ws At_decide s =
     Some (Inr (if m_stop s \<or> (getTaskCount (m_task_pool s) = 0 \<and> m_autoStop s) then At_exit else At_more, s))"
| "run_step user ends ws At_more s =
     Some (Inr (if getTaskCount (m_task_pool s) \<noteq> 0 then (At_loop, s) else (To_wait, idle_enter s)))"
| "run_step user ends ws To_wait s = Some (Inr (if may_share ws then In_wait else To_wait, s))"
| "run_step user ends ws At_exit s = Some (Inr (if may_own ws then In_exit else At_exit, s))"
| "run_step user ends ws In_exit s = Some (Inr (Has_left, leave_run s))"
| "run_step user ends ws w s = Some (Inr (w, s))"

text \<open>
  One turn of the loops of \<^verbatim>\<open>IOManager::idle\<close>, from the return of \<^verbatim>\<open>epoll_wait\<close> on, which also gives back the shared lock.
  An interrupted wait is repeated unless the scheduler is stopping, any other error leaves \<^verbatim>\<open>idle\<close> at once, and reported
  events are handled; \<^verbatim>\<open>idle\<close> ends when the eventfd was among them, which is read until it is empty. A wait that is
  repeated takes the lock again.
\<close>

definition idle_events ::
  "callback \<Rightarrow> (int \<times> event) list \<Rightarrow> sched \<Rightarrow> iom \<Rightarrow> nat \<Rightarrow> (failure + (worker \<times> sched \<times> iom \<times> nat)) option" where
  "idle_events cb evs s io c =
     (case handle_events cb evs False io of
        None \<Rightarrow> None
      | Some (Some e, _, _) \<Rightarrow> Some (Inl e)
      | Some (None, True, io') \<Rightarrow> Some (Inr (At_loop, idle_leave s, io', 0))
      | Some (None, False, io') \<Rightarrow> Some (Inr (To_wait, idle_enter (idle_leave s), io', c)))"

definition IOManager_idle ::
  "callback \<Rightarrow> ep_result \<Rightarrow> sched \<Rightarrow> iom \<Rightarrow> nat \<Rightarrow> (failure + (worker \<times> sched \<times> iom \<times> nat)) option" where
  "IOManager_idle cb r s io c =
     (case r of
        Ep_interrupted \<Rightarrow> if isStopping s then idle_events cb [] s io c else Some (Inr (To_wait, s, io, c))
      | Ep_failed \<Rightarrow> Some (Inr (At_loop, s, io, c))
      | Ep_events evs \<Rightarrow> idle_events cb evs s io c)"

definition worker_step ::
  "(action \<Rightarrow> sched \<Rightarrow> sched) \<Rightarrow> (nat \<Rightarrow> bool) \<Rightarrow> callback \<Rightarrow> ep_result \<Rightarrow> worker list \<Rightarrow> worker \<Rightarrow> sched \<Rightarrow> iom \<Rightarrow> nat \<Rightarrow>
     (failure + (worker \<times> sched \<times> iom \<times> nat)) option" where
  "worker_step user ends cb r ws w s io c =
     (if w = In_wait then IOManager_idle cb r s io c
      else (case run_step user ends ws w s of
              None \<Rightarrow> None
            | Some (Inl e) \<Rightarrow> Some (Inl e)
            | Some (Inr (w', s')) \<Rightarrow>
                (case tickle_times (tickles s' - tickles s) c of Inl e \<Rightarrow> Some (Inl e) | Inr c' \<Rightarrow> Some (Inr (w', s', io, c')))))"

subsection \<open>Stopping\<close>

text \<open>One point of \<^verbatim>\<open>autoStop\<close> and \<^verbatim>\<open>stop\<close>; joining a thread waits until it has left \<^verbatim>\<open>run\<close>.\<close>

fun stop_step :: "worker list \<Rightarrow> stopper \<Rightarrow> sched \<Rightarrow> stopper \<times> sched" where
  "stop_step ws Auto_tasks s = (if getTaskCount (m_task_pool s) \<noteq> 0 then Auto_tasks else Auto_threads, s)"
| "stop_step ws Auto_threads s = (if m_threads_count s \<noteq> 0 then (Auto_threads, tickle s) else (Stop_threads, s\<lparr>m_stop := True\<rparr>))"
| "stop_step ws Stop_threads s = (if m_threads_count s \<noteq> 0 then (Stop_threads, tickle s) else (Joining 0, s))"
| "stop_step ws (Joining i) s =
     (if i < m_threads s then (if ws ! i = Has_left then Joining (Suc i) else Joining i, s) else (Returned, s\<lparr>m_threads := 0\<rparr>))"
| "stop_step ws p s = (p, s)"

text \<open>The tasks of calls of \<^verbatim>\<open>schedule\<close> that have passed the tests and not reached the pool.\<close>

fun in_call :: "sched_call \<Rightarrow> task_coro20 multiset" where
  "in_call (Allocating t) = {#t#}"
| "in_call Tickling = {#}"

definition in_flight :: "sched_call list \<Rightarrow> task_coro20 multiset" where
  "in_flight cs = sum_list (map in_call cs)"

definition stop_call :: "cluster \<Rightarrow> cluster" where
  "stop_call cl =
     (if cl_stopper cl = Not_called \<or> cl_stopper cl = Returned
      then cl\<lparr>cl_sched := (cl_sched cl)\<lparr>m_stop := True\<rparr>, cl_stopper := Stop_threads\<rparr> else cl)"

definition autoStop_call :: "cluster \<Rightarrow> cluster" where
  "autoStop_call cl =
     (if cl_stopper cl = Not_called \<or> cl_stopper cl = Returned
      then cl\<lparr>cl_sched := (cl_sched cl)\<lparr>m_autoStop := True\<rparr>, cl_stopper := Auto_tasks,
              cl_open := (if m_autoStop (cl_sched cl) then cl_open cl else in_flight (cl_calls cl))\<rparr> else cl)"

subsection \<open>Scheduling a task\<close>

text \<open>
  \<^verbatim>\<open>scheduleNoLock\<close> tests the task and \<^verbatim>\<open>m_autoStop\<close> and then hands the task to the pool, without a lock around the two;
  \<^verbatim>\<open>schedule\<close> wakes a worker afterwards in any case.
\<close>

definition schedule_test :: "task_coro20 \<Rightarrow> sched \<Rightarrow> sched_call" where
  "schedule_test t s = (if isFinished (coro_done s) t \<or> m_autoStop s then Tickling else Allocating t)"

fun schedule_step :: "sched_call \<Rightarrow> sched \<Rightarrow> failure + (sched_call option \<times> sched)" where
  "schedule_step (Allocating t) s =
     (if isFinished (coro_done s) t then Inl AssertionFailed
      else (case taskAlloc (fst (move_construct t)) (m_task_pool s) of
              Inl e \<Rightarrow> Inl e
            | Inr p \<Rightarrow> Inr (Some Tickling, s\<lparr>m_task_pool := p\<rparr>)))"
| "schedule_step Tickling s = Inr (None, tickle s)"

definition advance_call :: "nat \<Rightarrow> sched_call option \<Rightarrow> sched_call list \<Rightarrow> sched_call list" where
  "advance_call k c cs = (case c of Some d \<Rightarrow> cs[k := d] | None \<Rightarrow> take k cs @ drop (Suc k) cs)"

text \<open>Done without interruption, the points are the call of \<^verbatim>\<open>schedule\<close> that the scheduler's own theory has.\<close>

lemma schedule_uninterrupted:
  "schedule t s =
     (case schedule_test t s of
        Tickling \<Rightarrow> map_sum id snd (schedule_step Tickling s)
      | c \<Rightarrow> (case schedule_step c s of Inl e \<Rightarrow> Inl e | Inr (d, s') \<Rightarrow> map_sum id snd (schedule_step (the d) s')))"
  by (simp add: schedule_def scheduleNoLock_def schedule_test_def split: sum.split)

subsection \<open>All threads\<close>

datatype cl_op = Worker nat ep_result | Stopper | Stop_call | AutoStop_call | Schedule task_coro20 | Calling nat

text \<open>The task a worker takes up with its next step.\<close>

fun next_task :: "worker \<Rightarrow> task_coro20 multiset" where
  "next_task (At_run (t # ts)) = {#t#}"
| "next_task w = {#}"

fun cl_step :: "(action \<Rightarrow> sched \<Rightarrow> sched) \<Rightarrow> (nat \<Rightarrow> bool) \<Rightarrow> callback \<Rightarrow> cl_op \<Rightarrow> cluster \<Rightarrow> (failure + cluster) option" where
  "cl_step user ends cb (Worker i r) cl =
     (case worker_step user ends cb r (cl_workers cl) (cl_workers cl ! i) (cl_sched cl) (cl_iom cl) (cl_eventfd cl) of
        None \<Rightarrow> None
      | Some (Inl e) \<Rightarrow> Some (Inl e)
      | Some (Inr (w, s, io, c)) \<Rightarrow>
          Some (Inr (cl\<lparr>cl_sched := s, cl_iom := io, cl_eventfd := c, cl_workers := (cl_workers cl)[i := w],
                        cl_started := cl_started cl + next_task (cl_workers cl ! i)\<rparr>)))"
| "cl_step user ends cb Stopper cl =
     (let (p, s) = stop_step (cl_workers cl) (cl_stopper cl) (cl_sched cl)
      in case tickle_times (tickles s - tickles (cl_sched cl)) (cl_eventfd cl) of
           Inl e \<Rightarrow> Some (Inl e)
         | Inr c \<Rightarrow> Some (Inr (cl\<lparr>cl_sched := s, cl_stopper := p, cl_eventfd := c\<rparr>)))"
| "cl_step user ends cb Stop_call cl = Some (Inr (stop_call cl))"
| "cl_step user ends cb AutoStop_call cl = Some (Inr (autoStop_call cl))"
| "cl_step user ends cb (Schedule t) cl = Some (Inr (cl\<lparr>cl_calls := cl_calls cl @ [schedule_test t (cl_sched cl)]\<rparr>))"
| "cl_step user ends cb (Calling k) cl =
     (case schedule_step (cl_calls cl ! k) (cl_sched cl) of
        Inl e \<Rightarrow> Some (Inl e)
      | Inr (d, s) \<Rightarrow>
          (case tickle_times (tickles s - tickles (cl_sched cl)) (cl_eventfd cl) of
             Inl e \<Rightarrow> Some (Inl e)
           | Inr c \<Rightarrow> Some (Inr (cl\<lparr>cl_sched := s, cl_eventfd := c, cl_calls := advance_call k d (cl_calls cl),
               cl_accepted := cl_accepted cl + (pool_tasks (m_task_pool s) - pool_tasks (m_task_pool (cl_sched cl)))\<rparr>))))"

fun cl_exec :: "(action \<Rightarrow> sched \<Rightarrow> sched) \<Rightarrow> (nat \<Rightarrow> bool) \<Rightarrow> callback \<Rightarrow> cl_op list \<Rightarrow> cluster \<Rightarrow> (failure + cluster) option" where
  "cl_exec user ends cb [] cl = Some (Inr cl)"
| "cl_exec user ends cb (a # as) cl =
     (case cl_step user ends cb a cl of None \<Rightarrow> None | Some (Inl e) \<Rightarrow> Some (Inl e) | Some (Inr cl') \<Rightarrow> cl_exec user ends cb as cl')"

text \<open>The constructor of an IO manager with \<open>n\<close> threads and the eventfd \<open>efd\<close>.\<close>

definition cluster_new :: "nat \<Rightarrow> int \<Rightarrow> failure + cluster" where
  "cluster_new n efd =
     (case IOManager_new efd of
        Inl e \<Rightarrow> Inl e
      | Inr io \<Rightarrow>
          (case Scheduler_start (Scheduler_new n) of
             Inl e \<Rightarrow> Inl e
           | Inr s \<Rightarrow> Inr \<lparr>cl_sched = s, cl_iom = io, cl_eventfd = 0, cl_workers = replicate n At_loop, cl_stopper = Not_called,
               cl_calls = [], cl_accepted = {#}, cl_started = {#}, cl_open = {#}\<rparr>))"

text \<open>
  Workers and calls that exist, a pool that stays below \<open>2\<^sup>32\<close> tasks, and a task whose coroutine does not end between the
  tests and the assertion in \<^verbatim>\<open>scheduleNoLock\<close>.
\<close>

fun cl_ok :: "cl_op \<Rightarrow> cluster \<Rightarrow> bool" where
  "cl_ok (Worker i r) cl = (i < length (cl_workers cl))"
| "cl_ok (Calling k) cl =
     (k < length (cl_calls cl) \<and>
      (case cl_calls cl ! k of
         Allocating t \<Rightarrow> size (pool_tasks (m_task_pool (cl_sched cl))) + 1 < 2 ^ 32 \<and> \<not> isFinished (coro_done (cl_sched cl)) t
       | Tickling \<Rightarrow> True))"
| "cl_ok a cl = True"

inductive cl_reach ::
  "(action \<Rightarrow> sched \<Rightarrow> sched) \<Rightarrow> (nat \<Rightarrow> bool) \<Rightarrow> callback \<Rightarrow> nat \<Rightarrow> int \<Rightarrow> cluster \<Rightarrow> bool"
  for user ends cb n efd where
  start: "cluster_new n efd = Inr cl \<Longrightarrow> cl_reach user ends cb n efd cl"
| step: "cl_reach user ends cb n efd cl \<Longrightarrow> cl_ok a cl \<Longrightarrow> cl_step user ends cb a cl = Some (Inr cl') \<Longrightarrow> cl_reach user ends cb n efd cl'"

subsection \<open>What a step does\<close>

text \<open>Tasks act on the scheduler only by scheduling and by what they compute.\<close>

definition user_ok :: "(action \<Rightarrow> sched \<Rightarrow> sched) \<Rightarrow> bool" where
  "user_ok user \<longleftrightarrow> (\<forall>a s. m_task_pool (user a s) = m_task_pool s \<and> m_stop (user a s) = m_stop s \<and> m_autoStop (user a s) = m_autoStop s \<and>
     m_threads_count (user a s) = m_threads_count s \<and> m_threads (user a s) = m_threads s \<and> tickles (user a s) = tickles s)"

fun in_batch :: "worker \<Rightarrow> task_coro20 multiset" where
  "in_batch (At_run ts) = mset ts"
| "in_batch w = {#}"

definition in_hand :: "worker list \<Rightarrow> task_coro20 multiset" where
  "in_hand ws = sum_list (map in_batch ws)"

definition batch_ok :: "worker \<Rightarrow> bool" where
  "batch_ok w \<longleftrightarrow> (case w of At_run ts \<Rightarrow> length ts \<le> 15 | _ \<Rightarrow> True)"

definition running :: "worker list \<Rightarrow> nat" where
  "running ws = length (filter (\<lambda>w. w \<noteq> Has_left) ws)"

abbreviation pool_of :: "sched \<Rightarrow> task_coro20 multiset" where
  "pool_of s \<equiv> pool_tasks (m_task_pool s)"

lemma in_hand_update: "i < length ws \<Longrightarrow> in_hand (ws[i := w]) + in_batch (ws ! i) = in_hand ws + in_batch w"
  unfolding in_hand_def by (induction ws arbitrary: i) (auto simp: ac_simps split: nat.split)

lemma running_update:
  "i < length ws \<Longrightarrow> running (ws[i := w]) + (if ws ! i \<noteq> Has_left then 1 else 0) = running ws + (if w \<noteq> Has_left then 1 else 0)"
proof (induction ws arbitrary: i)
  case (Cons v ws)
  show ?case
  proof (cases i)
    case (Suc j)
    then have "running (ws[j := w]) + (if ws ! j \<noteq> Has_left then 1 else 0) = running ws + (if w \<noteq> Has_left then 1 else 0)"
      using Cons by simp
    then show ?thesis using Suc by (simp add: running_def split: if_splits)
  qed (simp add: running_def)
qed simp

lemma running_le: "running ws \<le> length ws"
  by (simp add: running_def)

lemma running_0: "running ws = 0 \<longleftrightarrow> (\<forall>w \<in> set ws. w = Has_left)"
  by (auto simp: running_def filter_empty_conv)

lemma in_hand_left: "running ws = 0 \<Longrightarrow> in_hand ws = {#}"
  unfolding running_0 in_hand_def by (induction ws) auto

lemma run_one:
  assumes "user_ok user"
  shows "\<exists>s'. run_work user ends [t] s = Inr s' \<and> m_task_pool s' = m_task_pool s \<and> m_stop s' = m_stop s \<and> m_autoStop s' = m_autoStop s \<and>
    m_threads_count s' = m_threads_count s \<and> m_threads s' = m_threads s \<and> tickles s' = tickles s"
proof (cases "runnable (coro_done s) t")
  case True
  then obtain t' where "start (coro_done s) t = Inr (Some (action_of t), t')" using start_runnable by blast
  then have "run_work user ends [t] s = Inr (run_action user ends (action_of t) s)" using True by (simp add: runnable_def)
  then show ?thesis using assms by (simp add: user_ok_def run_action_def)
qed (auto simp: runnable_def)

text \<open>Every point of \<^verbatim>\<open>run\<close> moves on, no task is lost, and the thread count drops exactly when the worker leaves.\<close>

definition step_effect :: "worker \<Rightarrow> sched \<Rightarrow> worker \<Rightarrow> sched \<Rightarrow> bool" where
  "step_effect w s w' s' \<longleftrightarrow> pool_inv (m_task_pool s') \<and> pool_of s + in_batch w = pool_of s' + in_batch w' + next_task w \<and>
     m_stop s' = m_stop s \<and> m_autoStop s' = m_autoStop s \<and> m_threads s' = m_threads s \<and> (w = Has_left \<longrightarrow> w' = Has_left) \<and>
     m_threads_count s' = m_threads_count s - (if w \<noteq> Has_left \<and> w' = Has_left then 1 else 0) \<and> pool_of s' \<subseteq># pool_of s \<and>
     tickles s' - tickles s \<le> 1 \<and> (batch_ok w \<longrightarrow> batch_ok w')"

lemma run_step_effect:
  assumes "user_ok user" and "pool_inv (m_task_pool s)" and "size (pool_of s) < 2 ^ 32"
  shows "\<exists>w' s'. run_step user ends ws w s = Some (Inr (w', s')) \<and> step_effect w s w' s'"
proof (cases w)
  case At_body
  obtain ts p where "fetch [] (m_task_pool s) = Some (Inr (ts, p))" "pool_inv p" "pool_of s = mset ts + pool_tasks p" "length ts \<le> 15"
    using fetch_finds [OF assms(2,3), of "[]"] by auto
  then show ?thesis using At_body by (simp add: Let_def step_effect_def batch_ok_def tickle_def)
next
  case (At_run ts)
  show ?thesis
  proof (cases ts)
    case (Cons t us)
    obtain s' where "run_work user ends [t] s = Inr s'" "m_task_pool s' = m_task_pool s" "m_stop s' = m_stop s" "m_autoStop s' = m_autoStop s"
      "m_threads_count s' = m_threads_count s" "m_threads s' = m_threads s" "tickles s' = tickles s"
      using run_one [OF assms(1)] by blast
    then show ?thesis using At_run Cons assms(2) by (simp add: step_effect_def batch_ok_def del: run_work.simps)
  qed (use At_run assms(2) in \<open>simp add: step_effect_def batch_ok_def\<close>)
next
  case At_more
  then show ?thesis using assms(2) by (auto simp: step_effect_def batch_ok_def idle_enter_def)
qed (use assms(2) in \<open>auto simp: step_effect_def batch_ok_def leave_run_def split: if_splits\<close>)

lemma idle_effect:
  assumes "IOManager_idle cb r s io c = Some (Inr (w', s', io', c'))" and "pool_inv (m_task_pool s)"
  shows "step_effect In_wait s w' s'"
  using assms by (auto simp: IOManager_idle_def idle_events_def step_effect_def batch_ok_def idle_enter_def idle_leave_def
      split: ep_result.splits if_splits option.splits bool.splits)

lemma worker_step_effect:
  assumes "worker_step user ends cb r ws w s io c = Some (Inr (w', s', io', c'))" and "user_ok user" and "pool_inv (m_task_pool s)"
    and "size (pool_of s) < 2 ^ 32"
  shows "step_effect w s w' s'"
proof (cases "w = In_wait")
  case True
  then show ?thesis using assms(1) idle_effect [OF _ assms(3)] by (auto simp: worker_step_def)
next
  case False
  obtain w1 s1 where "run_step user ends ws w s = Some (Inr (w1, s1))" "step_effect w s w1 s1" using run_step_effect [OF assms(2-4)] by blast
  then show ?thesis using assms(1) False by (auto simp: worker_step_def split: sum.splits)
qed

subsection \<open>The invariant\<close>

definition cl_inv :: "nat \<Rightarrow> cluster \<Rightarrow> bool" where
  "cl_inv n cl \<longleftrightarrow>
     (let s = cl_sched cl; ws = cl_workers cl
      in length ws = n \<and> pool_inv (m_task_pool s) \<and> size (pool_of s) < 2 ^ 32 \<and> m_threads_count s = of_nat (running ws) \<and> m_threads s \<le> n \<and>
         cl_accepted cl = pool_of s + in_hand ws + cl_started cl \<and>
         (m_autoStop s \<longrightarrow> in_flight (cl_calls cl) \<subseteq># cl_open cl) \<and>
         (m_autoStop s \<and> cl_stopper cl \<noteq> Not_called \<and> cl_stopper cl \<noteq> Auto_tasks \<longrightarrow> pool_of s + in_flight (cl_calls cl) \<subseteq># cl_open cl) \<and>
         (cl_stopper cl = Not_called \<longrightarrow> \<not> m_autoStop s) \<and>
         ((\<exists>i. cl_stopper cl = Joining i) \<or> cl_stopper cl = Returned \<longrightarrow> running ws = 0) \<and>
         (cl_stopper cl = Returned \<longrightarrow> m_threads s = 0) \<and> (\<forall>w \<in> set ws. batch_ok w))"

lemma no_threads: "n < 2 ^ 64 \<Longrightarrow> cl_inv n cl \<Longrightarrow> m_threads_count (cl_sched cl) = 0 \<longleftrightarrow> running (cl_workers cl) = 0"
proof -
  assume n: "n < 2 ^ 64" and i: "cl_inv n cl"
  then have "running (cl_workers cl) < 2 ^ 64" using running_le [of "cl_workers cl"] by (auto simp: cl_inv_def Let_def)
  then have "unat (of_nat (running (cl_workers cl)) :: u64) = running (cl_workers cl)" by (simp add: unsigned_of_nat take_bit_nat_eq_self)
  then show ?thesis using i by (auto simp: cl_inv_def Let_def unat_eq_0 [symmetric] simp del: unat_eq_0)
qed

lemma worker_inv:
  assumes "cl_inv n cl" and "user_ok user" and "i < length (cl_workers cl)" and "cl_step user ends cb (Worker i r) cl = Some (Inr cl')"
  shows "cl_inv n cl'"
proof -
  let ?s = "cl_sched cl" and ?ws = "cl_workers cl"
  have I: "length ?ws = n" "pool_inv (m_task_pool ?s)" "size (pool_of ?s) < 2 ^ 32" "m_threads_count ?s = of_nat (running ?ws)"
    "cl_accepted cl = pool_of ?s + in_hand ?ws + cl_started cl" using assms(1) by (simp_all add: cl_inv_def Let_def)
  obtain w s io c where st: "worker_step user ends cb r ?ws (?ws ! i) ?s (cl_iom cl) (cl_eventfd cl) = Some (Inr (w, s, io, c))"
    and cl': "cl' = cl\<lparr>cl_sched := s, cl_iom := io, cl_eventfd := c, cl_workers := ?ws[i := w], cl_started := cl_started cl + next_task (?ws ! i)\<rparr>"
    using assms(4) by (auto split: option.splits sum.splits)
  have e: "step_effect (?ws ! i) ?s w s" by (rule worker_step_effect [OF st assms(2) I(2,3)])
  have run: "running (?ws[i := w]) = running ?ws - (if ?ws ! i \<noteq> Has_left \<and> w = Has_left then 1 else 0)"
    using running_update [OF assms(3), of w] e by (auto simp: step_effect_def split: if_splits)
  have pos: "0 < running ?ws" if "?ws ! i \<noteq> Has_left" using that running_0 [of ?ws] nth_mem [OF assms(3)] by (metis gr0I)
  have cnt: "m_threads_count s = of_nat (running (?ws[i := w]))"
    using e I(4) run pos by (auto simp: step_effect_def of_nat_diff split: if_splits)
  have "pool_of s + in_hand (?ws[i := w]) + (next_task (?ws ! i) + in_batch (?ws ! i)) =
      (pool_of s + in_batch w + next_task (?ws ! i)) + in_hand ?ws"
    using in_hand_update [OF assms(3), of w] by (simp add: ac_simps)
  also have "\<dots> = pool_of ?s + in_hand ?ws + in_batch (?ws ! i)" using e by (simp add: step_effect_def ac_simps)
  finally have acc: "pool_of s + in_hand (?ws[i := w]) + next_task (?ws ! i) = pool_of ?s + in_hand ?ws" by (simp add: ac_simps)
  have "cl_accepted cl' = pool_of s + in_hand (?ws[i := w]) + cl_started cl'" using I(5) acc cl' by (simp add: ac_simps)
  moreover have "size (pool_of s) < 2 ^ 32" using e I(3) size_mset_mono [of "pool_of s" "pool_of ?s"] by (simp add: step_effect_def)
  moreover have "\<forall>v \<in> set (?ws[i := w]). batch_ok v"
  proof -
    have "\<forall>v \<in> set ?ws. batch_ok v" using assms(1) by (simp add: cl_inv_def Let_def)
    moreover from this have "batch_ok w" using e nth_mem [OF assms(3)] by (simp add: step_effect_def)
    ultimately show ?thesis using set_update_subset_insert [of ?ws i w] by blast
  qed
  moreover have "running ?ws = 0 \<Longrightarrow> running (?ws[i := w]) = 0" using run by simp
  moreover have "pool_of ?s + C \<subseteq># D \<Longrightarrow> pool_of s + C \<subseteq># D" for C D
    using e subset_mset.order_trans [OF subset_mset.add_right_mono] unfolding step_effect_def by blast
  moreover have "pool_inv (m_task_pool s)" "m_autoStop s = m_autoStop ?s" "m_threads s = m_threads ?s" using e by (simp_all add: step_effect_def)
  ultimately show ?thesis using assms(1) cnt unfolding cl' cl_inv_def Let_def by simp
qed

lemma stopper_inv:
  assumes "cl_inv n cl" and "n < 2 ^ 64" and "cl_step user ends cb Stopper cl = Some (Inr cl')"
  shows "cl_inv n cl'"
proof -
  note z = no_threads [OF assms(2,1)]
  have e: "pool_of (cl_sched cl) = {#}" if "getTaskCount (m_task_pool (cl_sched cl)) = 0"
    using assms(1) count_pos that by (auto simp: cl_inv_def Let_def)
  obtain p s c where st: "stop_step (cl_workers cl) (cl_stopper cl) (cl_sched cl) = (p, s)"
    and cl': "cl' = cl\<lparr>cl_sched := s, cl_stopper := p, cl_eventfd := c\<rparr>"
    using assms(3) by (cases "stop_step (cl_workers cl) (cl_stopper cl) (cl_sched cl)") (auto split: sum.splits)
  show ?thesis
    unfolding cl' using assms(1) st z e
    by (cases "cl_stopper cl"; simp add: cl_inv_def Let_def split: if_splits) (auto simp: tickle_def)
qed

lemma in_flight_append: "in_flight (cs @ ds) = in_flight cs + in_flight ds"
  by (simp add: in_flight_def)

lemma in_flight_advance:
  assumes "k < length cs"
  shows "in_flight cs = in_flight (advance_call k None cs) + in_call (cs ! k)"
    and "in_flight (advance_call k (Some d) cs) + in_call (cs ! k) = in_flight cs + in_call d"
proof -
  have c: "cs = take k cs @ cs ! k # drop (Suc k) cs" "cs[k := d] = take k cs @ d # drop (Suc k) cs"
    using id_take_nth_drop [OF assms] upd_conv_take_nth_drop [OF assms] by simp_all
  have "in_flight cs = in_flight (take k cs) + in_call (cs ! k) + in_flight (drop (Suc k) cs)"
    by (subst c(1), simp only: in_flight_append) (simp add: in_flight_def ac_simps)
  moreover have "in_flight (cs[k := d]) = in_flight (take k cs) + in_call d + in_flight (drop (Suc k) cs)"
    by (subst c(2), simp only: in_flight_append) (simp add: in_flight_def ac_simps)
  ultimately show "in_flight cs = in_flight (advance_call k None cs) + in_call (cs ! k)"
    "in_flight (advance_call k (Some d) cs) + in_call (cs ! k) = in_flight cs + in_call d"
    by (simp_all add: advance_call_def in_flight_append ac_simps)
qed

lemma schedule_inv: "cl_inv n cl \<Longrightarrow> cl_inv n (cl\<lparr>cl_calls := cl_calls cl @ [schedule_test t (cl_sched cl)]\<rparr>)"
  by (auto simp: cl_inv_def Let_def in_flight_append schedule_test_def in_flight_def)

text \<open>A call that reaches the pool moves its task there; the last point only writes the eventfd.\<close>

lemma calling_step:
  assumes "cl_inv n cl" and "cl_ok (Calling k) cl"
  obtains (alloc) t p where "cl_calls cl ! k = Allocating t" "taskAlloc t (m_task_pool (cl_sched cl)) = Inr p" "pool_inv p"
      "pool_tasks p = add_mset t (pool_of (cl_sched cl))" "size (pool_of (cl_sched cl)) + 1 < 2 ^ 32"
      "cl_step user ends cb (Calling k) cl = Some (Inr (cl\<lparr>cl_sched := (cl_sched cl)\<lparr>m_task_pool := p\<rparr>,
         cl_calls := advance_call k (Some Tickling) (cl_calls cl), cl_accepted := cl_accepted cl + {#t#}\<rparr>))"
  | (wake) "cl_calls cl ! k = Tickling"
      "cl_step user ends cb (Calling k) cl =
         (case IOManager_tickle (cl_eventfd cl) of
            Inl e \<Rightarrow> Some (Inl e)
          | Inr c \<Rightarrow> Some (Inr (cl\<lparr>cl_sched := tickle (cl_sched cl), cl_eventfd := c, cl_calls := advance_call k None (cl_calls cl)\<rparr>)))"
proof (cases "cl_calls cl ! k")
  case (Allocating t)
  have pool: "pool_inv (m_task_pool (cl_sched cl))" using assms(1) by (simp add: cl_inv_def Let_def)
  obtain p where p: "taskAlloc t (m_task_pool (cl_sched cl)) = Inr p" "pool_inv p" "pool_tasks p = add_mset t (pool_of (cl_sched cl))"
    using taskAlloc_ok [OF pool, of t] by blast
  have m: "fst (move_construct t) = t" by (simp add: move_construct_def)
  show thesis by (rule alloc [OF Allocating p]) (use Allocating p m assms(2) in simp_all)
next
  case Tickling
  then show thesis using wake by (simp add: tickle_def split: sum.split)
qed

lemma calling_inv:
  assumes "cl_inv n cl" and "cl_ok (Calling k) cl" and "cl_step user ends cb (Calling k) cl = Some (Inr cl')"
  shows "cl_inv n cl'"
proof -
  have k: "k < length (cl_calls cl)" using assms(2) by simp
  show ?thesis using assms(1,2)
  proof (cases rule: calling_step [where user = user and ends = ends and cb = cb])
    case (alloc t p)
    have f: "in_flight (cl_calls cl) = add_mset t (in_flight (advance_call k (Some Tickling) (cl_calls cl)))"
      using in_flight_advance(2) [OF k, of Tickling] alloc(1) by simp
    have cl': "cl' = cl\<lparr>cl_sched := (cl_sched cl)\<lparr>m_task_pool := p\<rparr>, cl_calls := advance_call k (Some Tickling) (cl_calls cl),
        cl_accepted := cl_accepted cl + {#t#}\<rparr>" using assms(3) unfolding alloc(6) by simp
    have g: "add_mset t C \<subseteq># D \<Longrightarrow> C \<subseteq># D" for C D using subset_mset.order_trans [of C "add_mset t C" D] by simp
    show ?thesis using assms(1) alloc(3-5) f g unfolding cl' by (simp add: cl_inv_def Let_def ac_simps)
  next
    case wake
    have f: "in_flight (cl_calls cl) = in_flight (advance_call k None (cl_calls cl))"
      using in_flight_advance(1) [OF k] wake(1) by simp
    show ?thesis using assms(1,3) wake f by (auto simp: cl_inv_def Let_def tickle_def split: sum.splits)
  qed
qed

lemma cluster_new_inv:
  assumes "cluster_new n efd = Inr cl" and "0 < n" and "n < 2 ^ 31"
  shows "cl_inv n cl"
proof -
  have r: "running (replicate n At_loop) = n" "in_hand (replicate n At_loop) = {#}" by (induction n) (simp_all add: running_def in_hand_def)
  have u: "unat (of_nat n :: u64) = n" using assms(3) by (simp add: unsigned_of_nat take_bit_nat_eq_self)
  note p = TaskPool_new_inv [of "int n", where 'a = task_coro20]
  show ?thesis using assms r u p
    by (auto simp: cluster_new_def cl_inv_def Let_def batch_ok_def Scheduler_start_def Scheduler_new_def split: sum.splits if_splits)
qed

lemma call_inv:
  assumes "cl_inv n cl"
  shows "cl_inv n (stop_call cl)" "cl_inv n (autoStop_call cl)"
  using assms unfolding cl_inv_def Let_def stop_call_def autoStop_call_def by (cases "cl_stopper cl"; simp)+

lemma cl_step_inv:
  assumes "cl_inv n cl" and "user_ok user" and "n < 2 ^ 31" and "cl_ok a cl" and "cl_step user ends cb a cl = Some (Inr cl')"
  shows "cl_inv n cl'"
proof (cases a)
  case (Worker i r)
  then show ?thesis using worker_inv [OF assms(1,2)] assms(4,5) by simp
next
  case Stopper
  then show ?thesis using stopper_inv [OF assms(1)] assms(3,5) by simp
next
  case (Schedule t)
  then show ?thesis using schedule_inv [OF assms(1)] assms(5) by auto
next
  case (Calling k)
  then show ?thesis using calling_inv [OF assms(1)] assms(4,5) by simp
qed (use assms(5) call_inv [OF assms(1)] in auto)

lemma cl_reach_inv:
  assumes "user_ok user" and "0 < n" and "n < 2 ^ 31"
  shows "cl_reach user ends cb n efd cl \<Longrightarrow> cl_inv n cl"
  by (induction rule: cl_reach.induct) (use cluster_new_inv [OF _ assms(2,3)] cl_step_inv [OF _ assms(1,3)] in blast)+


subsection \<open>Stopping ends\<close>

text \<open>How far a worker is from its end after \<^verbatim>\<open>stop\<close> was called; a batch has at most 15 tasks.\<close>

fun rank :: "worker \<Rightarrow> nat" where
  "rank Has_left = 0"
| "rank In_exit = 1"
| "rank At_exit = 2"
| "rank At_loop = 3"
| "rank At_decide = 3"
| "rank To_wait = 4"
| "rank In_wait = 4"
| "rank At_more = 5"
| "rank (At_run ts) = length ts + 4"
| "rank At_body = 20"

definition ranks :: "worker list \<Rightarrow> nat" where
  "ranks ws = sum_list (map rank ws)"

text \<open>A step of worker \<open>i\<close> in which \<^verbatim>\<open>epoll_wait\<close>, when the worker is inside it, reports the eventfd.\<close>

definition wakes :: "int \<Rightarrow> nat \<Rightarrow> cl_op \<Rightarrow> bool" where
  "wakes efd i a \<longleftrightarrow> (case a of Worker j (Ep_events evs) \<Rightarrow> j = i \<and> efd \<in> fst ` set evs | _ \<Rightarrow> False)"

definition is_step :: "nat \<Rightarrow> cl_op \<Rightarrow> bool" where
  "is_step i a \<longleftrightarrow> (case a of Worker j r \<Rightarrow> j = i | _ \<Rightarrow> False)"

fun twice :: "bool list \<Rightarrow> bool" where
  "twice (a # b # bs) \<longleftrightarrow> a \<and> b \<or> twice (b # bs)"
| "twice _ \<longleftrightarrow> False"

text \<open>
  What makes a stretch of a run fair to worker \<open>i\<close>: somewhere in it the worker makes two steps, with any steps of other
  threads before, between and after them, at which the eventfd is reported to it if it is inside \<^verbatim>\<open>epoll_wait\<close>. One step
  may only take the lock; the other then finds the eventfd.
\<close>

definition woken :: "int \<Rightarrow> nat \<Rightarrow> cl_op list \<Rightarrow> bool" where
  "woken efd i as \<longleftrightarrow> twice (map (wakes efd i) (filter (is_step i) as))"

text \<open>Steps whose waits report nothing but the eventfd: no descriptor has callbacks pending.\<close>

definition plain :: "int \<Rightarrow> cl_op \<Rightarrow> bool" where
  "plain efd a \<longleftrightarrow>
     (case a of Worker i r \<Rightarrow> (case r of Ep_events evs \<Rightarrow> fst ` set evs \<subseteq> {efd} | _ \<Rightarrow> True)
      | Stop_call \<Rightarrow> False | AutoStop_call \<Rightarrow> False | _ \<Rightarrow> True)"

text \<open>A run of plain steps that are possible where they are made.\<close>

fun plain_run :: "(action \<Rightarrow> sched \<Rightarrow> sched) \<Rightarrow> (nat \<Rightarrow> bool) \<Rightarrow> callback \<Rightarrow> cl_op list \<Rightarrow> cluster \<Rightarrow> bool" where
  "plain_run user ends cb [] cl = True"
| "plain_run user ends cb (a # as) cl =
     (plain (m_eventFd (cl_iom cl)) a \<and> cl_ok a cl \<and>
      (case cl_step user ends cb a cl of Some (Inr cl') \<Rightarrow> plain_run user ends cb as cl' | _ \<Rightarrow> True))"

lemma handle_eventfd: "fst ` set evs \<subseteq> {m_eventFd io} \<Longrightarrow> handle_events cb evs got io = Some (None, got \<or> evs \<noteq> [], io)"
  by (induction evs arbitrary: got) auto

lemma idle_plain:
  "fst ` set evs \<subseteq> {m_eventFd io} \<Longrightarrow> idle_events cb evs s io c =
     Some (Inr (if evs \<noteq> [] then (At_loop, idle_leave s, io, 0) else (To_wait, idle_enter (idle_leave s), io, c)))"
  by (simp add: idle_events_def handle_eventfd)

lemma tickle_once: "k \<le> 1 \<Longrightarrow> c < 2 ^ 64 - 2 \<Longrightarrow> tickle_times k c = Inr (c + k)"
  by (cases k) (simp_all add: IOManager_tickle_def)

text \<open>What a step does to a worker once \<^verbatim>\<open>m_stop\<close> is set: \<open>wk\<close> says whether the eventfd was reported.\<close>

definition advance :: "worker list \<Rightarrow> bool \<Rightarrow> worker \<Rightarrow> worker \<Rightarrow> bool" where
  "advance ws wk w w' \<longleftrightarrow>
     (case w of
        Has_left \<Rightarrow> w' = Has_left
      | At_exit \<Rightarrow> w' = (if may_own ws then In_exit else At_exit)
      | To_wait \<Rightarrow> w' = (if may_share ws then In_wait else To_wait)
      | In_wait \<Rightarrow> w' = At_loop \<or> \<not> wk \<and> w' = To_wait
      | _ \<Rightarrow> rank w' < rank w)"

lemma advance_rank: "advance ws wk w w' \<Longrightarrow> rank w' \<le> rank w"
  by (cases w) (auto simp: advance_def split: if_splits)

lemma run_step_advance:
  assumes "run_step user ends ws w s = Some (Inr (w', s'))" and "m_stop s" and "pool_inv (m_task_pool s)" and "size (pool_of s) < 2 ^ 32" and "w \<noteq> In_wait"
  shows "advance ws wk w w'"
proof (cases w)
  case At_body
  obtain ts p where "fetch [] (m_task_pool s) = Some (Inr (ts, p))" "length ts \<le> 15"
    using fetch_finds [OF assms(3,4), of "[]"] by auto
  then show ?thesis using At_body assms(1) by (auto simp: Let_def advance_def)
next
  case (At_run ts)
  show ?thesis
  proof (cases ts)
    case (Cons t us)
    then show ?thesis using At_run assms(1) by (cases "run_work user ends [t] s") (auto simp: advance_def simp del: run_work.simps)
  qed (use At_run assms(1) in \<open>simp add: advance_def\<close>)
qed (use assms in \<open>auto simp: advance_def split: if_splits\<close>)

text \<open>A plain step of a worker always succeeds and advances the worker.\<close>

lemma worker_step_live:
  assumes "user_ok user" and "m_stop s" and "pool_inv (m_task_pool s)" and "size (pool_of s) < 2 ^ 32" and "c < 2 ^ 64 - 2"
    and "plain (m_eventFd io) (Worker i r)"
  shows "\<exists>w' s' c'. worker_step user ends cb r ws w s io c = Some (Inr (w', s', io, c')) \<and> c' \<le> c + 1 \<and>
    advance ws (wakes (m_eventFd io) i (Worker i r)) w w'"
proof (cases "w = In_wait")
  case True
  then show ?thesis using assms(6) idle_plain [where evs = "[]"]
    by (cases r) (auto simp: worker_step_def IOManager_idle_def idle_plain wakes_def plain_def advance_def)
next
  case False
  obtain w' s' where r: "run_step user ends ws w s = Some (Inr (w', s'))" and e: "step_effect w s w' s'" using run_step_effect [OF assms(1,3,4)] by blast
  have t: "tickle_times (tickles s' - tickles s) c = Inr (c + (tickles s' - tickles s))" "tickles s' - tickles s \<le> 1"
    using tickle_once assms(5) e by (simp_all add: step_effect_def)
  have "worker_step user ends cb r ws w s io c = Some (Inr (w', s', io, c + (tickles s' - tickles s)))"
    using False r t(1) by (simp add: worker_step_def)
  then show ?thesis using t(2) run_step_advance [OF r assms(2-4) False] by auto
qed

definition stopping :: "cluster \<Rightarrow> bool" where
  "stopping cl \<longleftrightarrow> m_stop (cl_sched cl) \<and>
     (case cl_stopper cl of Stop_threads \<Rightarrow> True | Joining i \<Rightarrow> True | Returned \<Rightarrow> True | _ \<Rightarrow> False)"

text \<open>What one step and a whole run do to the workers.\<close>

definition moves :: "int \<Rightarrow> cl_op \<Rightarrow> worker list \<Rightarrow> worker list \<Rightarrow> bool" where
  "moves efd a ws ws' \<longleftrightarrow>
     (case a of Worker i r \<Rightarrow> i < length ws \<and> (\<exists>w. advance ws (wakes efd i a) (ws ! i) w \<and> ws' = ws[i := w]) | _ \<Rightarrow> ws' = ws)"

inductive traced :: "int \<Rightarrow> cl_op list \<Rightarrow> worker list \<Rightarrow> worker list \<Rightarrow> bool" for efd where
  none: "traced efd [] ws ws"
| more: "moves efd a ws ws1 \<Longrightarrow> traced efd as ws1 ws2 \<Longrightarrow> traced efd (a # as) ws ws2"

inductive_cases traced_cons: "traced efd (a # as) ws ws2"
inductive_cases traced_nil: "traced efd [] ws ws2"

definition nearer :: "nat \<Rightarrow> cl_op list \<Rightarrow> cluster \<Rightarrow> cluster \<Rightarrow> bool" where
  "nearer n as cl cl' \<longleftrightarrow> cl_inv n cl' \<and> stopping cl' \<and> cl_iom cl' = cl_iom cl \<and> cl_eventfd cl' \<le> cl_eventfd cl + length as \<and>
     traced (m_eventFd (cl_iom cl)) as (cl_workers cl) (cl_workers cl')"

lemma traced_one: "moves efd a ws ws' \<Longrightarrow> traced efd [a] ws ws'"
  by (blast intro: traced.intros)

lemma worker_live:
  assumes "user_ok user" and "n < 2 ^ 31" and "cl_inv n cl" and "stopping cl" and "plain (m_eventFd (cl_iom cl)) (Worker i r)"
    and "cl_ok (Worker i r) cl" and "cl_eventfd cl < 2 ^ 64 - 2"
  shows "\<exists>cl'. cl_step user ends cb (Worker i r) cl = Some (Inr cl') \<and> nearer n [Worker i r] cl cl'"
proof -
  let ?s = "cl_sched cl" and ?ws = "cl_workers cl" and ?io = "cl_iom cl"
  have I: "m_stop ?s" "pool_inv (m_task_pool ?s)" "size (pool_of ?s) < 2 ^ 32" "i < length ?ws"
    using assms(3,4,6) by (simp_all add: cl_inv_def Let_def stopping_def)
  obtain w s c where st: "worker_step user ends cb r ?ws (?ws ! i) ?s ?io (cl_eventfd cl) = Some (Inr (w, s, ?io, c))" "c \<le> cl_eventfd cl + 1"
    and k: "advance ?ws (wakes (m_eventFd ?io) i (Worker i r)) (?ws ! i) w"
    using worker_step_live [OF assms(1) I(1-3) assms(7,5)] by blast
  let ?cl = "cl\<lparr>cl_sched := s, cl_iom := ?io, cl_eventfd := c, cl_workers := ?ws[i := w], cl_started := cl_started cl + next_task (?ws ! i)\<rparr>"
  have e: "step_effect (?ws ! i) ?s w s" by (rule worker_step_effect [OF st(1) assms(1) I(2,3)])
  have step: "cl_step user ends cb (Worker i r) cl = Some (Inr ?cl)" using st(1) by simp
  have "cl_inv n ?cl" by (rule cl_step_inv [OF assms(3,1,2,6) step])
  moreover have "moves (m_eventFd ?io) (Worker i r) ?ws (?ws[i := w])" using k I(4) by (auto simp: moves_def)
  ultimately have "nearer n [Worker i r] cl ?cl" using e st(2) assms(4) by (auto simp: nearer_def stopping_def step_effect_def traced_one)
  then show ?thesis using step by blast
qed

lemma stopper_live:
  assumes "user_ok user" and "n < 2 ^ 31" and "cl_inv n cl" and "stopping cl" and "cl_eventfd cl < 2 ^ 64 - 2"
  shows "\<exists>cl'. cl_step user ends cb Stopper cl = Some (Inr cl') \<and> nearer n [Stopper] cl cl'"
proof -
  obtain p s where st: "stop_step (cl_workers cl) (cl_stopper cl) (cl_sched cl) = (p, s)" by fastforce
  have s: "m_stop s" "tickles s - tickles (cl_sched cl) \<le> 1" "m_task_pool s = m_task_pool (cl_sched cl)" "p \<in> {Stop_threads, Returned} \<union> range Joining"
    using st assms(4) by (cases "cl_stopper cl"; auto simp: stopping_def tickle_def split: if_splits)+
  then have t: "tickle_times (tickles s - tickles (cl_sched cl)) (cl_eventfd cl) = Inr (cl_eventfd cl + (tickles s - tickles (cl_sched cl)))"
    using tickle_once assms(5) by simp
  let ?cl = "cl\<lparr>cl_sched := s, cl_stopper := p, cl_eventfd := cl_eventfd cl + (tickles s - tickles (cl_sched cl))\<rparr>"
  have step: "cl_step user ends cb Stopper cl = Some (Inr ?cl)" using st t by simp
  have "cl_inv n ?cl" by (rule cl_step_inv [OF assms(3,1,2) _ step]) simp
  then have "nearer n [Stopper] cl ?cl" using s by (auto simp: nearer_def stopping_def moves_def traced_one)
  then show ?thesis using step by blast
qed

lemma schedule_live:
  assumes "cl_inv n cl" and "stopping cl"
  shows "\<exists>cl'. cl_step user ends cb (Schedule t) cl = Some (Inr cl') \<and> nearer n [Schedule t] cl cl'"
  using schedule_inv [OF assms(1)] assms(2) by (auto simp: nearer_def stopping_def moves_def traced_one)

lemma calling_live:
  assumes "cl_inv n cl" and "stopping cl" and "cl_ok (Calling k) cl" and "cl_eventfd cl < 2 ^ 64 - 2"
  shows "\<exists>cl'. cl_step user ends cb (Calling k) cl = Some (Inr cl') \<and> nearer n [Calling k] cl cl'"
proof -
  obtain cl' where step: "cl_step user ends cb (Calling k) cl = Some (Inr cl')" and
    "m_stop (cl_sched cl') = m_stop (cl_sched cl)" "cl_stopper cl' = cl_stopper cl" "cl_iom cl' = cl_iom cl" "cl_eventfd cl' \<le> cl_eventfd cl + 1"
    "cl_workers cl' = cl_workers cl"
    using assms(1,3) by (cases rule: calling_step [where user = user and ends = ends and cb = cb])
      (use assms(4) in \<open>auto simp: tickle_def IOManager_tickle_def\<close>)
  moreover have "cl_inv n cl'" by (rule calling_inv [OF assms(1,3) step])
  ultimately have "nearer n [Calling k] cl cl'" using assms(2) by (auto simp: nearer_def stopping_def moves_def traced_one)
  then show ?thesis using step by blast
qed

lemma plain_step_live:
  assumes "user_ok user" and "n < 2 ^ 31" and "cl_inv n cl" and "stopping cl" and "plain (m_eventFd (cl_iom cl)) a" and "cl_ok a cl"
    and "cl_eventfd cl < 2 ^ 64 - 2"
  shows "\<exists>cl'. cl_step user ends cb a cl = Some (Inr cl') \<and> nearer n [a] cl cl'"
  using worker_live [OF assms(1-4) _ _ assms(7)] stopper_live [OF assms(1-4,7)] schedule_live [OF assms(3,4)] calling_live [OF assms(3,4) _ assms(7)] assms(5,6)
  by (cases a) (simp_all add: plain_def del: cl_step.simps cl_ok.simps)

lemma nearer_trans: "nearer n [a] cl cl1 \<Longrightarrow> nearer n as cl1 cl2 \<Longrightarrow> nearer n (a # as) cl cl2"
  unfolding nearer_def by (auto elim!: traced_cons traced_nil intro: traced.more)

lemma plain_run_live:
  assumes "user_ok user" and "n < 2 ^ 31"
  shows "cl_inv n cl \<Longrightarrow> stopping cl \<Longrightarrow> plain_run user ends cb as cl \<Longrightarrow> cl_eventfd cl + length as < 2 ^ 64 - 1 \<Longrightarrow>
    \<exists>cl'. cl_exec user ends cb as cl = Some (Inr cl') \<and> nearer n as cl cl'"
proof (induction as arbitrary: cl)
  case (Cons a as)
  obtain cl1 where 1: "cl_step user ends cb a cl = Some (Inr cl1)" "nearer n [a] cl cl1"
    using plain_step_live [OF assms Cons.prems(1,2), of a ends cb] Cons.prems(3,4) by (auto simp del: cl_step.simps cl_ok.simps)
  have "\<exists>cl'. cl_exec user ends cb as cl1 = Some (Inr cl') \<and> nearer n as cl1 cl'"
    by (rule Cons.IH) (use 1 Cons.prems(3,4) in \<open>auto simp: nearer_def simp del: cl_step.simps cl_ok.simps\<close>)
  then show ?case using 1 nearer_trans by (auto simp del: cl_step.simps)
qed (simp add: nearer_def traced.none)

subsection \<open>Every fair stretch brings the workers nearer to their end\<close>

lemma ranks_update: "i < length ws \<Longrightarrow> ranks (ws[i := w]) + rank (ws ! i) = ranks ws + rank w"
  unfolding ranks_def by (induction ws arbitrary: i) (auto simp: ac_simps split: nat.split)

lemma moves_ranks: "moves efd a ws ws' \<Longrightarrow> ranks ws' \<le> ranks ws \<and> length ws' = length ws"
proof (cases a)
  case (Worker i r)
  assume "moves efd a ws ws'"
  then obtain w where w: "i < length ws" "rank w \<le> rank (ws ! i)" "ws' = ws[i := w]" using Worker by (auto simp: moves_def dest: advance_rank)
  then show ?thesis using ranks_update [OF w(1), of w] by simp
qed (auto simp: moves_def)

lemma traced_ranks: "traced efd as ws ws' \<Longrightarrow> ranks ws' \<le> ranks ws \<and> length ws' = length ws"
  by (induction rule: traced.induct) (auto dest!: moves_ranks)

text \<open>The points at which a step need not bring a worker nearer: waiting for \<^verbatim>\<open>m_mutex\<close> or in \<^verbatim>\<open>epoll_wait\<close>, or gone.\<close>

definition calm :: "worker \<Rightarrow> bool" where
  "calm w \<longleftrightarrow> w \<in> {To_wait, In_wait, At_exit, Has_left}"

definition waiting :: "worker \<Rightarrow> bool" where
  "waiting w \<longleftrightarrow> w \<in> {To_wait, In_wait}"

lemma idle_step:
  assumes "moves efd (Worker i r) ws ws'" and "ranks ws' = ranks ws"
  obtains w where "i < length ws" "ws' = ws[i := w]" "advance ws (wakes efd i (Worker i r)) (ws ! i) w" "rank w = rank (ws ! i)"
    "calm (ws ! i)" "calm w" "waiting w = waiting (ws ! i)" "waiting w \<or> w = ws ! i"
proof -
  obtain w where w: "i < length ws" "ws' = ws[i := w]" "advance ws (wakes efd i (Worker i r)) (ws ! i) w" using assms(1) by (auto simp: moves_def)
  moreover have "rank w = rank (ws ! i)" using ranks_update [OF w(1), of w] w(2) assms(2) by simp
  ultimately show thesis
    using that [of w] by (cases "ws ! i") (auto simp: advance_def calm_def waiting_def split: if_splits)
qed

text \<open>A stretch in which nobody gets nearer leaves alone every worker that could have moved.\<close>

lemma traced_calm:
  "traced efd as ws ws' \<Longrightarrow> ranks ws' = ranks ws \<Longrightarrow> j < length ws \<Longrightarrow> \<not> calm (ws ! j) \<Longrightarrow> filter (is_step j) as = []"
proof (induction rule: traced.induct)
  case (more a ws ws1 as ws2)
  have r: "ranks ws1 = ranks ws" "ranks ws2 = ranks ws1" using moves_ranks [OF more.hyps(1)] traced_ranks [OF more.hyps(2)] more.prems(1) by simp_all
  have "ws1 ! j = ws ! j \<and> \<not> is_step j a"
  proof (cases "\<exists>i r. a = Worker i r")
    case True
    then obtain i r where a: "a = Worker i r" by blast
    obtain w where "ws1 = ws[i := w]" "calm (ws ! i)" using idle_step [OF more.hyps(1) [unfolded a] r(1)] by blast
    then show ?thesis using more.prems(3) a by (cases "i = j") (simp_all add: is_step_def)
  next
    case False
    then show ?thesis using more.hyps(1) by (cases a) (auto simp: moves_def is_step_def)
  qed
  then show ?case using more.IH r(2) more.prems moves_ranks [OF more.hyps(1)] by simp
qed simp

text \<open>Where all are calm nobody holds the lock exclusively, so a worker that is woken twice gets out of its wait.\<close>

lemma calm_step:
  assumes "moves efd a ws ws'" and "ranks ws' = ranks ws" and "\<forall>w \<in> set ws. calm w"
  shows "\<forall>w \<in> set ws'. calm w" and "\<And>j. j < length ws \<Longrightarrow> waiting (ws' ! j) = waiting (ws ! j)"
    and "\<And>j. j < length ws \<Longrightarrow> is_step j a \<Longrightarrow> wakes efd j a \<Longrightarrow> ws ! j \<noteq> In_wait"
    and "\<And>j. j < length ws \<Longrightarrow> is_step j a \<Longrightarrow> ws ! j = To_wait \<Longrightarrow> ws' ! j = In_wait"
    and "\<And>j. j < length ws \<Longrightarrow> \<not> is_step j a \<Longrightarrow> ws' ! j = ws ! j"
    and "\<And>j. j < length ws \<Longrightarrow> is_step j a \<Longrightarrow> ws ! j = At_exit \<Longrightarrow> \<exists>w \<in> set ws. waiting w"
proof -
  have free: "In_exit \<notin> set ws" using assms(3) by (auto simp: calm_def)
  consider i r where "a = Worker i r" | "ws' = ws" "\<And>j. \<not> is_step j a" using assms(1) by (cases a) (auto simp: moves_def is_step_def)
  then have "(\<forall>w \<in> set ws'. calm w) \<and> (\<forall>j < length ws. waiting (ws' ! j) = waiting (ws ! j) \<and>
      (is_step j a \<and> wakes efd j a \<longrightarrow> ws ! j \<noteq> In_wait) \<and> (is_step j a \<and> ws ! j = To_wait \<longrightarrow> ws' ! j = In_wait) \<and>
      (\<not> is_step j a \<longrightarrow> ws' ! j = ws ! j) \<and> (is_step j a \<and> ws ! j = At_exit \<longrightarrow> (\<exists>w \<in> set ws. waiting w)))"
  proof cases
    case 1
    obtain w where w: "i < length ws" "ws' = ws[i := w]" "advance ws (wakes efd i a) (ws ! i) w" "rank w = rank (ws ! i)"
      "calm w" "waiting w = waiting (ws ! i)"
      using idle_step [OF assms(1) [unfolded 1] assms(2)] 1 by metis
    have "\<forall>v \<in> set ws'. calm v" using assms(3) w(2,5) set_update_subset_insert [of ws i w] by blast
    moreover have "is_step j a \<longleftrightarrow> j = i" for j using 1 by (auto simp: is_step_def)
    moreover have "\<exists>v \<in> set ws. waiting v" if "ws ! i = At_exit"
      using w(3,4) that free by (auto simp: advance_def may_own_def waiting_def split: if_splits)
    ultimately show ?thesis using w free by (auto simp: nth_list_update advance_def may_share_def)
  qed (use assms(3) in auto)
  then show "\<forall>w \<in> set ws'. calm w" "\<And>j. j < length ws \<Longrightarrow> waiting (ws' ! j) = waiting (ws ! j)"
    "\<And>j. j < length ws \<Longrightarrow> is_step j a \<Longrightarrow> wakes efd j a \<Longrightarrow> ws ! j \<noteq> In_wait"
    "\<And>j. j < length ws \<Longrightarrow> is_step j a \<Longrightarrow> ws ! j = To_wait \<Longrightarrow> ws' ! j = In_wait"
    "\<And>j. j < length ws \<Longrightarrow> \<not> is_step j a \<Longrightarrow> ws' ! j = ws ! j"
    "\<And>j. j < length ws \<Longrightarrow> is_step j a \<Longrightarrow> ws ! j = At_exit \<Longrightarrow> \<exists>w \<in> set ws. waiting w" by blast+
qed

lemma traced_woken:
  "traced efd as ws ws' \<Longrightarrow> ranks ws' = ranks ws \<Longrightarrow> \<forall>w \<in> set ws. calm w \<Longrightarrow> j < length ws \<Longrightarrow>
     (twice (map (wakes efd j) (filter (is_step j) as)) \<longrightarrow> \<not> waiting (ws ! j)) \<and>
     (\<forall>b bs. filter (is_step j) as = b # bs \<and> wakes efd j b \<longrightarrow> ws ! j \<noteq> In_wait)"
proof (induction rule: traced.induct)
  case (more a ws ws1 as ws2)
  have r: "ranks ws1 = ranks ws" "ranks ws2 = ranks ws1" "length ws1 = length ws"
    using moves_ranks [OF more.hyps(1)] traced_ranks [OF more.hyps(2)] more.prems(1) by simp_all
  note c = calm_step [OF more.hyps(1) r(1) more.prems(2)]
  have IH: "twice (map (wakes efd j) (filter (is_step j) as)) \<longrightarrow> \<not> waiting (ws1 ! j)"
    "\<forall>b bs. filter (is_step j) as = b # bs \<and> wakes efd j b \<longrightarrow> ws1 ! j \<noteq> In_wait"
    using more.IH [OF r(2) c(1)] more.prems(3) r(3) by auto
  show ?case
  proof (cases "is_step j a")
    case True
    have "\<not> waiting (ws ! j)" if t: "twice (map (wakes efd j) (a # filter (is_step j) as))"
    proof (cases "twice (map (wakes efd j) (filter (is_step j) as))")
      case True
      then show ?thesis using IH(1) c(2) more.prems(3) by simp
    next
      case False
      then obtain b bs where b: "filter (is_step j) as = b # bs" "wakes efd j a" "wakes efd j b"
        using t by (cases "filter (is_step j) as") auto
      then have "ws ! j \<noteq> In_wait" "ws ! j \<noteq> To_wait" using c(3,4) \<open>is_step j a\<close> more.prems(3) IH(2) by blast+
      then show ?thesis by (simp add: waiting_def)
    qed
    then show ?thesis using True c(3) more.prems(3) by auto
  next
    case False
    then show ?thesis using IH c(5) more.prems(3) by simp
  qed
qed simp

lemma traced_exit:
  "traced efd as ws ws' \<Longrightarrow> ranks ws' = ranks ws \<Longrightarrow> \<forall>w \<in> set ws. calm w \<Longrightarrow> \<forall>w \<in> set ws. \<not> waiting w \<Longrightarrow> j < length ws \<Longrightarrow>
     ws ! j = At_exit \<Longrightarrow> filter (is_step j) as = []"
proof (induction rule: traced.induct)
  case (more a ws ws1 as ws2)
  have r: "ranks ws1 = ranks ws" "ranks ws2 = ranks ws1" "length ws1 = length ws"
    using moves_ranks [OF more.hyps(1)] traced_ranks [OF more.hyps(2)] more.prems(1) by simp_all
  note c = calm_step [OF more.hyps(1) r(1) more.prems(2)]
  have "\<not> is_step j a" using c(6) more.prems(3-5) by blast
  moreover have "\<forall>w \<in> set ws1. \<not> waiting w" using c(2) more.prems(3) r(3) nth_mem [of _ ws] by (metis in_set_conv_nth)
  moreover have "ws1 ! j = At_exit" using c(5) more.prems(4,5) calculation(1) by simp
  ultimately show ?case using more.IH [OF r(2) c(1)] more.prems(4) r(3) by simp
qed simp

lemma round_progress:
  assumes "traced efd as ws ws'" and "\<forall>i < length ws. woken efd i as"
  shows "ranks ws' < ranks ws \<or> ranks ws' = 0"
proof (rule ccontr)
  assume n: "\<not> (ranks ws' < ranks ws \<or> ranks ws' = 0)"
  then have r: "ranks ws' = ranks ws" using traced_ranks [OF assms(1)] by simp
  have s: "filter (is_step j) as \<noteq> []" if "j < length ws" for j using assms(2) that by (auto simp: woken_def)
  have c: "\<forall>w \<in> set ws. calm w" using traced_calm [OF assms(1) r] s by (metis in_set_conv_nth)
  have w: "\<forall>w \<in> set ws. \<not> waiting w" using traced_woken [OF assms(1) r c] assms(2) by (auto simp: in_set_conv_nth woken_def)
  have "w = Has_left" if m: "w \<in> set ws" for w
  proof -
    obtain j where j: "j < length ws" "w = ws ! j" using m by (auto simp: in_set_conv_nth)
    then have "w \<noteq> At_exit" using traced_exit [OF assms(1) r c w j(1)] s [OF j(1)] by auto
    then show ?thesis using m c w by (auto simp: calm_def waiting_def)
  qed
  then have "\<forall>w \<in> set ws. rank w = 0" using rank.simps(1) by metis
  then have "ranks ws = 0" by (simp add: ranks_def)
  then show False using n r by simp
qed

lemma traced_append: "traced efd (as @ bs) ws ws' \<Longrightarrow> \<exists>ws1. traced efd as ws ws1 \<and> traced efd bs ws1 ws'"
proof (induction as arbitrary: ws)
  case (Cons a as)
  then obtain ws1 where "moves efd a ws ws1" "traced efd (as @ bs) ws1 ws'" by (auto elim: traced_cons)
  then show ?case using Cons.IH [of ws1] by (auto intro: traced.more)
qed (auto intro: traced.none)

lemma rounds_progress:
  "traced efd (concat rounds) ws ws' \<Longrightarrow> \<forall>as \<in> set rounds. \<forall>i < length ws. woken efd i as \<Longrightarrow> ranks ws' \<le> ranks ws - length rounds"
proof (induction rounds arbitrary: ws)
  case (Cons as rounds)
  obtain ws1 where 1: "traced efd as ws ws1" "traced efd (concat rounds) ws1 ws'" using traced_append Cons.prems(1) by fastforce
  have "ranks ws1 < ranks ws \<or> ranks ws1 = 0" using round_progress [OF 1(1)] Cons.prems(2) by simp
  moreover have "ranks ws' \<le> ranks ws1 - length rounds" using Cons.IH [OF 1(2)] Cons.prems(2) traced_ranks [OF 1(1)] by simp
  ultimately show ?case by auto
qed (auto elim: traced_nil)

lemma ranks_0: "ranks ws = 0 \<longleftrightarrow> running ws = 0"
proof -
  have "rank w = 0 \<longleftrightarrow> w = Has_left" for w by (cases w) simp_all
  then show ?thesis by (simp add: ranks_def running_0)
qed

lemma ranks_le: "\<forall>w \<in> set ws. batch_ok w \<Longrightarrow> ranks ws \<le> 20 * length ws"
proof (induction ws)
  case (Cons w ws)
  then have "rank w \<le> 20" by (cases w) (simp_all add: batch_ok_def)
  then show ?case using Cons by (simp add: ranks_def)
qed (simp add: ranks_def)

lemma joins:
  assumes "running (cl_workers cl) = 0" and "m_threads (cl_sched cl) \<le> length (cl_workers cl)"
    and "cl_stopper cl = Returned \<or> (\<exists>i. cl_stopper cl = Joining i \<and> m_threads (cl_sched cl) - i < k)"
  shows "\<exists>cl'. cl_exec user ends cb (replicate k Stopper) cl = Some (Inr cl') \<and> cl_stopper cl' = Returned \<and> cl_workers cl' = cl_workers cl"
  using assms
proof (induction k arbitrary: cl)
  case (Suc k)
  show ?case
  proof (cases "cl_stopper cl")
    case (Joining i)
    have "cl_workers cl ! i = Has_left" if "i < m_threads (cl_sched cl)"
      using Suc.prems(1,2) that nth_mem [of i "cl_workers cl"] by (auto simp: running_0)
    moreover have "\<exists>cl'. cl_exec user ends cb (replicate k Stopper) (cl\<lparr>cl_stopper := Joining (Suc i)\<rparr>) = Some (Inr cl') \<and> cl_stopper cl' = Returned \<and> cl_workers cl' = cl_workers cl"
      if "i < m_threads (cl_sched cl)" using Suc.IH [of "cl\<lparr>cl_stopper := Joining (Suc i)\<rparr>"] Suc.prems Joining that by auto
    moreover have "\<exists>cl'. cl_exec user ends cb (replicate k Stopper) (cl\<lparr>cl_sched := (cl_sched cl)\<lparr>m_threads := 0\<rparr>, cl_stopper := Returned\<rparr>) = Some (Inr cl') \<and> cl_stopper cl' = Returned \<and> cl_workers cl' = cl_workers cl"
      using Suc.IH [of "cl\<lparr>cl_sched := (cl_sched cl)\<lparr>m_threads := 0\<rparr>, cl_stopper := Returned\<rparr>"] Suc.prems by simp
    ultimately show ?thesis using Joining by (simp add: Let_def)
  next
    case Returned
    then show ?thesis using Suc.IH [of "cl\<lparr>cl_stopper := Returned\<rparr>"] Suc.prems by simp
  qed (use Suc.prems in auto)
qed auto

lemma stop_finishes:
  assumes "cl_inv n cl" and "stopping cl" and "n < 2 ^ 31" and "running (cl_workers cl) = 0"
  shows "\<exists>cl'. cl_exec user ends cb (replicate (n + 2) Stopper) cl = Some (Inr cl') \<and> cl_stopper cl' = Returned \<and> cl_workers cl' = cl_workers cl"
proof (cases "cl_stopper cl = Stop_threads")
  case True
  have "m_threads_count (cl_sched cl) = 0" using no_threads [of n cl] assms by simp
  moreover have "m_threads (cl_sched cl) \<le> n" "length (cl_workers cl) = n" using assms(1) by (simp_all add: cl_inv_def Let_def)
  ultimately show ?thesis using True assms(4) joins [of "cl\<lparr>cl_stopper := Joining 0\<rparr>" "n + 1" user ends cb] by (simp add: Let_def)
next
  case False
  have "m_threads (cl_sched cl) \<le> n" "length (cl_workers cl) = n" using assms(1) by (simp_all add: cl_inv_def Let_def)
  then show ?thesis using False assms(2,4) joins [of cl "n + 2" user ends cb] by (auto simp: stopping_def split: stopper.splits)
qed

lemma cl_exec_append:
  "cl_exec user ends cb (as @ bs) cl =
     (case cl_exec user ends cb as cl of None \<Rightarrow> None | Some (Inl e) \<Rightarrow> Some (Inl e) | Some (Inr cl') \<Rightarrow> cl_exec user ends cb bs cl')"
  by (induction as arbitrary: cl) (auto split: option.split sum.split)


text \<open>An IO manager with one thread, on which \<^verbatim>\<open>stop\<close> was called.\<close>

definition demo_stopped :: "iom \<Rightarrow> cluster" where
  "demo_stopped io =
     \<lparr>cl_sched = (Scheduler_new 1)\<lparr>m_threads := 1, m_stop := True\<rparr>, cl_iom = io, cl_eventfd = 0, cl_workers = [At_loop],
      cl_stopper = Stop_threads, cl_calls = [], cl_accepted = {#}, cl_started = {#}, cl_open = {#}\<rparr>"

lemma demo_started:
  obtains io where "m_eventFd io = 5"
    "cl_reach (\<lambda>a s. s) (\<lambda>h. True) (\<lambda>_. Inr []) 1 5
       \<lparr>cl_sched = (Scheduler_new 1)\<lparr>m_threads := 1\<rparr>, cl_iom = io, cl_eventfd = 0, cl_workers = [At_loop],
        cl_stopper = Not_called, cl_calls = [], cl_accepted = {#}, cl_started = {#}, cl_open = {#}\<rparr>"
proof -
  obtain io where io: "IOManager_new 5 = Inr io" "m_eventFd io = 5" using IOManager_new_ok [of 5] by auto
  have p: "getTaskCount (m_task_pool (Scheduler_new 1)) = 0" by (simp add: Scheduler_new_def TaskPool_new_def getTaskCount_def)
  have "Scheduler_start (Scheduler_new 1) = Inr ((Scheduler_new 1)\<lparr>m_threads := 1\<rparr>)" using p by (simp add: Scheduler_start_def) (simp add: Scheduler_new_def)
  then show thesis using that io by (simp add: cluster_new_def cl_reach.start)
qed

lemma demo_cluster:
  obtains io where "m_eventFd io = 5" "cl_reach (\<lambda>a s. s) (\<lambda>h. True) (\<lambda>_. Inr []) 1 5 (demo_stopped io)"
proof -
  let ?r = "cl_reach (\<lambda>a s. s) (\<lambda>h. True) (\<lambda>_. Inr []) 1 5"
  obtain io where io: "m_eventFd io = 5" and r: "?r \<lparr>cl_sched = (Scheduler_new 1)\<lparr>m_threads := 1\<rparr>, cl_iom = io, cl_eventfd = 0, cl_workers = [At_loop],
        cl_stopper = Not_called, cl_calls = [], cl_accepted = {#}, cl_started = {#}, cl_open = {#}\<rparr>" using demo_started .
  have "?r (demo_stopped io)" by (rule cl_reach.step [OF r, of Stop_call]) (simp_all add: stop_call_def demo_stopped_def)
  then show thesis using io that by blast
qed

text \<open>Two steps of the worker make a fair stretch; three of them already end it.\<close>

lemma demo_round: "woken 5 0 (replicate 2 (Worker 0 (Ep_events [(5, READ)])))"
  by (simp add: woken_def is_step_def wakes_def numeral_2_eq_2)

lemma demo_steps:
  "cl_step (\<lambda>a s. s) (\<lambda>h. True) (\<lambda>_. Inr []) (Worker 0 r) (demo_stopped io) = Some (Inr ((demo_stopped io)\<lparr>cl_workers := [At_exit]\<rparr>))"
  "cl_step (\<lambda>a s. s) (\<lambda>h. True) (\<lambda>_. Inr []) (Worker 0 r) ((demo_stopped io)\<lparr>cl_workers := [At_exit]\<rparr>) =
     Some (Inr ((demo_stopped io)\<lparr>cl_workers := [In_exit]\<rparr>))"
  "cl_step (\<lambda>a s. s) (\<lambda>h. True) (\<lambda>_. Inr []) (Worker 0 r) ((demo_stopped io)\<lparr>cl_workers := [In_exit]\<rparr>) =
     Some (Inr ((demo_stopped io)\<lparr>cl_sched := leave_run (cl_sched (demo_stopped io)), cl_workers := [Has_left]\<rparr>))"
  "cl_workers cl = [Has_left] \<Longrightarrow> cl_step (\<lambda>a s. s) (\<lambda>h. True) (\<lambda>_. Inr []) (Worker 0 r) cl = Some (Inr (cl :: cluster))"
  by (simp_all add: demo_stopped_def worker_step_def may_own_def leave_run_def)

lemma demo_run:
  assumes "m_eventFd io = 5"
  shows "plain_run (\<lambda>a s. s) (\<lambda>h. True) (\<lambda>_. Inr []) (replicate k (Worker 0 (Ep_events [(5, READ)]))) (demo_stopped io)"
proof -
  let ?w = "Worker 0 (Ep_events [(5, READ)])"
  let ?p = "plain_run (\<lambda>a s. s) (\<lambda>h. True) (\<lambda>_. Inr [])"
  have p: "plain 5 ?w" by (simp add: plain_def)
  have stay: "?p (replicate j ?w) cl" if "cl_workers cl = [Has_left]" "m_eventFd (cl_iom cl) = 5" for j and cl :: cluster
    using that p by (induction j) (simp_all add: demo_steps(4) del: cl_step.simps)
  have d: "cl_workers (demo_stopped io) = [At_loop]" "cl_iom (demo_stopped io) = io" by (simp_all add: demo_stopped_def)
  have "?p (replicate j ?w) ((demo_stopped io)\<lparr>cl_workers := [In_exit]\<rparr>)" for j
    using stay p assms d by (cases j) (simp_all add: demo_steps(3) del: cl_step.simps)
  then have "?p (replicate j ?w) ((demo_stopped io)\<lparr>cl_workers := [At_exit]\<rparr>)" for j
    using p assms d by (cases j) (simp_all add: demo_steps(2) del: cl_step.simps)
  then show ?thesis using p assms d by (cases k) (simp_all add: demo_steps(1) del: cl_step.simps)
qed



text \<open>
  A task can be left behind: its \<^verbatim>\<open>schedule\<close> has passed the tests, \<^verbatim>\<open>autoStop\<close> sets its flag, finds the pool empty and sees
  the worker leave, and only then does the task reach the pool. It is never started.
\<close>

lemma autoStop_leaves_task:
  "\<exists>cl. cl_reach (\<lambda>a s. s) (\<lambda>h. True) (\<lambda>_. Inr []) 1 5 cl \<and> cl_stopper cl = Returned \<and> m_autoStop (cl_sched cl) \<and>
     pool_tasks (m_task_pool (cl_sched cl)) = {#create_func (Some 7)#} \<and> cl_started cl = {#}"
proof -
  let ?r = "cl_reach (\<lambda>a s. s) (\<lambda>h. True) (\<lambda>_. Inr []) 1 5"
  let ?t = "create_func (Some 7)" and ?s0 = "(Scheduler_new 1)\<lparr>m_threads := 1\<rparr>"
  let ?s1 = "?s0\<lparr>m_autoStop := True\<rparr>"
  obtain io where r: "?r \<lparr>cl_sched = ?s0, cl_iom = io, cl_eventfd = 0, cl_workers = [At_loop],
        cl_stopper = Not_called, cl_calls = [], cl_accepted = {#}, cl_started = {#}, cl_open = {#}\<rparr>" using demo_started .
  let ?c = "\<lambda>s w st cs acc. \<lparr>cl_sched = s, cl_iom = io, cl_eventfd = 0, cl_workers = [w], cl_stopper = st, cl_calls = cs,
        cl_accepted = acc, cl_started = {#}, cl_open = {#?t#}\<rparr>"
  have p0: "pool_inv (m_task_pool ?s1)" "pool_of ?s1 = {#}" "getTaskCount (m_task_pool ?s1) = 0"
    using TaskPool_new_inv [of 1, where 'a = task_coro20] by (simp_all add: Scheduler_new_def getTaskCount_def TaskPool_new_def pool_tasks_def)
  obtain ts p where p: "fetch [] (m_task_pool ?s1) = Some (Inr (ts, p))" "pool_inv p" "pool_of ?s1 = mset ts + pool_tasks p"
    using fetch_finds [OF p0(1), of "[]"] p0(2) by auto
  then have e: "ts = []" "pool_tasks p = {#}" using p0(2) by auto
  have k: "getTaskCount p = 0" using p(2) e(2) by (simp add: pool_inv_def getTaskCount_def)
  obtain q where q: "taskAlloc ?t p = Inr q" "pool_tasks q = {#?t#}" using taskAlloc_ok [OF p(2), of ?t] e(2) by metis
  have f: "\<not> isFinished dn ?t" for dn by (simp add: isFinished_def create_func_def TaskCoro20_default_def isLegal_def)
  have m: "fst (move_construct ?t) = ?t" by (simp add: move_construct_def)
  let ?s2 = "?s1\<lparr>m_task_pool := p\<rparr>"
  let ?s3 = "?s2\<lparr>m_threads_count := 0\<rparr>"
  let ?s4 = "?s3\<lparr>m_stop := True\<rparr>"
  let ?s5 = "?s4\<lparr>m_task_pool := q\<rparr>"
  note d = worker_step_def may_own_def leave_run_def
  have n: "m_stop (Scheduler_new 1) = False" "m_autoStop (Scheduler_new 1) = False" "m_threads_count (Scheduler_new 1) = 1" "m_idleThreadCount (Scheduler_new 1) = 0"
    "m_stop (Scheduler_new (Suc 0)) = False" "m_autoStop (Scheduler_new (Suc 0)) = False" "m_threads_count (Scheduler_new (Suc 0)) = 1"
    "m_idleThreadCount (Scheduler_new (Suc 0)) = 0"
    by (simp_all add: Scheduler_new_def)
  have "?r (?c ?s1 At_loop Auto_tasks [Allocating ?t] {#})"
  proof -
    have "?r \<lparr>cl_sched = ?s0, cl_iom = io, cl_eventfd = 0, cl_workers = [At_loop],
        cl_stopper = Not_called, cl_calls = [Allocating ?t], cl_accepted = {#}, cl_started = {#}, cl_open = {#}\<rparr>"
      by (rule cl_reach.step [OF r, of "Schedule ?t"]) (simp_all add: schedule_test_def f n)
    then show ?thesis by (rule cl_reach.step [where a = AutoStop_call]) (simp_all add: autoStop_call_def in_flight_def n)
  qed
  then have "?r (?c ?s1 At_loop Auto_threads [Allocating ?t] {#})" by (rule cl_reach.step [where a = Stopper]) (use p0(3) in simp_all)
  then have "?r (?c ?s1 At_body Auto_threads [Allocating ?t] {#})" by (rule cl_reach.step [where a = "Worker 0 Ep_failed"]) (simp_all add: d n)
  then have "?r (?c ?s2 (At_run []) Auto_threads [Allocating ?t] {#})"
    by (rule cl_reach.step [where a = "Worker 0 Ep_failed"]) (use p(1) e(1) in \<open>simp_all add: d n\<close>)
  then have "?r (?c ?s2 At_decide Auto_threads [Allocating ?t] {#})" by (rule cl_reach.step [where a = "Worker 0 Ep_failed"]) (simp_all add: d)
  then have "?r (?c ?s2 At_exit Auto_threads [Allocating ?t] {#})" by (rule cl_reach.step [where a = "Worker 0 Ep_failed"]) (simp_all add: d k)
  then have "?r (?c ?s2 In_exit Auto_threads [Allocating ?t] {#})" by (rule cl_reach.step [where a = "Worker 0 Ep_failed"]) (simp_all add: d)
  then have "?r (?c ?s3 Has_left Auto_threads [Allocating ?t] {#})" by (rule cl_reach.step [where a = "Worker 0 Ep_failed"]) (simp_all add: d n)
  then have "?r (?c ?s4 Has_left Stop_threads [Allocating ?t] {#})" by (rule cl_reach.step [where a = Stopper]) simp_all
  then have "?r (?c ?s5 Has_left Stop_threads [Tickling] {#?t#})"
    by (rule cl_reach.step [where a = "Calling 0"]) (simp_all add: f q e(2) m advance_call_def)
  then have "?r (?c ?s5 Has_left (Joining 0) [Tickling] {#?t#})" by (rule cl_reach.step [where a = Stopper]) simp_all
  then have "?r (?c ?s5 Has_left (Joining 1) [Tickling] {#?t#})" by (rule cl_reach.step [where a = Stopper]) simp_all
  then have "?r (?c (?s5\<lparr>m_threads := 0\<rparr>) Has_left Returned [Tickling] {#?t#})" by (rule cl_reach.step [where a = Stopper]) simp_all
  then show ?thesis using q(2) by (intro exI [of _ "?c (?s5\<lparr>m_threads := 0\<rparr>) Has_left Returned [Tickling] {#?t#}"]) simp
qed

text \<open>
  A scheduler that was never started, like an IO manager whose constructor could not register its eventfd, has no threads
  but a positive thread count; \<^verbatim>\<open>stop\<close>, which the destructor calls, waits for ever.
\<close>

lemma stop_before_start_hangs:
  assumes "cl_stopper cl = Stop_threads" and "m_threads_count (cl_sched cl) \<noteq> 0"
    and "cl_exec user ends cb (replicate k Stopper) cl = Some (Inr cl')"
  shows "cl_stopper cl' = Stop_threads"
  using assms
proof (induction k arbitrary: cl)
  case (Suc k)
  let ?c = "\<lambda>c. cl\<lparr>cl_sched := tickle (cl_sched cl), cl_stopper := Stop_threads, cl_eventfd := c\<rparr>"
  obtain c where "cl_exec user ends cb (replicate k Stopper) (?c c) = Some (Inr cl')"
    using Suc.prems by (auto simp: Let_def split: sum.splits)
  then show ?case using Suc.IH [of "?c c"] Suc.prems(2) by (simp add: tickle_def)
qed simp

end
