(* ===== verification/Db_Pool.thy ===== *)
theory Db_Pool
  imports Scheduler
begin

section \<open>Database connection pool (DBPool)\<close>

text \<open>
  \<^verbatim>\<open>DBPool\<close>, \<^verbatim>\<open>ConnectWrapper\<close> and the \<^verbatim>\<open>init\<close> functions and acquisition loops of the MySQL and Redis
  pool managers. Connection objects and callbacks are identities. What the database drivers
  return is an argument: \<open>connect i\<close> is the result of connecting the i-th connector (0 or -1),
  and \<^verbatim>\<open>returnConn\<close> receives the new connector with the result of connecting it. Operations
  return the tasks they hand to \<^verbatim>\<open>IOManager::schedule\<close>. Each operation is one step.
\<close>

datatype pool_state = INIT | READY | FULL | CLOSED | CLOSING | ERROR

record db_pool =
  m_freeConnInfos :: "int list"
  m_connectors :: "nat list"
  m_waitConnCb :: "nat list"
  m_connectorCount :: int
  m_busyConnCount :: int
  m_minConnector :: int
  m_maxConnector :: int
  pool_state :: pool_state
  m_increaseNum :: u64

record conn_wrapper =
  m_connector :: "nat option"
  m_pool :: bool
  m_conn_idx :: int
  m_timeout :: bool

subsection \<open>ConnectWrapper\<close>

definition ConnectWrapper_new :: "int \<Rightarrow> nat option \<Rightarrow> bool \<Rightarrow> conn_wrapper" where
  "ConnectWrapper_new conn_idx conn pool = \<lparr>m_connector = conn, m_pool = pool, m_conn_idx = conn_idx, m_timeout = False\<rparr>"

text \<open>Moves give the new object and what is left of the old one; neither copies \<^verbatim>\<open>m_timeout\<close>.\<close>

definition wrapper_clear :: "conn_wrapper \<Rightarrow> conn_wrapper" where
  "wrapper_clear w = w\<lparr>m_conn_idx := -1, m_connector := None, m_pool := False\<rparr>"

definition wrapper_move_assign :: "conn_wrapper \<Rightarrow> conn_wrapper \<Rightarrow> conn_wrapper \<times> conn_wrapper" where
  "wrapper_move_assign this other =
     (this\<lparr>m_conn_idx := m_conn_idx other, m_connector := m_connector other, m_pool := m_pool other\<rparr>, wrapper_clear other)"

definition wrapper_move :: "conn_wrapper \<Rightarrow> conn_wrapper \<times> conn_wrapper" where
  "wrapper_move other = wrapper_move_assign (ConnectWrapper_new (-1) None False) other"

definition wrapper_setTimeout :: "bool \<Rightarrow> conn_wrapper \<Rightarrow> conn_wrapper" where
  "wrapper_setTimeout t w = w\<lparr>m_timeout := t\<rparr>"

definition make_wrapper :: "int \<Rightarrow> nat option \<Rightarrow> bool \<Rightarrow> conn_wrapper" where
  "make_wrapper idx conn pool = fst (wrapper_move (ConnectWrapper_new idx conn pool))"

subsection \<open>Construction, callbacks\<close>

definition DBPool_new :: "(nat \<Rightarrow> nat) \<Rightarrow> int \<Rightarrow> int \<Rightarrow> failure + db_pool" where
  "DBPool_new mk min_conn max_conn =
     (if min_conn < 0 \<or> max_conn < 0 \<or> max_conn < min_conn
      then Inl (Thrown ''failed to create a msyql db connector manager, min_conn or max_conn invalid'')
      else Inr \<lparr>m_freeConnInfos = [], m_connectors = map mk [0..<nat max_conn], m_waitConnCb = [],
              m_connectorCount = 0, m_busyConnCount = 0, m_minConnector = min_conn, m_maxConnector = max_conn,
              pool_state = INIT, m_increaseNum = 1\<rparr>)"

definition checkRunState :: "db_pool \<Rightarrow> bool" where
  "checkRunState p = (case pool_state p of READY \<Rightarrow> True | FULL \<Rightarrow> True | _ \<Rightarrow> False)"

definition setIncreaseNum :: "u64 \<Rightarrow> db_pool \<Rightarrow> db_pool" where
  "setIncreaseNum n p = p\<lparr>m_increaseNum := n\<rparr>"

definition registeConnCb :: "nat option \<Rightarrow> db_pool \<Rightarrow> int \<times> task_coro20 list \<times> db_pool" where
  "registeConnCb cb p =
     (if \<not> checkRunState p then (-1, [], p)
      else (case cb of
              None \<Rightarrow> (-1, [], p)
            | Some f \<Rightarrow> if pool_state p \<noteq> FULL then (0, [create_func cb], p)
                        else (0, [], p\<lparr>m_waitConnCb := m_waitConnCb p @ [f]\<rparr>)))"

definition db_tickle :: "db_pool \<Rightarrow> task_coro20 list \<times> db_pool" where
  "db_tickle p =
     (if m_waitConnCb p = [] then ([], p)
      else (let k = (if pool_state p = CLOSING then length (m_waitConnCb p)
                     else min (length (m_freeConnInfos p)) (length (m_waitConnCb p)))
            in (map (\<lambda>f. create_func (Some f)) (take k (m_waitConnCb p)), p\<lparr>m_waitConnCb := drop k (m_waitConnCb p)\<rparr>)))"

definition db_close :: "db_pool \<Rightarrow> task_coro20 list \<times> db_pool" where
  "db_close p = db_tickle (p\<lparr>pool_state := CLOSING\<rparr>)"

subsection \<open>Borrowing, returning, growing\<close>

definition borrowOneConn :: "db_pool \<Rightarrow> failure + conn_wrapper \<times> db_pool" where
  "borrowOneConn p =
     (if \<not> checkRunState p \<or> pool_state p = FULL then Inr (make_wrapper (-1) None False, p)
      else if pool_state p = READY
      then (case m_freeConnInfos p of
              [] \<Rightarrow> Inr (make_wrapper (-1) None False, p)
            | idx # rest \<Rightarrow>
                if \<not> (0 \<le> idx \<and> idx < m_connectorCount p) then Inl AssertionFailed
                else if length (m_connectors p) \<le> nat idx then Inl OutOfRange
                else (let busy = m_busyConnCount p + 1
                      in Inr (make_wrapper idx (Some (m_connectors p ! nat idx)) True,
                              p\<lparr>m_freeConnInfos := rest, m_busyConnCount := busy,
                                pool_state := (if busy = m_connectorCount p then FULL else pool_state p)\<rparr>)))
      else Inr (make_wrapper (-1) None False, p))"

definition give_back :: "int \<Rightarrow> db_pool \<Rightarrow> db_pool" where
  "give_back idx p = p\<lparr>m_freeConnInfos := m_freeConnInfos p @ [idx], m_busyConnCount := m_busyConnCount p - 1,
     pool_state := (if pool_state p = FULL then READY else pool_state p)\<rparr>"

definition returnConn :: "int \<Rightarrow> bool \<Rightarrow> int \<times> nat \<Rightarrow> db_pool \<Rightarrow> int \<times> task_coro20 list \<times> db_pool" where
  "returnConn idx isTimeOut reconn p =
     (if \<not> checkRunState p \<or> idx < 0 \<or> idx \<ge> m_maxConnector p then (-1, [], p)
      else if isTimeOut \<and> fst reconn = -1
      then (-1, [], p\<lparr>m_connectorCount := m_connectorCount p - 1, m_busyConnCount := m_busyConnCount p - 1\<rparr>)
      else (0, db_tickle (give_back idx
             (if isTimeOut then p\<lparr>m_connectors := (m_connectors p)[nat idx := snd reconn]\<rparr> else p))))"

definition wrapper_destroy ::
  "int \<times> nat \<Rightarrow> conn_wrapper \<Rightarrow> db_pool \<Rightarrow> task_coro20 list \<times> db_pool" where
  "wrapper_destroy reconn w p =
     (if m_conn_idx w < 0 then ([], p) else snd (returnConn (m_conn_idx w) (m_timeout w) reconn p))"

text \<open>
  The loop of \<^verbatim>\<open>expand\<close> and of both \<^verbatim>\<open>init\<close> functions: \<open>k\<close> rounds from index \<open>i\<close>, with the result
  of the last connect and its index. \<open>n\<close> is the size of the vector of connectors.
\<close>

fun connect_loop :: "(int \<Rightarrow> int) \<Rightarrow> nat \<Rightarrow> nat \<Rightarrow> int \<Rightarrow> int \<times> int \<times> int list \<Rightarrow> failure + int \<times> int \<times> int list" where
  "connect_loop connect n 0 i (rt, max_idx, fr) = Inr (rt, max_idx, fr)"
| "connect_loop connect n (Suc k) i (rt, max_idx, fr) =
     (if rt \<noteq> 0 then Inr (rt, max_idx, fr)
      else if i < 0 \<or> int n \<le> i then Inl OutOfRange
      else connect_loop connect n k (i + 1) (connect i, i, fr @ [i]))"

text \<open>\<^verbatim>\<open>int increaseNum = m_increaseNum\<close> cuts a \<^verbatim>\<open>size_t\<close> to 32 bits.\<close>

definition int_of_size :: "u64 \<Rightarrow> int" where
  "int_of_size n = sint (ucast n :: 32 word)"

definition growth :: "db_pool \<Rightarrow> int" where
  "growth p =
     (let increaseNum = int_of_size (m_increaseNum p); temp = m_maxConnector p - m_connectorCount p
      in if increaseNum < temp then increaseNum else temp)"

definition expand :: "(int \<Rightarrow> int) \<Rightarrow> db_pool \<Rightarrow> failure + int \<times> db_pool" where
  "expand connect p =
     (if m_maxConnector p = m_connectorCount p
      then (if m_connectorCount p = int (length (m_connectors p)) then Inr (0, p) else Inl AssertionFailed)
      else (let inc = growth p
            in case connect_loop connect (length (m_connectors p)) (nat inc) (m_connectorCount p) (0, 0, m_freeConnInfos p) of
                 Inl e \<Rightarrow> Inl e
               | Inr (rt, max_idx, fr) \<Rightarrow>
                   if rt \<noteq> 0 then Inr (-1, p\<lparr>m_freeConnInfos := fr, m_connectorCount := max_idx\<rparr>)
                   else (let count = m_connectorCount p + inc
                         in Inr (0, p\<lparr>m_freeConnInfos := fr, m_connectorCount := count,
                              pool_state := (if count > m_busyConnCount p then READY else pool_state p)\<rparr>))))"

text \<open>\<^verbatim>\<open>RedisPoolManager::init\<close> and \<^verbatim>\<open>MySQLPoolManager::init\<close>, without the recorded address.\<close>

definition redis_init :: "(int \<Rightarrow> int) \<Rightarrow> db_pool \<Rightarrow> failure + int \<times> db_pool" where
  "redis_init connect p =
     (case connect_loop connect (length (m_connectors p)) (nat (m_minConnector p)) 0 (0, 0, m_freeConnInfos p) of
        Inl e \<Rightarrow> Inl e
      | Inr (rt, max_idx, fr) \<Rightarrow>
          if rt \<noteq> 0 then Inr (-1, p\<lparr>m_freeConnInfos := fr, pool_state := ERROR\<rparr>)
          else Inr (0, p\<lparr>m_freeConnInfos := fr, m_connectorCount := m_minConnector p, pool_state := READY\<rparr>))"

definition mysql_init :: "(int \<Rightarrow> int) \<Rightarrow> db_pool \<Rightarrow> failure + int \<times> db_pool" where
  "mysql_init connect p = redis_init connect (if pool_state p \<noteq> INIT then p\<lparr>pool_state := ERROR\<rparr> else p)"

text \<open>
  The loop of \<^verbatim>\<open>executeQuery\<close> of both managers, up to the query on the connection obtained or to the
  wait for one. \<open>connect n\<close> gives the results of the n-th growth; the loop may not end, so it
  is a partial function.
\<close>

datatype acquired = Got conn_wrapper | MustWait

partial_function (option) acquire ::
  "(nat \<Rightarrow> int \<Rightarrow> int) \<Rightarrow> nat \<Rightarrow> db_pool \<Rightarrow> (failure + acquired \<times> db_pool) option" where
  "acquire connect n p =
     (case borrowOneConn p of
        Inl e \<Rightarrow> Some (Inl e)
      | Inr (w, p') \<Rightarrow>
          if m_conn_idx w \<ge> 0 then Some (Inr (Got w, p'))
          else if m_maxConnector p' > m_connectorCount p'
          then (case expand (connect n) p' of
                  Inl e \<Rightarrow> Some (Inl e)
                | Inr (rt, p'') \<Rightarrow> acquire connect (Suc n) p'')
          else Some (Inr (MustWait, p')))"

subsection \<open>The pool in use\<close>

text \<open>
  A user's history: the operations on one pool, with the list of the indices that are out (lent
  and not taken back). The operations are those of a correct client: it returns what it
  borrowed, and \<^verbatim>\<open>init\<close> is called on a new pool; connecting succeeds.
\<close>

datatype db_op = Init "int \<Rightarrow> int" | Borrow | Return int bool "int \<times> nat" | Grow "int \<Rightarrow> int"
  | Register "nat option" | Tickle | Close | SetIncrease u64

fun db_step :: "db_op \<Rightarrow> db_pool \<times> int list \<Rightarrow> failure + db_pool \<times> int list" where
  "db_step (Init connect) (p, out) = map_sum id (\<lambda>(rt, p'). (p', out)) (redis_init connect p)"
| "db_step Borrow (p, out) =
     map_sum id (\<lambda>(w, p'). (p', if m_conn_idx w \<ge> 0 then out @ [m_conn_idx w] else out)) (borrowOneConn p)"
| "db_step (Return idx t reconn) (p, out) =
     (let (rt, ts, p') = returnConn idx t reconn p in Inr (p', if rt = 0 then remove1 idx out else out))"
| "db_step (Grow connect) (p, out) = map_sum id (\<lambda>(rt, p'). (p', out)) (expand connect p)"
| "db_step (Register cb) (p, out) = Inr (snd (snd (registeConnCb cb p)), out)"
| "db_step Tickle (p, out) = Inr (snd (db_tickle p), out)"
| "db_step Close (p, out) = Inr (snd (db_close p), out)"
| "db_step (SetIncrease n) (p, out) = Inr (setIncreaseNum n p, out)"

fun op_ok :: "db_op \<Rightarrow> db_pool \<times> int list \<Rightarrow> bool" where
  "op_ok (Init connect) (p, out) \<longleftrightarrow> pool_state p = INIT \<and> connect = (\<lambda>_. 0)"
| "op_ok (Return idx t reconn) (p, out) \<longleftrightarrow> idx \<in> set out \<and> (t \<longrightarrow> fst reconn \<noteq> -1)"
| "op_ok (Grow connect) (p, out) \<longleftrightarrow> connect = (\<lambda>_. 0)"
| "op_ok (SetIncrease n) (p, out) \<longleftrightarrow> 0 \<le> int_of_size n"
| "op_ok _ _ \<longleftrightarrow> True"

inductive db_reach :: "db_pool \<times> int list \<Rightarrow> bool" where
  start: "DBPool_new mk mn mx = Inr p \<Longrightarrow> db_reach (p, [])"
| step: "db_reach s \<Longrightarrow> op_ok op s \<Longrightarrow> db_step op s = Inr s' \<Longrightarrow> db_reach s'"

definition db_inv :: "db_pool \<times> int list \<Rightarrow> bool" where
  "db_inv = (\<lambda>(p, out).
     distinct (m_freeConnInfos p @ out) \<and> set (m_freeConnInfos p @ out) = {0..<m_connectorCount p} \<and>
     m_busyConnCount p = int (length out) \<and> m_connectorCount p \<le> m_maxConnector p \<and> 0 \<le> m_connectorCount p \<and>
     int (length (m_connectors p)) = m_maxConnector p \<and> 0 \<le> m_minConnector p \<and> m_minConnector p \<le> m_maxConnector p \<and>
     0 \<le> int_of_size (m_increaseNum p) \<and>
     (pool_state p = INIT \<longrightarrow> m_connectorCount p = 0) \<and>
     (pool_state p = READY \<longrightarrow> m_busyConnCount p < m_connectorCount p \<or> m_connectorCount p = 0) \<and>
     (pool_state p = FULL \<longrightarrow> m_busyConnCount p = m_connectorCount p \<and> 0 < m_connectorCount p))"

text \<open>Everything below the counters: the pool owns the indices from 0 to its count, each once.\<close>

lemma db_inv_count:
  assumes "db_inv (p, out)"
  shows "m_connectorCount p = int (length (m_freeConnInfos p)) + m_busyConnCount p"
proof -
  have d: "distinct (m_freeConnInfos p @ out)" "set (m_freeConnInfos p @ out) = {0..<m_connectorCount p}"
    and b: "m_busyConnCount p = int (length out)" "0 \<le> m_connectorCount p"
    using assms by (simp_all only: db_inv_def case_prod_conv)
  have "int (length (m_freeConnInfos p @ out)) = m_connectorCount p"
    using distinct_card [OF d(1)] b(2) unfolding d(2) by simp
  then show ?thesis using b(1) by simp
qed

lemma connect_loop_ok:
  "i \<ge> 0 \<Longrightarrow> i + int k \<le> int n \<Longrightarrow>
   \<exists>m. connect_loop (\<lambda>_. 0) n k i (0, m0, fr) = Inr (0, m, fr @ map (\<lambda>j. i + int j) [0..<k])"
proof (induction k arbitrary: i m0 fr)
  case (Suc k)
  have "[0..<Suc k] = 0 # map Suc [0..<k]" by (simp only: map_Suc_upt upt_conv_Cons zero_less_Suc)
  then have "map (\<lambda>j. i + int j) [0..<Suc k] = i # map (\<lambda>j. (i + 1) + int j) [0..<k]" by (simp add: algebra_simps)
  then show ?case using Suc.IH [of "i + 1" i "fr @ [i]"] Suc.prems by simp
qed simp

lemma set_from: "set (map (\<lambda>j. i + int j) [0..<k]) = {i..<i + int k}"
proof -
  have "x \<in> (\<lambda>j. i + int j) ` {0..<k}" if "i \<le> x" "x < i + int k" for x
    using that by (intro image_eqI [of _ _ "nat (x - i)"]) auto
  then show ?thesis by auto
qed

lemma redis_init_inv:
  assumes "db_inv (p, out)" "pool_state p = INIT"
  shows "\<exists>p'. redis_init (\<lambda>_. 0) p = Inr (0, p') \<and> db_inv (p', out)"
proof -
  have z: "m_connectorCount p = 0" "m_freeConnInfos p = []" "out = []"
    using assms by (auto simp: db_inv_def)
  have "\<exists>m. connect_loop (\<lambda>_. 0) (length (m_connectors p)) (nat (m_minConnector p)) 0 (0, 0, []) =
      Inr (0, m, [] @ map (\<lambda>j. 0 + int j) [0..<nat (m_minConnector p)])"
    using assms(1) by (intro connect_loop_ok) (simp_all add: db_inv_def)
  then show ?thesis
    using assms(1) set_from [of 0 "nat (m_minConnector p)"]
    by (auto simp: redis_init_def z db_inv_def distinct_map inj_on_def)
qed

lemma expand_inv:
  assumes "db_inv (p, out)"
  shows "\<exists>p'. expand (\<lambda>_. 0) p = Inr (0, p') \<and> db_inv (p', out) \<and> m_busyConnCount p' = m_busyConnCount p \<and>
    m_maxConnector p' = m_maxConnector p \<and>
    (m_connectorCount p < m_maxConnector p \<longrightarrow> 0 < int_of_size (m_increaseNum p) \<longrightarrow>
       m_connectorCount p < m_connectorCount p' \<and> pool_state p' = READY)"
proof (cases "m_maxConnector p = m_connectorCount p")
  case True
  then have "expand (\<lambda>_. 0) p = Inr (0, p)" using assms by (simp add: expand_def db_inv_def)
  then show ?thesis using assms True by simp
next
  case False
  define inc where "inc = growth p"
  define fr where "fr = m_freeConnInfos p @ map (\<lambda>j. m_connectorCount p + int j) [0..<nat inc]"
  have i: "0 \<le> inc" "m_connectorCount p + inc \<le> m_maxConnector p" "0 \<le> m_connectorCount p"
    "m_busyConnCount p \<le> m_connectorCount p"
    using assms db_inv_count [OF assms] by (auto simp: inc_def growth_def Let_def db_inv_def)
  have "\<exists>m. connect_loop (\<lambda>_. 0) (length (m_connectors p)) (nat inc) (m_connectorCount p) (0, 0, m_freeConnInfos p) = Inr (0, m, fr)"
    unfolding fr_def using assms i by (intro connect_loop_ok) (simp_all add: db_inv_def)
  then have e: "expand (\<lambda>_. 0) p = Inr (0, p\<lparr>m_freeConnInfos := fr, m_connectorCount := m_connectorCount p + inc,
      pool_state := (if m_connectorCount p + inc > m_busyConnCount p then READY else pool_state p)\<rparr>)"
    using False by (auto simp: expand_def Let_def inc_def [symmetric])
  have new: "set (map (\<lambda>j. m_connectorCount p + int j) [0..<nat inc]) = {m_connectorCount p..<m_connectorCount p + inc}"
    using set_from [of "m_connectorCount p" "nat inc"] i(1) by simp
  have d: "distinct (m_freeConnInfos p @ out)" "set (m_freeConnInfos p @ out) = {0..<m_connectorCount p}"
    using assms by (simp_all only: db_inv_def case_prod_conv)
  then have "set (m_freeConnInfos p) \<subseteq> {0..<m_connectorCount p}" "set out \<subseteq> {0..<m_connectorCount p}" by auto
  moreover have "{0..<m_connectorCount p} \<inter> {m_connectorCount p..<m_connectorCount p + inc} = {}" by auto
  ultimately have "distinct (fr @ out)"
    using d(1) unfolding fr_def distinct_append set_append new by (auto simp: distinct_map inj_on_def)
  moreover have "{0..<m_connectorCount p} \<union> {m_connectorCount p..<m_connectorCount p + inc} = {0..<m_connectorCount p + inc}"
    using i by auto
  then have "set (fr @ out) = {0..<m_connectorCount p + inc}" using d(2) unfolding fr_def set_append new by blast
  ultimately show ?thesis
    using assms i e False by (auto simp: db_inv_def inc_def growth_def Let_def)
qed

lemma make_wrapper_simps [simp]:
  "m_conn_idx (make_wrapper i c b) = i" "m_connector (make_wrapper i c b) = c" "m_timeout (make_wrapper i c b) = False"
  by (simp_all add: make_wrapper_def wrapper_move_def wrapper_move_assign_def ConnectWrapper_new_def)

text \<open>What borrowing does on a pool in the invariant, on both branches.\<close>

lemma borrow_ready:
  assumes "db_inv (p, out)" "pool_state p = READY" "m_freeConnInfos p = idx # rest"
  shows "\<exists>p'. borrowOneConn p = Inr (make_wrapper idx (Some (m_connectors p ! nat idx)) True, p') \<and>
    db_inv (p', out @ [idx]) \<and> 0 \<le> idx"
proof -
  have set: "set (m_freeConnInfos p @ out) = {0..<m_connectorCount p}" and le: "m_connectorCount p \<le> m_maxConnector p"
    and len: "int (length (m_connectors p)) = m_maxConnector p"
    using assms(1) by (simp_all only: db_inv_def case_prod_conv)
  have "idx \<in> {0..<m_connectorCount p}" unfolding set [symmetric] assms(3) by simp
  then have idx: "0 \<le> idx" "idx < m_connectorCount p" by simp_all
  moreover have "\<not> length (m_connectors p) \<le> nat idx" using idx le len by linarith
  moreover have "insert idx (set out \<union> set rest) = {0..<m_connectorCount p}" using set assms(3) by auto
  ultimately show ?thesis
    using assms by (auto simp: borrowOneConn_def checkRunState_def Let_def db_inv_def Un_commute)
qed

lemma borrow_nothing:
  assumes "pool_state p \<noteq> READY \<or> m_freeConnInfos p = []"
  shows "borrowOneConn p = Inr (make_wrapper (-1) None False, p)"
  using assms by (auto simp: borrowOneConn_def checkRunState_def split: pool_state.splits)

lemma tickle_inv: "db_inv (p, out) \<Longrightarrow> db_inv (snd (db_tickle p), out)"
  by (auto simp: db_tickle_def db_inv_def Let_def)

lemma tickle_keeps [simp]:
  "m_freeConnInfos (snd (db_tickle p)) = m_freeConnInfos p" "pool_state (snd (db_tickle p)) = pool_state p"
  by (simp_all add: db_tickle_def Let_def)

lemma give_back_inv:
  assumes "db_inv (p, out)" "checkRunState p" "idx \<in> set out"
  shows "db_inv (give_back idx p, remove1 idx out)" "pool_state (give_back idx p) = READY"
proof -
  have d: "distinct (m_freeConnInfos p @ out)" "set (m_freeConnInfos p @ out) = {0..<m_connectorCount p}"
    and b: "m_busyConnCount p = int (length out)"
    using assms(1) by (simp_all only: db_inv_def case_prod_conv)
  have "0 < length out" using assms(3) by (cases out) simp_all
  then have l: "int (length (remove1 idx out)) = m_busyConnCount p - 1" using b assms(3) by (simp add: length_remove1 of_nat_diff Suc_le_eq)
  have c: "m_busyConnCount p \<le> m_connectorCount p" using db_inv_count [OF assms(1)] by simp
  have "distinct ((m_freeConnInfos p @ [idx]) @ remove1 idx out)"
    "set ((m_freeConnInfos p @ [idx]) @ remove1 idx out) = {0..<m_connectorCount p}"
    using d assms(3) by auto
  then show "db_inv (give_back idx p, remove1 idx out)"
    using assms(1,2) l c by (auto simp: db_inv_def give_back_def)
  show "pool_state (give_back idx p) = READY"
    using assms(2) by (simp add: give_back_def checkRunState_def split: pool_state.splits)
qed

lemma swap_connector_inv:
  "db_inv (p, out) \<Longrightarrow> db_inv (p\<lparr>m_connectors := (m_connectors p)[i := c]\<rparr>, out)"
  by (auto simp: db_inv_def)

lemma out_in_range: "db_inv (p, out) \<Longrightarrow> idx \<in> set out \<Longrightarrow> 0 \<le> idx \<and> idx < m_maxConnector p"
  by (auto simp: db_inv_def dest!: arg_cong [of _ _ "\<lambda>A. idx \<in> A"])

lemma return_ok:
  assumes "db_inv (p, out)" "checkRunState p" "idx \<in> set out" "t \<longrightarrow> fst reconn \<noteq> -1"
  shows "\<exists>q. returnConn idx t reconn p = (0, db_tickle (give_back idx q)) \<and> db_inv (give_back idx q, remove1 idx out) \<and>
    pool_state (give_back idx q) = READY \<and> m_waitConnCb q = m_waitConnCb p"
proof -
  define q where "q = (if t then p\<lparr>m_connectors := (m_connectors p)[nat idx := snd reconn]\<rparr> else p)"
  have q: "db_inv (q, out)" "checkRunState q" "m_waitConnCb q = m_waitConnCb p"
    using assms(1,2) swap_connector_inv [OF assms(1)] by (simp_all add: q_def checkRunState_def)
  have "returnConn idx t reconn p = (0, db_tickle (give_back idx q))"
    using out_in_range [OF assms(1,3)] assms(2,4) by (auto simp: returnConn_def q_def)
  then show ?thesis using give_back_inv [OF q(1,2) assms(3)] q(3) by blast
qed

lemma db_step_inv:
  assumes "db_inv s" "op_ok op s"
  shows "\<exists>s'. db_step op s = Inr s' \<and> db_inv s'"
proof -
  obtain p out where s: "s = (p, out)" by (cases s)
  note inv = assms(1) [unfolded s] and ok = assms(2) [unfolded s]
  show ?thesis
  proof (cases op)
    case (Init c)
    then show ?thesis using redis_init_inv [OF inv] ok by (auto simp: s)
  next
    case Borrow
    show ?thesis
    proof (cases "pool_state p = READY \<and> m_freeConnInfos p \<noteq> []")
      case True
      then obtain idx rest where "m_freeConnInfos p = idx # rest" by (meson neq_Nil_conv)
      then show ?thesis using borrow_ready [OF inv] True Borrow by (force simp: s)
    next
      case False
      then show ?thesis using borrow_nothing [of p] inv Borrow by (simp add: s)
    qed
  next
    case (Return idx t reconn)
    show ?thesis
    proof (cases "checkRunState p")
      case True
      then obtain q where "returnConn idx t reconn p = (0, db_tickle (give_back idx q))" "db_inv (give_back idx q, remove1 idx out)"
        using return_ok [OF inv True, of idx t reconn] ok Return by auto
      then show ?thesis using tickle_inv Return by (auto simp: s case_prod_unfold)
    next
      case False
      then show ?thesis using inv Return by (simp add: s returnConn_def)
    qed
  next
    case (Grow c)
    then show ?thesis using expand_inv [OF inv] ok by (auto simp: s)
  next
    case (Register cb)
    then show ?thesis using inv by (auto simp: s registeConnCb_def db_inv_def split: option.splits)
  next
    case Tickle
    then show ?thesis using tickle_inv [OF inv] by (simp add: s)
  next
    case Close
    have "db_inv (p\<lparr>pool_state := CLOSING\<rparr>, out)" using inv by (simp add: db_inv_def)
    then show ?thesis using tickle_inv Close by (simp add: s db_close_def)
  next
    case (SetIncrease n)
    then show ?thesis using inv ok by (auto simp: s setIncreaseNum_def db_inv_def)
  qed
qed

lemma reach_inv: "db_reach s \<Longrightarrow> db_inv s"
proof (induction rule: db_reach.induct)
  case (start mk mn mx p)
  have "int_of_size 1 = 1" by (simp add: int_of_size_def)
  then show ?case using start by (auto simp: DBPool_new_def db_inv_def split: if_splits)
next
  case (step s op s')
  then show ?case using db_step_inv by fastforce
qed

text \<open>
  C12. However a pool is used by clients that return what they borrowed, as long as connecting succeeds, it is initialised once,
  and the increase that is set does not turn negative as an \<^verbatim>\<open>int\<close>: no connection is out twice or both free and out, the free and
  the lent indices are exactly those of the connected ones, and no operation runs into an assertion or an index out of range. A
  connection is handed out exactly when the pool is ready and has a free one, it is one that nobody else has, and the pool becomes
  full with the last one; otherwise the index is -1 and nothing changes.
\<close>

theorem pool_never_shares:
  assumes "db_reach (p, out)"
  shows "distinct (m_freeConnInfos p @ out) \<and> set (m_freeConnInfos p @ out) = {0..<m_connectorCount p} \<and>
    (\<forall>op. op_ok op (p, out) \<longrightarrow> (\<exists>s'. db_step op (p, out) = Inr s')) \<and>
    (\<exists>w p'. borrowOneConn p = Inr (w, p') \<and>
       (if pool_state p = READY \<and> m_freeConnInfos p \<noteq> []
        then m_conn_idx w = hd (m_freeConnInfos p) \<and> m_conn_idx w \<in> {0..<m_connectorCount p} - set out \<and>
             m_connector w = Some (m_connectors p ! nat (m_conn_idx w)) \<and>
             (pool_state p' = FULL \<longleftrightarrow> m_freeConnInfos p' = [])
        else m_conn_idx w = -1 \<and> p' = p))"
proof (intro conjI allI impI)
  note inv = reach_inv [OF assms]
  show d: "distinct (m_freeConnInfos p @ out)" "set (m_freeConnInfos p @ out) = {0..<m_connectorCount p}"
    using inv by (simp_all only: db_inv_def case_prod_conv)
  show "\<exists>s'. db_step op (p, out) = Inr s'" if "op_ok op (p, out)" for op using db_step_inv [OF inv that] by blast
  show "\<exists>w p'. borrowOneConn p = Inr (w, p') \<and>
       (if pool_state p = READY \<and> m_freeConnInfos p \<noteq> []
        then m_conn_idx w = hd (m_freeConnInfos p) \<and> m_conn_idx w \<in> {0..<m_connectorCount p} - set out \<and>
             m_connector w = Some (m_connectors p ! nat (m_conn_idx w)) \<and>
             (pool_state p' = FULL \<longleftrightarrow> m_freeConnInfos p' = [])
        else m_conn_idx w = -1 \<and> p' = p)"
  proof (cases "pool_state p = READY \<and> m_freeConnInfos p \<noteq> []")
    case True
    then obtain idx rest where f: "m_freeConnInfos p = idx # rest" by (meson neq_Nil_conv)
    then obtain p' where p': "borrowOneConn p = Inr (make_wrapper idx (Some (m_connectors p ! nat idx)) True, p')"
      "db_inv (p', out @ [idx])"
      using borrow_ready [OF inv] True by blast
    have st: "pool_state p' = READY \<or> pool_state p' = FULL"
      using p'(1) True f by (auto simp: borrowOneConn_def Let_def checkRunState_def split: if_splits)
    have "m_connectorCount p' = int (length (m_freeConnInfos p')) + m_busyConnCount p'" "m_connectorCount p' \<noteq> 0"
      using db_inv_count [OF p'(2)] p'(2) by (auto simp: db_inv_def)
    then have "pool_state p' = FULL \<longleftrightarrow> m_freeConnInfos p' = []" using st p'(2) by (auto simp: db_inv_def)
    moreover have "idx \<in> {0..<m_connectorCount p} - set out" using d f by auto
    ultimately show ?thesis using p'(1) True f by simp
  next
    case False
    then have "borrowOneConn p = Inr (make_wrapper (-1) None False, p)" using borrow_nothing [of p] by blast
    then show ?thesis using False by auto
  qed
qed

text \<open>A pool of at most four connections with the two initial ones lent and a callback waiting, for the witnesses.\<close>

definition demo_pool :: db_pool where
  "demo_pool = \<lparr>m_freeConnInfos = [], m_connectors = [10, 11, 12, 13], m_waitConnCb = [7], m_connectorCount = 2,
     m_busyConnCount = 2, m_minConnector = 2, m_maxConnector = 4, pool_state = FULL, m_increaseNum = 1\<rparr>"

lemma demo_reach: "db_reach (demo_pool, [0, 1])"
proof -
  define s0 where "s0 = \<lparr>m_freeConnInfos = [], m_connectors = [10, 11, 12, 13], m_waitConnCb = [], m_connectorCount = 0,
     m_busyConnCount = 0, m_minConnector = 2, m_maxConnector = 4, pool_state = INIT, m_increaseNum = 1\<rparr>"
  have "[0..<4 :: nat] = [0, 1, 2, 3]" by code_simp
  then have "db_reach (s0, [])"
    by (intro db_reach.start [of "\<lambda>i. 10 + i" 2 4]) (simp add: DBPool_new_def s0_def)
  then have "db_reach (s0\<lparr>m_freeConnInfos := [0, 1], m_connectorCount := 2, pool_state := READY\<rparr>, [])"
    by (rule db_reach.step [where op = "Init (\<lambda>_. 0)"]) (simp_all add: s0_def redis_init_def numeral_2_eq_2)
  then have "db_reach (s0\<lparr>m_freeConnInfos := [1], m_connectorCount := 2, pool_state := READY, m_busyConnCount := 1\<rparr>, [0])"
    by (rule db_reach.step [where op = Borrow]) (simp_all add: s0_def borrowOneConn_def checkRunState_def)
  then have "db_reach (s0\<lparr>m_connectorCount := 2, pool_state := FULL, m_busyConnCount := 2\<rparr>, [0, 1])"
    by (rule db_reach.step [where op = Borrow]) (simp_all add: s0_def borrowOneConn_def checkRunState_def)
  then show ?thesis
    by (rule db_reach.step [where op = "Register (Some 7)"])
      (simp_all add: s0_def demo_pool_def registeConnCb_def checkRunState_def)
qed

lemma demo_facts:
  "pool_state demo_pool = FULL" "checkRunState demo_pool" "m_increaseNum demo_pool = 1" "int_of_size 1 = 1"
  "m_connectorCount demo_pool = 2" "m_maxConnector demo_pool = 4" "m_busyConnCount demo_pool = 2" "m_waitConnCb demo_pool = [7]"
  by (simp_all add: demo_pool_def checkRunState_def int_of_size_def)

theorem pool_never_shares_witness:
  "distinct (m_freeConnInfos demo_pool @ [0, 1]) \<and> (\<exists>s'. db_step (Return 1 False (0, 0)) (demo_pool, [0, 1]) = Inr s') \<and>
   (\<exists>w p'. borrowOneConn demo_pool = Inr (w, p') \<and> m_conn_idx w = -1)"
proof -
  note h = pool_never_shares [OF demo_reach]
  have "op_ok (Return 1 False (0, 0)) (demo_pool, [0, 1])" by simp
  then have "\<exists>s'. db_step (Return 1 False (0, 0)) (demo_pool, [0, 1]) = Inr s'" using h by blast
  moreover have "\<exists>w p'. borrowOneConn demo_pool = Inr (w, p') \<and> m_conn_idx w = -1"
    using h demo_facts(1) by (elim conjE) (simp only: pool_state.distinct simp_thms if_False, blast)
  moreover have "distinct (m_freeConnInfos demo_pool @ [0, 1])" using h by (elim conjE)
  ultimately show ?thesis by blast
qed

text \<open>
  Giving back a connection wakes the callback that has waited longest, and the pool then has
  a connection to lend.
\<close>

theorem return_wakes_first_waiter:
  assumes "db_reach (p, out)" "checkRunState p" "idx \<in> set out" "t \<longrightarrow> fst reconn \<noteq> -1" "m_waitConnCb p = f # fs"
  shows "\<exists>ts p' k. returnConn idx t reconn p = (0, create_func (Some f) # ts, p') \<and>
    ts = map (\<lambda>g. create_func (Some g)) (take k fs) \<and> m_waitConnCb p' = drop k fs \<and>
    (\<exists>w p''. borrowOneConn p' = Inr (w, p'') \<and> 0 \<le> m_conn_idx w)"
proof -
  obtain q where q: "returnConn idx t reconn p = (0, db_tickle (give_back idx q))" "db_inv (give_back idx q, remove1 idx out)"
    "pool_state (give_back idx q) = READY" "m_waitConnCb q = m_waitConnCb p"
    using return_ok [OF reach_inv [OF assms(1)] assms(2-4)] by blast
  define p' where "p' = snd (db_tickle (give_back idx q))"
  define k where "k = min (length (m_freeConnInfos q)) (length fs)"
  have t: "db_tickle (give_back idx q) = (create_func (Some f) # map (\<lambda>g. create_func (Some g)) (take k fs), p')"
    "m_waitConnCb p' = drop k fs"
    using q(3,4) assms(5) by (simp_all add: p'_def db_tickle_def Let_def k_def give_back_def)
  have "m_freeConnInfos p' \<noteq> []" "pool_state p' = READY" "db_inv (p', remove1 idx out)"
    using q(3) tickle_inv [OF q(2)] by (simp_all add: p'_def) (simp add: give_back_def)
  then have "\<exists>w p''. borrowOneConn p' = Inr (w, p'') \<and> 0 \<le> m_conn_idx w"
    using borrow_ready by (metis make_wrapper_simps(1) neq_Nil_conv)
  then show ?thesis using q(1) t by auto
qed

theorem return_wakes_first_waiter_witness:
  "\<exists>p'. returnConn 1 False (0, 0) demo_pool = (0, [create_func (Some 7)], p') \<and> (\<exists>w p''. borrowOneConn p' = Inr (w, p'') \<and> 0 \<le> m_conn_idx w)"
  using return_wakes_first_waiter [OF demo_reach demo_facts(2), of 1 False "(0, 0)" 7 "[]"] by (auto simp: demo_facts(8))

lemma acquire_unfold:
  "borrowOneConn p = Inr (w, p') \<Longrightarrow> acquire connect n p =
     (if m_conn_idx w \<ge> 0 then Some (Inr (Got w, p'))
      else if m_maxConnector p' > m_connectorCount p'
      then (case expand (connect n) p' of Inl e \<Rightarrow> Some (Inl e) | Inr (rt, p'') \<Rightarrow> acquire connect (Suc n) p'')
      else Some (Inr (MustWait, p')))"
  by (subst acquire.simps) simp



subsection \<open>After a failed connect\<close>

lemma borrow_hd:
  assumes "pool_state p = READY" "m_freeConnInfos p = idx # rest" "0 \<le> idx" "idx < m_connectorCount p"
    "m_connectorCount p \<le> int (length (m_connectors p))"
  shows "borrowOneConn p = Inr (make_wrapper idx (Some (m_connectors p ! nat idx)) True,
    p\<lparr>m_freeConnInfos := rest, m_busyConnCount := m_busyConnCount p + 1,
      pool_state := (if m_busyConnCount p + 1 = m_connectorCount p then FULL else READY)\<rparr>)"
  using assms by (simp add: borrowOneConn_def checkRunState_def Let_def not_le nat_less_iff)

lemma full_facts:
  assumes "db_reach (p, out)" "pool_state p = FULL"
  shows "m_freeConnInfos p = []" "m_busyConnCount p = m_connectorCount p" "0 < m_connectorCount p"
    "set out = {0..<m_connectorCount p}" "int (length (m_connectors p)) = m_maxConnector p"
    "m_connectorCount p \<le> m_maxConnector p"
proof -
  note inv = reach_inv [OF assms(1)]
  show b: "m_busyConnCount p = m_connectorCount p" "0 < m_connectorCount p" "int (length (m_connectors p)) = m_maxConnector p"
    "m_connectorCount p \<le> m_maxConnector p"
    using inv assms(2) by (auto simp: db_inv_def)
  then show "m_freeConnInfos p = []" using db_inv_count [OF inv] by simp
  then show "set out = {0..<m_connectorCount p}" using inv by (simp add: db_inv_def)
qed

lemma expand_fails:
  assumes "m_connectorCount p < m_maxConnector p" "0 < int_of_size (m_increaseNum p)" "0 \<le> m_connectorCount p"
    "int (length (m_connectors p)) = m_maxConnector p"
  shows "expand (\<lambda>_. -1) p = Inr (-1, p\<lparr>m_freeConnInfos := m_freeConnInfos p @ [m_connectorCount p]\<rparr>)"
proof -
  have "0 < growth p" using assms by (simp add: growth_def Let_def)
  then obtain k where "nat (growth p) = Suc k" using gr0_implies_Suc [of "nat (growth p)"] by auto
  moreover have "connect_loop (\<lambda>_. -1) n k i (-1, m, fr) = Inr (-1, m, fr)" for n i m fr by (cases k) simp_all
  ultimately show ?thesis using assms by (simp add: expand_def Let_def)
qed

lemma expand_grows:
  assumes "m_connectorCount p < m_maxConnector p" "0 < int_of_size (m_increaseNum p)" "0 \<le> m_connectorCount p"
    "m_busyConnCount p \<le> m_connectorCount p" "int (length (m_connectors p)) = m_maxConnector p"
  shows "\<exists>rest. expand (\<lambda>_. 0) p = Inr (0, p\<lparr>m_freeConnInfos := m_freeConnInfos p @ m_connectorCount p # rest,
    m_connectorCount := m_connectorCount p + growth p, pool_state := READY\<rparr>)"
    and "0 < growth p" "m_connectorCount p + growth p \<le> m_maxConnector p"
proof -
  show g: "0 < growth p" "m_connectorCount p + growth p \<le> m_maxConnector p" using assms by (simp_all add: growth_def Let_def)
  then obtain k where k: "nat (growth p) = Suc k" using gr0_implies_Suc [of "nat (growth p)"] by auto
  have "[0..<Suc k] = 0 # map Suc [0..<k]" by (simp only: map_Suc_upt upt_conv_Cons zero_less_Suc)
  moreover have "\<exists>m. connect_loop (\<lambda>_. 0) (length (m_connectors p)) (nat (growth p)) (m_connectorCount p) (0, 0, m_freeConnInfos p) =
      Inr (0, m, m_freeConnInfos p @ map (\<lambda>j. m_connectorCount p + int j) [0..<nat (growth p)])"
    using assms g by (intro connect_loop_ok) simp_all
  ultimately show "\<exists>rest. expand (\<lambda>_. 0) p = Inr (0, p\<lparr>m_freeConnInfos := m_freeConnInfos p @ m_connectorCount p # rest,
    m_connectorCount := m_connectorCount p + growth p, pool_state := READY\<rparr>)"
    using assms g k by (auto simp: expand_def Let_def)
qed

text \<open>
  When a growth of a full pool fails once, its index is left in the list of free connections
  and is added again by the next growth: two clients then obtain the same connection, without
  either having returned it.
\<close>

theorem failed_connect_shares_connection:
  assumes "db_reach (p, out)" "pool_state p = FULL" "m_connectorCount p + 2 \<le> m_maxConnector p"
    "0 < int_of_size (m_increaseNum p)"
  shows "\<exists>w p' w' p''. acquire (\<lambda>n _. if n = 0 then -1 else 0) 0 p = Some (Inr (Got w, p')) \<and>
    acquire (\<lambda>_ _. 0) 0 p' = Some (Inr (Got w', p'')) \<and> 0 \<le> m_conn_idx w \<and> m_conn_idx w' = m_conn_idx w \<and>
    m_connector w' = m_connector w"
proof -
  note f = full_facts [OF assms(1,2)]
  define c where "c = m_connectorCount p"
  define g where "g = growth p"
  define p1 where "p1 = p\<lparr>m_freeConnInfos := [c]\<rparr>"
  have e1: "expand (\<lambda>_. -1) p = Inr (-1, p1)" using expand_fails [of p] assms f by (simp add: p1_def c_def)
  have "growth p1 = g" by (simp add: p1_def g_def growth_def)
  then obtain rest where e2: "expand (\<lambda>_. 0) p1 = Inr (0, p1\<lparr>m_freeConnInfos := c # c # rest, m_connectorCount := c + g, pool_state := READY\<rparr>)"
      and g: "0 < g" "c + g \<le> m_maxConnector p"
    using expand_grows [of p1] assms f by (auto simp: p1_def c_def)
  define w where "w = make_wrapper c (Some (m_connectors p ! nat c)) True"
  define p3 where "p3 = p1\<lparr>m_freeConnInfos := c # rest, m_connectorCount := c + g, m_busyConnCount := c + 1,
    pool_state := (if c + 1 = c + g then FULL else READY)\<rparr>"
  have b0: "borrowOneConn p = Inr (make_wrapper (-1) None False, p)" "borrowOneConn p1 = Inr (make_wrapper (-1) None False, p1)"
    using assms(2) by (simp_all add: borrow_nothing p1_def)
  have b2: "borrowOneConn (p1\<lparr>m_freeConnInfos := c # c # rest, m_connectorCount := c + g, pool_state := READY\<rparr>) = Inr (w, p3)"
    using g f by (subst borrow_hd [of _ c "c # rest"]) (auto simp: w_def p3_def p1_def c_def)
  have a1: "acquire (\<lambda>n _. if n = 0 then -1 else 0) 0 p = Some (Inr (Got w, p3))"
    using acquire_unfold [OF b0(1)] acquire_unfold [OF b0(2)] acquire_unfold [OF b2] assms(3) f e1 e2
    by (simp add: p1_def w_def c_def)
  have "\<exists>p''. acquire (\<lambda>_ _. 0) 0 p3 = Some (Inr (Got w, p''))"
  proof (cases "g = 1")
    case False
    then have "\<exists>p''. borrowOneConn p3 = Inr (w, p'')"
      using g f by (subst borrow_hd [of _ c rest]) (auto simp: w_def p3_def p1_def c_def)
    then show ?thesis using acquire_unfold [of p3 w] f by (auto simp: w_def c_def)
  next
    case True
    then have b: "borrowOneConn p3 = Inr (make_wrapper (-1) None False, p3)" by (simp add: borrow_nothing p3_def)
    have l: "m_connectorCount p3 < m_maxConnector p3" using assms(3) True by (simp add: p3_def p1_def c_def)
    obtain r q where e: "expand (\<lambda>_. 0) p3 = Inr (0, q)" "q = p3\<lparr>m_freeConnInfos := (c # rest) @ m_connectorCount p3 # r,
        m_connectorCount := c + 1 + growth p3, pool_state := READY\<rparr>" "0 < growth p3" "c + 1 + growth p3 \<le> m_maxConnector p"
      using expand_grows [OF l] assms(4) f True by (auto simp: p3_def p1_def c_def)
    have "\<exists>p''. borrowOneConn q = Inr (w, p'')"
      using e f by (subst borrow_hd [of _ c "rest @ m_connectorCount p3 # r"]) (auto simp: w_def p3_def p1_def c_def)
    then show ?thesis using acquire_unfold [OF b] acquire_unfold [of q w] l e(1) f by (auto simp: w_def c_def)
  qed
  then show ?thesis using a1 f by (auto simp: w_def c_def)
qed

theorem failed_connect_shares_connection_witness:
  "\<exists>w p' w' p''. acquire (\<lambda>n _. if n = 0 then -1 else 0) 0 demo_pool = Some (Inr (Got w, p')) \<and>
    acquire (\<lambda>_ _. 0) 0 p' = Some (Inr (Got w', p'')) \<and> 0 \<le> m_conn_idx w \<and> m_conn_idx w' = m_conn_idx w"
  using failed_connect_shares_connection [OF demo_reach] by (simp add: demo_facts) blast

text \<open>
  When a timed-out connection is returned to a full pool and reconnecting fails, the count
  drops below the highest index in use; the next growth then lends a connection that another
  client still has.
\<close>

theorem failed_reconnect_shares_connection:
  assumes "db_reach (p, out)" "pool_state p = FULL" "idx \<in> set out" "idx \<noteq> m_connectorCount p - 1"
    "0 < int_of_size (m_increaseNum p)"
  shows "\<exists>p1 p2 w p3. returnConn idx True (-1, c) p = (-1, [], p1) \<and> expand (\<lambda>_. 0) p1 = Inr (0, p2) \<and>
    borrowOneConn p2 = Inr (w, p3) \<and> m_conn_idx w \<in> set out \<and> m_conn_idx w \<noteq> idx"
proof -
  note f = full_facts [OF assms(1,2)]
  define k where "k = m_connectorCount p - 1"
  define p1 where "p1 = p\<lparr>m_connectorCount := k, m_busyConnCount := k\<rparr>"
  have r: "returnConn idx True (-1, c) p = (-1, [], p1)"
    using out_in_range [OF reach_inv [OF assms(1)] assms(3)] assms(2) f(2)
    by (simp add: returnConn_def checkRunState_def p1_def k_def)
  obtain rest p2 where e: "expand (\<lambda>_. 0) p1 = Inr (0, p2)" "p2 = p1\<lparr>m_freeConnInfos := k # rest, m_connectorCount := k + growth p1, pool_state := READY\<rparr>"
      "0 < growth p1" "k + growth p1 \<le> m_maxConnector p"
    using expand_grows [of p1] assms(5) f by (auto simp: p1_def k_def)
  have "\<exists>p3. borrowOneConn p2 = Inr (make_wrapper k (Some (m_connectors p ! nat k)) True, p3)"
    using e f by (subst borrow_hd [of _ k rest]) (auto simp: p1_def k_def)
  moreover have "k \<in> set out" "k \<noteq> idx" using f assms(4) by (auto simp: k_def)
  ultimately show ?thesis using r e(1) by (metis make_wrapper_simps(1))
qed

theorem failed_reconnect_shares_connection_witness:
  "\<exists>p1 p2 w p3. returnConn 0 True (-1, 20) demo_pool = (-1, [], p1) \<and> expand (\<lambda>_. 0) p1 = Inr (0, p2) \<and>
    borrowOneConn p2 = Inr (w, p3) \<and> m_conn_idx w \<in> {0, 1} \<and> m_conn_idx w \<noteq> 0"
  using failed_reconnect_shares_connection [OF demo_reach, of 0 20] by (simp add: demo_facts)

end
