(* ===== verification/Snowflake.thy ===== *)
theory Snowflake
  imports Prelude
begin

unbundle bit_operations_syntax

section \<open>Identifiers (tools/Snowflake.hpp)\<close>

text \<open>
  The generator packs a millisecond timestamp, a data centre, a worker and a sequence number
  into a 64 bit identifier. Timestamps are integers; the left shift of the timestamp is taken
  at the width of \<^verbatim>\<open>int64_t\<close>. The steady clock is an argument: \<open>clk n\<close> is its n-th reading, and
  the state carries the number of readings made. Waiting for the next millisecond may not end,
  so it is a partial function.
\<close>

definition WORKER_ID_BITS :: nat where "WORKER_ID_BITS = 5"
definition DATACENTER_ID_BITS :: nat where "DATACENTER_ID_BITS = 5"
definition SEQUENCE_BITS :: nat where "SEQUENCE_BITS = 12"
definition MAX_WORKER_ID :: int where "MAX_WORKER_ID = push_bit WORKER_ID_BITS 1 - 1"
definition MAX_DATACENTER_ID :: int where "MAX_DATACENTER_ID = push_bit DATACENTER_ID_BITS 1 - 1"
definition WORKER_ID_SHIFT :: nat where "WORKER_ID_SHIFT = SEQUENCE_BITS"
definition DATACENTER_ID_SHIFT :: nat where "DATACENTER_ID_SHIFT = SEQUENCE_BITS + WORKER_ID_BITS"
definition TIMESTAMP_LEFT_SHIFT :: nat where
  "TIMESTAMP_LEFT_SHIFT = SEQUENCE_BITS + WORKER_ID_BITS + DATACENTER_ID_BITS"
definition SEQUENCE_MASK :: int where "SEQUENCE_MASK = push_bit SEQUENCE_BITS 1 - 1"

lemmas snowflake_consts = WORKER_ID_BITS_def DATACENTER_ID_BITS_def SEQUENCE_BITS_def MAX_WORKER_ID_def
  MAX_DATACENTER_ID_def WORKER_ID_SHIFT_def DATACENTER_ID_SHIFT_def TIMESTAMP_LEFT_SHIFT_def SEQUENCE_MASK_def

record snowflake =
  last_timestamp :: int
  sequence :: int

definition Snowflake_new :: snowflake where
  "Snowflake_new = \<lparr>last_timestamp = -1, sequence = 0\<rparr>"

definition snowflake_init :: "int \<Rightarrow> int \<Rightarrow> failure + unit" where
  "snowflake_init worker_id datacenter_id =
     (if worker_id > MAX_WORKER_ID \<or> worker_id < 0
      then Inl (Thrown ''worker Id can't be greater than 31 or less than 0'')
      else if datacenter_id > MAX_DATACENTER_ID \<or> datacenter_id < 0
      then Inl (Thrown ''datacenter Id can't be greater than 31 or less than 0'')
      else Inr ())"

partial_function (option) wait_next_millis :: "(nat \<Rightarrow> int) \<Rightarrow> int \<Rightarrow> nat \<Rightarrow> (int \<times> nat) option" where
  "wait_next_millis clk lst n = (if clk n \<le> lst then wait_next_millis clk lst (Suc n) else Some (clk n, Suc n))"

definition int64 :: "int \<Rightarrow> int" where
  "int64 x = sint (of_int x :: 64 word)"

definition snowflake_id :: "int \<Rightarrow> int \<Rightarrow> int \<Rightarrow> int \<Rightarrow> int \<Rightarrow> int" where
  "snowflake_id twepoch datacenter_id worker_id timestamp sq =
     int64 (push_bit TIMESTAMP_LEFT_SHIFT (timestamp - twepoch)) OR push_bit DATACENTER_ID_SHIFT datacenter_id OR
     push_bit WORKER_ID_SHIFT worker_id OR sq"

text \<open>
  The next identifier. The code reads data centre and worker from the configuration at each call; here they are arguments,
  the values of a configuration that does not change while identifiers are made.
\<close>

definition nextid ::
  "(nat \<Rightarrow> int) \<Rightarrow> int \<Rightarrow> int \<Rightarrow> int \<Rightarrow> snowflake \<times> nat \<Rightarrow> (int \<times> snowflake \<times> nat) option" where
  "nextid clk twepoch dc wk sn =
     (let (s, n) = sn; timestamp = clk n
      in map_option (\<lambda>(ts, sq, n'). (snowflake_id twepoch dc wk ts sq, \<lparr>last_timestamp = ts, sequence = sq\<rparr>, n'))
           (if last_timestamp s = timestamp
            then (let sq = (sequence s + 1) AND SEQUENCE_MASK
                  in if sq = 0
                     then map_option (\<lambda>(ts, n'). (ts, sq, n')) (wait_next_millis clk (last_timestamp s) (Suc n))
                     else Some (timestamp, sq, Suc n))
            else Some (timestamp, 0, Suc n)))"

fun next_ids :: "(nat \<Rightarrow> int) \<Rightarrow> int \<Rightarrow> int \<Rightarrow> int \<Rightarrow> nat \<Rightarrow> snowflake \<times> nat \<Rightarrow> int list option" where
  "next_ids clk twepoch dc wk 0 sn = Some []"
| "next_ids clk twepoch dc wk (Suc k) sn =
     (case nextid clk twepoch dc wk sn of
        None \<Rightarrow> None
      | Some (i, sn') \<Rightarrow> map_option ((#) i) (next_ids clk twepoch dc wk k sn'))"

subsection \<open>The layout of an identifier\<close>

lemma or_push_add:
  assumes "0 \<le> b" "b < 2 ^ k"
  shows "push_bit k (a :: int) OR b = a * 2 ^ k + b"
proof -
  have "take_bit k b = b" using assms by (simp add: take_bit_int_eq_self)
  then have "\<not> bit (push_bit k a) n \<or> \<not> bit b n" for n
    by (metis bit_push_bit_iff bit_take_bit_iff not_less)
  then have "push_bit k a + b = push_bit k a OR b" by (intro disjunctive_add_eq_or) (auto simp: bit_eq_iff bit_and_iff)
  then show ?thesis by (simp add: push_bit_eq_mult)
qed

lemma int64_id: "0 \<le> x \<Longrightarrow> x < 2 ^ 63 \<Longrightarrow> int64 x = x"
  by (simp add: int64_def sint_sbintrunc' signed_take_bit_int_eq_self)

lemma snowflake_id_value:
  assumes "0 \<le> ts - ep" "ts - ep < 2 ^ 41" "0 \<le> dc" "dc < 32" "0 \<le> wk" "wk < 32" "0 \<le> sq" "sq < 4096"
  shows "snowflake_id ep dc wk ts sq = (ts - ep) * 2 ^ 22 + dc * 2 ^ 17 + wk * 2 ^ 12 + sq"
proof -
  have 1: "push_bit 12 wk OR sq = wk * 2 ^ 12 + sq" using or_push_add [of sq 12 wk] assms by simp
  have 2: "push_bit 17 dc OR (wk * 2 ^ 12 + sq) = dc * 2 ^ 17 + (wk * 2 ^ 12 + sq)"
    using or_push_add [of "wk * 2 ^ 12 + sq" 17 dc] assms by simp
  have 3: "push_bit 22 (ts - ep) OR (dc * 2 ^ 17 + (wk * 2 ^ 12 + sq)) =
      (ts - ep) * 2 ^ 22 + (dc * 2 ^ 17 + (wk * 2 ^ 12 + sq))"
    using or_push_add [of "dc * 2 ^ 17 + (wk * 2 ^ 12 + sq)" 22 "ts - ep"] assms by simp
  have "int64 (push_bit 22 (ts - ep)) = push_bit 22 (ts - ep)"
    by (rule int64_id) (use assms in \<open>simp_all add: push_bit_eq_mult\<close>)
  then show ?thesis using 1 2 3 by (simp add: snowflake_id_def snowflake_consts or.assoc)
qed

subsection \<open>Identifiers increase\<close>

text \<open>
  What is assumed of the steady clock: it never goes back, advances within \<open>w\<close> readings, and
  for the first \<open>N\<close> readings lies in the 41 bit window after the epoch.
\<close>

definition steady :: "(nat \<Rightarrow> int) \<Rightarrow> int \<Rightarrow> nat \<Rightarrow> nat \<Rightarrow> bool" where
  "steady clk ep w N \<longleftrightarrow> 0 \<le> ep \<and> ep \<le> clk 0 \<and> (\<forall>i j. i \<le> j \<longrightarrow> clk i \<le> clk j) \<and> (\<forall>i. clk i < clk (i + w)) \<and>
     (\<forall>i<N. clk i - ep < 2 ^ 41)"

lemma steadyD:
  assumes "steady clk ep w N"
  shows "ep \<le> clk i" "0 \<le> clk i" "i \<le> j \<Longrightarrow> clk i \<le> clk j" "clk i < clk (i + w)" "i < N \<Longrightarrow> clk i - ep < 2 ^ 41" "0 < w"
proof -
  show ep: "ep \<le> clk i" using assms unfolding steady_def by (meson le0 order_trans)
  then show "0 \<le> clk i" using assms unfolding steady_def by simp
  show "i \<le> j \<Longrightarrow> clk i \<le> clk j" "clk i < clk (i + w)" "i < N \<Longrightarrow> clk i - ep < 2 ^ 41"
    using assms unfolding steady_def by blast+
  then show "0 < w" by (cases w) simp_all
qed

lemma wait_unfold:
  "wait_next_millis clk lst n = (if clk n \<le> lst then wait_next_millis clk lst (Suc n) else Some (clk n, Suc n))"
  by (rule wait_next_millis.simps)

lemma wait_ends:
  assumes "n \<le> j" "lst < clk j"
  shows "\<exists>m\<le>j. n \<le> m \<and> wait_next_millis clk lst n = Some (clk m, Suc m) \<and> lst < clk m"
  using assms
proof (induction "j - n" arbitrary: n)
  case 0
  then show ?case by (intro exI [of _ n]) (simp add: wait_unfold [of clk lst n])
next
  case (Suc d)
  show ?case
  proof (cases "clk n \<le> lst")
    case True
    have "d = j - Suc n" "Suc n \<le> j" using Suc.hyps(2) by simp_all
    then obtain m where "m \<le> j" "Suc n \<le> m" "wait_next_millis clk lst (Suc n) = Some (clk m, Suc m)" "lst < clk m"
      using Suc.hyps(1) Suc.prems(2) by blast
    then show ?thesis using True by (intro exI [of _ m]) (simp add: wait_unfold [of clk lst n])
  next
    case False
    then show ?thesis using Suc.prems(1) by (intro exI [of _ n]) (simp add: wait_unfold [of clk lst n])
  qed
qed

text \<open>The state after at least one identifier, and the value the next one has to exceed.\<close>

definition used :: "(nat \<Rightarrow> int) \<Rightarrow> snowflake \<times> nat \<Rightarrow> bool" where
  "used clk sn \<longleftrightarrow> (\<exists>m < snd sn. last_timestamp (fst sn) = clk m) \<and> 0 \<le> sequence (fst sn) \<and> sequence (fst sn) < 4096"

definition floor_of :: "int \<Rightarrow> int \<Rightarrow> int \<Rightarrow> snowflake \<times> nat \<Rightarrow> int" where
  "floor_of ep dc wk sn =
     (if fst sn = Snowflake_new then -1 else snowflake_id ep dc wk (last_timestamp (fst sn)) (sequence (fst sn)))"

lemma mask_sequence: "(x AND SEQUENCE_MASK) = x mod 4096"
proof -
  have "SEQUENCE_MASK = mask 12" by (simp add: snowflake_consts mask_eq_exp_minus_1)
  then have "x AND SEQUENCE_MASK = take_bit 12 x" by (simp only: take_bit_eq_mask)
  then show ?thesis by (simp add: take_bit_eq_mod)
qed

lemma nextid_core:
  assumes "steady clk ep w N" "used clk (s, n) \<or> s = Snowflake_new"
  obtains m sq where "nextid clk ep dc wk (s, n) = Some (snowflake_id ep dc wk (clk m) sq, \<lparr>last_timestamp = clk m, sequence = sq\<rparr>, Suc m)"
    "0 \<le> sq" "sq < 4096" "last_timestamp s < clk m \<or> last_timestamp s = clk m \<and> sequence s < sq" "m \<le> n + w"
proof (cases "last_timestamp s = clk n")
  case True
  have u: "0 \<le> sequence s" "sequence s < 4096"
  proof -
    have "clk n \<noteq> -1" using steadyD(2) [OF assms(1), of n] by simp
    then show "0 \<le> sequence s" "sequence s < 4096" using assms(2) True by (auto simp: used_def Snowflake_new_def)
  qed
  show ?thesis
  proof (cases "(sequence s + 1) mod 4096 = 0")
    case z: True
    obtain m where m: "wait_next_millis clk (clk n) (Suc n) = Some (clk m, Suc m)" "clk n < clk m" "m \<le> n + w"
      using wait_ends [of "Suc n" "n + w" "clk n" clk] steadyD(4,6) [OF assms(1)] by auto
    show ?thesis by (rule that [of m 0]) (use True z m in \<open>simp_all add: nextid_def mask_sequence Let_def\<close>)
  next
    case False
    then have "(sequence s + 1) mod 4096 = sequence s + 1" using u by (cases "sequence s = 4095") simp_all
    then show ?thesis using True False u
      by (intro that [of n "sequence s + 1"]) (simp_all add: nextid_def mask_sequence Let_def)
  qed
next
  case False
  have "last_timestamp s \<le> clk n"
  proof (cases "used clk (s, n)")
    case True
    then show ?thesis using steadyD(3) [OF assms(1)] by (auto simp: used_def)
  next
    case False
    then show ?thesis using assms(2) steadyD(2) [OF assms(1), of n] by (auto simp: Snowflake_new_def)
  qed
  then show ?thesis using False by (intro that [of n 0]) (simp_all add: nextid_def Let_def)
qed

lemma next_ids_increase:
  assumes "steady clk ep w N" "0 \<le> dc" "dc < 32" "0 \<le> wk" "wk < 32"
    "used clk sn \<or> fst sn = Snowflake_new" "snd sn + k * Suc w \<le> N"
  shows "\<exists>ids. next_ids clk ep dc wk k sn = Some ids \<and> length ids = k \<and> sorted_wrt (<) ids \<and>
    (\<forall>i\<in>set ids. floor_of ep dc wk sn < i \<and> (\<exists>m<N. \<exists>sq. 0 \<le> sq \<and> sq < 4096 \<and> i = snowflake_id ep dc wk (clk m) sq))"
  using assms(6,7)
proof (induction k arbitrary: sn)
  case (Suc k)
  obtain s n where sn: "sn = (s, n)" by fastforce
  have win: "0 \<le> clk i - ep" "clk i \<noteq> -1" for i
    using steadyD(1,2) [OF assms(1), of i] by simp_all
  note val = snowflake_id_value [OF win(1) steadyD(5) [OF assms(1)] assms(2-5)]
  obtain m sq where r: "nextid clk ep dc wk (s, n) = Some (snowflake_id ep dc wk (clk m) sq, \<lparr>last_timestamp = clk m, sequence = sq\<rparr>, Suc m)"
    "0 \<le> sq" "sq < 4096" "last_timestamp s < clk m \<or> last_timestamp s = clk m \<and> sequence s < sq" "m \<le> n + w"
    using nextid_core [OF assms(1), of s n] Suc.prems(1) sn by (metis fst_conv)
  have m: "m < N" "Suc m + k * Suc w \<le> N" using Suc.prems(2) sn r(5) by simp_all
  let ?i = "snowflake_id ep dc wk (clk m) sq"
  let ?sn = "(\<lparr>last_timestamp = clk m, sequence = sq\<rparr>, Suc m)"
  have i: "?i = (clk m - ep) * 2 ^ 22 + dc * 2 ^ 17 + wk * 2 ^ 12 + sq" by (rule val [OF m(1) r(2,3)])
  have lt: "floor_of ep dc wk sn < ?i"
  proof (cases "s = Snowflake_new")
    case True
    have "0 \<le> ?i" unfolding i using win(1) [of m] assms(2,4) r(2) by simp
    then show ?thesis using True sn by (simp add: floor_of_def)
  next
    case False
    then obtain m0 where m0: "last_timestamp s = clk m0" "m0 < n" "0 \<le> sequence s" "sequence s < 4096"
      using Suc.prems(1) sn by (auto simp: used_def)
    have "m0 < N" using m0(2) Suc.prems(2) sn by simp
    then have v: "floor_of ep dc wk sn = (clk m0 - ep) * 2 ^ 22 + dc * 2 ^ 17 + wk * 2 ^ 12 + sequence s"
      using False sn val [OF _ m0(3,4), of m0] m0(1) by (simp add: floor_of_def)
    show ?thesis unfolding v i using r(2,4) m0(1,4) by auto
  qed
  have u: "used clk ?sn" using r(2,3) by (auto simp: used_def)
  then obtain ids where ids: "next_ids clk ep dc wk k ?sn = Some ids" "length ids = k" "sorted_wrt (<) ids"
    "\<forall>i\<in>set ids. floor_of ep dc wk ?sn < i \<and> (\<exists>m<N. \<exists>sq. 0 \<le> sq \<and> sq < 4096 \<and> i = snowflake_id ep dc wk (clk m) sq)"
    using Suc.IH [of ?sn] m(2) by auto
  have "floor_of ep dc wk ?sn = ?i" using win(2) [of m] by (simp add: floor_of_def Snowflake_new_def)
  then show ?case using r(1-3) m(1) sn ids lt by (intro exI [of _ "?i # ids"]) fastforce
qed simp

lemma id_fields:
  assumes "0 \<le> T" "T < 2 ^ 41" "0 \<le> dc" "dc < 32" "0 \<le> wk" "wk < 32" "0 \<le> sq" "sq < 4096"
    "i = T * 2 ^ 22 + dc * 2 ^ 17 + wk * 2 ^ 12 + (sq :: int)"
  shows "0 \<le> i" "i < 2 ^ 63" "(i div 2 ^ 17) mod 32 = dc" "(i div 2 ^ 12) mod 32 = wk" "i div 2 ^ 22 = T"
proof -
  have d: "i div 4194304 = T" "i div 131072 = T * 32 + dc" "i div 4096 = (T * 32 + dc) * 32 + wk" "0 \<le> i" "i < 2 ^ 63"
    using assms by simp_all
  have "(a * 32 + wk) mod 32 = wk" for a :: int using assms(5,6) by simp
  from this [of "T * 32 + dc"] show "(i div 2 ^ 12) mod 32 = wk" unfolding d(3) [symmetric] by simp
  show "0 \<le> i" "i < 2 ^ 63" "(i div 2 ^ 17) mod 32 = dc" "i div 2 ^ 22 = T" using d assms(3,4) by simp_all
qed

text \<open>
  C29. The generator always returns, and the identifiers it hands out are strictly increasing, so
  no two are equal, however many are asked for within one millisecond; each is a non-negative
  64 bit number from which the timestamp, the data centre and the worker can be read off.
\<close>

theorem snowflake_ids_unique:
  assumes "steady clk ep w (k * Suc w)" "snowflake_init wk dc = Inr ()"
  shows "\<exists>ids. next_ids clk ep dc wk k (Snowflake_new, 0) = Some ids \<and> length ids = k \<and> sorted_wrt (<) ids \<and>
    (\<forall>i\<in>set ids. 0 \<le> i \<and> i < 2 ^ 63 \<and> (i div 2 ^ 17) mod 32 = dc \<and> (i div 2 ^ 12) mod 32 = wk \<and>
       (\<exists>m. i div 2 ^ 22 = clk m - ep))"
proof -
  have w: "0 \<le> dc" "dc < 32" "0 \<le> wk" "wk < 32"
    using assms(2) by (auto simp: snowflake_init_def snowflake_consts split: if_splits)
  have fields: "0 \<le> i \<and> i < 2 ^ 63 \<and> (i div 2 ^ 17) mod 32 = dc \<and> (i div 2 ^ 12) mod 32 = wk \<and> i div 2 ^ 22 = clk m - ep"
    if "m < k * Suc w" "0 \<le> sq" "sq < 4096" "i = snowflake_id ep dc wk (clk m) sq" for i m sq
  proof -
    have win: "0 \<le> clk m - ep" "clk m - ep < 2 ^ 41"
      using steadyD(1) [OF assms(1), of m] steadyD(5) [OF assms(1) that(1)] by simp_all
    have "i = (clk m - ep) * 2 ^ 22 + dc * 2 ^ 17 + wk * 2 ^ 12 + sq" using snowflake_id_value [OF win w that(2,3)] that(4) by simp
    from id_fields [OF win w that(2,3) this] show ?thesis by blast
  qed
  obtain ids where ids: "next_ids clk ep dc wk k (Snowflake_new, 0) = Some ids" "length ids = k" "sorted_wrt (<) ids"
    "\<forall>i\<in>set ids. \<exists>m<k * Suc w. \<exists>sq. 0 \<le> sq \<and> sq < 4096 \<and> i = snowflake_id ep dc wk (clk m) sq"
    using next_ids_increase [OF assms(1) w, of "(Snowflake_new, 0)" k] by auto
  have "0 \<le> i \<and> i < 2 ^ 63 \<and> (i div 2 ^ 17) mod 32 = dc \<and> (i div 2 ^ 12) mod 32 = wk \<and> (\<exists>m. i div 2 ^ 22 = clk m - ep)"
    if i: "i \<in> set ids" for i
  proof -
    obtain m sq where "m < k * Suc w" "0 \<le> sq" "sq < 4096" "i = snowflake_id ep dc wk (clk m) sq" using ids(4) i by blast
    from fields [OF this] show ?thesis by blast
  qed
  then show ?thesis using ids(1-3) by blast
qed

text \<open>A clock that advances with every third reading, for the witness.\<close>

definition demo_steady :: "nat \<Rightarrow> int" where
  "demo_steady n = 1000 + int (n div 3)"

theorem snowflake_ids_unique_witness:
  "\<exists>ids. next_ids demo_steady 900 2 7 5 (Snowflake_new, 0) = Some ids \<and> length ids = 5 \<and> sorted_wrt (<) ids"
proof -
  have "n div 3 < 2 ^ 30" if "n < 20" for n :: nat using that by (simp add: div_less_iff_less_mult)
  moreover have "(i + 3) div 3 = Suc (i div 3)" for i :: nat by simp
  ultimately have "steady demo_steady 900 3 (5 * Suc 3)"
    by (auto simp: steady_def demo_steady_def div_le_mono)
  moreover have "snowflake_init 7 2 = Inr ()" by (simp add: snowflake_init_def snowflake_consts)
  ultimately show ?thesis using snowflake_ids_unique [of demo_steady 900 3 5 7 2] by blast
qed

end
