(* ===== verification/Fd_Manager.thy ===== *)
theory Fd_Manager
  imports Prelude
begin

section \<open>Descriptor contexts (basic/fdManager)\<close>

text \<open>
  \<^verbatim>\<open>FdCtx\<close> records what the framework knows of a descriptor: whether it is a socket, whether the
  user wants it non-blocking, and its time limits in microseconds. \<^verbatim>\<open>FdManager\<close> keeps one context
  per descriptor in a vector indexed by it. Contexts are shared objects: the vector holds
  references into a store. The result of \<^verbatim>\<open>fstat\<close> and the flags of the descriptor are arguments.
  An operation is one step; \<^verbatim>\<open>get\<close> checks the slot twice, under the shared and the exclusive lock,
  and without interleaving both checks agree.
\<close>

record fd_ctx =
  m_is_init :: bool
  m_is_closed :: bool
  m_sysNoblock :: bool
  m_userNoblock :: bool
  m_is_socket :: bool
  m_fd :: int
  m_recvTimeout :: u64
  m_sendTimeout :: u64

text \<open>
  \<open>st\<close> is \<open>None\<close> when \<^verbatim>\<open>fstat\<close> fails and otherwise tells whether the descriptor is a socket;
  \<open>nonblock\<close> is the \<^verbatim>\<open>O_NONBLOCK\<close> flag found by \<^verbatim>\<open>F_GETFL\<close>. The boolean returned beside the context
  says whether \<^verbatim>\<open>F_SETFL\<close> is called to set the flag.
\<close>

definition FdCtx_init :: "bool option \<Rightarrow> bool \<Rightarrow> fd_ctx \<Rightarrow> bool \<times> bool \<times> fd_ctx" where
  "FdCtx_init st nonblock c =
     (if m_is_init c then (True, False, c)
      else (let c1 = c\<lparr>m_recvTimeout := -1, m_sendTimeout := -1\<rparr>;
                c2 = (case st of
                        None \<Rightarrow> c1\<lparr>m_is_init := False, m_is_socket := False\<rparr>
                      | Some sock \<Rightarrow> c1\<lparr>m_is_init := True, m_is_socket := sock\<rparr>);
                c3 = c2\<lparr>m_sysNoblock := m_is_socket c2, m_userNoblock := False, m_is_closed := False\<rparr>
            in (m_is_init c3, m_is_socket c2 \<and> \<not> nonblock, c3)))"

definition FdCtx_new :: "int \<Rightarrow> bool option \<Rightarrow> bool \<Rightarrow> bool \<times> fd_ctx" where
  "FdCtx_new fd st nonblock =
     snd (FdCtx_init st nonblock
       \<lparr>m_is_init = False, m_is_closed = False, m_sysNoblock = False, m_userNoblock = False, m_is_socket = False,
        m_fd = fd, m_recvTimeout = -1, m_sendTimeout = -1\<rparr>)"

definition FdCtx_close :: "fd_ctx \<Rightarrow> bool" where
  "FdCtx_close c = True"

definition setUserNoblock :: "bool \<Rightarrow> fd_ctx \<Rightarrow> fd_ctx" where
  "setUserNoblock v c = c\<lparr>m_userNoblock := v\<rparr>"

definition setSysNoblock :: "bool \<Rightarrow> fd_ctx \<Rightarrow> fd_ctx" where
  "setSysNoblock v c = c\<lparr>m_sysNoblock := v\<rparr>"

abbreviation SO_RCVTIMEO :: int where "SO_RCVTIMEO \<equiv> 20"
abbreviation SO_SNDTIMEO :: int where "SO_SNDTIMEO \<equiv> 21"

definition FdCtx_setTimeout :: "int \<Rightarrow> u64 \<Rightarrow> fd_ctx \<Rightarrow> fd_ctx" where
  "FdCtx_setTimeout type time c = (if type = SO_RCVTIMEO then c\<lparr>m_recvTimeout := time\<rparr> else c\<lparr>m_sendTimeout := time\<rparr>)"

definition FdCtx_getTimeout :: "int \<Rightarrow> fd_ctx \<Rightarrow> u64" where
  "FdCtx_getTimeout type c = (if type = SO_RCVTIMEO then m_recvTimeout c else m_sendTimeout c)"

subsection \<open>FdManager\<close>

record fd_mgr =
  m_fdCtxs :: "nat option list"
  ctx_store :: "nat \<Rightarrow> fd_ctx"
  ctx_next :: nat

definition FdManager_new :: "(nat \<Rightarrow> fd_ctx) \<Rightarrow> fd_mgr" where
  "FdManager_new store = \<lparr>m_fdCtxs = replicate 64 None, ctx_store = store, ctx_next = 0\<rparr>"

text \<open>\<^verbatim>\<open>std::vector::resize\<close>: cuts the vector or fills it up with null references.\<close>

definition resize :: "nat \<Rightarrow> 'a option list \<Rightarrow> 'a option list" where
  "resize n xs = take n xs @ replicate (n - length xs) None"

text \<open>
  \<^verbatim>\<open>get\<close> without creation compares as \<^verbatim>\<open>int\<close>, so a negative descriptor reads before the vector. With
  creation the first comparison is unsigned (a negative descriptor is larger than any size) and
  the second one signed. \<open>fd * 1.5\<close> is a floating point product that is cut to a size; a negative
  one is undefined.
\<close>

definition fdm_get :: "int \<Rightarrow> bool \<Rightarrow> bool option \<Rightarrow> bool \<Rightarrow> fd_mgr \<Rightarrow> failure + nat option \<times> fd_mgr" where
  "fdm_get fd auto_create st nonblock m =
     (let n = length (m_fdCtxs m)
      in if \<not> auto_create
         then (if fd < int n then (if fd < 0 then Inl OutOfRange else Inr (m_fdCtxs m ! nat fd, m)) else Inr (None, m))
         else if 0 \<le> fd \<and> fd < int n \<and> m_fdCtxs m ! nat fd \<noteq> None then Inr (m_fdCtxs m ! nat fd, m)
         else if fd < 0 then Inl OutOfRange
         else (let r = ctx_next m;
                   ctxs = resize (nat fd * 3 div 2) (m_fdCtxs m)
               in if length ctxs \<le> nat fd then Inl OutOfRange
                  else Inr (Some r, m\<lparr>m_fdCtxs := ctxs[nat fd := Some r],
                                     ctx_store := (ctx_store m)(r := snd (FdCtx_new fd st nonblock)), ctx_next := Suc r\<rparr>)))"

text \<open>\<^verbatim>\<open>del\<close> compares unsigned, so a negative descriptor is ignored.\<close>

definition fdm_del :: "int \<Rightarrow> fd_mgr \<Rightarrow> fd_mgr" where
  "fdm_del fd m = (if fd < 0 \<or> int (length (m_fdCtxs m)) \<le> fd then m else m\<lparr>m_fdCtxs := (m_fdCtxs m)[nat fd := None]\<rparr>)"

text \<open>Applying an operation to the context found under a reference.\<close>

definition update_ctx :: "nat \<Rightarrow> (fd_ctx \<Rightarrow> fd_ctx) \<Rightarrow> fd_mgr \<Rightarrow> fd_mgr" where
  "update_ctx r f m = m\<lparr>ctx_store := (ctx_store m)(r := f (ctx_store m r))\<rparr>"

subsection \<open>Contexts as a partial function\<close>

definition ctx_of :: "fd_mgr \<Rightarrow> int \<Rightarrow> fd_ctx option" where
  "ctx_of m fd =
     (if 0 \<le> fd \<and> fd < int (length (m_fdCtxs m)) then map_option (ctx_store m) (m_fdCtxs m ! nat fd) else None)"

text \<open>References are below the next free one, and no two descriptors share one.\<close>

definition fdm_inv :: "fd_mgr \<Rightarrow> bool" where
  "fdm_inv m \<longleftrightarrow> (\<forall>i<length (m_fdCtxs m). \<forall>r. m_fdCtxs m ! i = Some r \<longrightarrow> r < ctx_next m) \<and>
     (\<forall>i<length (m_fdCtxs m). \<forall>j<length (m_fdCtxs m). \<forall>r. m_fdCtxs m ! i = Some r \<longrightarrow> m_fdCtxs m ! j = Some r \<longrightarrow> i = j)"

lemma length_resize [simp]: "length (resize n xs) = n"
  by (simp add: resize_def)

lemma resize_eq_Nil [simp]: "resize n xs = [] \<longleftrightarrow> n = 0"
  by (metis length_0_conv length_resize)

lemma nth_resize: "i < n \<Longrightarrow> resize n xs ! i = (if i < length xs then xs ! i else None)"
  by (simp add: resize_def nth_append)

lemma FdCtx_new_fields:
  "m_is_closed (snd (FdCtx_new fd st nb)) = False" "m_userNoblock (snd (FdCtx_new fd st nb)) = False"
  "m_is_init (snd (FdCtx_new fd st nb)) = (st \<noteq> None)" "m_is_socket (snd (FdCtx_new fd st nb)) = (st = Some True)"
  "m_sysNoblock (snd (FdCtx_new fd st nb)) = (st = Some True)" "fst (FdCtx_new fd st nb) = (st = Some True \<and> \<not> nb)"
  "m_recvTimeout (snd (FdCtx_new fd st nb)) = -1" "m_sendTimeout (snd (FdCtx_new fd st nb)) = -1"
  by (cases st; simp add: FdCtx_new_def FdCtx_init_def Let_def)+

lemma fdm_new_inv: "fdm_inv (FdManager_new st)"
  by (simp add: fdm_inv_def FdManager_new_def)

text \<open>What \<^verbatim>\<open>get\<close> with creation does to a descriptor that has no context.\<close>

lemma create_ctx:
  fixes st nb
  assumes "2 \<le> fd" "ctx_of m fd = None" "fdm_inv m"
  defines "m' \<equiv> m\<lparr>m_fdCtxs := (resize (nat fd * 3 div 2) (m_fdCtxs m))[nat fd := Some (ctx_next m)],
      ctx_store := (ctx_store m)(ctx_next m := snd (FdCtx_new fd st nb)), ctx_next := Suc (ctx_next m)\<rparr>"
  shows "fdm_get fd True st nb m = Inr (Some (ctx_next m), m')" "fdm_inv m'"
    "ctx_of m' = (\<lambda>g. if g = fd then Some (snd (FdCtx_new fd st nb)) else if g < fd * 3 div 2 then ctx_of m g else None)"
proof -
  have n: "nat fd < nat fd * 3 div 2" using assms(1) by linarith
  have "\<not> (0 \<le> fd \<and> fd < int (length (m_fdCtxs m)) \<and> m_fdCtxs m ! nat fd \<noteq> None)"
    using assms(2) by (auto simp: ctx_of_def split: if_splits)
  then show "fdm_get fd True st nb m = Inr (Some (ctx_next m), m')"
    using n assms(1) by (simp add: fdm_get_def Let_def m'_def)
  show "fdm_inv m'"
    using assms(3) n by (auto simp: fdm_inv_def m'_def nth_list_update nth_resize less_Suc_eq split: if_splits)
  show "ctx_of m' = (\<lambda>g. if g = fd then Some (snd (FdCtx_new fd st nb)) else if g < fd * 3 div 2 then ctx_of m g else None)"
  proof
    fix g
    have sz: "int (nat fd * 3 div 2) = fd * 3 div 2" using assms(1) by (simp add: zdiv_int)
    show "ctx_of m' g = (if g = fd then Some (snd (FdCtx_new fd st nb)) else if g < fd * 3 div 2 then ctx_of m g else None)"
    proof (cases "0 \<le> g \<and> g < fd * 3 div 2")
      case True
      then have gi: "nat g < nat fd * 3 div 2" using sz by linarith
      have "m_fdCtxs m ! nat g = Some r \<Longrightarrow> nat g < length (m_fdCtxs m) \<Longrightarrow> r \<noteq> ctx_next m" for r
        using assms(3) by (auto simp: fdm_inv_def)
      moreover have "g = fd \<longleftrightarrow> nat g = nat fd" using True assms(1) by auto
      moreover have "nat g < length (m_fdCtxs m) \<longleftrightarrow> g < int (length (m_fdCtxs m))" using True by linarith
      ultimately show ?thesis
        using True gi sz n by (cases "m_fdCtxs m ! nat g") (auto simp: ctx_of_def m'_def nth_list_update nth_resize)
    next
      case False
      then have "g \<noteq> fd" using assms(1) n sz by auto
      then show ?thesis using False sz by (auto simp: ctx_of_def m'_def)
    qed
  qed
qed

lemma existing_ctx:
  assumes "ctx_of m fd = Some c"
  shows "\<exists>r. fdm_get fd True st nb m = Inr (Some r, m) \<and> fdm_get fd False st' nb' m = Inr (Some r, m) \<and> ctx_store m r = c"
proof -
  obtain r where "0 \<le> fd" "fd < int (length (m_fdCtxs m))" "m_fdCtxs m ! nat fd = Some r" "ctx_store m r = c"
    using assms by (auto simp: ctx_of_def split: if_splits)
  then show ?thesis by (simp add: fdm_get_def Let_def)
qed

lemma lookup_ctx:
  assumes "0 \<le> fd"
  shows "\<exists>r. fdm_get fd False st nb m = Inr (r, m) \<and> map_option (ctx_store m) r = ctx_of m fd"
  using assms by (simp add: fdm_get_def ctx_of_def Let_def)

lemma del_ctx: "ctx_of (fdm_del fd m) = (ctx_of m)(fd := None)" "fdm_inv m \<Longrightarrow> fdm_inv (fdm_del fd m)"
proof -
  show "ctx_of (fdm_del fd m) = (ctx_of m)(fd := None)"
    by (rule ext) (auto simp: ctx_of_def fdm_del_def nth_list_update)
  show "fdm_inv m \<Longrightarrow> fdm_inv (fdm_del fd m)"
    by (auto simp: fdm_inv_def fdm_del_def nth_list_update split: if_splits)
qed

text \<open>
  A descriptor from 2 on can always be given a context: \<^verbatim>\<open>get\<close> with creation returns the
  context it has or a new one, a later \<^verbatim>\<open>get\<close> finds the same, the contexts of all other
  descriptors below one and a half times its number are untouched, and \<^verbatim>\<open>del\<close> removes exactly
  the given one.
\<close>

theorem get_creates_context:
  assumes "fdm_inv m" "2 \<le> fd"
  shows "\<exists>r m'. fdm_get fd True st nb m = Inr (Some r, m') \<and> fdm_inv m' \<and> fdm_get fd False st' nb' m' = Inr (Some r, m') \<and>
    ctx_of m' fd = Some (case ctx_of m fd of Some c \<Rightarrow> c | None \<Rightarrow> snd (FdCtx_new fd st nb)) \<and>
    (\<forall>g<fd * 3 div 2. g \<noteq> fd \<longrightarrow> ctx_of m' g = ctx_of m g) \<and>
    ctx_of (fdm_del fd m') = (ctx_of m')(fd := None) \<and> fdm_inv (fdm_del fd m')"
proof (cases "ctx_of m fd")
  case None
  note c = create_ctx [OF assms(2) None assms(1), of st nb]
  define m' where "m' = m\<lparr>m_fdCtxs := (resize (nat fd * 3 div 2) (m_fdCtxs m))[nat fd := Some (ctx_next m)],
      ctx_store := (ctx_store m)(ctx_next m := snd (FdCtx_new fd st nb)), ctx_next := Suc (ctx_next m)\<rparr>"
  note c = c [folded m'_def]
  have "nat fd < nat fd * 3 div 2" using assms(2) by linarith
  then have "fdm_get fd False st' nb' m' = Inr (Some (ctx_next m), m')" using assms(2)
    by (simp add: fdm_get_def Let_def m'_def)
  then show ?thesis using c del_ctx [where fd = fd and m = m'] None by auto
next
  case (Some c)
  then show ?thesis using existing_ctx [OF Some, of st nb st' nb'] assms del_ctx [where fd = fd and m = m] by auto
qed

definition demo_store :: "nat \<Rightarrow> fd_ctx" where
  "demo_store r = snd (FdCtx_new 0 None False)"

theorem get_creates_context_witness:
  "\<exists>r m'. fdm_get 70 True (Some True) False (FdManager_new demo_store) = Inr (Some r, m') \<and>
     fdm_get 70 False None False m' = Inr (Some r, m') \<and> ctx_of m' 70 = Some (snd (FdCtx_new 70 (Some True) False))"
proof -
  have "ctx_of (FdManager_new demo_store) 70 = None" by (simp add: ctx_of_def FdManager_new_def)
  then show ?thesis using get_creates_context [OF fdm_new_inv, of 70 "Some True" False demo_store None False] by auto
qed

text \<open>
  The growth of the vector may shrink it: creating the context of a descriptor drops the
  contexts of all descriptors from one and a half times its number on, although they are
  still open. For the descriptors 0 and 1 the element written is past the end of the vector.
\<close>

theorem get_drops_contexts:
  assumes "fdm_inv m" "2 \<le> fd" "ctx_of m fd = None" "fd * 3 div 2 \<le> g" "ctx_of m g = Some c"
  shows "(\<exists>r m'. fdm_get fd True st nb m = Inr (Some r, m') \<and> ctx_of m' g = None \<and> fdm_get g False st' nb' m' = Inr (None, m')) \<and>
    (\<forall>k\<in>{0, 1}. ctx_of m k = None \<longrightarrow> fdm_get k True st nb m = Inl OutOfRange)"
proof
  note cr = create_ctx [OF assms(2,3,1), of st nb]
  have "g \<noteq> fd" "0 \<le> g" using assms(2,4) by auto
  then have "ctx_of m' g = None \<longrightarrow> fdm_get g False st' nb' m' = Inr (None, m')" for m'
    using lookup_ctx [of g st' nb' m'] by auto
  then show "\<exists>r m'. fdm_get fd True st nb m = Inr (Some r, m') \<and> ctx_of m' g = None \<and> fdm_get g False st' nb' m' = Inr (None, m')"
    using cr \<open>g \<noteq> fd\<close> assms(4) by auto
  show "\<forall>k\<in>{0, 1}. ctx_of m k = None \<longrightarrow> fdm_get k True st nb m = Inl OutOfRange"
    by (auto simp: fdm_get_def ctx_of_def Let_def split: if_splits)
qed

theorem get_drops_contexts_witness:
  "\<exists>m r m'. fdm_get 10 True (Some True) False (FdManager_new demo_store) = Inr (Some r, m) \<and> fdm_get 6 True (Some True) False m = Inr (Some (Suc r), m') \<and>
     fdm_get 10 False None False m' = Inr (None, m')"
proof -
  obtain m r where m: "fdm_get 10 True (Some True) False (FdManager_new demo_store) = Inr (Some r, m)"
      "r = 0" "m = \<lparr>m_fdCtxs = (replicate 15 None)[10 := Some 0], ctx_store = demo_store(0 := snd (FdCtx_new 10 (Some True) False)), ctx_next = 1\<rparr>"
    by (simp add: fdm_get_def FdManager_new_def resize_def)
  have "fdm_inv m" by (auto simp: fdm_inv_def m(3) nth_list_update split: if_splits)
  moreover have "ctx_of m 6 = None" "ctx_of m 10 = Some (snd (FdCtx_new 10 (Some True) False))" by (simp_all add: ctx_of_def m(3))
  moreover have "fdm_get 6 True (Some True) False m = Inr (Some r', m') \<Longrightarrow> r' = Suc r" for r' m'
    by (auto simp: fdm_get_def m(2,3) Let_def resize_def)
  ultimately show ?thesis using get_drops_contexts [of m 6 10 _ "Some True" False None False] m(1) by auto
qed

end
