(* ===== verification/Hook.thy ===== *)
theory Hook
  imports Fd_Context Timeout Fd_Manager
begin

unbundle bit_operations_syntax

section \<open>Coroutine system calls (coroutine/coro20/hook)\<close>

text \<open>
  The system calls a coroutine uses in place of the blocking ones. The original call is an
  argument \<open>f\<close>: \<open>f k\<close> is the return value and \<^verbatim>\<open>errno\<close> of its k-th execution. What waiting for the
  descriptor ends with is an argument too: \<open>wt w\<close> is the state of the time limit after the
  w-th wait (the subject of the time limits theory). An execution returns its value and
  \<^verbatim>\<open>errno\<close>, the number of calls made and the waits with their time limits. Both loops may go on
  for ever, so they are partial functions.
\<close>

abbreviation EINTR :: int where "EINTR \<equiv> 4"
abbreviation EIO :: int where "EIO \<equiv> 5"
abbreviation EAGAIN :: int where "EAGAIN \<equiv> 11"
abbreviation EBADFD :: int where "EBADFD \<equiv> 77"
abbreviation ETIMEDOUT :: int where "ETIMEDOUT \<equiv> 110"
abbreviation EINPROGRESS :: int where "EINPROGRESS \<equiv> 115"

definition HOOK_IOAWAIT_TIMEOUT :: u64 where
  "HOOK_IOAWAIT_TIMEOUT = 5000"

record io_result =
  io_ret :: int
  io_errno :: int
  io_calls :: nat
  io_waits :: "(int \<times> event \<times> u64) list"

text \<open>The time limit \<^verbatim>\<open>io_Awaiter::on_suspend\<close> registers, in milliseconds.\<close>

definition await_limit :: "u64 \<Rightarrow> u64" where
  "await_limit timo_ms = (if timo_ms \<noteq> 0 then timo_ms else HOOK_IOAWAIT_TIMEOUT)"

text \<open>The time limit of \<^verbatim>\<open>do_io\<close>: microseconds rounded up to milliseconds.\<close>

definition io_timeout :: "u64 \<Rightarrow> u64" where
  "io_timeout time_us =
     (let time_out = (if time_us = 0 \<or> time_us = -1 then HOOK_IOAWAIT_TIMEOUT else (time_us + 999) div 1000)
      in if time_out = 0 then 1 else time_out)"

partial_function (option) call_func :: "(nat \<Rightarrow> int \<times> int) \<Rightarrow> nat \<Rightarrow> ((int \<times> int) \<times> nat) option" where
  "call_func f k = (if f k = (-1, EINTR) then call_func f (Suc k) else Some (f k, Suc k))"

partial_function (option) io_loop ::
  "(nat \<Rightarrow> int \<times> int) \<Rightarrow> (nat \<Rightarrow> limit_state) \<Rightarrow> int \<times> event \<times> u64 \<Rightarrow> nat \<Rightarrow> nat \<Rightarrow> io_result option" where
  "io_loop f wt wait k w =
     Option.bind (call_func f k) (\<lambda>((n, e), k').
       if n = -1 \<and> e = EAGAIN
       then (if wt w = limit_state.FINISHED then io_loop f wt wait k' (Suc w)
             else Some \<lparr>io_ret = -1, io_errno = (if wt w = limit_state.TIMEOUT then ETIMEDOUT else EIO),
                        io_calls = k', io_waits = replicate (Suc w) wait\<rparr>)
       else Some \<lparr>io_ret = n, io_errno = e, io_calls = k', io_waits = replicate w wait\<rparr>)"

definition plain_call :: "(nat \<Rightarrow> int \<times> int) \<Rightarrow> io_result" where
  "plain_call f = \<lparr>io_ret = fst (f 0), io_errno = snd (f 0), io_calls = 1, io_waits = []\<rparr>"

definition do_io ::
  "(nat \<Rightarrow> int \<times> int) \<Rightarrow> (nat \<Rightarrow> limit_state) \<Rightarrow> int \<Rightarrow> event \<Rightarrow> int \<Rightarrow> fd_mgr \<Rightarrow> (failure + io_result) option" where
  "do_io f wt fd ev type m =
     (case fdm_get fd False None False m of
        Inl e \<Rightarrow> Some (Inl e)
      | Inr (None, _) \<Rightarrow> Some (Inr (plain_call f))
      | Inr (Some r, _) \<Rightarrow>
          (let c = ctx_store m r
           in if m_is_closed c then Some (Inr \<lparr>io_ret = -1, io_errno = EBADFD, io_calls = 0, io_waits = []\<rparr>)
              else if \<not> m_is_socket c \<or> m_userNoblock c then Some (Inr (plain_call f))
              else map_option Inr (io_loop f wt (fd, ev, await_limit (io_timeout (FdCtx_getTimeout type c))) 0 0)))"

text \<open>
  The wrappers: they differ in the original function, the event and the kind of time limit.
\<close>

definition co_read_like :: "(nat \<Rightarrow> int \<times> int) \<Rightarrow> (nat \<Rightarrow> limit_state) \<Rightarrow> int \<Rightarrow> fd_mgr \<Rightarrow> (failure + io_result) option" where
  "co_read_like f wt fd m = do_io f wt fd READ SO_RCVTIMEO m"

definition co_write_like :: "(nat \<Rightarrow> int \<times> int) \<Rightarrow> (nat \<Rightarrow> limit_state) \<Rightarrow> int \<Rightarrow> fd_mgr \<Rightarrow> (failure + io_result) option" where
  "co_write_like f wt fd m = do_io f wt fd WRITE SO_SNDTIMEO m"

definition co_accept :: "(nat \<Rightarrow> int \<times> int) \<Rightarrow> (nat \<Rightarrow> limit_state) \<Rightarrow> int \<Rightarrow> fd_mgr \<Rightarrow> (failure + io_result) option" where
  "co_accept f wt sockfd m = do_io f wt sockfd READ SO_RCVTIMEO m"

subsection \<open>connect\<close>

text \<open>\<open>cn\<close> is the result of \<^verbatim>\<open>connect\<close>, \<open>so\<close> that of \<^verbatim>\<open>getsockopt\<close>: its return value, \<^verbatim>\<open>errno\<close> and the pending error.\<close>

definition co_connect ::
  "int \<times> int \<Rightarrow> limit_state \<Rightarrow> int \<times> int \<times> int \<Rightarrow> u64 \<Rightarrow> int \<Rightarrow> fd_mgr \<Rightarrow> failure + io_result" where
  "co_connect cn st so connect_timo sockfd m =
     (case fdm_get sockfd False None False m of
        Inl e \<Rightarrow> Inl e
      | Inr (None, _) \<Rightarrow> Inr \<lparr>io_ret = -1, io_errno = EBADFD, io_calls = 0, io_waits = []\<rparr>
      | Inr (Some r, _) \<Rightarrow>
          (let c = ctx_store m r; wait = (sockfd, WRITE, await_limit connect_timo)
           in Inr (
              if m_is_closed c \<or> \<not> m_is_init c then \<lparr>io_ret = -1, io_errno = EBADFD, io_calls = 0, io_waits = []\<rparr>
              else if \<not> m_is_socket c \<or> m_userNoblock c \<or> fst cn = 0 \<or> snd cn \<noteq> EINPROGRESS \<or> fst cn \<noteq> -1
              then \<lparr>io_ret = fst cn, io_errno = snd cn, io_calls = 1, io_waits = []\<rparr>
              else if st = limit_state.TIMEOUT then \<lparr>io_ret = -1, io_errno = ETIMEDOUT, io_calls = 1, io_waits = [wait]\<rparr>
              else if st \<noteq> limit_state.FINISHED then \<lparr>io_ret = -1, io_errno = EIO, io_calls = 1, io_waits = [wait]\<rparr>
              else (let (rt, e, error) = so
                    in if rt = -1 then \<lparr>io_ret = -1, io_errno = e, io_calls = 1, io_waits = [wait]\<rparr>
                       else \<lparr>io_ret = (if error = 0 then 0 else -1), io_errno = error, io_calls = 1, io_waits = [wait]\<rparr>))))"

subsection \<open>Descriptors and their flags\<close>

text \<open>\<open>fd\<close> is what \<^verbatim>\<open>socket\<close> returned.\<close>

definition co_socket :: "int \<Rightarrow> bool option \<Rightarrow> bool \<Rightarrow> fd_mgr \<Rightarrow> failure + int \<times> fd_mgr" where
  "co_socket fd st nonblock m =
     (if fd = -1 then Inr (-1, m)
      else (case fdm_get fd True st nonblock m of Inl e \<Rightarrow> Inl e | Inr (r, m') \<Rightarrow> Inr (fd, m')))"

text \<open>\<open>rt\<close> is what \<^verbatim>\<open>close\<close> returns; it is called with mode 0 only.\<close>

definition co_close :: "int \<Rightarrow> int \<Rightarrow> int \<Rightarrow> fd_mgr \<Rightarrow> failure + int \<times> fd_mgr" where
  "co_close fd mode rt m =
     (case fdm_get fd False None False m of
        Inl e \<Rightarrow> Inl e
      | Inr _ \<Rightarrow> Inr (if mode = 0 then rt else -1, fdm_del fd m))"

definition O_NONBLOCK :: u32 where
  "O_NONBLOCK = 0x800"

text \<open>
  \<^verbatim>\<open>co_fcntl\<close> with \<^verbatim>\<open>F_SETFL\<close>: the argument handed to \<^verbatim>\<open>fcntl\<close>. \<^verbatim>\<open>!O_NONBLOCK\<close> is the logical negation of a
  non-zero constant, that is 0.
\<close>

definition managed :: "fd_ctx option \<Rightarrow> bool" where
  "managed c = (case c of None \<Rightarrow> False | Some c \<Rightarrow> \<not> m_is_closed c \<and> m_is_socket c)"

definition co_fcntl_setfl :: "int \<Rightarrow> u32 \<Rightarrow> fd_mgr \<Rightarrow> failure + u32 \<times> fd_mgr" where
  "co_fcntl_setfl fd arg m =
     (case fdm_get fd False None False m of
        Inl e \<Rightarrow> Inl e
      | Inr (r, _) \<Rightarrow>
          (case r of
             None \<Rightarrow> Inr (arg, m)
           | Some r \<Rightarrow>
               if \<not> managed (Some (ctx_store m r)) then Inr (arg, m)
               else Inr (if m_sysNoblock (ctx_store m r) then arg OR O_NONBLOCK else arg AND 0,
                         update_ctx r (setUserNoblock (arg AND O_NONBLOCK \<noteq> 0)) m)))"

text \<open>\<^verbatim>\<open>F_GETFL\<close>: \<open>value\<close> is what \<^verbatim>\<open>fcntl\<close> returns.\<close>

definition co_fcntl_getfl :: "int \<Rightarrow> u32 \<Rightarrow> fd_mgr \<Rightarrow> failure + u32" where
  "co_fcntl_getfl fd value m =
     (case fdm_get fd False None False m of
        Inl e \<Rightarrow> Inl e
      | Inr (None, _) \<Rightarrow> Inr value
      | Inr (Some r, _) \<Rightarrow>
          Inr (if \<not> managed (Some (ctx_store m r)) then value
               else if m_userNoblock (ctx_store m r) then value OR O_NONBLOCK else value AND NOT O_NONBLOCK))"

text \<open>
  \<^verbatim>\<open>co_ioctl\<close>: which system call is made, and with which argument; \<open>x\<close> is the integer \<^verbatim>\<open>arg\<close> points to.
\<close>

datatype sys_call = Fcntl_arg int | Ioctl_const int

definition FIONBIO :: int where
  "FIONBIO = 0x5421"

definition co_ioctl :: "int \<Rightarrow> int \<Rightarrow> int \<Rightarrow> fd_mgr \<Rightarrow> failure + sys_call \<times> fd_mgr" where
  "co_ioctl fd req x m =
     (if FIONBIO = req
      then (case fdm_get fd False None False m of
              Inl e \<Rightarrow> Inl e
            | Inr (r, _) \<Rightarrow>
                (case r of
                   None \<Rightarrow> Inr (Fcntl_arg req, m)
                 | Some r \<Rightarrow> if \<not> managed (Some (ctx_store m r)) then Inr (Fcntl_arg req, m)
                             else Inr (Ioctl_const 1, update_ctx r (setUserNoblock (x \<noteq> 0)) m)))
      else Inr (Ioctl_const 1, m))"

abbreviation SOL_SOCKET :: int where "SOL_SOCKET \<equiv> 1"

text \<open>\<^verbatim>\<open>tv_sec * 1000000 + tv_usec\<close>, computed in 64 bit.\<close>

definition co_setsockopt :: "int \<Rightarrow> int \<Rightarrow> int \<Rightarrow> int \<times> int \<Rightarrow> fd_mgr \<Rightarrow> failure + fd_mgr" where
  "co_setsockopt sockfd level optname tv m =
     (if level = SOL_SOCKET \<and> (optname = SO_RCVTIMEO \<or> optname = SO_SNDTIMEO)
      then (case fdm_get sockfd False None False m of
              Inl e \<Rightarrow> Inl e
            | Inr (None, _) \<Rightarrow> Inr m
            | Inr (Some r, _) \<Rightarrow> Inr (update_ctx r (FdCtx_setTimeout optname (of_int (fst tv * 1000000 + snd tv))) m))
      else Inr m)"

subsection \<open>Sleeping\<close>

text \<open>\<^verbatim>\<open>SleepAwaiter\<close> hands its argument to \<^verbatim>\<open>TimeTask::create\<close>, which takes milliseconds.\<close>

definition sleep_task :: "u64 \<Rightarrow> u64 \<Rightarrow> ('w \<Rightarrow> bool \<times> 'w) \<Rightarrow> 'w time_task" where
  "sleep_task now time resume = TimeTask_create now time False resume None None"

definition co_sleep_ms :: "32 word \<Rightarrow> u64" where
  "co_sleep_ms seconds = ucast seconds"

definition co_usleep_ms :: "32 word \<Rightarrow> u64" where
  "co_usleep_ms usec = ucast usec"

definition co_nanosleep_ms :: "int \<Rightarrow> int \<Rightarrow> u64" where
  "co_nanosleep_ms tv_sec tv_nsec = of_int (tv_sec * 1000000 + (if tv_nsec < 0 then - ((- tv_nsec) div 1000) else tv_nsec div 1000))"

subsection \<open>The retry loop\<close>

definition definitive :: "int \<times> int \<Rightarrow> bool" where
  "definitive r \<longleftrightarrow> r \<noteq> (-1, EINTR) \<and> r \<noteq> (-1, EAGAIN)"

definition agains :: "(nat \<Rightarrow> int \<times> int) \<Rightarrow> nat \<Rightarrow> nat \<Rightarrow> nat" where
  "agains f i k = length (filter (\<lambda>j. f j = (-1, EAGAIN)) [i..<k])"

lemma agains_simps [simp]:
  "agains f k k = 0" "i < k \<Longrightarrow> agains f i k = (if f i = (-1, EAGAIN) then Suc (agains f (Suc i) k) else agains f (Suc i) k)"
  by (simp_all add: agains_def upt_conv_Cons)

lemma call_func_unfold:
  "f k = (-1, EINTR) \<Longrightarrow> call_func f k = call_func f (Suc k)"
  "f k \<noteq> (-1, EINTR) \<Longrightarrow> call_func f k = Some (f k, Suc k)"
  by (subst call_func.simps, simp)+

lemma io_loop_intr: "f k = (-1, EINTR) \<Longrightarrow> io_loop f wt wait k w = io_loop f wt wait (Suc k) w"
  by (subst (1 2) io_loop.simps) (simp add: call_func_unfold(1))

lemma io_loop_again:
  assumes "f k = (-1, EAGAIN)"
  shows "io_loop f wt wait k w =
    (if wt w = limit_state.FINISHED then io_loop f wt wait (Suc k) (Suc w)
     else Some \<lparr>io_ret = -1, io_errno = (if wt w = limit_state.TIMEOUT then ETIMEDOUT else EIO),
                io_calls = Suc k, io_waits = replicate (Suc w) wait\<rparr>)"
  using assms by (subst io_loop.simps) (simp add: call_func_unfold(2))

lemma io_loop_done:
  assumes "definitive (f k)"
  shows "io_loop f wt wait k w = Some \<lparr>io_ret = fst (f k), io_errno = snd (f k), io_calls = Suc k, io_waits = replicate w wait\<rparr>"
  using assms by (subst io_loop.simps) (auto simp: call_func_unfold(2) definitive_def case_prod_unfold prod_eq_iff)

text \<open>The loop skips interrupted calls and waits once for each call that would block.\<close>

lemma io_loop_skips:
  assumes "i \<le> k" "\<And>j. i \<le> j \<Longrightarrow> j < k \<Longrightarrow> \<not> definitive (f j)" "\<And>v. w \<le> v \<Longrightarrow> v < w + agains f i k \<Longrightarrow> wt v = limit_state.FINISHED"
  shows "io_loop f wt wait i w = io_loop f wt wait k (w + agains f i k)"
  using assms
proof (induction "k - i" arbitrary: i w)
  case (Suc n)
  then have lt: "i < k" by simp
  then have f: "f i = (-1, EINTR) \<or> f i = (-1, EAGAIN)" using Suc.prems(2) [of i] by (auto simp: definitive_def)
  have n: "n = k - Suc i" using Suc.hyps(2) by simp
  show ?case
  proof (cases "f i = (-1, EAGAIN)")
    case True
    then have "wt w = limit_state.FINISHED" using Suc.prems(3) [of w] lt by simp
    moreover have "io_loop f wt wait (Suc i) (Suc w) = io_loop f wt wait k (Suc w + agains f (Suc i) k)"
      using Suc.hyps(1) [OF n, of "Suc w"] Suc.prems lt True by simp
    ultimately show ?thesis using True lt by (simp add: io_loop_again)
  next
    case False
    then have "io_loop f wt wait (Suc i) w = io_loop f wt wait k (w + agains f (Suc i) k)"
      using Suc.hyps(1) [OF n, of w] Suc.prems lt by simp
    then show ?thesis using False f lt io_loop_intr [of f i wt wait w] by simp
  qed
qed simp

text \<open>A context that makes a coroutine wait.\<close>

definition waits_for :: "fd_ctx \<Rightarrow> bool" where
  "waits_for c \<longleftrightarrow> \<not> m_is_closed c \<and> m_is_socket c \<and> \<not> m_userNoblock c"

lemma get_some:
  assumes "ctx_of m fd = Some c"
  shows "\<exists>r. fdm_get fd False st nb m = Inr (Some r, m) \<and> ctx_store m r = c"
  using existing_ctx [OF assms] by blast

lemma do_io_waits:
  assumes "ctx_of m fd = Some c" "waits_for c"
  shows "do_io f wt fd ev type m =
    map_option Inr (io_loop f wt (fd, ev, await_limit (io_timeout (FdCtx_getTimeout type c))) 0 0)"
proof -
  obtain r where "fdm_get fd False None False m = Inr (Some r, m)" "ctx_store m r = c" using get_some [OF assms(1)] by blast
  then show ?thesis using assms(2) by (simp add: do_io_def waits_for_def)
qed

text \<open>
  C30. On a blocking socket, an operation returns what the original call returned the first time
  it neither was interrupted nor would have blocked, after exactly one wait for each time it
  would have blocked; when a wait ends by its time limit, it returns -1 with \<^verbatim>\<open>ETIMEDOUT\<close>. No call is
  made after that.
\<close>

theorem do_io_result:
  assumes "ctx_of m fd = Some c" "waits_for c" "\<forall>j<k. \<not> definitive (f j)" "\<forall>v<agains f 0 k. wt v = limit_state.FINISHED"
  shows "(definitive (f k) \<longrightarrow>
     do_io f wt fd ev type m = Some (Inr \<lparr>io_ret = fst (f k), io_errno = snd (f k), io_calls = Suc k,
       io_waits = replicate (agains f 0 k) (fd, ev, await_limit (io_timeout (FdCtx_getTimeout type c)))\<rparr>)) \<and>
    (f k = (-1, EAGAIN) \<and> wt (agains f 0 k) = limit_state.TIMEOUT \<longrightarrow>
     do_io f wt fd ev type m = Some (Inr \<lparr>io_ret = -1, io_errno = ETIMEDOUT, io_calls = Suc k,
       io_waits = replicate (Suc (agains f 0 k)) (fd, ev, await_limit (io_timeout (FdCtx_getTimeout type c)))\<rparr>))"
proof -
  have "io_loop f wt wait 0 0 = io_loop f wt wait k (agains f 0 k)" for wait
    using io_loop_skips [of 0 k f 0 wt wait] assms(3,4) by simp
  then show ?thesis by (simp add: do_io_waits [OF assms(1,2)] io_loop_done io_loop_again)
qed

definition demo_fds :: fd_mgr where
  "demo_fds = \<lparr>m_fdCtxs = [None, None, None, Some 0], ctx_store = (\<lambda>_. snd (FdCtx_new 3 (Some True) False)), ctx_next = 1\<rparr>"

definition demo_recv :: "nat \<Rightarrow> int \<times> int" where
  "demo_recv k = [(-1, EAGAIN), (-1, EINTR), (-1, EAGAIN), (42, 0)] ! k"

lemma demo_fds_facts: "ctx_of demo_fds 3 = Some (snd (FdCtx_new 3 (Some True) False))" "waits_for (snd (FdCtx_new 3 (Some True) False))"
  by (simp_all add: ctx_of_def demo_fds_def waits_for_def FdCtx_new_fields)

theorem do_io_result_witness:
  "do_io demo_recv (\<lambda>_. limit_state.FINISHED) 3 READ SO_RCVTIMEO demo_fds =
     Some (Inr \<lparr>io_ret = 42, io_errno = 0, io_calls = 4, io_waits = [(3, READ, 5000), (3, READ, 5000)]\<rparr>)"
proof -
  have "\<forall>j<3. \<not> definitive (demo_recv j)" by (auto simp: definitive_def demo_recv_def less_Suc_eq numeral_3_eq_3)
  moreover have "definitive (demo_recv 3)" "demo_recv 3 = (42, 0)" by (simp_all add: definitive_def demo_recv_def)
  moreover have "agains demo_recv 0 3 = 2" by (simp add: agains_def demo_recv_def upt_rec numeral_2_eq_2)
  moreover have "await_limit (io_timeout (FdCtx_getTimeout SO_RCVTIMEO (snd (FdCtx_new 3 (Some True) False)))) = 5000"
    by (simp add: FdCtx_getTimeout_def FdCtx_new_fields io_timeout_def await_limit_def HOOK_IOAWAIT_TIMEOUT_def)
  ultimately show ?thesis
    using do_io_result [OF demo_fds_facts, of 3 demo_recv "\<lambda>_. limit_state.FINISHED" READ SO_RCVTIMEO] by (simp add: numeral_2_eq_2)
qed

subsection \<open>Time limits, flags\<close>

lemma unat_io_timeout:
  assumes "0 < unat t" "unat t < 2 ^ 64 - 1000"
  shows "unat (await_limit (io_timeout t)) = (unat t + 999) div 1000"
proof -
  have t: "t \<noteq> 0" "t \<noteq> -1" using assms by (auto simp: unsigned_minus_1_eq_mask mask_eq_exp_minus_1)
  have "unat (t + 999) = unat t + 999" using assms(2) by (simp add: unat_word_ariths)
  then have d: "unat ((t + 999) div 1000) = (unat t + 999) div 1000" by (simp add: unat_div)
  moreover have "0 < (unat t + 999) div 1000" using assms(1) by (simp add: div_greater_zero_iff)
  ultimately have "(t + 999) div 1000 \<noteq> 0" by (metis less_irrefl unat_0)
  then show ?thesis using t d by (simp add: io_timeout_def await_limit_def Let_def)
qed

lemma update_ctx_of:
  assumes "fdm_inv m" "ctx_of m fd = Some c"
  shows "\<exists>r. fdm_get fd False st nb m = Inr (Some r, m) \<and> ctx_store m r = c \<and> ctx_of (update_ctx r g m) = (ctx_of m)(fd \<mapsto> g c)"
proof -
  obtain r where r: "0 \<le> fd" "fd < int (length (m_fdCtxs m))" "m_fdCtxs m ! nat fd = Some r" "ctx_store m r = c"
    using assms(2) by (auto simp: ctx_of_def split: if_splits)
  have "ctx_of (update_ctx r g m) = (ctx_of m)(fd \<mapsto> g c)"
  proof
    fix h
    show "ctx_of (update_ctx r g m) h = ((ctx_of m)(fd \<mapsto> g c)) h"
    proof (cases "0 \<le> h \<and> h < int (length (m_fdCtxs m)) \<and> m_fdCtxs m ! nat h = Some r")
      case True
      then have "nat h = nat fd" using assms(1) r by (auto simp: fdm_inv_def)
      then have "h = fd" using True r(1) by linarith
      then show ?thesis using r by (simp add: ctx_of_def update_ctx_def)
    next
      case False
      then have "h \<noteq> fd" using r by auto
      then show ?thesis using False by (cases "m_fdCtxs m ! nat h") (auto simp: ctx_of_def update_ctx_def)
    qed
  qed
  then show ?thesis using r by (auto simp: fdm_get_def Let_def)
qed

text \<open>
  A time limit set with \<^verbatim>\<open>setsockopt\<close> is kept for its direction only, and the limit of a later
  wait is that time rounded up to a whole millisecond: never shorter, and less than a
  millisecond longer.
\<close>

theorem time_limit_rounded_up:
  assumes "fdm_inv m" "ctx_of m fd = Some c" "0 \<le> sec" "0 \<le> usec" "0 < sec * 1000000 + usec" "sec * 1000000 + usec < 2 ^ 64 - 1000"
  shows "\<exists>m' c'. co_setsockopt fd SOL_SOCKET SO_RCVTIMEO (sec, usec) m = Inr m' \<and> ctx_of m' = (ctx_of m)(fd \<mapsto> c') \<and>
    FdCtx_getTimeout SO_SNDTIMEO c' = FdCtx_getTimeout SO_SNDTIMEO c \<and>
    (\<exists>ms. unat (await_limit (io_timeout (FdCtx_getTimeout SO_RCVTIMEO c'))) = ms \<and>
       sec * 1000000 + usec \<le> int ms * 1000 \<and> int ms * 1000 < sec * 1000000 + usec + 1000)"
proof -
  define t :: u64 where "t = of_int (sec * 1000000 + usec)"
  have "uint t = take_bit 64 (sec * 1000000 + usec)" by (simp only: t_def unsigned_of_int) simp
  then have t: "int (unat t) = sec * 1000000 + usec" using assms(5,6) by (simp add: take_bit_int_eq_self)
  have "int (unat t) < int (2 ^ 64 - 1000)" using t assms(6) by simp
  then have b: "0 < unat t" "unat t < 2 ^ 64 - 1000" using t assms(5) by linarith+
  obtain r where r: "fdm_get fd False None False m = Inr (Some r, m)" "ctx_of (update_ctx r (FdCtx_setTimeout SO_RCVTIMEO t) m) = (ctx_of m)(fd \<mapsto> FdCtx_setTimeout SO_RCVTIMEO t c)"
    using update_ctx_of [OF assms(1,2)] by blast
  define ms where "ms = (unat t + 999) div 1000"
  have "unat t \<le> ms * 1000" "ms * 1000 < unat t + 1000" unfolding ms_def by linarith+
  then have ms: "sec * 1000000 + usec \<le> int ms * 1000" "int ms * 1000 < sec * 1000000 + usec + 1000" using t by linarith+
  have "co_setsockopt fd SOL_SOCKET SO_RCVTIMEO (sec, usec) m = Inr (update_ctx r (FdCtx_setTimeout SO_RCVTIMEO t) m)"
    using r(1) by (simp add: co_setsockopt_def t_def)
  moreover have "unat (await_limit (io_timeout (FdCtx_getTimeout SO_RCVTIMEO (FdCtx_setTimeout SO_RCVTIMEO t c)))) = ms"
    using unat_io_timeout [OF b] by (simp add: ms_def FdCtx_getTimeout_def FdCtx_setTimeout_def)
  moreover have "FdCtx_getTimeout SO_SNDTIMEO (FdCtx_setTimeout SO_RCVTIMEO t c) = FdCtx_getTimeout SO_SNDTIMEO c"
    by (simp add: FdCtx_getTimeout_def FdCtx_setTimeout_def)
  ultimately show ?thesis using r(2) ms by blast
qed

lemma demo_fds_inv: "fdm_inv demo_fds"
  by (auto simp: fdm_inv_def demo_fds_def nth_Cons' split: if_splits)

theorem time_limit_rounded_up_witness:
  "\<exists>m' c'. co_setsockopt 3 SOL_SOCKET SO_RCVTIMEO (30, 500) demo_fds = Inr m' \<and> ctx_of m' 3 = Some c' \<and>
    unat (await_limit (io_timeout (FdCtx_getTimeout SO_RCVTIMEO c'))) = 30001"
proof -
  obtain m' c' ms where "co_setsockopt 3 SOL_SOCKET SO_RCVTIMEO (30, 500) demo_fds = Inr m'" "ctx_of m' = (ctx_of demo_fds)(3 \<mapsto> c')"
    "unat (await_limit (io_timeout (FdCtx_getTimeout SO_RCVTIMEO c'))) = ms" "30000500 \<le> int ms * 1000" "int ms * 1000 < 30001500"
    using time_limit_rounded_up [OF demo_fds_inv demo_fds_facts(1), of 30 500] by auto
  moreover from this(4,5) have "ms = 30001" by linarith
  ultimately show ?thesis by auto
qed

lemma bit_O_NONBLOCK: "bit O_NONBLOCK n \<longleftrightarrow> n = 11"
  using bit_exp_iff [of 11 n, where 'a = u32] by (auto simp: O_NONBLOCK_def)

text \<open>
  On a managed socket the flags a user sets with \<^verbatim>\<open>F_SETFL\<close> are those \<^verbatim>\<open>F_GETFL\<close> shows, although
  the descriptor itself stays non-blocking, and later operations wait exactly when the user
  did not ask for non-blocking mode.
\<close>

theorem fcntl_flags_roundtrip:
  assumes "fdm_inv m" "ctx_of m fd = Some c" "managed (Some c)" "m_sysNoblock c"
  shows "\<exists>sys m' c'. co_fcntl_setfl fd arg m = Inr (sys, m') \<and> co_fcntl_getfl fd sys m' = Inr arg \<and>
    sys AND O_NONBLOCK \<noteq> 0 \<and> ctx_of m' = (ctx_of m)(fd \<mapsto> c') \<and> (waits_for c' \<longleftrightarrow> arg AND O_NONBLOCK = 0)"
proof -
  define c' where "c' = setUserNoblock (arg AND O_NONBLOCK \<noteq> 0) c"
  obtain r where r: "fdm_get fd False None False m = Inr (Some r, m)" "ctx_store m r = c"
      "ctx_of (update_ctx r (setUserNoblock (arg AND O_NONBLOCK \<noteq> 0)) m) = (ctx_of m)(fd \<mapsto> c')"
    using update_ctx_of [OF assms(1,2)] unfolding c'_def by blast
  define m' where "m' = update_ctx r (setUserNoblock (arg AND O_NONBLOCK \<noteq> 0)) m"
  have s: "co_fcntl_setfl fd arg m = Inr (arg OR O_NONBLOCK, m')"
    using r(1,2) assms(3,4) by (simp add: co_fcntl_setfl_def m'_def)
  have "ctx_of m' fd = Some c'" using r(3) by (simp add: m'_def)
  from get_some [OF this] obtain r' where r': "fdm_get fd False None False m' = Inr (Some r', m')" "ctx_store m' r' = c'" by blast
  have c': "managed (Some c')" "m_userNoblock c' \<longleftrightarrow> arg AND O_NONBLOCK \<noteq> 0" using assms(3) by (simp_all add: c'_def setUserNoblock_def managed_def)
  have b: "O_NONBLOCK = 2 ^ 11" by (simp add: O_NONBLOCK_def)
  have bit: "arg AND O_NONBLOCK \<noteq> 0 \<longleftrightarrow> bit arg 11" for arg :: u32 unfolding b by (rule and_mask_bit_iff)
  have "(if m_userNoblock c' then (arg OR O_NONBLOCK) OR O_NONBLOCK else (arg OR O_NONBLOCK) AND NOT O_NONBLOCK) = arg"
    unfolding c'(2) bit by (rule bit_word_eqI) (auto simp: bit_simps bit_O_NONBLOCK)
  then have "co_fcntl_getfl fd (arg OR O_NONBLOCK) m' = Inr arg" using r' c'(1) by (simp add: co_fcntl_getfl_def)
  moreover have "(arg OR O_NONBLOCK) AND O_NONBLOCK \<noteq> 0" unfolding bit by (simp add: bit_simps bit_O_NONBLOCK)
  moreover have "waits_for c' \<longleftrightarrow> arg AND O_NONBLOCK = 0" using c' by (auto simp: waits_for_def managed_def)
  ultimately show ?thesis using s r(3) unfolding m'_def by blast
qed

theorem fcntl_flags_roundtrip_witness:
  "\<exists>sys m'. co_fcntl_setfl 3 0x402 demo_fds = Inr (sys, m') \<and> co_fcntl_getfl 3 sys m' = Inr 0x402 \<and> sys AND O_NONBLOCK \<noteq> 0"
  using fcntl_flags_roundtrip [OF demo_fds_inv demo_fds_facts(1), of "0x402"] by (auto simp: managed_def FdCtx_new_fields)

text \<open>
  After the context of an open socket was dropped by the creation of another one, the
  operations on it no longer wait: the caller receives the \<^verbatim>\<open>EAGAIN\<close> of the non-blocking descriptor.
\<close>

theorem dropped_context_stops_waiting:
  assumes "fdm_inv m" "2 \<le> fd" "ctx_of m fd = None" "fd * 3 div 2 \<le> g" "ctx_of m g = Some c" "waits_for c" "f 0 = (-1, EAGAIN)"
  shows "\<exists>m'. co_socket fd st nb m = Inr (fd, m') \<and>
    do_io f wt g ev type m' = Some (Inr \<lparr>io_ret = -1, io_errno = EAGAIN, io_calls = 1, io_waits = []\<rparr>)"
proof -
  note cr = create_ctx [OF assms(2,3,1), of st nb]
  have "g \<noteq> fd" "0 \<le> g" using assms(2,4) by auto
  obtain m' where m': "fdm_get fd True st nb m = Inr (Some (ctx_next m), m')" "ctx_of m' g = None"
    using cr \<open>g \<noteq> fd\<close> assms(4) by auto
  then have "fdm_get g False None False m' = Inr (None, m')" using lookup_ctx [OF \<open>0 \<le> g\<close>, of None False m'] by auto
  then show ?thesis using m'(1) assms(2,7) by (simp add: co_socket_def do_io_def plain_call_def)
qed

text \<open>A sleep of microseconds lasts as many milliseconds, and one of nanoseconds a thousand times too long.\<close>

lemma usleep_too_long:
  "m_execute_ms (sleep_task now (co_usleep_ms usec) resume) = now + ucast usec"
  "co_nanosleep_ms 1 0 = 1000000"
  by (simp_all add: sleep_task_def co_usleep_ms_def co_nanosleep_ms_def TimeTask_create_def)

theorem dropped_context_stops_waiting_witness:
  "\<exists>m'. co_socket 2 (Some True) False demo_fds = Inr (2, m') \<and>
    do_io (\<lambda>_. (-1, EAGAIN)) (\<lambda>_. limit_state.FINISHED) 3 READ SO_RCVTIMEO m' =
      Some (Inr \<lparr>io_ret = -1, io_errno = EAGAIN, io_calls = 1, io_waits = []\<rparr>)"
proof -
  have "ctx_of demo_fds 2 = None" by (simp add: ctx_of_def demo_fds_def)
  then show ?thesis
    using dropped_context_stops_waiting [OF demo_fds_inv _ _ _ demo_fds_facts, of 2 "\<lambda>_. (-1, EAGAIN)"] by simp
qed

end
