(* ===== verification/Endian.thy ===== *)
theory Endian
  imports Prelude
begin

section \<open>Byte order (basic/endian.h)\<close>

text \<open>
  \<^verbatim>\<open>basic/endian.h\<close> selects one of two sets of conversion templates at compile time from the
  byte order of the host. The model keeps both: a host is \<open>LITTLE_ENDIAN\<close> or
  \<open>BIG_ENDIAN\<close>, and \<open>load16\<close>/\<open>store16\<close> are what copying a \<^verbatim>\<open>uint16_t\<close> from or to memory
  (\<^verbatim>\<open>memcpy\<close>) gives on that host. The lemmas show that the swaps are involutions and that a
  value stored through the conversions is in network order on either host.
\<close>

datatype host = LITTLE_ENDIAN | BIG_ENDIAN

definition byteSwap16 :: "u16 \<Rightarrow> u16" where
  "byteSwap16 v = push_bit 8 v OR drop_bit 8 v"

definition byteSwap32 :: "u32 \<Rightarrow> u32" where
  "byteSwap32 v =
     push_bit 24 (take_bit 8 v) OR push_bit 16 (take_bit 8 (drop_bit 8 v))
     OR push_bit 8 (take_bit 8 (drop_bit 16 v)) OR take_bit 8 (drop_bit 24 v)"

definition byteSwap64 :: "u64 \<Rightarrow> u64" where
  "byteSwap64 v =
     push_bit 56 (take_bit 8 v) OR push_bit 48 (take_bit 8 (drop_bit 8 v))
     OR push_bit 40 (take_bit 8 (drop_bit 16 v)) OR push_bit 32 (take_bit 8 (drop_bit 24 v))
     OR push_bit 24 (take_bit 8 (drop_bit 32 v)) OR push_bit 16 (take_bit 8 (drop_bit 40 v))
     OR push_bit 8 (take_bit 8 (drop_bit 48 v)) OR take_bit 8 (drop_bit 56 v)"

fun byteSwapToLittleEndian :: "host \<Rightarrow> u16 \<Rightarrow> u16" where
  "byteSwapToLittleEndian BIG_ENDIAN t = byteSwap16 t"
| "byteSwapToLittleEndian LITTLE_ENDIAN t = t"

fun byteSwapToBigEndian :: "host \<Rightarrow> u16 \<Rightarrow> u16" where
  "byteSwapToBigEndian BIG_ENDIAN t = t"
| "byteSwapToBigEndian LITTLE_ENDIAN t = byteSwap16 t"

fun NetByteSwapToHostEndian :: "host \<Rightarrow> u16 \<Rightarrow> u16" where
  "NetByteSwapToHostEndian BIG_ENDIAN t = t"
| "NetByteSwapToHostEndian LITTLE_ENDIAN t = byteSwap16 t"

text \<open>Copying a 16-bit value to and from two bytes of memory.\<close>

fun store16 :: "host \<Rightarrow> u16 \<Rightarrow> bytes" where
  "store16 BIG_ENDIAN v = [ucast (drop_bit 8 v), ucast v]"
| "store16 LITTLE_ENDIAN v = [ucast v, ucast (drop_bit 8 v)]"

fun load16 :: "host \<Rightarrow> byte \<Rightarrow> byte \<Rightarrow> u16" where
  "load16 BIG_ENDIAN a b = push_bit 8 (ucast a) OR ucast b"
| "load16 LITTLE_ENDIAN a b = ucast a OR push_bit 8 (ucast b)"

subsection \<open>The swaps are involutions\<close>

lemma byteSwap16_involution: "byteSwap16 (byteSwap16 v) = v"
  by (rule bit_word_eqI) (auto simp: byteSwap16_def bit_simps)

text \<open>Byte \<open>k\<close> of the swapped word is byte \<open>3 - k\<close> (\<open>7 - k\<close>) of the argument.\<close>

lemma bit_byteSwap32:
  assumes "m < 8" "k < 4"
  shows "bit (byteSwap32 v) (8 * k + m) \<longleftrightarrow> bit v (8 * (3 - k) + m)"
proof -
  from assms(2) consider "k = 0" | "k = 1" | "k = 2" | "k = 3" by linarith
  then show ?thesis
    using assms(1) by cases (auto simp: byteSwap32_def bit_simps)
qed

lemma bit_byteSwap64:
  assumes "m < 8" "k < 8"
  shows "bit (byteSwap64 v) (8 * k + m) \<longleftrightarrow> bit v (8 * (7 - k) + m)"
proof -
  from assms(2) consider "k = 0" | "k = 1" | "k = 2" | "k = 3" | "k = 4" | "k = 5" | "k = 6" | "k = 7"
    by linarith
  then show ?thesis
    using assms(1) by cases (auto simp: byteSwap64_def bit_simps)
qed

lemma byteSwap32_involution: "byteSwap32 (byteSwap32 v) = v"
proof (rule bit_word_eqI)
  fix n assume "n < LENGTH(32)"
  then obtain k m where "n = 8 * k + m" "m < 8" "k < 4"
    using that [of "n div 8" "n mod 8"] by simp
  then show "bit (byteSwap32 (byteSwap32 v)) n = bit v n"
    by (simp add: bit_byteSwap32)
qed

lemma byteSwap64_involution: "byteSwap64 (byteSwap64 v) = v"
proof (rule bit_word_eqI)
  fix n assume "n < LENGTH(64)"
  then obtain k m where "n = 8 * k + m" "m < 8" "k < 8"
    using that [of "n div 8" "n mod 8"] by simp
  then show "bit (byteSwap64 (byteSwap64 v)) n = bit v n"
    by (simp add: bit_byteSwap64)
qed

subsection \<open>Network order\<close>

lemma load16_store16: "store16 h v = [a, b] \<Longrightarrow> load16 h a b = v"
  by (cases h) (auto intro!: bit_word_eqI simp: bit_simps)

lemma store16_network:
  "store16 h (byteSwapToBigEndian h v) = [ucast (drop_bit 8 v), ucast v]"
  by (cases h) (auto intro!: bit_word_eqI simp: bit_simps byteSwap16_def)

lemma load16_network:
  "NetByteSwapToHostEndian h (load16 h a b) = push_bit 8 (ucast a) OR ucast b"
  by (cases h) (auto intro!: bit_word_eqI simp: bit_simps byteSwap16_def)

lemma network_roundtrip:
  "NetByteSwapToHostEndian h (load16 h (ucast (drop_bit 8 v)) (ucast v)) = v"
  unfolding load16_network by (auto intro!: bit_word_eqI simp: bit_simps)

end
