(* ===== verification/Strings.thy ===== *)
theory Strings
  imports Prelude "HOL-Library.Sublist"
begin

section \<open>Strings\<close>

text \<open>
  What the text protocols share: searching in strings, line ends and decimal numbers. A position that
  \<^verbatim>\<open>std::string::find\<close> or \<^verbatim>\<open>std::search\<close> does not find is \<open>None\<close>.
\<close>

fun find_in :: "string \<Rightarrow> string \<Rightarrow> nat option" where
  "find_in d [] = (if d = [] then Some 0 else None)"
| "find_in d (c # s) = (if prefix d (c # s) then Some 0 else map_option Suc (find_in d s))"

text \<open>\<^verbatim>\<open>s.find(d, start)\<close>.\<close>

definition str_find :: "string \<Rightarrow> string \<Rightarrow> nat \<Rightarrow> nat option" where
  "str_find s d start = (if start \<le> length s then map_option (\<lambda>k. start + k) (find_in d (drop start s)) else None)"

definition crlf :: string where
  "crlf = [CHR 0x0D, CHR 0x0A]"

text \<open>Decimal output of an unsigned number.\<close>

fun dec :: "nat \<Rightarrow> string" where
  "dec n = (if n < 10 then [char_of (48 + n)] else dec (n div 10) @ [char_of (48 + n mod 10)])"

declare dec.simps [simp del]

text \<open>Decimal digits and the number they stand for.\<close>

definition digit :: "char \<Rightarrow> bool" where
  "digit c \<longleftrightarrow> 48 \<le> (of_char c :: nat) \<and> (of_char c :: nat) \<le> 57"

definition digits_value :: "string \<Rightarrow> nat" where
  "digits_value s = foldl (\<lambda>n c. 10 * n + (of_char c - 48)) 0 s"

subsection \<open>Searching\<close>

lemma find_in_skip:
  "c \<notin> set xs \<Longrightarrow> find_in (c # d) (xs @ ys) = map_option ((+) (length xs)) (find_in (c # d) ys)"
  by (induction xs) (auto simp: option.map_comp comp_def map_option_case split: option.splits)

lemma find_in_prefix: "d \<noteq> [] \<Longrightarrow> find_in d (d @ s) = Some 0"
  by (cases d) simp_all

lemma find_in_None: "c \<notin> set xs \<Longrightarrow> find_in (c # d) xs = None"
  using find_in_skip [of c xs d "[]"] by simp

lemma find_in_bound: "find_in d t = Some k \<Longrightarrow> d \<noteq> [] \<Longrightarrow> k + length d \<le> length t"
proof (induction t arbitrary: k)
  case (Cons c t)
  then show ?case by (auto dest: prefix_length_le split: if_splits)
qed simp

text \<open>The first occurrence does not depend on what follows it.\<close>

lemma find_in_append: "find_in d s = Some k \<Longrightarrow> d \<noteq> [] \<Longrightarrow> find_in d (s @ t) = Some k"
proof (induction s arbitrary: k)
  case (Cons c s)
  show ?case
  proof (cases "prefix d (c # s)")
    case True
    then have "prefix d (c # s @ t)" by (metis append_Cons prefix_prefix)
    then show ?thesis using Cons.prems True by simp
  next
    case False
    then obtain j where j: "find_in d s = Some j" "k = Suc j" using Cons.prems(1) by auto
    have "length d \<le> length s" using find_in_bound [OF j(1) Cons.prems(2)] by simp
    then have "\<not> prefix d (c # s @ t)"
      using False by (metis append_Cons length_Cons prefix_append prefix_length_prefix prefix_order.eq_iff le_SucI prefixI)
    then show ?thesis using Cons.IH [OF j(1) Cons.prems(2)] j(2) by simp
  qed
qed simp

lemma takeWhile_until: "c \<notin> set xs \<Longrightarrow> takeWhile (\<lambda>x. x \<noteq> c) (xs @ c # ys) = xs"
  by (induction xs) auto

subsection \<open>Numbers\<close>

lemma digits_value_append: "digits_value (s @ [c]) = 10 * digits_value s + (of_char c - 48)"
  by (simp add: digits_value_def)

lemma dec_digits: "dec n \<noteq> [] \<and> list_all digit (dec n) \<and> digits_value (dec n) = n"
proof (induction n rule: dec.induct)
  case (1 n)
  have d: "of_char (char_of (48 + k) :: char) = (48 + k :: nat)" if "k < 10" for k using that by simp
  show ?case
  proof (cases "n < 10")
    case True
    then show ?thesis using d [OF True] by (simp add: dec.simps [of n] digit_def digits_value_def)
  next
    case False
    have m: "n mod 10 < 10" by simp
    from 1 [OF False] show ?thesis using False d [OF m]
      by (simp add: dec.simps [of n] digits_value_append digit_def)
  qed
qed

end
