(* ===== verification/Address.thy ===== *)
theory Address
  imports Endian Strings
begin

unbundle bit_operations_syntax

section \<open>Addresses (basic/address)\<close>

text \<open>
  Network addresses. A \<^verbatim>\<open>sockaddr_in\<close> keeps address and port in network byte order, so that the
  conversions of the byte order theory appear with the host they run on. The generic
  comparison operators work on the bytes of the structure. What \<^verbatim>\<open>getaddrinfo\<close>, \<^verbatim>\<open>getifaddrs\<close> and
  \<^verbatim>\<open>inet_pton\<close> return is an argument.
\<close>

subsection \<open>Masks\<close>

definition getMask :: "int \<Rightarrow> u32" where
  "getMask prefix_len = (if 32 \<le> prefix_len then NOT 0 else if prefix_len \<le> 0 then 0 else push_bit (nat (32 - prefix_len)) (NOT 0))"

text \<open>\<^verbatim>\<open>countSetBites\<close> for any unsigned type.\<close>

lemma and_pred_less: "v \<noteq> 0 \<Longrightarrow> unat (v AND (v - 1)) < unat v" for v :: "'a::len word"
proof -
  assume v: "v \<noteq> 0"
  have "unat (v AND (v - 1)) \<le> unat (v - 1)"
    by (metis and.commute word_and_le1 word_le_nat_alt)
  also have "\<dots> < unat v" using v unat_pred [OF v] by (simp add: unat_gt_0)
  finally show ?thesis .
qed

function countSetBites :: "'a::len word \<Rightarrow> nat" where
  "countSetBites v = (if v = 0 then 0 else Suc (countSetBites (v AND (v - 1))))"
  by pat_completeness auto
termination
  by (relation "measure unat") (simp_all add: and_pred_less)

declare countSetBites.simps [simp del]

subsection \<open>Comparison\<close>

fun memcmp :: "bytes \<Rightarrow> bytes \<Rightarrow> int" where
  "memcmp (x # xs) (y # ys) = (if x < y then -1 else if y < x then 1 else memcmp xs ys)"
| "memcmp _ _ = 0"

definition addr_less :: "bytes \<Rightarrow> bytes \<Rightarrow> bool" where
  "addr_less a b =
     (let minLen = (if length a < length b then length a else length b); c = memcmp (take minLen a) (take minLen b)
      in if c < 0 then True else if c > 0 then False else length a < length b)"

definition addr_eq :: "bytes \<Rightarrow> bytes \<Rightarrow> bool" where
  "addr_eq a b \<longleftrightarrow> length a = length b \<and> memcmp a b \<noteq> 0"

definition addr_neq :: "bytes \<Rightarrow> bytes \<Rightarrow> bool" where
  "addr_neq a b \<longleftrightarrow> \<not> (length a = length b \<and> memcmp a b \<noteq> 0)"

subsection \<open>IPv4\<close>

fun byteSwapToBigEndian32 :: "host \<Rightarrow> u32 \<Rightarrow> u32" where
  "byteSwapToBigEndian32 BIG_ENDIAN t = t"
| "byteSwapToBigEndian32 LITTLE_ENDIAN t = byteSwap32 t"

abbreviation AF_UNIX :: u16 where "AF_UNIX \<equiv> 1"
abbreviation AF_INET :: u16 where "AF_INET \<equiv> 2"
abbreviation AF_INET6 :: u16 where "AF_INET6 \<equiv> 10"

record sockaddr_in =
  sin_family :: u16
  sin_port :: u16
  s_addr :: u32

definition IPv4Address_new :: "host \<Rightarrow> u32 \<Rightarrow> u16 \<Rightarrow> sockaddr_in" where
  "IPv4Address_new h address port =
     \<lparr>sin_family = AF_INET, sin_port = byteSwapToBigEndian h port, s_addr = byteSwapToBigEndian32 h address\<rparr>"

text \<open>\<open>parsed\<close> is what \<^verbatim>\<open>inet_pton\<close> made of the text; a failure is only logged and leaves zero.\<close>

definition IPv4Address_text :: "host \<Rightarrow> u32 option \<Rightarrow> u16 \<Rightarrow> sockaddr_in" where
  "IPv4Address_text h parsed port =
     \<lparr>sin_family = AF_INET, sin_port = byteSwapToBigEndian h port, s_addr = (case parsed of None \<Rightarrow> 0 | Some a \<Rightarrow> a)\<rparr>"

definition broadcastAddress :: "host \<Rightarrow> u32 \<Rightarrow> sockaddr_in \<Rightarrow> sockaddr_in option" where
  "broadcastAddress h prefix_len a =
     (if prefix_len > 32 then None
      else Some (a\<lparr>s_addr := s_addr a OR byteSwapToBigEndian32 h (NOT (getMask (sint prefix_len)))\<rparr>))"

definition networkAddress :: "host \<Rightarrow> u32 \<Rightarrow> sockaddr_in \<Rightarrow> sockaddr_in option" where
  "networkAddress h prefix_len a =
     (if prefix_len > 32 then None
      else Some (a\<lparr>s_addr := s_addr a AND byteSwapToBigEndian32 h (getMask (sint prefix_len))\<rparr>))"

definition subnetMask :: "host \<Rightarrow> u32 \<Rightarrow> sockaddr_in" where
  "subnetMask h prefix_len =
     \<lparr>sin_family = AF_INET, sin_port = 0, s_addr = byteSwapToBigEndian32 h (getMask (sint prefix_len))\<rparr>"

definition IPv4_getPort :: "host \<Rightarrow> sockaddr_in \<Rightarrow> u16" where
  "IPv4_getPort h a = NetByteSwapToHostEndian h (sin_port a)"

definition IPv4_setPort :: "host \<Rightarrow> u16 \<Rightarrow> sockaddr_in \<Rightarrow> sockaddr_in" where
  "IPv4_setPort h v a = a\<lparr>sin_port := byteSwapToBigEndian h v\<rparr>"

definition IPv4_insert :: "host \<Rightarrow> sockaddr_in \<Rightarrow> string" where
  "IPv4_insert h a =
     (let addr = s_addr a; port = NetByteSwapToHostEndian h (sin_port a)
      in dec (unat (addr AND 0xff)) @ ''.'' @ dec (unat (drop_bit 8 addr AND 0xff)) @ ''.'' @
         dec (unat (drop_bit 16 addr AND 0xff)) @ ''.'' @ dec (unat (drop_bit 24 addr AND 0xff)) @ '':'' @ dec (unat port))"

subsection \<open>IPv6\<close>

record sockaddr_in6 =
  sin6_family :: u16
  sin6_port :: u16
  s6_addr :: bytes

definition IPv6Address_raw :: "host \<Rightarrow> bytes \<Rightarrow> u16 \<Rightarrow> sockaddr_in6" where
  "IPv6Address_raw h addr port = \<lparr>sin6_family = AF_INET6, sin6_port = byteSwapToBigEndian h port, s6_addr = take 16 addr\<rparr>"

definition last_block :: "nat \<Rightarrow> nat \<times> nat" where
  "last_block prefix_len = (if prefix_len div 8 \<ge> 16 then (16, 0) else (prefix_len div 8, prefix_len mod 8))"

definition keep_high :: "nat \<Rightarrow> byte \<Rightarrow> byte" where
  "keep_high last_bits b = push_bit last_bits (drop_bit last_bits b)"

definition IPv6_networkAddress :: "nat \<Rightarrow> sockaddr_in6 \<Rightarrow> sockaddr_in6" where
  "IPv6_networkAddress prefix_len a =
     (let (last_block6, last_bits) = last_block prefix_len;
          addr = take last_block6 (s6_addr a) @ replicate (16 - last_block6) 0
      in a\<lparr>s6_addr := (if last_bits \<noteq> 0 then addr[last_block6 := keep_high last_bits (s6_addr a ! last_block6)] else addr)\<rparr>)"

definition IPv6_subnetMask :: "nat \<Rightarrow> sockaddr_in6 \<Rightarrow> sockaddr_in6" where
  "IPv6_subnetMask prefix_len a =
     (let (last_block6, last_bits) = last_block prefix_len;
          addr = replicate last_block6 (NOT 0) @ replicate (16 - last_block6) 0
      in a\<lparr>s6_addr := (if last_bits \<noteq> 0 then addr[last_block6 := keep_high last_bits (s6_addr a ! last_block6)] else addr)\<rparr>)"

definition IPv6_getPort :: "host \<Rightarrow> sockaddr_in6 \<Rightarrow> u16" where
  "IPv6_getPort h a = NetByteSwapToHostEndian h (sin6_port a)"

definition IPv6_setPort :: "host \<Rightarrow> u16 \<Rightarrow> sockaddr_in6 \<Rightarrow> sockaddr_in6" where
  "IPv6_setPort h v a = a\<lparr>sin6_port := byteSwapToBigEndian h v\<rparr>"

subsection \<open>Unix addresses\<close>

text \<open>
  \<^verbatim>\<open>sun_path\<close> has 108 bytes. The constructor from a path adds to \<^verbatim>\<open>m_addr_size\<close>, which no constructor
  initialises: \<open>old\<close> is what it holds before.
\<close>

record unix_address =
  sun_path :: bytes
  m_addr_size :: u32

definition MAX_PATH_LEN :: nat where
  "MAX_PATH_LEN = 107"

definition UnixAddress_new :: "u32 \<Rightarrow> bytes \<Rightarrow> failure + unix_address" where
  "UnixAddress_new old path =
     (let path_len = (if path \<noteq> [] \<and> hd path = 0 then length path else length path + 1)
      in if path_len > MAX_PATH_LEN then Inl (Thrown ''path too long'')
         else Inr \<lparr>sun_path = write_at (replicate 108 0) 0 (take path_len (path @ [0])), m_addr_size = old + of_nat (2 + path_len)\<rparr>)"

definition UnixAddress_sockaddr :: "bytes \<Rightarrow> nat \<Rightarrow> unix_address" where
  "UnixAddress_sockaddr sun path_len = \<lparr>sun_path = sun, m_addr_size = of_nat (2 + path_len)\<rparr>"

definition Unix_insert :: "unix_address \<Rightarrow> bytes" where
  "Unix_insert a =
     (if m_addr_size a > 2 \<and> hd (sun_path a) = 0
      then [92, 48] @ take (unat (m_addr_size a) - 2 - 1) (drop 1 (sun_path a))
      else takeWhile (\<lambda>c. c \<noteq> 0) (sun_path a))"

subsection \<open>Creation and lookup\<close>

text \<open>A \<^verbatim>\<open>sockaddr\<close> with what stands behind its family.\<close>

datatype sockaddr = Sock_in sockaddr_in | Sock_in6 sockaddr_in6 | Sock_un bytes | Sock_other u16

datatype address = IPv4 sockaddr_in | IPv6 sockaddr_in6 | Unix unix_address | Unknown u16

definition Create :: "sockaddr option \<Rightarrow> nat \<Rightarrow> address option" where
  "Create addr path_len =
     (case addr of
        None \<Rightarrow> None
      | Some (Sock_in a) \<Rightarrow> Some (IPv4 a)
      | Some (Sock_in6 a) \<Rightarrow> Some (IPv6 a)
      | Some (Sock_un p) \<Rightarrow> Some (Unix (UnixAddress_sockaddr p path_len))
      | Some (Sock_other f) \<Rightarrow> Some (Unknown f))"

text \<open>\<^verbatim>\<open>std::string::find\<close> of one character.\<close>

definition find_char :: "char \<Rightarrow> string \<Rightarrow> nat option" where
  "find_char c s = (let i = length (takeWhile (\<lambda>x. x \<noteq> c) s) in if i < length s then Some i else None)"

definition split_host :: "string \<Rightarrow> (string \<times> string) option" where
  "split_host host =
     (let bracket = (if host \<noteq> [] \<and> hd host = CHR ''[''
            then (case find_char (CHR '']'') host of
                    None \<Rightarrow> None
                  | Some e \<Rightarrow> Some (take (e - 1) (drop 1 host), if e + 2 < length host then drop (e + 2) host else []))
            else Some ([], []))
      in case bracket of
           None \<Rightarrow> None
         | Some (node, service) \<Rightarrow>
             if node = []
             then (let e = (case find_char (CHR '':'') host of None \<Rightarrow> length host | Some i \<Rightarrow> i)
                   in Some (take e host, if e + 1 < length host then drop (e + 1) host else service))
             else Some (node, service))"

text \<open>\<open>gai\<close> is \<^verbatim>\<open>getaddrinfo\<close>: the addresses found with their lengths, or an error.\<close>

definition Lookup ::
  "(string \<Rightarrow> string \<Rightarrow> (sockaddr \<times> nat) list option) \<Rightarrow> string \<Rightarrow> address option list \<Rightarrow> bool \<times> address option list" where
  "Lookup gai host result =
     (case split_host host of
        None \<Rightarrow> (False, result)
      | Some (node, service) \<Rightarrow>
          (case gai node service of
             None \<Rightarrow> (False, result)
           | Some xs \<Rightarrow> (let result' = result @ map (\<lambda>(a, n). Create (Some a) n) xs in (result' \<noteq> [], result'))))"

definition LookupAny :: "(string \<Rightarrow> string \<Rightarrow> (sockaddr \<times> nat) list option) \<Rightarrow> string \<Rightarrow> address option" where
  "LookupAny gai host = (let (ok, result) = Lookup gai host [] in if \<not> ok then None else hd result)"

fun is_ip :: "address option \<Rightarrow> bool" where
  "is_ip (Some (IPv4 a)) = True"
| "is_ip (Some (IPv6 a)) = True"
| "is_ip _ = False"

definition LookupAnyIPAddress :: "(string \<Rightarrow> string \<Rightarrow> (sockaddr \<times> nat) list option) \<Rightarrow> string \<Rightarrow> address option" where
  "LookupAnyIPAddress gai host =
     (case find is_ip (snd (Lookup gai host [])) of None \<Rightarrow> None | Some a \<Rightarrow> a)"

text \<open>One entry of \<^verbatim>\<open>getifaddrs\<close>: the name, the address (which may be null) and the netmask.\<close>

record ifaddr =
  ifa_name :: string
  ifa_addr :: "sockaddr option"
  mask4 :: u32
  mask6 :: bytes

fun family :: "sockaddr \<Rightarrow> u16" where
  "family (Sock_in a) = AF_INET"
| "family (Sock_in6 a) = AF_INET6"
| "family (Sock_un p) = AF_UNIX"
| "family (Sock_other f) = f"

fun interface_loop :: "u16 \<Rightarrow> ifaddr list \<Rightarrow> (string \<times> address option \<times> nat) list \<Rightarrow> failure + (string \<times> address option \<times> nat) list" where
  "interface_loop fam [] result = Inr result"
| "interface_loop fam (p # ps) result =
     (case (fam, ifa_addr p) of
        (f, None) \<Rightarrow> Inl NullDeref
      | (f, Some a) \<Rightarrow>
          if f \<noteq> 0 \<and> family a \<noteq> f then interface_loop fam ps result
          else (case a of
                  Sock_in x \<Rightarrow> interface_loop fam ps (result @ [(ifa_name p, Create (Some a) 16, countSetBites (mask4 p))])
                | Sock_in6 x \<Rightarrow> interface_loop fam ps (result @ [(ifa_name p, Create (Some a) 28, sum_list (map countSetBites (mask6 p)))])
                | _ \<Rightarrow> interface_loop fam ps result))"

definition getInterfaceAddress :: "u16 \<Rightarrow> ifaddr list option \<Rightarrow> failure + bool \<times> (string \<times> address option \<times> nat) list" where
  "getInterfaceAddress fam ifs =
     (case ifs of
        None \<Rightarrow> Inr (False, [])
      | Some ps \<Rightarrow> map_sum id (\<lambda>r. (r \<noteq> [], r)) (interface_loop fam ps []))"

definition getInterfaceAddress_name :: "u16 \<Rightarrow> ifaddr list option \<Rightarrow> string \<Rightarrow> failure + bool \<times> (address option \<times> nat) list" where
  "getInterfaceAddress_name fam ifs name =
     (case getInterfaceAddress fam ifs of
        Inl e \<Rightarrow> Inl e
      | Inr (False, _) \<Rightarrow> Inr (False, [])
      | Inr (True, r) \<Rightarrow> (let xs = map snd (filter (\<lambda>(n, _). n = name) r) in Inr (xs \<noteq> [], xs)))"


section \<open>Correctness of the addresses\<close>

subsection \<open>Counting bits\<close>

lemma bits_finite: "finite {k. bit v k}" for v :: nat
  using finite_subset [of "{k. bit v k}" "{..v}"] bit_nat_def
  by (smt (verit, best) atMost_iff bit_imp_take_bit_positive div_less dvd_0_right finite_atMost less_exp mem_Collect_eq nat_le_linear nat_less_le order_le_less_trans subsetI bit_iff_odd)

lemma bits_double: "{k. bit (2 * m) k} = Suc ` {k. bit m k}" for m :: nat
proof (rule set_eqI)
  fix k show "k \<in> {k. bit (2 * m) k} \<longleftrightarrow> k \<in> Suc ` {k. bit m k}"
    by (cases k) (auto simp: bit_0 bit_Suc)
qed

lemma bits_double_Suc: "{k. bit (2 * m + 1) k} = insert 0 (Suc ` {k. bit m k})" for m :: nat
proof (rule set_eqI)
  fix k show "k \<in> {k. bit (2 * m + 1) k} \<longleftrightarrow> k \<in> insert 0 (Suc ` {k. bit m k})"
    by (cases k) (auto simp: bit_0 bit_Suc)
qed

text \<open>Clearing the lowest set bit removes one bit.\<close>

lemma clear_lowest:
  "0 < n \<Longrightarrow> card {k. bit n k} = Suc (card {k. bit (n AND (n - 1)) k})" for n :: nat
proof (induction n rule: less_induct)
  case (less n)
  show ?case
  proof (cases "even n")
    case True
    then obtain m where m: "n = 2 * m" by (auto elim: evenE)
    with less.prems have "0 < m" "m < n" by auto
    then have ih: "card {k. bit m k} = Suc (card {k. bit (m AND (m - 1)) k})" by (rule less.IH [rotated])
    have "n AND (n - 1) = 2 * (m AND (m - 1))"
    proof (rule bit_eqI)
      fix k
      have "n - 1 = 2 * (m - 1) + 1" using m \<open>0 < m\<close> by simp
      then have "bit (n AND (n - 1)) k \<longleftrightarrow> bit (2 * m) k \<and> bit (2 * (m - 1) + 1) k"
        by (simp only: m bit_and_iff)
      then show "bit (n AND (n - 1)) k = bit (2 * (m AND (m - 1))) k"
        by (cases k) (auto simp: bit_and_iff bit_0 bit_Suc)
    qed
    then show ?thesis using ih by (simp add: m bits_double card_image)
  next
    case False
    then obtain m where m: "n = 2 * m + 1" by (auto elim: oddE)
    have "n AND (n - 1) = 2 * m"
    proof (rule bit_eqI)
      fix k
      have "bit (n AND (n - 1)) k \<longleftrightarrow> bit (2 * m + 1) k \<and> bit (2 * m) k"
        by (simp only: m bit_and_iff add_diff_cancel_right')
      then show "bit (n AND (n - 1)) k = bit (2 * m) k"
        by (cases k) (auto simp: bit_0 bit_Suc)
    qed
    then show ?thesis by (simp add: m bits_double bits_double_Suc [simplified] card_image bits_finite)
  qed
qed

lemma countSetBites_card: "countSetBites v = card {k. bit v k}" for v :: "'a::len word"
proof (induction v rule: countSetBites.induct)
  case (1 v)
  show ?case
  proof (cases "v = 0")
    case True
    then show ?thesis by (simp add: countSetBites.simps)
  next
    case False
    have b: "bit w k \<longleftrightarrow> bit (unat w) k" for w :: "'a word" and k
      using bit_imp_le_length by (auto simp: bit_unsigned_iff)
    have "unat (v AND (v - 1)) = unat v AND (unat v - 1)"
      using unat_pred [OF False] by (simp add: unsigned_and_eq)
    moreover have "0 < unat v" using False by (simp add: unat_gt_0)
    ultimately show ?thesis using 1 [OF False] clear_lowest [of "unat v"] False
      by (simp add: countSetBites.simps [of v] b)
  qed
qed

subsection \<open>IPv4 subnets\<close>

lemma bit_swap32: "k < 32 \<Longrightarrow> bit (byteSwap32 v) k \<longleftrightarrow> bit v (8 * (3 - k div 8) + k mod 8)"
  using bit_byteSwap32 [of "k mod 8" "k div 8" v] by simp

lemma swap32_and: "byteSwapToBigEndian32 h (x AND y) = byteSwapToBigEndian32 h x AND byteSwapToBigEndian32 h y"
  by (cases h) (auto intro!: bit_word_eqI simp: bit_swap32 bit_and_iff)

lemma swap32_or: "byteSwapToBigEndian32 h (x OR y) = byteSwapToBigEndian32 h x OR byteSwapToBigEndian32 h y"
  by (cases h) (auto intro!: bit_word_eqI simp: bit_swap32 bit_or_iff)

lemma countSetBites_swap: "countSetBites (byteSwap32 v) = countSetBites v"
proof -
  let ?f = "\<lambda>k :: nat. 8 * (3 - k div 8) + k mod 8"
  have lt: "bit w k \<Longrightarrow> k < 32" for w :: u32 and k using bit_imp_le_length by force
  have ff: "?f k < 32 \<and> ?f (?f k) = k" if "k < 32" for k
  proof -
    have "k div 8 \<le> 3" "k mod 8 < 8" using that by auto
    then show ?thesis by simp
  qed
  have "bij_betw ?f {k. bit (byteSwap32 v) k} {k. bit v k}"
  proof (rule bij_betw_byWitness [where f' = ?f])
    show "\<forall>k \<in> {k. bit (byteSwap32 v) k}. ?f (?f k) = k" "\<forall>k \<in> {k. bit v k}. ?f (?f k) = k"
      using ff lt by blast+
    show "?f ` {k. bit (byteSwap32 v) k} \<subseteq> {k. bit v k}"
      using lt bit_swap32 [of _ v] by blast
    show "?f ` {k. bit v k} \<subseteq> {k. bit (byteSwap32 v) k}"
      using lt ff bit_swap32 [of "?f _" v] by (smt (verit) image_subset_iff mem_Collect_eq)
  qed
  then show ?thesis by (simp add: countSetBites_card bij_betw_same_card)
qed

lemma bit_getMask:
  assumes "p \<le> 32" "k < 32"
  shows "bit (getMask (int p)) k \<longleftrightarrow> 32 - p \<le> k"
  using assms by (auto simp: getMask_def bit_simps)

lemma countSetBites_getMask: "p \<le> 32 \<Longrightarrow> countSetBites (getMask (int p)) = p"
proof -
  assume p: "p \<le> 32"
  have "{k. bit (getMask (int p)) k} = {32 - p..<32}"
  proof (rule set_eqI)
    fix k show "k \<in> {k. bit (getMask (int p)) k} \<longleftrightarrow> k \<in> {32 - p..<32}"
      using bit_getMask [OF p, of k] bit_imp_le_length [of "getMask (int p)" k] by (cases "k < 32") auto
  qed
  then show ?thesis using p by (simp add: countSetBites_card)
qed

lemma sint_prefix: "p \<le> 32 \<Longrightarrow> sint p = int (unat p)" for p :: u32
proof -
  assume "p \<le> 32"
  then have "uint p \<le> 32" by (simp add: word_le_def)
  moreover have "- (2 ^ 31) \<le> uint p" by (rule order_trans [of _ 0]) simp_all
  ultimately have "signed_take_bit 31 (uint p) = uint p" by (intro signed_take_bit_int_eq_self) simp_all
  then show ?thesis by (simp add: sint_uint)
qed

lemma ipv4_subnet_parts:
  assumes "p \<le> 32"
  shows "\<exists>n b. networkAddress h p (IPv4Address_new h x port) = Some (IPv4Address_new h n port)
      \<and> broadcastAddress h p (IPv4Address_new h x port) = Some (IPv4Address_new h b port)
      \<and> (\<forall>k. bit n k \<longleftrightarrow> bit x k \<and> 32 - unat p \<le> k) \<and> (\<forall>k. bit b k \<longleftrightarrow> bit x k \<or> k < 32 - unat p)"
    and "countSetBites (s_addr (subnetMask h p)) = unat p"
    and "q > 32 \<Longrightarrow> networkAddress h q a = None \<and> broadcastAddress h q a = None"
proof -
  have p: "unat p \<le> 32" using assms by (simp add: word_le_nat_alt)
  let ?m = "getMask (int (unat p))"
  have m: "bit ?m k \<longleftrightarrow> 32 - unat p \<le> k" if "k < 32" for k using bit_getMask [OF p that] .
  have lt: "bit w k \<Longrightarrow> k < 32" for w :: u32 and k using bit_imp_le_length by force
  have "networkAddress h p (IPv4Address_new h x port) = Some (IPv4Address_new h (x AND ?m) port)"
    using assms by (simp add: networkAddress_def IPv4Address_new_def sint_prefix swap32_and)
  moreover have "broadcastAddress h p (IPv4Address_new h x port) = Some (IPv4Address_new h (x OR NOT ?m) port)"
    using assms by (simp add: broadcastAddress_def IPv4Address_new_def sint_prefix swap32_or)
  moreover have "bit (x AND ?m) k \<longleftrightarrow> bit x k \<and> 32 - unat p \<le> k" for k
    using m lt [of x k] by (auto simp: bit_and_iff)
  moreover have "bit (x OR NOT ?m) k \<longleftrightarrow> bit x k \<or> k < 32 - unat p" for k
    using m [of k] lt [of x k] by (cases "k < 32") (auto simp: bit_or_iff bit_not_iff simp del: of_nat_unat)
  ultimately show "\<exists>n b. networkAddress h p (IPv4Address_new h x port) = Some (IPv4Address_new h n port)
      \<and> broadcastAddress h p (IPv4Address_new h x port) = Some (IPv4Address_new h b port)
      \<and> (\<forall>k. bit n k \<longleftrightarrow> bit x k \<and> 32 - unat p \<le> k) \<and> (\<forall>k. bit b k \<longleftrightarrow> bit x k \<or> k < 32 - unat p)"
    by blast
  show "countSetBites (s_addr (subnetMask h p)) = unat p"
    using assms countSetBites_getMask [OF p] by (cases h) (simp_all add: subnetMask_def sint_prefix countSetBites_swap)
  show "networkAddress h q a = None \<and> broadcastAddress h q a = None" if "q > 32"
    using that by (simp add: networkAddress_def broadcastAddress_def)
qed

text \<open>
  For a prefix length \<open>p\<close> of at most 32, on a host of either byte order, the network address of
  an address keeps its \<open>p\<close> high bits and clears the others, the broadcast address sets the others,
  both with the port unchanged, and the subnet mask of \<open>p\<close> has exactly \<open>p\<close> set bits, so that the
  prefix length \<^verbatim>\<open>getInterfaceAddress\<close> computes from it is \<open>p\<close> again. Larger prefix lengths are
  refused.
\<close>

theorem ipv4_subnet:
  assumes "p \<le> 32"
  shows "(\<exists>n b. networkAddress h p (IPv4Address_new h x port) = Some (IPv4Address_new h n port)
      \<and> broadcastAddress h p (IPv4Address_new h x port) = Some (IPv4Address_new h b port)
      \<and> (\<forall>k. bit n k \<longleftrightarrow> bit x k \<and> 32 - unat p \<le> k) \<and> (\<forall>k. bit b k \<longleftrightarrow> bit x k \<or> k < 32 - unat p))
    \<and> countSetBites (s_addr (subnetMask h p)) = unat p
    \<and> (q > 32 \<longrightarrow> networkAddress h q a = None \<and> broadcastAddress h q a = None)"
  using ipv4_subnet_parts [OF assms] by blast

theorem ipv4_subnet_witness:
  "countSetBites (s_addr (subnetMask LITTLE_ENDIAN 24)) = 24
   \<and> networkAddress LITTLE_ENDIAN 33 (IPv4Address_new LITTLE_ENDIAN 0x0A000001 80) = None"
  using ipv4_subnet [of 24 LITTLE_ENDIAN _ _ 33] by simp

subsection \<open>Comparison\<close>

lemma memcmp_prefix:
  "length a = length b \<Longrightarrow> (memcmp a b < 0 \<longleftrightarrow> ord_class.lexordp a b) \<and> (memcmp a b = 0 \<longleftrightarrow> a = b)"
  by (induction a b rule: list_induct2) auto

lemma address_order_parts:
  "addr_less a b \<longleftrightarrow> ord_class.lexordp a b"
  "\<not> addr_less a a"
  "addr_less a b \<and> addr_less b c \<longrightarrow> addr_less a c"
  "addr_less a b \<or> a = b \<or> addr_less b a"
  "addr_eq a b \<longleftrightarrow> length a = length b \<and> a \<noteq> b"
  "addr_neq a b \<longleftrightarrow> length a \<noteq> length b \<or> a = b"
proof -
  show l: "addr_less a b \<longleftrightarrow> ord_class.lexordp a b" for a b
  proof (induction a arbitrary: b)
    case Nil
    then show ?case by (cases b) (auto simp: addr_less_def)
  next
    case (Cons x a)
    show ?case
    proof (cases b)
      case (Cons y c)
      then show ?thesis using Cons.IH [of c] by (auto simp: addr_less_def Let_def)
    qed (simp add: addr_less_def)
  qed
  show "\<not> addr_less a a" by (simp add: l ord_class.lexordp_irreflexive)
  show "addr_less a b \<and> addr_less b c \<longrightarrow> addr_less a c" by (auto simp: l intro: lexordp_trans)
  show "addr_less a b \<or> a = b \<or> addr_less b a" using lexordp_linear [of a b] by (auto simp: l)
  show "addr_eq a b \<longleftrightarrow> length a = length b \<and> a \<noteq> b" using memcmp_prefix [of a b] by (auto simp: addr_eq_def)
  show "addr_neq a b \<longleftrightarrow> length a \<noteq> length b \<or> a = b" using memcmp_prefix [of a b] by (auto simp: addr_neq_def)
qed

text \<open>
  \<^verbatim>\<open>operator<\<close> on addresses is the lexicographic order of their bytes, and therefore a strict
  total order; \<^verbatim>\<open>operator==\<close> and \<^verbatim>\<open>operator!=\<close> answer the opposite of what they mean for addresses of
  the same length, since the result of \<^verbatim>\<open>memcmp\<close> is taken as a truth value.
\<close>

theorem address_order:
  "(addr_less a b \<longleftrightarrow> ord_class.lexordp a b) \<and> \<not> addr_less a a \<and> (addr_less a b \<and> addr_less b c \<longrightarrow> addr_less a c)
   \<and> (addr_less a b \<or> a = b \<or> addr_less b a) \<and> (addr_eq a b \<longleftrightarrow> length a = length b \<and> a \<noteq> b)
   \<and> (addr_neq a b \<longleftrightarrow> length a \<noteq> length b \<or> a = b)"
  by (intro conjI address_order_parts)

theorem address_order_witness:
  "addr_less [1, 2] [1, 2, 0] \<and> addr_less [1, 2, 0] [1, 3] \<and> addr_less [1, 2] [1, 3]"
  using address_order [of "[1, 2]" "[1, 2, 0]" "[1, 3]"] by (simp add: address_order_parts(1))

subsection \<open>Ports, text and paths\<close>

lemma port_swap: "NetByteSwapToHostEndian h (byteSwapToBigEndian h v) = v"
  by (cases h) (simp_all add: byteSwap16_involution)

lemma swap32_byte:
  assumes "k < 4"
  shows "drop_bit (8 * k) (byteSwap32 v) AND 0xff = drop_bit (8 * (3 - k)) v AND 0xff"
proof (rule bit_word_eqI)
  fix m assume m: "m < LENGTH(32)"
  have ff: "(0xff :: u32) = mask 8" by (simp add: mask_eq_exp_minus_1)
  show "bit (drop_bit (8 * k) (byteSwap32 v) AND 0xff) m = bit (drop_bit (8 * (3 - k)) v AND 0xff) m"
    using assms bit_byteSwap32 [of m k v] unfolding ff by (auto simp: bit_simps)
qed

text \<open>The octets of an address, most significant first.\<close>

definition octets :: "u32 \<Rightarrow> nat list" where
  "octets x = map (\<lambda>k. unat (drop_bit k x AND 0xff)) [24, 16, 8, 0]"

text \<open>The usual notation of an address and a port.\<close>

fun dotted :: "nat list \<Rightarrow> nat \<Rightarrow> string" where
  "dotted [a] port = dec a @ '':'' @ dec port"
| "dotted (a # as) port = dec a @ ''.'' @ dotted as port"
| "dotted [] port = []"

lemma ipv4_text:
  "IPv4_insert LITTLE_ENDIAN (IPv4Address_new LITTLE_ENDIAN x port) = dotted (octets x) (unat port)"
  "IPv4_insert BIG_ENDIAN (IPv4Address_new BIG_ENDIAN x port) = dotted (rev (octets x)) (unat port)"
  using swap32_byte [of 0 x] swap32_byte [of 1 x] swap32_byte [of 2 x] swap32_byte [of 3 x]
  by (simp_all add: IPv4_insert_def IPv4Address_new_def octets_def byteSwap16_involution)

lemma port_roundtrip:
  "IPv4_getPort h (IPv4_setPort h v a) = v" "s_addr (IPv4_setPort h v a) = s_addr a"
  "IPv6_getPort h (IPv6_setPort h v b) = v" "s6_addr (IPv6_setPort h v b) = s6_addr b"
  by (simp_all add: IPv4_getPort_def IPv4_setPort_def IPv6_getPort_def IPv6_setPort_def port_swap)

lemma find_char_append: "c \<notin> set xs \<Longrightarrow> find_char c (xs @ c # ys) = Some (length xs)"
  by (simp add: find_char_def takeWhile_until)

lemma find_char_None: "c \<notin> set xs \<Longrightarrow> find_char c xs = None"
proof -
  assume "c \<notin> set xs"
  then have "takeWhile (\<lambda>x. x \<noteq> c) xs = xs" by (induction xs) auto
  then show ?thesis unfolding find_char_def by (simp only: Let_def) simp
qed

text \<open>
  \<^verbatim>\<open>Lookup\<close> splits what \<^verbatim>\<open>getaddrinfo\<close> is asked for out of its argument: \<open>node:service\<close>
  into node and service, \<open>[node]:service\<close> likewise for a node that contains colons, and a plain node
  with an empty service. With an opening bracket that is never closed it fails without a call.
\<close>

theorem host_notation_roundtrip:
  assumes "node \<noteq> []" "CHR '']'' \<notin> set node"
  shows "hd node \<noteq> CHR ''['' \<and> CHR '':'' \<notin> set node \<Longrightarrow> split_host (node @ '':'' @ service) = Some (node, service)"
    and "split_host (''['' @ node @ '']:'' @ service) = Some (node, service)"
    and "split_host (''['' @ node @ '']'') = Some (node, [])"
    and "hd node \<noteq> CHR ''['' \<and> CHR '':'' \<notin> set node \<Longrightarrow> split_host node = Some (node, [])"
    and "split_host (''['' @ node) = None"
proof -
  show "split_host (node @ '':'' @ service) = Some (node, service)"
    if "hd node \<noteq> CHR ''['' \<and> CHR '':'' \<notin> set node"
    using that assms(1) find_char_append [of "CHR '':''" node service] by (cases service) (auto simp: split_host_def)
  show "split_host node = Some (node, [])" if "hd node \<noteq> CHR ''['' \<and> CHR '':'' \<notin> set node"
    using that assms(1) find_char_None [of "CHR '':''" node] by (auto simp: split_host_def)
  have b: "find_char (CHR '']'') (CHR ''['' # node @ CHR '']'' # r) = Some (Suc (length node))" for r
    using find_char_append [of "CHR '']''" "CHR ''['' # node" r] assms(2) by simp
  show "split_host (''['' @ node @ '']:'' @ service) = Some (node, service)"
    using assms(1) b [of "CHR '':'' # service"] by (cases service) (auto simp: split_host_def)
  show "split_host (''['' @ node @ '']'') = Some (node, [])"
    using assms(1) b [of "[]"] by (auto simp: split_host_def)
  show "split_host (''['' @ node) = None"
    using assms find_char_None [of "CHR '']''" "CHR ''['' # node"] by (auto simp: split_host_def)
qed

theorem host_notation_roundtrip_witness:
  "split_host ''[::1]:80'' = Some (''::1'', ''80'') \<and> split_host ''localhost:http'' = Some (''localhost'', ''http'')"
  using host_notation_roundtrip(2) [of "''::1''" "''80''"] host_notation_roundtrip(1) [of "''localhost''" "''http''"] by simp

text \<open>
  The network address of an IPv6 address is right for prefixes of whole bytes; in the last byte of
  another prefix the \<open>8 - r\<close> high bits are kept instead of the \<open>r\<close> high ones, and the subnet mask
  has bits of the address there.
\<close>

lemma bit_keep_high: "bit (keep_high r b) m \<longleftrightarrow> r \<le> m \<and> bit b m"
  using bit_imp_le_length [of b m] by (auto simp: keep_high_def bit_simps)

theorem ipv6_network:
  assumes "length (s6_addr a) = 16" "p < 128" "i < 16" "m < 8"
  shows "bit (s6_addr (IPv6_networkAddress p a) ! i) m \<longleftrightarrow>
      bit (s6_addr a ! i) m \<and> (i < p div 8 \<or> i = p div 8 \<and> p mod 8 \<noteq> 0 \<and> p mod 8 \<le> m)"
    and "bit (s6_addr (IPv6_subnetMask p a) ! i) m \<longleftrightarrow>
      i < p div 8 \<or> i = p div 8 \<and> p mod 8 \<noteq> 0 \<and> p mod 8 \<le> m \<and> bit (s6_addr a ! i) m"
  using assms
  by (auto simp: IPv6_networkAddress_def IPv6_subnetMask_def last_block_def Let_def nth_list_update nth_append bit_keep_high bit_not_iff)

theorem ipv6_network_witness:
  "\<not> bit (s6_addr (IPv6_networkAddress 9 \<lparr>sin6_family = 10, sin6_port = 0, s6_addr = replicate 16 (0x80 :: byte)\<rparr>) ! 2) 7
   \<and> bit (s6_addr (IPv6_networkAddress 9 \<lparr>sin6_family = 10, sin6_port = 0, s6_addr = replicate 16 (0xFF :: byte)\<rparr>) ! 1) 1"
  using ipv6_network(1) [of "\<lparr>sin6_family = 10, sin6_port = 0, s6_addr = replicate 16 (0xFF :: byte)\<rparr>" 9 1 1]
    ipv6_network(1) [of "\<lparr>sin6_family = 10, sin6_port = 0, s6_addr = replicate 16 (0x80 :: byte)\<rparr>" 9 2 7]
  by simp

text \<open>A path written to a Unix address that starts with size 0 is printed back.\<close>

lemma unix_path_roundtrip:
  assumes "length path < MAX_PATH_LEN" "0 \<notin> set path" "path \<noteq> []"
  shows "\<exists>a. UnixAddress_new 0 path = Inr a \<and> Unix_insert a = path \<and> unat (m_addr_size a) = length path + 3"
proof -
  have n: "hd path \<noteq> 0" using assms(2,3) by (cases path) auto
  let ?n = "Suc (length path)"
  have sz: "unat (of_nat (2 + ?n) :: u32) = length path + 3"
    using assms(1) unfolding unat_of_nat by (simp add: MAX_PATH_LEN_def)
  have "takeWhile (\<lambda>c. c \<noteq> 0) (path @ 0 # r) = path" for r :: bytes
    using assms(2) by (rule takeWhile_until)
  moreover have "hd (path @ r) \<noteq> 0" for r using assms(3) n by simp
  ultimately show ?thesis using assms(1) n sz
    by (auto simp: UnixAddress_new_def Let_def Unix_insert_def write_at_def)
qed
end
