(* ===== verification/Ws_Parser.thy ===== *)
theory Ws_Parser
  imports Prelude
begin

unbundle bit_operations_syntax

section \<open>The WebSocket frame parser (protocol/websocket/websocket_parser.cc)\<close>

text \<open>
  The callback driven frame parser: its state, the callbacks, one iteration of the parsing
  loop for every parser state, the loop itself, masking, and frame construction.

  A \<^verbatim>\<open>char\<close> is a \<^typ>\<open>byte\<close>, \<^verbatim>\<open>size_t\<close> a \<^typ>\<open>u64\<close>. A callback receives the parser and
  returns its \<^verbatim>\<open>int\<close> result together with the two fields callbacks write: the application
  data and, through \<^verbatim>\<open>websocket_parser_decode\<close>, the mask offset. A callback that is not
  set is \<open>None\<close>. The comparison \<^verbatim>\<open>p + require <= end\<close> is on the exact sum: C leaves
  a pointer past the buffer undefined.
\<close>

subsection \<open>Flags\<close>

abbreviation WS_OP_CONTINUE :: u32 where "WS_OP_CONTINUE \<equiv> 0x0"
abbreviation WS_OP_TEXT :: u32 where "WS_OP_TEXT \<equiv> 0x1"
abbreviation WS_OP_BINARY :: u32 where "WS_OP_BINARY \<equiv> 0x2"
abbreviation WS_OP_CLOSE :: u32 where "WS_OP_CLOSE \<equiv> 0x8"
abbreviation WS_OP_PING :: u32 where "WS_OP_PING \<equiv> 0x9"
abbreviation WS_OP_PONG :: u32 where "WS_OP_PONG \<equiv> 0xA"
abbreviation WS_FIN :: u32 where "WS_FIN \<equiv> 0x10"
abbreviation WS_HAS_MASK :: u32 where "WS_HAS_MASK \<equiv> 0x20"
abbreviation WS_OP_MASK :: u32 where "WS_OP_MASK \<equiv> 0xF"

subsection \<open>State\<close>

datatype pstate = s_start | s_head | s_length | s_mask | s_body

record 'd websocket_parser =
  pstate :: pstate
  flags :: u32
  mask_key :: bytes
  mask_offset :: byte
  plength :: u64
  require :: u64
  offset :: u64
  pdata :: 'd

type_synonym 'd websocket_cb = "'d websocket_parser \<Rightarrow> int \<times> byte \<times> 'd"
type_synonym 'd websocket_data_cb = "'d websocket_parser \<Rightarrow> bytes \<Rightarrow> int \<times> byte \<times> 'd"

record 'd websocket_parser_settings =
  on_frame_header :: "'d websocket_cb option"
  on_frame_body :: "'d websocket_data_cb option"
  on_frame_end :: "'d websocket_cb option"

definition websocket_parser_init :: "'d websocket_parser \<Rightarrow> 'd websocket_parser" where
  "websocket_parser_init ps =
     \<lparr>pstate = s_start, flags = 0, mask_key = [0, 0, 0, 0], mask_offset = 0,
      plength = 0, require = 0, offset = 0, pdata = pdata ps\<rparr>"

definition websocket_parser_settings_init :: "'d websocket_parser_settings" where
  "websocket_parser_settings_init =
     \<lparr>on_frame_header = None, on_frame_body = None, on_frame_end = None\<rparr>"

definition websocket_parser_get_opcode :: "'d websocket_parser \<Rightarrow> u32" where
  "websocket_parser_get_opcode ps = flags ps AND WS_OP_MASK"

definition websocket_parser_has_mask :: "'d websocket_parser \<Rightarrow> bool" where
  "websocket_parser_has_mask ps \<longleftrightarrow> flags ps AND WS_HAS_MASK \<noteq> 0"

definition websocket_parser_has_final :: "'d websocket_parser \<Rightarrow> bool" where
  "websocket_parser_has_final ps \<longleftrightarrow> flags ps AND WS_FIN \<noteq> 0"

subsection \<open>Callbacks\<close>

definition apply_cb :: "int \<times> byte \<times> 'd \<Rightarrow> 'd websocket_parser \<Rightarrow> int \<times> 'd websocket_parser" where
  "apply_cb r ps = (case r of (rc, mo, d) \<Rightarrow> (rc, ps\<lparr>mask_offset := mo, pdata := d\<rparr>))"

definition NOTIFY_CB :: "'d websocket_cb option \<Rightarrow> 'd websocket_parser \<Rightarrow> int \<times> 'd websocket_parser" where
  "NOTIFY_CB cb ps = (case cb of None \<Rightarrow> (0, ps) | Some f \<Rightarrow> apply_cb (f ps) ps)"

definition EMIT_DATA_CB ::
  "'d websocket_data_cb option \<Rightarrow> bytes \<Rightarrow> 'd websocket_parser \<Rightarrow> int \<times> 'd websocket_parser" where
  "EMIT_DATA_CB cb xs ps = (case cb of None \<Rightarrow> (0, ps) | Some f \<Rightarrow> apply_cb (f ps xs) ps)"

subsection \<open>One iteration of the loop\<close>

text \<open>
  An iteration starts at position \<open>pos\<close> with the unread bytes \<open>rest\<close> (not empty) and the
  local \<open>frame_offset\<close>. It either returns from the function with \<open>p\<close> at a position (\<open>Inl\<close>) or
  goes on after having consumed a number of bytes (\<open>Inr\<close>).
\<close>

type_synonym 'd iter_result =
  "(int \<times> 'd websocket_parser) + ('d websocket_parser \<times> u64 \<times> nat)"

text \<open>The end of a header: the frame has a body or is complete.\<close>

definition header_done ::
  "'d websocket_parser_settings \<Rightarrow> int \<Rightarrow> u64 \<Rightarrow> nat \<Rightarrow> 'd websocket_parser \<Rightarrow> 'd iter_result" where
  "header_done st p fo k ps =
     (if plength ps \<noteq> 0 then
        (let ps1 = ps\<lparr>pstate := s_body, require := plength ps\<rparr>;
             (rc, ps2) = NOTIFY_CB (on_frame_header st) ps1
         in if rc \<noteq> 0 then Inl (p, ps2) else Inr (ps2, fo, k))
      else
        (let ps1 = ps\<lparr>pstate := s_start\<rparr>;
             (rc, ps2) = NOTIFY_CB (on_frame_header st) ps1
         in if rc \<noteq> 0 then Inl (p, ps2)
            else (let (rc', ps3) = NOTIFY_CB (on_frame_end st) ps2
                  in if rc' \<noteq> 0 then Inl (p, ps3) else Inr (ps3, fo, k))))"

definition iter_start :: "u64 \<Rightarrow> 'd websocket_parser \<Rightarrow> byte \<Rightarrow> 'd iter_result" where
  "iter_start fo ps c =
     Inr (ps\<lparr>offset := 0, plength := 0, mask_offset := 0,
             flags := (ucast c AND WS_OP_MASK) OR (if c AND 0x80 \<noteq> 0 then WS_FIN else 0),
             pstate := s_head\<rparr>, fo + 1, 1)"

definition iter_head ::
  "'d websocket_parser_settings \<Rightarrow> nat \<Rightarrow> u64 \<Rightarrow> 'd websocket_parser \<Rightarrow> byte \<Rightarrow> 'd iter_result" where
  "iter_head st pos fo ps c =
     (let ps1 = ps\<lparr>plength := ucast c AND 0x7F,
                   flags := flags ps OR (if c AND 0x80 \<noteq> 0 then WS_HAS_MASK else 0)\<rparr>
      in if plength ps1 \<ge> 126 then
           Inr (ps1\<lparr>require := (if plength ps1 = 127 then 8 else 2), plength := 0,
                    pstate := s_length\<rparr>, fo + 1, 1)
         else if flags ps1 AND WS_HAS_MASK \<noteq> 0 then
           Inr (ps1\<lparr>pstate := s_mask, require := 4\<rparr>, fo + 1, 1)
         else header_done st (int pos) (fo + 1) 1 ps1)"

text \<open>The inner loops that collect the extended length and the mask.\<close>

fun read_length :: "'d websocket_parser \<Rightarrow> bytes \<Rightarrow> 'd websocket_parser \<times> nat" where
  "read_length ps [] = (ps, 0)"
| "read_length ps (c # cs) =
     (if require ps \<noteq> 0 then
        (let (ps', k) = read_length
               (ps\<lparr>plength := push_bit 8 (plength ps) OR ucast c, require := require ps - 1\<rparr>) cs
         in (ps', Suc k))
      else (ps, 0))"

fun read_mask :: "'d websocket_parser \<Rightarrow> bytes \<Rightarrow> 'd websocket_parser \<times> nat" where
  "read_mask ps [] = (ps, 0)"
| "read_mask ps (c # cs) =
     (if require ps \<noteq> 0 then
        (let (ps', k) = read_mask
               (ps\<lparr>mask_key := (mask_key ps)[unat (4 - require ps) := c], require := require ps - 1\<rparr>) cs
         in (ps', Suc k))
      else (ps, 0))"

definition iter_length ::
  "'d websocket_parser_settings \<Rightarrow> nat \<Rightarrow> u64 \<Rightarrow> 'd websocket_parser \<Rightarrow> bytes \<Rightarrow> 'd iter_result" where
  "iter_length st pos fo ps rest =
     (let (ps1, k) = read_length ps rest; fo1 = fo + of_nat k
      in if require ps1 = 0 then
           (if flags ps1 AND WS_HAS_MASK \<noteq> 0
            then Inr (ps1\<lparr>pstate := s_mask, require := 4\<rparr>, fo1, k)
            else header_done st (int (pos + k) - 1) fo1 k ps1)
         else Inr (ps1, fo1, k))"

definition iter_mask ::
  "'d websocket_parser_settings \<Rightarrow> nat \<Rightarrow> u64 \<Rightarrow> 'd websocket_parser \<Rightarrow> bytes \<Rightarrow> 'd iter_result" where
  "iter_mask st pos fo ps rest =
     (let (ps1, k) = read_mask ps rest; fo1 = fo + of_nat k
      in if require ps1 = 0 then header_done st (int (pos + k) - 1) fo1 k ps1
         else Inr (ps1, fo1, k))"

text \<open>
  The body: the callback sees as much of the payload as the buffer holds. When no byte is
  required the state is left without reading (and the loop's increment skips a byte), which
  only happens after a failed end-of-frame callback.
\<close>

definition iter_body ::
  "'d websocket_parser_settings \<Rightarrow> nat \<Rightarrow> u64 \<Rightarrow> 'd websocket_parser \<Rightarrow> bytes \<Rightarrow> 'd iter_result" where
  "iter_body st pos fo ps rest =
     (if require ps \<noteq> 0 then
        (if unat (require ps) \<le> length rest then
           (let k = unat (require ps);
                (rc, ps1) = EMIT_DATA_CB (on_frame_body st) (take k rest) ps
            in if rc \<noteq> 0 then Inl (int pos, ps1)
               else (let ps2 = ps1\<lparr>require := 0\<rparr>;
                         (rc', ps3) = NOTIFY_CB (on_frame_end st) ps2
                     in if rc' \<noteq> 0 then Inl (int (pos + k) - 1, ps3)
                        else Inr (ps3\<lparr>pstate := s_start\<rparr>, of_nat (pos + k), k)))
         else
           (let k = length rest;
                (rc, ps1) = EMIT_DATA_CB (on_frame_body st) rest ps
            in if rc \<noteq> 0 then Inl (int pos, ps1)
               else Inr (ps1\<lparr>require := require ps1 - of_nat k,
                             offset := offset ps1 + (of_nat (pos + k) - fo)\<rparr>, 0, k)))
      else
        (let (rc, ps1) = NOTIFY_CB (on_frame_end st) ps
         in if rc \<noteq> 0 then Inl (int pos, ps1) else Inr (ps1\<lparr>pstate := s_start\<rparr>, fo, 1)))"

definition ws_iter ::
  "'d websocket_parser_settings \<Rightarrow> nat \<Rightarrow> u64 \<Rightarrow> 'd websocket_parser \<Rightarrow> bytes \<Rightarrow> 'd iter_result" where
  "ws_iter st pos fo ps rest =
     (case pstate ps of
        s_start \<Rightarrow> iter_start fo ps (hd rest)
      | s_head \<Rightarrow> iter_head st pos fo ps (hd rest)
      | s_length \<Rightarrow> iter_length st pos fo ps rest
      | s_mask \<Rightarrow> iter_mask st pos fo ps rest
      | s_body \<Rightarrow> iter_body st pos fo ps rest)"

definition GET_NPARSED :: "int \<Rightarrow> nat \<Rightarrow> u64" where
  "GET_NPARSED p len = (if p = int len then of_nat len else of_int p)"

subsection \<open>The loop terminates\<close>

text \<open>
  An iteration consumes a byte, or (an extended length or mask with nothing left to read)
  moves on to a later header state without consuming one.
\<close>

fun state_rank :: "pstate \<Rightarrow> nat" where
  "state_rank s_length = 2"
| "state_rank s_mask = 1"
| "state_rank _ = 0"

lemma pstate_apply_cb [simp]: "pstate (snd (apply_cb r ps)) = pstate ps"
  by (simp add: apply_cb_def split: prod.splits)

lemma pstate_NOTIFY_CB: "NOTIFY_CB cb ps = (rc, ps') \<Longrightarrow> pstate ps' = pstate ps"
  by (auto simp: NOTIFY_CB_def apply_cb_def split: option.splits prod.splits)

lemma header_done_rank:
  "header_done st p fo k ps = Inr (ps', fo', k') \<Longrightarrow> k' = k \<and> state_rank (pstate ps') = 0"
  by (auto simp: header_done_def Let_def dest!: pstate_NOTIFY_CB split: if_splits prod.splits)

lemma read_length_pos:
  "read_length ps cs = (ps', k) \<Longrightarrow> require ps \<noteq> 0 \<Longrightarrow> cs \<noteq> [] \<Longrightarrow> 0 < k"
  by (cases cs) (auto split: prod.splits)

lemma read_mask_pos:
  "read_mask ps cs = (ps', k) \<Longrightarrow> require ps \<noteq> 0 \<Longrightarrow> cs \<noteq> [] \<Longrightarrow> 0 < k"
  by (cases cs) (auto split: prod.splits)

lemma read_length_zero: "require ps = 0 \<Longrightarrow> read_length ps cs = (ps, 0)"
  by (cases cs) auto

lemma read_mask_zero: "require ps = 0 \<Longrightarrow> read_mask ps cs = (ps, 0)"
  by (cases cs) auto

lemma read_length_pstate: "read_length ps cs = (ps', k) \<Longrightarrow> pstate ps' = pstate ps"
  by (induction ps cs arbitrary: ps' k rule: read_length.induct) (auto split: if_splits prod.splits)

lemma read_mask_pstate: "read_mask ps cs = (ps', k) \<Longrightarrow> pstate ps' = pstate ps"
  by (induction ps cs arbitrary: ps' k rule: read_mask.induct) (auto split: if_splits prod.splits)

lemma iter_length_progress:
  assumes "iter_length st pos fo ps rest = Inr (ps', fo', k)" "rest \<noteq> []" "pstate ps = s_length"
  shows "0 < k \<or> state_rank (pstate ps') < state_rank (pstate ps)"
  using assms
  by (cases "require ps = 0")
    (auto simp: iter_length_def read_length_zero Let_def dest!: header_done_rank
      dest: read_length_pos split: if_splits prod.splits)

lemma iter_mask_progress:
  assumes "iter_mask st pos fo ps rest = Inr (ps', fo', k)" "rest \<noteq> []" "pstate ps = s_mask"
  shows "0 < k \<or> state_rank (pstate ps') < state_rank (pstate ps)"
  using assms
  by (cases "require ps = 0")
    (auto simp: iter_mask_def read_mask_zero Let_def dest!: header_done_rank
      dest: read_mask_pos split: if_splits prod.splits)

lemma ws_iter_progress:
  assumes "ws_iter st pos fo ps rest = Inr (ps', fo', k)" "rest \<noteq> []"
  shows "0 < k \<or> state_rank (pstate ps') < state_rank (pstate ps)"
proof (cases "pstate ps")
  case s_head
  then show ?thesis
    using assms by (auto simp: ws_iter_def iter_head_def Let_def dest!: header_done_rank split: if_splits)
next
  case s_body
  then show ?thesis
    using assms by (auto simp: ws_iter_def iter_body_def Let_def unat_gt_0 split: if_splits prod.splits)
qed (use assms in \<open>auto simp: ws_iter_def iter_start_def intro: iter_length_progress iter_mask_progress
       dest: iter_length_progress iter_mask_progress\<close>)

function ws_loop ::
  "'d websocket_parser_settings \<Rightarrow> nat \<Rightarrow> u64 \<Rightarrow> 'd websocket_parser \<Rightarrow> bytes \<Rightarrow> u64 \<times> 'd websocket_parser" where
  "ws_loop st pos fo ps rest =
     (if rest = [] then (GET_NPARSED (int pos) pos, ps)
      else (case ws_iter st pos fo ps rest of
              Inl (p, ps') \<Rightarrow> (GET_NPARSED p (pos + length rest), ps')
            | Inr (ps', fo', k) \<Rightarrow> ws_loop st (pos + k) fo' ps' (drop k rest)))"
  by pat_completeness auto
termination
proof (relation "measures [\<lambda>(st, pos, fo, ps, rest). length rest, \<lambda>(st, pos, fo, ps, rest). state_rank (pstate ps)]", goal_cases)
  case 1
  show ?case by simp
next
  case (2 st pos fo ps rest r ps' r' fo' k)
  then show ?case
    using ws_iter_progress [of st pos fo ps rest ps' fo' k] by (cases k) auto
qed

declare ws_loop.simps [simp del]

definition websocket_parser_execute ::
  "'d websocket_parser \<Rightarrow> 'd websocket_parser_settings \<Rightarrow> bytes \<Rightarrow> u64 \<times> 'd websocket_parser" where
  "websocket_parser_execute ps st data = ws_loop st 0 0 ps data"

subsection \<open>Masking and frame construction\<close>

text \<open>
  \<^verbatim>\<open>websocket_decode\<close> and \<^verbatim>\<open>websocket_parser_decode\<close> run the same loop over the source bytes.
\<close>

fun decode_loop :: "bytes \<Rightarrow> byte \<Rightarrow> nat \<Rightarrow> bytes \<Rightarrow> bytes" where
  "decode_loop m mo i [] = []"
| "decode_loop m mo i (c # cs) = (c XOR m ! ((i + unat mo) mod 4)) # decode_loop m mo (Suc i) cs"

definition websocket_decode :: "bytes \<Rightarrow> bytes \<Rightarrow> byte \<Rightarrow> bytes \<times> byte" where
  "websocket_decode src m mo = (decode_loop m mo 0 src, of_nat ((length src + unat mo) mod 4))"

definition websocket_parser_decode :: "bytes \<Rightarrow> 'd websocket_parser \<Rightarrow> bytes \<times> 'd websocket_parser" where
  "websocket_parser_decode src ps =
     (decode_loop (mask_key ps) (mask_offset ps) 0 src,
      ps\<lparr>mask_offset := of_nat ((length src + unat (mask_offset ps)) mod 4)\<rparr>)"

definition websocket_calc_frame_size :: "u32 \<Rightarrow> nat \<Rightarrow> nat" where
  "websocket_calc_frame_size fl data_len =
     data_len + 2
     + (if data_len \<ge> 126 then (if data_len > 0xFFFF then 8 else 2) else 0)
     + (if fl AND WS_HAS_MASK \<noteq> 0 then 4 else 0)"

text \<open>
  \<^verbatim>\<open>websocket_build_frame\<close> writes the frame into a buffer the caller sized with
  \<^verbatim>\<open>websocket_calc_frame_size\<close>; the model returns the bytes written. With a mask flag and no
  mask the four bytes the buffer already holds (\<open>old\<close>) serve as the mask.
\<close>

definition length_bytes :: "byte \<Rightarrow> u64 \<Rightarrow> bytes" where
  "length_bytes b1 n =
     (if n < 126 then [b1 OR ucast n]
      else if n \<le> 0xFFFF then [b1 OR 126, ucast (drop_bit 8 n), ucast n]
      else [b1 OR 127, ucast (drop_bit 56 n), ucast (drop_bit 48 n), ucast (drop_bit 40 n),
            ucast (drop_bit 32 n), ucast (drop_bit 24 n), ucast (drop_bit 16 n),
            ucast (drop_bit 8 n), ucast n])"

definition websocket_build_frame :: "bytes \<Rightarrow> u32 \<Rightarrow> bytes option \<Rightarrow> bytes \<Rightarrow> bytes" where
  "websocket_build_frame old fl m data =
     (let b0 = (if fl AND WS_FIN \<noteq> 0 then 0x80 else 0) OR ucast (fl AND WS_OP_MASK);
          b1 = (if fl AND WS_HAS_MASK \<noteq> 0 then 0x80 else 0);
          key = (case m of Some k \<Rightarrow> k | None \<Rightarrow> old)
      in b0 # length_bytes b1 (of_nat (length data)) @
         (if fl AND WS_HAS_MASK \<noteq> 0 then key @ fst (websocket_decode data key 0) else data))"

end
