(* ===== verification/Ws_Stream.thy ===== *)
theory Ws_Stream
  imports Ws_Parser
begin

unbundle bit_operations_syntax

section \<open>Streaming: the parser as a byte machine\<close>

text \<open>
  The parser is fed whatever a socket read returned, so its result must not depend on how
  the stream was cut into buffers. The specification is \<open>byte_step\<close>, a machine that takes one
  byte at a time and knows nothing of positions, inner loops or partial bodies.

  The interface \<open>frame_callbacks\<close> states what the parser needs of its callbacks: they do not
  look at the parser's bookkeeping (\<open>offset\<close>, \<open>require\<close>), they succeed wherever the parser
  calls them, and delivering a body in two pieces is the same as delivering it in one.
  Under it every call of \<open>websocket_parser_execute\<close> consumes its whole buffer and refines
  the byte machine (up to the \<open>offset\<close> field, which counts the bytes of an incomplete body and
  which nothing reads).
\<close>

definition same_parser :: "'d websocket_parser \<Rightarrow> 'd websocket_parser \<Rightarrow> bool" where
  "same_parser a b \<longleftrightarrow> a\<lparr>offset := 0\<rparr> = b\<lparr>offset := 0\<rparr>"

lemma same_parser_iff:
  "same_parser a b \<longleftrightarrow> pstate a = pstate b \<and> flags a = flags b \<and> mask_key a = mask_key b \<and>
     mask_offset a = mask_offset b \<and> plength a = plength b \<and> require a = require b \<and> pdata a = pdata b"
  by (cases a; cases b) (auto simp: same_parser_def)

lemma same_parser_refl [simp]: "same_parser a a"
  by (simp add: same_parser_def)

lemma same_parser_trans [trans]: "same_parser a b \<Longrightarrow> same_parser b c \<Longrightarrow> same_parser a c"
  by (simp add: same_parser_def)

definition call_cb :: "int \<times> byte \<times> 'd \<Rightarrow> 'd websocket_parser \<Rightarrow> 'd websocket_parser" where
  "call_cb r ps = snd (apply_cb r ps)"

lemma call_cb_simps [simp]:
  "pstate (call_cb r ps) = pstate ps" "flags (call_cb r ps) = flags ps"
  "mask_key (call_cb r ps) = mask_key ps" "plength (call_cb r ps) = plength ps"
  "require (call_cb r ps) = require ps" "offset (call_cb r ps) = offset ps"
  "mask_offset (call_cb r ps) = fst (snd r)" "pdata (call_cb r ps) = snd (snd r)"
  by (simp_all add: call_cb_def apply_cb_def split: prod.splits)

lemma apply_cb_call: "apply_cb r ps = (fst r, call_cb r ps)"
  by (simp add: call_cb_def apply_cb_def split: prod.splits)

lemma call_cb_call [simp]: "call_cb r (call_cb r' ps) = call_cb r ps"
  by (simp add: call_cb_def apply_cb_def split: prod.splits)

lemma call_cb_same: "same_parser a b \<Longrightarrow> same_parser (call_cb r a) (call_cb r b)"
  by (simp add: same_parser_iff)

text \<open>The byte machine over given callbacks.\<close>

definition finish_header ::
  "'d websocket_cb \<Rightarrow> 'd websocket_cb \<Rightarrow> 'd websocket_parser \<Rightarrow> 'd websocket_parser" where
  "finish_header hdr fin ps =
     (if plength ps \<noteq> 0
      then (let ps1 = ps\<lparr>pstate := s_body, require := plength ps\<rparr> in call_cb (hdr ps1) ps1)
      else (let ps1 = ps\<lparr>pstate := s_start\<rparr>; ps2 = call_cb (hdr ps1) ps1 in call_cb (fin ps2) ps2))"

definition byte_step ::
  "'d websocket_cb \<Rightarrow> 'd websocket_data_cb \<Rightarrow> 'd websocket_cb \<Rightarrow> 'd websocket_parser \<Rightarrow> byte \<Rightarrow> 'd websocket_parser" where
  "byte_step hdr body fin ps c =
     (case pstate ps of
        s_start \<Rightarrow>
          ps\<lparr>offset := 0, plength := 0, mask_offset := 0,
             flags := (ucast c AND WS_OP_MASK) OR (if c AND 0x80 \<noteq> 0 then WS_FIN else 0),
             pstate := s_head\<rparr>
      | s_head \<Rightarrow>
          (let ps1 = ps\<lparr>plength := ucast c AND 0x7F,
                        flags := flags ps OR (if c AND 0x80 \<noteq> 0 then WS_HAS_MASK else 0)\<rparr>
           in if plength ps1 \<ge> 126
              then ps1\<lparr>require := (if plength ps1 = 127 then 8 else 2), plength := 0, pstate := s_length\<rparr>
              else if flags ps1 AND WS_HAS_MASK \<noteq> 0 then ps1\<lparr>pstate := s_mask, require := 4\<rparr>
              else finish_header hdr fin ps1)
      | s_length \<Rightarrow>
          (let ps1 = ps\<lparr>plength := push_bit 8 (plength ps) OR ucast c, require := require ps - 1\<rparr>
           in if require ps1 \<noteq> 0 then ps1
              else if flags ps1 AND WS_HAS_MASK \<noteq> 0 then ps1\<lparr>pstate := s_mask, require := 4\<rparr>
              else finish_header hdr fin ps1)
      | s_mask \<Rightarrow>
          (let ps1 = ps\<lparr>mask_key := (mask_key ps)[unat (4 - require ps) := c], require := require ps - 1\<rparr>
           in if require ps1 \<noteq> 0 then ps1 else finish_header hdr fin ps1)
      | s_body \<Rightarrow>
          (let ps1 = (call_cb (body ps [c]) ps)\<lparr>require := require ps - 1\<rparr>
           in if require ps1 \<noteq> 0 then ps1 else (call_cb (fin ps1) ps1)\<lparr>pstate := s_start\<rparr>))"

locale frame_callbacks =
  fixes hdr :: "'d websocket_cb" and body :: "'d websocket_data_cb" and fin :: "'d websocket_cb"
    and ok :: "'d websocket_parser \<Rightarrow> bool"
  assumes hdr_offset: "hdr (ps\<lparr>offset := x\<rparr>) = hdr ps"
    and fin_offset: "fin (ps\<lparr>offset := x\<rparr>) = fin ps"
    and ok_offset: "ok (ps\<lparr>offset := x\<rparr>) = ok ps"
    and body_offset: "body (ps\<lparr>offset := x\<rparr>) xs = body ps xs"
    and body_require: "body (ps\<lparr>require := y\<rparr>) xs = body ps xs"
    and hdr_body: "pstate ps = s_body \<Longrightarrow> require ps = plength ps \<Longrightarrow>
          fst (hdr ps) = 0 \<and> ok (call_cb (hdr ps) ps)"
    and hdr_empty: "plength ps = 0 \<Longrightarrow> fst (hdr ps) = 0 \<and> fst (fin (call_cb (hdr ps) ps)) = 0"
    and body_ok: "pstate ps = s_body \<Longrightarrow> ok ps \<Longrightarrow> length xs \<le> unat (require ps) \<Longrightarrow>
          fst (body ps xs) = 0 \<and>
          ok ((call_cb (body ps xs) ps)\<lparr>require := require ps - of_nat (length xs)\<rparr>)"
    and body_append: "pstate ps = s_body \<Longrightarrow> ok ps \<Longrightarrow> length (xs @ ys) \<le> unat (require ps) \<Longrightarrow>
          call_cb (body ps (xs @ ys)) ps =
          call_cb (body (call_cb (body ps xs) ps) ys) (call_cb (body ps xs) ps)"
    and fin_ok: "pstate ps = s_body \<Longrightarrow> ok ps \<Longrightarrow> require ps = 0 \<Longrightarrow> fst (fin ps) = 0"
begin

definition settings :: "'d websocket_parser_settings" where
  "settings = \<lparr>on_frame_header = Some hdr, on_frame_body = Some body, on_frame_end = Some fin\<rparr>"

definition parser_inv :: "'d websocket_parser \<Rightarrow> bool" where
  "parser_inv ps \<longleftrightarrow> length (mask_key ps) = 4 \<and>
     (case pstate ps of
        s_length \<Rightarrow> require ps \<noteq> 0
      | s_mask \<Rightarrow> require ps \<noteq> 0
      | s_body \<Rightarrow> require ps \<noteq> 0 \<and> ok ps
      | _ \<Rightarrow> True)"

abbreviation "step \<equiv> byte_step hdr body fin"

lemma hdr_same: "same_parser a b \<Longrightarrow> hdr a = hdr b"
  using hdr_offset [of 0 a] hdr_offset [of 0 b] by (simp add: same_parser_def)

lemma fin_same: "same_parser a b \<Longrightarrow> fin a = fin b"
  using fin_offset [of 0 a] fin_offset [of 0 b] by (simp add: same_parser_def)

lemma body_same: "same_parser a b \<Longrightarrow> body a xs = body b xs"
  using body_offset [of 0 a xs] body_offset [of 0 b xs] by (simp add: same_parser_def)

lemma ok_same: "same_parser a b \<Longrightarrow> ok a = ok b"
  using ok_offset [of 0 a] ok_offset [of 0 b] by (simp add: same_parser_def)

lemma parser_inv_same: "same_parser a b \<Longrightarrow> parser_inv a = parser_inv b"
  using ok_same [of a b] by (simp add: parser_inv_def same_parser_iff split: pstate.split)

lemma NOTIFY_hdr: "NOTIFY_CB (on_frame_header settings) ps = (fst (hdr ps), call_cb (hdr ps) ps)"
  by (simp add: settings_def NOTIFY_CB_def apply_cb_call)

lemma NOTIFY_fin: "NOTIFY_CB (on_frame_end settings) ps = (fst (fin ps), call_cb (fin ps) ps)"
  by (simp add: settings_def NOTIFY_CB_def apply_cb_call)

lemma EMIT_body: "EMIT_DATA_CB (on_frame_body settings) xs ps = (fst (body ps xs), call_cb (body ps xs) ps)"
  by (simp add: settings_def EMIT_DATA_CB_def apply_cb_call)

lemma header_done_finish:
  "header_done settings p fo k ps = Inr (finish_header hdr fin ps, fo, k)"
  using hdr_body [of "ps\<lparr>pstate := s_body, require := plength ps\<rparr>"] hdr_empty [of "ps\<lparr>pstate := s_start\<rparr>"]
  by (simp add: header_done_def finish_header_def NOTIFY_hdr NOTIFY_fin Let_def)

lemma finish_header_inv: "length (mask_key ps) = 4 \<Longrightarrow> parser_inv (finish_header hdr fin ps)"
  using hdr_body [of "ps\<lparr>pstate := s_body, require := plength ps\<rparr>"]
  by (simp add: finish_header_def parser_inv_def Let_def)

lemma finish_header_same:
  assumes "same_parser a b"
  shows "same_parser (finish_header hdr fin a) (finish_header hdr fin b)"
proof -
  have l: "plength a = plength b" using assms by (simp add: same_parser_iff)
  let ?u = "\<lambda>p. p\<lparr>pstate := s_body, require := plength b\<rparr>" and ?v = "\<lambda>p. p\<lparr>pstate := s_start\<rparr>"
  have u: "same_parser (?u a) (?u b)" and v: "same_parser (?v a) (?v b)"
    using assms by (simp_all add: same_parser_iff)
  have hu: "hdr (?u a) = hdr (?u b)" and hv: "hdr (?v a) = hdr (?v b)"
    using u v by (simp_all add: hdr_same)
  have cv: "same_parser (call_cb (hdr (?v b)) (?v a)) (call_cb (hdr (?v b)) (?v b))"
    using v by (rule call_cb_same)
  show ?thesis
    unfolding finish_header_def Let_def l hu hv fin_same [OF cv]
    using call_cb_same [OF u] call_cb_same [OF cv] by simp
qed

lemma step_same:
  assumes "same_parser a b"
  shows "same_parser (step a c) (step b c)"
proof -
  note f = assms [unfolded same_parser_iff]
  have st: "pstate a = pstate b" using f by simp
  show ?thesis
  proof (cases "pstate b")
    case s_body
    let ?g = "\<lambda>p. (call_cb (body b [c]) p)\<lparr>require := require b - 1\<rparr>"
    have g: "same_parser (?g a) (?g b)" using assms by (simp add: same_parser_iff)
    have ba: "body a [c] = body b [c]" using assms by (rule body_same)
    have "fin (?g a) = fin (?g b)" using g by (rule fin_same)
    then show ?thesis
      using s_body st f
      by (cases "require b = 1") (simp_all add: byte_step_def Let_def ba same_parser_iff)
  qed (use f st in \<open>auto simp: byte_step_def Let_def same_parser_iff
         intro!: finish_header_same [unfolded same_parser_iff]\<close>)
qed

lemma steps_same: "same_parser a b \<Longrightarrow> same_parser (foldl step a xs) (foldl step b xs)"
  by (induction xs arbitrary: a b) (auto simp: step_same)

text \<open>The step keeps the invariant.\<close>

lemma step_inv:
  assumes "parser_inv ps"
  shows "parser_inv (step ps c)"
proof (cases "pstate ps")
  case s_body
  then have o: "ok ps" "require ps \<noteq> 0" and m: "length (mask_key ps) = 4"
    using assms by (simp_all add: parser_inv_def)
  then have "length [c] \<le> unat (require ps)" by (simp add: unat_gt_0 Suc_leI)
  with body_ok [OF s_body o(1), of "[c]"] s_body m show ?thesis
    by (auto simp: byte_step_def parser_inv_def Let_def)
qed (use assms in \<open>auto simp: byte_step_def Let_def intro!: finish_header_inv\<close>, auto simp: parser_inv_def)

lemma steps_inv: "parser_inv ps \<Longrightarrow> parser_inv (foldl step ps xs)"
  by (induction xs arbitrary: ps) (auto simp: step_inv)

text \<open>The inner loops of the parser are runs of the byte machine.\<close>

lemma read_length_steps:
  assumes "read_length ps cs = (ps', k)" "pstate ps = s_length" "require ps \<noteq> 0"
  shows "k \<le> length cs \<and> pstate ps' = s_length \<and> mask_key ps' = mask_key ps \<and>
    foldl step ps (take k cs) =
      (if k = 0 \<or> require ps' \<noteq> 0 then ps'
       else if flags ps' AND WS_HAS_MASK \<noteq> 0 then ps'\<lparr>pstate := s_mask, require := 4\<rparr>
       else finish_header hdr fin ps') \<and> (require ps' \<noteq> 0 \<longrightarrow> k = length cs)"
  using assms
proof (induction ps cs arbitrary: ps' k rule: read_length.induct)
  case (1 ps)
  then show ?case by simp
next
  case (2 ps c cs)
  let ?p1 = "ps\<lparr>plength := push_bit 8 (plength ps) OR ucast c, require := require ps - 1\<rparr>"
  obtain k' where r: "read_length ?p1 cs = (ps', k')" and k: "k = Suc k'"
    using "2.prems" by (auto split: prod.splits)
  show ?case
  proof (cases "require ps = 1")
    case True
    then have "ps' = ?p1" "k' = 0" using r by (simp_all add: read_length_zero)
    then show ?thesis
      using "2.prems" k True by (auto simp: byte_step_def Let_def)
  next
    case False
    then have nz: "require ?p1 \<noteq> 0" by simp
    have st: "step ps c = ?p1" using "2.prems" False by (simp add: byte_step_def Let_def)
    have kk: "k' = 0 \<longrightarrow> ps' = ?p1 \<and> cs = []"
      using r nz by (cases cs) (auto split: prod.splits)
    have ps: "pstate ?p1 = s_length" using "2.prems"(2) by simp
    show ?thesis
      using "2.IH" [OF "2.prems"(3) r ps nz] k kk st nz by (cases "k' = 0") simp_all
  qed
qed

lemma read_mask_steps:
  assumes "read_mask ps cs = (ps', k)" "pstate ps = s_mask" "require ps \<noteq> 0"
  shows "k \<le> length cs \<and> pstate ps' = s_mask \<and> length (mask_key ps') = length (mask_key ps) \<and>
    foldl step ps (take k cs) =
      (if k = 0 \<or> require ps' \<noteq> 0 then ps' else finish_header hdr fin ps') \<and>
    (require ps' \<noteq> 0 \<longrightarrow> k = length cs)"
  using assms
proof (induction ps cs arbitrary: ps' k rule: read_mask.induct)
  case (1 ps)
  then show ?case by simp
next
  case (2 ps c cs)
  let ?p1 = "ps\<lparr>mask_key := (mask_key ps)[unat (4 - require ps) := c], require := require ps - 1\<rparr>"
  obtain k' where r: "read_mask ?p1 cs = (ps', k')" and k: "k = Suc k'"
    using "2.prems" by (auto split: prod.splits)
  show ?case
  proof (cases "require ps = 1")
    case True
    then have "ps' = ?p1" "k' = 0" using r by (simp_all add: read_mask_zero)
    then show ?thesis
      using "2.prems" k True by (auto simp: byte_step_def Let_def)
  next
    case False
    then have nz: "require ?p1 \<noteq> 0" by simp
    have st: "step ps c = ?p1" using "2.prems" False by (simp add: byte_step_def Let_def)
    have kk: "k' = 0 \<longrightarrow> ps' = ?p1 \<and> cs = []"
      using r nz by (cases cs) (auto split: prod.splits)
    have ps: "pstate ?p1 = s_mask" using "2.prems"(2) by simp
    show ?thesis
      using "2.IH" [OF "2.prems"(3) r ps nz] k kk st nz by (cases "k' = 0") simp_all
  qed
qed

text \<open>A run over part of the body delivers those bytes in one call.\<close>

lemma body_steps:
  assumes "pstate ps = s_body" "ok ps" "length xs < unat (require ps)" "xs \<noteq> []"
  shows "foldl step ps xs = (call_cb (body ps xs) ps)\<lparr>require := require ps - of_nat (length xs)\<rparr>"
  using assms
proof (induction xs arbitrary: ps)
  case Nil
  then show ?case by simp
next
  case (Cons c ys)
  let ?b = "call_cb (body ps [c]) ps" and ?r = "require ps - 1"
  have "require ps \<noteq> 0" using Cons.prems(3) by auto
  then have ur: "unat ?r = unat (require ps) - 1" by (rule unat_pred)
  then have nz: "?r \<noteq> 0" using Cons.prems(3) by auto
  have st: "step ps c = ?b\<lparr>require := ?r\<rparr>"
    using Cons.prems(1) nz by (simp add: byte_step_def Let_def)
  have ok1: "ok (?b\<lparr>require := ?r\<rparr>)"
    using body_ok [OF Cons.prems(1,2), of "[c]"] Cons.prems(3) by simp
  show ?case
  proof (cases "ys = []")
    case True
    then show ?thesis using st by simp
  next
    case False
    have "foldl step (?b\<lparr>require := ?r\<rparr>) ys =
        (call_cb (body ?b ys) (?b\<lparr>require := ?r\<rparr>))\<lparr>require := ?r - of_nat (length ys)\<rparr>"
      using Cons.IH [of "?b\<lparr>require := ?r\<rparr>"] Cons.prems(1,3) ok1 False ur
      by (simp add: body_require)
    also have "\<dots> = (call_cb (body ps (c # ys)) ps)\<lparr>require := require ps - of_nat (length (c # ys))\<rparr>"
      using body_append [OF Cons.prems(1,2), of "[c]" ys] Cons.prems(3)
      by (simp add: call_cb_def apply_cb_def diff_diff_eq split: prod.splits)
    finally show ?thesis using st by simp
  qed
qed

lemma body_steps_all:
  assumes "pstate ps = s_body" "ok ps" "length xs = unat (require ps)" "xs \<noteq> []"
  shows "foldl step ps xs =
    (let ps1 = (call_cb (body ps xs) ps)\<lparr>require := 0\<rparr> in (call_cb (fin ps1) ps1)\<lparr>pstate := s_start\<rparr>)"
proof (cases xs rule: rev_cases)
  case Nil
  with assms show ?thesis by simp
next
  case (snoc ys c)
  let ?b = "call_cb (body ps ys) ps"
  show ?thesis
  proof (cases "ys = []")
    case True
    then have "require ps = 1" using assms(3) snoc by (simp add: word_unat_eq_iff)
    then show ?thesis using assms(1) True snoc by (simp add: byte_step_def Let_def)
  next
    case False
    have r: "require ps - of_nat (length ys) = 1"
      using assms(3) snoc unat_diff_of_nat [of "length ys" "require ps"] by (simp add: word_unat_eq_iff)
    have "foldl step ps ys = ?b\<lparr>require := 1\<rparr>"
      using body_steps [OF assms(1,2), of ys] assms(3) snoc False r by simp
    then show ?thesis
      using snoc assms body_append [OF assms(1,2), of ys "[c]"]
      by (simp add: byte_step_def Let_def body_require call_cb_def apply_cb_def split: prod.splits)
  qed
qed

text \<open>One iteration of the loop is a non-empty run of the byte machine.\<close>

lemma iter_refines:
  assumes inv: "parser_inv ps" and ne: "rest \<noteq> []"
  shows "\<exists>ps' fo' k. ws_iter settings pos fo ps rest = Inr (ps', fo', k) \<and> 0 < k \<and> k \<le> length rest \<and>
    same_parser ps' (foldl step ps (take k rest))"
proof (cases "pstate ps")
  case s_start
  then show ?thesis
    using ne by (cases rest) (auto simp: ws_iter_def iter_start_def byte_step_def Suc_le_eq)
next
  case s_head
  then show ?thesis
    using ne by (cases rest)
      (auto simp: ws_iter_def iter_head_def byte_step_def Let_def header_done_finish Suc_le_eq)
next
  case s_length
  obtain ps' k where r: "read_length ps rest = (ps', k)" by fastforce
  have nz: "require ps \<noteq> 0" using inv s_length by (simp add: parser_inv_def)
  show ?thesis
    using read_length_steps [OF r s_length nz] read_length_pos [OF r nz ne] s_length r
    by (auto simp: ws_iter_def iter_length_def header_done_finish Let_def)
next
  case s_mask
  obtain ps' k where r: "read_mask ps rest = (ps', k)" by fastforce
  have nz: "require ps \<noteq> 0" using inv s_mask by (simp add: parser_inv_def)
  show ?thesis
    using read_mask_steps [OF r s_mask nz] read_mask_pos [OF r nz ne] s_mask r
    by (auto simp: ws_iter_def iter_mask_def header_done_finish Let_def)
next
  case s_body
  then have nz: "require ps \<noteq> 0" and o: "ok ps" using inv by (simp_all add: parser_inv_def)
  let ?n = "unat (require ps)"
  show ?thesis
  proof (cases "?n \<le> length rest")
    case True
    let ?xs = "take ?n rest" and ?p1 = "(call_cb (body ps (take ?n rest)) ps)\<lparr>require := 0\<rparr>"
    have len: "length ?xs = ?n" and ne': "?xs \<noteq> []" using True nz ne by (auto simp: unat_eq_0)
    have b: "fst (body ps ?xs) = 0" and "ok ?p1"
      using body_ok [OF s_body o, of ?xs] len by simp_all
    then have "fst (fin ?p1) = 0" using s_body by (intro fin_ok) simp_all
    then show ?thesis
      using s_body nz True b body_steps_all [OF s_body o len ne']
      by (auto simp: ws_iter_def iter_body_def EMIT_body NOTIFY_fin Let_def unat_gt_0)
  next
    case False
    then have b: "fst (body ps rest) = 0" using body_ok [OF s_body o, of rest] by simp
    show ?thesis
      using s_body nz False b body_steps [OF s_body o, of rest] ne
      by (auto simp: ws_iter_def iter_body_def EMIT_body Let_def same_parser_iff)
  qed
qed

lemma loop_refines:
  "st = settings \<Longrightarrow> parser_inv ps \<Longrightarrow> fst (ws_loop st pos fo ps rest) = of_nat (pos + length rest) \<and>
    same_parser (snd (ws_loop st pos fo ps rest)) (foldl step ps rest)"
proof (induction st pos fo ps rest rule: ws_loop.induct)
  case (1 st pos fo ps rest)
  show ?case
  proof (cases "rest = []")
    case True
    then show ?thesis by (simp add: ws_loop.simps GET_NPARSED_def)
  next
    case False
    then obtain ps' fo' k where it: "ws_iter st pos fo ps rest = Inr (ps', fo', k)"
      and k: "k \<le> length rest" and sp: "same_parser ps' (foldl step ps (take k rest))"
      using iter_refines [OF "1.prems"(2)] "1.prems"(1) by blast
    have "parser_inv ps'" using parser_inv_same [OF sp] steps_inv [OF "1.prems"(2)] by simp
    then have "fst (ws_loop st (pos + k) fo' ps' (drop k rest)) = of_nat (pos + k + length (drop k rest)) \<and>
        same_parser (snd (ws_loop st (pos + k) fo' ps' (drop k rest))) (foldl step ps' (drop k rest))"
      using "1.IH" [OF False it refl refl "1.prems"(1)] by simp
    moreover have "foldl step (foldl step ps (take k rest)) (drop k rest) = foldl step ps rest"
      by (metis append_take_drop_id foldl_append)
    ultimately show ?thesis
      using False it k steps_same [OF sp, of "drop k rest"] same_parser_trans
      by (auto simp: ws_loop.simps [of st pos fo ps rest])
  qed
qed

lemma execute_refines:
  assumes "parser_inv ps"
  shows "fst (websocket_parser_execute ps settings data) = of_nat (length data)"
    and "same_parser (snd (websocket_parser_execute ps settings data)) (foldl step ps data)"
    and "parser_inv (snd (websocket_parser_execute ps settings data))"
  using loop_refines [OF refl assms, of 0 0 data] steps_inv [OF assms, of data]
  by (auto simp: websocket_parser_execute_def dest: parser_inv_same)

text \<open>Cutting the stream in two does not change what is parsed.\<close>

lemma execute_append:
  assumes "parser_inv ps"
  shows "same_parser (snd (websocket_parser_execute ps settings (xs @ ys)))
    (snd (websocket_parser_execute (snd (websocket_parser_execute ps settings xs)) settings ys))"
proof -
  let ?a = "snd (websocket_parser_execute ps settings xs)"
  have "same_parser (foldl step ?a ys) (foldl step (foldl step ps xs) ys)"
    by (rule steps_same) (rule execute_refines(2) [OF assms])
  moreover have "same_parser (snd (websocket_parser_execute ?a settings ys)) (foldl step ?a ys)"
    by (rule execute_refines(2)) (rule execute_refines(3) [OF assms])
  ultimately show ?thesis
    using execute_refines(2) [OF assms, of "xs @ ys"] by (simp add: same_parser_def)
qed

end

end
