(* ===== verification/Ws_Frame.thy ===== *)
theory Ws_Frame
  imports Endian Ws_Stream
begin

unbundle bit_operations_syntax

section \<open>Frames and the frame buffer (protocol/websocket/parser.cc)\<close>

text \<open>
  \<^verbatim>\<open>FrameBuffer\<close> owns a parser whose callbacks collect the payload of the current frame in a
  \<^verbatim>\<open>Context\<close> and append a \<^verbatim>\<open>Frame\<close> to a list when it is complete. The parser's
  application data is that context; the list the context points to is its last field. A
  \<^verbatim>\<open>std::string\<close> payload is the list of its bytes. Allocation failure is not modelled:
  \<^verbatim>\<open>resize\<close> always succeeds.
\<close>

record frame =
  m_opcode :: u32
  m_payload_length :: u64
  m_payload_text :: bytes
  m_payload_binary :: bytes
  m_close_code :: u16
  m_close_reason :: bytes

definition Frame_default :: frame where
  "Frame_default = \<lparr>m_opcode = WS_OP_CONTINUE, m_payload_length = 0, m_payload_text = [],
     m_payload_binary = [], m_close_code = 1000, m_close_reason = []\<rparr>"

record fb_context =
  opcode :: u32
  payload_length :: u64
  payload_text :: bytes
  payload_binary :: bytes
  payload_received :: u64
  buffered_frames :: "frame list"

definition Context_reset :: "fb_context \<Rightarrow> fb_context" where
  "Context_reset c = c\<lparr>opcode := WS_OP_CONTINUE, payload_length := 0, payload_text := [],
     payload_binary := [], payload_received := 0\<rparr>"

definition Context_init :: "frame list \<Rightarrow> fb_context" where
  "Context_init fs = \<lparr>opcode = WS_OP_CONTINUE, payload_length = 0, payload_text = [],
     payload_binary = [], payload_received = 0, buffered_frames = fs\<rparr>"

subsection \<open>Constructing a frame from a context\<close>

text \<open>
  The constructor from a pointer and the one from a reference copy the payload and, for a
  close frame that carries a status code, decode it. The constructor from an rvalue reads
  \<^verbatim>\<open>m_payload_length\<close> before assigning it.
\<close>

definition close_fields :: "host \<Rightarrow> bytes \<Rightarrow> frame \<Rightarrow> frame" where
  "close_fields h text f =
     f\<lparr>m_close_code := NetByteSwapToHostEndian h (load16 h (text ! 0) (text ! 1)),
       m_close_reason := drop 2 text\<rparr>"

definition Frame_of_context :: "host \<Rightarrow> fb_context \<Rightarrow> frame" where
  "Frame_of_context h c =
     (let f = Frame_default\<lparr>m_opcode := opcode c, m_payload_length := payload_length c,
                m_payload_text := payload_text c, m_payload_binary := payload_binary c\<rparr>
      in if m_opcode f = WS_OP_CLOSE \<and> m_payload_length f \<ge> 2
         then close_fields h (payload_text c) f else f)"

definition Frame_of_context_ptr :: "host \<Rightarrow> fb_context option \<Rightarrow> frame" where
  "Frame_of_context_ptr h c = (case c of None \<Rightarrow> Frame_default | Some c \<Rightarrow> Frame_of_context h c)"

definition Frame_move_context :: "host \<Rightarrow> fb_context \<Rightarrow> frame \<times> fb_context" where
  "Frame_move_context h c =
     (let f = Frame_default\<lparr>m_opcode := opcode c\<rparr>;
          f' = (if m_opcode f = WS_OP_CLOSE \<and> m_payload_length f \<ge> 2
                then close_fields h (payload_text c) f else f)
      in (f'\<lparr>m_payload_length := payload_length c, m_payload_text := payload_text c,
             m_payload_binary := payload_binary c\<rparr>,
          Context_reset c))"

subsection \<open>The parser callbacks\<close>

definition FrameBuffer_on_frame_header :: "fb_context websocket_cb" where
  "FrameBuffer_on_frame_header ps =
     (let c = (pdata ps)\<lparr>opcode := websocket_parser_get_opcode ps, payload_length := plength ps,
                         payload_binary := [], payload_text := [], payload_received := 0\<rparr>;
          n = unat (payload_length c)
      in (0, mask_offset ps,
          if opcode c = WS_OP_BINARY then c\<lparr>payload_binary := replicate n 0\<rparr>
          else c\<lparr>payload_text := replicate n 0\<rparr>))"

definition FrameBuffer_on_frame_body :: "fb_context websocket_data_cb" where
  "FrameBuffer_on_frame_body ps at =
     (let c = pdata ps; len = of_nat (length at)
      in if payload_received c + len > payload_length c then (-1, mask_offset ps, c)
         else (let (dst, ps') = websocket_parser_decode at ps;
                   off = unat (payload_received c);
                   c' = (if opcode c = WS_OP_BINARY
                         then c\<lparr>payload_binary := write_at (payload_binary c) off dst\<rparr>
                         else c\<lparr>payload_text := write_at (payload_text c) off dst\<rparr>)
               in (0, mask_offset ps', c'\<lparr>payload_received := payload_received c + len\<rparr>)))"

definition FrameBuffer_on_frame_end :: "host \<Rightarrow> fb_context websocket_cb" where
  "FrameBuffer_on_frame_end h ps =
     (let c = pdata ps
      in if payload_received c \<noteq> payload_length c then (-1, mask_offset ps, c)
         else (0, mask_offset ps,
               c\<lparr>buffered_frames := buffered_frames c @ [Frame_of_context_ptr h (Some c)]\<rparr>))"

subsection \<open>The frame buffer\<close>

type_synonym frame_buffer = "fb_context websocket_parser"

definition m_settings :: "host \<Rightarrow> fb_context websocket_parser_settings" where
  "m_settings h = \<lparr>on_frame_header = Some FrameBuffer_on_frame_header,
     on_frame_body = Some FrameBuffer_on_frame_body,
     on_frame_end = Some (FrameBuffer_on_frame_end h)\<rparr>"

text \<open>The constructor: the parser's memory is arbitrary before it is initialised.\<close>

definition FrameBuffer_new :: "fb_context websocket_parser \<Rightarrow> frame_buffer" where
  "FrameBuffer_new raw = websocket_parser_init (raw\<lparr>pdata := Context_init []\<rparr>)"

text \<open>The length of the input is an \<^verbatim>\<open>int\<close> in the code; it is that of a receive buffer, whose size is an \<^verbatim>\<open>int\<close> too.\<close>

definition FrameBuffer_consume :: "host \<Rightarrow> frame_buffer \<Rightarrow> bytes \<Rightarrow> u64 \<times> frame_buffer" where
  "FrameBuffer_consume h fb in_buffer = websocket_parser_execute fb (m_settings h) in_buffer"

definition FrameBuffer_getFrameCount :: "frame_buffer \<Rightarrow> nat" where
  "FrameBuffer_getFrameCount fb = length (buffered_frames (pdata fb))"

definition FrameBuffer_getFrame :: "frame_buffer \<Rightarrow> frame option \<times> frame_buffer" where
  "FrameBuffer_getFrame fb =
     (case buffered_frames (pdata fb) of
        [] \<Rightarrow> (None, fb)
      | f # fs \<Rightarrow> (Some f, fb\<lparr>pdata := (pdata fb)\<lparr>buffered_frames := fs\<rparr>\<rparr>))"

subsection \<open>Building frames to send\<close>

definition setTextPayload :: "bytes \<Rightarrow> frame \<Rightarrow> frame" where
  "setTextPayload text f = f\<lparr>m_payload_text := text, m_payload_length := of_nat (length text)\<rparr>"

definition setBinaryPayload :: "bytes \<Rightarrow> frame \<Rightarrow> frame" where
  "setBinaryPayload d f =
     (if m_opcode f = WS_OP_BINARY
      then f\<lparr>m_payload_binary := d, m_payload_length := of_nat (length d)\<rparr>
      else f\<lparr>m_payload_binary := d\<rparr>)"

definition setClosePayload :: "host \<Rightarrow> u16 \<Rightarrow> bytes \<Rightarrow> frame \<Rightarrow> frame" where
  "setClosePayload h code reason f =
     (if m_opcode f \<noteq> WS_OP_CLOSE then f
      else setTextPayload (store16 h (byteSwapToBigEndian h code) @ reason)
             (f\<lparr>m_close_code := code, m_close_reason := reason\<rparr>))"

definition setPingPayload :: "bytes \<Rightarrow> frame \<Rightarrow> frame" where
  "setPingPayload = setTextPayload"

definition setPongPayload :: "bytes \<Rightarrow> frame \<Rightarrow> frame" where
  "setPongPayload = setTextPayload"

text \<open>
  \<^verbatim>\<open>Frame::make\<close>. The random mask key is an argument. The payload is inserted as it is, with
  or without a mask.
\<close>

definition Frame_make :: "u32 \<Rightarrow> bool \<Rightarrow> frame \<Rightarrow> bytes" where
  "Frame_make key masked f =
     (ucast (m_opcode f AND WS_OP_MASK) OR 0x80) #
     length_bytes (if masked then 0x80 else 0) (m_payload_length f) @
     (if masked then [ucast (drop_bit 24 key), ucast (drop_bit 16 key), ucast (drop_bit 8 key), ucast key]
      else []) @
     (if m_opcode f = WS_OP_BINARY then m_payload_binary f
      else if m_opcode f = WS_OP_CLOSE then m_payload_text f
      else m_payload_text f)"

subsection \<open>The masking loop\<close>

lemma length_decode_loop [simp]: "length (decode_loop m mo i xs) = length xs"
  by (induction xs arbitrary: i) auto

lemma decode_loop_shift:
  "decode_loop m mo (i + j) xs = decode_loop m (of_nat ((i + unat mo) mod 4)) j xs"
proof (induction xs arbitrary: j)
  case (Cons c xs)
  have "unat (of_nat ((i + unat mo) mod 4) :: byte) = (i + unat mo) mod 4"
    by (simp add: unat_of_nat take_bit_nat_eq_self)
  moreover have "(i + j + unat mo) mod 4 = (j + (i + unat mo) mod 4) mod 4"
    by presburger
  ultimately show ?case using Cons.IH [of "Suc j"] by simp
qed simp

lemma decode_loop_append:
  "decode_loop m mo i (xs @ ys) = decode_loop m mo i xs @ decode_loop m mo (i + length xs) ys"
  by (induction xs arbitrary: i) auto

text \<open>Decoding two pieces with the offset carried over is decoding the whole.\<close>

lemma decode_loop_pieces:
  "decode_loop m mo 0 (xs @ ys) =
   decode_loop m mo 0 xs @ decode_loop m (of_nat ((length xs + unat mo) mod 4)) 0 ys"
  using decode_loop_shift [of m mo "length xs" 0 ys] by (simp add: decode_loop_append)

lemma mask_offset_pieces:
  "(of_nat ((length ys + unat (of_nat ((length xs + unat mo) mod 4) :: byte)) mod 4) :: byte) =
   of_nat ((length (xs @ ys) + unat mo) mod 4)"
proof -
  have "unat (of_nat ((length xs + unat mo) mod 4) :: byte) = (length xs + unat mo) mod 4"
    by (simp add: unat_of_nat take_bit_nat_eq_self)
  then show ?thesis by (simp add: mod_simps ac_simps)
qed

lemma decode_loop_involution: "decode_loop m mo i (decode_loop m mo i xs) = xs"
  by (induction xs arbitrary: i) (auto simp: xor.assoc)

lemma decode_loop_zero: "decode_loop [0, 0, 0, 0] mo i xs = xs"
proof (induction xs arbitrary: i)
  case (Cons c xs)
  have "[0, 0, 0, 0 :: byte] ! ((i + unat mo) mod 4) \<in> set [0, 0, 0, 0]"
    by (rule nth_mem) simp
  with Cons show ?case by simp
qed simp

subsection \<open>The callbacks meet the interface of the streaming parser\<close>

text \<open>
  While a body is being received the context has room for exactly the bytes the parser
  still requires.
\<close>

definition fb_ok :: "fb_context websocket_parser \<Rightarrow> bool" where
  "fb_ok ps \<longleftrightarrow>
     unat (payload_received (pdata ps)) + unat (require ps) = unat (payload_length (pdata ps)) \<and>
     length (if opcode (pdata ps) = WS_OP_BINARY then payload_binary (pdata ps)
             else payload_text (pdata ps)) = unat (payload_length (pdata ps))"

lemma unat_plus_of_nat:
  fixes w :: u64
  assumes "unat w + n < 2 ^ 64"
  shows "unat (w + of_nat n) = unat w + n"
proof -
  have "unat (of_nat n :: u64) = n" using assms by (simp add: unat_of_nat take_bit_nat_eq_self)
  then show ?thesis using assms by (simp add: unat_word_ariths)
qed

lemma fb_ok_room:
  assumes "fb_ok ps" "length xs \<le> unat (require ps)"
  shows "unat (payload_received (pdata ps) + of_nat (length xs)) =
      unat (payload_received (pdata ps)) + length xs"
    and "\<not> payload_received (pdata ps) + of_nat (length xs) > payload_length (pdata ps)"
proof -
  have "unat (payload_received (pdata ps)) + length xs \<le> unat (payload_length (pdata ps))"
    using assms by (simp add: fb_ok_def)
  moreover have "unat (payload_length (pdata ps)) < 2 ^ 64"
    using unsigned_less [of "payload_length (pdata ps)"] by simp
  ultimately show u: "unat (payload_received (pdata ps) + of_nat (length xs)) =
      unat (payload_received (pdata ps)) + length xs"
    by (intro unat_plus_of_nat) linarith
  show "\<not> payload_received (pdata ps) + of_nat (length xs) > payload_length (pdata ps)"
    using u assms by (simp add: word_less_nat_alt fb_ok_def)
qed

lemma unat_require_rest:
  "length xs \<le> unat (require ps) \<Longrightarrow> unat (require ps - of_nat (length xs)) = unat (require ps) - length xs"
  by (rule unat_diff_of_nat)

text \<open>The effect of the body callback where it succeeds.\<close>

lemma on_frame_body_succeeds:
  assumes "fb_ok ps" "length xs \<le> unat (require ps)"
  shows "FrameBuffer_on_frame_body ps xs =
    (0, of_nat ((length xs + unat (mask_offset ps)) mod 4),
     (let c = pdata ps; dst = decode_loop (mask_key ps) (mask_offset ps) 0 xs;
          off = unat (payload_received c)
      in (if opcode c = WS_OP_BINARY
          then c\<lparr>payload_binary := write_at (payload_binary c) off dst\<rparr>
          else c\<lparr>payload_text := write_at (payload_text c) off dst\<rparr>)
         \<lparr>payload_received := payload_received c + of_nat (length xs)\<rparr>))"
  using fb_ok_room [OF assms]
  by (simp add: FrameBuffer_on_frame_body_def websocket_parser_decode_def Let_def)

lemma fb_body_ok:
  assumes "fb_ok ps" "length xs \<le> unat (require ps)"
  shows "fst (FrameBuffer_on_frame_body ps xs) = 0 \<and>
    fb_ok ((call_cb (FrameBuffer_on_frame_body ps xs) ps)\<lparr>require := require ps - of_nat (length xs)\<rparr>)"
  using assms fb_ok_room [OF assms] unat_require_rest [OF assms(2)]
  by (auto simp: on_frame_body_succeeds fb_ok_def Let_def)

lemma fb_body_append:
  assumes "fb_ok ps" "length (xs @ ys) \<le> unat (require ps)"
  shows "call_cb (FrameBuffer_on_frame_body ps (xs @ ys)) ps =
    call_cb (FrameBuffer_on_frame_body (call_cb (FrameBuffer_on_frame_body ps xs) ps) ys)
      (call_cb (FrameBuffer_on_frame_body ps xs) ps)"
proof -
  let ?p = "call_cb (FrameBuffer_on_frame_body ps xs) ps"
  let ?r = "require ps - of_nat (length xs)"
  have lx: "length xs \<le> unat (require ps)" using assms(2) by simp
  have room: "unat (payload_received (pdata ps)) + length xs + length ys \<le> unat (payload_length (pdata ps))"
    using assms by (simp add: fb_ok_def)
  have "fb_ok (?p\<lparr>require := ?r\<rparr>)" and "length ys \<le> unat ?r"
    using fb_body_ok [OF assms(1) lx] unat_require_rest [OF lx] assms(2) by simp_all
  then have second: "FrameBuffer_on_frame_body (?p\<lparr>require := ?r\<rparr>) ys = FrameBuffer_on_frame_body ?p ys"
    "fb_ok (?p\<lparr>require := ?r\<rparr>)" "length ys \<le> unat (require (?p\<lparr>require := ?r\<rparr>))"
    by (simp_all add: FrameBuffer_on_frame_body_def websocket_parser_decode_def Let_def)
  let ?c = "pdata ps" and ?off = "unat (payload_received (pdata ps))"
  let ?d = "decode_loop (mask_key ps) (mask_offset ps) 0 xs"
    and ?e = "decode_loop (mask_key ps) (of_nat ((length xs + unat (mask_offset ps)) mod 4)) 0 ys"
  have w: "write_at (write_at b ?off ?d) (?off + length xs) ?e = write_at b ?off (?d @ ?e)"
    if "length b = unat (payload_length ?c)" for b
    using write_at_append [of ?off ?d ?e b] room that by simp
  have len: "length (if opcode ?c = WS_OP_BINARY then payload_binary ?c else payload_text ?c) =
      unat (payload_length ?c)"
    using assms(1) by (simp add: fb_ok_def)
  have "snd (FrameBuffer_on_frame_body ps (xs @ ys)) = snd (FrameBuffer_on_frame_body ?p ys)"
    unfolding second(1) [symmetric] on_frame_body_succeeds [OF second(2,3)] on_frame_body_succeeds [OF assms]
    using w len fb_ok_room(1) [OF assms(1) lx]
    by (cases "opcode ?c = WS_OP_BINARY")
      (simp_all add: on_frame_body_succeeds [OF assms(1) lx] Let_def decode_loop_pieces
        mask_offset_pieces [of ys xs, simplified])
  then show ?thesis by simp
qed

interpretation fb: frame_callbacks FrameBuffer_on_frame_header FrameBuffer_on_frame_body
  "FrameBuffer_on_frame_end h" fb_ok for h
proof unfold_locales
  fix ps :: frame_buffer and x y xs ys
  show "FrameBuffer_on_frame_header (ps\<lparr>offset := x\<rparr>) = FrameBuffer_on_frame_header ps"
    by (simp add: FrameBuffer_on_frame_header_def websocket_parser_get_opcode_def)
  show "FrameBuffer_on_frame_end h (ps\<lparr>offset := x\<rparr>) = FrameBuffer_on_frame_end h ps"
    by (simp add: FrameBuffer_on_frame_end_def Let_def)
  show "fb_ok (ps\<lparr>offset := x\<rparr>) = fb_ok ps"
    by (simp add: fb_ok_def)
  show "FrameBuffer_on_frame_body (ps\<lparr>offset := x\<rparr>) xs = FrameBuffer_on_frame_body ps xs"
    and "FrameBuffer_on_frame_body (ps\<lparr>require := x\<rparr>) xs = FrameBuffer_on_frame_body ps xs"
    by (simp_all add: FrameBuffer_on_frame_body_def websocket_parser_decode_def Let_def)
  show "plength ps = 0 \<Longrightarrow> fst (FrameBuffer_on_frame_header ps) = 0 \<and>
      fst (FrameBuffer_on_frame_end h (call_cb (FrameBuffer_on_frame_header ps) ps)) = 0"
    by (simp add: FrameBuffer_on_frame_header_def FrameBuffer_on_frame_end_def Let_def)
  show "require ps = plength ps \<Longrightarrow> fst (FrameBuffer_on_frame_header ps) = 0 \<and>
      fb_ok (call_cb (FrameBuffer_on_frame_header ps) ps)"
    by (simp add: FrameBuffer_on_frame_header_def fb_ok_def Let_def)
  show "fb_ok ps \<Longrightarrow> require ps = 0 \<Longrightarrow> fst (FrameBuffer_on_frame_end h ps) = 0"
    by (simp add: FrameBuffer_on_frame_end_def fb_ok_def Let_def word_unat_eq_iff)
qed (use fb_body_ok fb_body_append in blast)+

lemma fb_settings [simp]: "fb.settings h = m_settings h"
  by (simp add: fb.settings_def m_settings_def)

subsection \<open>The frame buffer as a stream decoder\<close>

definition fb_inv :: "frame_buffer \<Rightarrow> bool" where
  "fb_inv fb \<longleftrightarrow> length (mask_key fb) = 4 \<and>
     (case pstate fb of
        s_length \<Rightarrow> require fb \<noteq> 0
      | s_mask \<Rightarrow> require fb \<noteq> 0
      | s_body \<Rightarrow> require fb \<noteq> 0 \<and> fb_ok fb
      | _ \<Rightarrow> True)"

lemma fb_inv_parser_inv: "fb_inv fb = fb.parser_inv fb"
  by (simp add: fb_inv_def fb.parser_inv_def)

abbreviation fb_step :: "host \<Rightarrow> frame_buffer \<Rightarrow> byte \<Rightarrow> frame_buffer" where
  "fb_step h \<equiv> byte_step FrameBuffer_on_frame_header FrameBuffer_on_frame_body (FrameBuffer_on_frame_end h)"

lemma consume_step:
  assumes "fb_inv fb"
  shows "fst (FrameBuffer_consume h fb xs) = of_nat (length xs)"
    and "same_parser (snd (FrameBuffer_consume h fb xs)) (foldl (fb_step h) fb xs)"
    and "fb_inv (snd (FrameBuffer_consume h fb xs))"
  using fb.execute_refines [of fb h xs] assms
  by (simp_all add: FrameBuffer_consume_def fb_inv_parser_inv)

lemma new_inv: "fb_inv (FrameBuffer_new raw)"
  by (simp add: fb_inv_def FrameBuffer_new_def websocket_parser_init_def)

lemma getFrame_inv: "fb_inv fb \<Longrightarrow> fb_inv (snd (FrameBuffer_getFrame fb))"
  by (auto simp: fb_inv_def FrameBuffer_getFrame_def fb_ok_def split: list.splits pstate.splits)

text \<open>
  The whole header of a frame: first byte and length bytes, with the mask bit set or clear.
\<close>

lemma head_byte_fields:
  fixes n :: u64
  shows "(0x80 OR 127 :: byte) AND 0x80 \<noteq> 0" "(127 :: byte) AND 0x80 = 0"
    "(0x80 OR 126 :: byte) AND 0x80 \<noteq> 0" "(126 :: byte) AND 0x80 = 0"
    "(ucast (0x80 OR 127 :: byte) :: u64) AND 0x7F = 127" "(ucast (127 :: byte) :: u64) AND 0x7F = 127"
    "(ucast (0x80 OR 126 :: byte) :: u64) AND 0x7F = 126" "(ucast (126 :: byte) :: u64) AND 0x7F = 126"
  by simp_all

definition header_fields :: "frame_buffer \<Rightarrow> u32 \<Rightarrow> u64 \<Rightarrow> frame_buffer" where
  "header_fields fb fl n = fb\<lparr>offset := 0, plength := n, mask_offset := 0, flags := fl\<rparr>"

definition first_flags :: "byte \<Rightarrow> u32" where
  "first_flags c = (ucast c AND WS_OP_MASK) OR (if c AND 0x80 \<noteq> 0 then WS_FIN else 0)"

lemma first_flags_no_mask [simp]: "first_flags c AND WS_HAS_MASK = 0"
  by (simp add: first_flags_def bit.conj_disj_distrib2 and.assoc)

lemma set_mask_flag [simp]: "(x OR WS_HAS_MASK) AND WS_HAS_MASK \<noteq> 0"
  by (simp add: bit.conj_disj_distrib2 or_eq_0_iff)

lemma first_byte_step:
  "pstate fb = s_start \<Longrightarrow> fb_step h fb c = (header_fields fb (first_flags c) 0)\<lparr>pstate := s_head\<rparr>"
  by (simp add: byte_step_def first_flags_def header_fields_def)

lemma length_steps:
  fixes p :: frame_buffer
  assumes "pstate p = s_head" "flags p AND WS_HAS_MASK = 0" "b1 = (if m then 0x80 else 0)"
  shows "foldl (fb_step h) p (length_bytes b1 n) =
    (if m then p\<lparr>plength := n, flags := flags p OR WS_HAS_MASK, pstate := s_mask, require := 4\<rparr>
     else finish_header FrameBuffer_on_frame_header (FrameBuffer_on_frame_end h) (p\<lparr>plength := n\<rparr>))"
proof -
  consider "n < 126" | "\<not> n < 126" "n \<le> 0xFFFF" | "\<not> n < 126" "\<not> n \<le> 0xFFFF" by blast
  then show ?thesis
  proof cases
    case 1
    then have "\<not> 126 \<le> n" by simp
    with 1 show ?thesis
      using assms low7_field [OF 1, of b1] mask_bit_field [OF 1]
      by (cases p; cases m) (simp_all add: length_bytes_def byte_step_def Let_def)
  next
    case 2
    then have "n \<noteq> 0" by auto
    with 2 show ?thesis
      using assms be16_bytes [OF 2(2)]
      by (cases p; cases m) (simp_all add: length_bytes_def byte_step_def Let_def finish_header_def)
  next
    case 3
    then have "n \<noteq> 0" by auto
    with 3 show ?thesis
      using assms be64_bytes [of n]
      by (cases p; cases m) (simp_all add: length_bytes_def byte_step_def Let_def finish_header_def)
  qed
qed

lemma header_steps:
  assumes "pstate fb = s_start" "b1 = (if m then 0x80 else 0)"
  shows "foldl (fb_step h) fb (c # length_bytes b1 n) =
    (if m then (header_fields fb (first_flags c OR WS_HAS_MASK) n)\<lparr>pstate := s_mask, require := 4\<rparr>
     else finish_header FrameBuffer_on_frame_header (FrameBuffer_on_frame_end h)
       (header_fields fb (first_flags c) n))"
  using length_steps [OF _ _ assms(2), of "(header_fields fb (first_flags c) 0)\<lparr>pstate := s_head\<rparr>" h n]
    first_byte_step [OF assms(1)]
  by (cases fb) (simp add: header_fields_def finish_header_def)

lemma mask_steps:
  fixes p :: frame_buffer
  assumes "pstate p = s_mask" "require p = 4" "length (mask_key p) = 4"
  shows "foldl (fb_step h) p [a, b, c, d] =
    finish_header FrameBuffer_on_frame_header (FrameBuffer_on_frame_end h) (p\<lparr>mask_key := [a, b, c, d], require := 0\<rparr>)"
proof -
  obtain w x y z where "mask_key p = [w, x, y, z]"
    using assms(3) by (auto simp: length_Suc_conv numeral_eq_Suc)
  then show ?thesis using assms(1,2) by (cases p) (simp add: byte_step_def Let_def)
qed

text \<open>
  What a receiver should obtain for an opcode and an unmasked payload, independently of the
  host: the payload in the field of its kind and, for a close frame, the big-endian status
  code and the reason.
\<close>

definition received_frame :: "u32 \<Rightarrow> bytes \<Rightarrow> frame" where
  "received_frame op d =
     (let f = Frame_default\<lparr>m_opcode := op, m_payload_length := of_nat (length d),
                m_payload_text := (if op = WS_OP_BINARY then [] else d),
                m_payload_binary := (if op = WS_OP_BINARY then d else [])\<rparr>
      in if op = WS_OP_CLOSE \<and> 2 \<le> length d
         then f\<lparr>m_close_code := push_bit 8 (ucast (d ! 0)) OR ucast (d ! 1), m_close_reason := drop 2 d\<rparr>
         else f)"

lemma Frame_of_context_received:
  assumes "length d < 2 ^ 64" "payload_length c = of_nat (length d)" "opcode c = op"
    "payload_text c = (if op = WS_OP_BINARY then [] else d)"
    "payload_binary c = (if op = WS_OP_BINARY then d else [])"
  shows "Frame_of_context_ptr h (Some c) = received_frame op d"
proof -
  have "(2 \<le> (of_nat (length d) :: u64)) = (2 \<le> length d)"
    using assms(1) by (simp add: word_le_nat_alt unat_of_nat take_bit_nat_eq_self)
  then show ?thesis
    using assms
    by (auto simp: Frame_of_context_ptr_def Frame_of_context_def received_frame_def close_fields_def
        load16_network Let_def)
qed

text \<open>From the end of the header to the end of the frame.\<close>

definition frame_done :: "frame_buffer \<Rightarrow> frame_buffer \<Rightarrow> frame \<Rightarrow> bool" where
  "frame_done p q f \<longleftrightarrow> pstate q = s_start \<and> mask_key q = mask_key p \<and>
     buffered_frames (pdata q) = buffered_frames (pdata p) @ [f]"

lemma payload_steps:
  assumes n: "plength p = of_nat (length data)" "length data < 2 ^ 64" and mo: "mask_offset p = 0"
  shows "frame_done p (foldl (fb_step h)
      (finish_header FrameBuffer_on_frame_header (FrameBuffer_on_frame_end h) p) data)
    (received_frame (flags p AND WS_OP_MASK) (decode_loop (mask_key p) 0 0 data))"
proof (cases "data = []")
  case True
  then show ?thesis
    using n Frame_of_context_received [of "[]"]
    by (simp add: finish_header_def Let_def FrameBuffer_on_frame_header_def FrameBuffer_on_frame_end_def
        websocket_parser_get_opcode_def frame_done_def)
next
  case False
  let ?op = "flags p AND WS_OP_MASK" and ?d = "decode_loop (mask_key p) 0 0 data"
  let ?p1 = "p\<lparr>pstate := s_body, require := plength p\<rparr>"
  let ?p2 = "call_cb (FrameBuffer_on_frame_header ?p1) ?p1"
  have un: "unat (plength p) = length data"
    using n by (simp add: unat_of_nat take_bit_nat_eq_self)
  then have fh: "finish_header FrameBuffer_on_frame_header (FrameBuffer_on_frame_end h) p = ?p2"
    using False by (auto simp: finish_header_def Let_def)
  have ok: "fb_ok ?p2" using fb.hdr_body [of ?p1] by simp
  have st: "pstate ?p2 = s_body" and len: "length data = unat (require ?p2)" using un by simp_all
  have body: "FrameBuffer_on_frame_body ?p2 data =
    (0, of_nat (length data mod 4),
     (pdata p)\<lparr>opcode := ?op, payload_length := plength p,
       payload_text := (if ?op = WS_OP_BINARY then [] else ?d),
       payload_binary := (if ?op = WS_OP_BINARY then ?d else []),
       payload_received := plength p\<rparr>)"
    using ok un mo n(1)
    by (subst on_frame_body_succeeds)
      (auto simp: FrameBuffer_on_frame_header_def websocket_parser_get_opcode_def Let_def write_at_whole)
  have fr: "Frame_of_context_ptr h (Some (snd (snd (FrameBuffer_on_frame_body ?p2 data)))) = received_frame ?op ?d"
    unfolding body by (rule Frame_of_context_received) (use n in simp_all)
  show ?thesis
    unfolding fh fb.body_steps_all [OF st ok len False]
    using fr body by (simp add: Let_def FrameBuffer_on_frame_end_def frame_done_def)
qed

lemma first_flags_opcode:
  "(first_flags ((if f then 0x80 else 0) OR ucast (x AND WS_OP_MASK)) OR (if m then WS_HAS_MASK else 0))
     AND WS_OP_MASK = x AND WS_OP_MASK"
proof -
  have m: "WS_OP_MASK = mask 4" by (simp add: mask_eq_exp_minus_1)
  have "(ucast ((if f then 0x80 else 0) OR ucast (x AND WS_OP_MASK) :: byte) :: u32) AND WS_OP_MASK = x AND WS_OP_MASK"
    unfolding m by (rule bit_word_eqI) (auto simp: bit_simps bit_0x80 bit_int_0x80)
  then show ?thesis
    by (simp add: first_flags_def bit.conj_disj_distrib2 and.assoc)
qed

lemma first_flags_opcode_nomask:
  "first_flags ((if f then 0x80 else 0) OR ucast (x AND WS_OP_MASK)) AND WS_OP_MASK = x AND WS_OP_MASK"
  using first_flags_opcode [of f x False] by simp

text \<open>A complete masked frame, and a complete frame without a mask, at a frame boundary.\<close>

lemma masked_frame_steps:
  assumes "pstate fb = s_start" "length (mask_key fb) = 4" "length key = 4" "length d < 2 ^ 64"
  shows "frame_done (fb\<lparr>mask_key := key\<rparr>)
    (foldl (fb_step h) fb (c # length_bytes 0x80 (of_nat (length d)) @ key @ d))
    (received_frame ((first_flags c OR WS_HAS_MASK) AND WS_OP_MASK) (decode_loop key 0 0 d))"
proof -
  obtain k0 k1 k2 k3 where k: "key = [k0, k1, k2, k3]"
    using assms(3) by (auto simp: length_Suc_conv numeral_eq_Suc)
  let ?p = "(header_fields fb (first_flags c OR WS_HAS_MASK) (of_nat (length d)))\<lparr>pstate := s_mask, require := 4\<rparr>"
  let ?q = "?p\<lparr>mask_key := key, require := 0\<rparr>"
  have "foldl (fb_step h) fb (c # length_bytes 0x80 (of_nat (length d)) @ key @ d) =
      foldl (fb_step h) (finish_header FrameBuffer_on_frame_header (FrameBuffer_on_frame_end h) ?q) d"
    using header_steps [OF assms(1), of "0x80" True h c "of_nat (length d)"] mask_steps [of ?p h k0 k1 k2 k3]
      assms(2) k by (simp add: header_fields_def)
  then show ?thesis
    using payload_steps [of ?q d h] assms(4) by (simp add: header_fields_def frame_done_def)
qed

lemma plain_frame_steps:
  assumes "pstate fb = s_start" "length d < 2 ^ 64"
  shows "frame_done fb
    (foldl (fb_step h) fb (c # length_bytes 0 (of_nat (length d)) @ d))
    (received_frame (first_flags c AND WS_OP_MASK) (decode_loop (mask_key fb) 0 0 d))"
proof -
  let ?q = "header_fields fb (first_flags c) (of_nat (length d))"
  have "foldl (fb_step h) fb (c # length_bytes 0 (of_nat (length d)) @ d) =
      foldl (fb_step h) (finish_header FrameBuffer_on_frame_header (FrameBuffer_on_frame_end h) ?q) d"
    using header_steps [OF assms(1), of 0 False h c "of_nat (length d)"] by simp
  then show ?thesis
    using payload_steps [of ?q d h] assms(2) by (simp add: header_fields_def frame_done_def)
qed

lemma consume_frame_done:
  assumes "fb_inv fb" "frame_done p (foldl (fb_step h) fb xs) f"
  shows "frame_done p (snd (FrameBuffer_consume h fb xs)) f"
  using consume_step(2) [OF assms(1), of h xs] assms(2) by (simp add: frame_done_def same_parser_iff)

subsection \<open>Properties\<close>

text \<open>A frame whose length field matches the payload of its kind, as the setters leave it.\<close>

definition frame_payload :: "frame \<Rightarrow> bytes" where
  "frame_payload f = (if m_opcode f = WS_OP_BINARY then m_payload_binary f else m_payload_text f)"

definition frame_consistent :: "frame \<Rightarrow> bool" where
  "frame_consistent f \<longleftrightarrow> length (frame_payload f) < 2 ^ 64 \<and>
     m_payload_length f = of_nat (length (frame_payload f)) \<and> m_opcode f AND WS_OP_MASK = m_opcode f"

lemma Frame_make_plain:
  "frame_consistent f \<Longrightarrow> Frame_make key False f =
     ((if True then 0x80 else 0) OR ucast (m_opcode f AND WS_OP_MASK)) #
     length_bytes 0 (of_nat (length (frame_payload f))) @ frame_payload f"
  by (auto simp: Frame_make_def frame_consistent_def frame_payload_def or.commute)

lemma Frame_make_masked:
  "frame_consistent f \<Longrightarrow> Frame_make key True f =
     ((if True then 0x80 else 0) OR ucast (m_opcode f AND WS_OP_MASK)) #
     length_bytes 0x80 (of_nat (length (frame_payload f))) @
     [ucast (drop_bit 24 key), ucast (drop_bit 16 key), ucast (drop_bit 8 key), ucast key] @ frame_payload f"
  by (auto simp: Frame_make_def frame_consistent_def frame_payload_def or.commute)

lemma build_frame_masked:
  "fl AND WS_HAS_MASK \<noteq> 0 \<Longrightarrow> websocket_build_frame old fl (Some key) d =
     ((if fl AND WS_FIN \<noteq> 0 then 0x80 else 0) OR ucast (fl AND WS_OP_MASK)) #
     length_bytes 0x80 (of_nat (length (decode_loop key 0 0 d))) @ key @ decode_loop key 0 0 d"
  by (simp add: websocket_build_frame_def websocket_decode_def Let_def)

lemma length_length_bytes:
  "length (length_bytes b n) = (if n < 126 then 1 else if n \<le> 0xFFFF then 3 else 9)"
  by (simp add: length_bytes_def)

text \<open>A zeroed parser, the memory the witnesses start from.\<close>

definition zero_parser :: frame_buffer where
  "zero_parser = \<lparr>pstate = s_start, flags = 0, mask_key = [], mask_offset = 0, plength = 0,
     require = 0, offset = 0, pdata = Context_init []\<rparr>"

lemma new_start: "pstate (FrameBuffer_new raw) = s_start" "mask_key (FrameBuffer_new raw) = [0, 0, 0, 0]"
  "buffered_frames (pdata (FrameBuffer_new raw)) = []"
  by (simp_all add: FrameBuffer_new_def websocket_parser_init_def Context_init_def)

lemma consume_concat:
  "fb_inv fb \<Longrightarrow> same_parser (foldl (\<lambda>b xs. snd (FrameBuffer_consume h b xs)) fb xss)
     (foldl (fb_step h) fb (concat xss)) \<and> fb_inv (foldl (\<lambda>b xs. snd (FrameBuffer_consume h b xs)) fb xss)"
proof (induction xss arbitrary: fb)
  case (Cons xs xss)
  let ?b = "snd (FrameBuffer_consume h fb xs)"
  have i: "fb_inv ?b" by (rule consume_step(3)) (rule Cons.prems)
  have "same_parser (foldl (fb_step h) ?b (concat xss)) (foldl (fb_step h) (foldl (fb_step h) fb xs) (concat xss))"
    by (rule fb.steps_same) (rule consume_step(2) [OF Cons.prems])
  with Cons.IH [OF i] show ?case by (auto intro: same_parser_trans)
qed simp

text \<open>
  C1. Streaming: however the bytes of a connection are cut into receive buffers, feeding the
  pieces one after the other leaves the frame buffer (its list of decoded frames and its
  parser, up to a progress counter nothing reads) as feeding them all at once does, and every
  call consumes its whole buffer.
\<close>

theorem consume_independent_of_chunks:
  assumes "fb_inv fb"
  shows "same_parser (foldl (\<lambda>b xs. snd (FrameBuffer_consume h b xs)) fb xss)
      (snd (FrameBuffer_consume h fb (concat xss))) \<and>
    fst (FrameBuffer_consume h fb xs) = of_nat (length xs)"
  using consume_concat [OF assms, of h xss] consume_step [OF assms, of h "concat xss"]
    consume_step(1) [OF assms, of h xs]
  by (simp add: same_parser_def)

theorem consume_independent_of_chunks_witness:
  "fb_inv (FrameBuffer_new zero_parser) \<and>
   same_parser
     (foldl (\<lambda>b xs. snd (FrameBuffer_consume LITTLE_ENDIAN b xs)) (FrameBuffer_new zero_parser) [[0x81], [0x01, 0x61]])
     (snd (FrameBuffer_consume LITTLE_ENDIAN (FrameBuffer_new zero_parser) (concat [[0x81], [0x01, 0x61]]))) \<and>
   fst (FrameBuffer_consume LITTLE_ENDIAN (FrameBuffer_new zero_parser) [0x81]) = of_nat (length [0x81 :: byte])"
  using new_inv [of zero_parser] consume_independent_of_chunks [OF new_inv [of zero_parser]] by blast

text \<open>
  C25. The invariant of the frame buffer (a body being received has exactly the room the parser
  still requires, so every payload write is inside its buffer) holds for a new buffer and is
  kept by consuming any bytes and by taking frames out.
\<close>

theorem frame_buffer_invariant:
  "fb_inv (FrameBuffer_new raw) \<and>
   (fb_inv fb \<longrightarrow> fb_inv (snd (FrameBuffer_consume h fb xs)) \<and> fb_inv (snd (FrameBuffer_getFrame fb)))"
  using new_inv consume_step(3) getFrame_inv by blast

theorem frame_buffer_invariant_witness:
  "fb_inv (FrameBuffer_new zero_parser) \<and>
   fb_inv (snd (FrameBuffer_consume LITTLE_ENDIAN (FrameBuffer_new zero_parser) [0x81, 0x05]))"
  using frame_buffer_invariant [of zero_parser "FrameBuffer_new zero_parser" LITTLE_ENDIAN "[0x81, 0x05]"]
  by blast

lemma masked_decoded:
  assumes "fb_inv fb" "pstate fb = s_start" "fl AND WS_HAS_MASK \<noteq> 0" "length key = 4" "length d < 2 ^ 64"
  shows "frame_done (fb\<lparr>mask_key := key\<rparr>)
    (snd (FrameBuffer_consume h fb (websocket_build_frame old fl (Some key) d)))
    (received_frame (fl AND WS_OP_MASK) d)"
proof -
  have "length (mask_key fb) = 4" using assms(1) by (simp add: fb_inv_def)
  from masked_frame_steps [OF assms(2) this assms(4), of "decode_loop key 0 0 d" h
      "(if fl AND WS_FIN \<noteq> 0 then 0x80 else 0) OR ucast (fl AND WS_OP_MASK)"]
  show ?thesis
    using assms(1,5) build_frame_masked [OF assms(3)] first_flags_opcode [of "fl AND WS_FIN \<noteq> 0" fl True]
    by (intro consume_frame_done) (simp_all add: decode_loop_involution)
qed

text \<open>
  C24. Round trip of a masked frame (what a client sends): for every flags word, mask and
  payload, the bytes \<^verbatim>\<open>websocket_build_frame\<close> writes are decoded, on either byte order, into
  exactly one frame with that opcode and that payload, and the buffer is again between frames.
\<close>

theorem masked_frame_roundtrip:
  assumes "fb_inv fb" "pstate fb = s_start" "fl AND WS_HAS_MASK \<noteq> 0" "length key = 4" "length d < 2 ^ 64"
  shows "frame_done (fb\<lparr>mask_key := key\<rparr>)
    (snd (FrameBuffer_consume h fb (websocket_build_frame old fl (Some key) d)))
    (received_frame (fl AND WS_OP_MASK) d)"
  by (rule masked_decoded [OF assms])

theorem masked_frame_roundtrip_witness:
  "frame_done ((FrameBuffer_new zero_parser)\<lparr>mask_key := [1, 2, 3, 4]\<rparr>)
    (snd (FrameBuffer_consume BIG_ENDIAN (FrameBuffer_new zero_parser)
      (websocket_build_frame [] 0x31 (Some [1, 2, 3, 4]) [0x68, 0x69])))
    (received_frame (0x31 AND WS_OP_MASK) [0x68, 0x69])"
  by (rule masked_frame_roundtrip [OF new_inv]) (simp_all add: new_start)

text \<open>
  Round trip of a server frame: a frame whose length field matches its payload, encoded by
  \<^verbatim>\<open>Frame::make\<close> without a mask, is decoded by a frame buffer that has seen no masked frame
  into one frame with the same opcode and payload.
\<close>

theorem make_roundtrip:
  assumes "fb_inv fb" "pstate fb = s_start" "mask_key fb = [0, 0, 0, 0]" "frame_consistent f"
  shows "frame_done fb (snd (FrameBuffer_consume h fb (Frame_make key False f)))
    (received_frame (m_opcode f) (frame_payload f))"
proof -
  have op: "m_opcode f AND WS_OP_MASK = m_opcode f" and l: "length (frame_payload f) < 2 ^ 64"
    using assms(4) by (simp_all add: frame_consistent_def)
  show ?thesis
    using plain_frame_steps [OF assms(2) l, of h "(if True then 0x80 else 0) OR ucast (m_opcode f AND WS_OP_MASK)"]
      assms(1,3) Frame_make_plain [OF assms(4), of key] first_flags_opcode_nomask [of True "m_opcode f"] op
    by (intro consume_frame_done) (simp_all add: decode_loop_zero)
qed

lemma text_frame_consistent:
  "length d < 2 ^ 64 \<Longrightarrow> op \<noteq> WS_OP_BINARY \<Longrightarrow> op AND WS_OP_MASK = op \<Longrightarrow>
   frame_consistent (setTextPayload d (Frame_default\<lparr>m_opcode := op\<rparr>))"
  by (simp add: frame_consistent_def frame_payload_def setTextPayload_def)

theorem make_roundtrip_witness:
  "frame_done (FrameBuffer_new zero_parser)
    (snd (FrameBuffer_consume LITTLE_ENDIAN (FrameBuffer_new zero_parser)
      (Frame_make 7 False (setTextPayload [0x6f, 0x6b] (Frame_default\<lparr>m_opcode := WS_OP_TEXT\<rparr>)))))
    (received_frame WS_OP_TEXT [0x6f, 0x6b])"
proof -
  let ?f = "setTextPayload [0x6f, 0x6b] (Frame_default\<lparr>m_opcode := WS_OP_TEXT\<rparr>)"
  have "frame_consistent ?f" by (rule text_frame_consistent) simp_all
  then have "frame_done (FrameBuffer_new zero_parser)
      (snd (FrameBuffer_consume LITTLE_ENDIAN (FrameBuffer_new zero_parser) (Frame_make 7 False ?f)))
      (received_frame (m_opcode ?f) (frame_payload ?f))"
    by (intro make_roundtrip) (simp_all add: new_inv new_start)
  then show ?thesis by (simp add: setTextPayload_def frame_payload_def)
qed

lemma close_payload:
  "setClosePayload h code reason (Frame_default\<lparr>m_opcode := WS_OP_CLOSE\<rparr>) =
     setTextPayload (ucast (drop_bit 8 code) # ucast code # reason)
       (Frame_default\<lparr>m_opcode := WS_OP_CLOSE, m_close_code := code, m_close_reason := reason\<rparr>)"
  by (simp add: setClosePayload_def store16_network)

text \<open>
  A close frame built with \<^verbatim>\<open>setClosePayload\<close> on one host, sent unmasked and decoded on
  another, yields the same status code and reason, whatever the byte order of the two hosts.
\<close>

theorem close_frame_roundtrip:
  assumes "fb_inv fb" "pstate fb = s_start" "mask_key fb = [0, 0, 0, 0]" "length reason < 2 ^ 64 - 2"
  shows "\<exists>f. frame_done fb (snd (FrameBuffer_consume h' fb
      (Frame_make key False (setClosePayload h code reason (Frame_default\<lparr>m_opcode := WS_OP_CLOSE\<rparr>))))) f \<and>
    m_opcode f = WS_OP_CLOSE \<and> m_close_code f = code \<and> m_close_reason f = reason"
proof -
  let ?d = "ucast (drop_bit 8 code) # ucast code # reason"
  let ?f = "setClosePayload h code reason (Frame_default\<lparr>m_opcode := WS_OP_CLOSE\<rparr>)"
  have l: "length ?d < 2 ^ 64" using assms(4) by simp
  have f: "frame_consistent ?f" "m_opcode ?f = WS_OP_CLOSE" "frame_payload ?f = ?d"
    using l by (simp_all add: close_payload frame_consistent_def frame_payload_def setTextPayload_def)
  have "frame_done fb (foldl (fb_step h') fb (Frame_make key False ?f)) (received_frame WS_OP_CLOSE ?d)"
    using plain_frame_steps [OF assms(2) l, of h' "(if True then 0x80 else 0) OR ucast (m_opcode ?f AND WS_OP_MASK)"]
      assms(3) Frame_make_plain [OF f(1), of key] first_flags_opcode_nomask [of True WS_OP_CLOSE] f(2,3)
    by (simp add: decode_loop_zero)
  then have "frame_done fb (snd (FrameBuffer_consume h' fb (Frame_make key False ?f))) (received_frame WS_OP_CLOSE ?d)"
    using assms(1) by (rule consume_frame_done [rotated])
  moreover have "m_close_code (received_frame WS_OP_CLOSE ?d) = code"
    using network_roundtrip [of BIG_ENDIAN code] by (simp add: received_frame_def Let_def)
  moreover have "m_close_reason (received_frame WS_OP_CLOSE ?d) = reason"
    "m_opcode (received_frame WS_OP_CLOSE ?d) = WS_OP_CLOSE"
    by (simp_all add: received_frame_def Let_def)
  ultimately show ?thesis by blast
qed

theorem close_frame_roundtrip_witness:
  "\<exists>f. frame_done (FrameBuffer_new zero_parser)
      (snd (FrameBuffer_consume BIG_ENDIAN (FrameBuffer_new zero_parser)
        (Frame_make 0 False (setClosePayload LITTLE_ENDIAN 1001 [0x62] (Frame_default\<lparr>m_opcode := WS_OP_CLOSE\<rparr>))))) f \<and>
    m_opcode f = WS_OP_CLOSE \<and> m_close_code f = 1001 \<and> m_close_reason f = [0x62]"
  by (rule close_frame_roundtrip) (simp_all add: new_inv new_start)

text \<open>
  \<^verbatim>\<open>Frame::make(true)\<close> announces a mask but does not apply it: the receiver unmasks the plain
  payload and so obtains the payload combined with the random key.
\<close>

theorem masked_make_garbles:
  assumes "fb_inv fb" "pstate fb = s_start" "frame_consistent f"
  shows "\<exists>fb'. frame_done fb' (snd (FrameBuffer_consume h fb (Frame_make key True f)))
    (received_frame (m_opcode f)
      (decode_loop [ucast (drop_bit 24 key), ucast (drop_bit 16 key), ucast (drop_bit 8 key), ucast key]
         0 0 (frame_payload f)))"
proof -
  let ?k = "[ucast (drop_bit 24 key), ucast (drop_bit 16 key), ucast (drop_bit 8 key), ucast key :: byte]"
  have op: "m_opcode f AND WS_OP_MASK = m_opcode f" and l: "length (frame_payload f) < 2 ^ 64"
    using assms(3) by (simp_all add: frame_consistent_def)
  have "length (mask_key fb) = 4" using assms(1) by (simp add: fb_inv_def)
  from masked_frame_steps [OF assms(2) this, of ?k "frame_payload f" h
      "(if True then 0x80 else 0) OR ucast (m_opcode f AND WS_OP_MASK)"]
  have "frame_done (fb\<lparr>mask_key := ?k\<rparr>) (foldl (fb_step h) fb (Frame_make key True f))
      (received_frame (m_opcode f) (decode_loop ?k 0 0 (frame_payload f)))"
    using l Frame_make_masked [OF assms(3), of key] first_flags_opcode [of True "m_opcode f" True] op by simp
  then show ?thesis using consume_frame_done [OF assms(1)] by blast
qed

theorem masked_make_garbles_witness:
  "\<exists>fb'. frame_done fb' (snd (FrameBuffer_consume LITTLE_ENDIAN (FrameBuffer_new zero_parser)
      (Frame_make 0x01020304 True (setTextPayload [0x68, 0x69] (Frame_default\<lparr>m_opcode := WS_OP_TEXT\<rparr>)))))
    (received_frame WS_OP_TEXT [0x69, 0x6b]) \<and> received_frame WS_OP_TEXT [0x69, 0x6b] \<noteq> received_frame WS_OP_TEXT [0x68, 0x69]"
proof -
  let ?f = "setTextPayload [0x68, 0x69] (Frame_default\<lparr>m_opcode := WS_OP_TEXT\<rparr>)"
  have "frame_consistent ?f" by (rule text_frame_consistent) simp_all
  note g = masked_make_garbles [OF new_inv new_start(1) this, of LITTLE_ENDIAN zero_parser "0x01020304"]
  have "decode_loop [ucast (drop_bit 24 (0x01020304 :: u32)), ucast (drop_bit 16 (0x01020304 :: u32)),
      ucast (drop_bit 8 (0x01020304 :: u32)), ucast (0x01020304 :: u32)] 0 0 [0x68, 0x69] = [0x69, 0x6b]"
    by code_simp
  moreover have "m_opcode ?f = WS_OP_TEXT" "frame_payload ?f = [0x68, 0x69]"
    by (simp_all add: setTextPayload_def frame_payload_def)
  moreover have "received_frame WS_OP_TEXT [0x69, 0x6b] \<noteq> received_frame WS_OP_TEXT [0x68, 0x69]"
    by (simp add: received_frame_def Frame_default_def Let_def)
  ultimately show ?thesis using g by (simp only:) blast
qed

text \<open>
  The parser keeps the mask of the last masked frame: an unmasked frame is decoded with
  whatever mask the parser still holds, so it arrives intact only while that mask is zero.
\<close>

theorem unmasked_frame_uses_stale_mask:
  assumes "fb_inv fb" "pstate fb = s_start" "fl AND WS_HAS_MASK = 0" "length d < 2 ^ 64"
  shows "frame_done fb (snd (FrameBuffer_consume h fb (websocket_build_frame old fl m d)))
    (received_frame (fl AND WS_OP_MASK) (decode_loop (mask_key fb) 0 0 d))"
  using plain_frame_steps [OF assms(2,4), of h "(if fl AND WS_FIN \<noteq> 0 then 0x80 else 0) OR ucast (fl AND WS_OP_MASK)"]
    assms(1,3) first_flags_opcode_nomask [of "fl AND WS_FIN \<noteq> 0" fl]
  by (intro consume_frame_done) (simp_all add: websocket_build_frame_def Let_def)

theorem unmasked_frame_uses_stale_mask_witness:
  "frame_done ((FrameBuffer_new zero_parser)\<lparr>mask_key := [1, 2, 3, 4]\<rparr>)
    (snd (FrameBuffer_consume LITTLE_ENDIAN ((FrameBuffer_new zero_parser)\<lparr>mask_key := [1, 2, 3, 4]\<rparr>)
      (websocket_build_frame [] 0x11 None [0x68, 0x69])))
    (received_frame WS_OP_TEXT [0x69, 0x6b])"
proof -
  let ?fb = "(FrameBuffer_new zero_parser)\<lparr>mask_key := [1, 2, 3, 4]\<rparr>"
  have "fb_inv ?fb" "pstate ?fb = s_start" by (simp_all add: fb_inv_def new_start)
  then have "frame_done ?fb (snd (FrameBuffer_consume LITTLE_ENDIAN ?fb (websocket_build_frame [] 0x11 None [0x68, 0x69])))
      (received_frame (0x11 AND WS_OP_MASK) (decode_loop (mask_key ?fb) 0 0 [0x68, 0x69]))"
    by (rule unmasked_frame_uses_stale_mask) simp_all
  then show ?thesis by simp
qed

text \<open>
  \<^verbatim>\<open>websocket_calc_frame_size\<close> is exactly the number of bytes \<^verbatim>\<open>websocket_build_frame\<close> writes,
  so a caller that sizes its buffer with it never overruns it.
\<close>

theorem frame_size_exact:
  assumes "length d < 2 ^ 64" "fl AND WS_HAS_MASK \<noteq> 0 \<longrightarrow> length (case m of Some k \<Rightarrow> k | None \<Rightarrow> old) = 4"
  shows "length (websocket_build_frame old fl m d) = websocket_calc_frame_size fl (length d)"
proof -
  have "((of_nat (length d) :: u64) < 126) = (length d < 126)" "((of_nat (length d) :: u64) \<le> 0xFFFF) = (length d \<le> 0xFFFF)"
    using assms(1) by (simp_all add: word_less_nat_alt word_le_nat_alt unat_of_nat take_bit_nat_eq_self)
  then show ?thesis
    using assms(2)
    by (auto simp: websocket_build_frame_def websocket_calc_frame_size_def length_length_bytes
        websocket_decode_def Let_def split: option.splits)
qed

theorem frame_size_exact_witness:
  "length (websocket_build_frame [] 0x32 (Some [9, 9, 9, 9]) (replicate 200 0)) = 208"
  using frame_size_exact [where d = "replicate 200 0" and fl = "0x32" and m = "Some [9, 9, 9, 9]" and old = "[]"]
  by (simp add: websocket_calc_frame_size_def)

end
