(* ===== verification/Session.thy ===== *)
theory Session
  imports Prelude
begin

section \<open>Sessions (server/common/session)\<close>

text \<open>
  The receive buffer every server session has: bytes are received behind \<^verbatim>\<open>m_buffer_end_pos\<close> and
  handed out from \<^verbatim>\<open>m_buffer_begin_pos\<close>; when everything was handed out both positions go back to
  zero. What a call of \<^verbatim>\<open>recv\<close> on the socket returns is an argument. Writing past the allocated
  array is a failure. Positions and sizes (\<^verbatim>\<open>size_t\<close>) are natural numbers: they are bounded by the size
  of the buffer.
\<close>

datatype recv_result = Received bytes | Failed int

record session =
  m_buffer :: "bytes option"
  m_total_received :: nat
  m_buffer_size :: nat
  m_buffer_begin_pos :: nat
  m_buffer_end_pos :: nat
  m_socket :: nat

text \<open>
  The constructor allocates \<open>buffer_size\<close> bytes (with arbitrary content \<open>mem\<close>) but does not
  set \<^verbatim>\<open>m_buffer_size\<close>, which keeps what memory holds (\<open>old\<close>).
\<close>

definition Session_new :: "nat \<Rightarrow> bytes \<Rightarrow> nat \<Rightarrow> session" where
  "Session_new old mem socket = \<lparr>m_buffer = Some mem, m_total_received = 0, m_buffer_size = old,
     m_buffer_begin_pos = 0, m_buffer_end_pos = 0, m_socket = socket\<rparr>"

definition setBufferSize :: "nat \<Rightarrow> session \<Rightarrow> session" where
  "setBufferSize n s = s\<lparr>m_buffer_size := n\<rparr>"

text \<open>The moves: the new (or overwritten) session takes over everything, the old one is emptied.\<close>

definition Session_move :: "session \<Rightarrow> session \<times> session" where
  "Session_move other = (other, other\<lparr>m_buffer := None, m_total_received := 0, m_buffer_size := 0,
     m_buffer_begin_pos := 0, m_buffer_end_pos := 0\<rparr>)"

definition Session_move_assign :: "bool \<Rightarrow> session \<Rightarrow> session \<Rightarrow> session \<times> session" where
  "Session_move_assign same this other =
     (if same then (this, other)
      else (let (a, b) = Session_move other in (a, b)))"

definition critical :: "int \<Rightarrow> bool" where
  "critical e \<longleftrightarrow> e \<in> {9, 14, 12, 24, 23}"

text \<open>The bytes between the two positions.\<close>

definition unread :: "session \<Rightarrow> bytes" where
  "unread s = take (m_buffer_end_pos s - m_buffer_begin_pos s)
     (drop (m_buffer_begin_pos s) (case m_buffer s of None \<Rightarrow> [] | Some b \<Rightarrow> b))"

text \<open>
  \<^verbatim>\<open>recvMessage\<close> with the result \<open>r\<close> of the call of \<^verbatim>\<open>recv\<close>, if there is one, and the
  largest number of bytes wanted (\<open>None\<close> for the default \<^verbatim>\<open>-1\<close>): the value returned and the bytes the
  caller finds at \<^verbatim>\<open>*buffer\<close>.
\<close>

definition returned :: "nat option \<Rightarrow> session \<Rightarrow> int \<times> bytes" where
  "returned len s =
     (let n = m_buffer_end_pos s - m_buffer_begin_pos s;
          rt_length = (case len of None \<Rightarrow> n | Some l \<Rightarrow> if n < l then n else l)
      in (int rt_length, take rt_length (unread s)))"

definition recvMessage :: "recv_result \<Rightarrow> nat option \<Rightarrow> session \<Rightarrow> failure + (int \<times> bytes) \<times> session" where
  "recvMessage r len s =
     (if m_buffer_end_pos s < m_buffer_size s
      then (case r of
              Received [] \<Rightarrow> Inr ((0, []), s)
            | Failed e \<Rightarrow> Inr ((if critical e then -1 else -2, []), s)
            | Received xs \<Rightarrow>
                (case m_buffer s of
                   None \<Rightarrow> Inl NullDeref
                 | Some b \<Rightarrow>
                     if m_buffer_end_pos s + length xs > length b then Inl OutOfRange
                     else (let s' = s\<lparr>m_buffer := Some (write_at b (m_buffer_end_pos s) xs),
                                      m_total_received := m_total_received s + length xs,
                                      m_buffer_end_pos := m_buffer_end_pos s + length xs\<rparr>
                           in if m_buffer_end_pos s' \<le> m_buffer_size s' then Inr (returned len s', s') else Inl AssertionFailed)))
      else Inr (returned len s, s))"

definition consume :: "nat \<Rightarrow> session \<Rightarrow> nat \<times> session" where
  "consume len s =
     (let b = m_buffer_begin_pos s + len
      in if b \<ge> m_buffer_end_pos s
         then (len - (b - m_buffer_end_pos s), s\<lparr>m_buffer_begin_pos := 0, m_buffer_end_pos := 0\<rparr>)
         else (len, s\<lparr>m_buffer_begin_pos := b\<rparr>))"

section \<open>A session is a queue of bytes\<close>

text \<open>
  The interface a protocol layer relies on: the bytes received and not yet consumed form a queue.
  Receiving appends to it and shows it, consuming drops from its front.
\<close>

locale byte_queue =
  fixes inv :: "'s \<Rightarrow> bool" and queue :: "'s \<Rightarrow> bytes" and room :: "'s \<Rightarrow> nat"
    and receive :: "bytes \<Rightarrow> 's \<Rightarrow> failure + (int \<times> bytes) \<times> 's" and take_off :: "nat \<Rightarrow> 's \<Rightarrow> 's"
  assumes receive: "inv s \<Longrightarrow> xs \<noteq> [] \<Longrightarrow> length xs \<le> room s \<Longrightarrow>
      \<exists>s'. receive xs s = Inr ((int (length (queue s @ xs)), queue s @ xs), s') \<and> inv s' \<and> queue s' = queue s @ xs"
    and take_off: "inv s \<Longrightarrow> k \<le> length (queue s) \<Longrightarrow> inv (take_off k s) \<and> queue (take_off k s) = drop k (queue s)"
    and room_empty: "inv s \<Longrightarrow> inv s' \<Longrightarrow> queue s = [] \<Longrightarrow> queue s' = [] \<Longrightarrow> room s' = room s"
begin

text \<open>
  A reader that receives a piece, gives everything that is there to a parser and consumes what the
  parser took.
\<close>

fun pump :: "('p \<Rightarrow> bytes \<Rightarrow> nat \<times> 'p) \<Rightarrow> bytes list \<Rightarrow> 's \<times> 'p \<Rightarrow> failure + 's \<times> 'p" where
  "pump f [] (s, p) = Inr (s, p)"
| "pump f (xs # xss) (s, p) =
     (case receive xs s of
        Inl e \<Rightarrow> Inl e
      | Inr ((n, ys), s') \<Rightarrow> (let (k, p') = f p ys in pump f xss (take_off k s', p')))"

text \<open>A parser that takes all it is given sees the pieces one after the other, and the queue stays empty.\<close>

lemma pump_eager:
  assumes "inv s" "queue s = []" "\<forall>xs \<in> set xss. xs \<noteq> [] \<and> length xs \<le> room s"
    and eager: "\<And>p ys. good p \<Longrightarrow> fst (f p ys) = length ys \<and> good (snd (f p ys))" and "good p"
  shows "\<exists>s'. pump f xss (s, p) = Inr (s', foldl (\<lambda>p ys. snd (f p ys)) p xss) \<and> inv s' \<and> queue s' = []"
  using assms(1-3,5)
proof (induction xss arbitrary: s p)
  case Nil
  then show ?case by auto
next
  case (Cons xs xss)
  from Cons.prems have x: "xs \<noteq> []" "length xs \<le> room s" by simp_all
  from receive [OF Cons.prems(1) x] Cons.prems(2) obtain s' where
    r: "receive xs s = Inr ((int (length xs), xs), s')" "inv s'" "queue s' = xs" by auto
  let ?t = "take_off (length xs) s'"
  have t: "inv ?t" "queue ?t = []" using take_off [OF r(2), of "length xs"] r(3) by simp_all
  then have "room ?t = room s" using room_empty [OF Cons.prems(1) t(1)] Cons.prems(2) by simp
  then have rest: "\<forall>ys \<in> set xss. ys \<noteq> [] \<and> length ys \<le> room ?t" using Cons.prems(3) by simp
  have f: "fst (f p xs) = length xs" "good (snd (f p xs))" using eager [OF Cons.prems(4), of xs] by simp_all
  have "pump f (xs # xss) (s, p) = pump f xss (?t, snd (f p xs))" using r(1) f(1) by (simp add: Let_def split_beta)
  then show ?case using Cons.IH [OF t rest f(2)] by simp
qed

end

definition session_inv :: "session \<Rightarrow> bool" where
  "session_inv s \<longleftrightarrow> (\<exists>b. m_buffer s = Some b \<and> m_buffer_size s \<le> length b)
     \<and> m_buffer_begin_pos s \<le> m_buffer_end_pos s \<and> m_buffer_end_pos s \<le> m_buffer_size s
     \<and> (m_buffer_begin_pos s = m_buffer_end_pos s \<longrightarrow> m_buffer_end_pos s = 0)"

definition session_room :: "session \<Rightarrow> nat" where
  "session_room s = m_buffer_size s - m_buffer_end_pos s"

lemma length_unread: "session_inv s \<Longrightarrow> length (unread s) = m_buffer_end_pos s - m_buffer_begin_pos s"
  by (auto simp: session_inv_def unread_def)

lemma recvMessage_queue:
  assumes "session_inv s" "xs \<noteq> []" "length xs \<le> session_room s"
  shows "\<exists>s'. recvMessage (Received xs) None s = Inr ((int (length (unread s @ xs)), unread s @ xs), s')
      \<and> session_inv s' \<and> unread s' = unread s @ xs \<and> m_buffer_size s' = m_buffer_size s"
proof -
  obtain b where b: "m_buffer s = Some b" "m_buffer_size s \<le> length b" using assms(1) by (auto simp: session_inv_def)
  let ?e = "m_buffer_end_pos s" and ?g = "m_buffer_begin_pos s"
  have i: "?g \<le> ?e" "?e \<le> m_buffer_size s" "?e + length xs \<le> m_buffer_size s" "?e < m_buffer_size s" "0 < length xs"
    using assms by (auto simp: session_inv_def session_room_def length_greater_0_conv [symmetric] simp del: length_greater_0_conv)
  let ?s = "s\<lparr>m_buffer := Some (write_at b ?e xs), m_total_received := m_total_received s + length xs, m_buffer_end_pos := ?e + length xs\<rparr>"
  have "?g \<noteq> ?e + length xs" using i(1,5) by linarith
  then have inv: "session_inv ?s" using b i(1,3) unfolding session_inv_def by (simp del: length_greater_0_conv)
  have "take (?e + length xs) (write_at b ?e xs) = take ?e b @ xs" using b(2) i by (intro take_write_at) simp
  then have "take (?e + length xs - ?g) (drop ?g (write_at b ?e xs)) = drop ?g (take ?e b @ xs)"
    by (metis drop_take)
  also have "\<dots> = take (?e - ?g) (drop ?g b) @ xs" using i b(2) by (simp add: drop_take)
  finally have u: "unread ?s = unread s @ xs" using b(1) by (simp add: unread_def)
  have "recvMessage (Received xs) None s = Inr (returned None ?s, ?s)"
    using assms(2) b i by (cases xs) (simp_all add: recvMessage_def Let_def)
  moreover have "returned None ?s = (int (length (unread s @ xs)), unread s @ xs)"
    using length_unread [OF inv] u unfolding returned_def by simp
  ultimately show ?thesis using inv u by simp
qed

lemma consume_queue:
  assumes "session_inv s" "k \<le> length (unread s)"
  shows "fst (consume k s) = k" "session_inv (snd (consume k s))" "unread (snd (consume k s)) = drop k (unread s)"
    "m_buffer_size (snd (consume k s)) = m_buffer_size s"
proof -
  obtain b where b: "m_buffer s = Some b" "m_buffer_size s \<le> length b" using assms(1) by (auto simp: session_inv_def)
  have i: "m_buffer_begin_pos s \<le> m_buffer_end_pos s" "m_buffer_end_pos s \<le> m_buffer_size s" "k \<le> m_buffer_end_pos s - m_buffer_begin_pos s"
    using assms length_unread [OF assms(1)] by (auto simp: session_inv_def)
  then show "fst (consume k s) = k" "m_buffer_size (snd (consume k s)) = m_buffer_size s" by (auto simp: consume_def Let_def)
  show "session_inv (snd (consume k s))" using assms(1) i by (auto simp: consume_def Let_def session_inv_def)
  show "unread (snd (consume k s)) = drop k (unread s)"
    using i b by (auto simp: consume_def Let_def unread_def drop_take add.commute diff_diff_left)
qed

definition sized :: "nat \<Rightarrow> session \<Rightarrow> bool" where
  "sized n s \<longleftrightarrow> session_inv s \<and> m_buffer_size s = n"

interpretation sq: byte_queue "sized n" unread session_room "\<lambda>xs. recvMessage (Received xs) None" "\<lambda>k s. snd (consume k s)" for n
proof unfold_locales
  fix s s' :: session and xs k
  show "\<exists>s'. recvMessage (Received xs) None s = Inr ((int (length (unread s @ xs)), unread s @ xs), s') \<and> sized n s' \<and> unread s' = unread s @ xs"
    if "sized n s" "xs \<noteq> []" "length xs \<le> session_room s"
    using that recvMessage_queue [of s xs] by (auto simp: sized_def)
  show "sized n (snd (consume k s)) \<and> unread (snd (consume k s)) = drop k (unread s)" if "sized n s" "k \<le> length (unread s)"
    using that consume_queue [of s k] by (simp add: sized_def)
  show "session_room s' = session_room s" if "sized n s" "sized n s'" "unread s = []" "unread s' = []"
    using that length_unread [of s] length_unread [of s'] by (auto simp: sized_def session_room_def session_inv_def)
qed

lemma session_is_byte_queue_parts:
  assumes "session_inv s"
  shows "xs \<noteq> [] \<and> length xs \<le> session_room s \<longrightarrow>
      (\<exists>s'. recvMessage (Received xs) None s = Inr ((int (length (unread s @ xs)), unread s @ xs), s')
         \<and> session_inv s' \<and> unread s' = unread s @ xs)"
    and "k \<le> length (unread s) \<longrightarrow> fst (consume k s) = k \<and> session_inv (snd (consume k s)) \<and> unread (snd (consume k s)) = drop k (unread s)"
    and "session_room s = 0 \<longrightarrow> recvMessage r None s = Inr ((int (length (unread s)), unread s), s)"
proof -
  show "xs \<noteq> [] \<and> length xs \<le> session_room s \<longrightarrow>
      (\<exists>s'. recvMessage (Received xs) None s = Inr ((int (length (unread s @ xs)), unread s @ xs), s')
         \<and> session_inv s' \<and> unread s' = unread s @ xs)"
    using recvMessage_queue [OF assms, of xs] by blast
  show "k \<le> length (unread s) \<longrightarrow> fst (consume k s) = k \<and> session_inv (snd (consume k s)) \<and> unread (snd (consume k s)) = drop k (unread s)"
    using consume_queue [OF assms] by blast
  show "session_room s = 0 \<longrightarrow> recvMessage r None s = Inr ((int (length (unread s)), unread s), s)"
    using length_unread [OF assms] by (simp add: recvMessage_def returned_def session_room_def Let_def)
qed

text \<open>
  C21. A session whose buffer size does not exceed the allocated array implements a queue of bytes:
  received data are appended to the bytes not yet consumed and all of them are shown to the caller,
  consuming drops exactly the bytes consumed from the front, and the positions stay inside the buffer.
  Nothing is received while the buffer is full; then the bytes that are there are shown again.
\<close>

theorem session_is_byte_queue:
  assumes "session_inv s"
  shows "(xs \<noteq> [] \<and> length xs \<le> session_room s \<longrightarrow>
      (\<exists>s'. recvMessage (Received xs) None s = Inr ((int (length (unread s @ xs)), unread s @ xs), s')
         \<and> session_inv s' \<and> unread s' = unread s @ xs))
    \<and> (k \<le> length (unread s) \<longrightarrow> fst (consume k s) = k \<and> session_inv (snd (consume k s)) \<and> unread (snd (consume k s)) = drop k (unread s))
    \<and> (session_room s = 0 \<longrightarrow> recvMessage r None s = Inr ((int (length (unread s)), unread s), s))"
  by (intro conjI session_is_byte_queue_parts assms)

theorem session_is_byte_queue_witness:
  "\<exists>s'. recvMessage (Received [1, 2]) None (setBufferSize 4 (Session_new 0 (replicate 4 0) 7)) = Inr ((2, [1, 2]), s') \<and> session_inv s'"
proof -
  have "session_inv (setBufferSize 4 (Session_new 0 (replicate 4 0) 7))"
    by (simp add: session_inv_def setBufferSize_def Session_new_def)
  from session_is_byte_queue [OF this, of "[1, 2]"] show ?thesis
    by (auto simp: session_room_def unread_def setBufferSize_def Session_new_def)
qed

text \<open>
  A buffer size that was set larger than the allocated array lets \<^verbatim>\<open>recvMessage\<close> write past the array
  as soon as the peer sends more than it holds.
\<close>

theorem oversized_buffer_overflows:
  assumes "length mem < length xs" "length xs \<le> n"
  shows "recvMessage (Received xs) None (setBufferSize n (Session_new old mem socket)) = Inl OutOfRange"
  using assms by (cases xs) (auto simp: recvMessage_def setBufferSize_def Session_new_def)

theorem oversized_buffer_overflows_witness:
  "recvMessage (Received (replicate 2000 0)) None (setBufferSize 4096 (Session_new 0 (replicate 1024 0) 7)) = Inl OutOfRange"
  using oversized_buffer_overflows [of "replicate 1024 0" "replicate 2000 0" 4096 0 7] by simp

end
