(* ===== verification/Ws_Session.thy ===== *)
theory Ws_Session
  imports Ws_Frame Session
begin

unbundle bit_operations_syntax

section \<open>WebSocket sessions (server/websocket/wsserver, class WsSession)\<close>

text \<open>
  A session adds to the byte buffer of every server session a frame buffer, a state, a ping timer
  and a queue of frames to send. Clock readings, configured values, the results of system
  calls and whether the timer could be registered are arguments. The timer is known by a number.
\<close>

datatype ws_state = INIT | OPEN | CLOSING | CLOSED

datatype bf_state = WAITING | READY

record ws_session =
  base :: session
  m_sessionId :: nat
  m_frame_buffer :: frame_buffer
  m_state :: ws_state
  m_timer_task :: "nat option"
  m_recent_activate :: u64
  m_recent_frame_time :: u64
  m_bf_state :: bf_state
  m_send_buffer :: "bytes list"

text \<open>\<open>old\<close> and \<open>mem\<close>: the memory the base class finds; \<open>size\<close> is the configured buffer size.\<close>

definition WsSession_new :: "nat \<Rightarrow> bytes \<Rightarrow> frame_buffer \<Rightarrow> nat \<Rightarrow> nat \<Rightarrow> nat \<Rightarrow> ws_session" where
  "WsSession_new old mem raw buffer_size socket sessionId =
     \<lparr>base = setBufferSize buffer_size (Session_new old mem socket), m_sessionId = sessionId,
      m_frame_buffer = FrameBuffer_new raw, m_state = INIT, m_timer_task = None,
      m_recent_activate = 0, m_recent_frame_time = 0, m_bf_state = READY, m_send_buffer = []\<rparr>"

definition ws_init :: "u64 \<Rightarrow> nat option \<Rightarrow> ws_session \<Rightarrow> int \<times> ws_session" where
  "ws_init now timer s =
     (let s = s\<lparr>m_recent_frame_time := now, m_timer_task := timer\<rparr>
      in case timer of None \<Rightarrow> (-1, s\<lparr>m_state := CLOSED\<rparr>) | Some t \<Rightarrow> (0, s\<lparr>m_state := OPEN\<rparr>))"

text \<open>The timers that are cancelled with the session are returned.\<close>

definition ws_clean :: "ws_session \<Rightarrow> nat option \<times> ws_session" where
  "ws_clean s = (m_timer_task s, s\<lparr>m_timer_task := None, m_state := CLOSED\<rparr>)"

subsection \<open>The ping timer\<close>

text \<open>
  The condition of the timer, after the ping was sent at \<open>before\<close> and the pong time-out has passed:
  the state is looked at, and then the time of the last frame. The answer is whether the session is
  kept, and whether the timer cancels itself.
\<close>

definition ping_kept :: "u32 \<Rightarrow> u64 \<Rightarrow> u64 \<Rightarrow> bool" where
  "ping_kept pong_timeout now recent_pong =
     (if now < recent_pong then True
      else if now > recent_pong \<and> now - recent_pong - 100 > ucast (pong_timeout * 1000) then False
      else True)"

definition ping_condition :: "u32 \<Rightarrow> u64 \<Rightarrow> ws_session \<Rightarrow> bool \<times> bool" where
  "ping_condition pong_timeout now s =
     (if m_state s \<noteq> OPEN then (False, True) else (ping_kept pong_timeout now (m_recent_frame_time s), False))"

text \<open>The callback that runs when the condition failed.\<close>

definition ping_timeout_cb :: "ws_session \<Rightarrow> ws_session" where
  "ping_timeout_cb s = (if m_state s \<noteq> OPEN then s else s\<lparr>m_state := CLOSED\<rparr>)"

subsection \<open>Receiving\<close>

text \<open>
  \<^verbatim>\<open>co_recvFrame\<close> on the results of the calls of \<^verbatim>\<open>recv\<close> to come; \<open>None\<close> when it still waits after the last
  of them.
\<close>

definition int_of_count :: "u64 \<Rightarrow> int" where
  "int_of_count n = sint (ucast n :: u32)"

fun recv_loop :: "host \<Rightarrow> nat \<Rightarrow> u64 \<Rightarrow> recv_result list \<Rightarrow> nat \<Rightarrow> ws_session \<Rightarrow> (failure + int \<times> ws_session) option" where
  "recv_loop h max_request_size now [] total_length s = None"
| "recv_loop h max_request_size now (r # rs) total_length s =
     (case recvMessage r None (base s) of
        Inl e \<Rightarrow> Some (Inl e)
      | Inr ((rt, buffer), b) \<Rightarrow>
          let s = s\<lparr>base := b\<rparr>
          in if rt = 0 then Some (Inr (0, s))
             else if rt < 0 then Some (Inr (-1, s))
             else if total_length + nat rt > max_request_size then Some (Inr (-1, s))
             else (let (n, fb) = FrameBuffer_consume h (m_frame_buffer s) buffer; consumed = int_of_count n;
                       s = s\<lparr>m_frame_buffer := fb\<rparr>
                   in if consumed < 0 then Some (Inr (-1, s))
                      else (let s = s\<lparr>base := snd (consume (nat consumed) (base s))\<rparr>
                            in if FrameBuffer_getFrameCount fb > 0
                               then Some (Inr (1, s\<lparr>m_recent_activate := now\<rparr>))
                               else recv_loop h max_request_size now rs (total_length + nat rt) s)))"

definition co_recvFrame :: "host \<Rightarrow> nat \<Rightarrow> u64 \<Rightarrow> recv_result list \<Rightarrow> ws_session \<Rightarrow> (failure + int \<times> ws_session) option" where
  "co_recvFrame h max_request_size now rs s =
     (if m_state s \<noteq> OPEN then Some (Inr (-1, s))
      else if FrameBuffer_getFrameCount (m_frame_buffer s) > 0 then Some (Inr (1, s))
      else recv_loop h max_request_size now rs 0 s)"

subsection \<open>Closing\<close>

text \<open>\<open>valid\<close>: the socket is still valid. The result contains the close frame, if one is sent.\<close>

definition ws_co_close :: "host \<Rightarrow> bool \<Rightarrow> u16 \<Rightarrow> bytes \<Rightarrow> ws_session \<Rightarrow> bytes option \<times> ws_session" where
  "ws_co_close h valid code reason s =
     (if m_state s = CLOSED \<or> m_state s = CLOSING then (None, s)
      else if \<not> valid then (None, s\<lparr>m_state := CLOSED\<rparr>)
      else (Some (Frame_make 0 False (setClosePayload h code reason (Frame_default\<lparr>m_opcode := WS_OP_CLOSE\<rparr>))),
            s\<lparr>m_state := CLOSED\<rparr>))"

subsection \<open>Sending\<close>

text \<open>
  \<^verbatim>\<open>co_sendFrame\<close> by several coroutines at once, in atomic steps: the exchange of \<^verbatim>\<open>m_bf_state\<close>, the
  insertion under the lock, each call of \<^verbatim>\<open>sendMessage\<close>, the swap under the lock. A thread is the
  position it has reached; the number in a step is what \<^verbatim>\<open>sendMessage\<close>, that is \<^verbatim>\<open>send\<close> of the socket, returns. \<open>sent\<close> are the
  frames for which it was not \<open>-1\<close>, with the number of bytes that went out (the code does not compare it with the length of
  the frame), \<open>lost\<close> those whose \<^verbatim>\<open>sendMessage\<close> failed.
\<close>

datatype sender = S_start bytes | S_push bytes | S_first bytes | S_swap | S_drain "bytes list" | S_done int

record send_state =
  bf :: bf_state
  pending :: "bytes list"
  sent :: "(bytes \<times> nat) list"
  lost :: "bytes list"
  senders :: "sender list"

definition transmit :: "int \<Rightarrow> bytes \<Rightarrow> send_state \<Rightarrow> send_state" where
  "transmit rt f s = (if rt \<noteq> -1 then s\<lparr>sent := sent s @ [(f, nat rt)]\<rparr> else s\<lparr>lost := lost s @ [f]\<rparr>)"

definition goto :: "nat \<Rightarrow> sender \<Rightarrow> send_state \<Rightarrow> send_state" where
  "goto i p s = s\<lparr>senders := (senders s)[i := p]\<rparr>"

fun sender_step :: "nat \<Rightarrow> int \<Rightarrow> sender \<Rightarrow> send_state \<Rightarrow> send_state" where
  "sender_step i rt (S_start f) s =
     (if bf s = READY then goto i (S_first f) (s\<lparr>bf := WAITING\<rparr>) else goto i (S_push f) s)"
| "sender_step i rt (S_push f) s = goto i (S_done 0) (s\<lparr>pending := pending s @ [f]\<rparr>)"
| "sender_step i rt (S_first f) s = goto i (if rt \<noteq> -1 then S_swap else S_done (-1)) (transmit rt f s)"
| "sender_step i rt S_swap s =
     (if pending s = [] then goto i (S_done 0) (s\<lparr>bf := READY\<rparr>)
      else goto i (S_drain (pending s)) (s\<lparr>pending := []\<rparr>))"
| "sender_step i rt (S_drain []) s = goto i S_swap s"
| "sender_step i rt (S_drain (f # fs)) s = goto i (S_drain fs) (transmit rt f s)"
| "sender_step i rt (S_done r) s = s"

definition send_step :: "nat \<times> int \<Rightarrow> send_state \<Rightarrow> send_state" where
  "send_step e s = (if fst e < length (senders s) then sender_step (fst e) (snd e) (senders s ! fst e) s else s)"

definition send_run :: "(nat \<times> int) list \<Rightarrow> send_state \<Rightarrow> send_state" where
  "send_run es s = foldl (\<lambda>s e. send_step e s) s es"

definition send_init :: "bytes list \<Rightarrow> send_state" where
  "send_init fs = \<lparr>bf = READY, pending = [], sent = [], lost = [], senders = map S_start fs\<rparr>"


section \<open>Correctness of the sessions\<close>

subsection \<open>Receiving decodes the stream\<close>

lemma int_of_count_small: "n < 2 ^ 31 \<Longrightarrow> int_of_count (of_nat n) = int n"
proof -
  assume n: "n < 2 ^ 31"
  have "(ucast (of_nat n :: u64) :: u32) = of_nat n" using n by (simp add: unsigned_of_nat take_bit_nat_eq_self)
  moreover have "sint (of_nat n :: u32) = int n" using n by (simp add: sint_uint uint_nat unat_of_nat signed_take_bit_int_eq_self)
  ultimately show ?thesis by (simp add: int_of_count_def)
qed

lemma recv_chunk:
  assumes "sized n (base s)" "unread (base s) = []" "fb_inv (m_frame_buffer s)"
    "xs \<noteq> []" "length xs \<le> n" "length xs < 2 ^ 31" "tot + length xs \<le> maxr"
    and fb_def: "fb = snd (FrameBuffer_consume h (m_frame_buffer s) xs)"
  shows "\<exists>s'. recv_loop h maxr now (Received xs # rs) tot s =
        (if FrameBuffer_getFrameCount fb > 0 then Some (Inr (1, s'\<lparr>m_recent_activate := now\<rparr>))
         else recv_loop h maxr now rs (tot + length xs) s')
      \<and> sized n (base s') \<and> unread (base s') = [] \<and> m_frame_buffer s' = fb \<and> fb_inv fb"
proof -
  have "m_buffer_end_pos (base s) = 0"
    using assms(1,2) length_unread [of "base s"] by (auto simp: sized_def session_inv_def)
  then have room: "length xs \<le> session_room (base s)" using assms(1,5) by (simp add: session_room_def sized_def)
  from sq.receive [OF assms(1,4) room] assms(2) obtain b where
    b: "recvMessage (Received xs) None (base s) = Inr ((int (length xs), xs), b)" "sized n b" "unread b = xs" by auto
  let ?c = "snd (consume (length xs) b)"
  have c: "sized n ?c" "unread ?c = []" using sq.take_off [OF b(2), of "length xs"] b(3) by simp_all
  have n: "fst (FrameBuffer_consume h (m_frame_buffer s) xs) = of_nat (length xs)"
    using consume_step(1) [OF assms(3)] .
  let ?s = "s\<lparr>m_frame_buffer := fb, base := ?c\<rparr>"
  have pos: "int (length xs) \<noteq> 0" "\<not> int (length xs) < 0" "\<not> tot + nat (int (length xs)) > maxr" using assms(4,7) by simp_all
  have "recv_loop h maxr now (Received xs # rs) tot s =
      (if FrameBuffer_getFrameCount fb > 0 then Some (Inr (1, ?s\<lparr>m_recent_activate := now\<rparr>)) else recv_loop h maxr now rs (tot + length xs) ?s)"
    using b(1) n int_of_count_small [OF assms(6)] pos
    by (simp add: Let_def split_beta fb_def)
  moreover have "fb_inv fb" using consume_step(3) [OF assms(3)] by (simp add: fb_def)
  ultimately show ?thesis using c by (intro exI [of _ ?s]) simp
qed

abbreviation feed :: "host \<Rightarrow> frame_buffer \<Rightarrow> bytes list \<Rightarrow> frame_buffer" where
  "feed h \<equiv> foldl (\<lambda>b xs. snd (FrameBuffer_consume h b xs))"

lemma recv_chunks:
  assumes "sized n (base s)" "unread (base s) = []" "fb_inv (m_frame_buffer s)"
    "\<forall>ys \<in> set (xss @ [xs]). ys \<noteq> [] \<and> length ys \<le> n \<and> length ys < 2 ^ 31"
    "tot + length (concat (xss @ [xs])) \<le> maxr"
    "\<forall>k. 0 < k \<and> k \<le> length xss \<longrightarrow> FrameBuffer_getFrameCount (feed h (m_frame_buffer s) (take k xss)) = 0"
    "FrameBuffer_getFrameCount (feed h (m_frame_buffer s) (xss @ [xs])) > 0"
  shows "\<exists>s'. recv_loop h maxr now (map Received (xss @ [xs]) @ rs) tot s = Some (Inr (1, s'))
      \<and> sized n (base s') \<and> unread (base s') = [] \<and> m_frame_buffer s' = feed h (m_frame_buffer s) (xss @ [xs]) \<and> m_recent_activate s' = now"
  using assms
proof (induction xss arbitrary: s tot)
  case Nil
  then obtain s' where "recv_loop h maxr now (Received xs # rs) tot s = Some (Inr (1, s'\<lparr>m_recent_activate := now\<rparr>))"
    "sized n (base s')" "unread (base s') = []" "m_frame_buffer s' = snd (FrameBuffer_consume h (m_frame_buffer s) xs)"
    using recv_chunk [of n s xs tot maxr "snd (FrameBuffer_consume h (m_frame_buffer s) xs)" h now rs] by auto
  then show ?case by (intro exI [of _ "s'\<lparr>m_recent_activate := now\<rparr>"]) (simp add: Nil)
next
  case (Cons ys xss)
  have "FrameBuffer_getFrameCount (snd (FrameBuffer_consume h (m_frame_buffer s) ys)) = 0"
    using Cons.prems(6) [rule_format, of 1] by simp
  then obtain s' where s': "recv_loop h maxr now (Received ys # map Received (xss @ [xs]) @ rs) tot s =
      recv_loop h maxr now (map Received (xss @ [xs]) @ rs) (tot + length ys) s'"
    "sized n (base s')" "unread (base s') = []" "m_frame_buffer s' = snd (FrameBuffer_consume h (m_frame_buffer s) ys)"
    "fb_inv (m_frame_buffer s')"
    using recv_chunk [of n s ys tot maxr "snd (FrameBuffer_consume h (m_frame_buffer s) ys)" h now "map Received (xss @ [xs]) @ rs"] Cons.prems(1-5) by auto
  have k: "\<forall>k. 0 < k \<and> k \<le> length xss \<longrightarrow> FrameBuffer_getFrameCount (feed h (m_frame_buffer s') (take k xss)) = 0"
  proof (intro allI impI)
    fix k assume "0 < k \<and> k \<le> length xss"
    then show "FrameBuffer_getFrameCount (feed h (m_frame_buffer s') (take k xss)) = 0"
      using Cons.prems(6) [rule_format, of "Suc k"] s'(4) by simp
  qed
  have "\<exists>s''. recv_loop h maxr now (map Received (xss @ [xs]) @ rs) (tot + length ys) s' = Some (Inr (1, s''))
      \<and> sized n (base s'') \<and> unread (base s'') = [] \<and> m_frame_buffer s'' = feed h (m_frame_buffer s') (xss @ [xs]) \<and> m_recent_activate s'' = now"
    by (rule Cons.IH [OF s'(2,3,5)]) (use Cons.prems(4,5,7) s'(4) k in auto)
  then show ?case using s'(1,4) by simp
qed

text \<open>
  C8. While the bytes of a frame arrive in pieces of any size that the buffer can hold, \<^verbatim>\<open>co_recvFrame\<close>
  goes on receiving; it returns 1 with the piece that completes a frame, with exactly the
  frames that decoding the whole sequence of bytes at once gives, and leaves no byte in the buffer.
\<close>

theorem recv_frame_decodes_stream:
  assumes "m_state s = OPEN" "FrameBuffer_getFrameCount (m_frame_buffer s) = 0"
    and "session_inv (base s)" "unread (base s) = []" "fb_inv (m_frame_buffer s)"
    and "\<forall>ys \<in> set (xss @ [xs]). ys \<noteq> [] \<and> length ys \<le> m_buffer_size (base s) \<and> length ys < 2 ^ 31"
    and "length (concat (xss @ [xs])) \<le> maxr"
    and "\<forall>k. 0 < k \<and> k \<le> length xss \<longrightarrow> FrameBuffer_getFrameCount (snd (FrameBuffer_consume h (m_frame_buffer s) (concat (take k xss)))) = 0"
    and "FrameBuffer_getFrameCount (snd (FrameBuffer_consume h (m_frame_buffer s) (concat (xss @ [xs])))) > 0"
  shows "\<exists>s'. co_recvFrame h maxr now (map Received (xss @ [xs]) @ rs) s = Some (Inr (1, s'))
      \<and> buffered_frames (pdata (m_frame_buffer s')) =
        buffered_frames (pdata (snd (FrameBuffer_consume h (m_frame_buffer s) (concat (xss @ [xs])))))
      \<and> session_inv (base s') \<and> unread (base s') = [] \<and> m_recent_activate s' = now"
proof -
  have same: "pdata (feed h (m_frame_buffer s) zss) = pdata (snd (FrameBuffer_consume h (m_frame_buffer s) (concat zss)))" for zss
    using consume_concat [OF assms(5), of h zss] consume_step(2) [OF assms(5), of h "concat zss"] by (simp add: same_parser_iff)
  have count: "FrameBuffer_getFrameCount (feed h (m_frame_buffer s) zss) =
      FrameBuffer_getFrameCount (snd (FrameBuffer_consume h (m_frame_buffer s) (concat zss)))" for zss
    by (simp only: FrameBuffer_getFrameCount_def same)
  have none: "\<forall>k. 0 < k \<and> k \<le> length xss \<longrightarrow> FrameBuffer_getFrameCount (feed h (m_frame_buffer s) (take k xss)) = 0"
    using assms(8) by (simp only: count)
  have some: "FrameBuffer_getFrameCount (feed h (m_frame_buffer s) (xss @ [xs])) > 0"
    using assms(9) by (simp only: count)
  have "sized (m_buffer_size (base s)) (base s)" "0 + length (concat (xss @ [xs])) \<le> maxr" using assms(3,7) by (simp_all add: sized_def)
  from recv_chunks [OF this(1) assms(4,5,6) this(2) none some, of now rs] obtain s'
    where s': "recv_loop h maxr now (map Received (xss @ [xs]) @ rs) 0 s = Some (Inr (1, s'))"
      "sized (m_buffer_size (base s)) (base s')" "unread (base s') = []"
      "m_frame_buffer s' = feed h (m_frame_buffer s) (xss @ [xs])" "m_recent_activate s' = now" by blast
  have "co_recvFrame h maxr now (map Received (xss @ [xs]) @ rs) s = Some (Inr (1, s'))"
    using assms(1,2) s'(1) by (simp add: co_recvFrame_def)
  moreover have "buffered_frames (pdata (m_frame_buffer s')) = buffered_frames (pdata (snd (FrameBuffer_consume h (m_frame_buffer s) (concat (xss @ [xs])))))"
    by (simp only: s'(4) same)
  ultimately show ?thesis using s'(2,3,5) by (auto simp: sized_def)
qed

lemma one_frame:
  "FrameBuffer_getFrameCount (snd (FrameBuffer_consume LITTLE_ENDIAN (FrameBuffer_new zero_parser) [0x81])) = 0"
  "FrameBuffer_getFrameCount (snd (FrameBuffer_consume LITTLE_ENDIAN (FrameBuffer_new zero_parser) [0x81, 0x01, 0x61])) = 1"
  by code_simp+

theorem recv_frame_decodes_stream_witness:
  "\<exists>s'. co_recvFrame LITTLE_ENDIAN 100 5 [Received [0x81], Received [0x01, 0x61]]
       ((WsSession_new 0 (replicate 8 0) zero_parser 8 3 0)\<lparr>m_state := OPEN\<rparr>) = Some (Inr (1, s')) \<and> unread (base s') = []"
proof -
  let ?s = "(WsSession_new 0 (replicate 8 0) zero_parser 8 3 0)\<lparr>m_state := OPEN\<rparr>"
  have "m_state ?s = OPEN" "session_inv (base ?s)" "unread (base ?s) = []" "m_buffer_size (base ?s) = 8"
    "m_frame_buffer ?s = FrameBuffer_new zero_parser"
    by (simp_all add: WsSession_new_def setBufferSize_def Session_new_def session_inv_def unread_def)
  moreover have "FrameBuffer_getFrameCount (FrameBuffer_new zero_parser) = 0" by code_simp
  moreover have "\<forall>k. 0 < k \<and> k \<le> length [[0x81]] \<longrightarrow>
      FrameBuffer_getFrameCount (snd (FrameBuffer_consume LITTLE_ENDIAN (FrameBuffer_new zero_parser) (concat (take k [[0x81]])))) = 0"
    using one_frame(1) by (auto simp: le_Suc_eq)
  ultimately show ?thesis
    using recv_frame_decodes_stream [of ?s "[[0x81]]" "[0x01, 0x61]" 100 LITTLE_ENDIAN 5 "[]"] one_frame(2) new_inv [of zero_parser]
    by simp blast
qed

subsection \<open>The ping check\<close>

lemma ping_check_wraps_parts:
  assumes "recent \<le> now" "unat pong_timeout * 1000 < 2 ^ 32"
  shows "100 \<le> now - recent \<longrightarrow> (ping_kept pong_timeout now recent \<longleftrightarrow> unat (now - recent) \<le> unat pong_timeout * 1000 + 100)"
    and "0 < now - recent \<and> now - recent < 100 \<longrightarrow> \<not> ping_kept pong_timeout now recent"
proof -
  let ?d = "now - recent"
  have lim: "unat (ucast (pong_timeout * 1000) :: u64) = unat pong_timeout * 1000"
    using assms(2) by (simp add: unsigned_ucast_eq unat_word_ariths take_bit_nat_eq_self)
  have gt: "recent < now \<longleftrightarrow> ?d \<noteq> 0" "\<not> now < recent" using assms(1) by auto
  show "100 \<le> ?d \<longrightarrow> (ping_kept pong_timeout now recent \<longleftrightarrow> unat ?d \<le> unat pong_timeout * 1000 + 100)"
  proof
    assume d: "100 \<le> ?d"
    then have "unat (?d - 100) = unat ?d - 100" using unat_sub [OF d] by simp
    moreover have "100 \<le> unat ?d" "?d \<noteq> 0" using d by (auto simp: word_le_nat_alt)
    ultimately show "ping_kept pong_timeout now recent \<longleftrightarrow> unat ?d \<le> unat pong_timeout * 1000 + 100"
      using gt lim by (auto simp: ping_kept_def word_less_nat_alt)
  qed
  show "0 < ?d \<and> ?d < 100 \<longrightarrow> \<not> ping_kept pong_timeout now recent"
  proof
    assume d: "0 < ?d \<and> ?d < 100"
    then have u: "0 < unat ?d" "unat ?d < 100" by (simp_all add: word_less_nat_alt)
    have "unat (?d - 100) = 2 ^ 64 + unat ?d - 100"
      using u by (simp add: unat_sub_if')
    then have "?d - 100 > ucast (pong_timeout * 1000)" using lim assms(2) u by (simp add: word_less_nat_alt)
    then show "\<not> ping_kept pong_timeout now recent" using gt d by (auto simp: ping_kept_def)
  qed
qed

text \<open>
  The check of the ping timer keeps a session whose last frame is at least 100 ms old exactly
  as long as that frame is not older than the time-out plus 100 ms. A session whose last frame is
  less than 100 ms old, but not of this millisecond, is closed: the subtraction of 100 wraps
  around.
\<close>

theorem ping_check_wraps:
  assumes "recent \<le> now" "unat pong_timeout * 1000 < 2 ^ 32"
  shows "(100 \<le> now - recent \<longrightarrow> (ping_kept pong_timeout now recent \<longleftrightarrow> unat (now - recent) \<le> unat pong_timeout * 1000 + 100))
    \<and> (0 < now - recent \<and> now - recent < 100 \<longrightarrow> \<not> ping_kept pong_timeout now recent)"
  by (intro conjI ping_check_wraps_parts assms)

theorem ping_check_wraps_witness:
  "ping_kept 15 20000 10000 \<and> \<not> ping_kept 15 20050 20000"
  using ping_check_wraps [of 10000 20000 15] ping_check_wraps [of 20000 20050 15] by simp

subsection \<open>The send protocol\<close>

fun carried :: "sender \<Rightarrow> bytes multiset" where
  "carried (S_start f) = {#f#}"
| "carried (S_push f) = {#f#}"
| "carried (S_first f) = {#f#}"
| "carried S_swap = {#}"
| "carried (S_drain fs) = mset fs"
| "carried (S_done r) = {#}"

text \<open>A thread that holds the right to send.\<close>

fun active :: "sender \<Rightarrow> bool" where
  "active (S_first f) = True"
| "active S_swap = True"
| "active (S_drain fs) = True"
| "active _ = False"

definition one_sender :: "send_state \<Rightarrow> bool" where
  "one_sender s \<longleftrightarrow>
     (\<forall>i < length (senders s). \<forall>j < length (senders s). active (senders s ! i) \<and> active (senders s ! j) \<longrightarrow> i = j)
     \<and> (bf s = READY \<longrightarrow> (\<forall>i < length (senders s). \<not> active (senders s ! i)))"

definition frames_in :: "send_state \<Rightarrow> bytes multiset" where
  "frames_in s = mset (map fst (sent s)) + mset (lost s) + mset (pending s) + (\<Sum>p \<leftarrow> senders s. carried p)"

lemma sum_list_carried:
  assumes "i < length ps"
  shows "(\<Sum>p \<leftarrow> ps[i := q]. carried p) + carried (ps ! i) = (\<Sum>p \<leftarrow> ps. carried p) + carried q"
proof -
  have ps: "ps = take i ps @ ps ! i # drop (Suc i) ps" using assms by (simp add: id_take_nth_drop)
  have "(\<Sum>p \<leftarrow> ps[i := q]. carried p) = (\<Sum>p \<leftarrow> take i ps. carried p) + carried q + (\<Sum>p \<leftarrow> drop (Suc i) ps. carried p)"
    using assms by (simp add: upd_conv_take_nth_drop add.assoc)
  moreover have "(\<Sum>p \<leftarrow> ps. carried p) = (\<Sum>p \<leftarrow> take i ps. carried p) + carried (ps ! i) + (\<Sum>p \<leftarrow> drop (Suc i) ps. carried p)"
    by (subst ps) (simp add: add.assoc)
  ultimately show ?thesis by (simp add: ac_simps)
qed

lemma sender_goto_simps [simp]:
  "bf (goto i p s) = bf s" "pending (goto i p s) = pending s" "sent (goto i p s) = sent s" "lost (goto i p s) = lost s"
  "senders (goto i p s) = (senders s)[i := p]"
  by (simp_all add: goto_def)

lemma transmit_simps [simp]:
  "bf (transmit rt f s) = bf s" "pending (transmit rt f s) = pending s" "senders (transmit rt f s) = senders s"
  "mset (map fst (sent (transmit rt f s))) + mset (lost (transmit rt f s)) = add_mset f (mset (map fst (sent s)) + mset (lost s))"
  by (simp_all add: transmit_def)

lemma frames_goto:
  assumes "i < length (senders s)"
    "mset (map fst (sent t)) + mset (lost t) + mset (pending t) + carried p = mset (map fst (sent s)) + mset (lost s) + mset (pending s) + carried (senders s ! i)"
    "senders t = senders s"
  shows "frames_in (goto i p t) = frames_in s"
proof -
  have "frames_in (goto i p t) + carried (senders s ! i) =
      (mset (map fst (sent t)) + mset (lost t) + mset (pending t)) + ((\<Sum>p \<leftarrow> (senders s)[i := p]. carried p) + carried (senders s ! i))"
    using assms(3) by (simp add: frames_in_def add.assoc)
  also have "\<dots> = (mset (map fst (sent t)) + mset (lost t) + mset (pending t) + carried p) + (\<Sum>p \<leftarrow> senders s. carried p)"
    unfolding sum_list_carried [OF assms(1)] by (simp add: ac_simps)
  also have "\<dots> = frames_in s + carried (senders s ! i)"
    unfolding assms(2) by (simp add: frames_in_def ac_simps)
  finally show ?thesis by simp
qed

lemma frames_step: "frames_in (send_step e s) = frames_in s"
proof (cases "fst e < length (senders s)")
  case True
  let ?i = "fst e" and ?rt = "snd e"
  have "frames_in (sender_step ?i ?rt p s) = frames_in s" if p: "senders s ! ?i = p" for p
  proof (cases p)
    case (S_start f)
    then show ?thesis using p True by (auto intro!: frames_goto)
  next
    case (S_push f)
    then show ?thesis using p True by (auto intro!: frames_goto)
  next
    case (S_first f)
    then show ?thesis using p True transmit_simps(4) [of ?rt f s] by (auto intro!: frames_goto)
  next
    case S_swap
    then show ?thesis using p True by (auto intro!: frames_goto)
  next
    case (S_drain fs)
    then show ?thesis using p True
    proof (cases fs)
      case (Cons f gs)
      then show ?thesis using S_drain p True transmit_simps(4) [of ?rt f s] by (auto intro!: frames_goto)
    qed (auto intro!: frames_goto)
  qed simp
  then show ?thesis using True by (simp add: send_step_def)
qed (simp add: send_step_def)

lemma one_sender_goto:
  assumes "one_sender s" "i < length (senders s)" "senders t = senders s"
    and "active p \<Longrightarrow> (active (senders s ! i) \<or> bf s = READY) \<and> bf t = WAITING"
    and "\<not> active p \<Longrightarrow> bf t = bf s \<or> active (senders s ! i)"
  shows "one_sender (goto i p t)"
proof -
  let ?n = "length (senders s)"
  have a: "active ((senders s)[i := p] ! j) \<longleftrightarrow> (if j = i then active p else active (senders s ! j))" if "j < ?n" for j
    using that by simp
  have o: "\<And>j k. j < ?n \<Longrightarrow> k < ?n \<Longrightarrow> active (senders s ! j) \<Longrightarrow> active (senders s ! k) \<Longrightarrow> j = k"
    "\<And>j. bf s = READY \<Longrightarrow> j < ?n \<Longrightarrow> \<not> active (senders s ! j)"
    using assms(1) unfolding one_sender_def by blast+
  have "j = k" if "j < ?n" "k < ?n" "active ((senders s)[i := p] ! j)" "active ((senders s)[i := p] ! k)" for j k
    using that a [of j] a [of k] o(1) [of j k] o(1) [of j i] o(1) [of i k] o(2) [of j] o(2) [of k] assms(2,4) by (metis (full_types))
  moreover have "\<not> active ((senders s)[i := p] ! j)" if "bf t = READY" "j < ?n" for j
    using that a [of j] o(1) [of j i] o(2) [of j] assms(2,4,5) by (metis bf_state.distinct(1))
  ultimately show ?thesis using assms(3) unfolding one_sender_def by simp
qed

lemma one_sender_step:
  assumes "one_sender s"
  shows "one_sender (send_step e s)"
proof (cases "fst e < length (senders s)")
  case True
  let ?i = "fst e" and ?rt = "snd e"
  have w: "bf s = WAITING" if "active (senders s ! ?i)"
    using assms True that bf_state.exhaust unfolding one_sender_def by blast
  have "one_sender (sender_step ?i ?rt p s)" if p: "senders s ! ?i = p" for p
  proof (cases p)
    case (S_start f)
    then show ?thesis using p True assms by (auto intro!: one_sender_goto)
  next
    case (S_drain fs)
    then show ?thesis using p True assms w by (cases fs) (auto intro!: one_sender_goto)
  qed (use p True assms w in \<open>auto intro!: one_sender_goto\<close>)
  then show ?thesis using True by (simp add: send_step_def)
qed (use assms in \<open>simp add: send_step_def\<close>)

lemma senders_length: "length (senders (send_step e s)) = length (senders s)"
proof (cases "fst e < length (senders s)")
  case True
  then show ?thesis
    by (cases "(fst e, snd e, senders s ! fst e, s)" rule: sender_step.cases) (simp_all add: send_step_def)
qed (simp add: send_step_def)

lemma send_run_simps [simp]:
  "send_run [] s = s" "send_run (e # es) s = send_run es (send_step e s)" "send_run (es @ [e]) s = send_step e (send_run es s)"
  by (simp_all add: send_run_def)

lemma send_run_inv: "frames_in (send_run es s) = frames_in s" "one_sender s \<Longrightarrow> one_sender (send_run es s)"
  by (induction es arbitrary: s) (simp_all add: frames_step one_sender_step)

lemma send_frames_once_parts:
  defines "s fs es \<equiv> send_run es (send_init fs)"
  shows "one_sender (s fs es)"
    and "mset (map fst (sent (s fs es))) + mset (lost (s fs es)) + mset (pending (s fs es)) \<subseteq># mset fs"
    and "(\<forall>p \<in> set (senders (s fs es)). \<exists>r. p = S_done r) \<longrightarrow> mset (map fst (sent (s fs es))) + mset (lost (s fs es)) + mset (pending (s fs es)) = mset fs"
proof -
  have "one_sender (send_init fs)" by (simp add: one_sender_def send_init_def)
  then show "one_sender (s fs es)" by (simp add: s_def send_run_inv)
  have "(\<Sum>p \<leftarrow> map S_start fs. carried p) = mset fs" by (induction fs) simp_all
  then have "frames_in (send_init fs) = mset fs" by (simp add: frames_in_def send_init_def)
  then have f: "frames_in (s fs es) = mset fs" by (simp add: s_def send_run_inv)
  then show "mset (map fst (sent (s fs es))) + mset (lost (s fs es)) + mset (pending (s fs es)) \<subseteq># mset fs"
    unfolding frames_in_def by (metis mset_subset_eq_add_left)
  have z: "\<forall>p \<in> set ps. \<exists>r. p = S_done r \<Longrightarrow> (\<Sum>p \<leftarrow> ps. carried p) = {#}" for ps
    by (induction ps) auto
  show "(\<forall>p \<in> set (senders (s fs es)). \<exists>r. p = S_done r) \<longrightarrow> mset (map fst (sent (s fs es))) + mset (lost (s fs es)) + mset (pending (s fs es)) = mset fs"
    using f z [of "senders (s fs es)"] by (auto simp: frames_in_def)
qed

text \<open>
  C15. However any number of coroutines that send one frame each on a session interleave, and whatever the socket returns: at most
  one of them sends at any time; no frame is handed to the socket twice; and when all have returned, every frame was handed to the socket
  once, which took it whole or, unnoticed, in part, or failed to be sent, or is still in \<^verbatim>\<open>m_send_buffer\<close>.
\<close>

theorem send_frames_once:
  "let s = send_run es (send_init fs) in
     one_sender s \<and> mset (map fst (sent s)) + mset (lost s) + mset (pending s) \<subseteq># mset fs
     \<and> ((\<forall>p \<in> set (senders s). \<exists>r. p = S_done r) \<longrightarrow> mset (map fst (sent s)) + mset (lost s) + mset (pending s) = mset fs)"
  unfolding Let_def by (intro conjI send_frames_once_parts)

theorem send_frames_once_witness:
  "sent (send_run [(0, 0), (1, 0), (1, 0), (0, 3), (0, 0), (0, 1), (0, 0), (0, 0)] (send_init [[1, 1, 1], [2, 2]])) = [([1, 1, 1], 3), ([2, 2], 1)]
   \<and> mset (map fst (sent (send_run [(0, 0), (1, 0), (1, 0), (0, 3), (0, 0), (0, 1), (0, 0), (0, 0)] (send_init [[1, 1, 1], [2, 2]])))) = mset [[1, 1, 1], [2, 2]]"
  using send_frames_once [of "[(0, 0), (1, 0), (1, 0), (0, 3), (0, 0), (0, 1), (0, 0), (0, 0)]" "[[1, 1, 1], [2, 2]]"]
  by (simp add: send_init_def send_step_def goto_def transmit_def)

text \<open>Nobody holds the right to send, but it is marked as taken.\<close>

definition blocked :: "send_state \<Rightarrow> bool" where
  "blocked s \<longleftrightarrow> bf s = WAITING \<and> (\<forall>p \<in> set (senders s). \<not> active p)"

lemma blocked_step:
  assumes "blocked s"
  shows "blocked (send_step e s) \<and> sent (send_step e s) = sent s \<and> lost (send_step e s) = lost s"
proof (cases "fst e < length (senders s)")
  case True
  let ?p = "senders s ! fst e"
  have na: "\<not> active ?p" using assms True by (simp add: blocked_def)
  have b: "blocked (goto (fst e) q t)" if "\<not> active q" "bf t = bf s" "senders t = senders s" for q t
    using assms that set_update_subset_insert [of "senders s" "fst e" q] by (auto simp: blocked_def)
  show ?thesis using True na assms
    by (cases ?p) (auto simp: send_step_def blocked_def [of s] intro!: b)
qed (use assms in \<open>simp add: send_step_def\<close>)

text \<open>
  Frames can be left behind. When a coroutine finds the right to send taken and the sender finds
  the queue empty before the frame is queued, the frame stays in the queue although both calls
  succeed; and after the first frame of a sender failed to be sent the right to send is never given
  back, so that no frame goes out any more.
\<close>

theorem frames_left_behind:
  "send_run [(0, 0), (1, 0), (0, n), (0, 0), (1, 0)] (send_init [f, g]) =
     \<lparr>bf = READY, pending = [g], sent = [(f, nat n)], lost = [], senders = [S_done 0, S_done 0]\<rparr> \<or> n = -1"
  "sent (send_run es (send_run [(0, 0), (0, -1)] (send_init (f # fs)))) = []"
proof -
  show "send_run [(0, 0), (1, 0), (0, n), (0, 0), (1, 0)] (send_init [f, g]) =
     \<lparr>bf = READY, pending = [g], sent = [(f, nat n)], lost = [], senders = [S_done 0, S_done 0]\<rparr> \<or> n = -1"
    by (simp add: send_init_def send_step_def goto_def transmit_def)
  let ?s = "send_run [(0, 0), (0, -1)] (send_init (f # fs))"
  have "blocked ?s" "sent ?s = []"
    by (auto simp: send_init_def send_step_def goto_def transmit_def blocked_def)
  moreover have "blocked s \<Longrightarrow> sent (send_run es s) = sent s" for s
    by (induction es arbitrary: s) (use blocked_step in auto)
  ultimately show "sent (send_run es ?s) = []" by simp
qed

end
