(* ===== verification/Base64.thy ===== *)
theory Base64
  imports Prelude
begin

unbundle bit_operations_syntax

section \<open>Base64 (protocol/websocket/base64)\<close>

text \<open>
  The encoder and decoder used by the WebSocket handshake. Characters are bytes (ASCII). The
  loops keep the first \<open>i\<close> entries of their work array as a list; what they store into it is
  cut to eight bits by the byte type.
\<close>

definition ascii :: "string \<Rightarrow> bytes" where
  "ascii s = map (\<lambda>c. of_nat (of_char c)) s"

definition base64_chars :: bytes where
  "base64_chars = ascii ''ABCDEFGHIJKLMNOPQRSTUVWXYZabcdefghijklmnopqrstuvwxyz0123456789+/''"

text \<open>\<^verbatim>\<open>isalnum\<close> in the C locale.\<close>

definition isalnum :: "byte \<Rightarrow> bool" where
  "isalnum c \<longleftrightarrow> 48 \<le> c \<and> c \<le> 57 \<or> 65 \<le> c \<and> c \<le> 90 \<or> 97 \<le> c \<and> c \<le> 122"

definition is_base64 :: "byte \<Rightarrow> bool" where
  "is_base64 c \<longleftrightarrow> isalnum c \<or> c = 43 \<or> c = 47"

text \<open>\<^verbatim>\<open>base64_chars.find(c)\<close> cast to \<^verbatim>\<open>unsigned char\<close>; \<^verbatim>\<open>npos\<close> becomes 255.\<close>

fun find_from :: "byte \<Rightarrow> byte \<Rightarrow> bytes \<Rightarrow> byte" where
  "find_from c k [] = 255"
| "find_from c k (x # xs) = (if x = c then k else find_from c (k + 1) xs)"

definition find64 :: "byte \<Rightarrow> byte" where
  "find64 c = find_from c 0 base64_chars"

definition quad :: "byte \<Rightarrow> byte \<Rightarrow> byte \<Rightarrow> bytes" where
  "quad a b c = [drop_bit 2 (a AND 0xfc), push_bit 4 (a AND 0x03) + drop_bit 4 (b AND 0xf0),
     push_bit 2 (b AND 0x0f) + drop_bit 6 (c AND 0xc0), c AND 0x3f]"

definition char64 :: "byte \<Rightarrow> byte" where
  "char64 v = base64_chars ! unat v"

fun b64_encode_loop :: "bytes \<Rightarrow> bytes \<Rightarrow> bytes \<Rightarrow> bytes \<times> bytes" where
  "b64_encode_loop [] array3 ret = (array3, ret)"
| "b64_encode_loop (b # bs) array3 ret =
     (case array3 @ [b] of
        [x, y, z] \<Rightarrow> b64_encode_loop bs [] (ret @ map char64 (quad x y z))
      | arr \<Rightarrow> b64_encode_loop bs arr ret)"

definition base64_encode :: "bytes \<Rightarrow> bytes" where
  "base64_encode bs =
     (let (array3, ret) = b64_encode_loop bs [] []; i = length array3
      in if i \<noteq> 0
         then (let arr = array3 @ replicate (3 - i) 0
               in ret @ take (i + 1) (map char64 (quad (arr ! 0) (arr ! 1) (arr ! 2))) @ replicate (3 - i) 61)
         else ret)"

definition triple :: "byte \<Rightarrow> byte \<Rightarrow> byte \<Rightarrow> byte \<Rightarrow> bytes" where
  "triple w x y z = [push_bit 2 w + drop_bit 4 (x AND 0x30),
     push_bit 4 (x AND 0xf) + drop_bit 2 (y AND 0x3c), push_bit 6 (y AND 0x3) + z]"

fun b64_decode_loop :: "bytes \<Rightarrow> bytes \<Rightarrow> bytes \<Rightarrow> bytes \<times> bytes" where
  "b64_decode_loop [] array4 ret = (array4, ret)"
| "b64_decode_loop (c # cs) array4 ret =
     (if c = 61 \<or> \<not> is_base64 c then (array4, ret)
      else (case array4 @ [c] of
              [w, x, y, z] \<Rightarrow> b64_decode_loop cs [] (ret @ triple (find64 w) (find64 x) (find64 y) (find64 z))
            | arr \<Rightarrow> b64_decode_loop cs arr ret))"

definition base64_decode :: "bytes \<Rightarrow> bytes" where
  "base64_decode s =
     (let (array4, ret) = b64_decode_loop s [] []; i = length array4
      in if i \<noteq> 0
         then (let arr = array4 @ replicate (4 - i) 0
               in ret @ take (i - 1) (triple (find64 (arr ! 0)) (find64 (arr ! 1)) (find64 (arr ! 2)) (find64 (arr ! 3))))
         else ret)"

subsection \<open>The bit operations as arithmetic\<close>

lemma byte_bound: "unat (b :: byte) < 256"
  using unsigned_less [of b] by simp

lemma unat_field:
  fixes b m :: byte
  shows "drop_bit n m = mask k \<Longrightarrow> unat (drop_bit n (b AND m)) = unat b div 2 ^ n mod 2 ^ k"
    and "m = mask k \<Longrightarrow> unat (b AND m) = unat b mod 2 ^ k"
    and "m = mask k \<Longrightarrow> k + n \<le> 8 \<Longrightarrow> unat (push_bit n (b AND m)) = unat b mod 2 ^ k * 2 ^ n"
proof -
  show "unat (drop_bit n (b AND m)) = unat b div 2 ^ n mod 2 ^ k" if "drop_bit n m = mask k"
  proof -
    have "drop_bit n (b AND m) = take_bit k (drop_bit n b)" using that by (simp add: drop_bit_and take_bit_eq_mask)
    then have "unat (drop_bit n (b AND m)) = take_bit k (drop_bit n (take_bit 8 (unat b)))"
      by (simp only: unsigned_take_bit_eq unsigned_drop_bit_eq) simp
    then show ?thesis using byte_bound [of b] by (simp add: take_bit_eq_mod drop_bit_eq_div)
  qed
  show a: "unat (b AND m) = unat b mod 2 ^ k" if "m = mask k"
  proof -
    have "unat (b AND m) = take_bit k (unat b)" by (simp only: that take_bit_eq_mask [symmetric] unsigned_take_bit_eq)
    then show ?thesis by (simp add: take_bit_eq_mod)
  qed
  show "unat (push_bit n (b AND m)) = unat b mod 2 ^ k * 2 ^ n" if "m = mask k" "k + n \<le> 8"
  proof -
    have "unat b mod 2 ^ k * 2 ^ n < 2 ^ k * 2 ^ n" by simp
    also have "\<dots> = (2 ^ (k + n) :: nat)" by (simp add: power_add)
    also have "\<dots> \<le> 2 ^ 8" using that(2) by (intro power_increasing) simp_all
    finally have "unat b mod 2 ^ k * 2 ^ n < 256" by simp
    moreover have "unat (push_bit n (b AND m)) = take_bit 8 (push_bit n (unat b mod 2 ^ k))"
      unfolding unsigned_push_bit_eq a [OF that(1)] by simp
    ultimately show ?thesis by (simp add: push_bit_eq_mult take_bit_nat_eq_self)
  qed
qed

lemma quad_parts:
  fixes b :: byte
  shows "unat (drop_bit 2 (b AND 0xfc)) = unat b div 4" "unat (push_bit 4 (b AND 0x03)) = unat b mod 4 * 16"
    "unat (drop_bit 4 (b AND 0xf0)) = unat b div 16" "unat (push_bit 2 (b AND 0x0f)) = unat b mod 16 * 4"
    "unat (drop_bit 6 (b AND 0xc0)) = unat b div 64" "unat (b AND 0x3f) = unat b mod 64"
proof -
  have m: "drop_bit 2 0xfc = (mask 6 :: byte)" "(0x03 :: byte) = mask 2" "drop_bit 4 0xf0 = (mask 4 :: byte)" "(0x0f :: byte) = mask 4"
    "drop_bit 6 0xc0 = (mask 2 :: byte)" "(0x3f :: byte) = mask 6" by code_simp+
  show "unat (drop_bit 2 (b AND 0xfc)) = unat b div 4" "unat (push_bit 4 (b AND 0x03)) = unat b mod 4 * 16"
    "unat (drop_bit 4 (b AND 0xf0)) = unat b div 16" "unat (push_bit 2 (b AND 0x0f)) = unat b mod 16 * 4"
    "unat (drop_bit 6 (b AND 0xc0)) = unat b div 64" "unat (b AND 0x3f) = unat b mod 64"
    using unat_field(1) [OF m(1), of b] unat_field(3) [OF m(2), of 4 b] unat_field(1) [OF m(3), of b]
      unat_field(3) [OF m(4), of 2 b] unat_field(1) [OF m(5), of b] unat_field(2) [OF m(6), of b] byte_bound [of b]
    by simp_all
qed

lemma triple_parts:
  fixes b :: byte
  shows "unat b < 64 \<Longrightarrow> unat (push_bit 2 b) = unat b * 4" "unat (drop_bit 4 (b AND 0x30)) = unat b div 16 mod 4"
    "unat (push_bit 4 (b AND 0xf)) = unat b mod 16 * 16" "unat (drop_bit 2 (b AND 0x3c)) = unat b div 4 mod 16"
    "unat (push_bit 6 (b AND 0x3)) = unat b mod 4 * 64"
proof -
  have m: "drop_bit 4 0x30 = (mask 2 :: byte)" "(0xf :: byte) = mask 4" "drop_bit 2 0x3c = (mask 4 :: byte)" "(0x3 :: byte) = mask 2"
    by code_simp+
  show "unat b < 64 \<Longrightarrow> unat (push_bit 2 b) = unat b * 4"
    by (simp add: push_bit_eq_mult unat_word_ariths)
  show "unat (drop_bit 4 (b AND 0x30)) = unat b div 16 mod 4"
    "unat (push_bit 4 (b AND 0xf)) = unat b mod 16 * 16" "unat (drop_bit 2 (b AND 0x3c)) = unat b div 4 mod 16"
    "unat (push_bit 6 (b AND 0x3)) = unat b mod 4 * 64"
    using unat_field(1) [OF m(1), of b] unat_field(3) [OF m(2), of 4 b] unat_field(1) [OF m(3), of b] unat_field(3) [OF m(4), of 6 b]
    by simp_all
qed

lemma unat_byte_add: "unat a + unat b < 256 \<Longrightarrow> unat (a + b :: byte) = unat a + unat b"
  by (simp add: unat_word_ariths)

lemma quad_values:
  "map unat (quad a b c) = [unat a div 4, unat a mod 4 * 16 + unat b div 16, unat b mod 16 * 4 + unat c div 64, unat c mod 64]"
proof -
  have d: "unat b div 16 < 16" "unat c div 64 < 4" using byte_bound [of b] byte_bound [of c] by simp_all
  have e: "unat a mod 4 < 4" "unat b mod 16 < 16" by simp_all
  have "unat (push_bit 4 (a AND 0x03) + drop_bit 4 (b AND 0xf0)) = unat a mod 4 * 16 + unat b div 16"
    using d(1) e(1) by (subst unat_byte_add; unfold quad_parts) linarith+
  moreover have "unat (push_bit 2 (b AND 0x0f) + drop_bit 6 (c AND 0xc0)) = unat b mod 16 * 4 + unat c div 64"
    using d(2) e(2) by (subst unat_byte_add; unfold quad_parts) linarith+
  ultimately show ?thesis unfolding quad_def list.map quad_parts by simp
qed

text \<open>The first two bytes do not depend on what stands in the places of missing characters.\<close>

lemma triple_prefix:
  assumes "unat w < 64" "unat x < 64"
  shows "unat (triple w x y z ! 0) = unat w * 4 + unat x div 16"
    and "unat y < 64 \<Longrightarrow> unat (triple w x y z ! 1) = unat x mod 16 * 16 + unat y div 4"
    and "unat y < 64 \<Longrightarrow> unat z < 64 \<Longrightarrow> unat (triple w x y z ! 2) = unat y mod 4 * 64 + unat z"
proof -
  have d: "unat x div 16 mod 4 = unat x div 16" "unat x div 16 < 4" "unat x mod 16 < 16" "unat y mod 4 < 4"
    using assms(2) by simp_all
  have s: "triple w x y z ! 0 = push_bit 2 w + drop_bit 4 (x AND 0x30)"
    "triple w x y z ! 1 = push_bit 4 (x AND 0xf) + drop_bit 2 (y AND 0x3c)" "triple w x y z ! 2 = push_bit 6 (y AND 0x3) + z"
    unfolding triple_def by (simp_all only: nth_Cons_0 nth_Cons_Suc One_nat_def numeral_2_eq_2)
  have "unat (push_bit 2 w) + unat (drop_bit 4 (x AND 0x30)) = unat w * 4 + unat x div 16"
    unfolding triple_parts(1) [OF assms(1)] triple_parts(2) d(1) ..
  then show "unat (triple w x y z ! 0) = unat w * 4 + unat x div 16"
    unfolding s using unat_byte_add [of "push_bit 2 w" "drop_bit 4 (x AND 0x30)"] d(2) assms(1) by linarith
  show "unat (triple w x y z ! 1) = unat x mod 16 * 16 + unat y div 4" if "unat y < 64"
  proof -
    have y: "unat y div 4 mod 16 = unat y div 4" "unat y div 4 < 16" using that by simp_all
    have "unat (push_bit 4 (x AND 0xf)) + unat (drop_bit 2 (y AND 0x3c)) = unat x mod 16 * 16 + unat y div 4"
      unfolding triple_parts(3,4) y(1) ..
    then show ?thesis
      unfolding s using unat_byte_add [of "push_bit 4 (x AND 0xf)" "drop_bit 2 (y AND 0x3c)"] d(3) y(2) by linarith
  qed
  show "unat (triple w x y z ! 2) = unat y mod 4 * 64 + unat z" if "unat z < 64"
    unfolding s using unat_byte_add [of "push_bit 6 (y AND 0x3)" z] triple_parts(5) [of y] d(4) that by linarith
qed

lemma quad_small: "v \<in> set (quad a b c) \<Longrightarrow> unat v < 64"
proof -
  assume "v \<in> set (quad a b c)"
  then have "unat v \<in> set (map unat (quad a b c))" by simp
  moreover have "unat b div 16 < 16" "unat c div 64 < 4" "unat a mod 4 < 4" "unat b mod 16 < 16" "unat a div 4 < 64" "unat c mod 64 < 64"
    using byte_bound [of a] byte_bound [of b] byte_bound [of c] by simp_all
  ultimately show ?thesis unfolding quad_values by auto
qed

lemma base64_chars_eq: "base64_chars =
    [65, 66, 67, 68, 69, 70, 71, 72, 73, 74, 75, 76, 77, 78, 79, 80, 81, 82, 83, 84, 85, 86, 87, 88, 89,
     90, 97, 98, 99, 100, 101, 102, 103, 104, 105, 106, 107, 108, 109, 110, 111, 112, 113, 114, 115,
     116, 117, 118, 119, 120, 121, 122, 48, 49, 50, 51, 52, 53, 54, 55, 56, 57, 43, 47]"
  by code_simp

lemma find_from_nth:
  "distinct xs \<Longrightarrow> n < length xs \<Longrightarrow> find_from (xs ! n) k xs = k + of_nat n"
proof (induction xs arbitrary: n k)
  case (Cons x xs)
  then show ?case by (cases n) (auto simp: algebra_simps)
qed simp

lemma base64_chars_facts:
  "length base64_chars = 64" "distinct base64_chars" "list_all is_base64 base64_chars" "61 \<notin> set base64_chars"
  unfolding base64_chars_eq by (simp_all add: is_base64_def isalnum_def)

lemma char64_ok:
  assumes "unat v < 64"
  shows "find64 (char64 v) = v" "is_base64 (char64 v)" "char64 v \<noteq> 61"
proof -
  have mem: "char64 v \<in> set base64_chars" using assms base64_chars_facts(1) by (simp add: char64_def)
  then show "is_base64 (char64 v)" "char64 v \<noteq> 61"
    using base64_chars_facts(3,4) by (auto simp: list_all_iff)
  show "find64 (char64 v) = v"
    using find_from_nth [OF base64_chars_facts(2), of "unat v" 0] assms base64_chars_facts(1)
    by (simp add: find64_def char64_def)
qed

text \<open>Decoding undoes encoding, on each group.\<close>

lemma group_inverse:
  assumes "quad a b c = [w, x, y, z]"
  shows "triple w x y z = [a, b, c]" "triple w x y' z' ! 0 = a" "triple w x y z' ! 1 = b"
proof -
  have v: "unat w = unat a div 4" "unat x = unat a mod 4 * 16 + unat b div 16"
    "unat y = unat b mod 16 * 4 + unat c div 64" "unat z = unat c mod 64"
    using quad_values [of a b c] assms by simp_all
  have l: "unat w < 64" "unat x < 64" "unat y < 64" "unat z < 64" using quad_small [of _ a b c] assms by simp_all
  have d: "unat b div 16 < 16" "unat c div 64 < 4" using byte_bound [of b] byte_bound [of c] by simp_all
  show 0: "triple w x y' z' ! 0 = a" for y' z'
  proof -
    have "unat x div 16 = unat a mod 4" using v(2) d(1) by simp
    then have "unat (triple w x y' z' ! 0) = unat a" using triple_prefix(1) [OF l(1,2), of y' z'] v(1) by simp
    then show ?thesis by (rule unsigned_word_eqI)
  qed
  show 1: "triple w x y z' ! 1 = b" for z'
  proof -
    have "unat x mod 16 = unat b div 16" "unat y div 4 = unat b mod 16" using v(2,3) d by simp_all
    then have "unat (triple w x y z' ! 1) = unat b" using triple_prefix(2) [OF l(1,2,3), of z'] by simp
    then show ?thesis by (rule unsigned_word_eqI)
  qed
  have "unat y mod 4 = unat c div 64" using v(3) d(2) by simp
  then have "unat (triple w x y z ! 2) = unat c" using triple_prefix(3) [OF l] v(4) by simp
  then have 2: "triple w x y z ! 2 = c" by (rule unsigned_word_eqI)
  have "triple w x y z = [triple w x y z ! 0, triple w x y z ! 1, triple w x y z ! 2]" by (simp add: triple_def)
  then show "triple w x y z = [a, b, c]" unfolding 0 1 2 .
qed

subsection \<open>Round trip\<close>

fun groups :: "bytes \<Rightarrow> nat" where
  "groups (a # b # c # bs) = Suc (groups bs)"
| "groups [] = 0"
| "groups [a] = 0"
| "groups [a, b] = 0"

lemma b64_encode_loop_ret:
  "b64_encode_loop bs [] ret = (fst (b64_encode_loop bs [] []), ret @ snd (b64_encode_loop bs [] []))"
proof (induction bs arbitrary: ret rule: groups.induct)
  case (1 a b c bs)
  show ?case
    using "1.IH" [of "ret @ map char64 (quad a b c)"] "1.IH" [of "map char64 (quad a b c)"] by simp
qed simp_all

lemma base64_encode_group:
  "base64_encode (a # b # c # bs) = map char64 (quad a b c) @ base64_encode bs"
proof -
  have "b64_encode_loop (a # b # c # bs) [] [] = (fst (b64_encode_loop bs [] []), map char64 (quad a b c) @ snd (b64_encode_loop bs [] []))"
    using b64_encode_loop_ret [of bs "map char64 (quad a b c)"] by simp
  then show ?thesis by (simp add: base64_encode_def case_prod_unfold Let_def)
qed

definition finish :: "bytes \<times> bytes \<Rightarrow> bytes" where
  "finish ar =
     (let (array4, ret) = ar; i = length array4
      in if i \<noteq> 0
         then (let arr = array4 @ replicate (4 - i) 0
               in ret @ take (i - 1) (triple (find64 (arr ! 0)) (find64 (arr ! 1)) (find64 (arr ! 2)) (find64 (arr ! 3))))
         else ret)"

lemma base64_decode_finish: "base64_decode s = finish (b64_decode_loop s [] [])"
  by (simp add: base64_decode_def finish_def Let_def)

lemma quad_cases:
  obtains w x y z where "quad a b c = [w, x, y, z]" "unat w < 64" "unat x < 64" "unat y < 64" "unat z < 64"
proof -
  obtain w x y z where q: "quad a b c = [w, x, y, z]" unfolding quad_def by blast
  then show ?thesis using that quad_small [of _ a b c] by simp
qed

lemma decode_encode:
  "finish (b64_decode_loop (base64_encode bs) [] ret) = ret @ bs"
proof (induction bs arbitrary: ret rule: groups.induct)
  case (1 a b c bs)
  obtain w x y z where q: "quad a b c = [w, x, y, z]" "unat w < 64" "unat x < 64" "unat y < 64" "unat z < 64" by (rule quad_cases)
  show ?case
    using "1.IH" [of "ret @ [a, b, c]"] q(2-) group_inverse(1) [OF q(1)]
    by (simp add: base64_encode_group q(1) char64_ok)
next
  case 2
  then show ?case by (simp add: base64_encode_def finish_def)
next
  case (3 a)
  obtain w x y z where q: "quad a 0 0 = [w, x, y, z]" "unat w < 64" "unat x < 64" by (rule quad_cases)
  have t: "take 1 (triple w x (find64 0) (find64 0)) = [a]"
    using group_inverse(2) [OF q(1)] by (simp add: triple_def)
  have "base64_encode [a] = [char64 w, char64 x, 61, 61]" by (simp add: base64_encode_def q(1) numeral_2_eq_2)
  then show ?case using q(2,3) t by (simp add: char64_ok finish_def numeral_3_eq_3)
next
  case (4 a b)
  obtain w x y z where q: "quad a b 0 = [w, x, y, z]" "unat w < 64" "unat x < 64" "unat y < 64" by (rule quad_cases)
  have t: "take 2 (triple w x y (find64 0)) = [a, b]"
    using group_inverse(2,3) [OF q(1)] by (simp add: triple_def)
  have "base64_encode [a, b] = [char64 w, char64 x, char64 y, 61]" by (simp add: base64_encode_def q(1))
  then show ?case using q(2-4) t by (simp add: char64_ok finish_def numeral_2_eq_2)
qed

text \<open>
  Decoding what was encoded gives back the bytes, for every byte string; the encoding consists
  of base64 characters and padding and is four characters long for every started group of
  three bytes.
\<close>

theorem base64_roundtrip:
  "base64_decode (base64_encode bs) = bs \<and> length (base64_encode bs) = (length bs + 2) div 3 * 4 \<and>
   (\<forall>c\<in>set (base64_encode bs). is_base64 c \<or> c = 61)"
proof (intro conjI)
  show "base64_decode (base64_encode bs) = bs" using decode_encode [of bs "[]"] by (simp add: base64_decode_finish)
  show "length (base64_encode bs) = (length bs + 2) div 3 * 4"
  proof (induction bs rule: groups.induct)
    case (1 a b c bs)
    have "length (map char64 (quad a b c)) = 4" by (simp add: quad_def)
    moreover have "(length (a # b # c # bs) + 2) div 3 = Suc ((length bs + 2) div 3)" by simp
    ultimately show ?case using "1.IH" by (simp add: base64_encode_group)
  qed (simp_all add: base64_encode_def quad_def)
  show "\<forall>c\<in>set (base64_encode bs). is_base64 c \<or> c = 61"
  proof (induction bs rule: groups.induct)
    case (1 a b c bs)
    then show ?case using quad_small [of _ a b c] char64_ok(2) by (auto simp: base64_encode_group)
  next
    case (3 a)
    show ?case using quad_small [of _ a 0 0] char64_ok(2) by (auto simp: base64_encode_def dest!: in_set_takeD)
  next
    case (4 a b)
    show ?case using quad_small [of _ a b 0] char64_ok(2) by (auto simp: base64_encode_def dest!: in_set_takeD)
  qed (simp add: base64_encode_def)
qed

theorem base64_roundtrip_witness:
  "base64_encode [77, 97, 110, 33] = ascii ''TWFuIQ=='' \<and> base64_decode (ascii ''TWFuIQ=='') = [77, 97, 110, 33] \<and>
   is_base64 84"
proof -
  have q: "quad 77 97 110 = [19, 22, 5, 46]" "quad 33 0 0 = [8, 16, 0, 0]" by (simp_all add: quad_def)
  have c: "char64 19 = 84" "char64 22 = 87" "char64 5 = 70" "char64 46 = 117" "char64 8 = 73" "char64 16 = 81" "char64 0 = 65"
    by (simp_all add: char64_def base64_chars_eq)
  have "base64_encode [33] = [73, 81, 61, 61]" by (simp add: base64_encode_def q c numeral_2_eq_2)
  then have e: "base64_encode [77, 97, 110, 33] = [84, 87, 70, 117, 73, 81, 61, 61]"
    by (simp add: base64_encode_group q c)
  have a: "ascii ''TWFuIQ=='' = [84, 87, 70, 117, 73, 81, 61, 61]" by (simp add: ascii_def)
  have r: "base64_decode [84, 87, 70, 117, 73, 81, 61, 61] = [77, 97, 110, 33]"
    "is_base64 84 \<or> 84 = (61 :: byte)"
    using base64_roundtrip [of "[77, 97, 110, 33]"] unfolding e by simp_all
  from r(2) have "is_base64 84" by simp
  then show ?thesis unfolding e a using r(1) by blast
qed

subsection \<open>The standard\<close>

text \<open>
  The encoding as RFC 4648 (section 4) describes it, on bits and without the tables and loops above: the bytes are one
  stream of bits, most significant bit first, cut into groups of six, the last one filled up with zero bits; every group
  is a number whose character stands at that place of \<open>A-Z a-z 0-9 + /\<close>; and \<open>=\<close> fills the text up to a multiple of four
  characters.
\<close>

definition byte_bits :: "byte \<Rightarrow> bool list" where
  "byte_bits b = map (bit b) [7, 6, 5, 4, 3, 2, 1, 0]"

definition bits_value :: "bool list \<Rightarrow> nat" where
  "bits_value bs = foldl (\<lambda>n b. 2 * n + of_bool b) 0 bs"

fun sextets :: "bool list \<Rightarrow> bool list list" where
  "sextets (a # b # c # d # e # f # bs) = [a, b, c, d, e, f] # sextets bs"
| "sextets [] = []"
| "sextets bs = [bs @ replicate (6 - length bs) False]"

definition rfc4648_char :: "nat \<Rightarrow> byte" where
  "rfc4648_char v =
     (if v < 26 then of_nat (65 + v) else if v < 52 then of_nat (97 + (v - 26)) else if v < 62 then of_nat (48 + (v - 52))
      else if v = 62 then 43 else 47)"

definition rfc4648 :: "bytes \<Rightarrow> bytes" where
  "rfc4648 bs =
     (let text = map (\<lambda>g. rfc4648_char (bits_value g)) (sextets (concat (map byte_bits bs)))
      in text @ replicate ((4 - length text mod 4) mod 4) 61)"

lemma char64_rfc4648: "unat v < 64 \<Longrightarrow> char64 v = rfc4648_char (unat v)"
proof -
  have "\<forall>k \<in> {0 ..< 64}. base64_chars ! k = rfc4648_char k"
    unfolding base64_chars_eq by code_simp
  then show "unat v < 64 \<Longrightarrow> char64 v = rfc4648_char (unat v)" by (simp add: char64_def)
qed

lemma unat_bits:
  "unat (b :: byte) = of_bool (bit b 0) + 2 * of_bool (bit b 1) + 4 * of_bool (bit b 2) + 8 * of_bool (bit b 3) + 16 * of_bool (bit b 4) +
     32 * of_bool (bit b 5) + 64 * of_bool (bit b 6) + 128 * of_bool (bit b 7)"
proof -
  have "unat b = horner_sum of_bool 2 (map (bit b) [0 ..< 8])"
    using horner_sum_bit_eq_take_bit [of "unat b" 8] byte_bound [of b]
    by (simp add: take_bit_nat_eq_self bit_unsigned_iff cong: map_cong)
  moreover have "[0 ..< 8] = [0, 1, 2, 3, 4, 5, 6, 7]" by code_simp
  ultimately show ?thesis by simp
qed

lemma bits_value_split:
  "unat b = bits_value [bit b 7, bit b 6, bit b 5, bit b 4, bit b 3, bit b 2] * 4 + bits_value [bit b 1, bit b 0]"
  "unat b = bits_value [bit b 7, bit b 6, bit b 5, bit b 4] * 16 + bits_value [bit b 3, bit b 2, bit b 1, bit b 0]"
  "unat b = bits_value [bit b 7, bit b 6] * 64 + bits_value [bit b 5, bit b 4, bit b 3, bit b 2, bit b 1, bit b 0]"
  for b :: byte
  by (simp_all add: unat_bits bits_value_def)

lemma bits_value_bound: "bits_value bs < 2 ^ length bs"
  unfolding bits_value_def by (induction bs rule: rev_induct) auto

lemma bits_value_halves:
  fixes b :: byte
  shows "unat b div 4 = bits_value [bit b 7, bit b 6, bit b 5, bit b 4, bit b 3, bit b 2]" "unat b mod 4 = bits_value [bit b 1, bit b 0]"
    "unat b div 16 = bits_value [bit b 7, bit b 6, bit b 5, bit b 4]" "unat b mod 16 = bits_value [bit b 3, bit b 2, bit b 1, bit b 0]"
    "unat b div 64 = bits_value [bit b 7, bit b 6]" "unat b mod 64 = bits_value [bit b 5, bit b 4, bit b 3, bit b 2, bit b 1, bit b 0]"
  subgoal using bits_value_split(1) [of b] bits_value_bound [of "[bit b 1, bit b 0]"] by simp
  subgoal using bits_value_split(1) [of b] bits_value_bound [of "[bit b 1, bit b 0]"] by simp
  subgoal using bits_value_split(2) [of b] bits_value_bound [of "[bit b 3, bit b 2, bit b 1, bit b 0]"] by simp
  subgoal using bits_value_split(2) [of b] bits_value_bound [of "[bit b 3, bit b 2, bit b 1, bit b 0]"] by simp
  subgoal using bits_value_split(3) [of b] bits_value_bound [of "[bit b 5, bit b 4, bit b 3, bit b 2, bit b 1, bit b 0]"] by simp
  subgoal using bits_value_split(3) [of b] bits_value_bound [of "[bit b 5, bit b 4, bit b 3, bit b 2, bit b 1, bit b 0]"] by simp
  done

text \<open>The four numbers of a group of three bytes are the four sextets of its bits.\<close>

lemma quad_sextets:
  "map char64 (quad a b c) =
     map (\<lambda>g. rfc4648_char (bits_value g))
       [[bit a 7, bit a 6, bit a 5, bit a 4, bit a 3, bit a 2], [bit a 1, bit a 0, bit b 7, bit b 6, bit b 5, bit b 4],
        [bit b 3, bit b 2, bit b 1, bit b 0, bit c 7, bit c 6], [bit c 5, bit c 4, bit c 3, bit c 2, bit c 1, bit c 0]]"
proof -
  have "map char64 (quad a b c) = map rfc4648_char (map unat (quad a b c))" using quad_small char64_rfc4648 by simp
  moreover have "bits_value [bit a 1, bit a 0] * 16 + bits_value [bit b 7, bit b 6, bit b 5, bit b 4] =
      bits_value [bit a 1, bit a 0, bit b 7, bit b 6, bit b 5, bit b 4]"
    "bits_value [bit b 3, bit b 2, bit b 1, bit b 0] * 4 + bits_value [bit c 7, bit c 6] =
      bits_value [bit b 3, bit b 2, bit b 1, bit b 0, bit c 7, bit c 6]"
    by (simp_all add: bits_value_def)
  ultimately show ?thesis unfolding quad_values bits_value_halves by simp
qed

lemma rfc4648_group: "rfc4648 (a # b # c # bs) = map char64 (quad a b c) @ rfc4648 bs"
  unfolding quad_sextets by (simp add: rfc4648_def byte_bits_def Let_def)

text \<open>The encoder computes the standard's text of every byte string.\<close>

theorem base64_encode_standard: "base64_encode bs = rfc4648 bs"
proof (induction bs rule: groups.induct)
  case (1 a b c bs)
  then show ?case by (simp only: base64_encode_group rfc4648_group)
next
  case 2
  show ?case by (simp add: base64_encode_def rfc4648_def)
next
  case (3 a)
  have "replicate 4 False = [False, False, False, False]" by code_simp
  then show ?case unfolding base64_encode_def rfc4648_def by (simp add: quad_sextets byte_bits_def)
next
  case (4 a b)
  have "replicate 2 False = [False, False]" by code_simp
  then show ?case unfolding base64_encode_def rfc4648_def by (simp add: quad_sextets byte_bits_def)
qed

end
