(* ===== verification/Sha1.thy ===== *)
theory Sha1
  imports Prelude
begin

unbundle bit_operations_syntax

section \<open>SHA-1 (protocol/websocket/sha1)\<close>

text \<open>
  The digest used by the WebSocket handshake. The object collects bytes in a block of 64, counts
  the length of the message in bits in two 32-bit words and processes the block whenever it is
  full; \<^verbatim>\<open>Result\<close> pads the message. The masks with \<^verbatim>\<open>0xFFFFFFFF\<close> are the identity on the 32-bit
  \<^verbatim>\<open>unsigned\<close> of the model. The reference the code is compared with is the definition of the standard:
  padding of the whole message, the message schedule by its recurrence and one loop of 80 steps.
\<close>

subsection \<open>The code\<close>

type_synonym digest = "u32 \<times> u32 \<times> u32 \<times> u32 \<times> u32"

record sha1 =
  H :: digest
  Length_Low :: u32
  Length_High :: u32
  Message_Block :: bytes
  Message_Block_Index :: nat
  Computed :: bool
  Corrupted :: bool

definition Reset :: "sha1 \<Rightarrow> sha1" where
  "Reset s = s\<lparr>Length_Low := 0, Length_High := 0, Message_Block_Index := 0,
     H := (0x67452301, 0xEFCDAB89, 0x98BADCFE, 0x10325476, 0xC3D2E1F0), Computed := False, Corrupted := False\<rparr>"

text \<open>The constructor leaves the block as it finds it in memory.\<close>

definition SHA1_new :: "bytes \<Rightarrow> sha1" where
  "SHA1_new mem = Reset \<lparr>H = (0, 0, 0, 0, 0), Length_Low = 0, Length_High = 0, Message_Block = mem,
     Message_Block_Index = 0, Computed = False, Corrupted = False\<rparr>"

definition CircularShift :: "nat \<Rightarrow> u32 \<Rightarrow> u32" where
  "CircularShift bits word = (push_bit bits word AND 0xFFFFFFFF) OR drop_bit (32 - bits) (word AND 0xFFFFFFFF)"

definition W_first :: "bytes \<Rightarrow> u32 list" where
  "W_first blk = map (\<lambda>t. push_bit 24 (ucast (blk ! (t * 4))) OR push_bit 16 (ucast (blk ! (t * 4 + 1)))
     OR push_bit 8 (ucast (blk ! (t * 4 + 2))) OR ucast (blk ! (t * 4 + 3))) [0..<16]"

definition W_next :: "u32 list \<Rightarrow> nat \<Rightarrow> u32 list" where
  "W_next W t = W @ [CircularShift 1 (W ! (t - 3) XOR W ! (t - 8) XOR W ! (t - 14) XOR W ! (t - 16))]"

definition W_all :: "bytes \<Rightarrow> u32 list" where
  "W_all blk = foldl W_next (W_first blk) [16..<80]"

text \<open>The body shared by the four loops, with the logical function and the constant of the loop.\<close>

definition sha_step :: "(u32 \<Rightarrow> u32 \<Rightarrow> u32 \<Rightarrow> u32) \<Rightarrow> u32 \<Rightarrow> u32 \<Rightarrow> digest \<Rightarrow> digest" where
  "sha_step f k w s =
     (let (A, B, C, D, E) = s; temp = CircularShift 5 A + f B C D + E + w + k
      in (temp, A, CircularShift 30 B, C, D))"

definition round_loop :: "(u32 \<Rightarrow> u32 \<Rightarrow> u32 \<Rightarrow> u32) \<Rightarrow> u32 \<Rightarrow> u32 list \<Rightarrow> nat \<Rightarrow> nat \<Rightarrow> digest \<Rightarrow> digest" where
  "round_loop f k W lo hi s = foldl (\<lambda>s t. sha_step f k (W ! t) s) s [lo..<hi]"

definition ProcessMessageBlock :: "sha1 \<Rightarrow> sha1" where
  "ProcessMessageBlock s =
     (let W = W_all (Message_Block s);
          s1 = round_loop (\<lambda>B C D. (B AND C) OR (NOT B AND D)) 0x5A827999 W 0 20 (H s);
          s2 = round_loop (\<lambda>B C D. B XOR C XOR D) 0x6ED9EBA1 W 20 40 s1;
          s3 = round_loop (\<lambda>B C D. (B AND C) OR (B AND D) OR (C AND D)) 0x8F1BBCDC W 40 60 s2;
          (A, B, C, D, E) = round_loop (\<lambda>B C D. B XOR C XOR D) 0xCA62C1D6 W 60 80 s3;
          (h0, h1, h2, h3, h4) = H s
      in s\<lparr>H := (h0 + A, h1 + B, h2 + C, h3 + D, h4 + E), Message_Block_Index := 0\<rparr>)"

text \<open>Storing one byte at the index, which is then advanced.\<close>

definition put :: "byte \<Rightarrow> sha1 \<Rightarrow> sha1" where
  "put b s = s\<lparr>Message_Block := (Message_Block s)[Message_Block_Index s := b],
     Message_Block_Index := Message_Block_Index s + 1\<rparr>"

definition count_bits :: "sha1 \<Rightarrow> sha1" where
  "count_bits s =
     (let s = s\<lparr>Length_Low := Length_Low s + 8\<rparr>
      in if Length_Low s = 0
         then (let s = s\<lparr>Length_High := Length_High s + 1\<rparr> in if Length_High s = 0 then s\<lparr>Corrupted := True\<rparr> else s)
         else s)"

fun input_loop :: "bytes \<Rightarrow> sha1 \<Rightarrow> sha1" where
  "input_loop [] s = s"
| "input_loop (b # bs) s =
     (if Corrupted s then s
      else (let s = count_bits (put b s)
            in input_loop bs (if Message_Block_Index s = 64 then ProcessMessageBlock s else s)))"

definition Input :: "bytes \<Rightarrow> sha1 \<Rightarrow> sha1" where
  "Input msg s =
     (if msg = [] then s
      else if Computed s \<or> Corrupted s then s\<lparr>Corrupted := True\<rparr>
      else input_loop msg s)"

text \<open>The stream operators: a string is taken up to its terminating zero, one character at a time.\<close>

definition Input_element :: "byte \<Rightarrow> sha1 \<Rightarrow> sha1" where
  "Input_element b s = Input [b] s"

definition sha_put_string :: "bytes \<Rightarrow> sha1 \<Rightarrow> sha1" where
  "sha_put_string p s = foldl (\<lambda>s b. Input_element b s) s (takeWhile (\<lambda>b. b \<noteq> 0) p)"

function zero_fill :: "nat \<Rightarrow> sha1 \<Rightarrow> sha1" where
  "zero_fill lim s = (if Message_Block_Index s < lim then zero_fill lim (put 0 s) else s)"
  by pat_completeness auto
termination
  by (relation "measure (\<lambda>(lim, s). lim - Message_Block_Index s)") (auto simp: put_def)

declare zero_fill.simps [simp del]

definition store_length :: "sha1 \<Rightarrow> sha1" where
  "store_length s = s\<lparr>Message_Block := write_at (Message_Block s) 56
     [ucast (drop_bit 24 (Length_High s)), ucast (drop_bit 16 (Length_High s)), ucast (drop_bit 8 (Length_High s)), ucast (Length_High s),
      ucast (drop_bit 24 (Length_Low s)), ucast (drop_bit 16 (Length_Low s)), ucast (drop_bit 8 (Length_Low s)), ucast (Length_Low s)]\<rparr>"

definition PadMessage :: "sha1 \<Rightarrow> sha1" where
  "PadMessage s =
     (let s = (if Message_Block_Index s > 55
               then zero_fill 56 (ProcessMessageBlock (zero_fill 64 (put 0x80 s)))
               else zero_fill 56 (put 0x80 s))
      in ProcessMessageBlock (store_length s))"

definition Result :: "sha1 \<Rightarrow> digest option \<times> sha1" where
  "Result s =
     (if Corrupted s then (None, s)
      else (let s = (if \<not> Computed s then (PadMessage s)\<lparr>Computed := True\<rparr> else s) in (Some (H s), s)))"

subsection \<open>The standard\<close>

definition ft :: "nat \<Rightarrow> u32 \<Rightarrow> u32 \<Rightarrow> u32 \<Rightarrow> u32" where
  "ft t x y z =
     (if t < 20 then (x AND y) XOR (NOT x AND z)
      else if t < 40 then x XOR y XOR z
      else if t < 60 then (x AND y) XOR (x AND z) XOR (y AND z)
      else x XOR y XOR z)"

definition Kt :: "nat \<Rightarrow> u32" where
  "Kt t = (if t < 20 then 0x5A827999 else if t < 40 then 0x6ED9EBA1 else if t < 60 then 0x8F1BBCDC else 0xCA62C1D6)"

text \<open>Word \<open>t\<close> of a block, big-endian, and the message schedule.\<close>

definition block_word :: "bytes \<Rightarrow> nat \<Rightarrow> u32" where
  "block_word blk t = foldl (\<lambda>w b. push_bit 8 w OR ucast b) 0 (take 4 (drop (4 * t) blk))"

fun Wt :: "bytes \<Rightarrow> nat \<Rightarrow> u32" where
  "Wt blk t =
     (if t < 16 then block_word blk t
      else word_rotl 1 (Wt blk (t - 3) XOR Wt blk (t - 8) XOR Wt blk (t - 14) XOR Wt blk (t - 16)))"

declare Wt.simps [simp del]

definition std_step :: "bytes \<Rightarrow> digest \<Rightarrow> nat \<Rightarrow> digest" where
  "std_step blk = (\<lambda>(a, b, c, d, e) t. (word_rotl 5 a + ft t b c d + e + Wt blk t + Kt t, a, word_rotl 30 b, c, d))"

definition compress :: "digest \<Rightarrow> bytes \<Rightarrow> digest" where
  "compress h blk =
     (let (h0, h1, h2, h3, h4) = h; (a, b, c, d, e) = foldl (std_step blk) h [0..<80]
      in (h0 + a, h1 + b, h2 + c, h3 + d, h4 + e))"

definition be64 :: "u64 \<Rightarrow> bytes" where
  "be64 n = map (\<lambda>k. ucast (drop_bit k n)) [56, 48, 40, 32, 24, 16, 8, 0]"

definition pad :: "bytes \<Rightarrow> bytes" where
  "pad m = m @ [0x80] @ replicate ((119 - length m mod 64) mod 64) 0 @ be64 (of_nat (8 * length m))"

fun blocks :: "bytes \<Rightarrow> bytes list" where
  "blocks xs = (if xs = [] then [] else take 64 xs # blocks (drop 64 xs))"

declare blocks.simps [simp del]

definition sha1_standard :: "bytes \<Rightarrow> digest" where
  "sha1_standard m = foldl compress (0x67452301, 0xEFCDAB89, 0x98BADCFE, 0x10325476, 0xC3D2E1F0) (blocks (pad m))"

section \<open>The code computes the standard's digest\<close>

subsection \<open>One block\<close>

lemma CircularShift_rotl: "0 < k \<Longrightarrow> k < 32 \<Longrightarrow> CircularShift k w = word_rotl k w"
proof (rule bit_word_eqI)
  fix n assume k: "0 < k" "k < 32" and n: "n < LENGTH(32)"
  have ff: "(0xFFFFFFFF :: u32) = -1" by simp
  have "(n + 32 - k) mod 32 = n - k" if "k \<le> n"
    using that n mod_add_self2 [of "n - k" 32] by simp
  then have "(n + (32 - k) mod 32) mod 32 = (if k \<le> n then n - k else 32 + n - k)" using k n by auto
  then show "bit (CircularShift k w) n = bit (word_rotl k w) n"
    using k n bit_imp_le_length [of w "32 + n - k"]
    by (auto simp: CircularShift_def bit_simps ff bit_word_rotl_iff simp del: push_bit_and)
qed

lemma ft_code:
  "t < 20 \<Longrightarrow> (B AND C) OR (NOT B AND D) = ft t B C D"
  "20 \<le> t \<Longrightarrow> t < 40 \<Longrightarrow> B XOR C XOR D = ft t B C D"
  "40 \<le> t \<Longrightarrow> t < 60 \<Longrightarrow> (B AND C) OR (B AND D) OR (C AND D) = ft t B C D"
  "60 \<le> t \<Longrightarrow> B XOR C XOR D = ft t B C D"
  unfolding ft_def by (auto intro!: bit_word_eqI simp: bit_simps)

lemma foldl_W_next:
  assumes "n \<le> 64"
  shows "length blk = 64 \<Longrightarrow> foldl W_next (W_first blk) [16..<16 + n] = map (Wt blk) [0..<16 + n]"
  using assms
proof (induction n)
  case 0
  have "block_word blk t = W_first blk ! t" if "t < 16" for t
  proof -
    have "take 4 (drop (4 * t) blk) = [blk ! (4 * t), blk ! (4 * t + 1), blk ! (4 * t + 2), blk ! (4 * t + 3)]"
      using that 0 by (auto intro!: nth_equalityI simp: less_Suc_eq_0_disj numeral_eq_Suc)
    then show ?thesis using that
      by (auto intro!: bit_word_eqI simp: block_word_def W_first_def bit_simps mult.commute)
  qed
  then show ?case by (auto intro!: nth_equalityI simp: Wt.simps W_first_def)
next
  case (Suc n)
  then have "foldl W_next (W_first blk) [16..<16 + Suc n] = W_next (map (Wt blk) [0..<16 + n]) (16 + n)"
    using upt_Suc_append [of 16 "16 + n"] by simp
  also have "\<dots> = map (Wt blk) [0..<16 + Suc n]"
    using upt_Suc_append [of 0 "16 + n"]
    by (simp add: W_next_def Wt.simps [of blk "16 + n"] CircularShift_rotl nth_append)
  finally show ?case .
qed

lemma W_all_nth: "length blk = 64 \<Longrightarrow> t < 80 \<Longrightarrow> W_all blk ! t = Wt blk t"
  using foldl_W_next [of 64 blk] by (simp add: W_all_def)

lemma foldl_round:
  assumes "length blk = 64" "hi \<le> 80" "\<And>t B C D. lo \<le> t \<Longrightarrow> t < hi \<Longrightarrow> f B C D = ft t B C D"
    "\<And>t. lo \<le> t \<Longrightarrow> t < hi \<Longrightarrow> k = Kt t"
  shows "round_loop f k (W_all blk) lo hi s = foldl (std_step blk) s [lo..<hi]"
  unfolding round_loop_def
proof (rule foldl_cong [OF refl refl])
  fix s t assume t: "t \<in> set [lo..<hi]"
  then show "sha_step f k (W_all blk ! t) s = std_step blk s t"
    using assms(3) [of t] assms(4) [of t] W_all_nth [of blk t] assms(1,2)
    by (cases s) (simp add: sha_step_def std_step_def CircularShift_rotl)
qed

lemma process_block:
  assumes "length (Message_Block s) = 64"
  shows "ProcessMessageBlock s = s\<lparr>H := compress (H s) (Message_Block s), Message_Block_Index := 0\<rparr>"
proof -
  let ?b = "Message_Block s"
  let ?g = "\<lambda>lo hi s. foldl (std_step ?b) s [lo..<hi]"
  have r: "round_loop (\<lambda>B C D. (B AND C) OR (NOT B AND D)) 0x5A827999 (W_all ?b) 0 20 x = ?g 0 20 x"
    "round_loop (\<lambda>B C D. B XOR C XOR D) 0x6ED9EBA1 (W_all ?b) 20 40 x = ?g 20 40 x"
    "round_loop (\<lambda>B C D. (B AND C) OR (B AND D) OR (C AND D)) 0x8F1BBCDC (W_all ?b) 40 60 x = ?g 40 60 x"
    "round_loop (\<lambda>B C D. B XOR C XOR D) 0xCA62C1D6 (W_all ?b) 60 80 x = ?g 60 80 x" for x
    using assms by (intro foldl_round; auto simp: Kt_def ft_code)+
  have split: "[0..<80] = [0..<20] @ [20..<40] @ [40..<60] @ [60..<80]"
    using upt_add_eq_append [of 0 20 60] upt_add_eq_append [of 20 40 40] upt_add_eq_append [of 40 60 20] by simp
  have "?g 0 80 (H s) = ?g 60 80 (?g 40 60 (?g 20 40 (?g 0 20 (H s))))"
    unfolding split foldl_append ..
  then show ?thesis
    unfolding ProcessMessageBlock_def Let_def r compress_def by (simp split: prod.splits)
qed

subsection \<open>The stream of bytes\<close>

lemma blocks_append: "length xs mod 64 = 0 \<Longrightarrow> blocks (xs @ ys) = blocks xs @ blocks ys"
proof (induction xs rule: blocks.induct)
  case (1 xs)
  show ?case
  proof (cases "xs = []")
    case False
    then have "64 \<le> length xs" using 1(2) by (cases "length xs < 64") auto
    then show ?thesis
      using 1 False by (simp add: blocks.simps [of xs] blocks.simps [of "xs @ ys"] mod_if)
  qed (simp add: blocks.simps)
qed

lemma blocks_single: "length xs = 64 \<Longrightarrow> blocks xs = [xs]"
  by (auto simp: blocks.simps)

definition H0 :: digest where
  "H0 = (0x67452301, 0xEFCDAB89, 0x98BADCFE, 0x10325476, 0xC3D2E1F0)"

text \<open>
  What the object knows after it was given the message \<open>m\<close>: its full blocks \<open>d\<close> are processed, the rest
  \<open>r\<close> is in the block, and the two counters hold the length in bits.
\<close>

definition absorbed :: "bytes \<Rightarrow> bytes \<Rightarrow> sha1 \<Rightarrow> bool" where
  "absorbed d r s \<longleftrightarrow> length d mod 64 = 0 \<and> length r < 64 \<and> length (Message_Block s) = 64
     \<and> Message_Block_Index s = length r \<and> take (length r) (Message_Block s) = r
     \<and> H s = foldl compress H0 (blocks d)
     \<and> unat (Length_High s) * 2 ^ 32 + unat (Length_Low s) = 8 * (length d + length r)
     \<and> \<not> Computed s \<and> \<not> Corrupted s"

lemma absorbed_new: "length mem = 64 \<Longrightarrow> absorbed [] [] (SHA1_new mem)"
  by (simp add: absorbed_def SHA1_new_def Reset_def H0_def blocks.simps)

text \<open>The counter is exact until the message has \<open>2 ^ 64\<close> bits.\<close>

lemma unat_u32_plus8: "unat (w + 8) = (if unat w + 8 < 2 ^ 32 then unat w + 8 else unat w + 8 - 2 ^ 32)" for w :: u32
proof -
  have l: "unat w < 2 ^ 32" using unsigned_less [of w] by simp
  have "unat (w + 8) = (unat w + 8) mod 2 ^ 32" by (simp add: unat_word_ariths)
  also have "\<dots> = (if unat w + 8 < 2 ^ 32 then unat w + 8 else unat w + 8 - 2 ^ 32)"
    using l by (simp add: le_mod_geq)
  finally show ?thesis .
qed

lemma count_bits_exact:
  assumes "unat (Length_High s) * 2 ^ 32 + unat (Length_Low s) = 8 * n" "8 * (n + 1) < 2 ^ 64"
  shows "\<exists>hi lo. count_bits s = s\<lparr>Length_Low := lo, Length_High := hi\<rparr> \<and> unat hi * 2 ^ 32 + unat lo = 8 * (n + 1)"
proof (cases "Length_Low s + 8 = 0")
  case False
  have u: "unat (Length_Low s + 8) \<noteq> 0" using False by (simp add: unat_eq_0)
  have k: "unat (Length_Low s) = 8 * (n - unat (Length_High s) * 2 ^ 29)"
    using assms(1) by (simp add: diff_mult_distrib2)
  have l: "unat (Length_Low s) < 2 ^ 32" using unsigned_less [of "Length_Low s"] by simp
  have "unat (Length_Low s) + 8 < 2 ^ 32"
  proof (rule ccontr)
    assume "\<not> unat (Length_Low s) + 8 < 2 ^ 32"
    moreover from this have "2 ^ 29 \<le> n - unat (Length_High s) * 2 ^ 29 + 1" using k by simp
    ultimately have "unat (Length_Low s) + 8 = 2 ^ 32" using l k by simp
    then show False using u unat_u32_plus8 [of "Length_Low s"] by simp
  qed
  then show ?thesis using False assms(1) unat_u32_plus8 [of "Length_Low s"]
    by (intro exI [of _ "Length_High s"] exI [of _ "Length_Low s + 8"]) (simp add: count_bits_def)
next
  case True
  then have l: "unat (Length_Low s) + 8 = 2 ^ 32"
    using unat_u32_plus8 [of "Length_Low s"] unsigned_less [of "Length_Low s"] by (auto split: if_splits)
  then have "unat (Length_High s) + 1 < 2 ^ 32" using assms by simp
  then have h: "unat (Length_High s + 1) = unat (Length_High s) + 1"
    by (simp add: unat_word_ariths)
  then have "Length_High s + 1 \<noteq> 0" by auto
  with h show ?thesis using True assms(1) l
    by (intro exI [of _ "Length_High s + 1"] exI [of _ 0]) (simp add: count_bits_def)
qed

lemma take_Suc_update: "n < length xs \<Longrightarrow> take (Suc n) (xs[n := b]) = take n xs @ [b]"
  by (simp add: take_Suc_conv_app_nth)

lemma absorb_byte:
  assumes "absorbed d r s" "8 * (length (d @ r) + 1) < 2 ^ 64" and s'_def: "s' = count_bits (put b s)"
  shows "\<exists>d' r'. d' @ r' = d @ r @ [b] \<and> absorbed d' r' (if Message_Block_Index s' = 64 then ProcessMessageBlock s' else s')"
proof -
  have "unat (Length_High (put b s)) * 2 ^ 32 + unat (Length_Low (put b s)) = 8 * length (d @ r)"
    using assms(1) by (simp add: absorbed_def put_def)
  from count_bits_exact [OF this assms(2)] obtain hi lo
    where s': "s' = (put b s)\<lparr>Length_Low := lo, Length_High := hi\<rparr>"
      and hl: "unat hi * 2 ^ 32 + unat lo = 8 * (length (d @ r) + 1)"
    unfolding s'_def by blast
  have blk: "length (Message_Block s') = 64" "take (Suc (length r)) (Message_Block s') = r @ [b]"
    using assms(1) by (simp_all add: s' absorbed_def put_def take_Suc_update)
  show ?thesis
  proof (cases "length r = 63")
    case True
    then have "Message_Block s' = r @ [b]" using blk by simp
    then have "absorbed (d @ r @ [b]) [] (ProcessMessageBlock s')"
      using assms(1) hl True blk
      by (simp add: process_block s' absorbed_def put_def blocks_append blocks_single)
    moreover have "Message_Block_Index s' = 64" using assms(1) True by (simp add: s' absorbed_def put_def)
    ultimately show ?thesis by (intro exI [of _ "d @ r @ [b]"] exI [of _ "[]"]) simp
  next
    case False
    then have "absorbed d (r @ [b]) s'" "Message_Block_Index s' \<noteq> 64"
      using assms(1) hl blk by (simp_all add: s' absorbed_def put_def)
    then show ?thesis by (intro exI [of _ d] exI [of _ "r @ [b]"]) simp
  qed
qed

lemma absorb_bytes:
  assumes "absorbed d r s" "8 * length (d @ r @ bs) < 2 ^ 64"
  shows "\<exists>d' r'. d' @ r' = d @ r @ bs \<and> absorbed d' r' (input_loop bs s)"
  using assms
proof (induction bs arbitrary: d r s)
  case Nil
  then show ?case by auto
next
  case (Cons b bs)
  have nc: "\<not> Corrupted s" using Cons.prems(1) by (simp add: absorbed_def)
  obtain d' r' where eq: "d' @ r' = d @ r @ [b]"
    and a: "absorbed d' r' (let s' = count_bits (put b s) in if Message_Block_Index s' = 64 then ProcessMessageBlock s' else s')"
    using absorb_byte [OF Cons.prems(1) _ refl, of b] Cons.prems(2) by (auto simp: Let_def)
  have eq2: "d' @ r' @ bs = d @ r @ b # bs" using eq by (metis append.assoc append_Cons append_Nil)
  then have "8 * length (d' @ r' @ bs) < 2 ^ 64" using Cons.prems(2) by (simp only: eq2)
  from Cons.IH [OF a this] show ?case using nc unfolding eq2 by (simp add: Let_def)
qed

lemma absorb_input:
  assumes "absorbed d r s" "8 * length (d @ r @ bs) < 2 ^ 64"
  shows "\<exists>d' r'. d' @ r' = d @ r @ bs \<and> absorbed d' r' (Input bs s)"
proof (cases "bs = []")
  case False
  then show ?thesis using absorb_bytes [OF assms] assms(1) by (auto simp: Input_def absorbed_def)
qed (use assms in \<open>auto simp: Input_def\<close>)

lemma absorb_chunks:
  assumes "absorbed d r s" "8 * length (d @ r @ concat cs) < 2 ^ 64"
  shows "\<exists>d' r'. d' @ r' = d @ r @ concat cs \<and> absorbed d' r' (foldl (\<lambda>s c. Input c s) s cs)"
  using assms
proof (induction cs arbitrary: d r s)
  case Nil
  then show ?case by auto
next
  case (Cons c cs)
  from Cons.prems(2) have "8 * length (d @ r @ c) < 2 ^ 64" by simp
  from absorb_input [OF Cons.prems(1) this] obtain d' r'
    where eq: "d' @ r' = d @ r @ c" and a: "absorbed d' r' (Input c s)" by blast
  have eq2: "d' @ r' @ concat cs = d @ r @ concat (c # cs)" using eq by (metis append.assoc concat.simps(2))
  then have "8 * length (d' @ r' @ concat cs) < 2 ^ 64" using Cons.prems(2) by (simp only: eq2)
  from Cons.IH [OF a this] show ?case unfolding eq2 by simp
qed

subsection \<open>Padding\<close>

lemma zero_fill_eq:
  assumes "Message_Block_Index s \<le> lim" "lim \<le> length (Message_Block s)"
  shows "zero_fill lim s = s\<lparr>Message_Block := write_at (Message_Block s) (Message_Block_Index s) (replicate (lim - Message_Block_Index s) 0),
    Message_Block_Index := lim\<rparr>"
  using assms
proof (induction lim s rule: zero_fill.induct)
  case (1 lim s)
  show ?case
  proof (cases "Message_Block_Index s < lim")
    case True
    let ?i = "Message_Block_Index s" and ?b = "Message_Block s"
    have "write_at (?b[?i := 0]) (Suc ?i) (replicate (lim - Suc ?i) 0) = write_at ?b ?i (0 # replicate (lim - Suc ?i) 0)"
      using True 1(3) by (simp add: write_at_def take_Suc_update)
    moreover have "0 # replicate (lim - Suc ?i) 0 = replicate (lim - ?i) (0 :: byte)"
      using True by (metis Suc_diff_Suc replicate_Suc)
    ultimately show ?thesis
      using 1(1) [OF True] 1(3) True by (simp add: zero_fill.simps [of lim s] put_def)
  next
    case False
    then have "Message_Block_Index s = lim" using 1(2) by simp
    then show ?thesis by (simp add: zero_fill.simps [of lim s])
  qed
qed

definition len_bytes :: "u32 \<Rightarrow> u32 \<Rightarrow> bytes" where
  "len_bytes hi lo =
     [ucast (drop_bit 24 hi), ucast (drop_bit 16 hi), ucast (drop_bit 8 hi), ucast hi,
      ucast (drop_bit 24 lo), ucast (drop_bit 16 lo), ucast (drop_bit 8 lo), ucast lo]"

lemma len_bytes_be64:
  assumes "unat hi * 2 ^ 32 + unat lo = n"
  shows "len_bytes hi lo = be64 (of_nat n)"
proof -
  let ?w = "push_bit 32 (ucast hi) OR ucast lo :: u64"
  have "push_bit 32 (ucast hi) AND (ucast lo :: u64) = 0"
    by (rule bit_word_eqI) (use bit_imp_le_length [of lo] in \<open>force simp: bit_simps\<close>)
  then have "?w = push_bit 32 (ucast hi) + ucast lo" by (simp add: disjunctive_add_eq_or)
  also have "\<dots> = of_nat (unat hi * 2 ^ 32 + unat lo)"
    by (simp add: push_bit_eq_mult unsigned_ucast_eq mult.commute)
  finally have w: "of_nat n = ?w" unfolding assms by (rule sym)
  have lo: "\<not> bit lo (32 + m)" "\<not> bit lo (40 + m)" "\<not> bit lo (48 + m)" "\<not> bit lo (56 + m)" for m
    using bit_imp_le_length [of lo "32 + m"] bit_imp_le_length [of lo "40 + m"]
      bit_imp_le_length [of lo "48 + m"] bit_imp_le_length [of lo "56 + m"] by auto
  show ?thesis unfolding w len_bytes_def be64_def
    by (auto intro!: bit_word_eqI simp: bit_simps lo)
qed

lemma last_block_digest:
  assumes "length (Message_Block s) = 64" "take 56 (Message_Block s) = x"
    "unat (Length_High s) * 2 ^ 32 + unat (Length_Low s) = n"
  shows "H (ProcessMessageBlock (store_length s)) = compress (H s) (x @ be64 (of_nat n))"
proof -
  have len: "length (len_bytes hi lo) = 8" for hi lo by (simp add: len_bytes_def)
  have "Message_Block (store_length s) = x @ be64 (of_nat n)"
    unfolding store_length_def len_bytes_def [symmetric] len_bytes_be64 [OF assms(3), symmetric]
    using assms(1,2) len by (simp add: write_at_def)
  moreover have "length (Message_Block (store_length s)) = 64" "H (store_length s) = H s"
    using assms(1) len unfolding store_length_def len_bytes_def [symmetric] by simp_all
  ultimately show ?thesis by (simp add: process_block)
qed

lemma pad_digest:
  assumes "absorbed d r s"
  shows "H (PadMessage s) = foldl compress H0 (blocks (pad (d @ r)))"
proof -
  let ?n = "8 * (length d + length r)" and ?i = "length r"
  have a: "length d mod 64 = 0" "?i < 64" "length (Message_Block s) = 64" "Message_Block_Index s = ?i"
    "take ?i (Message_Block s) = r" "H s = foldl compress H0 (blocks d)"
    "unat (Length_High s) * 2 ^ 32 + unat (Length_Low s) = ?n"
    using assms by (simp_all add: absorbed_def)
  have m: "length (d @ r) mod 64 = ?i" using a(1,2) by (simp add: mod_add_eq [symmetric])
  have b8: "length (be64 w) = 8" for w by (simp add: be64_def)
  have blk: "take (Suc ?i) ((Message_Block s)[?i := 0x80]) = r @ [0x80]" using a by (simp add: take_Suc_update)
  let ?s = "put 0x80 s"
  have ps: "Message_Block ?s = (Message_Block s)[?i := 0x80]" "H ?s = H s" "Length_High ?s = Length_High s" "Length_Low ?s = Length_Low s"
    using a(4) by (simp_all add: put_def)
  have fill: "zero_fill lim ?s = ?s\<lparr>Message_Block := write_at (Message_Block ?s) (Suc ?i) (replicate (lim - Suc ?i) 0), Message_Block_Index := lim\<rparr>"
    if "Suc ?i \<le> lim" "lim \<le> 64" for lim
    using zero_fill_eq [of ?s lim] that a(3,4) by (simp add: put_def)
  show ?thesis
  proof (cases "?i > 55")
    case False
    let ?t = "zero_fill 56 ?s"
    let ?x = "r @ [0x80] @ replicate (55 - ?i) 0"
    have "length (Message_Block ?t) = 64" "take 56 (Message_Block ?t) = ?x" "H ?t = H s"
      "unat (Length_High ?t) * 2 ^ 32 + unat (Length_Low ?t) = ?n"
      using False a blk take_write_at [of "Suc ?i" "replicate (55 - ?i) 0" "(Message_Block s)[?i := 0x80]"]
      by (simp_all add: fill ps)
    moreover from this have "H (PadMessage s) = H (ProcessMessageBlock (store_length ?t))"
      using False a(4) by (simp add: PadMessage_def Let_def)
    ultimately have "H (PadMessage s) = compress (H s) (?x @ be64 (of_nat ?n))"
      using last_block_digest [of ?t ?x ?n] by metis
    moreover have "pad (d @ r) = d @ (?x @ be64 (of_nat ?n))"
    proof -
      have "(119 - ?i) mod 64 = 55 - ?i" using False by (simp add: mod_if)
      then show ?thesis using m by (simp add: pad_def)
    qed
    moreover have "length (?x @ be64 (of_nat ?n)) = 64" using False b8 by simp
    ultimately show ?thesis using a(1,6) by (simp only: blocks_append blocks_single foldl_append foldl.simps)
  next
    case True
    let ?t = "zero_fill 64 ?s"
    let ?x = "r @ [0x80] @ replicate (63 - ?i) 0"
    have t: "length (Message_Block ?t) = 64" "Message_Block ?t = ?x" "H ?t = H s"
      "unat (Length_High ?t) * 2 ^ 32 + unat (Length_Low ?t) = ?n"
      using True a blk take_write_at [of "Suc ?i" "replicate (63 - ?i) 0" "(Message_Block s)[?i := 0x80]"]
      by (simp_all add: fill ps)
    let ?u = "zero_fill 56 (ProcessMessageBlock ?t)"
    have u: "length (Message_Block ?u) = 64" "take 56 (Message_Block ?u) = replicate 56 0" "H ?u = compress (H s) ?x"
      "unat (Length_High ?u) * 2 ^ 32 + unat (Length_Low ?u) = ?n"
      using t zero_fill_eq [of "ProcessMessageBlock ?t" 56] by (simp_all add: process_block write_at_def)
    have "H (PadMessage s) = H (ProcessMessageBlock (store_length ?u))"
      using True a(4) by (simp add: PadMessage_def Let_def)
    then have "H (PadMessage s) = compress (compress (H s) ?x) (replicate 56 0 @ be64 (of_nat ?n))"
      using last_block_digest [OF u(1,2,4)] u(3) by simp
    moreover have "pad (d @ r) = d @ (?x @ (replicate 56 0 @ be64 (of_nat ?n)))"
    proof -
      have "(119 - ?i) mod 64 = (63 - ?i) + 56" using True a(2) by simp
      then have "replicate ((119 - ?i) mod 64) 0 = replicate (63 - ?i) (0 :: byte) @ replicate 56 0"
        by (simp only: replicate_add)
      then show ?thesis unfolding pad_def m by simp
    qed
    moreover have "length ?x = 64" "length (replicate 56 0 @ be64 (of_nat ?n)) = 64" using True a(2) b8 by simp_all
    ultimately show ?thesis using a(1,6)
      by (simp only: blocks_append blocks_single foldl_append foldl.simps mod_self)
  qed
qed

lemma message_absorbed:
  assumes "length mem = 64" "8 * length (concat cs) < 2 ^ 64"
  obtains d r where "d @ r = concat cs" "absorbed d r (foldl (\<lambda>s c. Input c s) (SHA1_new mem) cs)"
  using absorb_chunks [OF absorbed_new [OF assms(1)], of cs] assms(2) by auto

lemma digest_of_chunks:
  assumes "length mem = 64" "8 * length (concat cs) < 2 ^ 64"
  shows "fst (Result (foldl (\<lambda>s c. Input c s) (SHA1_new mem) cs)) = Some (sha1_standard (concat cs))"
proof -
  obtain d r where dr: "d @ r = concat cs" "absorbed d r (foldl (\<lambda>s c. Input c s) (SHA1_new mem) cs)"
    using message_absorbed [OF assms] .
  then have "H (PadMessage (foldl (\<lambda>s c. Input c s) (SHA1_new mem) cs)) = sha1_standard (concat cs)"
    using pad_digest [OF dr(2)] by (simp add: sha1_standard_def H0_def)
  then show ?thesis using dr(2) by (simp add: Result_def absorbed_def)
qed

lemma digest_of_message:
  "length mem = 64 \<Longrightarrow> 8 * length (concat [m]) < 2 ^ 64 \<Longrightarrow> fst (Result (Input m (SHA1_new mem))) = Some (sha1_standard m)"
  using digest_of_chunks [of mem "[m]"] by simp

lemma sha1_standard_digest_parts:
  assumes "length mem = 64" "8 * length (concat cs) < 2 ^ 64"
  defines "s \<equiv> foldl (\<lambda>s c. Input c s) (SHA1_new mem) cs"
  shows "fst (Result s) = Some (sha1_standard (concat cs))"
    and "Result (snd (Result s)) = Result s"
    and "c \<noteq> [] \<Longrightarrow> fst (Result (Input c (snd (Result s)))) = None"
proof -
  obtain d r where dr: "d @ r = concat cs" and a: "absorbed d r s"
    using message_absorbed [OF assms(1,2)] unfolding s_def .
  have "H (PadMessage s) = sha1_standard (concat cs)"
    using pad_digest [OF a] by (simp add: dr sha1_standard_def H0_def)
  then have r: "Result s = (Some (sha1_standard (concat cs)), (PadMessage s)\<lparr>Computed := True\<rparr>)"
    using a by (simp add: Result_def absorbed_def)
  then show "fst (Result s) = Some (sha1_standard (concat cs))" by simp
  have p: "Corrupted (ProcessMessageBlock x) = Corrupted x" for x
    by (simp add: ProcessMessageBlock_def Let_def split: prod.splits)
  have z: "Corrupted (zero_fill lim x) = Corrupted x" for lim x
    by (induction lim x rule: zero_fill.induct) (auto simp: zero_fill.simps put_def)
  have "\<not> Corrupted (PadMessage s)"
    using a by (simp add: PadMessage_def Let_def p z store_length_def put_def absorbed_def)
  with r have s2: "Result (snd (Result s)) = (Some (H (PadMessage s)), snd (Result s))"
    by (simp add: Result_def)
  then show "Result (snd (Result s)) = Result s"
    using r \<open>H (PadMessage s) = sha1_standard (concat cs)\<close> by (metis prod.collapse fst_conv)
  show "fst (Result (Input c (snd (Result s)))) = None" if "c \<noteq> []"
    using that r by (simp add: Input_def Result_def)
qed

text \<open>
  C19. For every message of fewer than \<open>2 ^ 64\<close> bits, given to a new object by any number of calls of
  \<^verbatim>\<open>Input\<close> that split it in any way, \<^verbatim>\<open>Result\<close> returns the digest the standard defines for the whole
  message, whatever the block contained before; asked again it returns the same digest, and
  input after that makes it fail.
\<close>

theorem sha1_standard_digest:
  assumes "length mem = 64" "8 * length (concat cs) < 2 ^ 64"
  shows "let s = foldl (\<lambda>s c. Input c s) (SHA1_new mem) cs in
    fst (Result s) = Some (sha1_standard (concat cs)) \<and> Result (snd (Result s)) = Result s
    \<and> (c \<noteq> [] \<longrightarrow> fst (Result (Input c (snd (Result s)))) = None)"
  unfolding Let_def using sha1_standard_digest_parts [OF assms] by blast

theorem sha1_standard_digest_witness:
  "fst (Result (Input [0x63] (Input [0x61, 0x62] (SHA1_new (replicate 64 0))))) = Some (sha1_standard [0x61, 0x62, 0x63])"
  using sha1_standard_digest [of "replicate 64 0" "[[0x61, 0x62], [0x63]]"] by (simp add: Let_def)

end
