(* ===== verification/Ws_Handshake.thy ===== *)
theory Ws_Handshake
  imports Endian Strings Base64 Sha1
begin

unbundle bit_operations_syntax

section \<open>WebSocket handshake and codec (protocol/websocket/WebSocket)\<close>

text \<open>
  The class the server answers the opening handshake with: the request headers are split into rows,
  the ones it knows are kept, and the answer contains the base64 text of the SHA-1 digest of the key.
  The class also has a small frame codec. Strings are character lists; a position that
  \<^verbatim>\<open>std::string::find\<close> does not find is \<open>None\<close>. An \<^verbatim>\<open>int\<close> that holds \<^verbatim>\<open>npos\<close> is \<open>-1\<close>. Reading
  or writing outside of a buffer and a shift by the width of the type or more are failures.
\<close>

subsection \<open>Strings\<close>

text \<open>
  \<^verbatim>\<open>explode\<close>: \<open>length\<close> is an \<^verbatim>\<open>int\<close> and becomes \<open>-1\<close> at the last part, which therefore is kept only with
  \<open>theIncludeEmptyStrings\<close>. With an empty delimiter the loop does not end.
\<close>

partial_function (option) explode_loop :: "string \<Rightarrow> string \<Rightarrow> bool \<Rightarrow> nat \<Rightarrow> string list \<Rightarrow> string list option" where
  "explode_loop s d incl start v =
     (case str_find s d start of
        None \<Rightarrow> Some (if incl then v @ [drop start s] else v)
      | Some e \<Rightarrow>
          explode_loop s d incl (e + length d)
            (if incl \<or> (0 < e - start \<and> start < length s) then v @ [take (e - start) (drop start s)] else v))"

definition explode :: "string \<Rightarrow> string \<Rightarrow> bool \<Rightarrow> string list option" where
  "explode theString theDelimiter theIncludeEmptyStrings = explode_loop theString theDelimiter theIncludeEmptyStrings 0 []"

definition is_space :: "char \<Rightarrow> bool" where
  "is_space c \<longleftrightarrow> c \<in> {CHR '' '', CHR 0x09, CHR 0x0D, CHR 0x0A}"

definition trim :: "string \<Rightarrow> string" where
  "trim str =
     (let s = rev (dropWhile is_space (rev str)) in if s = [] then [] else dropWhile is_space s)"

subsection \<open>The opening handshake\<close>

datatype WebSocketFrameType = ERROR_FRAME | INCOMPLETE_FRAME | OPENING_FRAME | CLOSING_FRAME
  | INCOMPLETE_TEXT_FRAME | INCOMPLETE_BINARY_FRAME | TEXT_FRAME | BINARY_FRAME | PING_FRAME | PONG_FRAME

fun frame_code :: "WebSocketFrameType \<Rightarrow> nat" where
  "frame_code ERROR_FRAME = 0xFF00"
| "frame_code INCOMPLETE_FRAME = 0xFE00"
| "frame_code OPENING_FRAME = 0x3300"
| "frame_code CLOSING_FRAME = 0x3400"
| "frame_code INCOMPLETE_TEXT_FRAME = 0x01"
| "frame_code INCOMPLETE_BINARY_FRAME = 0x02"
| "frame_code TEXT_FRAME = 0x81"
| "frame_code BINARY_FRAME = 0x82"
| "frame_code PING_FRAME = 0x19"
| "frame_code PONG_FRAME = 0x1A"

record web_socket =
  resource :: string
  ws_host :: string
  origin :: string
  protocol :: string
  key :: string

definition WebSocket_new :: web_socket where
  "WebSocket_new = \<lparr>resource = [], ws_host = [], origin = [], protocol = [], key = []\<rparr>"

definition header_field :: "string \<Rightarrow> web_socket \<Rightarrow> web_socket" where
  "header_field header ws =
     (case str_find header '':'' 0 of
        None \<Rightarrow> ws
      | Some pos \<Rightarrow>
          (let header_key = take pos header; header_value = trim (drop (pos + 1) header)
           in if header_key = ''Host'' then ws\<lparr>ws_host := header_value\<rparr>
              else if header_key = ''Origin'' then ws\<lparr>origin := header_value\<rparr>
              else if header_key = ''Sec-WebSocket-Key'' then ws\<lparr>key := header_value\<rparr>
              else if header_key = ''Sec-WebSocket-Protocol'' then ws\<lparr>protocol := header_value\<rparr>
              else ws))"

definition header_row :: "string \<Rightarrow> web_socket \<Rightarrow> web_socket option" where
  "header_row header ws =
     (if str_find header ''GET'' 0 = Some 0
      then map_option (\<lambda>get_tokens. if 2 \<le> length get_tokens then ws\<lparr>resource := get_tokens ! 1\<rparr> else ws) (explode header '' '' False)
      else Some (header_field header ws))"

fun header_rows :: "string list \<Rightarrow> web_socket \<Rightarrow> web_socket option" where
  "header_rows [] ws = Some ws"
| "header_rows (r # rs) ws = Option.bind (header_row r ws) (header_rows rs)"

definition parseHandshake :: "string \<Rightarrow> web_socket \<Rightarrow> (WebSocketFrameType \<times> web_socket) option" where
  "parseHandshake headers ws =
     (case str_find headers (crlf @ crlf) 0 of
        None \<Rightarrow> Some (INCOMPLETE_FRAME, ws)
      | Some header_end \<Rightarrow>
          Option.bind (explode (take header_end headers) crlf False)
            (\<lambda>rows. map_option (\<lambda>ws. (OPENING_FRAME, ws)) (header_rows rows ws)))"

definition RFC6544_MAGIC_KEY :: string where
  "RFC6544_MAGIC_KEY = ''258EAFA5-E914-47DA-95CA-C5AB0DC85B11''"

text \<open>The digest as bytes in memory, and the exchange of the bytes of each word.\<close>

fun store32 :: "host \<Rightarrow> u32 \<Rightarrow> bytes" where
  "store32 BIG_ENDIAN v = [ucast (drop_bit 24 v), ucast (drop_bit 16 v), ucast (drop_bit 8 v), ucast v]"
| "store32 LITTLE_ENDIAN v = [ucast v, ucast (drop_bit 8 v), ucast (drop_bit 16 v), ucast (drop_bit 24 v)]"

fun words :: "digest \<Rightarrow> u32 list" where
  "words (a, b, c, d, e) = [a, b, c, d, e]"

fun exchange :: "bytes \<Rightarrow> bytes" where
  "exchange (a # b # c # d # r) = d # c # b # a # exchange r"
| "exchange r = r"

definition latin :: "bytes \<Rightarrow> string" where
  "latin bs = map (\<lambda>b. char_of (unat b)) bs"

text \<open>
  \<open>mem\<close> is the block of the \<^verbatim>\<open>SHA1\<close> object and \<open>stack\<close> the array \<^verbatim>\<open>digest\<close> before they are written;
  the result of \<^verbatim>\<open>Result\<close> is not looked at.
\<close>

definition accept_key :: "host \<Rightarrow> bytes \<Rightarrow> bytes \<Rightarrow> string \<Rightarrow> string" where
  "accept_key h mem stack k =
     (let sha = Input (ascii (k @ RFC6544_MAGIC_KEY)) (SHA1_new mem);
          digest = (case fst (Result sha) of None \<Rightarrow> stack | Some dg \<Rightarrow> concat (map (store32 h) (words dg)))
      in latin (base64_encode (exchange digest)))"

definition answerHandshake :: "host \<Rightarrow> bytes \<Rightarrow> bytes \<Rightarrow> web_socket \<Rightarrow> string" where
  "answerHandshake h mem stack ws =
     ''HTTP/1.1 101 Switching Protocols'' @ crlf @ ''Upgrade: WebSocket'' @ crlf @ ''Connection: Upgrade'' @ crlf
     @ (if key ws \<noteq> [] then ''Sec-WebSocket-Accept: '' @ accept_key h mem stack (key ws) @ crlf else [])
     @ (if protocol ws \<noteq> [] then ''Sec-WebSocket-Protocol: '' @ protocol ws @ crlf else [])
     @ crlf"

subsection \<open>Frames\<close>

definition frame_head :: "WebSocketFrameType \<Rightarrow> nat \<Rightarrow> bytes" where
  "frame_head frame_type n =
     of_nat (frame_code frame_type) #
     (if n \<le> 125 then [of_nat n]
      else if n \<le> 65535 then [126, of_nat (n div 2 ^ 8), of_nat n]
      else [127, 0, 0, 0, 0, of_nat (n div 2 ^ 24), of_nat (n div 2 ^ 16), of_nat (n div 2 ^ 8), of_nat n])"

text \<open>
  \<^verbatim>\<open>makeFrame\<close> writes the head and the message into \<open>buffer\<close> and returns their length; it does not look at
  the size of the buffer.
\<close>

definition makeFrame :: "WebSocketFrameType \<Rightarrow> bytes \<Rightarrow> bytes \<Rightarrow> failure + nat \<times> bytes" where
  "makeFrame frame_type msg buffer =
     (let f = frame_head frame_type (length msg) @ msg
      in if length f \<le> length buffer then Inr (length f, write_at buffer 0 f) else Inl OutOfRange)"

fun unmask_from :: "nat \<Rightarrow> bytes \<Rightarrow> bytes \<Rightarrow> bytes" where
  "unmask_from i m [] = []"
| "unmask_from i m (c # cs) = (c XOR m ! (i mod 4)) # unmask_from (Suc i) m cs"

text \<open>The position of the payload and its length, as far as the shifts are defined.\<close>

definition payload_field :: "bytes \<Rightarrow> failure + nat \<times> nat" where
  "payload_field buf =
     (let length_field = unat (buf ! 1 AND NOT 0x80)
      in if length_field \<le> 125 then Inr (2, length_field)
         else if length_field = 126
         then (if length buf < 4 then Inl OutOfRange else Inr (4, unat (buf ! 2) * 2 ^ 8 + unat (buf ! 3)))
         else Inl BadShift)"

definition frame_type_of :: "byte \<Rightarrow> WebSocketFrameType" where
  "frame_type_of b =
     (let msg_opcode = b AND 0x0F; msg_fin = drop_bit 7 b AND 1
      in if msg_opcode = 0 \<or> msg_opcode = 1 then (if msg_fin \<noteq> 0 then TEXT_FRAME else INCOMPLETE_TEXT_FRAME)
         else if msg_opcode = 2 then (if msg_fin \<noteq> 0 then BINARY_FRAME else INCOMPLETE_BINARY_FRAME)
         else if msg_opcode = 9 then PING_FRAME
         else if msg_opcode = 0xA then PONG_FRAME
         else ERROR_FRAME)"

text \<open>
  \<^verbatim>\<open>getFrame\<close>: \<open>buf\<close> is the received data, \<open>out\<close> the output buffer. The result is the type, the
  received data (in which the payload is unmasked), the output buffer and the length stored.
\<close>

definition ws_getFrame :: "bytes \<Rightarrow> bytes \<Rightarrow> failure + WebSocketFrameType \<times> bytes \<times> bytes \<times> nat option" where
  "ws_getFrame buf out =
     (if length buf < 2 then Inr (INCOMPLETE_FRAME, buf, out, None)
      else (case payload_field buf of
              Inl e \<Rightarrow> Inl e
            | Inr (pos, payload_length) \<Rightarrow>
                if length buf < payload_length + pos then Inr (INCOMPLETE_FRAME, buf, out, None)
                else (let msg_masked = drop_bit 7 (buf ! 1) AND 1 \<noteq> 0;
                          pos2 = (if msg_masked then pos + 4 else pos)
                      in if length buf < pos2 + payload_length \<or> length out < payload_length + 1 then Inl OutOfRange
                         else (let payload = take payload_length (drop pos2 buf);
                                   clear = (if msg_masked then unmask_from 0 (take 4 (drop pos buf)) payload else payload)
                               in Inr (frame_type_of (buf ! 0), write_at buf pos2 clear,
                                       write_at (write_at out 0 clear) payload_length [0], Some (payload_length + 1))))))"


section \<open>Correctness of the handshake\<close>

subsection \<open>Rows\<close>

text \<open>A header row: not empty, on one line.\<close>

definition row_ok :: "string \<Rightarrow> bool" where
  "row_ok r \<longleftrightarrow> r \<noteq> [] \<and> CHR 0x0D \<notin> set r \<and> CHR 0x0A \<notin> set r"

definition rows_text :: "string list \<Rightarrow> string" where
  "rows_text rows = concat (map (\<lambda>r. r @ crlf) rows)"

lemma rows_text_simps [simp]:
  "rows_text [] = []" "rows_text (r # rs) = r @ crlf @ rows_text rs" "rows_text (rs @ rs') = rows_text rs @ rows_text rs'"
  by (simp_all add: rows_text_def)

lemma find_crlf: "row_ok r \<Longrightarrow> find_in crlf (r @ crlf @ s) = Some (length r)"
  using find_in_skip [of "CHR 0x0D" r "[CHR 0x0A]" "crlf @ s"] find_in_prefix [of crlf s]
  by (simp add: row_ok_def crlf_def)

text \<open>The end of the headers is the first empty row.\<close>

lemma find_header_end:
  assumes "\<forall>r \<in> set rows. row_ok r" "row_ok l"
  shows "find_in (crlf @ crlf) (rows_text rows @ l @ crlf @ crlf @ body) = Some (length (rows_text rows) + length l)"
  using assms(1)
proof (induction rows)
  case Nil
  have "find_in (crlf @ crlf) (l @ crlf @ crlf @ body) = map_option ((+) (length l)) (find_in (crlf @ crlf) (crlf @ crlf @ body))"
    using assms(2) find_in_skip [of "CHR 0x0D" l] by (simp add: row_ok_def crlf_def)
  then show ?case using find_in_prefix [of "crlf @ crlf" body] by (simp add: crlf_def)
next
  case (Cons r rows)
  let ?t = "rows_text rows @ l @ crlf @ crlf @ body"
  obtain c t where t: "?t = c # t" "c \<noteq> CHR 0x0D"
    using Cons.prems assms(2)
    by (cases rows; cases l; cases "hd rows") (auto simp: row_ok_def)
  have "find_in (crlf @ crlf) (r @ crlf @ ?t) = map_option ((+) (length r)) (find_in (crlf @ crlf) (crlf @ ?t))"
    using Cons.prems find_in_skip [of "CHR 0x0D" r] by (simp add: row_ok_def crlf_def)
  also have "find_in (crlf @ crlf) (crlf @ ?t) = map_option ((+) 2) (find_in (crlf @ crlf) ?t)"
    unfolding t(1) using t(2) by (simp add: crlf_def option.map_comp comp_def map_option_case split: option.splits)
  finally show ?case using Cons by (simp add: crlf_def)
qed

text \<open>Splitting at the ends of the rows keeps every row but the last.\<close>

lemma explode_rows:
  assumes "\<forall>r \<in> set rows. row_ok r" "row_ok l" "drop start s = rows_text rows @ l" "start \<le> length s"
  shows "explode_loop s crlf False start v = Some (v @ rows)"
  using assms
proof (induction rows arbitrary: start v)
  case Nil
  then have "find_in crlf (drop start s) = None" using find_in_None [of "CHR 0x0D" l] by (simp add: row_ok_def crlf_def)
  then show ?case using Nil by (simp add: explode_loop.simps str_find_def)
next
  case (Cons r rows)
  have r: "row_ok r" using Cons.prems(1) by simp
  have "find_in crlf (drop start s) = Some (length r)"
    using Cons.prems(3) find_crlf [OF r, of "rows_text rows @ l"] by simp
  then have e: "str_find s crlf start = Some (start + length r)" using Cons.prems(4) by (simp add: str_find_def)
  have "drop start s \<noteq> []" using Cons.prems(3) r by (simp add: row_ok_def)
  then have "start < length s" by (meson drop_eq_Nil leI)
  moreover have "take (length r) (drop start s) = r" "0 < length r"
    using Cons.prems(3) r by (simp_all add: row_ok_def)
  ultimately have "explode_loop s crlf False start v = explode_loop s crlf False (start + length r + 2) (v @ [r])"
    using e by (subst explode_loop.simps) (simp add: crlf_def)
  moreover have "drop (start + length r + 2) s = rows_text rows @ l"
    using arg_cong [OF Cons.prems(3), of "drop (length r + 2)"] by (simp add: crlf_def add.commute add.left_commute)
  moreover have "start + length r + 2 \<le> length s"
    using arg_cong [OF Cons.prems(3), of length] Cons.prems(4) by (simp add: crlf_def)
  ultimately show ?case using Cons.IH [of "start + length r + 2" "v @ [r]"] Cons.prems(1,2) by simp
qed

lemma explode_returns:
  assumes "d \<noteq> []" "start \<le> length s"
  shows "\<exists>w. explode_loop s d incl start v = Some w"
  using assms(2)
proof (induction "length s - start" arbitrary: start v rule: less_induct)
  case less
  show ?case
  proof (cases "str_find s d start")
    case None
    then show ?thesis by (subst explode_loop.simps) simp
  next
    case (Some e)
    have e: "start \<le> e" "e + length d \<le> length s"
      using Some find_in_bound [of d "drop start s"] assms(1) less.prems by (auto simp: str_find_def split: if_splits)
    moreover have "0 < length d" using assms(1) by simp
    ultimately have "length s - (e + length d) < length s - start" by linarith
    from less.hyps [OF this e(2)] show ?thesis using Some by (subst explode_loop.simps) simp
  qed
qed

lemma header_rows_return: "\<exists>ws'. header_rows rows ws = Some ws'"
proof (induction rows arbitrary: ws)
  case (Cons r rows)
  obtain w where "explode r '' '' False = Some w"
    using explode_returns [of "'' ''" 0 r False "[]"] by (auto simp: explode_def)
  then obtain ws' where "header_row r ws = Some ws'" by (cases "str_find r ''GET'' 0 = Some 0") (simp_all add: header_row_def)
  then show ?case using Cons by simp
qed simp

subsection \<open>The request\<close>

lemma handshake_rows:
  assumes "\<forall>r \<in> set rows. row_ok r" "row_ok l"
  shows "\<exists>ws'. header_rows rows ws = Some ws' \<and> parseHandshake (rows_text (rows @ [l]) @ crlf @ body) ws = Some (OPENING_FRAME, ws')"
proof -
  let ?s = "rows_text (rows @ [l]) @ crlf @ body" and ?n = "length (rows_text rows) + length l"
  obtain ws' where "header_rows rows ws = Some ws'" using header_rows_return by blast
  moreover have "str_find ?s (crlf @ crlf) 0 = Some ?n"
    using find_header_end [OF assms, of body] by (simp add: str_find_def)
  moreover have "take ?n ?s = rows_text rows @ l" by simp
  moreover have "explode (rows_text rows @ l) crlf False = Some rows"
    unfolding explode_def using explode_rows [OF assms, of 0 "rows_text rows @ l" "[]"] by simp
  ultimately show ?thesis by (simp add: parseHandshake_def)
qed

text \<open>
  A handshake request, a sequence of header rows closed by an empty row, is accepted whatever
  follows it, and every row but the last is evaluated in order: the last row has no influence on
  what is kept, so that a key sent in the last header is not answered.
\<close>

theorem handshake_ignores_last_row:
  assumes "\<forall>r \<in> set rows. row_ok r" "row_ok l"
  shows "\<exists>ws'. header_rows rows ws = Some ws' \<and> parseHandshake (rows_text (rows @ [l]) @ crlf @ body) ws = Some (OPENING_FRAME, ws')"
  by (rule handshake_rows [OF assms])

lemma row_ok_examples:
  "row_ok ''GET /chat HTTP/1.1''" "row_ok ''Sec-WebSocket-Key: abc''" "row_ok ''Host: a''"
  by (simp_all add: row_ok_def)

theorem handshake_ignores_last_row_witness:
  "\<exists>ws'. header_rows [''Host: a''] WebSocket_new = Some ws'
     \<and> parseHandshake (rows_text [''Host: a'', ''Sec-WebSocket-Key: abc''] @ crlf @ []) WebSocket_new = Some (OPENING_FRAME, ws')
     \<and> key ws' = []"
proof -
  have "str_find ''Host: a'' ''GET'' 0 = None" "str_find ''Host: a'' '':'' 0 = Some 4"
    by (simp_all add: str_find_def)
  then have "header_rows [''Host: a''] WebSocket_new = Some (WebSocket_new\<lparr>ws_host := ''a''\<rparr>)"
    by (simp add: header_row_def header_field_def trim_def is_space_def)
  then show ?thesis
    using handshake_ignores_last_row [of "[''Host: a'']" "''Sec-WebSocket-Key: abc''" WebSocket_new "[]"] row_ok_examples
    by (auto simp: WebSocket_new_def)
qed

subsection \<open>The answer\<close>

lemma exchange_little: "exchange (concat (map (store32 LITTLE_ENDIAN) ws)) = concat (map (store32 BIG_ENDIAN) ws)"
  by (induction ws) simp_all

lemma header_field_key:
  "key (header_field r ws) = key ws \<or> (\<exists>v. r = ''Sec-WebSocket-Key'' @ v)"
proof (cases "str_find r '':'' 0")
  case (Some pos)
  show ?thesis
  proof (cases "take pos r = ''Sec-WebSocket-Key''")
    case True
    then have "r = ''Sec-WebSocket-Key'' @ drop pos r" by (metis append_take_drop_id)
    then show ?thesis by blast
  next
    case False
    then show ?thesis using Some unfolding header_field_def by (simp add: Let_def)
  qed
qed (simp add: header_field_def)

lemma header_rows_key:
  "header_rows rows ws = Some ws' \<Longrightarrow> \<forall>r \<in> set rows. \<not> prefix ''Sec-WebSocket-Key'' r \<Longrightarrow> key ws' = key ws"
proof (induction rows arbitrary: ws)
  case (Cons r rows)
  from Cons.prems(1) obtain w where w: "header_row r ws = Some w" "header_rows rows w = Some ws'"
    by (auto simp: bind_eq_Some_conv)
  have "key w = key ws" using w(1) header_field_key [of r ws] Cons.prems(2)
    by (auto simp: header_row_def split: if_splits)
  then show ?case using Cons.IH [OF w(2)] Cons.prems(2) by simp
qed simp

lemma header_rows_append: "header_rows (xs @ ys) ws = Option.bind (header_rows xs ws) (header_rows ys)"
  by (induction xs arbitrary: ws) (auto split: bind_splits)

text \<open>No white space at the ends.\<close>

definition trimmed :: "string \<Rightarrow> bool" where
  "trimmed k \<longleftrightarrow> k \<noteq> [] \<and> \<not> is_space (hd k) \<and> \<not> is_space (last k)"

lemma trim_trimmed: "trimmed k \<Longrightarrow> trim (CHR '' '' # k) = k"
proof -
  assume k: "trimmed k"
  obtain c t where c: "k = c # t" "\<not> is_space c" using k by (cases k) (auto simp: trimmed_def)
  obtain u z where z: "k = u @ [z]" "\<not> is_space z" using k by (cases k rule: rev_cases) (auto simp: trimmed_def)
  have "dropWhile is_space (rev (CHR '' '' # k)) = rev (CHR '' '' # k)" using z by simp
  then show ?thesis using c by (simp add: trim_def is_space_def)
qed

lemma key_row:
  assumes "trimmed k"
  shows "header_row (''Sec-WebSocket-Key: '' @ k) ws = Some (ws\<lparr>key := k\<rparr>)"
proof -
  have "str_find (''Sec-WebSocket-Key: '' @ k) ''GET'' 0 \<noteq> Some 0"
    by (auto simp: str_find_def)
  moreover have "str_find (''Sec-WebSocket-Key: '' @ k) '':'' 0 = Some 17" by (simp add: str_find_def)
  ultimately show ?thesis using trim_trimmed [OF assms]
    unfolding header_row_def header_field_def by simp
qed

text \<open>
  What the protocol asks for: the base64 text, as RFC 4648 defines it, of the digest, as FIPS 180 defines it, of the key
  and the fixed identifier.
\<close>

definition accept_standard :: "string \<Rightarrow> string" where
  "accept_standard k = latin (rfc4648 (concat (map (store32 BIG_ENDIAN) (words (sha1_standard (ascii (k @ RFC6544_MAGIC_KEY)))))))"

lemma accept_key_standard:
  assumes "length mem = 64" "length k < 2 ^ 32"
  shows "accept_key LITTLE_ENDIAN mem stack k = accept_standard k"
proof -
  have "length (ascii (k @ RFC6544_MAGIC_KEY)) = length k + 36" by (simp add: ascii_def RFC6544_MAGIC_KEY_def)
  then have "8 * length (concat [ascii (k @ RFC6544_MAGIC_KEY)]) < 2 ^ 64" using assms(2) by simp
  from digest_of_message [OF assms(1) this] show ?thesis
    by (simp add: accept_key_def accept_standard_def exchange_little base64_encode_standard)
qed

text \<open>
  C31. On a little-endian host a request whose header rows contain a key, not in the last row, is answered with the
  acceptance value the protocol defines: the base64 text (RFC 4648) of the SHA-1 digest, in network order, of the key
  followed by the fixed identifier. The key has no white space at its ends and less than \<open>2\<^sup>32\<close> characters, the rows
  contain no line break, and no later row starts with the name of the key header.
\<close>

theorem handshake_answer:
  assumes "\<forall>r \<in> set (pre @ post). row_ok r" "row_ok l" "row_ok k" "trimmed k" "length k < 2 ^ 32" "length mem = 64"
    "\<forall>r \<in> set post. \<not> prefix ''Sec-WebSocket-Key'' r"
  shows "\<exists>ws t. parseHandshake (rows_text (pre @ [''Sec-WebSocket-Key: '' @ k] @ post @ [l]) @ crlf @ body) WebSocket_new = Some (OPENING_FRAME, ws)
      \<and> answerHandshake LITTLE_ENDIAN mem stack ws =
        ''HTTP/1.1 101 Switching Protocols'' @ crlf @ ''Upgrade: WebSocket'' @ crlf @ ''Connection: Upgrade'' @ crlf
        @ ''Sec-WebSocket-Accept: '' @ accept_standard k @ crlf @ t"
proof -
  let ?row = "''Sec-WebSocket-Key: '' @ k"
  have ok: "\<forall>r \<in> set (pre @ [?row] @ post). row_ok r" using assms(1,3) by (auto simp: row_ok_def)
  obtain ws where ws: "header_rows (pre @ [?row] @ post) WebSocket_new = Some ws"
    "parseHandshake (rows_text ((pre @ [?row] @ post) @ [l]) @ crlf @ body) WebSocket_new = Some (OPENING_FRAME, ws)"
    using handshake_rows [OF ok assms(2)] by blast
  obtain w where w: "header_rows pre WebSocket_new = Some w" using header_rows_return by blast
  have "header_rows post (w\<lparr>key := k\<rparr>) = Some ws" using ws(1) w key_row [OF assms(4), of w] by (simp add: header_rows_append)
  from header_rows_key [OF this assms(7)] have "key ws = k" by simp
  moreover have "k \<noteq> []" using assms(4) by (simp add: trimmed_def)
  ultimately have "answerHandshake LITTLE_ENDIAN mem stack ws =
      ''HTTP/1.1 101 Switching Protocols'' @ crlf @ ''Upgrade: WebSocket'' @ crlf @ ''Connection: Upgrade'' @ crlf
      @ ''Sec-WebSocket-Accept: '' @ accept_standard k @ crlf
      @ ((if protocol ws \<noteq> [] then ''Sec-WebSocket-Protocol: '' @ protocol ws @ crlf else []) @ crlf)"
    unfolding answerHandshake_def using accept_key_standard [OF assms(6,5)] by simp
  with ws(2) show ?thesis by auto
qed

theorem handshake_answer_witness:
  "\<exists>ws t. parseHandshake (rows_text [''GET /chat HTTP/1.1'', ''Sec-WebSocket-Key: abc'', ''Host: a''] @ crlf @ []) WebSocket_new = Some (OPENING_FRAME, ws)
     \<and> answerHandshake LITTLE_ENDIAN (replicate 64 0) [] ws =
        ''HTTP/1.1 101 Switching Protocols'' @ crlf @ ''Upgrade: WebSocket'' @ crlf @ ''Connection: Upgrade'' @ crlf
        @ ''Sec-WebSocket-Accept: '' @ accept_standard ''abc'' @ crlf @ t"
proof -
  have "trimmed ''abc''" by (simp add: trimmed_def is_space_def)
  moreover have "row_ok ''abc''" by (simp add: row_ok_def)
  ultimately show ?thesis
    using handshake_answer [of "[''GET /chat HTTP/1.1'']" "[]" "''Host: a''" "''abc''" "replicate 64 0" "[]" "[]"] row_ok_examples
    by simp
qed

subsection \<open>Frames\<close>

lemma bit_low7: "bit (w AND NOT 0x80) m \<longleftrightarrow> bit w m \<and> m \<noteq> 7" for w :: byte
  using bit_imp_le_length [of w m] by (auto simp only: bit_and_iff bit_not_iff bit_0x80) simp_all

lemma low_byte:
  assumes "n < 128"
  shows "unat ((of_nat n :: byte) AND NOT 0x80) = n" "drop_bit 7 (of_nat n :: byte) AND 1 = 0"
proof -
  have u: "unat (of_nat n :: byte) = n" using assms by (simp add: unat_of_nat)
  then have "unat (of_nat n :: byte) < 2 ^ 7" using assms by simp
  then have b: "bit (of_nat n :: byte) m \<Longrightarrow> m < 7" for m by (rule bit_small)
  have "(of_nat n :: byte) AND NOT 0x80 = of_nat n"
    by (rule bit_word_eqI) (use b in \<open>auto simp only: bit_low7\<close>)
  then show "unat ((of_nat n :: byte) AND NOT 0x80) = n" using u by simp
  have "drop_bit 7 (of_nat n :: byte) = 0"
  proof (rule bit_word_eqI)
    fix m show "bit (drop_bit 7 (of_nat n :: byte)) m = bit (0 :: byte) m"
      using b [of "7 + m"] by (simp only: bit_drop_bit_eq comp_def bit_0_eq) auto
  qed
  then show "drop_bit 7 (of_nat n :: byte) AND 1 = 0" by simp
qed

lemma payload_field_head:
  assumes "length m = n"
  shows "n \<le> 65535 \<Longrightarrow> payload_field (frame_head t n @ m) = Inr (length (frame_head t n), n)"
    and "65535 < n \<Longrightarrow> payload_field (frame_head t n @ m) = Inl BadShift"
    and "drop_bit 7 ((frame_head t n @ m) ! 1) AND 1 = 0"
proof -
  show "payload_field (frame_head t n @ m) = Inr (length (frame_head t n), n)" if "n \<le> 65535"
  proof (cases "n \<le> 125")
    case True
    then show ?thesis using low_byte(1) [of n] by (simp add: payload_field_def frame_head_def Let_def)
  next
    case False
    have "n div 256 < 256" using that by simp
    then have "unat (of_nat (n div 256) :: byte) = n div 256" by (simp add: unat_of_nat)
    moreover have "unat (of_nat n :: byte) = n mod 256" by (simp add: unat_of_nat)
    ultimately have "unat (of_nat (n div 256) :: byte) * 256 + unat (of_nat n :: byte) = n" by simp
    then show ?thesis using False that by (simp add: payload_field_def frame_head_def Let_def)
  qed
  show "payload_field (frame_head t n @ m) = Inl BadShift" if "65535 < n"
    using that by (simp add: payload_field_def frame_head_def Let_def)
  show "drop_bit 7 ((frame_head t n @ m) ! 1) AND 1 = 0"
    using low_byte(2) [of n] by (simp add: frame_head_def)
qed

definition carries :: "WebSocketFrameType \<Rightarrow> bool" where
  "carries t \<longleftrightarrow> t \<in> {INCOMPLETE_TEXT_FRAME, INCOMPLETE_BINARY_FRAME, TEXT_FRAME, BINARY_FRAME, PING_FRAME, PONG_FRAME}"

lemma frame_type_head: "carries t \<Longrightarrow> frame_type_of ((frame_head t n @ m) ! 0) = t"
  by (auto simp: carries_def frame_head_def frame_type_of_def)

text \<open>
  A message of at most 65535 bytes written by \<^verbatim>\<open>makeFrame\<close> into a buffer that is large enough is read
  back by \<^verbatim>\<open>getFrame\<close> with its type, followed by a zero byte; for a longer message the lengths
  are shifted by more than the width of \<^verbatim>\<open>int\<close>.
\<close>

theorem codec_roundtrip:
  assumes "carries t" "length msg + 10 \<le> length buffer" "length msg < length out"
  shows "\<exists>n b. makeFrame t msg buffer = Inr (n, b)
      \<and> (length msg \<le> 65535 \<longrightarrow>
          (\<exists>out'. ws_getFrame (take n b) out = Inr (t, take n b, out', Some (length msg + 1)) \<and> take (length msg + 1) out' = msg @ [0]))
      \<and> (65535 < length msg \<longrightarrow> ws_getFrame (take n b) out = Inl BadShift)"
proof -
  let ?h = "frame_head t (length msg)"
  let ?f = "?h @ msg"
  let ?b = "write_at buffer 0 ?f"
  have hl: "length ?h \<le> 10" "2 \<le> length ?h" by (simp_all add: frame_head_def)
  then have m: "makeFrame t msg buffer = Inr (length ?f, ?b)" using assms(2) by (simp add: makeFrame_def)
  have tk: "take (length ?f) ?b = ?f" by (simp add: write_at_def)
  have short: "\<exists>out'. ws_getFrame ?f out = Inr (t, ?f, out', Some (length msg + 1)) \<and> take (length msg + 1) out' = msg @ [0]"
    if l: "length msg \<le> 65535"
  proof -
    let ?o = "write_at (write_at out 0 msg) (length msg) [0]"
    have "ws_getFrame ?f out = Inr (frame_type_of (?f ! 0), write_at ?f (length ?h) msg, ?o, Some (length msg + 1))"
      unfolding ws_getFrame_def payload_field_head(1) [OF refl l]
      using payload_field_head(3) [of msg "length msg" t] assms(3) hl by (simp add: Let_def)
    moreover have "write_at ?f (length ?h) msg = ?f" by (simp add: write_at_def)
    moreover have "take (length msg + 1) ?o = msg @ [0]" using assms(3) by (simp add: write_at_def)
    ultimately show ?thesis using frame_type_head [OF assms(1)] by simp
  qed
  have long: "ws_getFrame ?f out = Inl BadShift" if "65535 < length msg"
    unfolding ws_getFrame_def payload_field_head(2) [OF refl that] using hl by simp
  show ?thesis using m tk short long by (intro exI [of _ "length ?f"] exI [of _ ?b]) simp
qed

theorem codec_roundtrip_witness:
  "\<exists>n b. makeFrame TEXT_FRAME [72, 105] (replicate 20 0) = Inr (n, b)
     \<and> (\<exists>out'. ws_getFrame (take n b) (replicate 20 0) = Inr (TEXT_FRAME, take n b, out', Some 3) \<and> take 3 out' = [72, 105, 0])"
  using codec_roundtrip [of TEXT_FRAME "[72, 105]" "replicate 20 0" "replicate 20 0"] by (auto simp: carries_def numeral_3_eq_3)

text \<open>The mask key is not counted: a masked frame that lacks its last bytes is read past its end.\<close>

lemma masked_frame_overread:
  assumes "n \<le> 125" "length rest = n + k" "k < 4" "n < length out"
  shows "ws_getFrame (b # (0x80 OR of_nat n) # rest) out = Inl OutOfRange"
proof -
  have u: "unat (of_nat n :: byte) < 2 ^ 7" using assms(1) by (simp add: unat_of_nat)
  then have s: "bit (of_nat n :: byte) m \<Longrightarrow> m < 7" for m by (rule bit_small)
  have "(0x80 OR of_nat n :: byte) AND NOT 0x80 = of_nat n"
    by (rule bit_word_eqI) (use s in \<open>auto simp only: bit_low7 bit_or_iff bit_0x80\<close>)
  moreover have "bit (drop_bit 7 (0x80 OR of_nat n :: byte) AND 1) 0" by (simp add: bit_simps bit_0x80)
  then have "drop_bit 7 (0x80 OR of_nat n :: byte) AND 1 \<noteq> 0" by (metis bit_0_eq bot_apply bot_bool_def)
  moreover have "unat (of_nat n :: byte) = n" using assms(1) by (simp add: unat_of_nat)
  ultimately show ?thesis using assms by (simp add: ws_getFrame_def payload_field_def Let_def)
qed

end
