(* ===== verification/Id_Allocator.thy ===== *)
theory Id_Allocator
  imports Prelude
begin

unbundle bit_operations_syntax

section \<open>Packed identifiers (basic/tool)\<close>

text \<open>
  \<^verbatim>\<open>PackedIDAllocator\<close>: a bitmap of 64 bit chunks with the position of the next identifier to hand
  out. Every public operation holds one mutex and is one step. Whether the vector can be
  resized is an argument of \<^verbatim>\<open>alloc\<close>.
\<close>

datatype id_error = SUCCESS | INVALID_ID | ALREADY_FREED | NO_AVAILABLE_ID | EXPAND_FAILED

record id_alloc =
  m_bit_map :: "u64 list"
  m_next_chunk :: nat
  m_next_bit :: int
  error_code :: id_error

definition PackedIDAllocator_new :: "int \<Rightarrow> failure + id_alloc" where
  "PackedIDAllocator_new n =
     (if n < 0 then Inl (Thrown ''vector::_M_fill_insert'')
      else Inr \<lparr>m_bit_map = replicate (nat n) 0, m_next_chunk = 0, m_next_bit = 0, error_code = SUCCESS\<rparr>)"

definition id_getSize :: "id_alloc \<Rightarrow> nat" where
  "id_getSize a = length (m_bit_map a) * 64"

definition id_expand :: "bool \<Rightarrow> id_alloc \<Rightarrow> int \<times> id_alloc" where
  "id_expand resize_ok a =
     (if resize_ok then (0, a\<lparr>m_bit_map := m_bit_map a @ replicate (length (m_bit_map a)) 0\<rparr>)
      else (-1, a\<lparr>error_code := EXPAND_FAILED\<rparr>))"

text \<open>\<^verbatim>\<open>std::countr_zero\<close>: the number of zero bits below the lowest one.\<close>

definition countr_zero :: "u64 \<Rightarrow> nat" where
  "countr_zero w = length (takeWhile (\<lambda>i. \<not> bit w i) [0..<64])"

text \<open>The search loop of \<^verbatim>\<open>alloc\<close>, over the chunks from index \<open>i\<close> on.\<close>

fun scan :: "nat \<Rightarrow> u64 list \<Rightarrow> (nat \<times> nat) option" where
  "scan i [] = None"
| "scan i (w # ws) = (if w \<noteq> u64_max then Some (i, countr_zero (NOT w)) else scan (Suc i) ws)"

definition alloc :: "bool \<Rightarrow> id_alloc \<Rightarrow> failure + int \<times> id_alloc" where
  "alloc resize_ok a =
     (if length (m_bit_map a) \<le> m_next_chunk a then Inl OutOfRange
      else if m_next_bit a < 0 then Inl BadShift
      else (let rt = sint (of_nat (8 * m_next_chunk a * 8) + of_int (m_next_bit a) :: 32 word);
                bm = (m_bit_map a)[m_next_chunk a := m_bit_map a ! m_next_chunk a OR push_bit (nat (m_next_bit a)) 1];
                a1 = a\<lparr>m_bit_map := bm\<rparr>
            in case scan (m_next_chunk a) (drop (m_next_chunk a) bm) of
                 Some (i, b) \<Rightarrow> Inr (rt, a1\<lparr>m_next_chunk := i, m_next_bit := int b\<rparr>)
               | None \<Rightarrow> (let (e, a2) = id_expand resize_ok (a1\<lparr>m_next_chunk := length bm, m_next_bit := 0\<rparr>)
                         in Inr (rt, if e < 0 then a2\<lparr>m_next_chunk := 0, m_next_bit := -1\<rparr> else a2))))"

text \<open>\<^verbatim>\<open>static_cast<int>\<close> of a size: the low 32 bits, read as a signed number.\<close>

definition cast_int :: "nat \<Rightarrow> int" where
  "cast_int n = sint (of_nat n :: 32 word)"

definition free :: "int \<Rightarrow> id_alloc \<Rightarrow> failure + int \<times> id_alloc" where
  "free n a =
     (if n > cast_int (id_getSize a) then Inr (-1, a\<lparr>error_code := INVALID_ID\<rparr>)
      else if n < 0 then Inl BadShift
      else (let chunk_index = nat n div 64; bit_index = nat n mod 64; msk = push_bit bit_index (1 :: u64)
            in if length (m_bit_map a) \<le> chunk_index then Inl OutOfRange
               else if m_bit_map a ! chunk_index AND msk = 0 then Inr (-1, a\<lparr>error_code := ALREADY_FREED\<rparr>)
               else (let a1 = a\<lparr>m_bit_map := (m_bit_map a)[chunk_index := m_bit_map a ! chunk_index AND NOT msk]\<rparr>
                     in Inr (0, if int chunk_index < cast_int (m_next_chunk a) \<or> int chunk_index = cast_int (m_next_chunk a) \<and> int bit_index < m_next_bit a
                                then a1\<lparr>m_next_chunk := chunk_index, m_next_bit := int bit_index\<rparr> else a1))))"

subsection \<open>Interface: a source of identifiers\<close>

text \<open>A client takes identifiers and gives back the k-th of those it holds.\<close>

fun client :: "('s \<Rightarrow> (nat \<times> 's) option) \<Rightarrow> (nat \<Rightarrow> 's \<Rightarrow> 's option) \<Rightarrow> nat option list \<Rightarrow> 's \<times> nat list \<Rightarrow> ('s \<times> nat list) option" where
  "client get put [] sh = Some sh"
| "client get put (None # ops) (s, held) =
     (case get s of None \<Rightarrow> None | Some (n, s') \<Rightarrow> client get put ops (s', n # held))"
| "client get put (Some k # ops) (s, held) =
     (if k < length held
      then (case put (held ! k) s of None \<Rightarrow> None | Some s' \<Rightarrow> client get put ops (s', take k held @ drop (Suc k) held))
      else client get put ops (s, held))"

lemma drop_nth_set:
  assumes "distinct xs" "k < length xs"
  shows "set (take k xs @ drop (Suc k) xs) = set xs - {xs ! k}" "distinct (take k xs @ drop (Suc k) xs)"
proof -
  have xs: "xs = take k xs @ xs ! k # drop (Suc k) xs" using assms(2) by (rule id_take_nth_drop)
  from assms(1) have "distinct (take k xs @ xs ! k # drop (Suc k) xs)" using xs by simp
  then have d: "distinct (take k xs @ drop (Suc k) xs)" "xs ! k \<notin> set (take k xs @ drop (Suc k) xs)" by auto
  show "distinct (take k xs @ drop (Suc k) xs)" by (rule d(1))
  have "set xs = insert (xs ! k) (set (take k xs @ drop (Suc k) xs))" using arg_cong [OF xs, of set] by simp
  then show "set (take k xs @ drop (Suc k) xs) = set xs - {xs ! k}" using d(2) by simp
qed

text \<open>
  The contract a client of an identifier source relies on, over the set of identifiers in use:
  a new identifier is the smallest one not in use, giving back releases exactly the given one,
  and releasing one that is not in use is refused.
\<close>

locale id_source =
  fixes used :: "'s \<Rightarrow> nat set" and inv :: "'s \<Rightarrow> bool" and get :: "'s \<Rightarrow> (nat \<times> 's) option" and put :: "nat \<Rightarrow> 's \<Rightarrow> 's option"
  assumes get_law: "inv s \<Longrightarrow> get s = Some (n, s') \<Longrightarrow> inv s' \<and> n \<notin> used s \<and> (\<forall>k<n. k \<in> used s) \<and> used s' = insert n (used s)"
    and put_law: "inv s \<Longrightarrow> n \<in> used s \<Longrightarrow> \<exists>s'. put n s = Some s' \<and> inv s' \<and> used s' = used s - {n}"
begin

lemma client_holds_distinct:
  "inv s \<Longrightarrow> distinct held \<Longrightarrow> set held = used s \<Longrightarrow> client get put ops (s, held) = Some (s', held') \<Longrightarrow>
   inv s' \<and> distinct held' \<and> set held' = used s'"
proof (induction ops arbitrary: s held)
  case (Cons op ops)
  show ?case
  proof (cases op)
    case None
    then obtain n t where t: "get s = Some (n, t)" "client get put ops (t, n # held) = Some (s', held')"
      using Cons.prems(4) by (auto split: option.splits)
    have "inv t \<and> n \<notin> used s \<and> used t = insert n (used s)" using get_law [OF Cons.prems(1) t(1)] by blast
    then show ?thesis using Cons.IH [OF _ _ _ t(2)] Cons.prems(2,3) by simp
  next
    case (Some k)
    show ?thesis
    proof (cases "k < length held")
      case True
      note d = drop_nth_set [OF Cons.prems(2) True]
      have "held ! k \<in> used s" using Cons.prems(3) True nth_mem by blast
      then obtain t where t: "put (held ! k) s = Some t" "inv t" "used t = used s - {held ! k}"
        using put_law [OF Cons.prems(1)] by blast
      then have "client get put ops (t, take k held @ drop (Suc k) held) = Some (s', held')"
        using Cons.prems(4) Some True by simp
      then show ?thesis using Cons.IH [OF t(2) d(2)] d(1) t(3) Cons.prems(3) by simp
    next
      case False
      then show ?thesis using Cons Some by simp
    qed
  qed
qed simp

end

subsection \<open>The bitmap as a set\<close>

definition ids :: "u64 list \<Rightarrow> nat set" where
  "ids bm = {n. n < length bm * 64 \<and> bit (bm ! (n div 64)) (n mod 64)}"

definition next_id :: "id_alloc \<Rightarrow> nat" where
  "next_id a = m_next_chunk a * 64 + nat (m_next_bit a)"

definition id_inv :: "id_alloc \<Rightarrow> bool" where
  "id_inv a \<longleftrightarrow> m_next_chunk a < length (m_bit_map a) \<and> 0 \<le> m_next_bit a \<and> m_next_bit a < 64 \<and>
     next_id a \<notin> ids (m_bit_map a) \<and> (\<forall>k<next_id a. k \<in> ids (m_bit_map a))"

lemma split_id: "b < 64 \<Longrightarrow> (c * 64 + b) div 64 = c \<and> (c * 64 + b) mod 64 = b" for c b :: nat
  by simp

lemma mem_ids: "b < 64 \<Longrightarrow> c * 64 + b \<in> ids bm \<longleftrightarrow> c < length bm \<and> bit (bm ! c) b"
  by (auto simp: ids_def)

lemma ids_cases: obtains c b where "n = c * 64 + b" "b < (64 :: nat)"
proof -
  have "n = n div 64 * 64 + n mod 64" by simp
  then show ?thesis using that [of "n div 64" "n mod 64"] by simp
qed

lemma id_unique: "b' < 64 \<Longrightarrow> b < 64 \<Longrightarrow> c' * 64 + b' = c * 64 + b \<longleftrightarrow> c' = c \<and> b' = b" for b b' c c' :: nat
  by (metis split_id)

lemma bit_one_shift: "b < 64 \<Longrightarrow> bit (2 ^ b :: u64) k \<longleftrightarrow> k = b"
  by (auto simp: bit_simps)

lemma ids_set:
  assumes "c < length bm" "b < 64"
  shows "ids (bm[c := bm ! c OR push_bit b 1]) = insert (c * 64 + b) (ids bm)"
proof (rule set_eqI)
  fix n :: nat
  obtain c' b' where n: "n = c' * 64 + b'" "b' < 64" by (rule ids_cases)
  have "n = c * 64 + b \<longleftrightarrow> c' = c \<and> b' = b" using id_unique [OF n(2) assms(2)] n(1) by simp
  then show "n \<in> ids (bm[c := bm ! c OR push_bit b 1]) \<longleftrightarrow> n \<in> insert (c * 64 + b) (ids bm)"
    using assms n by (auto simp: mem_ids nth_list_update bit_or_iff bit_one_shift)
qed

lemma ids_clear:
  assumes "c < length bm" "b < 64"
  shows "ids (bm[c := bm ! c AND NOT (push_bit b 1)]) = ids bm - {c * 64 + b}"
proof (rule set_eqI)
  fix n :: nat
  obtain c' b' where n: "n = c' * 64 + b'" "b' < 64" by (rule ids_cases)
  have "n = c * 64 + b \<longleftrightarrow> c' = c \<and> b' = b" using id_unique [OF n(2) assms(2)] n(1) by simp
  then show "n \<in> ids (bm[c := bm ! c AND NOT (push_bit b 1)]) \<longleftrightarrow> n \<in> ids bm - {c * 64 + b}"
    using assms n by (auto simp: mem_ids nth_list_update bit_and_iff bit_not_iff bit_one_shift)
qed

lemma ids_grow: "ids (bm @ replicate k 0) = ids bm"
proof (rule set_eqI)
  fix n :: nat
  obtain c b where "n = c * 64 + b" "b < 64" by (rule ids_cases)
  then show "n \<in> ids (bm @ replicate k 0) \<longleftrightarrow> n \<in> ids bm" by (auto simp: mem_ids nth_append)
qed

lemma ids_full: "c < length bm \<Longrightarrow> bm ! c = u64_max \<Longrightarrow> b < 64 \<Longrightarrow> c * 64 + b \<in> ids bm"
  by (simp add: mem_ids)

text \<open>The first zero bit of a chunk that is not full.\<close>

lemma countr_zero_first:
  assumes "w \<noteq> u64_max"
  shows "countr_zero (NOT w) < 64" "\<not> bit w (countr_zero (NOT w))" "k < countr_zero (NOT w) \<Longrightarrow> bit w k"
proof -
  let ?P = "\<lambda>i. \<not> bit (NOT w) i"
  have "\<exists>i<64. \<not> bit w i"
  proof (rule ccontr)
    assume "\<not> (\<exists>i<64. \<not> bit w i)"
    then have "w = u64_max" by (intro bit_word_eqI) simp
    with assms show False by simp
  qed
  then obtain i where "i < 64" "\<not> ?P i" by (auto simp: bit_not_iff)
  then have "takeWhile ?P [0..<64] \<noteq> [0..<64]" by (metis atLeastLessThan_iff set_takeWhileD set_upt zero_le)
  then have l: "length (takeWhile ?P [0..<64]) < length [0..<64 :: nat]"
    by (metis length_takeWhile_le nat_less_le takeWhile_eq_take take_all order_refl)
  then show c: "countr_zero (NOT w) < 64" by (simp add: countr_zero_def)
  have "\<not> ?P ([0..<64] ! countr_zero (NOT w))" unfolding countr_zero_def using nth_length_takeWhile [OF l] .
  then show "\<not> bit w (countr_zero (NOT w))" using c by (simp add: bit_not_iff)
  show "bit w k" if "k < countr_zero (NOT w)"
  proof -
    have "takeWhile ?P [0..<64] ! k \<in> set (takeWhile ?P [0..<64])" using that by (intro nth_mem) (simp add: countr_zero_def)
    then have "?P (takeWhile ?P [0..<64] ! k)" by (rule set_takeWhileD [THEN conjunct2])
    moreover have "takeWhile ?P [0..<64] ! k = k" using that c by (simp add: takeWhile_nth countr_zero_def)
    ultimately show ?thesis using that c by (simp add: bit_not_iff)
  qed
qed

lemma scan_some:
  "scan i ws = Some (j, b) \<Longrightarrow> i \<le> j \<and> j - i < length ws \<and> ws ! (j - i) \<noteq> u64_max \<and> b = countr_zero (NOT (ws ! (j - i))) \<and>
     (\<forall>k<j - i. ws ! k = u64_max)"
proof (induction ws arbitrary: i)
  case (Cons w ws)
  show ?case
  proof (cases "w = u64_max")
    case True
    then have h: "Suc i \<le> j \<and> j - Suc i < length ws \<and> ws ! (j - Suc i) \<noteq> u64_max \<and> b = countr_zero (NOT (ws ! (j - Suc i))) \<and>
        (\<forall>k<j - Suc i. ws ! k = u64_max)"
      using Cons by simp
    then obtain d where "j = Suc i + d" using le_Suc_ex by blast
    then show ?thesis using h True by (auto simp: nth_Cons split: nat.splits)
  next
    case False
    then show ?thesis using Cons.prems by auto
  qed
qed simp

lemma scan_none: "scan i ws = None \<Longrightarrow> w \<in> set ws \<Longrightarrow> w = u64_max"
  by (induction ws arbitrary: i) (auto split: if_splits)

subsection \<open>Allocation\<close>

lemma below_chunk: "id_inv a \<Longrightarrow> c < m_next_chunk a \<Longrightarrow> b < 64 \<Longrightarrow> c * 64 + b \<in> ids (m_bit_map a)"
  unfolding id_inv_def next_id_def by auto

text \<open>The position found by the search is the smallest identifier not in use.\<close>

lemma scan_next:
  assumes lt: "c0 < length bm" and below: "\<And>c b. c < c0 \<Longrightarrow> b < 64 \<Longrightarrow> c * 64 + b \<in> ids bm"
    and sc: "scan c0 (drop c0 bm) = Some (i, b)"
  shows "i < length bm" "b < 64" "i * 64 + b \<notin> ids bm" "\<And>k. k < i * 64 + b \<Longrightarrow> k \<in> ids bm"
proof -
  have s: "c0 \<le> i" "i - c0 < length (drop c0 bm)" "drop c0 bm ! (i - c0) \<noteq> u64_max"
    "b = countr_zero (NOT (drop c0 bm ! (i - c0)))" "\<And>k. k < i - c0 \<Longrightarrow> drop c0 bm ! k = u64_max"
    using scan_some [OF sc] by blast+
  then have n: "drop c0 bm ! (i - c0) = bm ! i" using lt by simp
  note c = countr_zero_first [OF s(3), unfolded n, folded s(4) [unfolded n]]
  show i: "i < length bm" using s(1,2) lt by simp
  show "b < 64" by (rule c(1))
  then show "i * 64 + b \<notin> ids bm" using c(2) by (simp add: mem_ids)
  show "k \<in> ids bm" if "k < i * 64 + b" for k
  proof -
    obtain c' b' where k: "k = c' * 64 + b'" "b' < 64" by (rule ids_cases)
    then consider "c' < c0" | "c0 \<le> c'" "c' < i" | "c' = i" "b' < b" using \<open>k < i * 64 + b\<close> c(1) by linarith
    then show ?thesis
    proof cases
      case 1
      then show ?thesis using below k by simp
    next
      case 2
      then have "bm ! c' = u64_max" using s(5) [of "c' - c0"] lt by simp
      then show ?thesis using ids_full 2 i k by simp
    next
      case 3
      then show ?thesis using c(3) i k by (simp add: mem_ids)
    qed
  qed
qed

lemma scan_full:
  assumes "c0 \<le> length bm" "\<And>c b. c < c0 \<Longrightarrow> b < 64 \<Longrightarrow> c * 64 + b \<in> ids bm" "scan c0 (drop c0 bm) = None" "k < length bm * 64"
  shows "k \<in> ids bm"
proof -
  obtain c b where k: "k = c * 64 + b" "b < 64" by (rule ids_cases)
  show ?thesis
  proof (cases "c < c0")
    case True
    then show ?thesis using assms(2) k by simp
  next
    case False
    have c: "c < length bm" using k assms(4) by simp
    have "bm ! c \<in> set (drop c0 bm)" using False c assms(1) by (metis in_set_conv_nth diff_less_mono le_add_diff_inverse length_drop not_le nth_drop)
    then show ?thesis using scan_none [OF assms(3)] ids_full [of c bm] c k by simp
  qed
qed

text \<open>The identifier returned by \<^verbatim>\<open>alloc\<close>, as an \<^verbatim>\<open>int\<close>.\<close>

lemma returned_int:
  assumes "c * 64 + b < 2 ^ 31"
  shows "sint (of_nat (8 * c * 8) + of_int (int b) :: 32 word) = int (c * 64 + b)"
proof -
  have "of_nat (8 * c * 8) + of_int (int b) = (of_nat (c * 64 + b) :: 32 word)" by (simp add: algebra_simps)
  moreover have "sint (of_nat (c * 64 + b) :: 32 word) = int (c * 64 + b)"
    using assms by (simp only: signed_of_nat) (simp add: signed_take_bit_int_eq_self)
  ultimately show ?thesis by (simp only:)
qed

lemma alloc_inv:
  assumes inv: "id_inv a" and small: "id_getSize a \<le> 2 ^ 31"
  shows "\<exists>a'. alloc True a = Inr (int (next_id a), a') \<and> id_inv a' \<and> ids (m_bit_map a') = insert (next_id a) (ids (m_bit_map a))"
proof -
  define c0 where "c0 = m_next_chunk a"
  define b0 where "b0 = nat (m_next_bit a)"
  define bm where "bm = (m_bit_map a)[c0 := m_bit_map a ! c0 OR push_bit b0 1]"
  have lt: "c0 < length (m_bit_map a)" "b0 < 64" "m_next_bit a = int b0" "next_id a = c0 * 64 + b0" "length bm = length (m_bit_map a)"
    using inv by (auto simp: id_inv_def c0_def b0_def next_id_def bm_def)
  have ids: "ids bm = insert (c0 * 64 + b0) (ids (m_bit_map a))" unfolding bm_def by (rule ids_set [OF lt(1,2)])
  have below: "c * 64 + b \<in> ids bm" if "c < c0" "b < 64" for c b
    using below_chunk [OF inv, of c b] that ids by (simp add: c0_def)
  have "c0 * 64 + b0 < 2 ^ 31" using lt small by (simp add: id_getSize_def)
  then have rt: "sint (of_nat (8 * m_next_chunk a * 8) + of_int (m_next_bit a) :: 32 word) = int (next_id a)"
    using returned_int lt(3,4) by (simp only: c0_def)
  show ?thesis
  proof (cases "scan c0 (drop c0 bm)")
    case (Some ib)
    obtain i b where ib: "ib = (i, b)" by (cases ib)
    define a' where "a' = a\<lparr>m_bit_map := bm, m_next_chunk := i, m_next_bit := int b\<rparr>"
    have "alloc True a = Inr (int (next_id a), a')"
      unfolding alloc_def Let_def rt unfolding a'_def c0_def [symmetric] b0_def [symmetric] bm_def [symmetric] using lt(1,3) Some ib by simp
    moreover have "id_inv a'"
      using scan_next [OF lt(1) [folded lt(5)] below Some [unfolded ib]] by (simp add: id_inv_def next_id_def a'_def)
    ultimately show ?thesis using ids lt(4) by (simp add: a'_def)
  next
    case None
    define a' where "a' = a\<lparr>m_bit_map := bm @ replicate (length bm) 0, m_next_chunk := length bm, m_next_bit := 0\<rparr>"
    have "alloc True a = Inr (int (next_id a), a')"
      unfolding alloc_def Let_def rt unfolding a'_def c0_def [symmetric] b0_def [symmetric] bm_def [symmetric] using lt(1,3) None
      by (simp add: id_expand_def)
    moreover have "length bm * 64 \<notin> ids bm" by (simp add: ids_def)
    then have "id_inv a'"
      using scan_full [of c0 bm, OF _ below None] lt by (auto simp: id_inv_def next_id_def a'_def ids_grow)
    ultimately show ?thesis using ids lt(4) by (simp add: a'_def ids_grow)
  qed
qed

subsection \<open>Release\<close>

lemma in_use_bit:
  "n < id_getSize a \<Longrightarrow> m_bit_map a ! (n div 64) AND push_bit (n mod 64) 1 = 0 \<longleftrightarrow> n \<notin> ids (m_bit_map a)"
  using and_mask_bit_iff [of "m_bit_map a ! (n div 64)" "n mod 64"]
  by (simp only: ids_def id_getSize_def push_bit_of_1 mem_Collect_eq) blast

lemma cast_int_small: "n < 2 ^ 31 \<Longrightarrow> cast_int n = int n"
  unfolding cast_int_def by (simp add: signed_of_nat signed_take_bit_int_eq_self)

lemma free_inv:
  assumes inv: "id_inv a" and n: "n \<in> ids (m_bit_map a)" and small: "id_getSize a < 2 ^ 31"
  shows "\<exists>a'. free (int n) a = Inr (0, a') \<and> id_inv a' \<and> ids (m_bit_map a') = ids (m_bit_map a) - {n} \<and>
    length (m_bit_map a') = length (m_bit_map a)"
proof -
  define c where "c = n div 64"
  define b where "b = n mod 64"
  define bm where "bm = (m_bit_map a)[c := m_bit_map a ! c AND NOT (push_bit b 1)]"
  have nb: "n = c * 64 + b" "b < 64" by (simp_all add: c_def b_def)
  have sz: "n < id_getSize a" using n by (simp add: ids_def id_getSize_def)
  then have c: "c < length (m_bit_map a)" using nb by (simp add: id_getSize_def)
  have ids: "ids bm = ids (m_bit_map a) - {n}" unfolding bm_def nb(1) by (rule ids_clear [OF c nb(2)])
  define a' where "a' = (if c < m_next_chunk a \<or> c = m_next_chunk a \<and> int b < m_next_bit a
    then a\<lparr>m_bit_map := bm, m_next_chunk := c, m_next_bit := int b\<rparr> else a\<lparr>m_bit_map := bm\<rparr>)"
  have cast: "cast_int (id_getSize a) = int (id_getSize a)" "cast_int (m_next_chunk a) = int (m_next_chunk a)"
    using cast_int_small [OF small] cast_int_small [of "m_next_chunk a"] small inv by (simp_all add: id_inv_def id_getSize_def)
  have f: "free (int n) a = Inr (0, a')"
    using sz c in_use_bit [OF sz] n by (simp add: free_def Let_def a'_def bm_def c_def b_def cast)
  have lt: "c < m_next_chunk a \<or> c = m_next_chunk a \<and> int b < m_next_bit a \<longleftrightarrow> n < next_id a"
    using nb inv by (auto simp: next_id_def id_inv_def)
  have len: "length bm = length (m_bit_map a)" by (simp add: bm_def)
  have "id_inv a'"
  proof (cases "n < next_id a")
    case True
    then have a': "a' = a\<lparr>m_bit_map := bm, m_next_chunk := c, m_next_bit := int b\<rparr>" using lt by (simp add: a'_def)
    then have "next_id a' = n" using nb by (simp add: next_id_def)
    moreover have "k \<in> ids bm" if "k < n" for k using that True inv ids by (auto simp: id_inv_def)
    ultimately show ?thesis using a' c nb(2) ids len by (auto simp: id_inv_def)
  next
    case False
    then have a': "a' = a\<lparr>m_bit_map := bm\<rparr>" using lt by (simp add: a'_def)
    then have "next_id a' = next_id a" by (simp add: next_id_def)
    then show ?thesis using inv a' ids len False by (auto simp: id_inv_def)
  qed
  then show ?thesis using f ids len by (auto simp: a'_def)
qed

subsection \<open>The allocator as a source of identifiers\<close>

text \<open>Allocation is used as long as the capacity stays in the range of \<^verbatim>\<open>int\<close>.\<close>

definition id_get :: "id_alloc \<Rightarrow> (nat \<times> id_alloc) option" where
  "id_get a =
     (case alloc True a of Inl e \<Rightarrow> None | Inr (n, a') \<Rightarrow> if id_getSize a' < 2 ^ 31 then Some (nat n, a') else None)"

definition id_put :: "nat \<Rightarrow> id_alloc \<Rightarrow> id_alloc option" where
  "id_put n a = (case free (int n) a of Inr (rt, a') \<Rightarrow> if rt = 0 then Some a' else None | Inl e \<Rightarrow> None)"

interpretation ida: id_source "\<lambda>a. ids (m_bit_map a)" "\<lambda>a. id_inv a \<and> id_getSize a < 2 ^ 31" id_get id_put
proof unfold_locales
  fix s n s'
  assume inv: "id_inv s \<and> id_getSize s < 2 ^ 31" and g: "id_get s = Some (n, s')"
  then obtain a' where a': "alloc True s = Inr (int (next_id s), a')" "id_inv a'"
      "ids (m_bit_map a') = insert (next_id s) (ids (m_bit_map s))"
    using alloc_inv [of s] by (meson less_imp_le)
  then have "n = next_id s" "s' = a'" "id_getSize a' < 2 ^ 31" using g by (simp_all add: id_get_def split: if_splits)
  then show "(id_inv s' \<and> id_getSize s' < 2 ^ 31) \<and> n \<notin> ids (m_bit_map s) \<and> (\<forall>k<n. k \<in> ids (m_bit_map s)) \<and>
      ids (m_bit_map s') = insert n (ids (m_bit_map s))"
    using a' inv by (simp add: id_inv_def)
next
  fix s n
  assume "id_inv s \<and> id_getSize s < 2 ^ 31" "n \<in> ids (m_bit_map s)"
  then show "\<exists>s'. id_put n s = Some s' \<and> (id_inv s' \<and> id_getSize s' < 2 ^ 31) \<and> ids (m_bit_map s') = ids (m_bit_map s) - {n}"
    using free_inv [of s n] by (auto simp: id_put_def id_getSize_def)
qed

lemma ids_finite: "finite (ids bm)" "card (ids bm) \<le> length bm * 64"
proof -
  have "ids bm \<subseteq> {0..<length bm * 64}" by (auto simp: ids_def)
  then show "finite (ids bm)" "card (ids bm) \<le> length bm * 64"
    using finite_subset card_mono [of "{0..<length bm * 64}" "ids bm"] by auto
qed

lemma alloc_size:
  assumes "id_inv a" "alloc True a = Inr (n, a')"
  shows "id_getSize a' \<le> max (id_getSize a) (2 * card (ids (m_bit_map a')))"
proof -
  define c0 where "c0 = m_next_chunk a"
  define b0 where "b0 = nat (m_next_bit a)"
  define bm where "bm = (m_bit_map a)[c0 := m_bit_map a ! c0 OR push_bit b0 1]"
  have lt: "c0 < length (m_bit_map a)" "b0 < 64" "length bm = length (m_bit_map a)" "0 \<le> m_next_bit a"
    using assms(1) by (auto simp: id_inv_def c0_def b0_def bm_def)
  have below: "c * 64 + b \<in> ids bm" if "c < c0" "b < 64" for c b
    using below_chunk [OF assms(1), of c b] that ids_set [OF lt(1,2)] by (simp add: c0_def bm_def)
  show ?thesis
  proof (cases "scan c0 (drop c0 bm)")
    case (Some ib)
    then have "m_bit_map a' = bm"
      using assms(2) lt unfolding alloc_def Let_def c0_def [symmetric] b0_def [symmetric] bm_def [symmetric] by (auto split: prod.splits)
    then show ?thesis using lt(3) by (simp add: id_getSize_def)
  next
    case None
    then have bm: "m_bit_map a' = bm @ replicate (length bm) 0"
      using assms(2) lt unfolding alloc_def Let_def c0_def [symmetric] b0_def [symmetric] bm_def [symmetric]
      by (auto simp: id_expand_def)
    have "{0..<length bm * 64} \<subseteq> ids bm" using scan_full [of c0 bm, OF _ below None] lt by auto
    then have "card {0..<length bm * 64} \<le> card (ids bm)" by (rule card_mono [OF ids_finite(1)])
    then have "length bm * 64 \<le> card (ids bm)" by simp
    then show ?thesis by (simp add: id_getSize_def bm ids_grow)
  qed
qed

lemma client_returns:
  "id_inv a \<Longrightarrow> distinct held \<Longrightarrow> set held = ids (m_bit_map a) \<Longrightarrow> id_getSize a < 2 ^ 31 \<Longrightarrow>
   2 * (length held + length ops) < 2 ^ 31 \<Longrightarrow> \<exists>r. client id_get id_put ops (a, held) = Some r"
proof (induction ops arbitrary: a held)
  case (Cons op ops)
  show ?case
  proof (cases op)
    case None
    obtain a' where a': "alloc True a = Inr (int (next_id a), a')" "id_inv a'" "ids (m_bit_map a') = insert (next_id a) (ids (m_bit_map a))"
      using alloc_inv [OF Cons.prems(1)] Cons.prems(4) by (meson less_imp_le)
    have new: "next_id a \<notin> set held" using Cons.prems(1,3) by (simp add: id_inv_def)
    then have "card (ids (m_bit_map a')) = Suc (length held)"
      using a'(3) Cons.prems(2,3) by (metis card_insert_disjoint distinct_card List.finite_set)
    then have sz: "id_getSize a' < 2 ^ 31" using alloc_size [OF Cons.prems(1) a'(1)] Cons.prems(4,5) by simp
    then have "\<exists>r. client id_get id_put ops (a', next_id a # held) = Some r"
      using Cons.IH [OF a'(2), of "next_id a # held"] new Cons.prems(2,3,5) a'(3) by simp
    moreover have "id_get a = Some (next_id a, a')" using a'(1) sz by (simp add: id_get_def)
    ultimately show ?thesis using None by simp
  next
    case (Some k)
    show ?thesis
    proof (cases "k < length held")
      case True
      note d = drop_nth_set [OF Cons.prems(2) True]
      have "held ! k \<in> ids (m_bit_map a)" using Cons.prems(3) True nth_mem by blast
      then obtain t where t: "free (int (held ! k)) a = Inr (0, t)" "id_inv t" "ids (m_bit_map t) = ids (m_bit_map a) - {held ! k}"
          "length (m_bit_map t) = length (m_bit_map a)"
        using free_inv [OF Cons.prems(1) _ Cons.prems(4)] by blast
      have "\<exists>r. client id_get id_put ops (t, take k held @ drop (Suc k) held) = Some r"
        using Cons.prems(3-5) True t(4) by (intro Cons.IH t(2) d(2)) (simp_all only: d(1) t(3), simp_all add: id_getSize_def)
      moreover have "id_put (held ! k) a = Some t" using t(1) by (simp add: id_put_def)
      ultimately show ?thesis using Some True by simp
    next
      case False
      then show ?thesis using Cons.IH [OF Cons.prems(1-4)] Cons.prems(5) Some by simp
    qed
  qed
qed simp

lemma new_id_inv: "PackedIDAllocator_new n = Inr a \<Longrightarrow> 0 < n \<Longrightarrow> id_inv a \<and> ids (m_bit_map a) = {} \<and> id_getSize a = nat n * 64"
  by (auto simp: PackedIDAllocator_new_def id_inv_def next_id_def ids_def id_getSize_def)

text \<open>
  A client that takes and gives back identifiers in any order always gets its answer, never
  holds an identifier twice, and the bitmap records exactly what it holds (up to the range of
  \<^verbatim>\<open>int\<close>).
\<close>

theorem ids_in_use_distinct:
  assumes "PackedIDAllocator_new n = Inr a" "0 < n" "nat n * 64 < 2 ^ 31" "2 * length ops < 2 ^ 31"
  shows "\<exists>a' held. client id_get id_put ops (a, []) = Some (a', held) \<and> distinct held \<and> set held = ids (m_bit_map a')"
proof -
  have a: "id_inv a" "ids (m_bit_map a) = {}" "id_getSize a < 2 ^ 31" using new_id_inv [OF assms(1,2)] assms(3) by simp_all
  then obtain a' held where "client id_get id_put ops (a, []) = Some (a', held)" using client_returns [of a "[]" ops] assms(4) by auto
  then show ?thesis using ida.client_holds_distinct [of a "[]" ops a' held] a by simp
qed


text \<open>
  Releasing the identifier that equals the capacity is not refused: the bitmap is read past its end. And when the capacity has grown to
  \<open>2\<^sup>31\<close> the cast makes it negative, so that every identifier is refused.
\<close>

theorem free_at_capacity_out_of_range: "id_getSize a < 2 ^ 31 \<Longrightarrow> free (int (id_getSize a)) a = Inl OutOfRange"
proof -
  assume "id_getSize a < 2 ^ 31"
  then have c: "cast_int (id_getSize a) = int (id_getSize a)" by (rule cast_int_small)
  have "nat (int (id_getSize a)) div 64 = length (m_bit_map a)" by (simp add: id_getSize_def del: of_nat_mult)
  then show ?thesis by (simp add: free_def c)
qed

lemma free_refuses_all: "id_getSize a = 2 ^ 31 \<Longrightarrow> free (int n) a = Inr (-1, a\<lparr>error_code := INVALID_ID\<rparr>)"
proof -
  assume s: "id_getSize a = 2 ^ 31"
  have "cast_int (2 ^ 31) < 0" by (simp add: cast_int_def)
  then show ?thesis unfolding free_def s by simp
qed

theorem ids_in_use_distinct_witness:
  "\<exists>a a' held. PackedIDAllocator_new 1 = Inr a \<and> client id_get id_put [None, None, Some 1, None, None] (a, []) = Some (a', held) \<and> distinct held"
proof -
  obtain a where a: "PackedIDAllocator_new 1 = Inr a" by (simp add: PackedIDAllocator_new_def)
  show ?thesis using ids_in_use_distinct [OF a, of "[None, None, Some 1, None, None]"] a
    by (simp del: client.simps) blast
qed


end
