(* ===== verification/Ws_Server.thy ===== *)
theory Ws_Server
  imports Ws_Session Ws_Handshake Id_Allocator
begin

section \<open>The WebSocket server (server/websocket/wsserver, class WsServer)\<close>

text \<open>
  The table of sessions, indexed by the identifiers of the allocator, and the loop that serves one
  client. A handler is a function from an event and the session to the session and whether an
  exception left the callback. What the socket delivers in a round of the loop, the clock and whether
  the socket is valid are arguments; a loop that still waits for data at the end of what is given is
  \<open>None\<close>. A session the server creates is built by the argument \<open>mk\<close> (memory and configuration)
  and initialised with the result of registering its timer.
\<close>

record ws_server =
  m_sessions :: "ws_session option list"
  m_sessionIdAllocator :: id_alloc
  m_sessionCount :: int

definition WsServer_new :: "int \<Rightarrow> failure + ws_server" where
  "WsServer_new maxSession =
     (case PackedIDAllocator_new maxSession of
        Inl e \<Rightarrow> Inl e
      | Inr a \<Rightarrow> Inr \<lparr>m_sessions = replicate (nat maxSession * 64) None, m_sessionIdAllocator = a, m_sessionCount = 0\<rparr>)"

definition getSession :: "int \<Rightarrow> ws_server \<Rightarrow> ws_session option" where
  "getSession sessionId srv =
     (if sessionId < 0 \<or> sessionId \<ge> int (length (m_sessions srv)) then None else m_sessions srv ! nat sessionId)"

definition createSession ::
  "bool \<Rightarrow> (nat \<Rightarrow> ws_session) \<Rightarrow> u64 \<Rightarrow> nat option \<Rightarrow> ws_server \<Rightarrow> failure + ws_session option \<times> ws_server" where
  "createSession resize_ok mk now timer srv =
     (case alloc resize_ok (m_sessionIdAllocator srv) of
        Inl e \<Rightarrow> Inl e
      | Inr (sessionId, a) \<Rightarrow>
          let srv = srv\<lparr>m_sessionIdAllocator := a\<rparr>
          in if sessionId < 0 then Inr (None, srv)
             else if int (length (m_sessions srv)) \<le> sessionId then Inl OutOfRange
             else if m_sessions srv ! nat sessionId \<noteq> None then Inl AssertionFailed
             else (let (rt, session) = ws_init now timer (mk (nat sessionId))
                   in if rt \<noteq> 0
                      then map_sum (\<lambda>e. e) (\<lambda>(r, a). (None, srv\<lparr>m_sessionIdAllocator := a\<rparr>)) (free sessionId a)
                      else Inr (Some session,
                        srv\<lparr>m_sessions := (m_sessions srv)[nat sessionId := Some session], m_sessionCount := m_sessionCount srv + 1\<rparr>)))"

definition removeSession :: "int \<Rightarrow> ws_server \<Rightarrow> failure + int \<times> ws_server" where
  "removeSession sessionId srv =
     (if sessionId < 0 \<or> sessionId \<ge> int (length (m_sessions srv)) then Inr (-1, srv)
      else map_sum (\<lambda>e. e)
        (\<lambda>(r, a). (0, srv\<lparr>m_sessions := (m_sessions srv)[nat sessionId := None], m_sessionIdAllocator := a,
           m_sessionCount := m_sessionCount srv - 1\<rparr>))
        (free sessionId (m_sessionIdAllocator srv)))"

text \<open>
  \<^verbatim>\<open>handShake\<close> on the text of the request, with the result \<open>rt\<close> of sending the answer, and \<^verbatim>\<open>close\<close>, which
  closes the socket of the session.
\<close>

definition handShake :: "host \<Rightarrow> bytes \<Rightarrow> bytes \<Rightarrow> string \<Rightarrow> int \<Rightarrow> (int \<times> string option) option" where
  "handShake h mem stack request rt =
     map_option (\<lambda>(state, ws).
       if state \<noteq> OPENING_FRAME then (-1, None)
       else (if rt = -1 then -1 else 0, Some (answerHandshake h mem stack ws)))
     (parseHandshake request WebSocket_new)"

definition WsServer_close :: "int \<Rightarrow> ws_server \<Rightarrow> int \<times> nat option" where
  "WsServer_close sessionId srv =
     (case getSession sessionId srv of None \<Rightarrow> (-1, None) | Some s \<Rightarrow> (0, Some (m_socket (base s))))"

subsection \<open>Routing\<close>

datatype ws_event = OnOpen | OnMessage bytes | OnBinary bytes | OnClose u16 bytes | OnPing bytes | OnPong bytes
  | OnError u32 | OnBadClose

type_synonym ws_handler = "ws_event \<Rightarrow> ws_session \<Rightarrow> bool \<times> ws_session"

definition event_of :: "frame \<Rightarrow> ws_event" where
  "event_of f =
     (if m_opcode f = WS_OP_TEXT then OnMessage (m_payload_text f)
      else if m_opcode f = WS_OP_BINARY then OnBinary (m_payload_binary f)
      else if m_opcode f = WS_OP_CLOSE then OnClose (m_close_code f) (m_close_reason f)
      else if m_opcode f = WS_OP_PING then OnPing (m_payload_text f)
      else if m_opcode f = WS_OP_PONG then OnPong (m_payload_text f)
      else OnError (m_opcode f))"

text \<open>An exception of a callback is caught; then, and after a known frame, the result is 0.\<close>

definition co_Route :: "ws_handler \<Rightarrow> u64 \<Rightarrow> frame option \<Rightarrow> ws_session \<Rightarrow> int \<times> ws_session" where
  "co_Route T now frame session =
     (let session = session\<lparr>m_recent_frame_time := now\<rparr>
      in case frame of
           None \<Rightarrow> (-1, session)
         | Some f \<Rightarrow>
             (let (thrown, session) = T (event_of f) session
              in ((case event_of f of OnError x \<Rightarrow> if thrown then 0 else -1 | _ \<Rightarrow> 0), session)))"

subsection \<open>Serving a client\<close>

text \<open>One round of the loop: what \<^verbatim>\<open>recv\<close> returns, the time and whether the socket is valid.\<close>

type_synonym ws_round = "recv_result list \<times> u64 \<times> bool"

definition close_1000 :: bytes where
  "close_1000 = [78, 111, 114, 109, 97, 108, 32, 67, 108, 111, 115, 117, 114, 101]"

definition protocol_error :: bytes where
  "protocol_error = [80, 114, 111, 116, 111, 99, 111, 108, 32, 69, 114, 114, 111, 114]"

fun handle_loop :: "host \<Rightarrow> nat \<Rightarrow> ws_handler \<Rightarrow> nat \<Rightarrow> ws_round list \<Rightarrow> int \<Rightarrow> ws_session \<Rightarrow> (failure + int \<times> ws_session) option" where
  "handle_loop h maxr T 0 env nextId s = Some (Inr (nextId, s))"
| "handle_loop h maxr T (Suc n) env nextId s =
     (if m_state s = CLOSED then Some (Inr (nextId, s))
      else (case env of
              [] \<Rightarrow> None
            | (rs, now, valid) # env \<Rightarrow>
                (case co_recvFrame h maxr now rs s of
                   None \<Rightarrow> None
                 | Some (Inl e) \<Rightarrow> Some (Inl e)
                 | Some (Inr (rt, s)) \<Rightarrow>
                     if rt = 0 \<or> rt = -1 \<or> rt = -2 then Some (Inr (-1, s))
                     else (let (f, fb) = FrameBuffer_getFrame (m_frame_buffer s); s = s\<lparr>m_frame_buffer := fb\<rparr>
                           in case f of
                                None \<Rightarrow> Some (Inr (-1, snd (ws_co_close h valid 1000 close_1000 s)))
                              | Some fr \<Rightarrow>
                                  (let (state, s) = co_Route T now (Some fr) s
                                   in if m_opcode fr = WS_OP_CLOSE
                                      then Some (Inr (-1, snd (ws_co_close h valid (m_close_code fr) (m_close_reason fr) s)))
                                      else if state \<noteq> 0
                                      then Some (Inr (nextId, snd (ws_co_close h valid 1002 protocol_error s)))
                                      else handle_loop h maxr T n env nextId s)))))"

text \<open>
  After the loop: a session that is closed or has to be closed is taken out of the table. The table
  holds a pointer to the session; the session is stored back when it stays.
\<close>

definition handle_end :: "host \<Rightarrow> ws_handler \<Rightarrow> int \<Rightarrow> int \<Rightarrow> ws_session \<Rightarrow> ws_server \<Rightarrow> failure + int \<times> ws_session \<times> ws_server" where
  "handle_end h T sessionId nextId s srv =
     (if nextId = -1 \<or> m_state s = CLOSED
      then (let (thrown, s) = (if m_state s \<noteq> CLOSED then T OnBadClose (snd (ws_clean s)) else (False, s))
            in if thrown then Inl (Thrown ''co_onBadClose'')
               else (case removeSession sessionId srv of
                       Inl e \<Rightarrow> Inl e
                     | Inr (r, srv) \<Rightarrow> if m_state s = CLOSED then Inr (-1, s, srv) else Inl AssertionFailed))
      else Inr (nextId, s, srv\<lparr>m_sessions := (m_sessions srv)[nat sessionId := Some s]\<rparr>))"

text \<open>
  The first part of \<^verbatim>\<open>handleClient\<close>: a new session, which the handler is told of, or the one with the given identifier. While
  the loop waits and while callbacks run, other coroutines and the callbacks themselves use the server; \<open>others\<close> is what they
  have done to it when the loop ends.
\<close>

definition start_session ::
  "ws_handler \<Rightarrow> bool \<Rightarrow> (nat \<Rightarrow> ws_session) \<Rightarrow> u64 \<Rightarrow> nat option \<Rightarrow> int \<Rightarrow> ws_server \<Rightarrow> failure + (int \<times> ws_session) option \<times> ws_server" where
  "start_session T resize_ok mk now timer sessionId srv =
     (if sessionId < 0
      then (case createSession resize_ok mk now timer srv of
              Inl e \<Rightarrow> Inl e
            | Inr (None, srv) \<Rightarrow> Inr (None, srv)
            | Inr (Some s, srv) \<Rightarrow>
                (let (thrown, s') = T OnOpen s
                 in if thrown then Inl (Thrown ''co_onOpen'') else Inr (Some (int (m_sessionId s), s'), srv)))
      else Inr (map_option (\<lambda>s. (sessionId, s)) (getSession sessionId srv), srv))"

definition handleClient ::
  "host \<Rightarrow> nat \<Rightarrow> ws_handler \<Rightarrow> (ws_server \<Rightarrow> ws_server) \<Rightarrow> bool \<Rightarrow> (nat \<Rightarrow> ws_session) \<Rightarrow> u64 \<Rightarrow> nat option \<Rightarrow> ws_round list \<Rightarrow> int \<Rightarrow> ws_server
     \<Rightarrow> (failure + int \<times> ws_server) option" where
  "handleClient h maxr T others resize_ok mk now timer env sessionId srv =
     (case start_session T resize_ok mk now timer sessionId srv of
        Inl e \<Rightarrow> Some (Inl e)
      | Inr (None, srv) \<Rightarrow> Some (Inr (-1, srv))
      | Inr (Some (sid, s), srv) \<Rightarrow>
          (case handle_loop h maxr T 1000 env sid s of
             None \<Rightarrow> None
           | Some (Inl e) \<Rightarrow> Some (Inl e)
           | Some (Inr (nextId, s)) \<Rightarrow> Some (map_sum (\<lambda>e. e) (\<lambda>(r, s, srv). (r, srv)) (handle_end h T sid nextId s (others srv)))))"


section \<open>The table of sessions\<close>

text \<open>The identifiers in use are those of the occupied slots, and the counter counts them.\<close>

definition occupied :: "ws_server \<Rightarrow> nat set" where
  "occupied srv = {i. i < length (m_sessions srv) \<and> m_sessions srv ! i \<noteq> None}"

definition srv_inv :: "ws_server \<Rightarrow> bool" where
  "srv_inv srv \<longleftrightarrow> id_inv (m_sessionIdAllocator srv) \<and> ids (m_bit_map (m_sessionIdAllocator srv)) = occupied srv
     \<and> id_getSize (m_sessionIdAllocator srv) \<le> 2 * length (m_sessions srv) \<and> 2 * length (m_sessions srv) < 2 ^ 31
     \<and> m_sessionCount srv = int (card (occupied srv))"

lemma occupied_finite: "finite (occupied srv)" "card (occupied srv) \<le> length (m_sessions srv)"
proof -
  have "occupied srv \<subseteq> {0..<length (m_sessions srv)}" by (auto simp: occupied_def)
  then show "finite (occupied srv)" "card (occupied srv) \<le> length (m_sessions srv)"
    using finite_subset card_mono [of "{0..<length (m_sessions srv)}" "occupied srv"] by auto
qed

lemma occupied_update:
  assumes "i < length (m_sessions srv)"
  shows "occupied (srv\<lparr>m_sessions := (m_sessions srv)[i := Some s]\<rparr>) = insert i (occupied srv)"
    and "occupied (srv\<lparr>m_sessions := (m_sessions srv)[i := None]\<rparr>) = occupied srv - {i}"
  using assms by (auto simp: occupied_def nth_list_update split: if_splits)

lemma occupied_same [simp]:
  "occupied (srv\<lparr>m_sessionIdAllocator := a\<rparr>) = occupied srv" "occupied (srv\<lparr>m_sessionCount := c\<rparr>) = occupied srv"
  by (simp_all add: occupied_def)

lemma new_server_inv:
  assumes "WsServer_new n = Inr srv" "0 < n" "128 * nat n < 2 ^ 31"
  shows "srv_inv srv" "occupied srv = {}" "length (m_sessions srv) = nat n * 64"
proof -
  obtain a where a: "PackedIDAllocator_new n = Inr a" using assms(1) by (auto simp: WsServer_new_def split: sum.splits)
  then have srv: "srv = \<lparr>m_sessions = replicate (nat n * 64) None, m_sessionIdAllocator = a, m_sessionCount = 0\<rparr>"
    using assms(1) by (simp add: WsServer_new_def)
  then show o: "occupied srv = {}" and l: "length (m_sessions srv) = nat n * 64" by (auto simp: occupied_def)
  show "srv_inv srv" using new_id_inv [OF a assms(2)] o l assms(3) by (simp add: srv_inv_def srv)
qed

text \<open>What the allocator gives for the table.\<close>

lemma server_alloc:
  assumes "srv_inv srv"
  defines "n \<equiv> next_id (m_sessionIdAllocator srv)"
  obtains a where "alloc True (m_sessionIdAllocator srv) = Inr (int n, a)" "id_inv a"
    "ids (m_bit_map a) = insert n (occupied srv)" "n \<notin> occupied srv" "\<forall>k < n. k \<in> occupied srv"
    "id_getSize a \<le> max (id_getSize (m_sessionIdAllocator srv)) (2 * card (insert n (occupied srv)))"
proof -
  let ?a = "m_sessionIdAllocator srv"
  have i: "id_inv ?a" "id_getSize ?a \<le> 2 ^ 31" "ids (m_bit_map ?a) = occupied srv" using assms(1) by (auto simp: srv_inv_def)
  obtain a where a: "alloc True ?a = Inr (int n, a)" "id_inv a" "ids (m_bit_map a) = insert n (occupied srv)"
    using alloc_inv [OF i(1,2)] i(3) by (auto simp: n_def)
  moreover have "n \<notin> occupied srv" "\<forall>k < n. k \<in> occupied srv" using i(1,3) by (auto simp: id_inv_def n_def)
  moreover have "id_getSize a \<le> max (id_getSize ?a) (2 * card (insert n (occupied srv)))"
    using alloc_size [OF i(1) a(1)] a(3) by simp
  ultimately show ?thesis using that by blast
qed

lemma free_slot_below:
  assumes "\<forall>k < n. k \<in> occupied srv" "i < length (m_sessions srv)" "m_sessions srv ! i = None"
  shows "n \<le> i"
proof (rule ccontr)
  assume "\<not> n \<le> i"
  then have "i \<in> occupied srv" using assms(1) by simp
  then show False using assms(3) by (simp add: occupied_def)
qed

lemma create_session:
  assumes "srv_inv srv" "i < length (m_sessions srv)" "m_sessions srv ! i = None"
  shows "\<exists>n srv'. n < length (m_sessions srv) \<and> m_sessions srv ! n = None \<and> (\<forall>k < n. k \<in> occupied srv) \<and> srv_inv srv' \<and>
      (case timer of
         Some t \<Rightarrow> createSession True mk now timer srv = Inr (Some (snd (ws_init now timer (mk n))), srv')
           \<and> m_sessions srv' = (m_sessions srv)[n := Some (snd (ws_init now timer (mk n)))]
       | None \<Rightarrow> createSession True mk now timer srv = Inr (None, srv') \<and> m_sessions srv' = m_sessions srv)"
proof -
  define n where "n = next_id (m_sessionIdAllocator srv)"
  obtain a where a: "alloc True (m_sessionIdAllocator srv) = Inr (int n, a)" "id_inv a" "ids (m_bit_map a) = insert n (occupied srv)"
    "n \<notin> occupied srv" "\<forall>k < n. k \<in> occupied srv"
    "id_getSize a \<le> max (id_getSize (m_sessionIdAllocator srv)) (2 * card (insert n (occupied srv)))"
    using server_alloc [OF assms(1)] unfolding n_def by blast
  have n: "n < length (m_sessions srv)" "m_sessions srv ! n = None"
    using free_slot_below [OF a(5) assms(2,3)] assms(2) a(4) by (auto simp: occupied_def)
  have "insert n (occupied srv) \<subseteq> {0..<length (m_sessions srv)}" using n by (auto simp: occupied_def)
  then have "card (insert n (occupied srv)) \<le> length (m_sessions srv)" using card_mono [of "{0..<length (m_sessions srv)}" "insert n (occupied srv)"] by simp
  then have sz: "id_getSize a \<le> 2 * length (m_sessions srv)" using a(6) assms(1) unfolding srv_inv_def by linarith
  show ?thesis
  proof (cases timer)
    case (Some t)
    let ?s = "snd (ws_init now timer (mk n))"
    let ?srv = "srv\<lparr>m_sessionIdAllocator := a, m_sessions := (m_sessions srv)[n := Some ?s], m_sessionCount := m_sessionCount srv + 1\<rparr>"
    have "occupied ?srv = insert n (occupied srv)" using n(1) by (auto simp: occupied_def nth_list_update)
    then have "srv_inv ?srv" using a(2-4) sz assms(1) occupied_finite(1) [of srv] by (simp add: srv_inv_def)
    moreover have "createSession True mk now timer srv = Inr (Some ?s, ?srv)"
      using a(1) n Some by (simp add: createSession_def ws_init_def Let_def)
    ultimately show ?thesis using n a(5) Some by (intro exI [of _ n] exI [of _ ?srv]) simp
  next
    case None
    obtain a' where a': "free (int n) a = Inr (0, a')" "id_inv a'" "ids (m_bit_map a') = occupied srv" "length (m_bit_map a') = length (m_bit_map a)"
      using free_inv [OF a(2), of n] a(3,4) sz assms(1) by (auto simp: srv_inv_def)
    let ?srv = "srv\<lparr>m_sessionIdAllocator := a'\<rparr>"
    have "srv_inv ?srv" using a'(2-4) sz assms(1) by (simp add: srv_inv_def id_getSize_def)
    moreover have "createSession True mk now timer srv = Inr (None, ?srv)"
      using a(1) a'(1) n None by (simp add: createSession_def ws_init_def Let_def)
    ultimately show ?thesis using n a(5) None by (intro exI [of _ n] exI [of _ ?srv]) simp
  qed
qed

lemma create_session_full:
  assumes "srv_inv srv" "\<forall>i < length (m_sessions srv). m_sessions srv ! i \<noteq> None"
  shows "createSession True mk now timer srv = Inl OutOfRange"
proof -
  define n where "n = next_id (m_sessionIdAllocator srv)"
  obtain a where a: "alloc True (m_sessionIdAllocator srv) = Inr (int n, a)" "n \<notin> occupied srv"
    using server_alloc [OF assms(1)] unfolding n_def by blast
  have "length (m_sessions srv) \<le> n" using a(2) assms(2) by (auto simp: occupied_def not_less)
  then show ?thesis using a(1) by (simp add: createSession_def Let_def)
qed

lemma remove_session:
  assumes "srv_inv srv" "i \<in> occupied srv"
  shows "\<exists>srv'. removeSession (int i) srv = Inr (0, srv') \<and> srv_inv srv' \<and> m_sessions srv' = (m_sessions srv)[i := None]"
proof -
  have i: "i < length (m_sessions srv)" using assms(2) by (simp add: occupied_def)
  obtain a where a: "free (int i) (m_sessionIdAllocator srv) = Inr (0, a)" "id_inv a" "ids (m_bit_map a) = occupied srv - {i}"
    "length (m_bit_map a) = length (m_bit_map (m_sessionIdAllocator srv))"
    using free_inv [of "m_sessionIdAllocator srv" i] assms by (auto simp: srv_inv_def)
  let ?srv = "srv\<lparr>m_sessions := (m_sessions srv)[i := None], m_sessionIdAllocator := a, m_sessionCount := m_sessionCount srv - 1\<rparr>"
  have o: "occupied ?srv = occupied srv - {i}" using occupied_update(2) [OF i] by (simp add: occupied_def)
  have "0 < card (occupied srv)" using assms(2) occupied_finite(1) card_gt_0_iff by blast
  then have "srv_inv ?srv" using assms a o occupied_finite(1) [of srv] by (simp add: srv_inv_def id_getSize_def of_nat_diff)
  moreover have "removeSession (int i) srv = Inr (0, ?srv)" using a(1) i by (simp add: removeSession_def)
  ultimately show ?thesis by auto
qed

subsection \<open>Serving a client\<close>

text \<open>A handler that leaves a closed session closed when it is told of a bad close, and does not throw there.\<close>

definition calm :: "ws_handler \<Rightarrow> bool" where
  "calm T \<longleftrightarrow> (\<forall>s. m_state s = CLOSED \<longrightarrow> \<not> fst (T OnBadClose s) \<and> m_state (snd (T OnBadClose s)) = CLOSED)"

lemma handle_loop_next: "handle_loop h maxr T n env nextId s = Some (Inr (r, s')) \<Longrightarrow> r = nextId \<or> r = -1"
  by (induction h maxr T n env nextId s rule: handle_loop.induct)
    (auto simp: Let_def split: if_splits list.splits option.splits sum.splits prod.splits)

lemma handle_end_outcome:
  assumes "srv_inv srv" "i \<in> occupied srv" "calm T" "nextId = int i \<or> nextId = -1"
  shows "\<exists>r s' srv'. handle_end h T (int i) nextId s srv = Inr (r, s', srv') \<and> srv_inv srv' \<and>
      (r = -1 \<and> m_state s' = CLOSED \<and> m_sessions srv' = (m_sessions srv)[i := None] \<or>
       r = int i \<and> m_state s' \<noteq> CLOSED \<and> m_sessions srv' = (m_sessions srv)[i := Some s'])"
proof (cases "nextId = -1 \<or> m_state s = CLOSED")
  case True
  obtain srv' where srv': "removeSession (int i) srv = Inr (0, srv')" "srv_inv srv'" "m_sessions srv' = (m_sessions srv)[i := None]"
    using remove_session [OF assms(1,2)] by blast
  show ?thesis
  proof (cases "m_state s = CLOSED")
    case True
    then show ?thesis using srv' by (simp add: handle_end_def)
  next
    case False
    let ?t = "T OnBadClose (snd (ws_clean s))"
    have "m_state (snd (ws_clean s)) = CLOSED" by (simp add: ws_clean_def)
    then have "\<not> fst ?t" "m_state (snd ?t) = CLOSED" using assms(3) by (auto simp: calm_def)
    then show ?thesis using srv' True False by (simp add: handle_end_def split_beta)
  qed
next
  case False
  have i: "i < length (m_sessions srv)" using assms(2) by (simp add: occupied_def)
  let ?srv = "srv\<lparr>m_sessions := (m_sessions srv)[i := Some s]\<rparr>"
  have "occupied ?srv = occupied srv" using occupied_update(1) [OF i] assms(2) by auto
  then have "srv_inv ?srv" using assms(1) by (simp add: srv_inv_def)
  then show ?thesis using False assms(4) by (auto simp: handle_end_def)
qed

lemma start_session_slot:
  assumes "srv_inv srv" "\<And>k. m_sessionId (mk k) = k"
    and "start_session T True mk now timer sessionId srv = Inr (Some (sid, s), srv1)"
  obtains i where "sid = int i" "i \<in> occupied srv1" "srv_inv srv1"
proof (cases "sessionId < 0")
  case True
  then obtain s0 where c: "createSession True mk now timer srv = Inr (Some s0, srv1)" "sid = int (m_sessionId s0)"
    using assms(3) by (auto simp: start_session_def split: sum.splits option.splits prod.splits if_splits)
  then obtain j where j: "j < length (m_sessions srv)" "m_sessions srv ! j = None"
    using create_session_full [OF assms(1)] by fastforce
  obtain n srv' where n: "n < length (m_sessions srv)" "srv_inv srv'"
    "case timer of Some t \<Rightarrow> createSession True mk now timer srv = Inr (Some (snd (ws_init now timer (mk n))), srv')
       \<and> m_sessions srv' = (m_sessions srv)[n := Some (snd (ws_init now timer (mk n)))]
     | None \<Rightarrow> createSession True mk now timer srv = Inr (None, srv') \<and> m_sessions srv' = m_sessions srv"
    using create_session [OF assms(1) j, where timer = timer and mk = mk and now = now] by blast
  then obtain t where "timer = Some t" using c(1) by (cases timer) auto
  then have "srv' = srv1" "s0 = snd (ws_init now timer (mk n))" "m_sessions srv1 = (m_sessions srv)[n := Some s0]" using n(3) c(1) by auto
  moreover have "m_sessionId (snd (ws_init now timer (mk n))) = n" using assms(2) by (simp add: ws_init_def Let_def split: option.split)
  ultimately show thesis using that [of n] c(2) n(1,2) by (auto simp: occupied_def)
next
  case False
  then have "sid = sessionId" "getSession sessionId srv = Some s" "srv1 = srv" using assms(3) by (auto simp: start_session_def)
  then show thesis using that [of "nat sessionId"] False assms(1) by (auto simp: getSession_def occupied_def split: if_splits)
qed



subsection \<open>Opening and closing sessions\<close>

text \<open>A run of the server: sessions are opened, with or without success of their timer, and removed.\<close>

datatype srv_op = Open_session "nat option" | Close_session nat

fun srv_step :: "(nat \<Rightarrow> ws_session) \<Rightarrow> u64 \<Rightarrow> srv_op \<Rightarrow> ws_server \<Rightarrow> failure + ws_server" where
  "srv_step mk now (Open_session t) srv = map_sum (\<lambda>e. e) snd (createSession True mk now t srv)"
| "srv_step mk now (Close_session k) srv =
     (if getSession (int k) srv = None then Inr srv else map_sum (\<lambda>e. e) snd (removeSession (int k) srv))"

fun srv_run :: "(nat \<Rightarrow> ws_session) \<Rightarrow> u64 \<Rightarrow> srv_op list \<Rightarrow> ws_server \<Rightarrow> failure + ws_server" where
  "srv_run mk now [] srv = Inr srv"
| "srv_run mk now (op # ops) srv = (case srv_step mk now op srv of Inl e \<Rightarrow> Inl e | Inr srv' \<Rightarrow> srv_run mk now ops srv')"

definition all_taken :: "ws_server \<Rightarrow> bool" where
  "all_taken srv \<longleftrightarrow> (\<forall>i < length (m_sessions srv). m_sessions srv ! i \<noteq> None)"

lemma srv_step_inv:
  assumes "srv_inv srv"
  shows "(\<exists>srv'. srv_step mk now op srv = Inr srv' \<and> srv_inv srv' \<and> length (m_sessions srv') = length (m_sessions srv)) \<or>
    (srv_step mk now op srv = Inl OutOfRange \<and> (\<exists>t. op = Open_session t) \<and> all_taken srv)"
proof (cases op)
  case (Open_session t)
  show ?thesis
  proof (cases "all_taken srv")
    case True
    then show ?thesis using create_session_full [OF assms, of mk now t] Open_session by (simp add: all_taken_def)
  next
    case False
    then obtain i where i: "i < length (m_sessions srv)" "m_sessions srv ! i = None" by (auto simp: all_taken_def)
    then show ?thesis using create_session [OF assms i, where timer = t and mk = mk and now = now] Open_session by (cases t) auto
  qed
next
  case (Close_session k)
  show ?thesis
  proof (cases "getSession (int k) srv = None")
    case False
    then have "k \<in> occupied srv" by (auto simp: getSession_def occupied_def split: if_splits)
    then obtain srv' where "removeSession (int k) srv = Inr (0, srv')" "srv_inv srv'" "m_sessions srv' = (m_sessions srv)[k := None]"
      using remove_session [OF assms] by blast
    then show ?thesis using False Close_session by auto
  qed (use assms Close_session in simp)
qed

lemma srv_run_inv:
  assumes "srv_inv srv"
  shows "case srv_run mk now ops srv of
      Inr srv' \<Rightarrow> srv_inv srv' \<and> length (m_sessions srv') = length (m_sessions srv)
    | Inl e \<Rightarrow> e = OutOfRange \<and> (\<exists>ops1 t ops2 srv1. ops = ops1 @ Open_session t # ops2 \<and> srv_run mk now ops1 srv = Inr srv1 \<and>
        all_taken srv1 \<and> length (m_sessions srv1) = length (m_sessions srv))"
  using assms
proof (induction ops arbitrary: srv)
  case (Cons op ops)
  from srv_step_inv [OF Cons.prems, of mk now op] show ?case
  proof (elim disjE exE conjE)
    fix srv' assume s: "srv_step mk now op srv = Inr srv'" "srv_inv srv'" "length (m_sessions srv') = length (m_sessions srv)"
    have run: "srv_run mk now (op # xs) srv = srv_run mk now xs srv'" for xs using s(1) by simp
    show ?thesis
    proof (cases "srv_run mk now ops srv'")
      case (Inl e)
      then obtain ops1 t ops2 srv1 where "e = OutOfRange" "ops = ops1 @ Open_session t # ops2" "srv_run mk now (op # ops1) srv = Inr srv1"
        "all_taken srv1" "length (m_sessions srv1) = length (m_sessions srv)"
        using Cons.IH [OF s(2)] s(3) unfolding run by auto
      then have "op # ops = (op # ops1) @ Open_session t # ops2 \<and> srv_run mk now (op # ops1) srv = Inr srv1 \<and>
          all_taken srv1 \<and> length (m_sessions srv1) = length (m_sessions srv)" and e: "e = OutOfRange" by simp_all
      then have "\<exists>ops1 t ops2 srv1. op # ops = ops1 @ Open_session t # ops2 \<and> srv_run mk now ops1 srv = Inr srv1 \<and>
          all_taken srv1 \<and> length (m_sessions srv1) = length (m_sessions srv)"
        by (intro exI [of _ "op # ops1"], intro exI)
      moreover have "srv_run mk now (op # ops) srv = Inl e" by (simp only: run Inl)
      ultimately show ?thesis using e by (simp only: sum.case)
    qed (use Cons.IH [OF s(2)] s(3) in \<open>simp add: run del: srv_run.simps\<close>)
  next
    fix t assume "srv_step mk now op srv = Inl OutOfRange" "op = Open_session t" "all_taken srv"
    then show ?thesis by (auto intro!: exI [of _ "[]"] simp del: srv_step.simps)
  qed
qed simp

end
