(* ===== verification/Http_Parser.thy ===== *)
theory Http_Parser
  imports Strings
begin

section \<open>The HTTP message parser (protocol/http)\<close>

text \<open>
  Requests as the server receives them and responses as it builds them. Iterators into a string are
  the rest of the string from them on. The headers are a \<^verbatim>\<open>std::map\<close> ordered without regard to case:
  a list in that order. An \<^verbatim>\<open>http::exception\<close> is the failure \<open>Thrown\<close> with its message.
\<close>

subsection \<open>Characters (constants.hpp)\<close>

definition header_token :: "nat list" where
  "header_token = concat [
     replicate 32 0,
     [0,1,0,1,1,1,1,1,0,0,1,1,0,1,1,0],
     [1,1,1,1,1,1,1,1,1,1,0,0,0,0,0,0],
     [0,1,1,1,1,1,1,1,1,1,1,1,1,1,1,1],
     [1,1,1,1,1,1,1,1,1,1,1,0,0,0,1,1],
     [1,1,1,1,1,1,1,1,1,1,1,1,1,1,1,1],
     [1,1,1,1,1,1,1,1,1,1,1,0,1,0,1,0],
     replicate 128 0]"

definition is_token_char :: "char \<Rightarrow> bool" where
  "is_token_char c \<longleftrightarrow> header_token ! of_char c = 1"

definition is_whitespace_char :: "char \<Rightarrow> bool" where
  "is_whitespace_char c \<longleftrightarrow> c = CHR 0x09 \<or> c = CHR '' ''"

definition max_header_size :: nat where "max_header_size = 16000"
definition max_body_size :: nat where "max_body_size = 32000000"

datatype http_method = DELETE | GET | HEAD | POST | PUT | CONNECT | OPTIONS | TRACE | COPY | LOCK | MKCOL | MOVE | PROPFIND
  | PROPPATCH | SEARCH | UNLOCK | BIND | REBIND | UNBIND | ACL | REPORT | MKACTIVITY | CHECKOUT | MERGE | MSEARCH | NOTIFY
  | SUBSCRIBE | UNSUBSCRIBE | PATCH | PURGE | MKCALENDAR | LINK | UNLINK | SOURCE | HTTP_INVALID_METHOD

fun HttpMethodToString :: "http_method \<Rightarrow> string" where
  "HttpMethodToString DELETE = ''DELETE''" | "HttpMethodToString GET = ''GET''" | "HttpMethodToString HEAD = ''HEAD''"
| "HttpMethodToString POST = ''POST''" | "HttpMethodToString PUT = ''PUT''" | "HttpMethodToString CONNECT = ''CONNECT''"
| "HttpMethodToString OPTIONS = ''OPTIONS''" | "HttpMethodToString TRACE = ''TRACE''" | "HttpMethodToString COPY = ''COPY''"
| "HttpMethodToString LOCK = ''LOCK''" | "HttpMethodToString MKCOL = ''MKCOL''" | "HttpMethodToString MOVE = ''MOVE''"
| "HttpMethodToString PROPFIND = ''PROPFIND''" | "HttpMethodToString PROPPATCH = ''PROPPATCH''" | "HttpMethodToString SEARCH = ''SEARCH''"
| "HttpMethodToString UNLOCK = ''UNLOCK''" | "HttpMethodToString BIND = ''BIND''" | "HttpMethodToString REBIND = ''REBIND''"
| "HttpMethodToString UNBIND = ''UNBIND''" | "HttpMethodToString ACL = ''ACL''" | "HttpMethodToString REPORT = ''REPORT''"
| "HttpMethodToString MKACTIVITY = ''MKACTIVITY''" | "HttpMethodToString CHECKOUT = ''CHECKOUT''" | "HttpMethodToString MERGE = ''MERGE''"
| "HttpMethodToString MSEARCH = ''M-SEARCH''" | "HttpMethodToString NOTIFY = ''NOTIFY''" | "HttpMethodToString SUBSCRIBE = ''SUBSCRIBE''"
| "HttpMethodToString UNSUBSCRIBE = ''UNSUBSCRIBE''" | "HttpMethodToString PATCH = ''PATCH''" | "HttpMethodToString PURGE = ''PURGE''"
| "HttpMethodToString MKCALENDAR = ''MKCALENDAR''" | "HttpMethodToString LINK = ''LINK''" | "HttpMethodToString UNLINK = ''UNLINK''"
| "HttpMethodToString SOURCE = ''SOURCE''" | "HttpMethodToString HTTP_INVALID_METHOD = ''Http invalid method''"

subsection \<open>Headers without regard to case (utilities.hpp)\<close>

text \<open>\<^verbatim>\<open>tolower\<close> in the C locale, as a number.\<close>

definition tolower :: "char \<Rightarrow> nat" where
  "tolower c = (let n = of_char c in if 65 \<le> n \<and> n \<le> 90 then n + 32 else n)"

fun lex_less :: "nat list \<Rightarrow> nat list \<Rightarrow> bool" where
  "lex_less xs [] = False"
| "lex_less [] (y # ys) = True"
| "lex_less (x # xs) (y # ys) = (if x < y then True else if y < x then False else lex_less xs ys)"

definition ci_less :: "string \<Rightarrow> string \<Rightarrow> bool" where
  "ci_less s1 s2 = lex_less (map tolower s1) (map tolower s2)"

type_synonym header_list = "(string \<times> string) list"

fun hfind :: "string \<Rightarrow> header_list \<Rightarrow> string option" where
  "hfind key [] = None"
| "hfind key ((k, v) # hs) = (if ci_less k key then hfind key hs else if ci_less key k then None else Some v)"

text \<open>\<^verbatim>\<open>m_headers[key] = val\<close>: an existing entry keeps the spelling of its key.\<close>

fun hput :: "string \<Rightarrow> string \<Rightarrow> header_list \<Rightarrow> header_list" where
  "hput key val [] = [(key, val)]"
| "hput key val ((k, v) # hs) =
     (if ci_less k key then (k, v) # hput key val hs else if ci_less key k then (key, val) # (k, v) # hs else (k, val) # hs)"

fun hremove :: "string \<Rightarrow> header_list \<Rightarrow> header_list" where
  "hremove key [] = []"
| "hremove key ((k, v) # hs) =
     (if ci_less k key then (k, v) # hremove key hs else if ci_less key k then (k, v) # hs else hs)"

subsection \<open>Tokens, quoted strings and white space (parser.hpp)\<close>

definition extract_token :: "string \<Rightarrow> string \<times> string" where
  "extract_token s = (takeWhile is_token_char s, dropWhile is_token_char s)"

text \<open>\<open>quoted before acc s\<close>: the loop after the opening quote, with the character before the cursor.\<close>

fun quoted :: "char \<Rightarrow> string \<Rightarrow> string \<Rightarrow> (string \<times> string) option" where
  "quoted before acc [] = None"
| "quoted before acc (c # s) =
     (if c = CHR 0x22 then (if before = CHR 0x5C then quoted c (butlast acc @ [c]) s else Some (acc, s))
      else quoted c (acc @ [c]) s)"

definition extract_quoted_string :: "string \<Rightarrow> string \<times> string" where
  "extract_quoted_string s =
     (case s of
        [] \<Rightarrow> ([], s)
      | c # r \<Rightarrow> if c \<noteq> CHR 0x22 then ([], s) else (case quoted c [] r of None \<Rightarrow> ([], s) | Some x \<Rightarrow> x))"

definition extract_lws :: "string \<Rightarrow> string" where
  "extract_lws s =
     dropWhile is_whitespace_char
       (case s of a # b # c # r \<Rightarrow> if a = CHR 0x0D \<and> b = CHR 0x0A \<and> is_whitespace_char c then r else s | _ \<Rightarrow> s)"

lemma extract_lws_length: "extract_lws s \<noteq> s \<Longrightarrow> length (extract_lws s) < length s"
proof -
  have d: "length (dropWhile P x) \<le> length x" "dropWhile P x \<noteq> x \<Longrightarrow> length (dropWhile P x) < length x" for P and x :: string
  proof -
    show le: "length (dropWhile P x) \<le> length x" by (rule length_dropWhile_le)
    show "dropWhile P x \<noteq> x \<Longrightarrow> length (dropWhile P x) < length x"
      using le by (metis append_Nil le_neq_implies_less length_append length_0_conv self_append_conv2 takeWhile_dropWhile_id add_cancel_right_left)
  qed
  assume ne: "extract_lws s \<noteq> s"
  show ?thesis
  proof (cases "\<exists>a b c r. s = a # b # c # r \<and> a = CHR 0x0D \<and> b = CHR 0x0A \<and> is_whitespace_char c")
    case True
    then obtain c r where "s = CHR 0x0D # CHR 0x0A # c # r" "is_whitespace_char c" by blast
    then show ?thesis using d(1) [of is_whitespace_char r] by (simp add: extract_lws_def)
  next
    case False
    then have "extract_lws s = dropWhile is_whitespace_char s" by (auto simp: extract_lws_def split: list.splits)
    then show ?thesis using ne d(2) by simp
  qed
qed

function extract_all_lws :: "string \<Rightarrow> string" where
  "extract_all_lws s = (let t = extract_lws s in if t \<noteq> [] \<and> t \<noteq> s then extract_all_lws t else t)"
  by pat_completeness auto
termination
  by (relation "measure length") (auto simp: extract_lws_length)

declare extract_all_lws.simps [simp del]

definition strip_lws :: "string \<Rightarrow> string" where
  "strip_lws input =
     (let b = extract_all_lws input
      in if b = [] then []
         else (let r = extract_all_lws (rev input)
               in if r = [] then [] else drop (length input - length b) (take (length r) input)))"

subsection \<open>Messages (parser.hpp, impl/parser.hpp)\<close>

datatype body_encoding = unknown | plain | chunked

record http_parser =
  m_version :: string
  m_headers :: header_list
  m_header_bytes :: nat
  m_body :: string
  m_body_bytes_needed :: nat
  m_body_bytes_max :: nat
  m_body_encoding :: body_encoding

definition set_version :: "string \<Rightarrow> 'a http_parser_scheme \<Rightarrow> 'a http_parser_scheme" where
  "set_version v p = p\<lparr>m_version := v\<rparr>"

definition get_header :: "string \<Rightarrow> 'a http_parser_scheme \<Rightarrow> string" where
  "get_header key p = (case hfind key (m_headers p) of None \<Rightarrow> [] | Some v \<Rightarrow> v)"

definition append_header :: "string \<Rightarrow> string \<Rightarrow> 'a http_parser_scheme \<Rightarrow> failure + 'a http_parser_scheme" where
  "append_header key val p =
     (if \<exists>c \<in> set key. \<not> is_token_char c then Inl (Thrown ''Invalid header name'')
      else if get_header key p = [] then Inr (p\<lparr>m_headers := hput key val (m_headers p)\<rparr>)
      else Inr (p\<lparr>m_headers := hput key (get_header key p @ '', '' @ val) (m_headers p)\<rparr>))"

definition replace_header :: "string \<Rightarrow> string \<Rightarrow> 'a http_parser_scheme \<Rightarrow> 'a http_parser_scheme" where
  "replace_header key val p = p\<lparr>m_headers := hput key val (m_headers p)\<rparr>"

definition remove_header :: "string \<Rightarrow> 'a http_parser_scheme \<Rightarrow> 'a http_parser_scheme" where
  "remove_header key p = p\<lparr>m_headers := hremove key (m_headers p)\<rparr>"

definition set_body :: "string \<Rightarrow> 'a http_parser_scheme \<Rightarrow> 'a http_parser_scheme" where
  "set_body v p =
     (if v = [] then (remove_header ''Content-Length'' p)\<lparr>m_body := []\<rparr>
      else (replace_header ''Content-Length'' (dec (length v)) p)\<lparr>m_body := v\<rparr>)"

text \<open>\<^verbatim>\<open>strtoul(s, &end, 10)\<close> with 64 bits.\<close>

definition strtoul :: "string \<Rightarrow> nat" where
  "strtoul s =
     (let t = dropWhile (\<lambda>c. c = CHR '' '' \<or> (of_char c :: nat) \<in> {9..13}) s;
          neg = (t \<noteq> [] \<and> hd t = CHR ''-''); u = (if t \<noteq> [] \<and> (hd t = CHR ''-'' \<or> hd t = CHR ''+'') then tl t else t);
          n = digits_value (takeWhile digit u)
      in if n \<ge> 2 ^ 64 then 2 ^ 64 - 1 else if neg then (2 ^ 64 - n) mod 2 ^ 64 else n)"

definition prepare_body :: "'a http_parser_scheme \<Rightarrow> failure + bool \<times> 'a http_parser_scheme" where
  "prepare_body p =
     (let cl_header = get_header ''Content-Length'' p
      in if cl_header \<noteq> []
         then (let p = p\<lparr>m_body_bytes_needed := strtoul cl_header\<rparr>
               in if m_body_bytes_needed p > m_body_bytes_max p then Inl (Thrown ''HTTP message body too large'')
                  else Inr (True, p\<lparr>m_body_encoding := plain\<rparr>))
         else Inr (False, p))"

definition process_body :: "string \<Rightarrow> 'a http_parser_scheme \<Rightarrow> failure + nat \<times> 'a http_parser_scheme" where
  "process_body buf p =
     (if m_body_encoding p = plain
      then (let processed = min (m_body_bytes_needed p) (length buf)
            in Inr (processed, p\<lparr>m_body := m_body p @ take processed buf, m_body_bytes_needed := m_body_bytes_needed p - processed\<rparr>))
      else Inl (Thrown ''Unexpected body encoding''))"

definition body_ready :: "'a http_parser_scheme \<Rightarrow> bool" where
  "body_ready p \<longleftrightarrow> m_body_bytes_needed p = 0"

definition process_header :: "string \<Rightarrow> 'a http_parser_scheme \<Rightarrow> failure + 'a http_parser_scheme" where
  "process_header line p =
     (case find_in '':'' line of
        None \<Rightarrow> Inl (Thrown ''Invalid header line'')
      | Some k \<Rightarrow> append_header (strip_lws (take k line)) (strip_lws (drop (k + 1) line)) p)"

definition raw_headers :: "'a http_parser_scheme \<Rightarrow> string" where
  "raw_headers p = concat (map (\<lambda>(k, v). k @ '': '' @ v @ crlf) (m_headers p))"

definition parser_reset :: "'a http_parser_scheme \<Rightarrow> 'a http_parser_scheme" where
  "parser_reset p = p\<lparr>m_version := [], m_headers := [], m_header_bytes := 0, m_body := [], m_body_bytes_needed := 0, m_body_encoding := unknown\<rparr>"

subsection \<open>Requests (request.hpp, impl/request.hpp)\<close>

record request = http_parser +
  m_buf :: "string option"
  m_method :: string
  m_uri :: string
  m_ready :: bool

definition request_new :: request where
  "request_new = \<lparr>m_version = [], m_headers = [], m_header_bytes = 0, m_body = [], m_body_bytes_needed = 0,
     m_body_bytes_max = max_body_size, m_body_encoding = unknown, m_buf = Some [], m_method = [], m_uri = [], m_ready = False\<rparr>"

definition request_reset :: "request \<Rightarrow> request" where
  "request_reset r = parser_reset (r\<lparr>m_ready := False, m_buf := Some [], m_method := [], m_uri := []\<rparr>)"

definition set_method :: "string \<Rightarrow> request \<Rightarrow> failure + request" where
  "set_method m r = (if \<exists>c \<in> set m. \<not> is_token_char c then Inl (Thrown ''Invalid method token.'') else Inr (r\<lparr>m_method := m\<rparr>))"

definition set_uri :: "string \<Rightarrow> request \<Rightarrow> request" where
  "set_uri u r = r\<lparr>m_uri := u\<rparr>"

definition request_process :: "string \<Rightarrow> request \<Rightarrow> failure + request" where
  "request_process line r =
     (let m = takeWhile (\<lambda>c. c \<noteq> CHR '' '') line; rest = dropWhile (\<lambda>c. c \<noteq> CHR '' '') line
      in if rest = [] then Inl (Thrown ''Invalid request line1'')
         else (case set_method m r of
                 Inl e \<Rightarrow> Inl e
               | Inr r \<Rightarrow>
                   (let u = takeWhile (\<lambda>c. c \<noteq> CHR '' '') (tl rest); rest2 = dropWhile (\<lambda>c. c \<noteq> CHR '' '') (tl rest)
                    in if rest2 = [] then Inl (Thrown ''Invalid request line2'')
                       else Inr (set_version (tl rest2) (set_uri u r)))))"

text \<open>
  The loop over the lines of the buffer. It ends with the rest of the buffer in \<open>m_buf\<close> when there
  is no further line (\<open>False\<close>), or after the blank line (\<open>True\<close>).
\<close>

definition count_line :: "nat \<Rightarrow> request \<Rightarrow> request" where
  "count_line n r = r\<lparr>m_header_bytes := m_header_bytes r + n + 3\<rparr>"

definition process_line :: "string \<Rightarrow> request \<Rightarrow> failure + request" where
  "process_line line r = (if m_method r = [] then request_process line r else process_header line r)"

function header_loop :: "string \<Rightarrow> request \<Rightarrow> failure + string \<times> request \<times> bool" where
  "header_loop buf r =
     (case find_in crlf buf of
        None \<Rightarrow>
          (let r = count_line (length buf) r
           in if m_header_bytes r > max_header_size then Inl (Thrown ''Maximum header size exceeded.'')
              else Inr (buf, r\<lparr>m_buf := Some buf, m_header_bytes := m_header_bytes r - length buf\<rparr>, False))
      | Some k \<Rightarrow>
          (let r = count_line k r
           in if m_header_bytes r > max_header_size then Inl (Thrown ''Maximum header size exceeded.'')
              else if k = 0
              then (if m_method r = [] \<or> get_header ''Host'' r = [] then Inl (Thrown ''Incomplete Request'')
                    else Inr (drop 2 buf, r, True))
              else (case process_line (take k buf) r of Inl e \<Rightarrow> Inl e | Inr r \<Rightarrow> header_loop (drop (k + 2) buf) r)))"
  by pat_completeness auto
termination
proof (relation "measure (\<lambda>(buf, r). length buf)")
  fix buf :: string and r x2 x xa
  assume "find_in crlf buf = Some x2"
  from find_in_bound [OF this] show "((drop (x2 + 2) buf, xa), buf, r) \<in> measure (\<lambda>(buf, r). length buf)" by (simp add: crlf_def)
qed simp

declare header_loop.simps [simp del]

definition request_consume :: "string \<Rightarrow> request \<Rightarrow> failure + nat \<times> request" where
  "request_consume buf r =
     (if m_ready r then Inr (0, r)
      else if m_body_bytes_needed r > 0
      then map_sum (\<lambda>e. e) (\<lambda>(n, r). (n, if body_ready r then r\<lparr>m_ready := True\<rparr> else r)) (process_body buf r)
      else (case m_buf r of
              None \<Rightarrow> Inl NullDeref
            | Some b \<Rightarrow>
                (case header_loop (b @ buf) r of
                   Inl e \<Rightarrow> Inl e
                 | Inr (rest, r, False) \<Rightarrow> Inr (length buf, r)
                 | Inr (rest, r, True) \<Rightarrow>
                     (let bytes_processed = length buf - length rest
                      in case prepare_body (r\<lparr>m_buf := None\<rparr>) of
                           Inl e \<Rightarrow> Inl e
                         | Inr (False, r) \<Rightarrow> Inr (bytes_processed, r\<lparr>m_ready := True\<rparr>)
                         | Inr (True, r) \<Rightarrow>
                             map_sum (\<lambda>e. e) (\<lambda>(n, r). (bytes_processed + n, if body_ready r then r\<lparr>m_ready := True\<rparr> else r))
                               (process_body rest r)))))"

definition request_head :: "request \<Rightarrow> string" where
  "request_head r = m_method r @ '' '' @ m_uri r @ '' '' @ m_version r @ crlf @ raw_headers r @ crlf"

definition request_raw :: "request \<Rightarrow> string" where
  "request_raw r = request_head r @ m_body r"

end
