(* ===== verification/Http_Stream.thy ===== *)
theory Http_Stream
  imports Http_Parser
begin

section \<open>Requests that arrive in pieces\<close>

text \<open>
  The parser without the limit on the size of the headers: what it does with all the bytes that have
  arrived, returning those it does not take.
\<close>

function plain_loop :: "string \<Rightarrow> request \<Rightarrow> failure + string \<times> request \<times> bool" where
  "plain_loop buf r =
     (case find_in crlf buf of
        None \<Rightarrow> Inr ([], r\<lparr>m_buf := Some buf\<rparr>, False)
      | Some k \<Rightarrow>
          if k = 0
          then (if m_method r = [] \<or> get_header ''Host'' r = [] then Inl (Thrown ''Incomplete Request'')
                else Inr (drop 2 buf, r\<lparr>m_buf := None\<rparr>, True))
          else (case process_line (take k buf) r of Inl e \<Rightarrow> Inl e | Inr r \<Rightarrow> plain_loop (drop (k + 2) buf) r))"
  by pat_completeness auto
termination
proof (relation "measure (\<lambda>(buf, r). length buf)")
  fix buf :: string and r x2 xa
  assume "find_in crlf buf = Some x2"
  from find_in_bound [OF this] show "((drop (x2 + 2) buf, xa), buf, r) \<in> measure (\<lambda>(buf, r). length buf)" by (simp add: crlf_def)
qed simp

declare plain_loop.simps [simp del]

definition take_body :: "string \<Rightarrow> request \<Rightarrow> failure + string \<times> request" where
  "take_body s r =
     (case process_body s r of Inl e \<Rightarrow> Inl e | Inr (n, r) \<Rightarrow> Inr (drop n s, if body_ready r then r\<lparr>m_ready := True\<rparr> else r))"

definition after_headers :: "string \<Rightarrow> request \<Rightarrow> failure + string \<times> request" where
  "after_headers rest r =
     (case prepare_body r of
        Inl e \<Rightarrow> Inl e
      | Inr (b, r) \<Rightarrow> if b then take_body rest r else Inr (rest, r\<lparr>m_ready := True\<rparr>))"

definition plain_feed :: "string \<Rightarrow> request \<Rightarrow> failure + string \<times> request" where
  "plain_feed s r =
     (if m_ready r then Inr (s, r)
      else if m_body_bytes_needed r > 0 then take_body s r
      else (case m_buf r of
              None \<Rightarrow> Inl NullDeref
            | Some b \<Rightarrow>
                (case plain_loop (b @ s) r of
                   Inl e \<Rightarrow> Inl e
                 | Inr (rest, r, e) \<Rightarrow> if e then after_headers rest r else Inr (rest, r))))"

subsection \<open>The code against the parser without limit\<close>

text \<open>What the counter adds up to for the lines in a buffer.\<close>

function header_cost :: "string \<Rightarrow> nat" where
  "header_cost buf =
     (case find_in crlf buf of None \<Rightarrow> length buf + 3 | Some k \<Rightarrow> if k = 0 then 3 else k + 3 + header_cost (drop (k + 2) buf))"
  by pat_completeness auto
termination
proof (relation "measure length")
  fix buf :: string and x2
  assume "find_in crlf buf = Some x2"
  from find_in_bound [OF this] show "(drop (x2 + 2) buf, buf) \<in> measure length" by (simp add: crlf_def)
qed simp

declare header_cost.simps [simp del]

text \<open>A request with another counter and buffer.\<close>

definition reb :: "string option \<Rightarrow> nat \<Rightarrow> request \<Rightarrow> request" where
  "reb b n r = r\<lparr>m_header_bytes := n, m_buf := b\<rparr>"

lemma reb_simps [simp]:
  "m_method (reb b n r) = m_method r" "m_headers (reb b n r) = m_headers r" "m_body_bytes_needed (reb b n r) = m_body_bytes_needed r"
  "m_ready (reb b n r) = m_ready r" "m_buf (reb b n r) = b" "m_header_bytes (reb b n r) = n" "reb b n (reb c k r) = reb b n r"
  "get_header key (reb b n r) = get_header key r" "reb (m_buf r) (m_header_bytes r) r = r"
  by (simp_all add: reb_def get_header_def)

lemma append_header_reb: "append_header hk val (reb b n r) = map_sum (\<lambda>e. e) (reb b n) (append_header hk val r)"
  by (cases "\<exists>c \<in> set hk. \<not> is_token_char c"; cases "get_header hk r = []")
    (simp_all add: append_header_def, simp_all add: reb_def)

lemma process_header_reb: "process_header line (reb b n r) = map_sum (\<lambda>e. e) (reb b n) (process_header line r)"
  by (cases "find_in '':'' line") (simp_all add: process_header_def append_header_reb)

lemma request_process_cases:
  obtains e where "\<And>r. request_process line r = Inl e"
  | m u v where "\<And>r. request_process line r = Inr (r\<lparr>m_method := m, m_uri := u, m_version := v\<rparr>)"
proof -
  define m where "m = takeWhile (\<lambda>c. c \<noteq> CHR '' '') line"
  define rest where "rest = dropWhile (\<lambda>c. c \<noteq> CHR '' '') line"
  define u where "u = takeWhile (\<lambda>c. c \<noteq> CHR '' '') (tl rest)"
  define rest2 where "rest2 = dropWhile (\<lambda>c. c \<noteq> CHR '' '') (tl rest)"
  have eq: "request_process line r = (if rest = [] then Inl (Thrown ''Invalid request line1'')
      else if \<exists>c \<in> set m. \<not> is_token_char c then Inl (Thrown ''Invalid method token.'')
      else if rest2 = [] then Inl (Thrown ''Invalid request line2'')
      else Inr (r\<lparr>m_method := m, m_uri := u, m_version := tl rest2\<rparr>))" for r
    unfolding request_process_def Let_def m_def [symmetric] rest_def [symmetric] u_def [symmetric] rest2_def [symmetric]
    by (simp add: set_method_def set_uri_def set_version_def)
  show ?thesis
    by (cases "rest = []"; cases "\<exists>c \<in> set m. \<not> is_token_char c"; cases "rest2 = []") (rule that; simp add: eq; fail)+
qed

lemma process_line_reb: "process_line line (reb b n r) = map_sum (\<lambda>e. e) (reb b n) (process_line line r)"
proof (cases "m_method r = []")
  case True
  then show ?thesis
    by (cases line rule: request_process_cases) (simp_all add: process_line_def, simp add: reb_def)
qed (simp add: process_line_def process_header_reb)

lemma process_line_keeps:
  assumes "process_line line r = Inr r'"
  shows "m_header_bytes r' = m_header_bytes r" "m_buf r' = m_buf r" "m_ready r' = m_ready r"
    "m_body_bytes_needed r' = m_body_bytes_needed r" "m_body r' = m_body r"
proof -
  have "m_header_bytes r' = m_header_bytes r \<and> m_buf r' = m_buf r \<and> m_ready r' = m_ready r
      \<and> m_body_bytes_needed r' = m_body_bytes_needed r \<and> m_body r' = m_body r"
  proof (cases "m_method r = []")
    case True
    then show ?thesis using assms
      by (cases line rule: request_process_cases) (auto simp: process_line_def)
  next
    case False
    then obtain k where k: "find_in '':'' line = Some k" "append_header (strip_lws (take k line)) (strip_lws (drop (k + 1) line)) r = Inr r'"
      using assms by (auto simp: process_line_def process_header_def split: option.splits)
    from k(2) show ?thesis by (auto simp: append_header_def split: if_splits)
  qed
  then show "m_header_bytes r' = m_header_bytes r" "m_buf r' = m_buf r" "m_ready r' = m_ready r"
    "m_body_bytes_needed r' = m_body_bytes_needed r" "m_body r' = m_body r" by simp_all
qed

text \<open>The plain loop does not look at counter and old buffer.\<close>

lemma plain_loop_reb:
  "plain_loop buf (reb b n r) = map_sum (\<lambda>e. e) (\<lambda>(rest, r', e). (rest, r'\<lparr>m_header_bytes := n\<rparr>, e)) (plain_loop buf r)"
proof (induction buf r arbitrary: rule: plain_loop.induct)
  case (1 buf r)
  show ?case
  proof (cases "find_in crlf buf")
    case None
    then show ?thesis by (simp add: plain_loop.simps reb_def)
  next
    case (Some k)
    show ?thesis
    proof (cases "k = 0")
      case True
      then show ?thesis using Some by (simp add: plain_loop.simps [of buf]) (simp add: reb_def)
    next
      case False
      show ?thesis
      proof (cases "process_line (take k buf) r")
        case (Inr r1)
        then show ?thesis using Some False 1 [OF Some False Inr]
          by (simp add: plain_loop.simps [of buf] process_line_reb)
      qed (use Some False in \<open>simp add: plain_loop.simps [of buf] process_line_reb\<close>)
    qed
  qed
qed

text \<open>What the code makes of the result of the plain loop.\<close>

definition with_count :: "string option \<Rightarrow> nat \<Rightarrow> failure + string \<times> request \<times> bool \<Rightarrow> failure + string \<times> request \<times> bool" where
  "with_count b n x =
     (case x of
        Inl e \<Rightarrow> Inl e
      | Inr (rest, r, e) \<Rightarrow> if e then Inr (rest, reb b n r, True) else Inr (the (m_buf r), r\<lparr>m_header_bytes := n\<rparr>, False))"

lemma header_loop_plain:
  "m_header_bytes r + header_cost buf \<le> max_header_size \<Longrightarrow>
   \<exists>c. header_loop buf r = with_count (m_buf r) (m_header_bytes r + c) (plain_loop buf r) \<and>
     (\<forall>rest r'. plain_loop buf r = Inr (rest, r', False) \<longrightarrow> c + length (the (m_buf r')) = header_cost buf)"
proof (induction buf arbitrary: r rule: header_cost.induct)
  case (1 buf)
  show ?case
  proof (cases "find_in crlf buf")
    case None
    then have "header_cost buf = length buf + 3" by (simp add: header_cost.simps)
    then show ?thesis using None 1(2)
      by (intro exI [of _ 3]) (simp add: header_loop.simps [of buf] plain_loop.simps [of buf] count_line_def Let_def with_count_def)
  next
    case (Some k)
    show ?thesis
    proof (cases "k = 0")
      case True
      then have "header_cost buf = 3" using Some by (simp add: header_cost.simps)
      then show ?thesis using Some True 1(2)
        by (intro exI [of _ 3])
          (simp add: header_loop.simps [of buf] plain_loop.simps [of buf] count_line_def Let_def with_count_def, simp add: reb_def get_header_def)
    next
      case False
      have cost: "header_cost buf = k + 3 + header_cost (drop (k + 2) buf)" using Some False by (simp add: header_cost.simps)
      let ?n = "m_header_bytes r + k + 3"
      have cl: "count_line k r = reb (m_buf r) ?n r" by (simp add: count_line_def reb_def)
      have step: "header_loop buf r = (case process_line (take k buf) r of Inl e \<Rightarrow> Inl e | Inr r1 \<Rightarrow> header_loop (drop (k + 2) buf) (reb (m_buf r) ?n r1))"
        using Some False 1(2) cost by (simp add: header_loop.simps [of buf] cl process_line_reb Let_def split: sum.splits)
      have plain: "plain_loop buf r = (case process_line (take k buf) r of Inl e \<Rightarrow> Inl e | Inr r1 \<Rightarrow> plain_loop (drop (k + 2) buf) r1)"
        using Some False by (simp add: plain_loop.simps [of buf])
      show ?thesis
      proof (cases "process_line (take k buf) r")
        case (Inl e)
        then show ?thesis by (intro exI [of _ 0]) (simp add: step plain with_count_def)
      next
        case (Inr r1)
        let ?r1 = "reb (m_buf r) ?n r1"
        have "m_header_bytes ?r1 + header_cost (drop (k + 2) buf) \<le> max_header_size" using 1(2) cost by simp
        from 1(1) [OF Some False this] obtain c where
          c: "header_loop (drop (k + 2) buf) ?r1 = with_count (m_buf r) (?n + c) (plain_loop (drop (k + 2) buf) ?r1)"
            "\<forall>rest r'. plain_loop (drop (k + 2) buf) ?r1 = Inr (rest, r', False) \<longrightarrow> c + length (the (m_buf r')) = header_cost (drop (k + 2) buf)"
          by auto
        have "with_count (m_buf r) (?n + c) (plain_loop (drop (k + 2) buf) ?r1) = with_count (m_buf r) (?n + c) (plain_loop (drop (k + 2) buf) r1)"
          unfolding plain_loop_reb by (auto simp: with_count_def reb_def split: sum.splits)
        moreover have "k + 3 + c + length (the (m_buf r')) = header_cost buf" if "plain_loop (drop (k + 2) buf) r1 = Inr (rest, r', False)" for rest r'
          using that c(2) cost unfolding plain_loop_reb by auto
        ultimately show ?thesis using c(1) Inr by (intro exI [of _ "k + 3 + c"]) (simp add: step plain add.assoc)
      qed
    qed
  qed
qed

subsection \<open>Cutting the stream\<close>

lemma plain_loop_buf: "plain_loop buf (r\<lparr>m_buf := b\<rparr>) = plain_loop buf r"
proof -
  have "r\<lparr>m_buf := b\<rparr> = reb b (m_header_bytes r) r" by (simp add: reb_def)
  then show ?thesis using plain_loop_reb [of buf b "m_header_bytes r" r] plain_loop_reb [of buf "m_buf r" "m_header_bytes r" r] by simp
qed

lemma plain_loop_keeps:
  "plain_loop buf r = Inr (rest, r', e) \<Longrightarrow> m_ready r' = m_ready r \<and> m_body_bytes_needed r' = m_body_bytes_needed r \<and> m_body r' = m_body r
     \<and> (if e then m_buf r' = None else rest = [] \<and> (\<exists>b. m_buf r' = Some b \<and> find_in crlf b = None))"
proof (induction buf r rule: plain_loop.induct)
  case (1 buf r)
  show ?case
  proof (cases "find_in crlf buf")
    case (Some k)
    show ?thesis
    proof (cases "k = 0")
      case False
      then obtain r1 where "process_line (take k buf) r = Inr r1" "plain_loop (drop (k + 2) buf) r1 = Inr (rest, r', e)"
        using Some 1(2) by (auto simp: plain_loop.simps [of buf] split: sum.splits)
      then show ?thesis using 1(1) [OF Some False] process_line_keeps by metis
    qed (use Some 1(2) in \<open>auto simp: plain_loop.simps [of buf] split: if_splits\<close>)
  qed (use 1(2) in \<open>auto simp: plain_loop.simps [of buf]\<close>)
qed

lemma plain_loop_append:
  "plain_loop (xs @ ys) r =
     (case plain_loop xs r of
        Inl e \<Rightarrow> Inl e
      | Inr (rest, r', e) \<Rightarrow> if e then Inr (rest @ ys, r', True) else plain_loop (the (m_buf r') @ ys) r')"
proof (induction xs r rule: plain_loop.induct)
  case (1 xs r)
  show ?case
  proof (cases "find_in crlf xs")
    case None
    then show ?thesis by (simp add: plain_loop.simps [of xs] plain_loop_buf)
  next
    case (Some k)
    have k: "k + 2 \<le> length xs" using find_in_bound [OF Some] by (simp add: crlf_def)
    have f: "find_in crlf (xs @ ys) = Some k" using find_in_append [OF Some] by (simp add: crlf_def)
    show ?thesis
    proof (cases "k = 0")
      case True
      then show ?thesis using Some f k by (simp add: plain_loop.simps [of xs] plain_loop.simps [of "xs @ ys"])
    next
      case False
      show ?thesis
      proof (cases "process_line (take k xs) r")
        case (Inr r1)
        then show ?thesis using Some f k False 1 [OF Some False Inr]
          by (simp add: plain_loop.simps [of xs] plain_loop.simps [of "xs @ ys"])
      qed (use Some f k False in \<open>simp add: plain_loop.simps [of xs] plain_loop.simps [of "xs @ ys"]\<close>)
    qed
  qed
qed

lemma header_cost_append:
  "plain_loop xs r = Inr (rest, r', False) \<Longrightarrow> header_cost (xs @ ys) + length (the (m_buf r')) + 3 = header_cost xs + header_cost (the (m_buf r') @ ys)"
proof (induction xs r rule: plain_loop.induct)
  case (1 xs r)
  show ?case
  proof (cases "find_in crlf xs")
    case None
    then show ?thesis using 1(2) by (auto simp: plain_loop.simps [of xs] header_cost.simps [of xs])
  next
    case (Some k)
    have k: "k + 2 \<le> length xs" using find_in_bound [OF Some] by (simp add: crlf_def)
    have f: "find_in crlf (xs @ ys) = Some k" using find_in_append [OF Some] by (simp add: crlf_def)
    have nz: "k \<noteq> 0" using Some 1(2) by (auto simp: plain_loop.simps [of xs] split: if_splits)
    then obtain r1 where "process_line (take k xs) r = Inr r1" "plain_loop (drop (k + 2) xs) r1 = Inr (rest, r', False)"
      using Some 1(2) by (auto simp: plain_loop.simps [of xs] split: sum.splits)
    from 1(1) [OF Some nz this] show ?thesis
      using Some f k nz by (simp add: header_cost.simps [of xs] header_cost.simps [of "xs @ ys"])
  qed
qed

lemma take_body_append:
  assumes "m_body_encoding r = plain" "m_body_bytes_needed r > 0" "\<not> m_ready r"
  shows "take_body (xs @ ys) r =
      (case take_body xs r of Inl e \<Rightarrow> Inl e | Inr (l, r') \<Rightarrow> if m_ready r' then Inr (l @ ys, r') else take_body ys r')"
    and "take_body xs r = Inr (l, r') \<Longrightarrow> \<not> m_ready r' \<Longrightarrow> l = [] \<and> m_body_encoding r' = plain \<and> m_body_bytes_needed r' > 0"
  using assms
  by (auto simp: take_body_def process_body_def body_ready_def Let_def min_def split: if_splits)

text \<open>A request that is being received: in its headers, with no complete line kept, or in its body.\<close>

definition receiving :: "request \<Rightarrow> bool" where
  "receiving r \<longleftrightarrow> \<not> m_ready r \<and>
     (if m_body_bytes_needed r > 0 then m_body_encoding r = plain else \<exists>b. m_buf r = Some b \<and> find_in crlf b = None)"

lemma prepare_body_plain: "prepare_body r = Inr (True, r1) \<Longrightarrow> m_body_encoding r1 = plain \<and> m_ready r1 = m_ready r"
  by (auto simp: prepare_body_def Let_def split: if_splits)

lemma after_headers_append:
  assumes "\<not> m_ready r"
  shows "after_headers (xs @ ys) r =
      (case after_headers xs r of Inl e \<Rightarrow> Inl e | Inr (l, r') \<Rightarrow> if m_ready r' then Inr (l @ ys, r') else take_body ys r')"
    and "after_headers xs r = Inr (l, r') \<Longrightarrow> \<not> m_ready r' \<Longrightarrow> l = [] \<and> m_body_encoding r' = plain \<and> m_body_bytes_needed r' > 0"
proof -
  consider e where "prepare_body r = Inl e" | r1 where "prepare_body r = Inr (False, r1)"
    | r1 where "prepare_body r = Inr (True, r1)" "m_body_encoding r1 = plain" "\<not> m_ready r1"
    using assms prepare_body_plain [of r] by (metis (full_types) old.sum.exhaust surj_pair)
  then have "after_headers (xs @ ys) r =
      (case after_headers xs r of Inl e \<Rightarrow> Inl e | Inr (l, r') \<Rightarrow> if m_ready r' then Inr (l @ ys, r') else take_body ys r') \<and>
    (after_headers xs r = Inr (l, r') \<longrightarrow> \<not> m_ready r' \<longrightarrow> l = [] \<and> m_body_encoding r' = plain \<and> m_body_bytes_needed r' > 0)"
  proof cases
    case (3 r1)
    show ?thesis
    proof (cases "m_body_bytes_needed r1 > 0")
      case True
      show ?thesis using 3 take_body_append [OF 3(2) True 3(3)] by (simp add: after_headers_def)
    next
      case False
      then have "take_body s r1 = Inr (s, r1\<lparr>m_ready := True\<rparr>)" for s
        using 3 by (simp add: take_body_def process_body_def body_ready_def)
      then show ?thesis using 3 by (auto simp: after_headers_def)
    qed
  qed (auto simp: after_headers_def)
  then show "after_headers (xs @ ys) r =
      (case after_headers xs r of Inl e \<Rightarrow> Inl e | Inr (l, r') \<Rightarrow> if m_ready r' then Inr (l @ ys, r') else take_body ys r')"
    "after_headers xs r = Inr (l, r') \<Longrightarrow> \<not> m_ready r' \<Longrightarrow> l = [] \<and> m_body_encoding r' = plain \<and> m_body_bytes_needed r' > 0"
    by simp_all
qed

lemma plain_feed_body: "\<not> m_ready r \<Longrightarrow> m_body_bytes_needed r > 0 \<Longrightarrow> plain_feed s r = take_body s r"
  by (simp add: plain_feed_def)

lemma plain_feed_append:
  assumes "receiving r"
  shows "plain_feed (xs @ ys) r =
      (case plain_feed xs r of Inl e \<Rightarrow> Inl e | Inr (l, r') \<Rightarrow> if m_ready r' then Inr (l @ ys, r') else plain_feed ys r')"
    and "plain_feed xs r = Inr (l, r') \<Longrightarrow> \<not> m_ready r' \<Longrightarrow> l = [] \<and> receiving r'"
proof -
  have "plain_feed (xs @ ys) r =
      (case plain_feed xs r of Inl e \<Rightarrow> Inl e | Inr (l, r') \<Rightarrow> if m_ready r' then Inr (l @ ys, r') else plain_feed ys r') \<and>
    (plain_feed xs r = Inr (l, r') \<longrightarrow> \<not> m_ready r' \<longrightarrow> l = [] \<and> receiving r')"
  proof (cases "m_body_bytes_needed r > 0")
    case True
    then have r: "m_body_encoding r = plain" "\<not> m_ready r" using assms by (simp_all add: receiving_def)
    show ?thesis using take_body_append [OF r(1) True r(2)] plain_feed_body True r(2)
      by (auto simp: receiving_def split: sum.splits)
  next
    case False
    then obtain b where r: "\<not> m_ready r" "m_buf r = Some b" "m_body_bytes_needed r = 0" using assms by (auto simp: receiving_def)
    show ?thesis
    proof (cases "plain_loop (b @ xs) r")
      case (Inl e)
      then show ?thesis using r plain_loop_append [of "b @ xs" ys r] by (simp add: plain_feed_def)
    next
      case (Inr x)
      then obtain rest r1 e where x: "plain_loop (b @ xs) r = Inr (rest, r1, e)" by (metis prod_cases3)
      have keep: "\<not> m_ready r1" "m_body_bytes_needed r1 = 0" "if e then m_buf r1 = None else rest = [] \<and> (\<exists>b. m_buf r1 = Some b \<and> find_in crlf b = None)"
        using plain_loop_keeps [OF x] r by auto
      show ?thesis
      proof (cases e)
        case True
        have "plain_loop (b @ xs @ ys) r = Inr (rest @ ys, r1, True)" using plain_loop_append [of "b @ xs" ys r] x True by simp
        then have f: "plain_feed xs r = after_headers rest r1" "plain_feed (xs @ ys) r = after_headers (rest @ ys) r1"
          using r x True by (simp_all add: plain_feed_def)
        show ?thesis
        proof (cases "after_headers rest r1")
          case (Inl e)
          then show ?thesis using f after_headers_append(1) [OF keep(1), of rest ys] by simp
        next
          case (Inr y)
          then obtain l1 r2 where y: "after_headers rest r1 = Inr (l1, r2)" by (metis prod.collapse)
          have "plain_feed ys r2 = take_body ys r2" if "\<not> m_ready r2"
            using after_headers_append(2) [OF keep(1) y that] plain_feed_body [OF that] by simp
          then show ?thesis using f y after_headers_append(1) [OF keep(1), of rest ys] after_headers_append(2) [OF keep(1) y]
            by (auto simp: receiving_def)
        qed
      next
        case False
        then obtain b1 where b1: "rest = []" "m_buf r1 = Some b1" "find_in crlf b1 = None" using keep(3) by auto
        then have "plain_loop (b @ xs @ ys) r = plain_loop (b1 @ ys) r1" using plain_loop_append [of "b @ xs" ys r] x False by simp
        then show ?thesis using r x False b1 keep by (auto simp: plain_feed_def receiving_def)
      qed
    qed
  qed
  then show "plain_feed (xs @ ys) r =
      (case plain_feed xs r of Inl e \<Rightarrow> Inl e | Inr (l, r') \<Rightarrow> if m_ready r' then Inr (l @ ys, r') else plain_feed ys r')"
    "plain_feed xs r = Inr (l, r') \<Longrightarrow> \<not> m_ready r' \<Longrightarrow> l = [] \<and> receiving r'" by simp_all
qed

text \<open>Requests are compared up to the counter, which only the limit looks at.\<close>

definition uncount :: "failure + string \<times> request \<Rightarrow> failure + string \<times> request" where
  "uncount = map_sum (\<lambda>e. e) (\<lambda>(l, r). (l, r\<lparr>m_header_bytes := 0\<rparr>))"

lemma uncount_set: "uncount (map_sum (\<lambda>e. e) (\<lambda>(l, r). (l, r\<lparr>m_header_bytes := n\<rparr>)) x) = uncount x"
  by (cases x) (auto simp: uncount_def)

lemma take_body_count: "take_body s (r\<lparr>m_header_bytes := n\<rparr>) = map_sum (\<lambda>e. e) (\<lambda>(l, r). (l, r\<lparr>m_header_bytes := n\<rparr>)) (take_body s r)"
  by (simp add: take_body_def process_body_def body_ready_def Let_def)

lemma after_headers_count:
  "after_headers s (r\<lparr>m_header_bytes := n\<rparr>) = map_sum (\<lambda>e. e) (\<lambda>(l, r). (l, r\<lparr>m_header_bytes := n\<rparr>)) (after_headers s r)"
proof -
  have p: "prepare_body (r\<lparr>m_header_bytes := n\<rparr>) = map_sum (\<lambda>e. e) (\<lambda>(b, r). (b, r\<lparr>m_header_bytes := n\<rparr>)) (prepare_body r)"
    by (simp add: prepare_body_def get_header_def Let_def)
  show ?thesis unfolding after_headers_def p by (auto simp: take_body_count split: sum.splits)
qed

lemma plain_feed_count: "plain_feed s (r\<lparr>m_header_bytes := n\<rparr>) = map_sum (\<lambda>e. e) (\<lambda>(l, r). (l, r\<lparr>m_header_bytes := n\<rparr>)) (plain_feed s r)"
proof (cases "m_buf r")
  case (Some b)
  have "plain_loop (b @ s) (r\<lparr>m_header_bytes := n\<rparr>) = map_sum (\<lambda>e. e) (\<lambda>(rest, r', e). (rest, r'\<lparr>m_header_bytes := n\<rparr>, e)) (plain_loop (b @ s) r)"
    using plain_loop_reb [of "b @ s" "Some b" n r] Some by (simp add: reb_def plain_loop_buf)
  then show ?thesis using Some by (auto simp: plain_feed_def take_body_count after_headers_count split: sum.splits)
qed (auto simp: plain_feed_def take_body_count)

subsection \<open>The code against the plain parser\<close>

text \<open>What a call of \<^verbatim>\<open>consume\<close> leaves of its argument.\<close>

definition feed :: "string \<Rightarrow> request \<Rightarrow> failure + string \<times> request" where
  "feed s r = map_sum (\<lambda>e. e) (\<lambda>(n, r). (drop n s, r)) (request_consume s r)"

text \<open>The count the limit will be compared with when \<open>s\<close> has arrived.\<close>

definition budget :: "string \<Rightarrow> request \<Rightarrow> nat" where
  "budget s r = (if m_body_bytes_needed r > 0 then 0 else m_header_bytes r + header_cost (the (m_buf r) @ s))"

lemma plain_loop_split: "plain_loop buf r = Inr (rest, r', True) \<Longrightarrow> \<exists>pre. buf = pre @ crlf @ rest"
proof (induction buf r rule: plain_loop.induct)
  case (1 buf r)
  then obtain k where k: "find_in crlf buf = Some k" by (cases "find_in crlf buf") (auto simp: plain_loop.simps [of buf])
  show ?case
  proof (cases "k = 0")
    case True
    then have "prefix crlf buf" using k by (cases buf) (auto simp: crlf_def split: if_splits)
    then show ?thesis using 1(2) k True by (auto simp: plain_loop.simps [of buf] prefix_def crlf_def split: if_splits)
  next
    case False
    then obtain r1 where "process_line (take k buf) r = Inr r1" "plain_loop (drop (k + 2) buf) r1 = Inr (rest, r', True)"
      using k 1(2) by (auto simp: plain_loop.simps [of buf] split: sum.splits)
    from 1(1) [OF k False this] obtain pre where "drop (k + 2) buf = pre @ crlf @ rest" by blast
    then have "buf = (take (k + 2) buf @ pre) @ crlf @ rest" by (metis append_assoc append_take_drop_id)
    then show ?thesis by blast
  qed
qed

lemma rest_behind:
  assumes "b @ s = pre @ crlf @ rest" "find_in crlf b = None"
  obtains q where "s = q @ rest"
proof -
  have "find_in crlf (pre @ crlf @ us) \<noteq> None" for us
  proof (induction pre)
    case Nil
    then show ?case by (simp add: find_in_prefix crlf_def)
  qed simp
  then have "b \<noteq> pre @ crlf @ us" for us using assms(2) by metis
  moreover have "b @ s = (pre @ crlf) @ rest" using assms(1) by simp
  ultimately show ?thesis using that unfolding append_eq_append_conv2 [of b s] by auto
qed

lemma plain_loop_rest:
  assumes "plain_loop (b @ s) r = Inr (rest, r', True)" "find_in crlf b = None"
  obtains q where "s = q @ rest"
  using plain_loop_split [OF assms(1)] rest_behind [OF _ assms(2)] that by metis

text \<open>The end of \<^verbatim>\<open>consume\<close> after the blank line.\<close>

lemma consume_after_headers:
  assumes "\<not> m_ready r" "m_body_bytes_needed r = 0" "m_buf r = Some b" "header_loop (b @ q @ rest) r = Inr (rest, r1, True)"
  shows "feed (q @ rest) r = after_headers rest (r1\<lparr>m_buf := None\<rparr>)"
proof -
  have d: "drop (length q + n) (q @ rest) = drop n rest" for n by (simp add: add.commute [of "length q"] flip: drop_drop)
  show ?thesis
  proof (cases "prepare_body (r1\<lparr>m_buf := None\<rparr>)")
    case (Inl e)
    then show ?thesis using assms by (simp add: feed_def request_consume_def after_headers_def)
  next
    case (Inr x)
    obtain c r2 where x: "x = (c, r2)" by (cases x)
    then show ?thesis using assms Inr d [of 0]
      by (cases c) (auto simp: feed_def request_consume_def after_headers_def take_body_def process_body_def Let_def d simp del: drop_append)
  qed
qed

lemma feed_plain:
  assumes "receiving r" "budget s r \<le> max_header_size"
  shows "uncount (feed s r) = uncount (plain_feed s r)"
    and "feed s r = Inr (l, r1) \<Longrightarrow> \<not> m_ready r1 \<Longrightarrow> budget t r1 \<le> budget (s @ t) r + 3"
proof -
  have "uncount (feed s r) = uncount (plain_feed s r) \<and>
    (\<forall>l r1. feed s r = Inr (l, r1) \<and> \<not> m_ready r1 \<longrightarrow> budget t r1 \<le> budget (s @ t) r + 3)"
  proof (cases "m_body_bytes_needed r > 0")
    case True
    then have r: "\<not> m_ready r" "m_body_encoding r = plain" using assms(1) by (simp_all add: receiving_def)
    then show ?thesis using True
      by (auto simp: feed_def request_consume_def plain_feed_def take_body_def process_body_def body_ready_def Let_def budget_def min_def split: if_splits)
  next
    case False
    then obtain b where r: "\<not> m_ready r" "m_body_bytes_needed r = 0" "m_buf r = Some b" "find_in crlf b = None"
      using assms(1) by (auto simp: receiving_def)
    have "m_header_bytes r + header_cost (b @ s) \<le> max_header_size" using assms(2) False r(3) by (simp add: budget_def)
    from header_loop_plain [OF this] obtain c where
      c: "header_loop (b @ s) r = with_count (Some b) (m_header_bytes r + c) (plain_loop (b @ s) r)"
        "\<And>rest r'. plain_loop (b @ s) r = Inr (rest, r', False) \<Longrightarrow> c + length (the (m_buf r')) = header_cost (b @ s)"
      using r(3) by auto
    show ?thesis
    proof (cases "plain_loop (b @ s) r")
      case (Inl e)
      then show ?thesis using c(1) r by (simp add: feed_def request_consume_def plain_feed_def with_count_def)
    next
      case (Inr x)
      then obtain rest r1 e where x: "plain_loop (b @ s) r = Inr (rest, r1, e)" by (metis prod_cases3)
      note keep = plain_loop_keeps [OF x]
      show ?thesis
      proof (cases e)
        case False
        let ?r1 = "r1\<lparr>m_header_bytes := m_header_bytes r + c\<rparr>"
        have q: "feed s r = Inr ([], ?r1)" "plain_feed s r = Inr ([], r1)"
          using r x c(1) False keep by (simp_all add: feed_def request_consume_def plain_feed_def with_count_def)
        have "header_cost (b @ s @ t) + length (the (m_buf r1)) + 3 = header_cost (b @ s) + header_cost (the (m_buf r1) @ t)"
          using header_cost_append [of "b @ s" r rest r1 t] x False by simp
        moreover have "c + length (the (m_buf r1)) = header_cost (b @ s)" using c(2) x False by simp
        ultimately have "budget t ?r1 \<le> budget (s @ t) r + 3" using keep r by (simp add: budget_def)
        then show ?thesis using q by (simp add: uncount_def)
      next
        case True
        let ?n = "m_header_bytes r + c"
        obtain q where s: "s = q @ rest" using plain_loop_rest [OF _ r(4), of s r rest r1] x True by auto
        have "header_loop (b @ q @ rest) r = Inr (rest, reb (Some b) ?n r1, True)" using c(1) x True s by (simp add: with_count_def)
        moreover have "(reb (Some b) ?n r1)\<lparr>m_buf := None\<rparr> = r1\<lparr>m_header_bytes := ?n\<rparr>" using keep True by (simp add: reb_def)
        ultimately have f: "feed s r = after_headers rest (r1\<lparr>m_header_bytes := ?n\<rparr>)"
          using consume_after_headers [OF r(1-3)] s by simp
        have p: "plain_feed s r = after_headers rest r1" using r x True by (simp add: plain_feed_def)
        have "budget t r2 = 0" if "feed s r = Inr (l, r2)" "\<not> m_ready r2" for l r2
          using after_headers_append(2) [of "r1\<lparr>m_header_bytes := ?n\<rparr>" rest l r2] that keep r(1) f by (simp add: budget_def)
        moreover have "uncount (feed s r) = uncount (plain_feed s r)" unfolding f p after_headers_count by (rule uncount_set)
        ultimately show ?thesis by simp
      qed
    qed
  qed
  then show "uncount (feed s r) = uncount (plain_feed s r)"
    "feed s r = Inr (l, r1) \<Longrightarrow> \<not> m_ready r1 \<Longrightarrow> budget t r1 \<le> budget (s @ t) r + 3" by blast+
qed

lemma find_in_crossing: "find_in crlf xs = None \<Longrightarrow> find_in crlf (xs @ ys) = Some k \<Longrightarrow> length xs < k + 2"
proof (induction xs arbitrary: k)
  case (Cons c xs)
  show ?case
  proof (cases "prefix crlf (c # xs @ ys)")
    case True
    then have "xs = []" using Cons.prems(1) by (cases xs) (auto simp: crlf_def split: if_splits)
    then show ?thesis by simp
  next
    case False
    then obtain j where "find_in crlf (xs @ ys) = Some j" "k = Suc j" using Cons.prems(2) by auto
    moreover have "find_in crlf xs = None" using Cons.prems(1) by (auto split: if_splits)
    ultimately show ?thesis using Cons.IH [of j] by simp
  qed
qed simp

lemma header_cost_mono: "header_cost xs \<le> header_cost (xs @ ys) + 1"
proof (induction xs rule: header_cost.induct)
  case (1 xs)
  show ?case
  proof (cases "find_in crlf xs")
    case None
    then have c: "header_cost xs = length xs + 3" by (simp add: header_cost.simps [of xs])
    show ?thesis
      using c find_in_crossing [OF None, of ys] by (cases "find_in crlf (xs @ ys)") (auto simp: header_cost.simps [of "xs @ ys"])
  next
    case (Some k)
    have k: "k + 2 \<le> length xs" using find_in_bound [OF Some] by (simp add: crlf_def)
    have f: "find_in crlf (xs @ ys) = Some k" using find_in_append [OF Some] by (simp add: crlf_def)
    show ?thesis using Some f k 1 [OF Some] by (cases "k = 0") (simp_all add: header_cost.simps [of xs] header_cost.simps [of "xs @ ys"])
  qed
qed

lemma budget_mono: "budget s r \<le> budget (s @ t) r + 1"
  using header_cost_mono [of "the (m_buf r) @ s" t] by (simp add: budget_def)

text \<open>A request that arrives in pieces, as \<^verbatim>\<open>co_recvRequest\<close> feeds them.\<close>

fun feed_chunks :: "string list \<Rightarrow> request \<Rightarrow> failure + string \<times> request" where
  "feed_chunks [] r = Inr ([], r)"
| "feed_chunks (s # ss) r =
     (case feed s r of Inl e \<Rightarrow> Inl e | Inr (l, r') \<Rightarrow> if m_ready r' then Inr (l @ concat ss, r') else feed_chunks ss r')"

lemma receiving_count [simp]: "receiving (r\<lparr>m_header_bytes := n\<rparr>) = receiving r"
  by (simp add: receiving_def)

lemma uncount_plain_feed: "uncount (plain_feed s (r\<lparr>m_header_bytes := n\<rparr>)) = uncount (plain_feed s r)"
  unfolding plain_feed_count by (rule uncount_set)

lemma uncount_eq_Inr: "uncount x = uncount (Inr (l, r)) \<longleftrightarrow> (\<exists>r'. x = Inr (l, r') \<and> r'\<lparr>m_header_bytes := 0\<rparr> = r\<lparr>m_header_bytes := 0\<rparr>)"
  by (cases x) (auto simp: uncount_def)

lemma plain_feed_nil: "receiving r \<Longrightarrow> plain_feed [] r = Inr ([], r)"
  by (auto simp: receiving_def plain_feed_def take_body_def process_body_def body_ready_def plain_loop.simps)

lemma feed_chunks_plain:
  "receiving r \<Longrightarrow> budget (concat ss) r + 3 * length ss \<le> max_header_size \<Longrightarrow>
   uncount (feed_chunks ss r) = uncount (plain_feed (concat ss) r)"
proof (induction ss arbitrary: r)
  case Nil
  then show ?case by (simp add: plain_feed_nil)
next
  case (Cons s ss)
  have b: "budget s r \<le> max_header_size" using Cons.prems(2) budget_mono [of s r "concat ss"] by simp
  note f = feed_plain [OF Cons.prems(1) b]
  show ?case
  proof (cases "plain_feed s r")
    case (Inl e)
    then have "feed s r = Inl e" using f(1) by (cases "feed s r") (auto simp: uncount_def)
    then show ?thesis using Inl plain_feed_append(1) [OF Cons.prems(1)] by (simp add: uncount_def)
  next
    case (Inr x)
    then obtain l r2 where p: "plain_feed s r = Inr (l, r2)" by (cases x) auto
    then obtain r1 where q: "feed s r = Inr (l, r1)" "r1\<lparr>m_header_bytes := 0\<rparr> = r2\<lparr>m_header_bytes := 0\<rparr>"
      using f(1) by (auto simp: uncount_eq_Inr)
    obtain n where r1: "r1 = r2\<lparr>m_header_bytes := n\<rparr>"
      using that [of "m_header_bytes r1"] arg_cong [OF q(2), of "\<lambda>x. x\<lparr>m_header_bytes := m_header_bytes r1\<rparr>"] by simp
    show ?thesis
    proof (cases "m_ready r2")
      case True
      then show ?thesis using p q(1) r1 plain_feed_append(1) [OF Cons.prems(1), of s "concat ss"] by (simp add: uncount_def)
    next
      case False
      have "receiving r1" using plain_feed_append(2) [OF Cons.prems(1) p False] r1 by simp
      moreover have "budget (concat ss) r1 + 3 * length ss \<le> max_header_size"
        using f(2) [OF q(1), of "concat ss"] False r1 Cons.prems(2) by simp
      ultimately have "uncount (feed_chunks ss r1) = uncount (plain_feed (concat ss) r1)" by (rule Cons.IH)
      then show ?thesis using p q(1) r1 False plain_feed_append(1) [OF Cons.prems(1), of s "concat ss"] by (simp add: uncount_plain_feed)
    qed
  qed
qed

text \<open>
  C13. Feeding the bytes of a request to \<^verbatim>\<open>request::consume\<close> in pieces, cut anywhere, gives the same result as
  feeding them at once (the same exception, or the same request and the same unread bytes), as long as the
  header limit is not reached: every piece costs three bytes of it.
\<close>

theorem consume_in_pieces:
  "header_cost (concat ss) + 3 * length ss + 3 \<le> max_header_size \<Longrightarrow>
   uncount (feed_chunks ss request_new) = uncount (feed (concat ss) request_new)"
proof -
  assume a: "header_cost (concat ss) + 3 * length ss + 3 \<le> max_header_size"
  have r: "receiving request_new" by (simp add: receiving_def request_new_def crlf_def)
  have b: "budget s request_new = header_cost s" for s by (simp add: budget_def request_new_def)
  show "uncount (feed_chunks ss request_new) = uncount (feed (concat ss) request_new)"
    using feed_chunks_plain [OF r, of ss] feed_plain(1) [OF r, of "concat ss"] a b by simp
qed

theorem consume_in_pieces_witness:
  "uncount (feed_chunks [''GET / H'', ''TTP/1.1'' @ [CHR 0x0D], [CHR 0x0A] @ ''Host: a'' @ crlf @ [CHR 0x0D], [CHR 0x0A] @ ''next''] request_new) =
   uncount (feed (concat [''GET / H'', ''TTP/1.1'' @ [CHR 0x0D], [CHR 0x0A] @ ''Host: a'' @ crlf @ [CHR 0x0D], [CHR 0x0A] @ ''next'']) request_new)"
  by (rule consume_in_pieces) code_simp

end
