(* ===== verification/Http_Response.thy ===== *)
theory Http_Response
  imports Http_Parser
begin

section \<open>HTTP responses (protocol/http/response.hpp, impl/response.hpp)\<close>

text \<open>
  The response a handler fills in and the server sends, and the parser for responses. The status is
  an enumeration without a fixed type, whose values are all non-negative: 32 bits without sign, to
  which the parsed number is converted.
\<close>

datatype resp_state = RESPONSE_LINE | HEADERS | BODY | DONE

record response = http_parser +
  m_status_msg :: string
  m_read :: nat
  resp_buf :: "string option"
  m_status_code :: u32
  m_state :: resp_state

definition status_names :: "(nat \<times> string) list" where
  "status_names = [
     (0, ''Uninitialized''), (100, ''Continue''), (101, ''Switching Protocols''),
     (200, ''OK''), (201, ''Created''), (202, ''Accepted''), (203, ''Non Authoritative Information''),
     (204, ''No Content''), (205, ''Reset Content''), (206, ''Partial Content''),
     (300, ''Multiple Choices''), (301, ''Moved Permanently''), (302, ''Found''), (303, ''See Other''),
     (304, ''Not Modified''), (305, ''Use Proxy''), (307, ''Temporary Redirect''),
     (400, ''Bad Request''), (401, ''Unauthorized''), (402, ''Payment Required''), (403, ''Forbidden''),
     (404, ''Not Found''), (405, ''Method Not Allowed''), (406, ''Not Acceptable''),
     (407, ''Proxy Authentication Required''), (408, ''Request Timeout''), (409, ''Conflict''), (410, ''Gone''),
     (411, ''Length Required''), (412, ''Precondition Failed''), (413, ''Request Entity Too Large''),
     (414, ''Request-URI Too Long''), (415, ''Unsupported Media Type''), (416, ''Requested Range Not Satisfiable''),
     (417, ''Expectation Failed''), (418, ''I'' @ [CHR 0x27] @ ''m a teapot''), (426, ''Upgrade Required''),
     (428, ''Precondition Required''), (429, ''Too Many Requests''), (431, ''Request Header Fields Too Large''),
     (500, ''Internal Server Error''), (501, ''Not Implemented''), (502, ''Bad Gateway''), (503, ''Service Unavailable''),
     (504, ''Gateway Timeout''), (505, ''HTTP Version Not Supported''), (510, ''Not Extended''),
     (511, ''Network Authentication Required'')]"

definition get_string :: "u32 \<Rightarrow> string" where
  "get_string c = (case map_of status_names (unat c) of None \<Rightarrow> ''Unknown'' | Some s \<Rightarrow> s)"

definition response_new :: response where
  "response_new = \<lparr>m_version = [], m_headers = [], m_header_bytes = 0, m_body = [], m_body_bytes_needed = 0,
     m_body_bytes_max = max_body_size, m_body_encoding = unknown, m_status_msg = [], m_read = 0, resp_buf = Some [],
     m_status_code = 0, m_state = RESPONSE_LINE\<rparr>"

definition response_reset :: "response \<Rightarrow> response" where
  "response_reset r = parser_reset (r\<lparr>m_read := 0, resp_buf := Some [], m_status_msg := [], m_status_code := 0, m_state := RESPONSE_LINE\<rparr>)"

definition set_status :: "u32 \<Rightarrow> response \<Rightarrow> response" where
  "set_status code r = r\<lparr>m_status_code := code, m_status_msg := get_string code\<rparr>"

definition set_status_msg :: "u32 \<Rightarrow> string \<Rightarrow> response \<Rightarrow> response" where
  "set_status_msg code msg r = r\<lparr>m_status_code := code, m_status_msg := msg\<rparr>"

definition response_raw :: "response \<Rightarrow> string" where
  "response_raw r = m_version r @ '' '' @ dec (unat (m_status_code r)) @ '' '' @ m_status_msg r @ crlf @ raw_headers r @ crlf @ m_body r"

subsection \<open>Reading numbers from a stream\<close>

text \<open>
  \<^verbatim>\<open>istringstream(s) >> n\<close> for a 64-bit number without sign and for an \<^verbatim>\<open>int\<close>: leading space, a sign and
  digits; no digits or a value out of range set the fail bit.
\<close>

definition scan_number :: "string \<Rightarrow> (bool \<times> nat) option" where
  "scan_number s =
     (let t = dropWhile (\<lambda>c. c = CHR '' '' \<or> (of_char c :: nat) \<in> {9..13}) s;
          neg = (t \<noteq> [] \<and> hd t = CHR ''-''); u = (if t \<noteq> [] \<and> (hd t = CHR ''-'' \<or> hd t = CHR ''+'') then tl t else t);
          d = takeWhile digit u
      in if d = [] then None else Some (neg, digits_value d))"

definition scan_size :: "string \<Rightarrow> nat option" where
  "scan_size s =
     (case scan_number s of
        None \<Rightarrow> None
      | Some (neg, n) \<Rightarrow> if n \<ge> 2 ^ 64 then None else Some (if neg then (2 ^ 64 - n) mod 2 ^ 64 else n))"

definition scan_int :: "string \<Rightarrow> int option" where
  "scan_int s =
     (case scan_number s of
        None \<Rightarrow> None
      | Some (neg, n) \<Rightarrow> (let i = (if neg then - int n else int n) in if - (2 ^ 31) \<le> i \<and> i < 2 ^ 31 then Some i else None))"

subsection \<open>Parsing\<close>

definition response_process :: "string \<Rightarrow> response \<Rightarrow> failure + response" where
  "response_process line r =
     (let v = takeWhile (\<lambda>c. c \<noteq> CHR '' '') line; rest = dropWhile (\<lambda>c. c \<noteq> CHR '' '') line
      in if rest = [] then Inl (Thrown ''Invalid response line'')
         else (let r = set_version v r; c = takeWhile (\<lambda>c. c \<noteq> CHR '' '') (tl rest); rest2 = dropWhile (\<lambda>c. c \<noteq> CHR '' '') (tl rest)
               in if rest2 = [] then Inl (Thrown ''Invalid request line'')
                  else (case scan_int c of
                          None \<Rightarrow> Inl (Thrown ''Unable to parse response code'')
                        | Some code \<Rightarrow> Inr (set_status_msg (word_of_int code) (tl rest2) r))))"

definition response_process_body :: "string \<Rightarrow> response \<Rightarrow> nat \<times> response" where
  "response_process_body buf r =
     (if m_read r = 0 then (0, r\<lparr>m_state := DONE\<rparr>)
      else (let to_read = (if length buf \<ge> m_read r then m_read r else length buf);
                r = (if length buf \<ge> m_read r then r\<lparr>m_state := DONE\<rparr> else r)
            in (to_read, r\<lparr>m_body := m_body r @ take to_read buf, m_read := m_read r - to_read\<rparr>)))"

definition response_line :: "string \<Rightarrow> response \<Rightarrow> failure + response" where
  "response_line line r =
     (if m_state r = RESPONSE_LINE then map_sum (\<lambda>e. e) (\<lambda>r. r\<lparr>m_state := HEADERS\<rparr>) (response_process line r)
      else process_header line r)"

text \<open>The loop over the lines; as for requests it ends without a further line or after the blank line.\<close>

function response_loop :: "string \<Rightarrow> response \<Rightarrow> failure + string \<times> response \<times> bool" where
  "response_loop buf r =
     (case find_in crlf buf of
        None \<Rightarrow>
          (let n = m_header_bytes r + length buf + 3
           in if n > max_header_size then Inl (Thrown ''Maximum header size exceeded.'')
              else Inr (buf, r\<lparr>resp_buf := Some buf, m_header_bytes := n - length buf\<rparr>, False))
      | Some k \<Rightarrow>
          (let r = r\<lparr>m_header_bytes := m_header_bytes r + k + 3\<rparr>
           in if m_header_bytes r > max_header_size then Inl (Thrown ''Maximum header size exceeded.'')
              else if k = 0
              then (if m_state r = RESPONSE_LINE then Inl (Thrown ''Incomplete Request'') else Inr (drop 2 buf, r, True))
              else (case response_line (take k buf) r of Inl e \<Rightarrow> Inl e | Inr r \<Rightarrow> response_loop (drop (k + 2) buf) r)))"
  by pat_completeness auto
termination
proof (relation "measure (\<lambda>(buf, r). length buf)")
  fix buf :: string and r x2 x xa
  assume "find_in crlf buf = Some x2"
  from find_in_bound [OF this] show "((drop (x2 + 2) buf, xa), buf, r) \<in> measure (\<lambda>(buf, r). length buf)" by (simp add: crlf_def)
qed simp

declare response_loop.simps [simp del]

definition body_length :: "response \<Rightarrow> failure + nat" where
  "body_length r =
     (let l = get_header ''Content-Length'' r
      in if l = [] then Inr 0
         else (case scan_size l of None \<Rightarrow> Inl (Thrown ''Unable to parse Content-Length header'') | Some n \<Rightarrow> Inr n))"

definition response_consume :: "string \<Rightarrow> response \<Rightarrow> failure + nat \<times> response" where
  "response_consume buf r =
     (if m_state r = DONE then Inr (0, r)
      else if m_state r = BODY then Inr (response_process_body buf r)
      else (case resp_buf r of
              None \<Rightarrow> Inl NullDeref
            | Some b \<Rightarrow>
                (case response_loop (b @ buf) r of
                   Inl e \<Rightarrow> Inl e
                 | Inr (rest, r, False) \<Rightarrow> Inr (length buf, r\<lparr>m_read := m_read r + length buf\<rparr>)
                 | Inr (rest, r, True) \<Rightarrow>
                     (case body_length r of
                        Inl e \<Rightarrow> Inl e
                      | Inr n \<Rightarrow>
                          (let r = r\<lparr>m_read := n, m_state := BODY\<rparr>; read = length buf - length rest;
                               (k, r) = (if read < length buf then response_process_body (drop read buf) r else (0, r))
                           in Inr (read + k, r\<lparr>resp_buf := None\<rparr>))))))"

end
