(* ===== verification/Http_Headers.thy ===== *)
theory Http_Headers
  imports Http_Parser
begin

section \<open>The header map\<close>

text \<open>
  The headers of a message are a map whose keys are compared without regard to case. The interface is a
  locale over the operations of \<^verbatim>\<open>std::map\<close> that the messages use; the model's ordered lists are an
  interpretation.
\<close>

locale keyed_map =
  fixes inv :: "'m \<Rightarrow> bool" and same :: "'k \<Rightarrow> 'k \<Rightarrow> bool" and look :: "'k \<Rightarrow> 'm \<Rightarrow> 'v option"
    and put :: "'k \<Rightarrow> 'v \<Rightarrow> 'm \<Rightarrow> 'm" and del :: "'k \<Rightarrow> 'm \<Rightarrow> 'm"
  assumes same_refl: "same k k"
    and put_inv: "inv m \<Longrightarrow> inv (put k v m)" and del_inv: "inv m \<Longrightarrow> inv (del k m)"
    and look_put: "inv m \<Longrightarrow> look k' (put k v m) = (if same k k' then Some v else look k' m)"
    and look_del: "inv m \<Longrightarrow> look k' (del k m) = (if same k k' then None else look k' m)"
begin

text \<open>Storing what a function makes of the old value.\<close>

definition update :: "('v option \<Rightarrow> 'v) \<Rightarrow> 'k \<Rightarrow> 'm \<Rightarrow> 'm" where
  "update f k m = put k (f (look k m)) m"

lemma look_update: "inv m \<Longrightarrow> look k' (update f k m) = (if same k k' then Some (f (look k m)) else look k' m)"
  by (simp add: update_def look_put)

lemma put_put: "inv m \<Longrightarrow> look k' (put k v (put k u m)) = look k' (put k v m)"
  by (simp add: look_put put_inv)

lemma del_put: "inv m \<Longrightarrow> look k (del k (put k v m)) = None"
  by (simp add: look_del put_inv same_refl)

end

lemma lex_less_irrefl: "\<not> lex_less xs xs"
  by (induction xs) simp_all

lemma lex_less_trans: "lex_less xs ys \<Longrightarrow> lex_less ys zs \<Longrightarrow> lex_less xs zs"
proof (induction xs ys arbitrary: zs rule: lex_less.induct)
  case (2 y ys)
  then show ?case by (cases zs) simp_all
next
  case (3 x xs y ys)
  then show ?case by (cases zs) (auto split: if_splits)
qed simp

lemma ci_less_asym: "ci_less a b \<Longrightarrow> \<not> ci_less b a"
  unfolding ci_less_def using lex_less_trans lex_less_irrefl by blast

lemma ci_less_trans: "ci_less a b \<Longrightarrow> ci_less b c \<Longrightarrow> ci_less a c"
  unfolding ci_less_def by (rule lex_less_trans)

definition ordered_headers :: "header_list \<Rightarrow> bool" where
  "ordered_headers hs \<longleftrightarrow> sorted_wrt (\<lambda>h1 h2. ci_less (fst h1) (fst h2)) hs"

lemma hput_keys: "x \<in> set (hput k v hs) \<Longrightarrow> fst x = k \<or> fst x \<in> fst ` set hs"
  by (induction hs) (auto split: if_splits)

lemma hput_ordered: "ordered_headers hs \<Longrightarrow> ordered_headers (hput k v hs)"
  unfolding ordered_headers_def
proof (induction hs)
  case (Cons h hs)
  obtain a b where h: "h = (a, b)" by (cases h)
  consider "ci_less a k" | "\<not> ci_less a k" "ci_less k a" | "\<not> ci_less a k" "\<not> ci_less k a" by blast
  then show ?case
  proof cases
    case 1
    then have "ci_less a (fst x)" if "x \<in> set (hput k v hs)" for x using hput_keys [OF that] Cons.prems h by auto
    then show ?thesis using 1 Cons h by auto
  next
    case 2
    then show ?thesis using Cons h ci_less_trans by fastforce
  next
    case 3
    then show ?thesis using Cons h by auto
  qed
qed simp

lemma hremove_subset: "x \<in> set (hremove k hs) \<Longrightarrow> x \<in> set hs"
  by (induction hs) (auto split: if_splits)

lemma hremove_ordered: "ordered_headers hs \<Longrightarrow> ordered_headers (hremove k hs)"
  unfolding ordered_headers_def
proof (induction hs)
  case (Cons h hs)
  then show ?case by (cases h) (auto dest: hremove_subset)
qed simp

text \<open>Keys that differ in case only.\<close>

definition ci_same :: "string \<Rightarrow> string \<Rightarrow> bool" where
  "ci_same a b \<longleftrightarrow> map tolower a = map tolower b"

lemma lex_less_total: "\<not> lex_less xs ys \<Longrightarrow> \<not> lex_less ys xs \<Longrightarrow> xs = ys"
  by (induction xs ys rule: lex_less.induct) (auto split: if_splits elim: lex_less.elims)

lemma ci_same_iff: "ci_same a b \<longleftrightarrow> \<not> ci_less a b \<and> \<not> ci_less b a"
  unfolding ci_same_def ci_less_def using lex_less_total lex_less_irrefl by metis

lemma ci_same_less: "ci_same a b \<Longrightarrow> ci_less a c = ci_less b c" "ci_same a b \<Longrightarrow> ci_less c a = ci_less c b"
  by (simp_all add: ci_same_def ci_less_def)

lemma hfind_before: "\<forall>h \<in> set hs. ci_less k (fst h) \<Longrightarrow> hfind k hs = None"
proof (cases hs)
  case (Cons h hs')
  assume "\<forall>h \<in> set hs. ci_less k (fst h)"
  then have "ci_less k (fst h)" "\<not> ci_less (fst h) k" using Cons ci_less_asym by auto
  then show ?thesis using Cons by (cases h) simp
qed simp

lemma hfind_tail:
  assumes "ordered_headers ((a, b) # hs)" "\<not> ci_less a k"
  shows "hfind k hs = None"
proof (rule hfind_before)
  show "\<forall>h \<in> set hs. ci_less k (fst h)"
  proof
    fix h
    assume "h \<in> set hs"
    then have "ci_less a (fst h)" using assms(1) by (auto simp: ordered_headers_def)
    then show "ci_less k (fst h)" using assms(2) ci_same_iff [of a k] ci_same_less(1) [of a k] ci_less_trans by blast
  qed
qed

lemma ordered_tail: "ordered_headers (h # hs) \<Longrightarrow> ordered_headers hs"
  by (simp add: ordered_headers_def)

lemma hfind_hput: "ordered_headers hs \<Longrightarrow> hfind k' (hput k v hs) = (if ci_same k k' then Some v else hfind k' hs)"
proof (induction hs)
  case Nil
  then show ?case by (auto simp: ci_same_iff)
next
  case (Cons h hs)
  obtain a b where h: "h = (a, b)" by (cases h)
  note IH = Cons.IH [OF ordered_tail [OF Cons.prems]]
  consider "ci_less a k" | "ci_less k a" "\<not> ci_less a k" | "ci_same a k" using ci_same_iff by blast
  then show ?case
  proof cases
    case 1
    show ?thesis
    proof (cases "ci_less a k'")
      case False
      then have "\<not> ci_same k k'" using ci_same_less(2) [of k k' a] 1 by blast
      then show ?thesis using 1 h False by simp
    qed (use 1 h IH in simp)
  next
    case 2
    consider "ci_less k k'" | "ci_less k' k" "\<not> ci_less k k'" | "ci_same k k'" using ci_same_iff by blast
    then show ?thesis
    proof cases
      case k: 1
      then have "\<not> ci_same k k'" using ci_same_iff by blast
      then show ?thesis using 2 h k by simp
    next
      case k: 2
      then have "\<not> ci_same k k'" using ci_same_iff by blast
      moreover have "ci_less k' a" using ci_less_trans [OF k(1) 2(1)] .
      moreover have "\<not> ci_less a k'" using ci_less_asym [OF \<open>ci_less k' a\<close>] .
      ultimately show ?thesis using 2 h k by simp
    next
      case k: 3
      then have "\<not> ci_less k k'" "\<not> ci_less k' k" using ci_same_iff by blast+
      then show ?thesis using 2 h k by simp
    qed
  next
    case 3
    then have "\<not> ci_less a k" "\<not> ci_less k a" "ci_same k k' \<longleftrightarrow> \<not> ci_less a k' \<and> \<not> ci_less k' a"
      using ci_same_iff ci_same_less [of a k] by blast+
    then show ?thesis using h by simp
  qed
qed

lemma hfind_hremove: "ordered_headers hs \<Longrightarrow> hfind k' (hremove k hs) = (if ci_same k k' then None else hfind k' hs)"
proof (induction hs)
  case (Cons h hs)
  obtain a b where h: "h = (a, b)" by (cases h)
  note IH = Cons.IH [OF ordered_tail [OF Cons.prems]]
  have tail: "\<not> ci_less a k' \<Longrightarrow> hfind k' hs = None" using hfind_tail Cons.prems h by blast
  consider "ci_less a k" | "ci_less k a" "\<not> ci_less a k" | "ci_same a k" using ci_same_iff by blast
  then show ?case
  proof cases
    case 1
    show ?thesis
    proof (cases "ci_less a k'")
      case False
      then have "\<not> ci_same k k'" using ci_same_less(2) [of k k' a] 1 by blast
      then show ?thesis using 1 h False by simp
    qed (use 1 h IH in simp)
  next
    case 2
    show ?thesis
    proof (cases "ci_same k k'")
      case True
      then have "ci_less k' a" using ci_same_less(1) [of k k' a] 2 by blast
      then show ?thesis using 2 h True ci_less_asym [of k' a] by simp
    qed (use 2 h in simp)
  next
    case 3
    then have "\<not> ci_less a k" "\<not> ci_less k a" "ci_same k k' \<longleftrightarrow> \<not> ci_less a k' \<and> \<not> ci_less k' a"
      using ci_same_iff ci_same_less [of a k] by blast+
    then show ?thesis using h tail by auto
  qed
qed simp

interpretation hm: keyed_map ordered_headers ci_same hfind hput hremove
  by unfold_locales (simp_all add: hput_ordered hremove_ordered hfind_hput hfind_hremove ci_same_def)

lemma headers_are_a_map_parts:
  assumes "ordered_headers (m_headers p)"
  shows "append_header k v p = (if list_all is_token_char k then Inr (p\<lparr>m_headers := hput k (if get_header k p = [] then v else get_header k p @ '', '' @ v) (m_headers p)\<rparr>)
      else Inl (Thrown ''Invalid header name''))"
    and "append_header k v p = Inr q \<longrightarrow> ordered_headers (m_headers q) \<and>
      get_header k' q = (if ci_same k k' then (if get_header k p = [] then v else get_header k p @ '', '' @ v) else get_header k' p)"
    and "ordered_headers (m_headers (replace_header k v p)) \<and> get_header k' (replace_header k v p) = (if ci_same k k' then v else get_header k' p)"
    and "ordered_headers (m_headers (remove_header k p)) \<and> get_header k' (remove_header k p) = (if ci_same k k' then [] else get_header k' p)"
proof -
  let ?v = "if get_header k p = [] then v else get_header k p @ '', '' @ v"
  show a: "append_header k v p = (if list_all is_token_char k then Inr (p\<lparr>m_headers := hput k ?v (m_headers p)\<rparr>) else Inl (Thrown ''Invalid header name''))"
    by (auto simp: append_header_def list_all_iff)
  show "append_header k v p = Inr q \<longrightarrow> ordered_headers (m_headers q) \<and> get_header k' q = (if ci_same k k' then ?v else get_header k' p)"
    unfolding a by (auto simp: get_header_def hm.look_put [OF assms] hm.put_inv [OF assms])
  show "ordered_headers (m_headers (replace_header k v p)) \<and> get_header k' (replace_header k v p) = (if ci_same k k' then v else get_header k' p)"
    by (simp add: replace_header_def get_header_def hm.look_put [OF assms] hm.put_inv [OF assms])
  show "ordered_headers (m_headers (remove_header k p)) \<and> get_header k' (remove_header k p) = (if ci_same k k' then [] else get_header k' p)"
    by (simp add: remove_header_def get_header_def hm.look_del [OF assms] hm.del_inv [OF assms])
qed

text \<open>
  Headers behave like a map with keys up to case: \<^verbatim>\<open>append_header\<close> refuses a name that is not a token; otherwise it
  adds the value behind a comma to the one that is there, \<^verbatim>\<open>replace_header\<close> overwrites, \<^verbatim>\<open>remove_header\<close>
  removes, no other header changes, and the map stays ordered.
\<close>

theorem headers_are_a_map:
  assumes "ordered_headers (m_headers p)"
  shows "append_header k v p = (if list_all is_token_char k then Inr (p\<lparr>m_headers := hput k (if get_header k p = [] then v else get_header k p @ '', '' @ v) (m_headers p)\<rparr>)
      else Inl (Thrown ''Invalid header name''))
    \<and> (append_header k v p = Inr q \<longrightarrow> ordered_headers (m_headers q) \<and>
      get_header k' q = (if ci_same k k' then (if get_header k p = [] then v else get_header k p @ '', '' @ v) else get_header k' p))
    \<and> (ordered_headers (m_headers (replace_header k v p)) \<and> get_header k' (replace_header k v p) = (if ci_same k k' then v else get_header k' p))
    \<and> (ordered_headers (m_headers (remove_header k p)) \<and> get_header k' (remove_header k p) = (if ci_same k k' then [] else get_header k' p))"
  by (intro conjI headers_are_a_map_parts headers_are_a_map_parts(3,4) [THEN conjunct1] headers_are_a_map_parts(3,4) [THEN conjunct2] assms)

theorem headers_are_a_map_witness:
  "get_header ''host'' (replace_header ''Host'' ''a'' (request_new\<lparr>m_headers := [(''HOST'', ''b'')]\<rparr>)) = ''a''"
proof -
  have "ordered_headers (m_headers (request_new\<lparr>m_headers := [(''HOST'', ''b'')]\<rparr>))" by (simp add: ordered_headers_def)
  moreover have "ci_same ''Host'' ''host''" by code_simp
  ultimately show ?thesis using headers_are_a_map [of "request_new\<lparr>m_headers := [(''HOST'', ''b'')]\<rparr>" "''Host''" "''a''" _ "''host''"] by simp
qed

end
