(* ===== verification/Http_Roundtrip.thy ===== *)
theory Http_Roundtrip
  imports Http_Stream Http_Response Http_Headers
begin

section \<open>Printing and parsing HTTP messages\<close>

text \<open>Requests and responses that were printed with \<^verbatim>\<open>raw()\<close> are read back by \<^verbatim>\<open>consume\<close>.\<close>

subsection \<open>White space\<close>

lemma extract_lws_no_cr: "CHR 0x0D \<notin> set s \<Longrightarrow> extract_lws s = dropWhile is_whitespace_char s"
  by (auto simp: extract_lws_def split: list.splits)

lemma dropWhile_again: "dropWhile P (dropWhile P xs) = dropWhile P xs"
  by (induction xs) auto

lemma extract_all_lws_no_cr:
  assumes "CHR 0x0D \<notin> set s"
  shows "extract_all_lws s = dropWhile is_whitespace_char s"
proof -
  have "CHR 0x0D \<notin> set (dropWhile is_whitespace_char s)" using assms set_dropWhileD by fastforce
  then show ?thesis
    using assms by (simp add: extract_all_lws.simps [of s] extract_all_lws.simps [of "dropWhile is_whitespace_char s"] extract_lws_no_cr dropWhile_again Let_def)
qed

text \<open>Text that \<^verbatim>\<open>strip_lws\<close> leaves alone.\<close>

definition trimmed :: "string \<Rightarrow> bool" where
  "trimmed v \<longleftrightarrow> CHR 0x0D \<notin> set v \<and> (v \<noteq> [] \<longrightarrow> \<not> is_whitespace_char (hd v) \<and> \<not> is_whitespace_char (last v))"

lemma dropWhile_trimmed: "v \<noteq> [] \<Longrightarrow> \<not> P (hd v) \<Longrightarrow> dropWhile P v = v"
  by (cases v) simp_all

lemma cr_not_white: "\<not> is_whitespace_char (CHR 0x0D)"
  by (simp add: is_whitespace_char_def)

lemma white_no_cr: "list_all is_whitespace_char w \<Longrightarrow> CHR 0x0D \<notin> set w"
  using cr_not_white unfolding list_all_iff by blast

lemma strip_lws_trimmed:
  assumes "trimmed v" "list_all is_whitespace_char w"
  shows "strip_lws (w @ v) = v"
proof (cases "v = []")
  case True
  have "extract_all_lws w = []" using assms(2) extract_all_lws_no_cr [OF white_no_cr [OF assms(2)]] by (simp add: list_all_iff)
  then show ?thesis using True by (simp add: strip_lws_def Let_def)
next
  case False
  have cr: "CHR 0x0D \<notin> set (w @ v)" using assms(1) white_no_cr [OF assms(2)] by (simp add: trimmed_def)
  have "dropWhile is_whitespace_char (w @ v) = v"
    using assms False by (simp add: trimmed_def list_all_iff dropWhile_append2 dropWhile_trimmed)
  moreover have "dropWhile is_whitespace_char (rev (w @ v)) = rev (w @ v)"
    using assms(1) False by (intro dropWhile_trimmed) (auto simp: trimmed_def hd_rev hd_append)
  moreover have "extract_all_lws (w @ v) = dropWhile is_whitespace_char (w @ v)" "extract_all_lws (rev (w @ v)) = dropWhile is_whitespace_char (rev (w @ v))"
    using cr by (intro extract_all_lws_no_cr; simp)+
  ultimately show ?thesis using False by (simp add: strip_lws_def Let_def)
qed

subsection \<open>The header map\<close>

lemma hfind_behind: "\<forall>h \<in> set hs. ci_less (fst h) k \<Longrightarrow> hfind k hs = None"
  by (induction hs) auto

lemma hput_behind: "\<forall>h \<in> set hs. ci_less (fst h) k \<Longrightarrow> hput k v hs = hs @ [(k, v)]"
  by (induction hs) auto

subsection \<open>Header lines\<close>

lemma not_token [simp]: "\<not> is_token_char (CHR 0x0D)" "\<not> is_token_char (CHR '':'')" "\<not> is_token_char (CHR '' '')" "\<not> is_token_char (CHR 0x09)"
  by (simp_all add: is_token_char_def header_token_def numeral_eq_Suc)

lemma token_trimmed: "list_all is_token_char s \<Longrightarrow> trimmed s"
proof -
  assume t: "list_all is_token_char s"
  have w: "\<not> is_whitespace_char c" if "c \<in> set s" for c
    using t that unfolding is_whitespace_char_def list_all_iff by fastforce
  moreover have "CHR 0x0D \<notin> set s" using t not_token(1) unfolding list_all_iff by blast
  ultimately show ?thesis by (simp add: trimmed_def)
qed

definition wf_header :: "string \<times> string \<Rightarrow> bool" where
  "wf_header h \<longleftrightarrow> list_all is_token_char (fst h) \<and> trimmed (snd h)"

definition header_line :: "string \<times> string \<Rightarrow> string" where
  "header_line h = fst h @ '': '' @ snd h"

lemma raw_headers_lines: "raw_headers p = concat (map (\<lambda>h. header_line h @ crlf) (m_headers p))"
  unfolding raw_headers_def header_line_def by (rule arg_cong [of _ _ concat], rule map_cong) auto

lemma header_line_no_cr: "wf_header h \<Longrightarrow> CHR 0x0D \<notin> set (header_line h)"
  using token_trimmed [of "fst h"] by (simp add: wf_header_def header_line_def trimmed_def)

lemma find_line: "CHR 0x0D \<notin> set l \<Longrightarrow> find_in crlf (l @ crlf @ t) = Some (length l)"
  using find_in_prefix [of crlf t] find_in_skip [of "CHR 0x0D" l "[CHR 0x0A]" "crlf @ t"] by (simp add: crlf_def)

lemma crlf_length [simp]: "length crlf = 2" "drop 2 crlf = []" "drop (Suc (Suc 0)) crlf = []"
  by (simp_all add: crlf_def)

lemma process_header_line:
  assumes "wf_header h" "\<forall>x \<in> set (m_headers p). ci_less (fst x) (fst h)"
  shows "process_header (header_line h) p = Inr (p\<lparr>m_headers := m_headers p @ [h]\<rparr>)"
proof -
  obtain k v where h: "h = (k, v)" by (cases h)
  have k: "list_all is_token_char k" "trimmed v" "trimmed k" using assms(1) token_trimmed [of k] by (simp_all add: wf_header_def h)
  have "CHR '':'' \<notin> set k" using k(1) not_token(2) unfolding list_all_iff by blast
  then have f: "find_in '':'' (header_line h) = Some (length k)"
    using find_in_skip [of "CHR '':''" k "[]" "'': '' @ v"] by (simp add: header_line_def h)
  have "take (length k) (header_line h) = k" "drop (length k + 1) (header_line h) = '' '' @ v" by (simp_all add: header_line_def h)
  moreover have "strip_lws k = k" "strip_lws ('' '' @ v) = v"
    using strip_lws_trimmed [OF k(3), of "[]"] strip_lws_trimmed [OF k(2), of "'' ''"] by (simp_all add: is_whitespace_char_def)
  ultimately have "process_header (header_line h) p = append_header k v p" using f unfolding process_header_def by simp
  also have "get_header k p = []" using hfind_behind [of "m_headers p" k] assms(2) by (simp add: get_header_def h)
  then have "append_header k v p = Inr (p\<lparr>m_headers := m_headers p @ [h]\<rparr>)"
    using k(1) hput_behind [of "m_headers p" k v] assms(2) by (simp add: append_header_def list_all_iff h)
  finally show ?thesis .
qed

definition lines_cost :: "header_list \<Rightarrow> nat" where
  "lines_cost hs = sum_list (map (\<lambda>h. length (header_line h) + 3) hs)"

lemma header_line_nonempty: "header_line h \<noteq> []"
  by (simp add: header_line_def)

lemma plain_loop_headers:
  "m_method r \<noteq> [] \<Longrightarrow> ordered_headers (m_headers r @ hs) \<Longrightarrow> list_all wf_header hs \<Longrightarrow>
   plain_loop (concat (map (\<lambda>h. header_line h @ crlf) hs) @ t) r = plain_loop t (r\<lparr>m_headers := m_headers r @ hs\<rparr>)"
proof (induction hs arbitrary: r)
  case (Cons h hs)
  let ?more = "concat (map (\<lambda>h. header_line h @ crlf) hs) @ t"
  have h: "wf_header h" using Cons.prems(3) by simp
  have "\<forall>x \<in> set (m_headers r). ci_less (fst x) (fst h)" using Cons.prems(2) by (auto simp: ordered_headers_def sorted_wrt_append)
  then have "process_line (header_line h) r = Inr (r\<lparr>m_headers := m_headers r @ [h]\<rparr>)"
    using process_header_line [OF h, of r] Cons.prems(1) by (simp add: process_line_def)
  then have "plain_loop (header_line h @ crlf @ ?more) r = plain_loop ?more (r\<lparr>m_headers := m_headers r @ [h]\<rparr>)"
    using find_line [OF header_line_no_cr [OF h], of ?more] header_line_nonempty [of h]
    unfolding plain_loop.simps [of "header_line h @ crlf @ ?more"] by simp
  then show ?case using Cons.IH [of "r\<lparr>m_headers := m_headers r @ [h]\<rparr>"] Cons.prems by simp
qed simp

lemma header_cost_line: "CHR 0x0D \<notin> set l \<Longrightarrow> l \<noteq> [] \<Longrightarrow> header_cost (l @ crlf @ t) = length l + 3 + header_cost t"
  using find_line [of l t] unfolding header_cost.simps [of "l @ crlf @ t"] by simp

lemma header_cost_headers:
  "list_all wf_header hs \<Longrightarrow> header_cost (concat (map (\<lambda>h. header_line h @ crlf) hs) @ crlf @ t) = lines_cost hs + 3"
proof (induction hs)
  case Nil
  then show ?case using find_line [of "[]" t] by (simp add: header_cost.simps [of "crlf @ t"] lines_cost_def)
next
  case (Cons h hs)
  then show ?case
    using header_cost_line [of "header_line h" "concat (map (\<lambda>h. header_line h @ crlf) hs) @ crlf @ t"] header_line_no_cr [of h] header_line_nonempty [of h]
    by (simp add: lines_cost_def)
qed

subsection \<open>Numbers\<close>

lemma digit_head:
  assumes "list_all digit s" "s \<noteq> []"
  shows "dropWhile (\<lambda>c. c = CHR '' '' \<or> (of_char c :: nat) \<in> {9..13}) s = s" "hd s \<noteq> CHR ''-''" "hd s \<noteq> CHR ''+''" "takeWhile digit s = s"
proof -
  have "digit (hd s)" using assms by (cases s) simp_all
  then have d: "48 \<le> (of_char (hd s) :: nat)" by (simp add: digit_def)
  then show "hd s \<noteq> CHR ''-''" "hd s \<noteq> CHR ''+''" by auto
  have "hd s \<noteq> CHR '' ''" using d by auto
  then show "dropWhile (\<lambda>c. c = CHR '' '' \<or> (of_char c :: nat) \<in> {9..13}) s = s" using assms(2) d by (intro dropWhile_trimmed) auto
  show "takeWhile digit s = s" using assms(1) by (simp add: list_all_iff)
qed

lemmas dec_head = digit_head [of "dec n" for n, OF dec_digits [THEN conjunct2, THEN conjunct1] dec_digits [THEN conjunct1]]

lemma strtoul_dec: "n < 2 ^ 64 \<Longrightarrow> strtoul (dec n) = n"
  unfolding strtoul_def Let_def dec_head(1) using dec_head(2,3) [of n] dec_digits [of n]
  by (simp add: dec_head(4) del: takeWhile_eq_all_conv)

lemma scan_number_dec: "scan_number (dec n) = Some (False, n)"
  unfolding scan_number_def Let_def dec_head(1) using dec_head(2,3) [of n] dec_digits [of n]
  by (simp add: dec_head(4) del: takeWhile_eq_all_conv)

subsection \<open>Requests\<close>

text \<open>The requests that can be printed: what the parser demands of one.\<close>

definition wf_request :: "request \<Rightarrow> bool" where
  "wf_request r \<longleftrightarrow>
     m_method r \<noteq> [] \<and> list_all is_token_char (m_method r)
     \<and> CHR '' '' \<notin> set (m_uri r) \<and> CHR 0x0D \<notin> set (m_uri r) \<and> CHR 0x0D \<notin> set (m_version r)
     \<and> ordered_headers (m_headers r) \<and> list_all wf_header (m_headers r) \<and> get_header ''Host'' r \<noteq> []
     \<and> get_header ''Content-Length'' r = (if m_body r = [] then [] else dec (length (m_body r)))
     \<and> length (m_body r) \<le> max_body_size"

definition request_line :: "request \<Rightarrow> string" where
  "request_line r = m_method r @ '' '' @ m_uri r @ '' '' @ m_version r"

text \<open>What the headers of a request count against the limit.\<close>

definition head_cost :: "request \<Rightarrow> nat" where
  "head_cost r = length (request_line r) + 3 + lines_cost (m_headers r) + 3"

lemma request_raw_lines:
  "request_raw r = request_line r @ crlf @ concat (map (\<lambda>h. header_line h @ crlf) (m_headers r)) @ crlf @ m_body r"
  by (simp add: request_raw_def request_head_def request_line_def raw_headers_lines)

lemma dropWhile_until: "c \<notin> set xs \<Longrightarrow> dropWhile (\<lambda>x. x \<noteq> c) (xs @ c # ys) = c # ys"
  by (induction xs) auto

lemma request_line_no_cr: "wf_request r \<Longrightarrow> CHR 0x0D \<notin> set (request_line r)"
  using token_trimmed [of "m_method r"] by (simp add: wf_request_def request_line_def trimmed_def)

lemma process_request_line:
  assumes "wf_request r" "m_method q = []"
  shows "process_line (request_line r) q = Inr (q\<lparr>m_method := m_method r, m_uri := m_uri r, m_version := m_version r\<rparr>)"
proof -
  have "CHR '' '' \<notin> set (m_method r)" using assms(1) not_token(3) unfolding wf_request_def list_all_iff by blast
  moreover have "CHR '' '' \<notin> set (m_uri r)" using assms(1) by (simp add: wf_request_def)
  ultimately show ?thesis
    using assms takeWhile_until [of "CHR '' ''" "m_method r" "m_uri r @ '' '' @ m_version r"]
      dropWhile_until [of "CHR '' ''" "m_method r" "m_uri r @ '' '' @ m_version r"]
      takeWhile_until [of "CHR '' ''" "m_uri r" "m_version r"] dropWhile_until [of "CHR '' ''" "m_uri r" "m_version r"]
    by (simp add: process_line_def request_process_def request_line_def set_method_def set_uri_def set_version_def wf_request_def list_all_iff)
qed

lemma request_line_nonempty: "request_line r \<noteq> []"
  by (simp add: request_line_def)

lemma plain_loop_request:
  assumes "wf_request r"
  shows "plain_loop (request_raw r @ t) request_new =
    Inr (m_body r @ t, request_new\<lparr>m_method := m_method r, m_uri := m_uri r, m_version := m_version r, m_headers := m_headers r, m_buf := None\<rparr>, True)"
proof -
  let ?hs = "concat (map (\<lambda>h. header_line h @ crlf) (m_headers r))"
  let ?q = "request_new\<lparr>m_method := m_method r, m_uri := m_uri r, m_version := m_version r\<rparr>"
  have "plain_loop (request_raw r @ t) request_new = plain_loop (?hs @ crlf @ m_body r @ t) ?q"
    using find_line [OF request_line_no_cr [OF assms], of "?hs @ crlf @ m_body r @ t"] process_request_line [OF assms, of request_new] request_line_nonempty [of r]
    unfolding request_raw_lines plain_loop.simps [of "(request_line r @ _) @ _"] by (simp add: request_new_def)
  also have "\<dots> = plain_loop (crlf @ m_body r @ t) (?q\<lparr>m_headers := m_headers r\<rparr>)"
    using plain_loop_headers [of ?q "m_headers r" "crlf @ m_body r @ t"] assms by (simp add: wf_request_def request_new_def)
  also have "\<dots> = Inr (m_body r @ t, ?q\<lparr>m_headers := m_headers r, m_buf := None\<rparr>, True)"
    using find_line [of "[]" "m_body r @ t"] assms
    by (simp add: plain_loop.simps [of "crlf @ m_body r @ t"] wf_request_def get_header_def)
  finally show ?thesis by simp
qed

lemma header_cost_request: "wf_request r \<Longrightarrow> header_cost (request_raw r @ t) = head_cost r"
  using header_cost_line [OF request_line_no_cr request_line_nonempty, of r "concat (map (\<lambda>h. header_line h @ crlf) (m_headers r)) @ crlf @ m_body r @ t"]
    header_cost_headers [of "m_headers r" "m_body r @ t"]
  by (simp add: request_raw_lines head_cost_def wf_request_def)

lemma plain_feed_request:
  assumes "wf_request r"
  shows "\<exists>q. plain_feed (request_raw r @ t) request_new = Inr (t, q) \<and> m_ready q \<and> m_method q = m_method r \<and> m_uri q = m_uri r
    \<and> m_version q = m_version r \<and> m_headers q = m_headers r \<and> m_body q = m_body r \<and> m_body_bytes_max q = max_body_size"
proof -
  let ?q = "request_new\<lparr>m_method := m_method r, m_uri := m_uri r, m_version := m_version r, m_headers := m_headers r, m_buf := None\<rparr>"
  have f: "plain_feed (request_raw r @ t) request_new = after_headers (m_body r @ t) ?q"
    using plain_loop_request [OF assms, of t] by (simp add: plain_feed_def request_new_def)
  have h: "get_header ''Content-Length'' ?q = (if m_body r = [] then [] else dec (length (m_body r)))"
    using assms by (simp add: wf_request_def get_header_def)
  have l: "length (m_body r) \<le> max_body_size" using assms by (simp add: wf_request_def)
  then have "strtoul (dec (length (m_body r))) = length (m_body r)" by (intro strtoul_dec) (simp add: max_body_size_def)
  then show ?thesis unfolding f using h l dec_digits [of "length (m_body r)"]
    by (cases "m_body r = []") (simp_all add: after_headers_def prepare_body_def take_body_def process_body_def body_ready_def request_new_def Let_def)
qed

lemma header_loop_split: "header_loop buf r = Inr (rest, q, True) \<Longrightarrow> \<exists>pre. buf = pre @ crlf @ rest"
proof (induction buf r rule: header_loop.induct)
  case (1 buf r)
  obtain k where k: "find_in crlf buf = Some k" using 1(2) by (cases "find_in crlf buf") (auto simp: header_loop.simps [of buf] Let_def split: if_splits)
  show ?case
  proof (cases "k = 0")
    case True
    then have "prefix crlf buf" using k by (cases buf) (auto simp: crlf_def split: if_splits)
    then show ?thesis using 1(2) k True by (auto simp: header_loop.simps [of buf] Let_def prefix_def crlf_def split: if_splits)
  next
    case False
    let ?r = "count_line k r"
    have m: "\<not> m_header_bytes ?r > max_header_size" using 1(2) k by (auto simp: header_loop.simps [of buf] Let_def split: if_splits)
    then obtain r1 where "process_line (take k buf) ?r = Inr r1" "header_loop (drop (k + 2) buf) r1 = Inr (rest, q, True)"
      using k False 1(2) by (auto simp: header_loop.simps [of buf] Let_def split: sum.splits)
    from 1(1) [OF k refl m False this] obtain pre where "drop (k + 2) buf = pre @ crlf @ rest" by blast
    then have "buf = (take (k + 2) buf @ pre) @ crlf @ rest" by (metis append_assoc append_take_drop_id)
    then show ?thesis by blast
  qed
qed

lemma consume_bound:
  assumes "request_consume s r = Inr (n, q)" "receiving r"
  shows "n \<le> length s"
proof (cases "m_body_bytes_needed r > 0")
  case True
  then show ?thesis using assms by (auto simp: request_consume_def receiving_def process_body_def Let_def split: if_splits)
next
  case False
  then obtain b where r: "\<not> m_ready r" "m_body_bytes_needed r = 0" "m_buf r = Some b" "find_in crlf b = None"
    using assms(2) by (auto simp: receiving_def)
  then obtain rest r1 e where h: "header_loop (b @ s) r = Inr (rest, r1, e)"
    using assms by (auto simp: request_consume_def split: sum.splits)
  show ?thesis
  proof (cases e)
    case e: True
    obtain pre where "b @ s = pre @ crlf @ rest" using header_loop_split [of "b @ s" r rest r1] h e by auto
    then obtain u where s: "s = u @ rest" by (rule rest_behind [OF _ r(4)])
    show ?thesis
    proof (cases "prepare_body (r1\<lparr>m_buf := None\<rparr>)")
      case (Inr x)
      obtain c r2 where "x = (c, r2)" by (cases x)
      then show ?thesis using r assms(1) h e Inr s
        by (cases c) (auto simp: request_consume_def process_body_def Let_def split: if_splits)
    qed (use r assms(1) h e in \<open>simp add: request_consume_def\<close>)
  qed (use r assms(1) h in \<open>simp add: request_consume_def\<close>)
qed

text \<open>
  C14. A well-formed request that is printed with \<^verbatim>\<open>raw()\<close> and followed by any bytes \<open>t\<close> is read back by one call
  of \<^verbatim>\<open>consume\<close> on a new request: method, URI, version, headers and body come back, the request is ready, and
  exactly the bytes of the request are consumed.
\<close>

theorem request_roundtrip:
  assumes "wf_request r" "head_cost r \<le> max_header_size"
  shows "\<exists>q. request_consume (request_raw r @ t) request_new = Inr (length (request_raw r), q) \<and> m_ready q
    \<and> m_method q = m_method r \<and> m_uri q = m_uri r \<and> m_version q = m_version r \<and> m_headers q = m_headers r \<and> m_body q = m_body r"
proof -
  have r: "receiving request_new" by (simp add: receiving_def request_new_def crlf_def)
  obtain q where q: "plain_feed (request_raw r @ t) request_new = Inr (t, q)" "m_ready q" "m_method q = m_method r" "m_uri q = m_uri r"
      "m_version q = m_version r" "m_headers q = m_headers r" "m_body q = m_body r"
    using plain_feed_request [OF assms(1)] by blast
  have "budget (request_raw r @ t) request_new \<le> max_header_size"
    using header_cost_request [OF assms(1)] assms(2) by (simp add: budget_def request_new_def)
  from feed_plain(1) [OF r this] q(1) obtain q' where q': "feed (request_raw r @ t) request_new = Inr (t, q')" "q'\<lparr>m_header_bytes := 0\<rparr> = q\<lparr>m_header_bytes := 0\<rparr>"
    by (auto simp: uncount_eq_Inr)
  obtain n where n: "request_consume (request_raw r @ t) request_new = Inr (n, q')" "drop n (request_raw r @ t) = t"
    using q'(1) by (cases "request_consume (request_raw r @ t) request_new") (auto simp: feed_def)
  have "n \<le> length (request_raw r @ t)" by (rule consume_bound [OF n(1) r])
  moreover have "length (request_raw r @ t) - n = length t" using arg_cong [OF n(2), of length] by simp
  ultimately have "n = length (request_raw r)" by simp
  obtain k where "q' = q\<lparr>m_header_bytes := k\<rparr>"
    using that [of "m_header_bytes q'"] arg_cong [OF q'(2), of "\<lambda>x. x\<lparr>m_header_bytes := m_header_bytes q'\<rparr>"] by simp
  then show ?thesis using n(1) \<open>n = length (request_raw r)\<close> q by simp
qed

definition example_request :: request where
  "example_request = request_new\<lparr>m_method := ''GET'', m_uri := ''/a'', m_version := ''HTTP/1.1'',
     m_headers := [(''Content-Length'', ''2''), (''Host'', ''b'')], m_body := ''xy''\<rparr>"

lemma example_headers: "ordered_headers [(''Content-Length'', ''2''), (''Host'', ''b'')]"
    "list_all wf_header [(''Content-Length'', ''2''), (''Host'', ''b'')]" "list_all is_token_char ''GET''"
    "hfind ''Host'' [(''Content-Length'', ''2''), (''Host'', ''b'')] = Some ''b''"
    "hfind ''Content-Length'' [(''Content-Length'', ''2''), (''Host'', ''b'')] = Some (dec 2)"
  by code_simp+

lemma example_request_wf: "wf_request example_request" "head_cost example_request \<le> max_header_size"
proof -
  have "dec (Suc (Suc 0)) = dec 2" by (simp add: numeral_2_eq_2)
  then show "wf_request example_request"
    using example_headers by (simp add: wf_request_def example_request_def max_body_size_def get_header_def dec_digits)
  show "head_cost example_request \<le> max_header_size"
    by (simp add: head_cost_def lines_cost_def request_line_def header_line_def example_request_def max_header_size_def)
qed

theorem request_roundtrip_witness:
  "\<exists>q. request_consume (request_raw example_request @ ''GET'') request_new = Inr (length (request_raw example_request), q)
     \<and> m_uri q = ''/a'' \<and> m_body q = ''xy''"
  using request_roundtrip [OF example_request_wf, of "''GET''"] by (auto simp: example_request_def)

subsection \<open>Responses\<close>

definition wf_response :: "response \<Rightarrow> bool" where
  "wf_response r \<longleftrightarrow>
     CHR '' '' \<notin> set (m_version r) \<and> CHR 0x0D \<notin> set (m_version r) \<and> CHR 0x0D \<notin> set (m_status_msg r)
     \<and> unat (m_status_code r) < 2 ^ 31 \<and> ordered_headers (m_headers r) \<and> list_all wf_header (m_headers r)
     \<and> get_header ''Content-Length'' r = (if m_body r = [] then [] else dec (length (m_body r))) \<and> length (m_body r) < 2 ^ 64"

definition status_line :: "response \<Rightarrow> string" where
  "status_line r = m_version r @ '' '' @ dec (unat (m_status_code r)) @ '' '' @ m_status_msg r"

definition response_cost :: "response \<Rightarrow> nat" where
  "response_cost r = length (status_line r) + 3 + lines_cost (m_headers r) + 3"

lemma response_raw_lines:
  "response_raw r = status_line r @ crlf @ concat (map (\<lambda>h. header_line h @ crlf) (m_headers r)) @ crlf @ m_body r"
  by (simp add: response_raw_def status_line_def raw_headers_lines)

lemma dec_no: "\<not> digit c \<Longrightarrow> c \<notin> set (dec n)"
  using dec_digits [of n] unfolding list_all_iff by blast

lemma not_digit [simp]: "\<not> digit (CHR '' '')" "\<not> digit (CHR 0x0D)"
  by (simp_all add: digit_def)

lemma status_line_no_cr: "wf_response r \<Longrightarrow> CHR 0x0D \<notin> set (status_line r)"
  using dec_no [OF not_digit(2)] by (simp add: wf_response_def status_line_def)

lemma scan_int_dec: "n < 2 ^ 31 \<Longrightarrow> scan_int (dec n) = Some (int n)"
  by (simp add: scan_int_def scan_number_dec)

lemma scan_size_dec: "n < 2 ^ 64 \<Longrightarrow> scan_size (dec n) = Some n"
  by (simp add: scan_size_def scan_number_dec)

lemma process_status_line:
  assumes "wf_response r"
  shows "response_process (status_line r) q =
    Inr (q\<lparr>m_version := m_version r, m_status_code := m_status_code r, m_status_msg := m_status_msg r\<rparr>)"
proof -
  let ?c = "dec (unat (m_status_code r))"
  have "CHR '' '' \<notin> set (m_version r)" "unat (m_status_code r) < 2 ^ 31" using assms by (simp_all add: wf_response_def)
  then show ?thesis
    using takeWhile_until [of "CHR '' ''" "m_version r" "?c @ '' '' @ m_status_msg r"]
      dropWhile_until [of "CHR '' ''" "m_version r" "?c @ '' '' @ m_status_msg r"]
      takeWhile_until [OF dec_no [OF not_digit(1)], of "unat (m_status_code r)" "m_status_msg r"]
      dropWhile_until [OF dec_no [OF not_digit(1)], of "unat (m_status_code r)" "m_status_msg r"] scan_int_dec [of "unat (m_status_code r)"]
    by (simp add: response_process_def status_line_def set_version_def set_status_msg_def Let_def)
qed

lemma response_loop_headers:
  "m_state r = HEADERS \<Longrightarrow> ordered_headers (m_headers r @ hs) \<Longrightarrow> list_all wf_header hs \<Longrightarrow> m_header_bytes r + lines_cost hs \<le> max_header_size \<Longrightarrow>
   response_loop (concat (map (\<lambda>h. header_line h @ crlf) hs) @ t) r =
   response_loop t (r\<lparr>m_headers := m_headers r @ hs, m_header_bytes := m_header_bytes r + lines_cost hs\<rparr>)"
proof (induction hs arbitrary: r)
  case Nil
  then show ?case by (simp add: lines_cost_def)
next
  case (Cons h hs)
  let ?more = "concat (map (\<lambda>h. header_line h @ crlf) hs) @ t"
  let ?r = "r\<lparr>m_header_bytes := m_header_bytes r + length (header_line h) + 3\<rparr>"
  have h: "wf_header h" using Cons.prems(3) by simp
  have "\<forall>x \<in> set (m_headers ?r). ci_less (fst x) (fst h)" using Cons.prems(2) by (auto simp: ordered_headers_def sorted_wrt_append)
  then have "response_line (header_line h) ?r = Inr (?r\<lparr>m_headers := m_headers r @ [h]\<rparr>)"
    using process_header_line [OF h, of ?r] Cons.prems(1) by (simp add: response_line_def)
  then have "response_loop (header_line h @ crlf @ ?more) r = response_loop ?more (?r\<lparr>m_headers := m_headers r @ [h]\<rparr>)"
    using find_line [OF header_line_no_cr [OF h], of ?more] header_line_nonempty [of h] Cons.prems(4)
    unfolding response_loop.simps [of "header_line h @ crlf @ ?more"] by (simp add: lines_cost_def)
  then show ?case using Cons.IH [of "?r\<lparr>m_headers := m_headers r @ [h]\<rparr>"] Cons.prems by (simp add: lines_cost_def add.assoc)
qed

lemma status_line_nonempty: "status_line r \<noteq> []"
  by (simp add: status_line_def)

lemma response_new_simps:
  "m_state response_new = RESPONSE_LINE" "resp_buf response_new = Some []" "m_body response_new = []" "m_headers response_new = []"
  "m_header_bytes response_new = 0"
  by (simp_all add: response_new_def)

lemma response_loop_raw:
  assumes "wf_response r" "response_cost r \<le> max_header_size"
  shows "response_loop (response_raw r @ t) response_new =
    Inr (m_body r @ t, response_new\<lparr>m_version := m_version r, m_status_code := m_status_code r, m_status_msg := m_status_msg r,
      m_state := HEADERS, m_headers := m_headers r, m_header_bytes := response_cost r\<rparr>, True)"
proof -
  let ?hs = "concat (map (\<lambda>h. header_line h @ crlf) (m_headers r))"
  let ?q = "response_new\<lparr>m_version := m_version r, m_status_code := m_status_code r, m_status_msg := m_status_msg r,
      m_state := HEADERS, m_header_bytes := length (status_line r) + 3\<rparr>"
  have "response_line (status_line r) (response_new\<lparr>m_header_bytes := length (status_line r) + 3\<rparr>) = Inr ?q"
    by (simp add: response_line_def process_status_line [OF assms(1)] response_new_simps)
  then have "response_loop (response_raw r @ t) response_new = response_loop (?hs @ crlf @ m_body r @ t) ?q"
    using find_line [OF status_line_no_cr [OF assms(1)], of "?hs @ crlf @ m_body r @ t"] assms(2) status_line_nonempty [of r]
    unfolding response_raw_lines response_loop.simps [of "(status_line r @ _) @ _"]
    by (simp add: response_cost_def response_new_simps)
  also have "\<dots> = response_loop (crlf @ m_body r @ t) (?q\<lparr>m_headers := m_headers r, m_header_bytes := length (status_line r) + 3 + lines_cost (m_headers r)\<rparr>)"
    using response_loop_headers [of ?q "m_headers r" "crlf @ m_body r @ t"] assms by (simp add: wf_response_def response_new_simps response_cost_def)
  also have "\<dots> = Inr (m_body r @ t, ?q\<lparr>m_headers := m_headers r, m_header_bytes := response_cost r\<rparr>, True)"
    using find_line [of "[]" "m_body r @ t"] assms(2)
    unfolding response_loop.simps [of "crlf @ m_body r @ t"] by (simp add: response_cost_def)
  finally show ?thesis by simp
qed

text \<open>
  C32. A well-formed response with a body, printed with \<^verbatim>\<open>raw()\<close>, is read back by \<^verbatim>\<open>consume\<close>: version, status,
  message, headers and body come back, the response is done and exactly its bytes are consumed.
  Without a body, and so without \<^verbatim>\<open>Content-Length\<close>, everything comes back too, and the response is done if more bytes follow in
  the same call, although the documentation of \<^verbatim>\<open>ready()\<close> says that it then stays false; if none follow it stays in state \<open>BODY\<close>.
\<close>

theorem response_roundtrip:
  assumes "wf_response r" "response_cost r \<le> max_header_size"
  shows "\<exists>q. response_consume (response_raw r @ t) response_new = Inr (length (response_raw r), q)
    \<and> m_version q = m_version r \<and> m_status_code q = m_status_code r \<and> m_status_msg q = m_status_msg r
    \<and> m_headers q = m_headers r \<and> m_body q = m_body r \<and> m_state q = (if m_body r @ t = [] then BODY else DONE)"
proof -
  have h: "get_header ''Content-Length'' (q :: response) = (if m_body r = [] then [] else dec (length (m_body r)))" if "m_headers q = m_headers r" for q
    using assms that by (simp add: wf_response_def get_header_def)
  have l: "length (m_body r) < 2 ^ 64" using assms by (simp add: wf_response_def)
  have len: "length (response_raw r @ t) - length (m_body r @ t) = length (response_raw r) - length (m_body r)"
    "length (m_body r) \<le> length (response_raw r)" "drop (length (response_raw r) - length (m_body r)) (response_raw r @ t) = m_body r @ t"
    by (simp_all add: response_raw_lines)
  let ?q = "response_new\<lparr>m_version := m_version r, m_status_code := m_status_code r, m_status_msg := m_status_msg r,
      m_state := HEADERS, m_headers := m_headers r, m_header_bytes := response_cost r\<rparr>"
  have "body_length ?q = Inr (length (m_body r))"
    using h [of ?q] scan_size_dec [OF l] dec_digits [of "length (m_body r)"] by (simp add: body_length_def)
  moreover have "m_body r \<noteq> [] \<Longrightarrow> length (response_raw r) - length (m_body r) < length (response_raw r) + length t"
    using len(2) length_greater_0_conv [of "m_body r"] by linarith
  ultimately show ?thesis
    using response_loop_raw [OF assms, of t] len
    by (cases "m_body r = []") (auto simp: response_consume_def response_new_simps response_process_body_def Let_def)
qed

lemma example_response_wf:
  "wf_response (set_status 404 (response_new\<lparr>m_version := ''HTTP/1.1''\<rparr>))"
  "response_cost (set_status 404 (response_new\<lparr>m_version := ''HTTP/1.1''\<rparr>)) \<le> max_header_size"
proof -
  have "get_string 404 = ''Not Found''" by (simp add: get_string_def status_names_def)
  then show "wf_response (set_status 404 (response_new\<lparr>m_version := ''HTTP/1.1''\<rparr>))"
    by (simp add: wf_response_def set_status_def response_new_def ordered_headers_def get_header_def)
  show "response_cost (set_status 404 (response_new\<lparr>m_version := ''HTTP/1.1''\<rparr>)) \<le> max_header_size"
    by (simp add: \<open>get_string 404 = ''Not Found''\<close> response_cost_def status_line_def set_status_def response_new_def lines_cost_def max_header_size_def dec.simps)
qed

theorem response_roundtrip_witness:
  "\<exists>q. response_consume (response_raw (set_status 404 (response_new\<lparr>m_version := ''HTTP/1.1''\<rparr>)) @ []) response_new
       = Inr (length (response_raw (set_status 404 (response_new\<lparr>m_version := ''HTTP/1.1''\<rparr>))), q)
     \<and> m_status_code q = 404 \<and> m_state q = BODY"
  using response_roundtrip [OF example_response_wf, of "[]"] by (auto simp: set_status_def response_new_def)

end
