(* ===== verification/Http_Server.thy ===== *)
theory Http_Server
  imports Http_Roundtrip Session
begin

section \<open>The HTTP server (server/http, protocol/http/http)\<close>

text \<open>
  The view of a request that handlers get, the session of a client and the loop that serves it. What
  the socket delivers and \<^verbatim>\<open>errno\<close> are arguments; a coroutine that still waits for data at the end of
  what is given is \<open>None\<close>. A handler is a function on the session and on the rest of the world.
\<close>

subsection \<open>Parameters and cookies (http.cc, class http::Request)\<close>

record http_request =
  m_path :: string
  m_params :: "string \<rightharpoonup> string"
  m_cookies :: "string \<rightharpoonup> string"

text \<open>\<^verbatim>\<open>std::map::insert\<close>: a key that is there keeps its value.\<close>

definition insert_new :: "string \<Rightarrow> string \<Rightarrow> (string \<rightharpoonup> string) \<Rightarrow> (string \<rightharpoonup> string)" where
  "insert_new k v m = (if m k = None then m(k \<mapsto> v) else m)"

definition substr :: "string \<Rightarrow> nat \<Rightarrow> nat \<Rightarrow> string" where
  "substr s pos n = take n (drop pos s)"

lemma str_find_bounds: "str_find s d start = Some k \<Longrightarrow> start \<le> k"
  by (auto simp: str_find_def split: if_splits)

function param_loop :: "string \<Rightarrow> nat \<Rightarrow> nat \<Rightarrow> (string \<rightharpoonup> string) \<Rightarrow> (string \<rightharpoonup> string)" where
  "param_loop uri param_end param_begin m =
     (if param_begin < param_end
      then (case str_find uri ''='' param_begin of
              None \<Rightarrow> m
            | Some key_end \<Rightarrow>
                if key_end > param_end then m
                else (let value_end = (case str_find uri ''&'' key_end of None \<Rightarrow> param_end | Some v \<Rightarrow> if v > param_end then param_end else v)
                      in param_loop uri param_end (value_end + 1)
                           (insert_new (substr uri param_begin (key_end - param_begin)) (substr uri (key_end + 1) (value_end - key_end - 1)) m)))
      else m)"
  by pat_completeness auto
termination
  by (relation "measure (\<lambda>(uri, e, b, m). e - b)")
    (auto dest!: str_find_bounds split: option.splits if_splits)

declare param_loop.simps [simp del]

definition parserParams :: "string \<Rightarrow> http_request \<Rightarrow> http_request" where
  "parserParams uri q =
     (let path_end = str_find uri ''?'' 0;
          q = (case path_end of None \<Rightarrow> q | Some k \<Rightarrow> q\<lparr>m_path := substr uri 0 k\<rparr>);
          param_begin = (case path_end of None \<Rightarrow> 0 | Some k \<Rightarrow> k + 1);
          param_end = (case str_find uri ''#'' 0 of None \<Rightarrow> length uri | Some k \<Rightarrow> k)
      in q\<lparr>m_params := param_loop uri param_end param_begin (m_params q)\<rparr>)"

text \<open>\<^verbatim>\<open>std::getline(ss, item, ';')\<close> until the stream ends.\<close>

function cookie_items :: "string \<Rightarrow> string list" where
  "cookie_items s =
     (if s = [] then [] else takeWhile (\<lambda>c. c \<noteq> CHR '';'') s # cookie_items (tl (dropWhile (\<lambda>c. c \<noteq> CHR '';'') s)))"
  by pat_completeness auto
termination
proof (relation "measure length")
  fix s :: string
  assume "s \<noteq> []"
  then have "0 < length s" by (rule length_greater_0_conv [THEN iffD2])
  then have "length (tl (dropWhile (\<lambda>c. c \<noteq> CHR '';'') s)) < length s"
    using length_dropWhile_le [of "\<lambda>c. c \<noteq> CHR '';''" s] unfolding length_tl by linarith
  then show "(tl (dropWhile (\<lambda>c. c \<noteq> CHR '';'') s), s) \<in> measure length" by simp
qed simp

declare cookie_items.simps [simp del]

definition cookie_item :: "string \<Rightarrow> (string \<rightharpoonup> string) \<Rightarrow> (string \<rightharpoonup> string)" where
  "cookie_item item m =
     (case find_in ''='' item of
        None \<Rightarrow> m
      | Some pos \<Rightarrow> insert_new (dropWhile is_whitespace_char (take pos item)) (dropWhile is_whitespace_char (drop (pos + 1) item)) m)"

definition parserCookies :: "string \<Rightarrow> http_request \<Rightarrow> http_request" where
  "parserCookies cookie_str q = q\<lparr>m_cookies := fold cookie_item (cookie_items cookie_str) (m_cookies q)\<rparr>"

definition Request_new :: "request \<Rightarrow> http_request" where
  "Request_new r =
     parserCookies (get_header ''Cookie'' r) (parserParams (m_uri r) \<lparr>m_path = [], m_params = Map.empty, m_cookies = Map.empty\<rparr>)"

definition getParam :: "string \<Rightarrow> http_request \<Rightarrow> string" where
  "getParam key q = (case m_params q key of None \<Rightarrow> [] | Some v \<Rightarrow> v)"

definition getCookie :: "string \<Rightarrow> http_request \<Rightarrow> string" where
  "getCookie key q = (case m_cookies q key of None \<Rightarrow> [] | Some v \<Rightarrow> v)"

subsection \<open>The request after an exception\<close>

text \<open>
  \<^verbatim>\<open>consume\<close> changes the request before it throws; these follow the same code and give the request it
  leaves behind.
\<close>

definition process_left :: "string \<Rightarrow> request \<Rightarrow> request" where
  "process_left line r =
     (let m = takeWhile (\<lambda>c. c \<noteq> CHR '' '') line; rest = dropWhile (\<lambda>c. c \<noteq> CHR '' '') line
      in if m_method r = [] \<and> rest \<noteq> []
         then (case set_method m r of Inl e \<Rightarrow> r | Inr r \<Rightarrow> r)
         else r)"

function header_left :: "string \<Rightarrow> request \<Rightarrow> request" where
  "header_left buf r =
     (case find_in crlf buf of
        None \<Rightarrow> count_line (length buf) r
      | Some k \<Rightarrow>
          (let r = count_line k r
           in if m_header_bytes r > max_header_size \<or> k = 0 then r
              else (case process_line (take k buf) r of
                      Inl e \<Rightarrow> process_left (take k buf) r
                    | Inr r \<Rightarrow> header_left (drop (k + 2) buf) r)))"
  by pat_completeness auto
termination
proof (relation "measure (\<lambda>(buf, r). length buf)")
  fix buf :: string and r x2 x xa
  assume "find_in crlf buf = Some x2"
  from find_in_bound [OF this] show "((drop (x2 + 2) buf, xa), buf, r) \<in> measure (\<lambda>(buf, r). length buf)" by (simp add: crlf_def)
qed simp

declare header_left.simps [simp del]

definition consume_left :: "string \<Rightarrow> request \<Rightarrow> request" where
  "consume_left buf r =
     (if m_body_bytes_needed r > 0 then r
      else (case m_buf r of
              None \<Rightarrow> r
            | Some b \<Rightarrow>
                (case header_loop (b @ buf) r of
                   Inl e \<Rightarrow> (header_left (b @ buf) r)\<lparr>m_buf := Some (b @ buf)\<rparr>
                 | Inr (rest, r, e) \<Rightarrow> r\<lparr>m_buf := None, m_body_bytes_needed := strtoul (get_header ''Content-Length'' r)\<rparr>)))"

subsection \<open>Sessions (class HttpSession)\<close>

record http_session =
  h_base :: session
  h_request :: request
  h_response :: response
  m_is_keep_alive :: bool

definition HttpSession_new :: "nat \<Rightarrow> nat \<Rightarrow> bytes \<Rightarrow> nat \<Rightarrow> http_session" where
  "HttpSession_new buffer_size old mem socket =
     \<lparr>h_base = setBufferSize buffer_size (Session_new old mem socket), h_request = request_new, h_response = response_new, m_is_keep_alive = True\<rparr>"

text \<open>The characters at an address.\<close>

definition chars :: "bytes \<Rightarrow> string" where
  "chars bs = map (\<lambda>b. char_of (unat b)) bs"

definition updateSession :: "http_session \<Rightarrow> bool \<times> http_session" where
  "updateSession s =
     (True, if get_header ''Connection'' (h_request s) = ''close'' then s\<lparr>m_is_keep_alive := False\<rparr> else s)"

fun recv_request :: "nat \<Rightarrow> recv_result list \<Rightarrow> nat \<Rightarrow> http_session \<Rightarrow> (failure + int \<times> http_session) option" where
  "recv_request max_request_size [] total_length s = None"
| "recv_request max_request_size (r # rs) total_length s =
     (case recvMessage r None (h_base s) of
        Inl e \<Rightarrow> Some (Inl e)
      | Inr ((recv_len, buffer), b) \<Rightarrow>
          let s = s\<lparr>h_base := b\<rparr>
          in if recv_len = 0 then Some (Inr (0, s))
             else if recv_len < 0 then Some (Inr (-1, s))
             else (case request_consume (chars buffer) (h_request s) of
                     Inl (Thrown e) \<Rightarrow> Some (Inr (-1, s\<lparr>h_request := consume_left (chars buffer) (h_request s)\<rparr>))
                   | Inl e \<Rightarrow> Some (Inl e)
                   | Inr (sloved, q) \<Rightarrow>
                       (let s = s\<lparr>h_base := snd (consume sloved (h_base s)), h_request := q\<rparr>; total_length = total_length + sloved
                        in if total_length > max_request_size then Some (Inr (-1, s))
                           else if m_ready q
                           then (let (ok, s) = updateSession s in Some (Inr (if ok then int total_length else -1, s)))
                           else recv_request max_request_size rs total_length s)))"

definition co_recvRequest :: "nat \<Rightarrow> recv_result list \<Rightarrow> http_session \<Rightarrow> (failure + int \<times> http_session) option" where
  "co_recvRequest max_request_size rs s =
     recv_request max_request_size rs 0 (s\<lparr>h_request := request_reset (h_request s), h_response := response_reset (h_response s)\<rparr>)"

text \<open>
  Sending: the value returned and the bytes that were handed over, given what the calls of \<^verbatim>\<open>send\<close>
  return. Error number 32 is \<^verbatim>\<open>EPIPE\<close>.
\<close>

datatype send_result = Sent nat | Send_failed int

fun send_loop :: "nat \<Rightarrow> send_result list \<Rightarrow> string \<Rightarrow> (int \<times> string) option" where
  "send_loop total_size rs [] = Some (int total_size, [])"
| "send_loop total_size [] content = None"
| "send_loop total_size (r # rs) content =
     (case r of
        Sent n \<Rightarrow> map_option (\<lambda>(rt, out). (rt, take n content @ out)) (send_loop total_size rs (drop n content))
      | Send_failed e \<Rightarrow> Some (if e = 32 then int total_size else -1, []))"

definition co_sendResp_raw :: "send_result list \<Rightarrow> string \<Rightarrow> (int \<times> string) option" where
  "co_sendResp_raw rs resp = send_loop (length resp) rs resp"

definition finish_response :: "http_session \<Rightarrow> failure + response" where
  "finish_response s =
     (let r = h_response s; r = (if m_status_code r = 0 then set_status 200 r else r); r = set_version ''HTTP/1.1'' r
      in append_header ''Connection'' (if m_is_keep_alive s then ''keep-alive'' else ''close'') r)"

definition co_sendResp :: "send_result list \<Rightarrow> http_session \<Rightarrow> failure + ((int \<times> string) option \<times> http_session)" where
  "co_sendResp rs s = map_sum (\<lambda>e. e) (\<lambda>r. (co_sendResp_raw rs (response_raw r), s\<lparr>h_response := r\<rparr>)) (finish_response s)"

subsection \<open>The server (class HttpServer)\<close>

type_synonym 'w handler = "http_session \<times> 'w \<Rightarrow> http_session \<times> 'w"
type_synonym 'w urls = "string \<rightharpoonup> http_method \<times> 'w handler"

definition registerUrl :: "string \<Rightarrow> 'w handler \<Rightarrow> http_method \<Rightarrow> 'w urls \<Rightarrow> 'w urls" where
  "registerUrl url cb method m_urls = m_urls(url \<mapsto> (method, cb))"

definition register_GET :: "string \<Rightarrow> 'w handler \<Rightarrow> 'w urls \<Rightarrow> 'w urls" where
  "register_GET url cb = registerUrl url cb GET"

definition register_POST :: "string \<Rightarrow> 'w handler \<Rightarrow> 'w urls \<Rightarrow> 'w urls" where
  "register_POST url cb = registerUrl url cb POST"

definition execHandler :: "'w urls \<Rightarrow> string \<Rightarrow> http_session \<times> 'w \<Rightarrow> http_session \<times> 'w" where
  "execHandler m_urls url sw =
     (let path = (case find_in ''?'' url of None \<Rightarrow> url | Some idx \<Rightarrow> take idx url)
      in case m_urls path of
           None \<Rightarrow> sw
         | Some (method, cb) \<Rightarrow> if m_method (h_request (fst sw)) \<noteq> HttpMethodToString method then sw else cb sw)"

datatype client_end = Client_closed | Client_rescheduled

text \<open>
  A round of the loop gets what \<^verbatim>\<open>recv\<close> delivers and the value of \<^verbatim>\<open>errno\<close> when the result is examined (11
  is \<^verbatim>\<open>EAGAIN\<close>).
\<close>

fun client_loop :: "'w urls \<Rightarrow> nat \<Rightarrow> (recv_result list \<times> int) list \<Rightarrow> nat \<Rightarrow> http_session \<times> 'w
    \<Rightarrow> (failure + client_end \<times> http_session \<times> 'w) option" where
  "client_loop m_urls limit [] response_count sw = None"
| "client_loop m_urls limit ((rs, errno) # rounds) response_count (s, w) =
     (case co_recvRequest limit rs s of
        None \<Rightarrow> None
      | Some (Inl e) \<Rightarrow> Some (Inl e)
      | Some (Inr (rt, s)) \<Rightarrow>
          if rt = 0 then Some (Inr (Client_closed, s, w))
          else if rt = -1 \<and> errno \<noteq> 11 then Some (Inr (Client_closed, s, w))
          else if rt = -2 then Some (Inr (Client_closed, s, w))
          else (let sw = execHandler m_urls (m_uri (h_request s)) (s, w); is_keep_alive = m_is_keep_alive (fst sw); response_count = response_count + 1
                in if is_keep_alive \<and> response_count < 1000 then client_loop m_urls limit rounds response_count sw
                   else if is_keep_alive \<and> response_count \<ge> 1000 then Some (Inr (Client_rescheduled, fst sw, snd sw))
                   else Some (Inr (Client_closed, fst sw, snd sw))))"

definition http_handleClient :: "'w urls \<Rightarrow> nat \<Rightarrow> (recv_result list \<times> int) list \<Rightarrow> http_session \<Rightarrow> 'w
    \<Rightarrow> (failure + client_end \<times> http_session \<times> 'w) option" where
  "http_handleClient m_urls limit rounds session w = client_loop m_urls limit rounds 0 (session, w)"

text \<open>
  \<^verbatim>\<open>startAccept\<close>: before each turn whether the server is stopped, then what \<^verbatim>\<open>accept\<close> returns. The result
  are the tasks scheduled; at the end the accepting task schedules itself again.
\<close>

datatype accept_task = Handle nat | Accept_again

fun accept_loop :: "nat \<Rightarrow> (bool \<times> nat option) list \<Rightarrow> accept_task list option" where
  "accept_loop turn_count [] = None"
| "accept_loop turn_count ((stopped, client) # turns) =
     (if stopped \<or> turn_count - 1 = 0 then Some [Accept_again]
      else (case client of
              Some c \<Rightarrow> map_option (\<lambda>ts. Handle c # ts) (accept_loop (turn_count - 1) turns)
            | None \<Rightarrow> accept_loop (turn_count - 1) turns))"

definition http_startAccept :: "(bool \<times> nat option) list \<Rightarrow> accept_task list option" where
  "http_startAccept turns = accept_loop 1000 turns"

section \<open>Theorems\<close>

subsection \<open>Query parameters\<close>

text \<open>A query as a client writes it.\<close>

fun query :: "(string \<times> string) list \<Rightarrow> string" where
  "query [] = []"
| "query [(k, v)] = k @ ''='' @ v"
| "query ((k, v) # kv # kvs) = k @ ''='' @ v @ ''&'' @ query (kv # kvs)"

definition query_ok :: "(string \<times> string) list \<Rightarrow> bool" where
  "query_ok kvs \<longleftrightarrow> list_all (\<lambda>(k, v). set k \<inter> set ''=#'' = {} \<and> set v \<inter> set ''&#'' = {}) kvs"

lemma find_in_char: "c \<notin> set xs \<Longrightarrow> find_in [c] (xs @ c # ys) = Some (length xs)"
  using find_in_skip [of c xs "[]" "c # ys"] by simp

lemma str_find_at: "c \<notin> set xs \<Longrightarrow> str_find (pre @ xs @ c # ys) [c] (length pre) = Some (length pre + length xs)"
  by (simp add: str_find_def find_in_char)

lemma str_find_none: "c \<notin> set xs \<Longrightarrow> str_find (pre @ xs) [c] (length pre) = None"
  by (simp add: str_find_def find_in_None)

lemma param_loop_query:
  "query_ok kvs \<Longrightarrow> param_loop (pre @ query kvs) (length (pre @ query kvs)) (length pre) m = fold (\<lambda>(k, v). insert_new k v) kvs m"
proof (induction kvs arbitrary: pre m rule: query.induct)
  case 1
  then show ?case by (simp add: param_loop.simps)
next
  case (2 k v)
  have ok: "CHR ''='' \<notin> set k" "CHR ''&'' \<notin> set v" using 2 by (auto simp: query_ok_def)
  have e: "str_find (pre @ k @ CHR ''='' # v) ''='' (length pre) = Some (length pre + length k)" using str_find_at [OF ok(1)] .
  have a: "str_find (pre @ k @ CHR ''='' # v) ''&'' (length pre + length k) = None"
    using str_find_none [of "CHR ''&''" "CHR ''='' # v" "pre @ k"] ok(2) by simp
  show ?case using e a
    by (simp add: param_loop.simps [of _ _ "length pre"] param_loop.simps [of _ _ "Suc _"] substr_def Let_def)
next
  case (3 k v kv kvs)
  let ?rest = "query (kv # kvs)"
  have ok: "CHR ''='' \<notin> set k" "CHR ''&'' \<notin> set v" "query_ok (kv # kvs)" using 3(2) by (auto simp: query_ok_def)
  let ?u = "pre @ k @ CHR ''='' # v @ CHR ''&'' # ?rest"
  have e: "str_find ?u ''='' (length pre) = Some (length pre + length k)" using str_find_at [OF ok(1)] .
  have a: "str_find ?u ''&'' (length pre + length k) = Some (length pre + length k + Suc (length v))"
    using str_find_at [of "CHR ''&''" "CHR ''='' # v" "pre @ k" ?rest] ok(2) by simp
  have "param_loop ?u (length ?u) (length pre) m = param_loop ?u (length ?u) (length (pre @ k @ CHR ''='' # v @ ''&'')) (insert_new k v m)"
    using e a by (simp add: param_loop.simps [of _ _ "length pre"] substr_def Let_def add.assoc)
  then show ?case using 3(1) [OF ok(3), of "pre @ k @ CHR ''='' # v @ ''&''" "insert_new k v m"] by simp
qed

lemma insert_new_all: "fold (\<lambda>(k, v). insert_new k v) kvs m = map_of kvs ++ m"
proof (induction kvs arbitrary: m)
  case (Cons kv kvs)
  obtain k v where "kv = (k, v)" by (cases kv)
  then show ?case using Cons by (auto simp: insert_new_def map_add_def fun_eq_iff split: option.splits)
qed simp

lemma query_no_hash: "query_ok kvs \<Longrightarrow> CHR ''#'' \<notin> set (query kvs)"
  by (induction kvs rule: query.induct) (auto simp: query_ok_def)

text \<open>
  The parameters of a URI \<open>path?k1=v1&k2=v2...\<close> are the pairs of the query, the first one for a key that is
  there twice, and the path is the part before the question mark. A URI without a question mark loses
  its path, and is itself read as a query.
\<close>

theorem params_of_query:
  assumes "CHR ''?'' \<notin> set path"
  shows "query_ok kvs \<and> CHR ''#'' \<notin> set path \<longrightarrow>
      parserParams (path @ ''?'' @ query kvs) \<lparr>m_path = [], m_params = Map.empty, m_cookies = Map.empty\<rparr> =
      \<lparr>m_path = path, m_params = map_of kvs, m_cookies = Map.empty\<rparr>"
    and "m_path (parserParams path \<lparr>m_path = [], m_params = Map.empty, m_cookies = Map.empty\<rparr>) = []"
proof -
  have f: "str_find (path @ CHR ''?'' # t) ''?'' 0 = Some (length path)" for t using str_find_at [OF assms, of "[]"] by simp
  show "m_path (parserParams path \<lparr>m_path = [], m_params = Map.empty, m_cookies = Map.empty\<rparr>) = []"
    using str_find_none [OF assms, of "[]"] by (simp add: parserParams_def Let_def)
  show "query_ok kvs \<and> CHR ''#'' \<notin> set path \<longrightarrow>
      parserParams (path @ ''?'' @ query kvs) \<lparr>m_path = [], m_params = Map.empty, m_cookies = Map.empty\<rparr> =
      \<lparr>m_path = path, m_params = map_of kvs, m_cookies = Map.empty\<rparr>"
  proof
    assume ok: "query_ok kvs \<and> CHR ''#'' \<notin> set path"
    have "str_find (path @ CHR ''?'' # query kvs) ''#'' 0 = None"
      using str_find_none [of "CHR ''#''" "path @ CHR ''?'' # query kvs" "[]"] query_no_hash ok by simp
    then show "parserParams (path @ ''?'' @ query kvs) \<lparr>m_path = [], m_params = Map.empty, m_cookies = Map.empty\<rparr> =
        \<lparr>m_path = path, m_params = map_of kvs, m_cookies = Map.empty\<rparr>"
      using f [of "query kvs"] param_loop_query [of kvs "path @ ''?''" Map.empty] ok
      by (simp add: parserParams_def Let_def insert_new_all substr_def)
  qed
qed

theorem params_of_query_witness:
  "parserParams ''/s?a=1&b=&a=2'' \<lparr>m_path = [], m_params = Map.empty, m_cookies = Map.empty\<rparr> =
     \<lparr>m_path = ''/s'', m_params = [''a'' \<mapsto> ''1'', ''b'' \<mapsto> []], m_cookies = Map.empty\<rparr>"
  using params_of_query(1) [of "''/s''" "[(''a'', ''1''), (''b'', []), (''a'', ''2'')]"] by (auto simp: query_ok_def fun_eq_iff)

subsection \<open>Receiving a request\<close>

lemma chars_simps [simp]: "chars [] = []" "chars (xs @ ys) = chars xs @ chars ys" "length (chars xs) = length xs" "chars xs = [] \<longleftrightarrow> xs = []"
  by (simp_all add: chars_def)

lemma same_but_count: "q'\<lparr>m_header_bytes := 0\<rparr> = q\<lparr>m_header_bytes := 0\<rparr> \<Longrightarrow> \<exists>k. q' = q\<lparr>m_header_bytes := k\<rparr>" for q q' :: request
proof (rule exI [of _ "m_header_bytes q'"])
  assume "q'\<lparr>m_header_bytes := 0\<rparr> = q\<lparr>m_header_bytes := 0\<rparr>"
  from arg_cong [OF this, of "\<lambda>x. x\<lparr>m_header_bytes := m_header_bytes q'\<rparr>"] show "q' = q\<lparr>m_header_bytes := m_header_bytes q'\<rparr>" by simp
qed

lemma consume_all:
  assumes "receiving q" "budget s q \<le> max_header_size" "plain_feed s q = Inr ([], q1)"
  obtains k where "request_consume s q = Inr (length s, q1\<lparr>m_header_bytes := k\<rparr>)"
    "\<And>t. \<not> m_ready q1 \<Longrightarrow> budget t (q1\<lparr>m_header_bytes := k\<rparr>) \<le> budget (s @ t) q + 3"
proof -
  from feed_plain(1) [OF assms(1,2)] assms(3) obtain q' where q': "feed s q = Inr ([], q')" "q'\<lparr>m_header_bytes := 0\<rparr> = q1\<lparr>m_header_bytes := 0\<rparr>"
    by (auto simp: uncount_eq_Inr)
  obtain k where k: "q' = q1\<lparr>m_header_bytes := k\<rparr>" using same_but_count [OF q'(2)] by blast
  obtain n where n: "request_consume s q = Inr (n, q')" "drop n s = []"
    using q'(1) by (cases "request_consume s q") (auto simp: feed_def)
  then have "n = length s" using consume_bound [OF n(1) assms(1)] by simp
  then show ?thesis using that [of k] n(1) k feed_plain(2) [OF assms(1,2) q'(1)] by simp
qed

lemma recv_request_pieces:
  "sized n (h_base s) \<Longrightarrow> unread (h_base s) = [] \<Longrightarrow> receiving (h_request s) \<Longrightarrow> \<forall>xs \<in> set xss. xs \<noteq> [] \<and> length xs \<le> session_room (h_base s) \<Longrightarrow>
   budget (chars (concat xss)) (h_request s) + 3 * length xss \<le> max_header_size \<Longrightarrow> plain_feed (chars (concat xss)) (h_request s) = Inr ([], q) \<Longrightarrow>
   m_ready q \<Longrightarrow> got + length (concat xss) \<le> limit \<Longrightarrow>
   \<exists>b k. recv_request limit (map Received xss) got s =
       Some (Inr (int (got + length (concat xss)), snd (updateSession (s\<lparr>h_base := b, h_request := q\<lparr>m_header_bytes := k\<rparr>\<rparr>))))
     \<and> sized n b \<and> unread b = []"
proof (induction xss arbitrary: s got q)
  case Nil
  then show ?case using plain_feed_nil [OF Nil.prems(3)] by (auto simp: receiving_def)
next
  case (Cons xs xss)
  let ?q = "h_request s" and ?t = "chars (concat xss)"
  have x: "xs \<noteq> []" "length xs \<le> session_room (h_base s)" using Cons.prems(4) by simp_all
  from sq.receive [OF Cons.prems(1) x] Cons.prems(2) obtain b where
    b: "recvMessage (Received xs) None (h_base s) = Inr ((int (length xs), xs), b)" "sized n b" "unread b = xs" by auto
  let ?b = "snd (consume (length xs) b)"
  have b': "sized n ?b" "unread ?b = []" using sq.take_off [OF b(2), of "length xs"] b(3) by simp_all
  have room: "session_room ?b = session_room (h_base s)" using sq.room_empty [OF Cons.prems(1) b'(1)] Cons.prems(2) b'(2) by simp
  have bud: "budget (chars xs) ?q \<le> max_header_size" using Cons.prems(5) budget_mono [of "chars xs" ?q ?t] by simp
  have app: "plain_feed (chars xs @ ?t) ?q = Inr ([], q)" using Cons.prems(6) by simp
  obtain q1 where q1: "plain_feed (chars xs) ?q = Inr ([], q1)" "if m_ready q1 then xss = [] \<and> q1 = q else receiving q1 \<and> plain_feed ?t q1 = Inr ([], q)"
  proof (cases "plain_feed (chars xs) ?q")
    case (Inr y)
    then obtain l q1 where y: "plain_feed (chars xs) ?q = Inr (l, q1)" by (cases y) auto
    have e: "(if m_ready q1 then Inr (l @ ?t, q1) else plain_feed ?t q1) = Inr ([], q)"
      using plain_feed_append(1) [OF Cons.prems(3), of "chars xs" ?t] app y by simp
    show ?thesis
    proof (cases "m_ready q1")
      case True
      then have "l = []" "?t = []" "q1 = q" using e by auto
      moreover have "xss = []" using \<open>?t = []\<close> Cons.prems(4) by (cases xss) auto
      ultimately show ?thesis using that [of q1] y True by simp
    next
      case False
      then show ?thesis using that [of q1] e y plain_feed_append(2) [OF Cons.prems(3) y] by simp
    qed
  qed (use plain_feed_append(1) [OF Cons.prems(3), of "chars xs" ?t] app in simp)
  obtain k where k: "request_consume (chars xs) ?q = Inr (length xs, q1\<lparr>m_header_bytes := k\<rparr>)"
      "\<And>t. \<not> m_ready q1 \<Longrightarrow> budget t (q1\<lparr>m_header_bytes := k\<rparr>) \<le> budget (chars xs @ t) ?q + 3"
    using consume_all [OF Cons.prems(3) bud q1(1)] by auto
  let ?s = "s\<lparr>h_base := ?b, h_request := q1\<lparr>m_header_bytes := k\<rparr>\<rparr>"
  have step: "recv_request limit (map Received (xs # xss)) got s =
      (if m_ready q1 then Some (Inr (int (got + length xs), snd (updateSession ?s))) else recv_request limit (map Received xss) (got + length xs) ?s)"
    using b(1) k(1) x(1) Cons.prems(8) by (simp add: updateSession_def Let_def)
  show ?case
  proof (cases "m_ready q1")
    case True
    then show ?thesis using step q1(2) b' by auto
  next
    case False
    have "\<exists>b k. recv_request limit (map Received xss) (got + length xs) ?s =
       Some (Inr (int (got + length xs + length (concat xss)), snd (updateSession (?s\<lparr>h_base := b, h_request := q\<lparr>m_header_bytes := k\<rparr>\<rparr>))))
      \<and> sized n b \<and> unread b = []"
    proof -
      have "plain_feed ?t (h_request ?s) = Inr ([], q\<lparr>m_header_bytes := k\<rparr>)" using False q1(2) by (simp add: plain_feed_count)
      moreover have "budget ?t (h_request ?s) + 3 * length xss \<le> max_header_size" using k(2) [OF False, of ?t] Cons.prems(5) by simp
      ultimately show ?thesis
        using Cons.IH [of ?s "q\<lparr>m_header_bytes := k\<rparr>" "got + length xs"] b' room False q1(2) Cons.prems(4,7,8) by simp
    qed
    then show ?thesis using step False by (simp add: add.assoc)
  qed
qed

text \<open>
  The invariant of a session between two requests: an empty buffer, and the limit on bodies unchanged.
\<close>

definition http_idle :: "http_session \<Rightarrow> bool" where
  "http_idle s \<longleftrightarrow> session_inv (h_base s) \<and> unread (h_base s) = [] \<and> m_body_bytes_max (h_request s) = max_body_size"

lemma request_reset_new: "m_body_bytes_max r = max_body_size \<Longrightarrow> request_reset r = request_new"
  by (simp add: request_reset_def parser_reset_def request_new_def)

text \<open>What a session knows after the request \<open>r\<close>.\<close>

definition has_request :: "request \<Rightarrow> http_session \<Rightarrow> bool" where
  "has_request r s \<longleftrightarrow> m_method (h_request s) = m_method r \<and> m_uri (h_request s) = m_uri r \<and> m_version (h_request s) = m_version r
     \<and> m_headers (h_request s) = m_headers r \<and> m_body (h_request s) = m_body r"

text \<open>The pieces of \<open>r\<close> as the socket delivers them.\<close>

definition pieces_of :: "request \<Rightarrow> nat \<Rightarrow> bytes list \<Rightarrow> bool" where
  "pieces_of r room xss \<longleftrightarrow> chars (concat xss) = request_raw r \<and> (\<forall>xs \<in> set xss. xs \<noteq> [] \<and> length xs \<le> room)
     \<and> wf_request r \<and> head_cost r + 3 * length xss \<le> max_header_size"

lemma co_recvRequest_pieces:
  assumes "http_idle s" "pieces_of r (session_room (h_base s)) xss" "length (request_raw r) \<le> limit"
  shows "\<exists>s'. co_recvRequest limit (map Received xss) s = Some (Inr (int (length (request_raw r)), s')) \<and> has_request r s' \<and> http_idle s'
    \<and> session_room (h_base s') = session_room (h_base s) \<and> m_is_keep_alive s' = (m_is_keep_alive s \<and> get_header ''Connection'' r \<noteq> ''close'')"
proof -
  let ?s = "s\<lparr>h_request := request_new, h_response := response_reset (h_response s)\<rparr>"
  have r: "receiving request_new" by (simp add: receiving_def request_new_def crlf_def)
  have p: "chars (concat xss) = request_raw r" "\<forall>xs \<in> set xss. xs \<noteq> [] \<and> length xs \<le> session_room (h_base ?s)" "wf_request r"
      "head_cost r + 3 * length xss \<le> max_header_size"
    using assms(2) by (simp_all add: pieces_of_def)
  have sz: "sized (m_buffer_size (h_base s)) (h_base ?s)" "unread (h_base ?s) = []" using assms(1) by (simp_all add: http_idle_def sized_def)
  obtain q where q: "plain_feed (request_raw r) request_new = Inr ([], q)" "m_ready q" "m_method q = m_method r" "m_uri q = m_uri r"
      "m_version q = m_version r" "m_headers q = m_headers r" "m_body q = m_body r" "m_body_bytes_max q = max_body_size"
    using plain_feed_request [OF p(3), of "[]"] by auto
  have b: "budget (chars (concat xss)) (h_request ?s) + 3 * length xss \<le> max_header_size"
    using header_cost_request [OF p(3), of "[]"] p(1,4) by (simp add: budget_def request_new_def)
  have len: "length (concat xss) = length (request_raw r)" using arg_cong [OF p(1), of length] by simp
  obtain c k where c: "recv_request limit (map Received xss) 0 ?s =
      Some (Inr (int (length (request_raw r)), snd (updateSession (?s\<lparr>h_base := c, h_request := q\<lparr>m_header_bytes := k\<rparr>\<rparr>))))"
      "sized (m_buffer_size (h_base s)) c" "unread c = []"
    using recv_request_pieces [OF sz _ p(2) b _ q(2), of 0 limit] p(1) q(1) r len assms(3) by auto
  have "request_reset (h_request s) = request_new" using assms(1) by (intro request_reset_new) (simp add: http_idle_def)
  then have "co_recvRequest limit (map Received xss) s = recv_request limit (map Received xss) 0 ?s" by (simp add: co_recvRequest_def)
  moreover have "session_room c = session_room (h_base s)" using sq.room_empty [OF sz(1) c(2)] sz(2) c(3) by simp
  ultimately show ?thesis using c q
    by (auto simp: updateSession_def has_request_def http_idle_def sized_def get_header_def)
qed

subsection \<open>Serving a client\<close>

text \<open>
  The assumption on handlers: they leave the receive buffer, the keep-alive flag and the limit on
  bodies alone. They may do anything to the response, the request and the rest of the world.
\<close>

definition polite :: "'w urls \<Rightarrow> bool" where
  "polite m_urls \<longleftrightarrow> (\<forall>path method cb s w. m_urls path = Some (method, cb) \<longrightarrow>
     h_base (fst (cb (s, w))) = h_base s \<and> m_is_keep_alive (fst (cb (s, w))) = m_is_keep_alive s
     \<and> m_body_bytes_max (h_request (fst (cb (s, w)))) = m_body_bytes_max (h_request s))"

text \<open>The world after the handlers of the requests ran one after the other, each on a session with its request.\<close>

fun served :: "'w urls \<Rightarrow> request list \<Rightarrow> 'w \<Rightarrow> 'w \<Rightarrow> bool" where
  "served m_urls [] w w' = (w' = w)"
| "served m_urls (r # rs) w w' = (\<exists>s. has_request r s \<and> served m_urls rs (snd (execHandler m_urls (m_uri r) (s, w))) w')"

lemma execHandler_polite:
  assumes "polite m_urls"
  shows "h_base (fst (execHandler m_urls url (s, w))) = h_base s"
    "m_is_keep_alive (fst (execHandler m_urls url (s, w))) = m_is_keep_alive s"
    "m_body_bytes_max (h_request (fst (execHandler m_urls url (s, w)))) = m_body_bytes_max (h_request s)"
  using assms unfolding polite_def by (auto simp: execHandler_def Let_def split: option.splits)

definition good_rounds :: "nat \<Rightarrow> nat \<Rightarrow> (request \<times> bytes list \<times> int) list \<Rightarrow> bool" where
  "good_rounds room limit reqs \<longleftrightarrow>
     list_all (\<lambda>(r, xss, e). pieces_of r room xss \<and> length (request_raw r) \<le> limit \<and> get_header ''Connection'' r \<noteq> ''close'') reqs"

lemma client_loop_serves:
  "http_idle s \<Longrightarrow> 0 < session_room (h_base s) \<Longrightarrow> m_is_keep_alive s \<Longrightarrow> polite m_urls \<Longrightarrow> good_rounds (session_room (h_base s)) limit reqs \<Longrightarrow>
   n + length reqs < 1000 \<Longrightarrow>
   \<exists>s' w'. client_loop m_urls limit (map (\<lambda>(r, xss, e). (map Received xss, e)) reqs @ [([Received []], e)]) n (s, w)
       = Some (Inr (Client_closed, s', w')) \<and> served m_urls (map fst reqs) w w'"
proof (induction reqs arbitrary: s w n)
  case Nil
  then show ?case by (simp add: co_recvRequest_def recvMessage_def session_room_def)
next
  case (Cons a reqs)
  obtain r xss e' where a: "a = (r, xss, e')" by (cases a)
  have p: "pieces_of r (session_room (h_base s)) xss" "length (request_raw r) \<le> limit" "get_header ''Connection'' r \<noteq> ''close''"
      "good_rounds (session_room (h_base s)) limit reqs"
    using Cons.prems(5) a by (simp_all add: good_rounds_def)
  obtain s1 where s1: "co_recvRequest limit (map Received xss) s = Some (Inr (int (length (request_raw r)), s1))" "has_request r s1" "http_idle s1"
      "session_room (h_base s1) = session_room (h_base s)" "m_is_keep_alive s1"
    using co_recvRequest_pieces [OF Cons.prems(1) p(1,2)] Cons.prems(3) p(3) by auto
  have pos: "length (request_raw r) > 0" by (simp add: request_raw_def request_head_def)
  obtain s2 w2 where x: "execHandler m_urls (m_uri r) (s1, w) = (s2, w2)" by (cases "execHandler m_urls (m_uri r) (s1, w)")
  have s2: "h_base s2 = h_base s1" "m_is_keep_alive s2 = m_is_keep_alive s1" "m_body_bytes_max (h_request s2) = m_body_bytes_max (h_request s1)"
    using execHandler_polite [OF Cons.prems(4), of "m_uri r" s1 w] x by simp_all
  have "http_idle s2" "m_is_keep_alive s2" "session_room (h_base s2) = session_room (h_base s)" using s1 s2 by (simp_all add: http_idle_def)
  then obtain s' w' where "client_loop m_urls limit (map (\<lambda>(r, xss, e). (map Received xss, e)) reqs @ [([Received []], e)]) (n + 1) (s2, w2)
       = Some (Inr (Client_closed, s', w'))" "served m_urls (map fst reqs) w2 w'"
    using Cons.IH [of s2 "n + 1" w2] Cons.prems(2,4,6) p(4) by auto
  moreover have "m_uri (h_request s1) = m_uri r" using s1(2) by (simp add: has_request_def)
  ultimately show ?case using s1(1,2,5) s2(2) x pos Cons.prems(6) a by (auto simp: Let_def)
qed

text \<open>
  C2. A client that sends fewer than 1000 well-formed requests over a kept connection and then closes it is served in order: for
  every request the handler registered for its path and method runs exactly once, on a session that holds this request, and
  then the server closes the socket. Each request comes in any number of pieces, none larger than the buffer and none with bytes
  of two requests (the client does not pipeline), its head is within the header limit and its length within the limit of the server;
  no request asks for the connection to be closed, and the handlers leave the receive buffer, the keep-alive flag and the limit on
  bodies alone.
\<close>

theorem client_served_in_order:
  assumes "polite m_urls" "0 < buffer_size" "buffer_size \<le> length mem" "good_rounds buffer_size limit reqs" "length reqs < 1000"
  shows "\<exists>s' w'. http_handleClient m_urls limit (map (\<lambda>(r, xss, e). (map Received xss, e)) reqs @ [([Received []], e)])
      (HttpSession_new buffer_size old mem socket) w = Some (Inr (Client_closed, s', w')) \<and> served m_urls (map fst reqs) w w'"
proof -
  let ?s = "HttpSession_new buffer_size old mem socket"
  have "http_idle ?s" "session_room (h_base ?s) = buffer_size" "m_is_keep_alive ?s"
    using assms(3) by (simp_all add: HttpSession_new_def http_idle_def session_inv_def session_room_def unread_def setBufferSize_def Session_new_def request_new_def)
  then show ?thesis using client_loop_serves [of ?s m_urls limit reqs 0 e w] assms by (simp add: http_handleClient_def)
qed

definition example_urls :: "string list urls" where
  "example_urls = register_GET ''/a'' (\<lambda>(s, w). (s, w @ [m_body (h_request s)])) Map.empty"

definition example_bytes :: bytes where
  "example_bytes = map (\<lambda>c. word_of_nat (of_char c)) (request_raw example_request)"

lemma chars_of_string: "chars (map (\<lambda>c. word_of_nat (of_char c)) s) = s"
proof (induction s)
  case (Cons c s)
  have "unat (word_of_nat (of_char c) :: byte) = of_char c" by (simp add: unat_of_nat)
  then show ?case using Cons by (simp add: chars_def)
qed simp

lemma example_round: "good_rounds 1024 4096 [(example_request, [example_bytes], 0)]"
proof -
  have l: "length (request_raw example_request) \<le> 1024" "request_raw example_request \<noteq> []"
    by (simp_all add: request_raw_lines request_line_def header_line_def example_request_def)
  have "hfind ''Connection'' [(''Content-Length'', ''2''), (''Host'', ''b'')] = None" by code_simp
  then have "get_header ''Connection'' example_request = []" by (simp add: get_header_def example_request_def)
  moreover have "head_cost example_request + 3 \<le> max_header_size"
    by (simp add: head_cost_def lines_cost_def request_line_def header_line_def example_request_def max_header_size_def)
  ultimately show ?thesis
    using l example_request_wf(1) by (simp add: good_rounds_def pieces_of_def example_bytes_def chars_of_string)
qed

theorem client_served_in_order_witness:
  "\<exists>s' w'. http_handleClient example_urls 4096 (map (\<lambda>(r, xss, e). (map Received xss, e)) [(example_request, [example_bytes], 0)] @ [([Received []], 0)])
      (HttpSession_new 1024 0 (replicate 1024 0) 7) [] = Some (Inr (Client_closed, s', w')) \<and> w' = [''xy'']"
proof -
  have "polite example_urls" by (auto simp: polite_def example_urls_def register_GET_def registerUrl_def split: if_splits)
  from client_served_in_order [OF this _ _ example_round, of "replicate 1024 0" 0 0 7 "[]"]
  show ?thesis by (auto simp: example_urls_def register_GET_def registerUrl_def execHandler_def has_request_def example_request_def Let_def split: if_splits)
qed

subsection \<open>Malformed requests\<close>

definition bad_line :: "string \<Rightarrow> bool" where
  "bad_line l \<longleftrightarrow> l \<noteq> [] \<and> CHR 0x0D \<notin> set l \<and> CHR '':'' \<notin> set l"

lemma bad_line_thrown: "bad_line l \<Longrightarrow> m_method q \<noteq> [] \<Longrightarrow> process_line l q = Inl (Thrown ''Invalid header line'') \<and> process_left l q = q"
  using find_in_None [of "CHR '':''" l "[]"] by (simp add: bad_line_def process_line_def process_header_def process_left_def Let_def)

lemma malformed_head:
  assumes "wf_request r" "bad_line l" "length (request_line r) + length l + 6 \<le> max_header_size"
  shows "header_loop (request_line r @ crlf @ l @ crlf @ t) request_new = Inl (Thrown ''Invalid header line'')"
    and "header_left (request_line r @ crlf @ l @ crlf @ t) request_new = request_new\<lparr>m_header_bytes := length (request_line r) + length l + 6,
      m_method := m_method r, m_uri := m_uri r, m_version := m_version r\<rparr>"
proof -
  let ?n = "length (request_line r) + 3"
  let ?q = "request_new\<lparr>m_header_bytes := ?n, m_method := m_method r, m_uri := m_uri r, m_version := m_version r\<rparr>"
  have f: "find_in crlf (request_line r @ crlf @ l @ crlf @ t) = Some (length (request_line r))" "find_in crlf (l @ crlf @ t) = Some (length l)"
    using find_line [OF request_line_no_cr [OF assms(1)]] find_line [of l t] assms(2) by (simp_all add: bad_line_def)
  have c: "count_line (length (request_line r)) request_new = request_new\<lparr>m_header_bytes := ?n\<rparr>"
    by (simp add: count_line_def request_new_def)
  have p: "process_line (request_line r) (request_new\<lparr>m_header_bytes := ?n\<rparr>) = Inr ?q"
    using process_request_line [OF assms(1), of "request_new\<lparr>m_header_bytes := ?n\<rparr>"] by (simp add: request_new_def)
  have m: "m_method r \<noteq> []" using assms(1) by (simp add: wf_request_def)
  let ?q2 = "count_line (length l) ?q"
  have b: "process_line l ?q2 = Inl (Thrown ''Invalid header line'')" "process_left l ?q2 = ?q2"
    using bad_line_thrown [OF assms(2), of ?q2] m by (simp_all add: count_line_def)
  have ne: "l \<noteq> []" using assms(2) by (simp add: bad_line_def)
  have "header_loop (l @ crlf @ t) ?q = Inl (Thrown ''Invalid header line'')" "header_left (l @ crlf @ t) ?q = ?q2"
    using f(2) b ne assms(3) by (simp_all add: header_loop.simps [of "l @ crlf @ t"] header_left.simps [of "l @ crlf @ t"] count_line_def Let_def)
  then show "header_loop (request_line r @ crlf @ l @ crlf @ t) request_new = Inl (Thrown ''Invalid header line'')"
    "header_left (request_line r @ crlf @ l @ crlf @ t) request_new = request_new\<lparr>m_header_bytes := length (request_line r) + length l + 6,
      m_method := m_method r, m_uri := m_uri r, m_version := m_version r\<rparr>"
    using f(1) c p request_line_nonempty [of r] assms(3)
    by (simp_all add: header_loop.simps [of "request_line r @ _"] header_left.simps [of "request_line r @ _"] Let_def count_line_def)
qed

text \<open>
  C34. A request whose first header line has no colon, received in one piece that fits the buffer, closes the connection and no
  handler runs, except when \<^verbatim>\<open>errno\<close> happens to be \<^verbatim>\<open>EAGAIN\<close> (what the last wait of the coroutine left there): then the handler for
  the path of the malformed request runs on the unfinished request, as for a correct one. The request line is well formed, the head is
  within the header limit, the session is idle, and fewer than 999 requests were answered before.
\<close>

theorem malformed_request:
  assumes "http_idle s" "wf_request r" "bad_line l" "length (request_line r) + length l + 6 \<le> max_header_size"
    and "chars xs = request_line r @ crlf @ l @ crlf @ t" "length xs \<le> session_room (h_base s)" "n + 1 < 1000"
  shows "\<exists>s1. m_method (h_request s1) = m_method r \<and> m_uri (h_request s1) = m_uri r \<and> \<not> m_ready (h_request s1) \<and> unread (h_base s1) = xs
    \<and> client_loop m_urls limit (([Received xs], errno) # rounds) n (s, w) =
        (if errno \<noteq> 11 then Some (Inr (Client_closed, s1, w))
         else (case execHandler m_urls (m_uri r) (s1, w) of (s2, w2) \<Rightarrow>
                 if m_is_keep_alive s2 then client_loop m_urls limit rounds (n + 1) (s2, w2) else Some (Inr (Client_closed, s2, w2))))"
proof -
  let ?t = "request_line r @ crlf @ l @ crlf @ t"
  have "chars xs \<noteq> []" using assms(5) request_line_nonempty [of r] by simp
  then have ne: "xs \<noteq> []" by simp
  from recvMessage_queue [OF _ ne assms(6)] assms(1) obtain b where
    b: "recvMessage (Received xs) None (h_base s) = Inr ((int (length xs), xs), b)" "unread b = xs" by (auto simp: http_idle_def)
  have new: "request_reset (h_request s) = request_new" using assms(1) by (intro request_reset_new) (simp add: http_idle_def)
  have c: "request_consume ?t request_new = Inl (Thrown ''Invalid header line'')"
    using malformed_head(1) [OF assms(2-4), of t] by (simp add: request_consume_def request_new_def)
  have left: "consume_left ?t request_new = request_new\<lparr>m_header_bytes := length (request_line r) + length l + 6,
      m_method := m_method r, m_uri := m_uri r, m_version := m_version r, m_buf := Some ?t\<rparr>"
    using malformed_head [OF assms(2-4), of t] by (simp add: consume_left_def request_new_def)
  let ?s1 = "s\<lparr>h_request := consume_left ?t request_new, h_response := response_reset (h_response s), h_base := b\<rparr>"
  have "co_recvRequest limit [Received xs] s = Some (Inr (-1, ?s1))"
    using b(1) c ne new assms(5) by (simp add: co_recvRequest_def)
  moreover have "m_method (h_request ?s1) = m_method r" "m_uri (h_request ?s1) = m_uri r" "\<not> m_ready (h_request ?s1)"
    unfolding left by (simp_all add: request_new_def)
  ultimately show ?thesis using b(2) assms(7)
    by (intro exI [of _ ?s1]) (auto simp: Let_def split: prod.splits)
qed

theorem malformed_request_witness:
  "\<exists>s1. m_uri (h_request s1) = ''/a'' \<and> \<not> m_ready (h_request s1)
    \<and> client_loop example_urls 4096 [([Received (map (\<lambda>c. word_of_nat (of_char c)) (request_line example_request @ crlf @ ''bad'' @ crlf @ []))], 104)] 0
        (HttpSession_new 1024 0 (replicate 1024 0) 7, []) = Some (Inr (Client_closed, s1, []))"
proof -
  let ?s = "HttpSession_new 1024 0 (replicate 1024 0) 7"
  let ?xs = "map (\<lambda>c. word_of_nat (of_char c)) (request_line example_request @ crlf @ ''bad'' @ crlf @ []) :: bytes"
  have "http_idle ?s" "session_room (h_base ?s) = 1024"
    by (simp_all add: HttpSession_new_def http_idle_def session_inv_def session_room_def unread_def setBufferSize_def Session_new_def request_new_def)
  moreover have "bad_line ''bad''" by (simp add: bad_line_def)
  moreover have "length (request_line example_request) + length ''bad'' + 6 \<le> max_header_size" "length ?xs \<le> 1024"
    by (simp_all add: request_line_def example_request_def max_header_size_def)
  ultimately show ?thesis
    using malformed_request [OF _ example_request_wf(1) _ _ chars_of_string, of ?s "''bad''" "[]" 0 example_urls 4096 104 "[]" "[]"]
    by (auto simp: example_request_def)
qed

subsection \<open>Sending\<close>

text \<open>
  What \<^verbatim>\<open>co_sendResp\<close> hands to the socket is always a prefix of the response. When it returns the length of the
  response everything was handed over, unless the pipe was broken: then too the full length is returned
  although the rest was not sent. Any other failure of a call gives \<open>-1\<close>.
\<close>

theorem send_result:
  "co_sendResp_raw rs resp = Some (rt, out) \<Longrightarrow>
   prefix out resp \<and> (rt = int (length resp) \<and> (out = resp \<or> Send_failed 32 \<in> set rs) \<or> rt = -1 \<and> (\<exists>e. e \<noteq> 32 \<and> Send_failed e \<in> set rs))"
proof -
  have "send_loop n rs resp = Some (rt, out) \<Longrightarrow> prefix out resp \<and>
     (rt = int n \<and> (out = resp \<or> Send_failed 32 \<in> set rs) \<or> rt = -1 \<and> (\<exists>e. e \<noteq> 32 \<and> Send_failed e \<in> set rs))" for n
  proof (induction n rs resp arbitrary: rt out rule: send_loop.induct)
    case (3 n r rs c cs)
    show ?case
    proof (cases r)
      case (Sent k)
      then obtain o1 where o1: "send_loop n rs (drop k (c # cs)) = Some (rt, o1)" "out = take k (c # cs) @ o1" using "3.prems" by auto
      from "3.IH" [OF Sent o1(1)] have i: "prefix o1 (drop k (c # cs))"
          "rt = int n \<and> (o1 = drop k (c # cs) \<or> Send_failed 32 \<in> set rs) \<or> rt = -1 \<and> (\<exists>e. e \<noteq> 32 \<and> Send_failed e \<in> set rs)" by simp_all
      from i(1) obtain u where "drop k (c # cs) = o1 @ u" by (auto simp: prefix_def)
      then have "c # cs = out @ u" using o1(2) append_take_drop_id [of k "c # cs"] by simp
      moreover have "o1 = drop k (c # cs) \<Longrightarrow> out = c # cs" using o1(2) append_take_drop_id [of k "c # cs"] by simp
      ultimately show ?thesis using i(2) by (auto simp: prefix_def)
    qed (use "3.prems" in \<open>auto split: if_splits\<close>)
  qed auto
  then show "co_sendResp_raw rs resp = Some (rt, out) \<Longrightarrow> prefix out resp \<and>
     (rt = int (length resp) \<and> (out = resp \<or> Send_failed 32 \<in> set rs) \<or> rt = -1 \<and> (\<exists>e. e \<noteq> 32 \<and> Send_failed e \<in> set rs))"
    unfolding co_sendResp_raw_def by blast
qed

theorem send_result_witness:
  "prefix ''HTTP'' ''HTTP/1.1 200 OK'' \<and> ((15 :: int) = int (length ''HTTP/1.1 200 OK'') \<and> (''HTTP'' = ''HTTP/1.1 200 OK'' \<or> Send_failed 32 \<in> set [Sent 4, Send_failed 32])
     \<or> (15 :: int) = -1 \<and> (\<exists>e. e \<noteq> 32 \<and> Send_failed e \<in> set [Sent 4, Send_failed 32]))"
  by (rule send_result) (simp add: co_sendResp_raw_def)

subsection \<open>Accepting\<close>

text \<open>
  The accepting task schedules a task for every client it accepts, in the order of arrival, and then
  itself again after at most 999 turns; it does so too when the server was stopped.
\<close>

lemma accept_loop_schedules:
  "accept_loop n turns = Some ts \<Longrightarrow> n > 0 \<Longrightarrow> \<exists>k < n. ts = map Handle (List.map_filter snd (take k turns)) @ [Accept_again]"
proof (induction n turns arbitrary: ts rule: accept_loop.induct)
  case (2 n stopped client turns)
  show ?case
  proof (cases "stopped \<or> n - 1 = 0")
    case True
    then show ?thesis using "2.prems" by (intro exI [of _ 0]) auto
  next
    case False
    then obtain ts' where t: "accept_loop (n - 1) turns = Some ts'" "ts = (case client of Some c \<Rightarrow> Handle c # ts' | None \<Rightarrow> ts')"
      using "2.prems"(1) by (cases client) auto
    have "0 < n - 1" using False by simp
    with t(1) False obtain k where k: "k < n - 1" "ts' = map Handle (List.map_filter snd (take k turns)) @ [Accept_again]"
      using "2.IH" by (cases client) metis+
    then show ?thesis using t(2) "2.prems"(2) by (intro exI [of _ "Suc k"]) (auto simp: List.map_filter_simps split: option.splits)
  qed
qed simp

theorem accept_in_order:
  "http_startAccept turns = Some ts \<Longrightarrow> \<exists>k < 1000. ts = map Handle (List.map_filter snd (take k turns)) @ [Accept_again]"
  unfolding http_startAccept_def by (rule accept_loop_schedules) simp_all

end
