(* ===== verification/Http_Params.thy ===== *)
theory Http_Params
  imports Http_Parser
begin

section \<open>Parameter lists in headers (parser.hpp)\<close>

text \<open>
  Lists of tokens with attributes, as in \<^verbatim>\<open>a;x=1;y, b\<close>. An iterator is the rest of the string from it on;
  after an error the functions return the iterator to the beginning. The attributes of a
  parameter are a map.
\<close>

type_synonym attribute_list = "string \<rightharpoonup> string"
type_synonym parameter_list = "(string \<times> attribute_list) list"

lemma extract_all_lws_le: "length (extract_all_lws s) \<le> length s"
proof (induction s rule: extract_all_lws.induct)
  case (1 s)
  have "length (extract_lws s) \<le> length s" using extract_lws_length [of s] by (cases "extract_lws s = s") simp_all
  then show ?case using 1 [OF refl] by (auto simp: extract_all_lws.simps [of s] Let_def intro: order_trans)
qed

lemma extract_token_le: "extract_token s = (t, r) \<Longrightarrow> length t + length r = length s"
  using arg_cong [OF takeWhile_dropWhile_id [of is_token_char s], of length] by (auto simp: extract_token_def)

lemma quoted_le: "quoted b acc s = Some (q, r) \<Longrightarrow> length r < length s"
  by (induction b acc s rule: quoted.induct) (auto split: if_splits)

lemma extract_quoted_string_le: "extract_quoted_string s = (q, r) \<Longrightarrow> length r \<le> length s"
  using quoted_le by (fastforce simp: extract_quoted_string_def split: list.splits if_splits option.splits)

text \<open>
  One pass of the loop over the attributes: it ends with an iterator, or goes on behind an attribute.
\<close>

definition attribute_step :: "string \<Rightarrow> bool \<Rightarrow> string \<Rightarrow> string + string \<times> string \<times> string" where
  "attribute_step begin first cursor =
     (let cursor = extract_all_lws cursor
      in if cursor = [] then Inl cursor
         else if \<not> first \<and> hd cursor \<noteq> CHR '';'' then Inl cursor
         else (let cursor = extract_all_lws (if first then cursor else tl cursor); (name, cursor) = extract_token cursor
               in if name = [] then Inl begin
                  else (let cursor = extract_all_lws cursor
                        in if cursor = [] \<or> hd cursor \<noteq> CHR ''='' then Inr (name, [], cursor)
                           else (let cursor = extract_all_lws (tl cursor)
                                 in if cursor = [] then Inl begin
                                    else (let (q, r) = extract_quoted_string cursor
                                          in if r \<noteq> cursor then Inr (name, q, r)
                                             else (let (t, r) = extract_token cursor in if t = [] then Inl begin else Inr (name, t, r)))))))"

lemma attribute_step_le:
  assumes "attribute_step b first s = Inr (name, v, r)"
  shows "length r < length s"
proof -
  define c1 where "c1 = extract_all_lws s"
  define c2 where "c2 = extract_all_lws (if first then c1 else tl c1)"
  obtain n c3 where c3: "extract_token c2 = (n, c3)" by (cases "extract_token c2")
  define c4 where "c4 = extract_all_lws c3"
  define c5 where "c5 = extract_all_lws (tl c4)"
  obtain q r1 where q: "extract_quoted_string c5 = (q, r1)" by (cases "extract_quoted_string c5")
  obtain t r2 where t: "extract_token c5 = (t, r2)" by (cases "extract_token c5")
  have n: "n \<noteq> []" and r: "r = c4 \<or> r = r1 \<or> r = r2"
    using assms c3 q t unfolding attribute_step_def Let_def c1_def [symmetric] c2_def [symmetric]
    by (auto simp: c4_def [symmetric] c5_def [symmetric] split: if_splits)
  have "length c1 \<le> length s" unfolding c1_def by (rule extract_all_lws_le)
  moreover have "length c2 \<le> length c1" using extract_all_lws_le [of "if first then c1 else tl c1"] unfolding c2_def by (auto split: if_splits)
  moreover have "length c3 < length c2" using extract_token_le [OF c3] n by (cases n) auto
  moreover have "length c4 \<le> length c3" unfolding c4_def by (rule extract_all_lws_le)
  moreover have "length c5 \<le> length c4" using extract_all_lws_le [of "tl c4"] unfolding c5_def by simp
  moreover have "length r1 \<le> length c5" by (rule extract_quoted_string_le [OF q])
  moreover have "length r2 \<le> length c5" using extract_token_le [OF t] by simp
  ultimately show ?thesis using r by auto
qed

function attributes_loop :: "string \<Rightarrow> bool \<Rightarrow> string \<Rightarrow> attribute_list \<Rightarrow> string \<times> attribute_list" where
  "attributes_loop begin first cursor attributes =
     (if cursor = [] then (cursor, attributes)
      else (case attribute_step begin first cursor of
              Inl c \<Rightarrow> (c, attributes)
            | Inr (name, v, c) \<Rightarrow> attributes_loop begin False c (attributes(name \<mapsto> v))))"
  by pat_completeness auto
termination
  by (relation "measure (\<lambda>(b, first, cursor, m). length cursor)") (auto dest: attribute_step_le)

declare attributes_loop.simps [simp del]

definition extract_attributes :: "string \<Rightarrow> attribute_list \<Rightarrow> string \<times> attribute_list" where
  "extract_attributes begin attributes =
     (if begin = [] then (begin, attributes) else attributes_loop begin True begin attributes)"

text \<open>
  One pass of the loop over the parameters, with the parameter it found, if any, and where to go on.
\<close>

datatype param_step = Stop string | Stop_after "string \<times> attribute_list" string | Go_on "string \<times> attribute_list" string

definition parameter_step :: "string \<Rightarrow> string \<Rightarrow> param_step" where
  "parameter_step begin cursor =
     (let cursor = extract_all_lws cursor
      in if cursor = [] then Stop cursor
         else (let (name, cursor) = extract_token cursor
               in if name = [] then Stop begin
                  else (let cursor = extract_all_lws cursor
                        in if cursor = [] then Stop_after (name, Map.empty) cursor
                           else (let (acursor, attributes) =
                                       (if hd cursor = CHR '';'' then extract_attributes (tl cursor) Map.empty else (cursor, Map.empty))
                                 in if hd cursor = CHR '';'' \<and> acursor = tl cursor then Stop begin
                                    else (let cursor = extract_all_lws acursor
                                          in if cursor = [] \<or> hd cursor \<noteq> CHR '','' then Stop_after (name, attributes) cursor
                                             else if tl cursor = [] then Stop_after (name, attributes) begin
                                             else Go_on (name, attributes) (tl cursor))))))"

lemma attributes_loop_le: "length (fst (attributes_loop b first s m)) \<le> max (length b) (length s)"
proof (induction b first s m rule: attributes_loop.induct)
  case (1 b first s m)
  show ?case
  proof (cases "attribute_step b first s")
    case (Inl c)
    have "c = b \<or> length c \<le> length s"
    proof -
      have "c = b \<or> c = extract_all_lws s"
        using Inl unfolding attribute_step_def Let_def by (auto split: if_splits prod.splits)
      then show ?thesis using extract_all_lws_le [of s] by auto
    qed
    then show ?thesis using Inl by (auto simp: attributes_loop.simps [of b first s])
  next
    case (Inr x)
    obtain name v c where x: "x = (name, v, c)" by (cases x)
    have c: "length c < length s" using attribute_step_le Inr x by blast
    show ?thesis
    proof (cases "s = []")
      case False
      then have "length (fst (attributes_loop b False c (m(name \<mapsto> v)))) \<le> max (length b) (length c)"
        using 1 [OF False Inr] x by (auto simp: fun_upd_def)
      then show ?thesis using Inr x c False by (simp add: attributes_loop.simps [of b first s])
    qed (simp add: attributes_loop.simps [of b first "[]"])
  qed
qed

lemma extract_attributes_le: "length (fst (extract_attributes s m)) \<le> length s"
  using attributes_loop_le [of s True s m] by (simp add: extract_attributes_def)

lemma parameter_step_le:
  assumes "parameter_step b s = Go_on p r"
  shows "length r < length s"
proof -
  define c1 where "c1 = extract_all_lws s"
  obtain n c2 where c2: "extract_token c1 = (n, c2)" by (cases "extract_token c1")
  define c3 where "c3 = extract_all_lws c2"
  obtain c4 m where c4: "(if hd c3 = CHR '';'' then extract_attributes (tl c3) Map.empty else (c3, Map.empty)) = (c4, m)" by fastforce
  define c5 where "c5 = extract_all_lws c4"
  have n: "n \<noteq> []" and r: "r = tl c5"
    using assms c2 c4 unfolding parameter_step_def Let_def c1_def [symmetric]
    by (simp_all add: c3_def [symmetric] c5_def [symmetric] split: if_splits)
  have "length c1 \<le> length s" unfolding c1_def by (rule extract_all_lws_le)
  moreover have "length c2 < length c1" using extract_token_le [OF c2] n by (cases n) auto
  moreover have "length c3 \<le> length c2" unfolding c3_def by (rule extract_all_lws_le)
  moreover have "length c4 \<le> length c3"
    using c4 extract_attributes_le [of "tl c3" Map.empty] by (auto split: if_splits)
  moreover have "length c5 \<le> length c4" unfolding c5_def by (rule extract_all_lws_le)
  ultimately show ?thesis using r by auto
qed

function parameters_loop :: "string \<Rightarrow> string \<Rightarrow> parameter_list \<Rightarrow> string \<times> parameter_list" where
  "parameters_loop begin cursor parameters =
     (if cursor = [] then (cursor, parameters)
      else (case parameter_step begin cursor of
              Stop c \<Rightarrow> (c, parameters)
            | Stop_after p c \<Rightarrow> (c, parameters @ [p])
            | Go_on p c \<Rightarrow> parameters_loop begin c (parameters @ [p])))"
  by pat_completeness auto
termination
  by (relation "measure (\<lambda>(b, cursor, ps). length cursor)") (auto dest: parameter_step_le)

declare parameters_loop.simps [simp del]

definition extract_parameters :: "string \<Rightarrow> parameter_list \<Rightarrow> string \<times> parameter_list" where
  "extract_parameters begin parameters =
     (if begin = [] then (begin, parameters) else parameters_loop begin begin parameters)"

text \<open>The result: whether the iterator that came back is the beginning.\<close>

definition parse_parameter_list :: "string \<Rightarrow> parameter_list \<Rightarrow> bool \<times> parameter_list" where
  "parse_parameter_list s out =
     (if s = [] then (False, out) else (let (it, out) = extract_parameters s out in (it = s, out)))"

definition get_header_as_plist :: "string \<Rightarrow> parameter_list \<Rightarrow> 'a http_parser_scheme \<Rightarrow> bool \<times> parameter_list" where
  "get_header_as_plist key out p =
     (case hfind key (m_headers p) of
        None \<Rightarrow> (False, out)
      | Some v \<Rightarrow> if v = [] then (False, out) else parse_parameter_list v out)"


section \<open>Printing and parsing\<close>

text \<open>Text at which \<^verbatim>\<open>extract_all_lws\<close> does not move.\<close>

definition solid :: "string \<Rightarrow> bool" where
  "solid s \<longleftrightarrow> (s \<noteq> [] \<longrightarrow> \<not> is_whitespace_char (hd s) \<and> hd s \<noteq> CHR 0x0D)"

lemma extract_lws_solid: "solid s \<Longrightarrow> extract_lws s = s"
  by (cases s) (auto simp: extract_lws_def solid_def split: list.splits)

lemma extract_all_lws_solid [simp]: "solid s \<Longrightarrow> extract_all_lws s = s"
  by (simp add: extract_all_lws.simps [of s] extract_lws_solid)

lemma extract_all_lws_space [simp]: "solid s \<Longrightarrow> extract_all_lws (CHR '' '' # s) = s"
proof -
  assume s: "solid s"
  have "dropWhile is_whitespace_char s = s" using s by (cases s) (simp_all add: solid_def)
  then have "extract_lws (CHR '' '' # s) = s" by (auto simp: extract_lws_def is_whitespace_char_def split: list.splits)
  moreover have "s \<noteq> CHR '' '' # s" by (metis length_Cons n_not_Suc_n)
  ultimately show ?thesis using s by (simp add: extract_all_lws.simps [of "CHR '' '' # s"] Let_def)
qed

definition token :: "string \<Rightarrow> bool" where
  "token t \<longleftrightarrow> t \<noteq> [] \<and> list_all is_token_char t"

lemma separators [simp]: "\<not> is_token_char (CHR '';'')" "\<not> is_token_char (CHR '','')" "\<not> is_token_char (CHR ''='')"
  "\<not> is_token_char (CHR 0x22)" "\<not> is_token_char (CHR 0x0D)" "\<not> is_token_char (CHR '' '')" "\<not> is_token_char (CHR 0x09)"
  by (simp_all add: is_token_char_def header_token_def numeral_eq_Suc)

lemma token_not_white: "is_token_char c \<Longrightarrow> \<not> is_whitespace_char c \<and> c \<noteq> CHR 0x0D \<and> c \<noteq> CHR 0x22"
  unfolding is_whitespace_char_def using separators by blast

lemma token_hd: "token t \<Longrightarrow> is_token_char (hd (t @ s))" "token t \<Longrightarrow> t @ s \<noteq> []"
  by (cases t; simp add: token_def)+

lemma solid_token [simp]: "token t \<Longrightarrow> solid (t @ s)" "token t \<Longrightarrow> solid t"
  using token_hd [of t] token_hd [of t "[]"] token_not_white by (simp_all add: solid_def)

lemma solid_sep [simp]: "solid []" "solid (CHR '';'' # s)" "solid (CHR '','' # s)" "solid (CHR ''='' # s)"
  by (simp_all add: solid_def is_whitespace_char_def)

definition ends_token :: "string \<Rightarrow> bool" where
  "ends_token s \<longleftrightarrow> (s \<noteq> [] \<longrightarrow> \<not> is_token_char (hd s))"

lemma extract_token_token [simp]: "token t \<Longrightarrow> ends_token s \<Longrightarrow> extract_token (t @ s) = (t, s)"
  by (cases s) (auto simp: token_def ends_token_def extract_token_def list_all_iff takeWhile_append2 dropWhile_append2)

lemma quoted_token [simp]: "token t \<Longrightarrow> extract_quoted_string (t @ s) = ([], t @ s)"
proof -
  assume "token t"
  then have "t @ s \<noteq> []" "hd (t @ s) \<noteq> CHR 0x22" using token_hd [of t s] token_not_white by blast+
  then show ?thesis by (cases "t @ s") (simp_all add: extract_quoted_string_def)
qed

lemma ends_token_Nil [simp]: "ends_token []"
  by (simp add: ends_token_def)

lemma token_alone [simp]: "token t \<Longrightarrow> extract_token t = (t, [])" "token t \<Longrightarrow> extract_quoted_string t = ([], t)"
  using extract_token_token [of t "[]"] quoted_token [of t "[]"] by simp_all

text \<open>The text of attributes and parameters.\<close>

definition print_attribute :: "string \<times> string \<Rightarrow> string" where
  "print_attribute kv = fst kv @ (if snd kv = [] then [] else CHR ''='' # snd kv)"

fun print_more :: "(string \<times> string) list \<Rightarrow> string" where
  "print_more [] = []"
| "print_more (kv # kvs) = CHR '';'' # print_attribute kv @ print_more kvs"

definition print_param :: "string \<times> (string \<times> string) list \<Rightarrow> string" where
  "print_param p = fst p @ print_more (snd p)"

fun print_params :: "(string \<times> (string \<times> string) list) list \<Rightarrow> string" where
  "print_params [] = []"
| "print_params [p] = print_param p"
| "print_params (p # q # ps) = print_param p @ '', '' @ print_params (q # ps)"

definition attribute_ok :: "string \<times> string \<Rightarrow> bool" where
  "attribute_ok kv \<longleftrightarrow> token (fst kv) \<and> (snd kv = [] \<or> token (snd kv))"

definition param_ok :: "string \<times> (string \<times> string) list \<Rightarrow> bool" where
  "param_ok p \<longleftrightarrow> token (fst p) \<and> list_all attribute_ok (snd p)"

definition attributes_of :: "(string \<times> string) list \<Rightarrow> attribute_list \<Rightarrow> attribute_list" where
  "attributes_of kvs m = foldl (\<lambda>m kv. m(fst kv \<mapsto> snd kv)) m kvs"

text \<open>What follows a list of attributes: nothing, or the comma before the next parameter.\<close>

definition after :: "string \<Rightarrow> bool" where
  "after t \<longleftrightarrow> t = [] \<or> hd t = CHR '',''"

lemma after_simps: "after t \<Longrightarrow> solid t \<and> ends_token t \<and> (t \<noteq> [] \<longrightarrow> hd t \<noteq> CHR '';'' \<and> hd t \<noteq> CHR ''='')"
  by (auto simp: after_def solid_def ends_token_def is_whitespace_char_def)

lemma more_head: "after t \<Longrightarrow> solid (print_more kvs @ t) \<and> ends_token (print_more kvs @ t) \<and> (print_more kvs @ t \<noteq> [] \<longrightarrow> hd (print_more kvs @ t) \<noteq> CHR ''='')"
  using after_simps [of t] by (cases kvs) (simp_all add: ends_token_def)

lemma attribute_step_print:
  assumes "attribute_ok kv" "solid s" "ends_token s" "s \<noteq> [] \<longrightarrow> hd s \<noteq> CHR ''=''"
  shows "attribute_step b True (print_attribute kv @ s) = Inr (fst kv, snd kv, s)"
    and "attribute_step b False (CHR '';'' # print_attribute kv @ s) = Inr (fst kv, snd kv, s)"
proof -
  obtain k v where kv: "kv = (k, v)" by (cases kv)
  have k: "token k" "v = [] \<or> token v" using assms(1) by (simp_all add: attribute_ok_def kv)
  have e: "ends_token (CHR ''='' # t)" for t by (simp add: ends_token_def)
  have "k \<noteq> []" "token v \<Longrightarrow> v \<noteq> []" using k(1) by (simp_all add: token_def)
  show "attribute_step b True (print_attribute kv @ s) = Inr (fst kv, snd kv, s)"
    "attribute_step b False (CHR '';'' # print_attribute kv @ s) = Inr (fst kv, snd kv, s)"
    using k assms(2-4) e \<open>k \<noteq> []\<close> \<open>token v \<Longrightarrow> v \<noteq> []\<close> by (auto simp: attribute_step_def print_attribute_def kv Let_def)
qed

lemma attributes_loop_print:
  "list_all attribute_ok kvs \<Longrightarrow> after t \<Longrightarrow> attributes_loop b False (print_more kvs @ t) m = (t, attributes_of kvs m)"
proof (induction kvs arbitrary: m)
  case Nil
  then show ?case using after_simps [of t] by (simp add: attributes_loop.simps [of b False t] attribute_step_def attributes_of_def)
next
  case (Cons kv kvs)
  have "attribute_step b False (print_more (kv # kvs) @ t) = Inr (fst kv, snd kv, print_more kvs @ t)"
    using attribute_step_print(2) [of kv "print_more kvs @ t" b] Cons.prems more_head [of t kvs] by simp
  then show ?case using Cons.prems
    by (simp add: attributes_loop.simps [of b False "CHR '';'' # _"] Cons.IH) (simp add: attributes_of_def fun_upd_def)
qed

lemma print_attribute_nonempty: "attribute_ok kv \<Longrightarrow> print_attribute kv \<noteq> []"
  by (simp add: attribute_ok_def print_attribute_def token_def)

lemma extract_attributes_print:
  assumes "list_all attribute_ok (kv # kvs)" "after t"
  shows "extract_attributes (print_attribute kv @ print_more kvs @ t) m = (t, attributes_of (kv # kvs) m)"
proof -
  have "attribute_step b True (print_attribute kv @ print_more kvs @ t) = Inr (fst kv, snd kv, print_more kvs @ t)" for b
    using attribute_step_print(1) [of kv "print_more kvs @ t" b] assms more_head [of t kvs] by simp
  then show ?thesis using attributes_loop_print [of kvs t] assms print_attribute_nonempty [of kv]
    by (simp add: extract_attributes_def attributes_loop.simps [of _ True] attributes_of_def)
qed

definition parsed :: "string \<times> (string \<times> string) list \<Rightarrow> string \<times> attribute_list" where
  "parsed p = (fst p, attributes_of (snd p) Map.empty)"

lemma solid_param: "param_ok p \<Longrightarrow> solid (print_param p @ t)"
  by (simp add: param_ok_def print_param_def)

lemma parameter_step_print:
  assumes "param_ok p" "after t"
  shows "parameter_step b (print_param p @ t) =
    (if t = [] then Stop_after (parsed p) t else if tl t = [] then Stop_after (parsed p) b else Go_on (parsed p) (tl t))"
proof -
  obtain n kvs where p: "p = (n, kvs)" by (cases p)
  have n: "token n" "n \<noteq> []" "list_all attribute_ok kvs" using assms(1) by (simp_all add: param_ok_def p token_def)
  show ?thesis
  proof (cases kvs)
    case Nil
    then show ?thesis using n after_simps [OF assms(2)] assms(2)
      by (auto simp: parameter_step_def print_param_def p parsed_def attributes_of_def after_def Let_def)
  next
    case (Cons kv kvs')
    let ?a = "print_attribute kv @ print_more kvs' @ t"
    have "?a \<noteq> t" using print_attribute_nonempty [of kv] n(3) Cons by simp
    moreover have "extract_attributes ?a Map.empty = (t, attributes_of kvs Map.empty)"
      using extract_attributes_print [of kv kvs' t Map.empty] n(3) assms(2) Cons by simp
    moreover have "extract_token (n @ CHR '';'' # ?a) = (n, CHR '';'' # ?a)" using n(1) by (simp add: ends_token_def)
    ultimately show ?thesis using n(1,2) after_simps [OF assms(2)] assms(2) Cons
      by (auto simp: parameter_step_def print_param_def p parsed_def after_def Let_def)
  qed
qed

lemma parameter_step_space: "solid s \<Longrightarrow> parameter_step b (CHR '' '' # s) = parameter_step b s"
  by (simp add: parameter_step_def)

lemma parameters_loop_print:
  "ps \<noteq> [] \<Longrightarrow> list_all param_ok ps \<Longrightarrow> parameters_loop b (print_params ps) out = ([], out @ map parsed ps)
     \<and> parameters_loop b (CHR '' '' # print_params ps) out = ([], out @ map parsed ps)"
proof (induction ps arbitrary: out rule: print_params.induct)
  case (2 p)
  have "parameter_step b (print_param p) = Stop_after (parsed p) []" using parameter_step_print [of p "[]" b] 2 by (simp add: after_def)
  moreover have "print_param p \<noteq> []" "solid (print_param p)" using 2 solid_param [of p "[]"] by (simp_all add: print_param_def param_ok_def token_def)
  ultimately show ?case by (simp add: parameters_loop.simps [of b "print_param p"] parameters_loop.simps [of b "CHR '' '' # _"] parameter_step_space)
next
  case (3 p q ps)
  let ?t = "CHR '','' # CHR '' '' # print_params (q # ps)"
  have s: "parameter_step b (print_param p @ ?t) = Go_on (parsed p) (CHR '' '' # print_params (q # ps))"
    using parameter_step_print [of p ?t b] 3(3) by (simp add: after_def)
  have "solid (print_param p @ ?t)" using solid_param [of p ?t] 3(3) by simp
  then show ?case using s 3(1) [of "out @ [parsed p]"] 3(3)
    by (simp add: parameters_loop.simps [of b "print_param p @ _"] parameters_loop.simps [of b "CHR '' '' # print_param p @ _"] parameter_step_space)
qed simp

text \<open>
  A list of parameters with attributes, written with tokens, is parsed back: every parameter with its
  attributes, the last one for an attribute named twice. The result is then \<open>False\<close>, although it is documented as
  \<^verbatim>\<open>whether the input was a valid parameter list\<close>; an input that does not start with a token gives \<open>True\<close>.
\<close>

theorem parameter_list_roundtrip:
  "ps \<noteq> [] \<and> list_all param_ok ps \<longrightarrow> parse_parameter_list (print_params ps) [] = (False, map parsed ps)"
  "parse_parameter_list (CHR '';'' # s) [] = (True, [])"
proof -
  have "print_params ps \<noteq> []" if "ps \<noteq> []" "list_all param_ok ps"
    using that by (cases ps rule: print_params.cases) (auto simp: print_param_def param_ok_def token_def)
  then show "ps \<noteq> [] \<and> list_all param_ok ps \<longrightarrow> parse_parameter_list (print_params ps) [] = (False, map parsed ps)"
    using parameters_loop_print [of ps] by (auto simp: parse_parameter_list_def extract_parameters_def)
  have "extract_token (CHR '';'' # s) = ([], CHR '';'' # s)" by (simp add: extract_token_def)
  then show "parse_parameter_list (CHR '';'' # s) [] = (True, [])"
    by (simp add: parse_parameter_list_def extract_parameters_def parameters_loop.simps parameter_step_def)
qed

theorem parameter_list_roundtrip_witness:
  "parse_parameter_list ''a;x=1;y, b'' [] = (False, [(''a'', [''x'' \<mapsto> ''1'', ''y'' \<mapsto> []]), (''b'', Map.empty)])"
proof -
  have "list_all param_ok [(''a'', [(''x'', ''1''), (''y'', [])]), (''b'', [])]" by code_simp
  then show ?thesis using parameter_list_roundtrip(1) [of "[(''a'', [(''x'', ''1''), (''y'', [])]), (''b'', [])]"]
    by (simp add: print_param_def print_attribute_def parsed_def attributes_of_def)
qed

end
