(* ===== verification/Tcp_Server.thy ===== *)
theory Tcp_Server
  imports Prelude
begin

section \<open>The TCP server (server/tcp/tcpServer)\<close>

text \<open>
  The listening sockets of a server and whether it is stopped. Whether binding and listening succeed for
  the \<open>k\<close>-th socket that is created, and its descriptor, are an argument; so is what \<^verbatim>\<open>accept\<close> returns. A socket
  is its descriptor and whether it is open.
\<close>

record tcp_server =
  m_sockets :: "(nat \<times> bool) list"
  m_stop :: bool

definition TcpServer_new :: tcp_server where
  "TcpServer_new = \<lparr>m_sockets = [], m_stop = True\<rparr>"

definition close_socket :: "nat \<times> bool \<Rightarrow> nat \<times> bool" where
  "close_socket sock = (fst sock, False)"

definition TcpServer_destroy :: "tcp_server \<Rightarrow> (nat \<times> bool) list \<times> tcp_server" where
  "TcpServer_destroy srv = (map close_socket (m_sockets srv), srv\<lparr>m_sockets := []\<rparr>)"

type_synonym attempts = "nat \<Rightarrow> bool \<times> bool \<times> nat"

text \<open>The two nested loops: \<open>num\<close> sockets for every address; \<open>k\<close> counts the sockets created.\<close>

fun bind_num :: "attempts \<Rightarrow> 'a \<Rightarrow> nat \<Rightarrow> nat \<times> bool \<times> 'a list \<times> tcp_server \<Rightarrow> nat \<times> bool \<times> 'a list \<times> tcp_server" where
  "bind_num os addr 0 st = st"
| "bind_num os addr (Suc i) (k, rt, failed, srv) =
     (let (bound, listens, fd) = os k
      in bind_num os addr i
           (if \<not> bound then (k + 1, False, failed @ [addr], srv)
            else if \<not> listens then (k + 1, False, failed @ [addr], srv)
            else (k + 1, rt, failed, srv\<lparr>m_sockets := m_sockets srv @ [(fd, True)]\<rparr>)))"

fun bind_loop :: "attempts \<Rightarrow> ('a \<times> int) list \<Rightarrow> nat \<times> bool \<times> 'a list \<times> tcp_server \<Rightarrow> nat \<times> bool \<times> 'a list \<times> tcp_server" where
  "bind_loop os [] st = st"
| "bind_loop os ((addr, num) # addrs) st = bind_loop os addrs (bind_num os addr (nat num) st)"

definition bind_all :: "attempts \<Rightarrow> ('a \<times> int) list \<Rightarrow> 'a list \<Rightarrow> tcp_server \<Rightarrow> bool \<times> 'a list \<times> tcp_server" where
  "bind_all os addrs_num failed srv = snd (bind_loop os addrs_num (0, True, failed, srv))"

definition bind_one :: "attempts \<Rightarrow> 'a \<Rightarrow> int \<Rightarrow> tcp_server \<Rightarrow> bool \<times> tcp_server" where
  "bind_one os addr num srv = (let (rt, failes, srv) = bind_all os [(addr, num)] [] srv in (rt, srv))"

text \<open>Starting schedules an accepting task for every socket.\<close>

definition TcpServer_start :: "tcp_server \<Rightarrow> (nat \<times> bool) list \<times> tcp_server" where
  "TcpServer_start srv = (if \<not> m_stop srv then ([], srv) else (m_sockets srv, srv\<lparr>m_stop := False\<rparr>))"

definition HttpServer_start :: "tcp_server \<Rightarrow> (nat \<times> bool) list \<times> tcp_server" where
  "HttpServer_start srv = (if \<not> m_stop srv then ([], srv) else (m_sockets srv, srv\<lparr>m_stop := False\<rparr>))"

definition TcpServer_stop :: "tcp_server \<Rightarrow> tcp_server" where
  "TcpServer_stop srv = (if m_stop srv then srv else srv\<lparr>m_stop := True, m_sockets := map close_socket (m_sockets srv)\<rparr>)"

text \<open>
  The accepting task: before each turn whether the server is stopped, then what \<^verbatim>\<open>accept\<close> returns. The
  result are the clients for whom a task is scheduled; \<open>None\<close> while it is still waiting.
\<close>

fun tcp_startAccept :: "(bool \<times> nat option) list \<Rightarrow> nat list option" where
  "tcp_startAccept [] = None"
| "tcp_startAccept ((stopped, client) # turns) =
     (if stopped then Some []
      else (case client of
              Some c \<Rightarrow> map_option (\<lambda>cs. c # cs) (tcp_startAccept turns)
            | None \<Rightarrow> tcp_startAccept turns))"

section \<open>Theorems\<close>

definition works :: "bool \<times> bool \<times> nat \<Rightarrow> bool" where
  "works x \<longleftrightarrow> fst x \<and> fst (snd x)"

text \<open>The addresses in the order in which sockets are created for them.\<close>

definition targets :: "('a \<times> int) list \<Rightarrow> 'a list" where
  "targets addrs_num = concat (map (\<lambda>(a, n). replicate (nat n) a) addrs_num)"

definition outcome :: "attempts \<Rightarrow> 'a list \<Rightarrow> nat \<times> bool \<times> 'a list \<times> tcp_server \<Rightarrow> nat \<times> bool \<times> 'a list \<times> tcp_server" where
  "outcome os as st = (case st of (k, rt, failed, srv) \<Rightarrow>
     (k + length as, rt \<and> (\<forall>i < length as. works (os (k + i))),
      failed @ map (\<lambda>i. as ! i) (filter (\<lambda>i. \<not> works (os (k + i))) [0..<length as]),
      srv\<lparr>m_sockets := m_sockets srv @ map (\<lambda>i. (snd (snd (os (k + i))), True)) (filter (\<lambda>i. works (os (k + i))) [0..<length as])\<rparr>))"

lemma shifted_filter:
  "map f (filter P [0..<Suc n]) = (if P 0 then [f 0] else []) @ map (\<lambda>i. f (Suc i)) (filter (\<lambda>i. P (Suc i)) [0..<n])"
proof -
  have "[0..<Suc n] = 0 # map Suc [0..<n]" by (simp add: map_Suc_upt upt_conv_Cons del: upt_Suc)
  then show ?thesis by (simp add: filter_map comp_def del: upt_Suc)
qed

lemma outcome_Nil: "outcome os [] st = st"
  by (simp add: outcome_def split: prod.splits)

lemma outcome_Cons:
  "outcome os (a # as) (k, rt, failed, srv) =
     outcome os as (k + 1, rt \<and> works (os k), if works (os k) then failed else failed @ [a],
       if works (os k) then srv\<lparr>m_sockets := m_sockets srv @ [(snd (snd (os k)), True)]\<rparr> else srv)"
proof -
  have "(\<forall>i < Suc n. Q i) \<longleftrightarrow> Q 0 \<and> (\<forall>i < n. Q (Suc i))" for n and Q :: "nat \<Rightarrow> bool" by (auto simp: less_Suc_eq_0_disj)
  then show ?thesis by (auto simp: outcome_def shifted_filter simp del: upt_Suc)
qed

lemma outcome_append: "outcome os (as @ bs) st = outcome os bs (outcome os as st)"
proof (induction as arbitrary: st)
  case (Cons a as)
  obtain k rt failed srv where "st = (k, rt, failed, srv)" by (cases st)
  then show ?case using Cons by (simp only: append_Cons outcome_Cons)
qed (simp add: outcome_Nil)

lemma bind_num_outcome: "bind_num os addr n st = outcome os (replicate n addr) st"
proof (induction n arbitrary: st)
  case (Suc n)
  obtain k rt failed srv where st: "st = (k, rt, failed, srv)" by (cases st)
  obtain bound listens fd where o: "os k = (bound, listens, fd)" by (cases "os k")
  show ?case using Suc by (simp add: st o outcome_Cons works_def)
qed (simp add: outcome_Nil)

lemma bind_loop_outcome: "bind_loop os addrs st = outcome os (targets addrs) st"
proof (induction addrs arbitrary: st)
  case (Cons a addrs)
  then show ?case by (cases a) (simp add: targets_def bind_num_outcome outcome_append)
qed (simp add: outcome_Nil targets_def)

text \<open>
  \<^verbatim>\<open>bind\<close> tries every address as often as asked; it returns whether every attempt succeeded, appends to the list of
  failures the addresses of exactly the attempts that failed, in order, and keeps exactly the sockets that
  are bound and listening.
\<close>

theorem bind_reports_failures:
  "bind_all os addrs failed srv =
     ((\<forall>i < length (targets addrs). works (os i)),
      failed @ map (\<lambda>i. targets addrs ! i) (filter (\<lambda>i. \<not> works (os i)) [0..<length (targets addrs)]),
      srv\<lparr>m_sockets := m_sockets srv @ map (\<lambda>i. (snd (snd (os i)), True)) (filter (\<lambda>i. works (os i)) [0..<length (targets addrs)])\<rparr>)"
  by (simp add: bind_all_def bind_loop_outcome outcome_def)

theorem bind_reports_failures_witness:
  "fst (bind_all (\<lambda>k. (k \<noteq> 1, True, k + 5)) [(''a'', 2), (''b'', 1)] [] TcpServer_new) = False"
  unfolding bind_reports_failures by (simp add: targets_def works_def numeral_2_eq_2)

text \<open>
  A server that was stopped keeps its closed sockets: starting it again schedules accepting tasks for
  sockets none of which is open.
\<close>

lemma restart_accepts_on_closed_sockets:
  assumes "\<not> m_stop srv"
  shows "fst (TcpServer_start (TcpServer_stop srv)) = map close_socket (m_sockets srv)"
    and "\<forall>sock \<in> set (fst (TcpServer_start (TcpServer_stop srv))). \<not> snd sock"
  using assms by (simp_all add: TcpServer_start_def TcpServer_stop_def close_socket_def)

text \<open>The accepting task schedules every client accepted before the stop, in order.\<close>

lemma tcp_accept_in_order:
  "tcp_startAccept turns = Some cs \<Longrightarrow> \<exists>k < length turns. fst (turns ! k) \<and> cs = List.map_filter snd (take k turns)"
proof (induction turns arbitrary: cs)
  case (Cons t turns)
  obtain stopped client where t: "t = (stopped, client)" by (cases t)
  show ?case
  proof (cases stopped)
    case True
    then show ?thesis using Cons.prems t by (intro exI [of _ 0]) auto
  next
    case False
    then obtain cs' where c: "tcp_startAccept turns = Some cs'" "cs = (case client of Some c \<Rightarrow> c # cs' | None \<Rightarrow> cs')"
      using Cons.prems t by (cases client) auto
    from Cons.IH [OF c(1)] obtain k where "k < length turns" "fst (turns ! k)" "cs' = List.map_filter snd (take k turns)" by blast
    then show ?thesis using c(2) t by (intro exI [of _ "Suc k"]) (auto simp: List.map_filter_simps split: option.splits)
  qed
qed simp

end
