(* ===== verification/Log_Format.thy ===== *)
theory Log_Format
  imports Strings
begin

section \<open>Log levels, events and formatters (basic/log)\<close>

text \<open>
  The pattern of a formatter is translated once into a list of items, which are then printed for every
  event. Characters are bytes. Whether the standard output is a terminal is an argument.
\<close>

subsection \<open>Levels\<close>

datatype log_level = UNKNOWN | DEBUG | INFO | WARN | ERROR | FATAL

fun level_num :: "log_level \<Rightarrow> nat" where
  "level_num UNKNOWN = 0" | "level_num DEBUG = 1" | "level_num INFO = 2"
| "level_num WARN = 3" | "level_num ERROR = 4" | "level_num FATAL = 5"

lemma level_num_inject: "level_num a = level_num b \<longleftrightarrow> a = b"
  by (cases a; cases b) simp_all

instantiation log_level :: linorder
begin

definition less_eq_log_level :: "log_level \<Rightarrow> log_level \<Rightarrow> bool" where
  "less_eq_log_level a b \<longleftrightarrow> level_num a \<le> level_num b"

definition less_log_level :: "log_level \<Rightarrow> log_level \<Rightarrow> bool" where
  "less_log_level a b \<longleftrightarrow> level_num a < level_num b"

instance
  by standard (auto simp: less_eq_log_level_def less_log_level_def level_num_inject)

end

fun level_to_string :: "log_level \<Rightarrow> string" where
  "level_to_string DEBUG = ''DEBUG''" | "level_to_string INFO = ''INFO''" | "level_to_string WARN = ''WARN''"
| "level_to_string ERROR = ''ERROR''" | "level_to_string FATAL = ''FATAL''" | "level_to_string UNKNOWN = ''UNKNOWN''"

definition Level_FromString :: "string \<Rightarrow> log_level" where
  "Level_FromString s =
     (if s = ''DEBUG'' then DEBUG else if s = ''INFO'' then INFO else if s = ''WARN'' then WARN
      else if s = ''ERROR'' then ERROR else if s = ''FATAL'' then FATAL else UNKNOWN)"

lemma level_string_roundtrip [simp]: "Level_FromString (level_to_string l) = l"
  by (cases l) (simp_all add: Level_FromString_def)

subsection \<open>Events\<close>

record log_event =
  file_name :: string
  ev_line :: u32
  ev_elapse :: u32
  ev_thread_id :: u32
  ev_thread_name :: string
  ev_fiber_id :: u32
  ev_timer :: u64
  ev_content :: string
  ev_logger_name :: string
  ev_level :: log_level

definition dec_int :: "int \<Rightarrow> string" where
  "dec_int i = (if i < 0 then CHR ''-'' # dec (nat (- i)) else dec (nat i))"

text \<open>The accessor of the time returns 32 bits of the 64.\<close>

definition getTimer :: "log_event \<Rightarrow> u32" where
  "getTimer e = ucast (ev_timer e)"

subsection \<open>Items\<close>

datatype format_item = MessageItem | LevelItem | ElapseItem | NameItem | ThreadItem | FiberItem | DateTimeItem string
  | FilenameItem | LineItem | NewLineItem | StringItem string | TabItem

definition esc :: "string \<Rightarrow> string" where
  "esc s = CHR 0x1B # CHR ''['' # s"

fun getLevelColor :: "log_level \<Rightarrow> string" where
  "getLevelColor DEBUG = esc ''36m''" | "getLevelColor INFO = esc ''32m''" | "getLevelColor WARN = esc ''33m''"
| "getLevelColor ERROR = esc ''31m''" | "getLevelColor FATAL = esc ''35m''" | "getLevelColor UNKNOWN = esc ''0m''"

fun format_one :: "bool \<Rightarrow> log_level \<Rightarrow> log_event \<Rightarrow> format_item \<Rightarrow> string" where
  "format_one is_tty level event MessageItem = ev_content event"
| "format_one is_tty level event LevelItem =
     (if is_tty then getLevelColor level else []) @ level_to_string level @ (if is_tty then esc ''0m'' else [])"
| "format_one is_tty level event ElapseItem = dec (unat (ev_elapse event))"
| "format_one is_tty level event NameItem = ev_logger_name event"
| "format_one is_tty level event ThreadItem = dec (unat (ev_thread_id event)) @ '':'' @ ev_thread_name event"
| "format_one is_tty level event FiberItem = dec (unat (ev_fiber_id event))"
| "format_one is_tty level event (DateTimeItem fmt) = dec (unat (getTimer event))"
| "format_one is_tty level event FilenameItem = file_name event"
| "format_one is_tty level event LineItem = dec_int (sint (ev_line event))"
| "format_one is_tty level event NewLineItem = [CHR 0x0A]"
| "format_one is_tty level event (StringItem str) = str"
| "format_one is_tty level event TabItem = [CHR 0x09]"

subsection \<open>Translating a pattern\<close>

text \<open>\<^verbatim>\<open>isalpha\<close> in the C locale.\<close>

definition isalpha :: "char \<Rightarrow> bool" where
  "isalpha c \<longleftrightarrow> (let n = of_char c :: nat in 65 \<le> n \<and> n \<le> 90 \<or> 97 \<le> n \<and> n \<le> 122)"

text \<open>The loop after \<^verbatim>\<open>%d\<close>: the format of the time up to the closing brace, and what follows.\<close>

fun time_format :: "bool \<Rightarrow> string \<Rightarrow> string \<times> string" where
  "time_format is_in [] = ([], [])"
| "time_format is_in (c # s) =
     (let is_in = (is_in \<or> c = CHR ''{'')
      in if is_in \<and> c = CHR ''}'' then ([c], s)
         else (let (t, r) = time_format is_in s in (c # t, r)))"

lemma time_format_length: "length (snd (time_format b s)) \<le> length s"
  by (induction b s rule: time_format.induct) (auto simp: Let_def split: prod.splits if_splits)

type_synonym scan_entry = "string \<times> string \<times> nat"

text \<open>
  The loop over the pattern: the text collected, the status and the entries so far. It ends early after a
  percent sign at the end of the pattern.
\<close>

function scan_from :: "string \<Rightarrow> string \<Rightarrow> nat \<Rightarrow> scan_entry list \<Rightarrow> string \<times> nat \<times> scan_entry list" where
  "scan_from [] nstr fmt_status vec = (nstr, fmt_status, vec)"
| "scan_from (c # s) nstr fmt_status vec =
     (if c = CHR ''%''
      then (let vec = (if nstr \<noteq> [] then vec @ [(nstr, [], fmt_status)] else vec)
            in case s of
                 [] \<Rightarrow> ([], 1, vec)
               | e # r \<Rightarrow>
                   if e = CHR ''d''
                   then (if r \<noteq> [] \<and> hd r \<noteq> CHR ''{'' then scan_from r [] 0 (vec @ [(''d'', [], 1)])
                         else scan_from (snd (time_format False r)) [] 0 (vec @ [(''d'', fst (time_format False r), 1)]))
                   else if e = CHR ''%'' then scan_from r [] 0 (vec @ [([e], [], 0)])
                   else if isalpha e then scan_from r [] 0 (vec @ [([e], [], 1)])
                   else scan_from r [] 0 (vec @ [([e], [], 0)]))
      else scan_from s (nstr @ [c]) fmt_status vec)"
  by pat_completeness auto
termination
  by (relation "measure (\<lambda>(s, _). length s)") (auto simp: le_imp_less_Suc less_SucI time_format_length)

declare scan_from.simps(2) [simp del]

definition format_items :: "(char \<times> (string \<Rightarrow> format_item)) list" where
  "format_items = [
     (CHR ''m'', \<lambda>_. MessageItem), (CHR ''p'', \<lambda>_. LevelItem), (CHR ''r'', \<lambda>_. ElapseItem), (CHR ''c'', \<lambda>_. NameItem),
     (CHR ''t'', \<lambda>_. ThreadItem), (CHR ''f'', \<lambda>_. FiberItem), (CHR ''d'', \<lambda>s. DateTimeItem s), (CHR ''F'', \<lambda>_. FilenameItem),
     (CHR ''L'', \<lambda>_. LineItem), (CHR ''n'', \<lambda>_. NewLineItem), (CHR ''s'', \<lambda>s. StringItem s), (CHR ''T'', \<lambda>_. TabItem)]"

definition find_item :: "string \<Rightarrow> (string \<Rightarrow> format_item) option" where
  "find_item name = (case name of [c] \<Rightarrow> map_of format_items c | _ \<Rightarrow> None)"

text \<open>The item of an entry and whether it is an error.\<close>

definition make_item :: "scan_entry \<Rightarrow> format_item \<times> bool" where
  "make_item entry =
     (case entry of (name, fmt, status) \<Rightarrow>
        if status = 0 then (StringItem name, False)
        else (case find_item name of
                None \<Rightarrow> (StringItem (''<<error_format %'' @ name @ ''>>''), True)
              | Some f \<Rightarrow> (f fmt, False)))"

record log_formatter =
  m_pattern :: string
  m_items :: "format_item list"
  m_error :: bool

definition scan_pattern :: "string \<Rightarrow> scan_entry list" where
  "scan_pattern pattern =
     (let (nstr, fmt_status, vec) = scan_from pattern [] 0 [] in if nstr \<noteq> [] then vec @ [(nstr, [], fmt_status)] else vec)"

definition LogFormatter_new :: "string \<Rightarrow> log_formatter" where
  "LogFormatter_new pattern =
     (let items = map make_item (scan_pattern pattern)
      in \<lparr>m_pattern = pattern, m_items = map fst items, m_error = list_ex snd items\<rparr>)"

definition format_event :: "bool \<Rightarrow> log_formatter \<Rightarrow> log_level \<Rightarrow> log_event \<Rightarrow> string" where
  "format_event is_tty f level event = concat (map (format_one is_tty level event) (m_items f))"


section \<open>Patterns and items\<close>

text \<open>The text of an item in a pattern, and the lists of items a pattern can be written for.\<close>

fun print_item :: "format_item \<Rightarrow> string" where
  "print_item MessageItem = ''%m''" | "print_item LevelItem = ''%p''" | "print_item ElapseItem = ''%r''"
| "print_item NameItem = ''%c''" | "print_item ThreadItem = ''%t''" | "print_item FiberItem = ''%f''"
| "print_item (DateTimeItem t) = ''%d'' @ t" | "print_item FilenameItem = ''%F''" | "print_item LineItem = ''%L''"
| "print_item NewLineItem = ''%n''" | "print_item TabItem = ''%T''"
| "print_item (StringItem s) = (if s = ''%'' then ''%%'' else s)"

definition print_pattern :: "format_item list \<Rightarrow> string" where
  "print_pattern is = concat (map print_item is)"

definition literal :: "string \<Rightarrow> bool" where
  "literal s \<longleftrightarrow> s \<noteq> [] \<and> CHR ''%'' \<notin> set s"

text \<open>The list begins with text, for the second function with text that begins with a brace.\<close>

fun starts_literal :: "format_item list \<Rightarrow> bool" where
  "starts_literal (StringItem s # is) = literal s"
| "starts_literal _ = False"

fun starts_brace :: "format_item list \<Rightarrow> bool" where
  "starts_brace (StringItem s # is) = (s \<noteq> [] \<and> hd s = CHR ''{'')"
| "starts_brace _ = False"

definition time_text :: "string \<Rightarrow> bool" where
  "time_text t \<longleftrightarrow> length t \<ge> 2 \<and> hd t = CHR ''{'' \<and> last t = CHR ''}'' \<and> CHR ''}'' \<notin> set (butlast t)"

fun canonical :: "format_item list \<Rightarrow> bool" where
  "canonical [] = True"
| "canonical (StringItem s # is) = ((s = ''%'' \<or> literal s \<and> \<not> starts_literal is) \<and> canonical is)"
| "canonical (DateTimeItem t # is) = ((if t = [] then \<not> starts_brace is else time_text t) \<and> canonical is)"
| "canonical (i # is) = canonical is"

fun entry_of :: "format_item \<Rightarrow> scan_entry" where
  "entry_of MessageItem = (''m'', [], 1)" | "entry_of LevelItem = (''p'', [], 1)" | "entry_of ElapseItem = (''r'', [], 1)"
| "entry_of NameItem = (''c'', [], 1)" | "entry_of ThreadItem = (''t'', [], 1)" | "entry_of FiberItem = (''f'', [], 1)"
| "entry_of (DateTimeItem t) = (''d'', t, 1)" | "entry_of FilenameItem = (''F'', [], 1)" | "entry_of LineItem = (''L'', [], 1)"
| "entry_of NewLineItem = (''n'', [], 1)" | "entry_of TabItem = (''T'', [], 1)" | "entry_of (StringItem s) = (s, [], 0)"

lemma make_item_entry: "make_item (entry_of i) = (i, False)"
  by (cases i) (simp_all add: make_item_def find_item_def format_items_def)

definition flush :: "string \<Rightarrow> scan_entry list \<Rightarrow> scan_entry list" where
  "flush nstr vec = (if nstr \<noteq> [] then vec @ [(nstr, [], 0)] else vec)"

definition scan_finish :: "string \<times> nat \<times> scan_entry list \<Rightarrow> scan_entry list" where
  "scan_finish x = (case x of (nstr, fmt_status, vec) \<Rightarrow> if nstr \<noteq> [] then vec @ [(nstr, [], fmt_status)] else vec)"

lemma scan_text: "CHR ''%'' \<notin> set s \<Longrightarrow> scan_from (s @ r) nstr st vec = scan_from r (nstr @ s) st vec"
  by (induction s arbitrary: nstr) (auto simp: scan_from.simps(2))

lemma scan_letter:
  "isalpha e \<Longrightarrow> e \<noteq> CHR ''d'' \<Longrightarrow> scan_from (CHR ''%'' # e # r) nstr 0 vec = scan_from r [] 0 (flush nstr vec @ [([e], [], 1)])"
proof -
  assume a: "isalpha e" "e \<noteq> CHR ''d''"
  then have "e \<noteq> CHR ''%''" by (auto simp: isalpha_def)
  then show ?thesis using a by (simp add: scan_from.simps(2) [of "CHR ''%''"] flush_def)
qed

lemma scan_percent: "scan_from (CHR ''%'' # CHR ''%'' # r) nstr 0 vec = scan_from r [] 0 (flush nstr vec @ [(''%'', [], 0)])"
  by (simp add: scan_from.simps(2) [of "CHR ''%''"] flush_def)

lemma time_format_text: "CHR ''}'' \<notin> set u \<Longrightarrow> time_format True (u @ CHR ''}'' # r) = (u @ ''}'', r)"
  by (induction u) (auto simp: Let_def)

lemma time_format_time:
  assumes "time_text t"
  shows "time_format False (t @ r) = (t, r)"
proof -
  have ne: "t \<noteq> []" "tl t \<noteq> []" using assms by (cases t; force simp: time_text_def)+
  then have "t = CHR ''{'' # butlast (tl t) @ ''}''"
    using assms append_butlast_last_id [of "tl t"] by (cases t) (auto simp: time_text_def)
  then obtain u where t: "t = CHR ''{'' # u @ ''}''" by blast
  then have "CHR ''}'' \<notin> set u" using assms by (simp add: time_text_def butlast_append)
  then show ?thesis using time_format_text [of u r] by (simp add: t Let_def)
qed

lemma scan_date:
  "time_text t \<Longrightarrow> scan_from (''%d'' @ t @ r) nstr 0 vec = scan_from r [] 0 (flush nstr vec @ [(''d'', t, 1)])"
  using time_format_time [of t r] by (cases t) (auto simp: scan_from.simps(2) [of "CHR ''%''"] flush_def time_text_def)

lemma scan_date_plain:
  "r \<noteq> [] \<longrightarrow> hd r \<noteq> CHR ''{'' \<Longrightarrow> scan_from (''%d'' @ r) nstr 0 vec = scan_from r [] 0 (flush nstr vec @ [(''d'', [], 1)])"
  by (cases r) (auto simp: scan_from.simps(2) [of "CHR ''%''"] flush_def)

lemma print_head:
  assumes "canonical is" "\<not> starts_brace is" "print_pattern is \<noteq> []"
  shows "hd (print_pattern is) \<noteq> CHR ''{''"
proof (cases "is")
  case (Cons i js)
  then show ?thesis using assms
    by (cases i) (auto simp: print_pattern_def literal_def hd_append)
qed (use assms in \<open>simp add: print_pattern_def\<close>)

lemma scan_print:
  "canonical is \<Longrightarrow> (nstr \<noteq> [] \<longrightarrow> \<not> starts_literal is) \<Longrightarrow>
   scan_finish (scan_from (print_pattern is) nstr 0 vec) = flush nstr vec @ map entry_of is"
proof (induction "is" arbitrary: nstr vec)
  case Nil
  then show ?case by (simp add: print_pattern_def scan_finish_def flush_def)
next
  case (Cons i js)
  have alpha: "isalpha c" if "c \<in> set ''mprctfFLnT''" for c using that by (auto simp: isalpha_def)
  have letter: ?case if "print_item i = CHR ''%'' # [e]" "e \<in> set ''mprctfFLnT''" "entry_of i = ([e], [], 1)" "canonical js" for e
  proof -
    have "e \<noteq> CHR ''d''" using that(2) by auto
    then have "scan_from (print_pattern (i # js)) nstr 0 vec = scan_from (print_pattern js) [] 0 (flush nstr vec @ [([e], [], 1)])"
      using scan_letter [OF alpha [OF that(2)], of "print_pattern js"] that(1) by (simp add: print_pattern_def)
    then show ?thesis using Cons.IH [OF that(4), of "[]"] that(3) by (simp add: flush_def)
  qed
  show ?case
  proof (cases i)
    case (StringItem s)
    show ?thesis
    proof (cases "s = ''%''")
      case True
      then show ?thesis using StringItem Cons.prems Cons.IH [of "[]"] scan_percent [of "print_pattern js"]
        by (simp add: print_pattern_def flush_def)
    next
      case False
      then have l: "literal s" "\<not> starts_literal js" "canonical js" using Cons.prems(1) StringItem by auto
      then have n: "nstr = []" using Cons.prems(2) StringItem by auto
      then have "scan_from (print_pattern (i # js)) nstr 0 vec = scan_from (print_pattern js) s 0 vec"
        using l(1) False StringItem scan_text [of s "print_pattern js" "[]"] by (simp add: print_pattern_def literal_def)
      then show ?thesis using Cons.IH [OF l(3), of s] l(1,2) n StringItem by (simp add: flush_def literal_def)
    qed
  next
    case (DateTimeItem t)
    have js: "canonical js" using Cons.prems(1) DateTimeItem by simp
    have "scan_from (print_pattern (i # js)) nstr 0 vec = scan_from (print_pattern js) [] 0 (flush nstr vec @ [(''d'', t, 1)])"
    proof (cases "t = []")
      case True
      then have "\<not> starts_brace js" using Cons.prems(1) DateTimeItem by simp
      then show ?thesis using print_head [OF js] scan_date_plain [of "print_pattern js"] True DateTimeItem by (simp add: print_pattern_def)
    next
      case False
      then show ?thesis using scan_date [of t "print_pattern js"] Cons.prems(1) DateTimeItem by (simp add: print_pattern_def)
    qed
    then show ?thesis using Cons.IH [OF js, of "[]"] DateTimeItem by (simp add: flush_def)
  qed (use Cons.prems letter in auto)
qed

text \<open>
  A pattern written from a list of items (text without percent signs, percent signs, letters, a date with or
  without a format in braces) is translated into exactly these items, without an error.
\<close>

theorem pattern_roundtrip:
  "canonical is \<Longrightarrow> LogFormatter_new (print_pattern is) = \<lparr>m_pattern = print_pattern is, m_items = is, m_error = False\<rparr>"
proof -
  assume c: "canonical is"
  have "scan_pattern (print_pattern is) = map entry_of is"
    using scan_print [OF c, of "[]" "[]"] by (simp add: scan_pattern_def scan_finish_def flush_def Let_def split: prod.splits)
  moreover have "\<not> list_ex snd (map make_item (map entry_of is))" by (simp add: list_ex_iff make_item_entry)
  ultimately show ?thesis by (simp add: LogFormatter_new_def make_item_entry comp_def Let_def)
qed

theorem pattern_roundtrip_witness:
  "m_items (LogFormatter_new ''[%p] %d{%H:%M}%%%m%n'') =
     [StringItem ''['', LevelItem, StringItem ''] '', DateTimeItem ''{%H:%M}'', StringItem ''%'', MessageItem, NewLineItem]"
proof -
  have "canonical [StringItem ''['', LevelItem, StringItem ''] '', DateTimeItem ''{%H:%M}'', StringItem ''%'', MessageItem, NewLineItem]"
    by (simp add: literal_def time_text_def)
  from pattern_roundtrip [OF this] show ?thesis by (simp add: print_pattern_def)
qed

text \<open>An opening brace that is not closed takes the rest of the pattern with it, and no error is noted.\<close>

lemma open_brace_swallows:
  assumes "CHR ''}'' \<notin> set u"
  shows "LogFormatter_new (''%d{'' @ u) = \<lparr>m_pattern = ''%d{'' @ u, m_items = [DateTimeItem (CHR ''{'' # u)], m_error = False\<rparr>"
proof -
  have "time_format True u = (u, [])" using assms by (induction u) (auto simp: Let_def)
  then show ?thesis
    by (simp add: LogFormatter_new_def scan_pattern_def scan_from.simps(2) make_item_def find_item_def format_items_def Let_def)
qed

end
