(* ===== verification/Log_Manager.thy ===== *)
theory Log_Manager
  imports Log_Format "HOL-Library.AList"
begin

section \<open>Loggers and their manager (basic/log)\<close>

text \<open>
  Loggers are shared: other components keep the pointer that \<^verbatim>\<open>getLogger\<close> returned. They are therefore
  kept in a store, and a pointer is a number. An appender is a value with a number of its own, which stands for its
  pointer when it is removed from a logger; a null pointer is \<open>None\<close>. What a logger writes is the list of pairs of an appender and a text. A
  \<^verbatim>\<open>std::map\<close> is an association list in the order of insertion: no result depends on the order.
\<close>

datatype appender_kind = Stdout | File string bool

text \<open>A file appender remembers the name of its file and whether the stream is open.\<close>

record log_appender =
  a_id :: nat
  a_kind :: appender_kind
  a_level :: log_level
  a_formatter :: "log_formatter option"

record logger =
  l_name :: string
  l_level :: log_level
  l_appenders :: "log_appender option list"
  l_formatter :: log_formatter
  l_root :: "nat option"

definition default_pattern :: string where
  "default_pattern =
     [CHR 0xE2, CHR 0x95, CHR 0xAD, CHR 0xE2, CHR 0x94, CHR 0x80] @
     ''%d{%Y-%m-%d %H:%M:%S}%T[%p]%T[%c]%T[thread:%t fiber:%f]%T%F:%L%T%n'' @
     [CHR 0xE2, CHR 0x95, CHR 0xB0, CHR 0xE2, CHR 0x94, CHR 0x80] @ ''%m%n''"

definition Logger_new :: "string \<Rightarrow> logger" where
  "Logger_new name = \<lparr>l_name = name, l_level = INFO, l_appenders = [], l_formatter = LogFormatter_new default_pattern, l_root = None\<rparr>"

definition addAppender :: "log_appender option \<Rightarrow> logger \<Rightarrow> logger" where
  "addAppender a l = l\<lparr>l_appenders := l_appenders l @ [a]\<rparr>"

definition delAppender :: "nat option \<Rightarrow> logger \<Rightarrow> logger" where
  "delAppender i l = l\<lparr>l_appenders := filter (\<lambda>a. map_option a_id a \<noteq> i) (l_appenders l)\<rparr>"

definition clearAppenders :: "logger \<Rightarrow> logger" where
  "clearAppenders l = l\<lparr>l_appenders := []\<rparr>"

definition setFormatter :: "string \<Rightarrow> logger \<Rightarrow> logger" where
  "setFormatter pattern l =
     (let new_formatter = LogFormatter_new pattern
      in if m_error (l_formatter l) then l else l\<lparr>l_formatter := new_formatter\<rparr>)"

definition Logger_assign :: "logger \<Rightarrow> logger \<Rightarrow> logger" where
  "Logger_assign this other =
     this\<lparr>l_name := l_name other, l_level := l_level other, l_formatter := l_formatter other, l_appenders := l_appenders other\<rparr>"

subsection \<open>Writing\<close>

type_synonym log_output = "(log_appender \<times> string) list"

definition StdoutLogAppender_log :: "bool \<Rightarrow> log_level \<Rightarrow> logger \<Rightarrow> log_event \<Rightarrow> log_appender \<Rightarrow> log_output" where
  "StdoutLogAppender_log is_tty level l event a =
     (if level \<ge> a_level a
      then (case a_formatter a of
              Some f \<Rightarrow> [(a, format_event is_tty f level event)]
            | None \<Rightarrow> [(a, format_event is_tty (l_formatter l) level event)])
      else [])"

definition FileLogAppender_log :: "bool \<Rightarrow> log_level \<Rightarrow> logger \<Rightarrow> log_event \<Rightarrow> bool \<Rightarrow> log_appender \<Rightarrow> log_output" where
  "FileLogAppender_log is_tty level l event opened a =
     (if level \<ge> a_level a \<and> opened
      then (case a_formatter a of
              Some f \<Rightarrow> [(a, format_event is_tty f level event)]
            | None \<Rightarrow> [(a, format_event is_tty (l_formatter l) level event)])
      else [])"

definition appender_log :: "bool \<Rightarrow> log_level \<Rightarrow> logger \<Rightarrow> log_event \<Rightarrow> log_appender \<Rightarrow> log_output" where
  "appender_log is_tty level l event a =
     (case a_kind a of
        Stdout \<Rightarrow> StdoutLogAppender_log is_tty level l event a
      | File f opened \<Rightarrow> FileLogAppender_log is_tty level l event opened a)"

fun appenders_log :: "bool \<Rightarrow> log_level \<Rightarrow> logger \<Rightarrow> log_event \<Rightarrow> log_appender option list \<Rightarrow> failure + log_output" where
  "appenders_log is_tty level l event [] = Inr []"
| "appenders_log is_tty level l event (None # as) = Inl NullDeref"
| "appenders_log is_tty level l event (Some a # as) =
     map_sum (\<lambda>e. e) (\<lambda>out. appender_log is_tty level l event a @ out) (appenders_log is_tty level l event as)"

text \<open>\<^verbatim>\<open>Logger::log\<close> on a store; the recursion follows the chain of roots, with at most \<open>n\<close> calls.\<close>

fun Logger_log :: "nat \<Rightarrow> (nat \<Rightarrow> logger) \<Rightarrow> bool \<Rightarrow> log_level \<Rightarrow> log_event \<Rightarrow> nat \<Rightarrow> (failure + log_output) option" where
  "Logger_log 0 store is_tty level event p = None"
| "Logger_log (Suc n) store is_tty level event p =
     (let l = store p
      in if level \<ge> l_level l
         then (if l_appenders l \<noteq> [] then Some (appenders_log is_tty level l event (l_appenders l))
               else (case l_root l of None \<Rightarrow> Some (Inr []) | Some r \<Rightarrow> Logger_log n store is_tty level event r))
         else Some (Inr []))"

text \<open>The macro writes at the end of the statement, if the level of the logger allows it.\<close>

definition LOG_EVENT :: "nat \<Rightarrow> (nat \<Rightarrow> logger) \<Rightarrow> bool \<Rightarrow> log_event \<Rightarrow> nat \<Rightarrow> (failure + log_output) option" where
  "LOG_EVENT n store is_tty event p =
     (if l_level (store p) \<le> ev_level event then Logger_log n store is_tty (ev_level event) event p else Some (Inr []))"

subsection \<open>Definitions of loggers\<close>

record appender_define =
  d_type :: int
  d_level :: log_level
  d_formatter :: "log_formatter option"
  d_file :: string

record log_define =
  ld_name :: string
  ld_level :: log_level
  ld_formatter :: "log_formatter option"
  ld_appenders :: "appender_define list"

definition isValid :: "appender_define \<Rightarrow> bool" where
  "isValid d \<longleftrightarrow> d_type d = 0 \<or> d_type d = 1 \<and> d_file d \<noteq> []"

text \<open>
  \<open>opens\<close>: whether the file of this name can be opened. \<open>i\<close> is the pointer of the new appender. An unknown type
  gives a null pointer.
\<close>

definition toAppender :: "(string \<Rightarrow> bool) \<Rightarrow> nat \<Rightarrow> appender_define \<Rightarrow> log_appender option" where
  "toAppender opens i d =
     (if d_type d = 0 then Some \<lparr>a_id = i, a_kind = Stdout, a_level = d_level d, a_formatter = d_formatter d\<rparr>
      else if d_type d = 1
      then Some \<lparr>a_id = i, a_kind = File (d_file d) (opens (d_file d)), a_level = d_level d, a_formatter = d_formatter d\<rparr>
      else None)"

fun toAppenders :: "(string \<Rightarrow> bool) \<Rightarrow> nat \<Rightarrow> appender_define list \<Rightarrow> log_appender option list" where
  "toAppenders opens i [] = []"
| "toAppenders opens i (d # ds) = toAppender opens i d # toAppenders opens (i + 1) ds"

definition toLogger :: "(string \<Rightarrow> bool) \<Rightarrow> nat \<Rightarrow> log_define \<Rightarrow> logger" where
  "toLogger opens i d =
     (let l = (Logger_new (ld_name d))\<lparr>l_level := ld_level d\<rparr>; l = (case ld_formatter d of None \<Rightarrow> l | Some f \<Rightarrow> l\<lparr>l_formatter := f\<rparr>)
      in fold addAppender (toAppenders opens i (ld_appenders d)) l)"

definition appender_toDefine :: "log_appender \<Rightarrow> appender_define" where
  "appender_toDefine a =
     (case a_kind a of
        Stdout \<Rightarrow> \<lparr>d_type = 0, d_level = a_level a, d_formatter = a_formatter a, d_file = []\<rparr>
      | File f opened \<Rightarrow> \<lparr>d_type = 1, d_level = a_level a, d_formatter = a_formatter a, d_file = f\<rparr>)"

definition toDefine :: "logger \<Rightarrow> failure + log_define" where
  "toDefine l =
     (if None \<in> set (l_appenders l) then Inl NullDeref
      else Inr \<lparr>ld_name = l_name l, ld_level = l_level l, ld_formatter = Some (l_formatter l),
                 ld_appenders = map (appender_toDefine \<circ> the) (l_appenders l)\<rparr>)"

subsection \<open>The manager\<close>

record log_manager =
  m_store :: "nat \<Rightarrow> logger"
  m_next :: nat
  m_loggers :: "(string \<times> nat) list"
  m_root :: nat
  m_system :: nat

definition add_logger_object :: "logger \<Rightarrow> log_manager \<Rightarrow> nat \<times> log_manager" where
  "add_logger_object l m = (m_next m, m\<lparr>m_store := (m_store m)(m_next m := l), m_next := m_next m + 1\<rparr>)"

definition LoggerManager_new :: "(string \<Rightarrow> bool) \<Rightarrow> string \<Rightarrow> log_manager" where
  "LoggerManager_new opens dir =
     (let out = (\<lambda>i. \<lparr>a_id = i, a_kind = Stdout, a_level = UNKNOWN, a_formatter = None\<rparr>);
          log_file = dir @ ''/build/log.txt'';
          root = addAppender (Some (out 0)) (Logger_new ''root'');
          system = addAppender (Some (out 2)) (addAppender (Some \<lparr>a_id = 1, a_kind = File log_file (opens log_file), a_level = DEBUG, a_formatter = None\<rparr>) (Logger_new ''system''))
      in \<lparr>m_store = (\<lambda>p. if p = 0 then root else system), m_next = 2, m_loggers = [(''root'', 0), (''system'', 1)], m_root = 0, m_system = 1\<rparr>)"

definition getLogger :: "string \<Rightarrow> log_manager \<Rightarrow> nat \<times> log_manager" where
  "getLogger name m =
     (case map_of (m_loggers m) name of
        Some p \<Rightarrow> (p, m)
      | None \<Rightarrow>
          if name = ''system'' then (m_system m, m)
          else (let (p, m) = add_logger_object ((Logger_new name)\<lparr>l_root := Some (m_root m)\<rparr>) m
                in (p, m\<lparr>m_loggers := m_loggers m @ [(name, p)]\<rparr>)))"

text \<open>\<open>p\<close> points to a logger in the store.\<close>

definition addLogger :: "nat \<Rightarrow> log_manager \<Rightarrow> bool \<times> log_manager" where
  "addLogger p m =
     (let name = l_name (m_store m p)
      in if map_of (m_loggers m) name = None then (True, m\<lparr>m_loggers := m_loggers m @ [(name, p)]\<rparr>) else (False, m))"

definition delLogger :: "string \<Rightarrow> log_manager \<Rightarrow> int \<times> log_manager" where
  "delLogger name m =
     (if map_of (m_loggers m) name = None then (-1, m)
      else (0, m\<lparr>m_loggers := AList.delete name (m_loggers m)\<rparr>))"

definition reset_one :: "string \<times> logger \<Rightarrow> log_manager \<Rightarrow> log_manager" where
  "reset_one kl m =
     (case map_of (m_loggers m) (fst kl) of
        None \<Rightarrow> (let (p, m) = add_logger_object (snd kl) m in m\<lparr>m_loggers := m_loggers m @ [(fst kl, p)]\<rparr>)
      | Some p \<Rightarrow> m\<lparr>m_store := (m_store m)(p := Logger_assign (m_store m p) (snd kl))\<rparr>)"

definition resetLoggerWithDefines :: "(string \<times> logger) list \<Rightarrow> log_manager \<Rightarrow> log_manager" where
  "resetLoggerWithDefines new_loggers m = fold reset_one new_loggers m"

text \<open>Inserting into a \<^verbatim>\<open>std::set\<close> of definitions, which are compared by their names.\<close>

definition insert_define :: "log_define \<Rightarrow> log_define list \<Rightarrow> log_define list" where
  "insert_define d ds = (if ld_name d \<in> ld_name ` set ds then ds else ds @ [d])"

fun collect_defines :: "logger list \<Rightarrow> log_define list \<Rightarrow> failure + log_define list" where
  "collect_defines [] ds = Inr ds"
| "collect_defines (l # ls) ds = (case toDefine l of Inl e \<Rightarrow> Inl e | Inr d \<Rightarrow> collect_defines ls (insert_define d ds))"

definition toDefines :: "log_manager \<Rightarrow> failure + log_define list" where
  "toDefines m = collect_defines (map (\<lambda>(k, p). m_store m p) (m_loggers m)) []"

text \<open>\<open>base\<close> is a number above the pointers of all appenders there are.\<close>

fun toLoggers :: "(string \<Rightarrow> bool) \<Rightarrow> nat \<Rightarrow> log_define list \<Rightarrow> (string \<times> logger) list \<Rightarrow> (string \<times> logger) list" where
  "toLoggers opens base [] new_loggers = new_loggers"
| "toLoggers opens base (d # ds) new_loggers =
     (let l = toLogger opens base d
      in toLoggers opens (base + length (ld_appenders d)) ds (AList.update (l_name l) l new_loggers))"

definition updataLogger :: "(string \<Rightarrow> bool) \<Rightarrow> nat \<Rightarrow> log_define list \<Rightarrow> log_manager \<Rightarrow> log_manager" where
  "updataLogger opens base defs m = resetLoggerWithDefines (toLoggers opens base defs []) m"


section \<open>The invariant of the manager\<close>

definition mgr_inv :: "log_manager \<Rightarrow> bool" where
  "mgr_inv m \<longleftrightarrow> distinct (map fst (m_loggers m))
     \<and> (\<forall>(k, p) \<in> set (m_loggers m). p < m_next m \<and> l_name (m_store m p) = k)
     \<and> m_root m < m_next m \<and> m_system m < m_next m \<and> l_root (m_store m (m_root m)) = None
     \<and> (\<forall>p < m_next m. l_root (m_store m p) = None \<or> l_root (m_store m p) = Some (m_root m))"

lemma mgr_inv_reg: "mgr_inv m \<Longrightarrow> (k, p) \<in> set (m_loggers m) \<Longrightarrow> p < m_next m \<and> l_name (m_store m p) = k"
  unfolding mgr_inv_def by blast

lemma mgr_inv_new: "mgr_inv (LoggerManager_new opens dir)"
  by (auto simp: mgr_inv_def LoggerManager_new_def Let_def addAppender_def Logger_new_def)

lemma add_logger_object_inv:
  assumes "mgr_inv m" "l_name l = k" "l_root l = None \<or> l_root l = Some (m_root m)" "map_of (m_loggers m) k = None"
    "add_logger_object l m = (p, m1)"
  shows "mgr_inv (m1\<lparr>m_loggers := m_loggers m1 @ [(k, p)]\<rparr>)" "p = m_next m" "m_loggers m1 = m_loggers m"
    "\<forall>q < m_next m. m_store m1 q = m_store m q" "m_next m1 = m_next m + 1" "m_store m1 p = l"
  using assms by (auto simp: mgr_inv_def add_logger_object_def map_of_eq_None_iff less_Suc_eq) blast+

lemma getLogger_inv: "mgr_inv m \<Longrightarrow> mgr_inv (snd (getLogger name m))"
proof -
  assume i: "mgr_inv m"
  show ?thesis
  proof (cases "map_of (m_loggers m) name")
    case None
    obtain p m1 where a: "add_logger_object ((Logger_new name)\<lparr>l_root := Some (m_root m)\<rparr>) m = (p, m1)" by fastforce
    have "l_name ((Logger_new name)\<lparr>l_root := Some (m_root m)\<rparr>) = name" by (simp add: Logger_new_def)
    from add_logger_object_inv(1) [OF i this _ None a] show ?thesis using None a i by (simp add: getLogger_def)
  qed (use i in \<open>simp add: getLogger_def\<close>)
qed

definition fresh_config :: "string \<times> logger \<Rightarrow> bool" where
  "fresh_config kl \<longleftrightarrow> l_name (snd kl) = fst kl \<and> l_root (snd kl) = None"

lemma reset_one_inv:
  assumes "mgr_inv m" "fresh_config kl"
  shows "mgr_inv (reset_one kl m)"
proof (cases "map_of (m_loggers m) (fst kl)")
  case None
  obtain p m1 where a: "add_logger_object (snd kl) m = (p, m1)" by fastforce
  from add_logger_object_inv(1) [OF assms(1) _ _ None a] show ?thesis using None a assms(2) by (simp add: reset_one_def fresh_config_def)
next
  case (Some q)
  have q: "(fst kl, q) \<in> set (m_loggers m)" by (rule map_of_SomeD [OF Some])
  let ?st = "(m_store m)(q := Logger_assign (m_store m q) (snd kl))"
  have a: "l_root (Logger_assign x y) = l_root x" "l_name (Logger_assign x y) = l_name y" for x y by (simp_all add: Logger_assign_def)
  have "p < m_next m \<and> l_name (?st p) = k" if "(k, p) \<in> set (m_loggers m)" for k p
    using mgr_inv_reg [OF assms(1) that] mgr_inv_reg [OF assms(1) q] assms(2) a by (cases "p = q") (auto simp: fresh_config_def)
  moreover have "l_root (?st p) = l_root (m_store m p)" for p using a by simp
  ultimately show ?thesis using Some assms(1) unfolding mgr_inv_def reset_one_def by (simp del: fun_upd_apply) blast
qed

lemma fold_addAppender: "fold addAppender as l = l\<lparr>l_appenders := l_appenders l @ as\<rparr>"
  by (induction as arbitrary: l) (simp_all add: addAppender_def)

lemma toLogger_simps:
  "l_name (toLogger opens i d) = ld_name d" "l_level (toLogger opens i d) = ld_level d" "l_root (toLogger opens i d) = None"
  "l_appenders (toLogger opens i d) = toAppenders opens i (ld_appenders d)"
  "l_formatter (toLogger opens i d) = (case ld_formatter d of None \<Rightarrow> LogFormatter_new default_pattern | Some f \<Rightarrow> f)"
  by (auto simp: toLogger_def fold_addAppender Logger_new_def Let_def split: option.splits)

lemma set_update_subset: "x \<in> set (AList.update k v al) \<Longrightarrow> x = (k, v) \<or> x \<in> set al"
  by (induction al) (auto split: if_splits)

lemma toLoggers_fresh: "\<forall>kl \<in> set new. fresh_config kl \<Longrightarrow> kl \<in> set (toLoggers opens base ds new) \<Longrightarrow> fresh_config kl"
proof (induction opens base ds new rule: toLoggers.induct)
  case (2 opens base d ds new)
  let ?l = "toLogger opens base d"
  have "\<forall>kl \<in> set (AList.update (l_name ?l) ?l new). fresh_config kl"
    using 2(2) set_update_subset by (fastforce simp: fresh_config_def toLogger_simps)
  then show ?case using 2(1) [OF refl] 2(3) by (simp add: Let_def)
qed simp

lemma reset_inv: "mgr_inv m \<Longrightarrow> \<forall>kl \<in> set ls. fresh_config kl \<Longrightarrow> mgr_inv (resetLoggerWithDefines ls m)"
  unfolding resetLoggerWithDefines_def by (induction ls arbitrary: m) (simp_all add: reset_one_inv)

lemma updataLogger_inv: "mgr_inv m \<Longrightarrow> mgr_inv (updataLogger opens base ds m)"
  unfolding updataLogger_def using toLoggers_fresh [of "[]"] by (intro reset_inv) auto

text \<open>The operations of the manager, as other components call them.\<close>

datatype log_op = Get string | Add nat | Del string | Update "string \<Rightarrow> bool" nat "log_define list"

fun log_step :: "log_op \<Rightarrow> log_manager \<Rightarrow> log_manager" where
  "log_step (Get name) m = snd (getLogger name m)"
| "log_step (Add p) m = (if p < m_next m then snd (addLogger p m) else m)"
| "log_step (Del name) m = snd (delLogger name m)"
| "log_step (Update opens base ds) m = updataLogger opens base ds m"

lemma delLogger_inv: "mgr_inv m \<Longrightarrow> mgr_inv (snd (delLogger name m))"
proof -
  assume i: "mgr_inv m"
  have "set (AList.delete name (m_loggers m)) \<subseteq> set (m_loggers m)" by (auto simp: AList.delete_eq)
  then show ?thesis using i AList.distinct_delete [of "m_loggers m" name] by (auto simp: mgr_inv_def delLogger_def)
qed

lemma addLogger_inv: "mgr_inv m \<Longrightarrow> p < m_next m \<Longrightarrow> mgr_inv (snd (addLogger p m))"
  by (auto simp: mgr_inv_def addLogger_def Let_def map_of_eq_None_iff)

lemma log_step_inv: "mgr_inv m \<Longrightarrow> mgr_inv (log_step op m)"
  by (cases op) (simp_all add: getLogger_inv addLogger_inv delLogger_inv updataLogger_inv)

lemma log_run_inv: "mgr_inv m \<Longrightarrow> mgr_inv (fold log_step ops m)"
  by (induction ops arbitrary: m) (simp_all add: log_step_inv)

subsection \<open>Pointers stay valid\<close>

lemma reset_one_keeps:
  assumes "map_of (m_loggers m) name = Some p"
  shows "map_of (m_loggers (reset_one kl m)) name = Some p"
  using assms by (auto simp: reset_one_def add_logger_object_def map_add_Some_iff map_of_append split: option.splits)

lemma log_step_keeps:
  assumes "map_of (m_loggers m) name = Some p" "op \<noteq> Del name"
  shows "map_of (m_loggers (log_step op m)) name = Some p"
proof (cases op)
  case (Update opens base ds)
  have "map_of (m_loggers (fold reset_one ls m)) name = Some p" for ls
    using assms(1) by (induction ls arbitrary: m) (simp_all add: reset_one_keeps)
  then show ?thesis using Update by (simp add: updataLogger_def resetLoggerWithDefines_def)
qed (use assms in \<open>auto simp: getLogger_def addLogger_def delLogger_def add_logger_object_def Let_def map_add_Some_iff delete_conv' split: option.splits\<close>)

text \<open>
  A pointer that \<^verbatim>\<open>getLogger\<close> returned stays the one it returns for this name, whatever loggers are added, removed or
  configured anew, as long as this one is not removed; the names of the registered loggers are the keys they are
  registered under; and logging through any logger ends after at most two calls of \<^verbatim>\<open>Logger::log\<close>.
\<close>

theorem logger_pointers_stable:
  assumes "name \<noteq> ''system''" "Del name \<notin> set ops2"
  shows "let m1 = fold log_step ops1 (LoggerManager_new opens dir); (p, m2) = getLogger name m1; m3 = fold log_step ops2 m2
    in fst (getLogger name m3) = p \<and> l_name (m_store m3 p) = name
      \<and> (\<forall>q < m_next m3. Logger_log 2 (m_store m3) is_tty level event q \<noteq> None)"
proof -
  define m1 where "m1 = fold log_step ops1 (LoggerManager_new opens dir)"
  obtain p m2 where g: "getLogger name m1 = (p, m2)" by fastforce
  define m3 where "m3 = fold log_step ops2 m2"
  have i1: "mgr_inv m1" unfolding m1_def by (rule log_run_inv [OF mgr_inv_new])
  have i3: "mgr_inv m3" unfolding m3_def using log_run_inv getLogger_inv [OF i1, of name] g by simp
  have "map_of (m_loggers m2) name = Some p"
    using g assms(1) by (auto simp: getLogger_def add_logger_object_def Let_def map_of_append map_add_def split: option.splits)
  then have k: "map_of (m_loggers m3) name = Some p"
    unfolding m3_def using assms(2) by (induction ops2 arbitrary: m2) (auto simp: log_step_keeps)
  then have "l_name (m_store m3 p) = name" using i3 by (auto simp: mgr_inv_def dest!: map_of_SomeD)
  moreover have "Logger_log 2 (m_store m3) is_tty level event q \<noteq> None" if "q < m_next m3" for q
  proof -
    have "l_root (m_store m3 q) = None \<or> l_root (m_store m3 q) = Some (m_root m3)" "l_root (m_store m3 (m_root m3)) = None"
      using i3 that by (simp_all add: mgr_inv_def)
    then show ?thesis by (auto simp: numeral_2_eq_2 Let_def)
  qed
  ultimately show ?thesis using g k by (simp add: m1_def [symmetric] m3_def [symmetric] getLogger_def)
qed

theorem logger_pointers_stable_witness:
  "let m1 = fold log_step [] (LoggerManager_new (\<lambda>f. True) ''/x''); (p, m2) = getLogger ''http'' m1; m3 = fold log_step [Get ''db'', Del ''root''] m2
   in fst (getLogger ''http'' m3) = p"
  using logger_pointers_stable [of "''http''" "[Get ''db'', Del ''root'']" "[]" "\<lambda>f. True" "''/x''"]
  by (simp add: Let_def split_beta)

subsection \<open>Configuring loggers\<close>

text \<open>Definitions that can be turned into appenders: a known type, and a file name exactly for files.\<close>

definition appender_ok :: "appender_define \<Rightarrow> bool" where
  "appender_ok d \<longleftrightarrow> d_type d = 0 \<and> d_file d = [] \<or> d_type d = 1"

lemma toAppenders_back:
  "list_all appender_ok ds \<Longrightarrow> None \<notin> set (toAppenders opens i ds) \<and> map (appender_toDefine \<circ> the) (toAppenders opens i ds) = ds"
proof (induction ds arbitrary: i)
  case (Cons d ds)
  obtain a where "toAppender opens i d = Some a" "appender_toDefine a = d"
    using Cons.prems by (cases d) (auto simp: appender_ok_def toAppender_def appender_toDefine_def)
  then show ?case using Cons.IH [of "i + 1"] Cons.prems by (simp add: comp_def)
qed simp

text \<open>What a definition says, with the default formatter where it names none.\<close>

definition completed :: "log_define \<Rightarrow> log_define" where
  "completed d = d\<lparr>ld_formatter := Some (case ld_formatter d of None \<Rightarrow> LogFormatter_new default_pattern | Some f \<Rightarrow> f)\<rparr>"

lemma toDefine_toLogger: "list_all appender_ok (ld_appenders d) \<Longrightarrow> toDefine (toLogger opens i d) = Inr (completed d)"
  using toAppenders_back [of "ld_appenders d" opens i] by (simp add: toDefine_def toLogger_simps completed_def)

lemma toDefine_assign: "toDefine (Logger_assign l l') = toDefine l'"
  by (simp add: toDefine_def Logger_assign_def)

lemma update_new: "k \<notin> fst ` set al \<Longrightarrow> AList.update k v al = al @ [(k, v)]"
  by (induction al) auto

text \<open>The loggers made of a list of definitions with different names.\<close>

lemma toLoggers_list:
  "distinct (map ld_name ds) \<Longrightarrow> fst ` set new \<inter> ld_name ` set ds = {} \<Longrightarrow> list_all (\<lambda>d. list_all appender_ok (ld_appenders d)) ds \<Longrightarrow>
   \<exists>ls. toLoggers opens base ds new = new @ ls \<and> map fst ls = map ld_name ds \<and> map (toDefine \<circ> snd) ls = map (Inr \<circ> completed) ds"
proof (induction ds arbitrary: base new)
  case (Cons d ds)
  let ?l = "toLogger opens base d"
  have "AList.update (l_name ?l) ?l new = new @ [(ld_name d, ?l)]" using Cons.prems(2) by (simp add: toLogger_simps update_new)
  moreover obtain ls where "toLoggers opens (base + length (ld_appenders d)) ds (new @ [(ld_name d, ?l)]) = (new @ [(ld_name d, ?l)]) @ ls"
      "map fst ls = map ld_name ds" "map (toDefine \<circ> snd) ls = map (Inr \<circ> completed) ds"
    using Cons.IH [of "new @ [(ld_name d, ?l)]" "base + length (ld_appenders d)"] Cons.prems by (auto simp: comp_def)
  ultimately show ?case using Cons.prems(3) toDefine_toLogger [of d opens base] by (intro exI [of _ "(ld_name d, ?l) # ls"]) (simp add: Let_def comp_def)
qed simp

lemma reset_one_config:
  assumes "mgr_inv m" "fresh_config (k, l)"
  shows "\<exists>p. map_of (m_loggers (reset_one (k, l) m)) k = Some p \<and> toDefine (m_store (reset_one (k, l) m) p) = toDefine l"
    and "k' \<noteq> k \<Longrightarrow> map_of (m_loggers m) k' = Some p' \<Longrightarrow> m_store (reset_one (k, l) m) p' = m_store m p'"
proof -
  have reg: "map_of (m_loggers m) k' = Some p' \<Longrightarrow> p' < m_next m \<and> l_name (m_store m p') = k'" for k' p'
    using mgr_inv_reg [OF assms(1)] map_of_SomeD by metis
  show "\<exists>p. map_of (m_loggers (reset_one (k, l) m)) k = Some p \<and> toDefine (m_store (reset_one (k, l) m) p) = toDefine l"
    by (cases "map_of (m_loggers m) k") (auto simp: reset_one_def add_logger_object_def map_of_append map_add_def toDefine_assign)
  show "m_store (reset_one (k, l) m) p' = m_store m p'" if "k' \<noteq> k" "map_of (m_loggers m) k' = Some p'"
    using that reg [of k' p'] reg [of k] by (cases "map_of (m_loggers m) k") (auto simp: reset_one_def add_logger_object_def)
qed

text \<open>Configuring does not change a logger whose name is not among the definitions.\<close>

lemma reset_others:
  "mgr_inv m \<Longrightarrow> \<forall>kl \<in> set ls. fresh_config kl \<Longrightarrow> name \<notin> fst ` set ls \<Longrightarrow> map_of (m_loggers m) name = Some p \<Longrightarrow>
   map_of (m_loggers (fold reset_one ls m)) name = Some p \<and> m_store (fold reset_one ls m) p = m_store m p"
proof (induction ls arbitrary: m)
  case (Cons kl ls)
  have "m_store (reset_one kl m) p = m_store m p"
    using reset_one_config(2) [of m "fst kl" "snd kl" name p] Cons.prems by auto
  then show ?case using Cons.IH [of "reset_one kl m"] Cons.prems reset_one_inv [of m kl] reset_one_keeps [of m name p kl] by auto
qed simp

lemma reset_configures:
  "mgr_inv m \<Longrightarrow> \<forall>kl \<in> set ls. fresh_config kl \<Longrightarrow> distinct (map fst ls) \<Longrightarrow> (name, l) \<in> set ls \<Longrightarrow>
   \<exists>p. map_of (m_loggers (fold reset_one ls m)) name = Some p \<and> toDefine (m_store (fold reset_one ls m) p) = toDefine l"
proof (induction ls arbitrary: m)
  case (Cons kl ls)
  let ?m = "reset_one kl m"
  have i: "mgr_inv ?m" using reset_one_inv Cons.prems by auto
  show ?case
  proof (cases "kl = (name, l)")
    case True
    obtain p where p: "map_of (m_loggers ?m) name = Some p" "toDefine (m_store ?m p) = toDefine l"
      using reset_one_config(1) [of m name l] Cons.prems True by auto
    have "name \<notin> fst ` set ls" using Cons.prems(3) True by auto
    then show ?thesis using reset_others [OF i _ _ p(1), of ls] Cons.prems(2) p by auto
  next
    case False
    then show ?thesis using Cons.IH [OF i] Cons.prems by auto
  qed
qed simp

lemma configured_parts:
  assumes "mgr_inv m" "distinct (map ld_name ds)" "list_all (\<lambda>d. list_all appender_ok (ld_appenders d)) ds"
  shows "(d \<in> set ds \<longrightarrow> (\<exists>p. map_of (m_loggers (updataLogger opens base ds m)) (ld_name d) = Some p
           \<and> (\<forall>q. map_of (m_loggers m) (ld_name d) = Some q \<longrightarrow> p = q)
           \<and> toDefine (m_store (updataLogger opens base ds m) p) = Inr (completed d)))
    \<and> (map_of (m_loggers m) name = Some p \<and> name \<notin> ld_name ` set ds \<longrightarrow>
         map_of (m_loggers (updataLogger opens base ds m)) name = Some p \<and> m_store (updataLogger opens base ds m) p = m_store m p)"
proof -
  obtain ls where ls: "toLoggers opens base ds [] = ls" "map fst ls = map ld_name ds" "map (toDefine \<circ> snd) ls = map (Inr \<circ> completed) ds"
    using toLoggers_list [OF assms(2) _ assms(3), of "[]"] by auto
  have f: "\<forall>kl \<in> set ls. fresh_config kl" using toLoggers_fresh [of "[]" _ opens base ds] ls(1) by auto
  have u: "updataLogger opens base ds m = fold reset_one ls m" by (simp add: updataLogger_def resetLoggerWithDefines_def ls(1))
  have "\<exists>p. map_of (m_loggers (fold reset_one ls m)) (ld_name d) = Some p \<and> (\<forall>q. map_of (m_loggers m) (ld_name d) = Some q \<longrightarrow> p = q)
      \<and> toDefine (m_store (fold reset_one ls m) p) = Inr (completed d)" if d: "d \<in> set ds"
  proof -
    obtain i where i: "i < length ds" "ds ! i = d" using d by (auto simp: in_set_conv_nth)
    have len: "length ls = length ds" using arg_cong [OF ls(2), of length] by simp
    have n: "fst (ls ! i) = ld_name d" "toDefine (snd (ls ! i)) = Inr (completed d)"
      using arg_cong [OF ls(2), of "\<lambda>x. x ! i"] arg_cong [OF ls(3), of "\<lambda>x. x ! i"] i len by simp_all
    then have "(ld_name d, snd (ls ! i)) \<in> set ls" using i len nth_mem [of i ls] by (metis prod.collapse)
    from reset_configures [OF assms(1) f _ this] obtain p where
      p: "map_of (m_loggers (fold reset_one ls m)) (ld_name d) = Some p" "toDefine (m_store (fold reset_one ls m) p) = Inr (completed d)"
      using ls(2) assms(2) n(2) by auto
    have "map_of (m_loggers (fold reset_one ls m)) (ld_name d) = Some q" if "map_of (m_loggers m) (ld_name d) = Some q" for q
      using that by (induction ls arbitrary: m) (simp_all add: reset_one_keeps)
    then show ?thesis using p by auto
  qed
  moreover have "name \<notin> ld_name ` set ds \<Longrightarrow> name \<notin> fst ` set ls" using arg_cong [OF ls(2), of set] by simp
  ultimately show ?thesis using reset_others [OF assms(1) f] by (auto simp: u)
qed

text \<open>
  Configuring the loggers with a list of definitions with different names and known appender types makes every
  named logger exactly what its definition says, also for those who already hold a pointer to it, and leaves every other
  registered logger as it was.
\<close>

theorem loggers_configured:
  assumes "mgr_inv m" "distinct (map ld_name ds)" "list_all (\<lambda>d. list_all appender_ok (ld_appenders d)) ds"
  shows "(d \<in> set ds \<longrightarrow> (\<exists>p. map_of (m_loggers (updataLogger opens base ds m)) (ld_name d) = Some p
           \<and> (\<forall>q. map_of (m_loggers m) (ld_name d) = Some q \<longrightarrow> p = q)
           \<and> toDefine (m_store (updataLogger opens base ds m) p) = Inr (completed d)))
    \<and> (map_of (m_loggers m) name = Some p \<and> name \<notin> ld_name ` set ds \<longrightarrow>
         map_of (m_loggers (updataLogger opens base ds m)) name = Some p \<and> m_store (updataLogger opens base ds m) p = m_store m p)"
  by (rule configured_parts [OF assms])

theorem loggers_configured_witness:
  "\<exists>p. map_of (m_loggers (updataLogger (\<lambda>f. True) 9 [\<lparr>ld_name = ''root'', ld_level = FATAL, ld_formatter = None, ld_appenders = []\<rparr>]
         (LoggerManager_new (\<lambda>f. True) ''/x''))) ''root'' = Some p
     \<and> toDefine (m_store (updataLogger (\<lambda>f. True) 9 [\<lparr>ld_name = ''root'', ld_level = FATAL, ld_formatter = None, ld_appenders = []\<rparr>]
         (LoggerManager_new (\<lambda>f. True) ''/x'')) p) = Inr (completed \<lparr>ld_name = ''root'', ld_level = FATAL, ld_formatter = None, ld_appenders = []\<rparr>)"
  using loggers_configured [OF mgr_inv_new, where ds = "[\<lparr>ld_name = ''root'', ld_level = FATAL, ld_formatter = None, ld_appenders = []\<rparr>]"
      and d = "\<lparr>ld_name = ''root'', ld_level = FATAL, ld_formatter = None, ld_appenders = []\<rparr>"] by fastforce

subsection \<open>Definitions of the loggers there are\<close>

lemma collect_same: "map toDefine ls = map toDefine ls' \<Longrightarrow> collect_defines ls ds = collect_defines ls' ds"
proof (induction ls arbitrary: ls' ds)
  case (Cons l ls)
  then obtain l2 ls2 where "ls' = l2 # ls2" "toDefine l2 = toDefine l" "map toDefine ls = map toDefine ls2" by (cases ls') auto
  then show ?case using Cons.IH [of ls2] by (simp split: sum.splits)
qed simp

lemma toDefine_name: "toDefine l = Inr d \<Longrightarrow> ld_name d = l_name l"
  by (auto simp: toDefine_def split: if_splits)

lemma collect_list:
  "collect_defines ls acc = Inr ds \<Longrightarrow> distinct (map l_name ls) \<Longrightarrow> ld_name ` set acc \<inter> l_name ` set ls = {} \<Longrightarrow>
   \<exists>ds'. ds = acc @ ds' \<and> map Inr ds' = map toDefine ls"
proof (induction ls arbitrary: acc)
  case (Cons l ls)
  then obtain d where d: "toDefine l = Inr d" "collect_defines ls (insert_define d acc) = Inr ds" by (auto split: sum.splits)
  have "insert_define d acc = acc @ [d]" using Cons.prems(3) toDefine_name [OF d(1)] by (auto simp: insert_define_def)
  then obtain ds' where "ds = (acc @ [d]) @ ds'" "map Inr ds' = map toDefine ls"
    using Cons.IH [of "acc @ [d]"] d(2) Cons.prems toDefine_name [OF d(1)] by auto
  then show ?case using d(1) by (intro exI [of _ "d # ds'"]) simp
qed simp

lemma toDefine_complete: "toDefine l = Inr d \<Longrightarrow> completed d = d \<and> list_all appender_ok (ld_appenders d)"
  by (auto simp: toDefine_def completed_def list_all_iff appender_ok_def appender_toDefine_def split: if_splits appender_kind.splits)

lemma registered_names: "mgr_inv m \<Longrightarrow> map l_name (map (\<lambda>(k, p). m_store m p) (m_loggers m)) = map fst (m_loggers m)"
  using mgr_inv_reg [of m] by (auto intro!: map_cong)

text \<open>
  Writing out the definitions of all loggers and configuring the loggers with them changes nothing: the same
  definitions are written out afterwards.
\<close>

theorem defines_roundtrip:
  assumes "mgr_inv m" "toDefines m = Inr ds"
  shows "toDefines (updataLogger opens base ds m) = Inr ds"
proof -
  let ?ls = "map (\<lambda>(k, p). m_store m p) (m_loggers m)" and ?m = "updataLogger opens base ds m"
  have names: "map l_name ?ls = map fst (m_loggers m)" by (rule registered_names [OF assms(1)])
  then have dist: "distinct (map l_name ?ls)" using assms(1) by (simp only: mgr_inv_def)
  obtain ds' where "ds = [] @ ds'" and ds: "map Inr ds' = map toDefine ?ls"
    using collect_list [OF assms(2) [unfolded toDefines_def] dist] by auto
  then have e: "map Inr ds = map toDefine ?ls" by simp
  have len: "length ds = length (m_loggers m)" using arg_cong [OF e, of length] by simp
  have at: "toDefine (m_store m (snd (m_loggers m ! i))) = Inr (ds ! i)" if "i < length ds" for i
    using arg_cong [OF e, of "\<lambda>x. x ! i"] that len by (simp add: split_beta)
  have nm: "map ld_name ds = map fst (m_loggers m)"
  proof (rule nth_equalityI)
    fix i assume i: "i < length (map ld_name ds)"
    have "ld_name (ds ! i) = l_name (m_store m (snd (m_loggers m ! i)))" using toDefine_name [OF at] i by simp
    also have "\<dots> = fst (m_loggers m ! i)" using arg_cong [OF names, of "\<lambda>x. x ! i"] i len by (simp add: split_beta)
    finally show "map ld_name ds ! i = map fst (m_loggers m) ! i" using i len by simp
  qed (simp add: len)
  have dd: "distinct (map ld_name ds)" using assms(1) nm by (simp add: mgr_inv_def)
  have ok: "completed d = d \<and> list_all appender_ok (ld_appenders d)" if "d \<in> set ds" for d
    using that at toDefine_complete by (metis in_set_conv_nth)
  then have ok2: "list_all (\<lambda>d. list_all appender_ok (ld_appenders d)) ds" by (simp add: list_all_iff)
  have same: "m_loggers ?m = m_loggers m"
  proof -
    have "m_loggers (fold reset_one ls m) = m_loggers m" if "fst ` set ls \<subseteq> fst ` set (m_loggers m)" for ls
      using that
    proof (induction ls arbitrary: m)
      case (Cons kl ls)
      obtain p where "map_of (m_loggers m) (fst kl) = Some p" using Cons.prems by (cases "map_of (m_loggers m) (fst kl)") (auto simp: map_of_eq_None_iff)
      then have "m_loggers (reset_one kl m) = m_loggers m" by (simp add: reset_one_def)
      then show ?case using Cons by simp
    qed simp
    moreover obtain ls where "toLoggers opens base ds [] = ls" "map fst ls = map ld_name ds"
      using toLoggers_list [OF dd _ ok2, of "[]"] by auto
    moreover from this have "fst ` set ls = fst ` set (m_loggers m)" using nm by (metis list.set_map)
    ultimately show ?thesis by (simp add: updataLogger_def resetLoggerWithDefines_def)
  qed
  have "toDefine (m_store ?m (snd (m_loggers m ! i))) = toDefine (m_store m (snd (m_loggers m ! i)))" if i: "i < length ds" for i
  proof -
    have k: "map_of (m_loggers m) (ld_name (ds ! i)) = Some (snd (m_loggers m ! i))"
      using arg_cong [OF nm, of "\<lambda>x. x ! i"] i len assms(1) by (intro map_of_is_SomeI) (auto simp: mgr_inv_def)
    from configured_parts [OF assms(1) dd ok2, of "ds ! i"] i k obtain p where
      "map_of (m_loggers ?m) (ld_name (ds ! i)) = Some p" "toDefine (m_store ?m p) = Inr (completed (ds ! i))" by auto
    then show ?thesis using k same ok [of "ds ! i"] at [OF i] i by simp
  qed
  then have "map toDefine (map (\<lambda>(k, p). m_store ?m p) (m_loggers m)) = map toDefine ?ls"
    using len by (intro nth_equalityI) (auto simp: split_beta)
  then have "toDefines ?m = toDefines m" unfolding toDefines_def same by (rule collect_same)
  then show ?thesis using assms(2) by simp
qed

theorem defines_roundtrip_witness:
  "\<exists>ds. toDefines (LoggerManager_new (\<lambda>f. True) ''/x'') = Inr ds \<and> map ld_name ds = [''root'', ''system'']
     \<and> toDefines (updataLogger (\<lambda>f. True) 9 ds (LoggerManager_new (\<lambda>f. True) ''/x'')) = Inr ds"
proof -
  obtain ds where d: "toDefines (LoggerManager_new (\<lambda>f. True) ''/x'') = Inr ds" "map ld_name ds = [''root'', ''system'']"
    by (simp add: toDefines_def LoggerManager_new_def Let_def addAppender_def Logger_new_def toDefine_def insert_define_def)
  show ?thesis using d defines_roundtrip [OF mgr_inv_new d(1), of "\<lambda>f. True" 9] by (intro exI [of _ ds]) simp
qed

text \<open>
  \<^verbatim>\<open>Logger::setFormatter\<close> tests the formatter the logger has instead of the new one: a pattern with an error is
  accepted, and from then on every other pattern is refused.
\<close>

theorem bad_pattern_stays:
  assumes "\<not> m_error (l_formatter l)" "m_error (LogFormatter_new bad)"
  shows "l_formatter (setFormatter bad l) = LogFormatter_new bad \<and> setFormatter p (setFormatter bad l) = setFormatter bad l"
  using assms by (simp add: setFormatter_def)

theorem bad_pattern_stays_witness:
  "setFormatter ''%p'' (setFormatter ''%q'' ((Logger_new ''a'')\<lparr>l_formatter := LogFormatter_new ''%m''\<rparr>))
     = setFormatter ''%q'' ((Logger_new ''a'')\<lparr>l_formatter := LogFormatter_new ''%m''\<rparr>)"
proof -
  have "\<not> m_error (LogFormatter_new ''%m'')" "m_error (LogFormatter_new ''%q'')"
    by (simp_all add: LogFormatter_new_def scan_pattern_def scan_from.simps(2) make_item_def find_item_def format_items_def isalpha_def Let_def)
  then show ?thesis using bad_pattern_stays [of "(Logger_new ''a'')\<lparr>l_formatter := LogFormatter_new ''%m''\<rparr>" "''%q''" "''%p''"] by simp
qed

end
