(* ===== verification/Config.thy ===== *)
theory Config
  imports Strings
begin

section \<open>Configuration (basic/config)\<close>

text \<open>
  The JSON values are those of the package nlohmann/json: their type and the operations used are
  parameters. \<open>j_index\<close> is \<open>None\<close> where the package throws a type error. A configuration variable is known by the
  key of its listener; its value type is the parameter \<open>'v\<close>, its conversion from JSON a field. Calls of the callbacks of
  users are recorded with the key and the value.
\<close>

record 'j json_ops =
  j_null :: 'j
  j_clear :: "'j \<Rightarrow> 'j"
  j_size :: "'j \<Rightarrow> nat"
  j_index :: "'j \<Rightarrow> nat \<Rightarrow> 'j option"
  j_find :: "'j \<Rightarrow> string \<Rightarrow> 'j option"

subsection \<open>Paths\<close>

text \<open>\<^verbatim>\<open>std::stoi\<close> on a string that begins with a digit.\<close>

definition stoi :: "string \<Rightarrow> failure + nat" where
  "stoi s = (let n = digits_value (takeWhile digit s) in if n \<ge> 2 ^ 31 then Inl (Thrown ''stoi'') else Inr n)"

text \<open>One component of a path; \<open>None\<close> is the result \<open>-1\<close>.\<close>

definition json_step :: "'j json_ops \<Rightarrow> 'j \<Rightarrow> string \<Rightarrow> failure + 'j option" where
  "json_step ops node key =
     (if key \<noteq> [] \<and> digit (hd key)
      then (case stoi key of
              Inl e \<Rightarrow> Inl e
            | Inr idx \<Rightarrow>
                if idx \<ge> j_size ops node then Inr None
                else (case j_index ops node idx of None \<Rightarrow> Inl (Thrown ''type_error'') | Some x \<Rightarrow> Inr (Some x)))
      else Inr (j_find ops node key))"

function getJsonValueByPath :: "'j json_ops \<Rightarrow> 'j \<Rightarrow> string \<Rightarrow> failure + 'j option" where
  "getJsonValueByPath ops node path =
     (case find_in ''.'' path of
        None \<Rightarrow> json_step ops node path
      | Some k \<Rightarrow>
          (case json_step ops node (take k path) of
             Inl e \<Rightarrow> Inl e
           | Inr None \<Rightarrow> Inr None
           | Inr (Some x) \<Rightarrow> getJsonValueByPath ops x (drop (k + 1) path)))"
  by pat_completeness auto
termination
proof (relation "measure (\<lambda>(ops, node, path). length path)")
  fix ops :: "'j json_ops" and node x2b and path :: string and k x2 x2a
  assume "find_in ''.'' path = Some k"
  from find_in_bound [OF this] show "((ops, x2b, drop (k + 1) path), ops, node, path) \<in> measure (\<lambda>(ops, node, path). length path)" by simp
qed simp

declare getJsonValueByPath.simps [simp del]

subsection \<open>Variables and their listeners (ConfigVar, ConfigData)\<close>

record ('j, 'v) config_var =
  cv_path :: string
  cv_conv :: "'j \<Rightarrow> failure + 'v"
  cv_val :: 'v
  cv_cb :: bool

record ('j, 'v) config_data =
  cd_json :: 'j
  cd_vars :: "(int \<times> ('j, 'v) config_var) list"
  cd_max :: int
  cd_calls :: "(int \<times> 'v) list"

text \<open>The default constructor and the move constructor or assignment of two distinct objects (this, other).\<close>

definition ConfigData_default :: "'j json_ops \<Rightarrow> ('j, 'v) config_data" where
  "ConfigData_default ops = \<lparr>cd_json = j_null ops, cd_vars = [], cd_max = 0, cd_calls = []\<rparr>"

definition ConfigData_move :: "'j json_ops \<Rightarrow> ('j, 'v) config_data \<Rightarrow> ('j, 'v) config_data
    \<Rightarrow> ('j, 'v) config_data \<times> ('j, 'v) config_data" where
  "ConfigData_move ops this other =
     (this\<lparr>cd_json := cd_json other, cd_vars := cd_vars other, cd_max := cd_max other\<rparr>,
      other\<lparr>cd_json := j_clear ops (cd_json other), cd_vars := [], cd_max := -1\<rparr>)"

text \<open>A \<^verbatim>\<open>std::shared_mutex\<close> as the calling thread sees it, with no other thread: a lock it cannot get is never granted.\<close>

datatype mutex = Free | Exclusive | Shared

definition lock_exclusive :: "mutex \<Rightarrow> mutex option" where
  "lock_exclusive m = (if m = Free then Some Exclusive else None)"

definition lock_shared :: "mutex \<Rightarrow> mutex option" where
  "lock_shared m = (if m = Exclusive then None else Some Shared)"

text \<open>The listener of a variable; a failure is an exception of the conversion.\<close>

definition notify :: "'j json_ops \<Rightarrow> 'j \<Rightarrow> int \<times> ('j, 'v) config_var \<Rightarrow> failure + ('j, 'v) config_var \<times> (int \<times> 'v) list" where
  "notify ops new_val kv =
     (case kv of (key, var) \<Rightarrow>
        (case getJsonValueByPath ops new_val (cv_path var) of
           Inl e \<Rightarrow> Inl e
         | Inr None \<Rightarrow> Inr (var, [])
         | Inr (Some x) \<Rightarrow>
             (case cv_conv var x of
                Inl e \<Rightarrow> Inl e
              | Inr v \<Rightarrow> Inr (var\<lparr>cv_val := v\<rparr>, if cv_cb var then [(key, v)] else []))))"

text \<open>The loop over the listeners; an exception leaves it, the variables before are already changed.\<close>

fun notify_all :: "'j json_ops \<Rightarrow> 'j \<Rightarrow> (int \<times> ('j, 'v) config_var) list
    \<Rightarrow> (int \<times> ('j, 'v) config_var) list \<times> (int \<times> 'v) list \<times> failure option" where
  "notify_all ops j [] = ([], [], None)"
| "notify_all ops j ((key, var) # vars) =
     (case notify ops j (key, var) of
        Inl e \<Rightarrow> ((key, var) # vars, [], Some e)
      | Inr (var', calls) \<Rightarrow> (let (vars', calls', e) = notify_all ops j vars in ((key, var') # vars', calls @ calls', e)))"

definition run_listeners :: "'j json_ops \<Rightarrow> ('j, 'v) config_data \<Rightarrow> failure option \<times> ('j, 'v) config_data" where
  "run_listeners ops c =
     (let (vars, calls, e) = notify_all ops (cd_json c) (cd_vars c) in (e, c\<lparr>cd_vars := vars, cd_calls := cd_calls c @ calls\<rparr>))"

text \<open>
  The two overloads of \<^verbatim>\<open>setConfig\<close>; \<open>None\<close>: the call does not return. The first releases the exclusive lock
  before it asks for the shared one.
\<close>

definition setConfig_move :: "'j json_ops \<Rightarrow> 'j \<Rightarrow> mutex \<Rightarrow> ('j, 'v) config_data \<Rightarrow> (failure option \<times> ('j, 'v) config_data) option" where
  "setConfig_move ops json_data m c =
     Option.bind (lock_exclusive m) (\<lambda>m.
       let c = c\<lparr>cd_json := json_data\<rparr>; m = Free
       in Option.bind (lock_shared m) (\<lambda>m. Some (run_listeners ops c)))"

definition setConfig_copy :: "'j json_ops \<Rightarrow> 'j \<Rightarrow> mutex \<Rightarrow> ('j, 'v) config_data \<Rightarrow> (failure option \<times> ('j, 'v) config_data) option" where
  "setConfig_copy ops json_data m c =
     Option.bind (lock_exclusive m) (\<lambda>m.
       let c = c\<lparr>cd_json := json_data\<rparr>
       in Option.bind (lock_shared m) (\<lambda>m. Some (run_listeners ops c)))"

text \<open>\<^verbatim>\<open>m_max_listener_id\<close> is an \<^verbatim>\<open>int\<close>; going past its largest value is undefined.\<close>

definition int_overflow :: failure where
  "int_overflow = Thrown ''int overflow''"

definition addListener :: "('j, 'v) config_var \<Rightarrow> ('j, 'v) config_data \<Rightarrow> failure + int \<times> ('j, 'v) config_data" where
  "addListener var c =
     (if cd_max c \<ge> 2 ^ 31 - 1 then Inl int_overflow
      else (let key = cd_max c + 1 in Inr (key, c\<lparr>cd_max := key, cd_vars := cd_vars c @ [(key, var)]\<rparr>)))"

definition delListener :: "int \<Rightarrow> ('j, 'v) config_data \<Rightarrow> int \<times> ('j, 'v) config_data" where
  "delListener key c =
     (if key \<notin> fst ` set (cd_vars c) \<or> key \<le> -1 then (-1, c)
      else (0, c\<lparr>cd_vars := filter (\<lambda>(k, v). k \<noteq> key) (cd_vars c)\<rparr>))"

text \<open>The constructor of a variable; the callback is called before the listener is registered.\<close>

definition ConfigVar_new :: "'j json_ops \<Rightarrow> string \<Rightarrow> 'v \<Rightarrow> ('j \<Rightarrow> failure + 'v) \<Rightarrow> bool \<Rightarrow> ('j, 'v) config_data
    \<Rightarrow> failure + int \<times> ('j, 'v) config_data" where
  "ConfigVar_new ops path default_value conv cb c =
     (let val = (case getJsonValueByPath ops (cd_json c) path of
                   Inl e \<Rightarrow> Inl e
                 | Inr None \<Rightarrow> Inr default_value
                 | Inr (Some x) \<Rightarrow> conv x)
      in case val of
           Inl e \<Rightarrow> Inl e
         | Inr v \<Rightarrow>
             (case addListener \<lparr>cv_path = path, cv_conv = conv, cv_val = v, cv_cb = cb\<rparr> c of
                Inl e \<Rightarrow> Inl e
              | Inr (key, c') \<Rightarrow> Inr (key, c'\<lparr>cd_calls := cd_calls c' @ (if cb then [(key, v)] else [])\<rparr>)))"

definition ConfigVar_destroy :: "int \<Rightarrow> ('j, 'v) config_data \<Rightarrow> ('j, 'v) config_data" where
  "ConfigVar_destroy key c = snd (delListener key c)"

text \<open>The table of configurations of \<^verbatim>\<open>ConfigManager\<close>.\<close>

definition getConfigData :: "'j json_ops \<Rightarrow> int \<Rightarrow> (int \<rightharpoonup> ('j, 'v) config_data)
    \<Rightarrow> ('j, 'v) config_data \<times> (int \<rightharpoonup> ('j, 'v) config_data)" where
  "getConfigData ops config_id reg =
     (case reg config_id of
        None \<Rightarrow>
          (let c = fst (ConfigData_move ops (ConfigData_default ops) (ConfigData_default ops)) in (c, reg(config_id \<mapsto> c)))
      | Some c \<Rightarrow> (c, reg))"

definition LookUp :: "'j json_ops \<Rightarrow> string \<Rightarrow> 'v \<Rightarrow> int \<Rightarrow> ('j \<Rightarrow> failure + 'v) \<Rightarrow> bool \<Rightarrow> (int \<rightharpoonup> ('j, 'v) config_data)
    \<Rightarrow> failure + int \<times> (int \<rightharpoonup> ('j, 'v) config_data)" where
  "LookUp ops path default_value config_id conv cb reg =
     (let (c, reg) = getConfigData ops config_id reg
      in case ConfigVar_new ops path default_value conv cb c of
           Inl e \<Rightarrow> Inl e
         | Inr (key, c') \<Rightarrow> Inr (key, reg(config_id \<mapsto> c')))"

definition getValue :: "int \<Rightarrow> ('j, 'v) config_data \<Rightarrow> 'v option" where
  "getValue key c = map_option cv_val (map_of (cd_vars c) key)"

definition setValue :: "int \<Rightarrow> 'v \<Rightarrow> ('j, 'v) config_data \<Rightarrow> ('j, 'v) config_data" where
  "setValue key v c = c\<lparr>cd_vars := map (\<lambda>(k, var). (k, if k = key then var\<lparr>cv_val := v\<rparr> else var)) (cd_vars c)\<rparr>"

text \<open>\<^verbatim>\<open>LoadJson\<close>: whether the file can be opened and what parsing gives are arguments.\<close>

definition LoadJson :: "'j json_ops \<Rightarrow> bool \<Rightarrow> 'j option \<Rightarrow> int \<Rightarrow> mutex \<Rightarrow> (int \<rightharpoonup> ('j, 'v) config_data)
    \<Rightarrow> (int \<times> failure option \<times> (int \<rightharpoonup> ('j, 'v) config_data)) option" where
  "LoadJson ops opened parsed config_id m reg =
     (if \<not> opened then Some (-1, None, reg)
      else (case parsed of
              None \<Rightarrow> Some (-1, None, reg)
            | Some j \<Rightarrow>
                (let (c, reg) = getConfigData ops config_id reg
                 in map_option (\<lambda>(e, c). (0, e, reg(config_id \<mapsto> c))) (setConfig_move ops j m c))))"

subsection \<open>Paths as lists of keys\<close>

text \<open>The keys of a path, followed one after the other.\<close>

fun walk :: "'j json_ops \<Rightarrow> 'j \<Rightarrow> string list \<Rightarrow> failure + 'j option" where
  "walk ops node [] = Inr (Some node)"
| "walk ops node (key # keys) =
     (case json_step ops node key of
        Inl e \<Rightarrow> Inl e
      | Inr None \<Rightarrow> Inr None
      | Inr (Some x) \<Rightarrow> walk ops x keys)"

fun dotted_path :: "string list \<Rightarrow> string" where
  "dotted_path [] = []"
| "dotted_path [key] = key"
| "dotted_path (key # keys) = key @ CHR ''.'' # dotted_path keys"

lemma dotted_path_Cons: "keys \<noteq> [] \<Longrightarrow> dotted_path (key # keys) = key @ CHR ''.'' # dotted_path keys"
  by (cases keys) simp_all

lemma find_dot_None: "CHR ''.'' \<notin> set key \<Longrightarrow> find_in ''.'' key = None"
  by (rule find_in_None)

lemma find_dot: "CHR ''.'' \<notin> set key \<Longrightarrow> find_in ''.'' (key @ CHR ''.'' # s) = Some (length key)"
  using find_in_skip [of "CHR ''.''" key "[]" "CHR ''.'' # s"] by simp

lemma path_is_walk:
  "keys \<noteq> [] \<Longrightarrow> \<forall>key \<in> set keys. CHR ''.'' \<notin> set key \<Longrightarrow> getJsonValueByPath ops node (dotted_path keys) = walk ops node keys"
proof (induction keys arbitrary: node)
  case (Cons key keys)
  show ?case
  proof (cases "keys = []")
    case True
    then show ?thesis using Cons.prems
      by (simp add: getJsonValueByPath.simps [of ops node key] find_dot_None split: sum.splits option.splits)
  next
    case False
    have "CHR ''.'' \<notin> set key" using Cons.prems by simp
    moreover have "\<And>x. getJsonValueByPath ops x (dotted_path keys) = walk ops x keys" using Cons.IH [OF False] Cons.prems by simp
    ultimately show ?thesis unfolding dotted_path_Cons [OF False] getJsonValueByPath.simps [of ops node "key @ _"]
      by (simp add: find_dot split: sum.splits option.splits)
  qed
qed simp

text \<open>A number indexes an array; any other key is looked up by name.\<close>

lemma json_step_index:
  assumes "i < 2 ^ 31"
  shows "json_step ops node (dec i) =
    (if i \<ge> j_size ops node then Inr None
     else (case j_index ops node i of None \<Rightarrow> Inl (Thrown ''type_error'') | Some x \<Rightarrow> Inr (Some x)))"
proof -
  have d: "dec i \<noteq> []" "list_all digit (dec i)" "digits_value (dec i) = i" using dec_digits [of i] by blast+
  then have "digit (hd (dec i))" by (cases "dec i") simp_all
  moreover have t: "takeWhile digit (dec i) = dec i" using d(2) by (simp add: takeWhile_eq_all_conv list_all_iff)
  have "stoi (dec i) = Inr i" unfolding stoi_def t d(3) using assms by simp
  ultimately show ?thesis using d(1) by (simp add: json_step_def)
qed

lemma json_step_name: "key = [] \<or> \<not> digit (hd key) \<Longrightarrow> json_step ops node key = Inr (j_find ops node key)"
  by (auto simp: json_step_def)

subsection \<open>A change of the configuration\<close>

text \<open>What a variable holds after the configuration \<open>j\<close> was set.\<close>

definition follow :: "'j json_ops \<Rightarrow> string \<Rightarrow> ('j \<Rightarrow> failure + 'v) \<Rightarrow> 'j \<Rightarrow> 'v \<Rightarrow> 'v" where
  "follow ops path conv j v =
     (case getJsonValueByPath ops j path of
        Inr (Some x) \<Rightarrow> (case conv x of Inr v' \<Rightarrow> v' | Inl e \<Rightarrow> v)
      | _ \<Rightarrow> v)"

abbreviation followed :: "'j json_ops \<Rightarrow> 'j \<Rightarrow> ('j, 'v) config_var \<Rightarrow> ('j, 'v) config_var" where
  "followed ops j var \<equiv> var\<lparr>cv_val := follow ops (cv_path var) (cv_conv var) j (cv_val var)\<rparr>"

lemma notify_followed: "notify ops j (key, var) = Inr (var', calls) \<Longrightarrow> var' = followed ops j var"
  by (auto simp: notify_def follow_def split: sum.splits option.splits)

lemma notify_all_followed:
  "notify_all ops j vars = (vars', calls, None) \<Longrightarrow> vars' = map (\<lambda>(k, var). (k, followed ops j var)) vars"
proof (induction ops j vars arbitrary: vars' calls rule: notify_all.induct)
  case (2 ops j key var vars)
  then show ?case by (auto simp: Let_def split: sum.splits prod.splits dest: notify_followed)
qed simp

text \<open>An exception of a conversion keeps the keys, their order, and all variables behind the failing one.\<close>

lemma notify_all_prefix:
  "notify_all ops j vars = (vars', calls, e) \<Longrightarrow>
   \<exists>n. vars' = map (\<lambda>(k, var). (k, followed ops j var)) (take n vars) @ drop n vars \<and> (e = None \<longrightarrow> n = length vars)"
proof (induction ops j vars arbitrary: vars' calls e rule: notify_all.induct)
  case (2 ops j key var vars)
  show ?case
  proof (cases "notify ops j (key, var)")
    case (Inl a)
    then show ?thesis using "2.prems" by (intro exI [of _ 0]) auto
  next
    case (Inr p)
    obtain var' cs where p: "p = (var', cs)" by (cases p)
    obtain vs cs' e' where r: "notify_all ops j vars = (vs, cs', e')" by (cases "notify_all ops j vars")
    from "2.IH" [OF Inr, of var' cs] p r obtain n where
      n: "vs = map (\<lambda>(k, var). (k, followed ops j var)) (take n vars) @ drop n vars" "e' = None \<longrightarrow> n = length vars" by blast
    have "vars' = (key, var') # vs" "e' = e" using "2.prems" Inr p r by auto
    then show ?thesis using n notify_followed [of ops j key var var' cs] Inr p by (intro exI [of _ "Suc n"]) simp
  qed
qed simp
subsection \<open>Histories\<close>

text \<open>
  What a program does with one configuration. An exception of a conversion reaches the caller, who may go on with what the
  call has left: a variable that could not be created is not there, and a load has stored the new data and changed the
  variables in front of the one that threw. Only the overflow of the listener numbers ends the history.
\<close>

datatype ('j, 'v) config_op =
  Load 'j
| Create string 'v "'j \<Rightarrow> failure + 'v" bool
| Destroy int
| Assign int 'v

fun config_step :: "'j json_ops \<Rightarrow> ('j, 'v) config_op \<Rightarrow> ('j, 'v) config_data \<Rightarrow> failure + ('j, 'v) config_data" where
  "config_step ops (Load j) c =
     (case setConfig_move ops j Free c of
        Some (e, c') \<Rightarrow> Inr c'
      | None \<Rightarrow> Inl (Thrown ''deadlock''))"
| "config_step ops (Create path v conv cb) c =
     (case ConfigVar_new ops path v conv cb c of
        Inr (key, c') \<Rightarrow> Inr c'
      | Inl e \<Rightarrow> if e = int_overflow then Inl e else Inr c)"
| "config_step ops (Destroy key) c = Inr (ConfigVar_destroy key c)"
| "config_step ops (Assign key v) c = Inr (setValue key v c)"

fun config_run :: "'j json_ops \<Rightarrow> ('j, 'v) config_op list \<Rightarrow> ('j, 'v) config_data \<Rightarrow> failure + ('j, 'v) config_data" where
  "config_run ops [] c = Inr c"
| "config_run ops (a # as) c = (case config_step ops a c of Inl e \<Rightarrow> Inl e | Inr c' \<Rightarrow> config_run ops as c')"

text \<open>A load reaches a variable when neither its conversion nor one of an older variable throws.\<close>

definition reached :: "'j json_ops \<Rightarrow> 'j \<Rightarrow> int \<Rightarrow> (int \<times> ('j, 'v) config_var) list \<Rightarrow> bool" where
  "reached ops j key vars \<longleftrightarrow> list_all (\<lambda>kv. fst kv \<le> key \<longrightarrow> \<not> isl (notify ops j kv)) vars"

text \<open>
  The value of one variable as its owner expects it: only loads that reach it and its own assignments change it. The
  configuration is carried along for the other variables, whose conversions may throw.
\<close>

definition expected_step :: "'j json_ops \<Rightarrow> string \<Rightarrow> ('j \<Rightarrow> failure + 'v) \<Rightarrow> int \<Rightarrow> ('j, 'v) config_op \<Rightarrow> ('j, 'v) config_data \<Rightarrow> 'v \<Rightarrow> 'v" where
  "expected_step ops path conv key a c v =
     (case a of
        Load j \<Rightarrow> if reached ops j key (cd_vars c) then follow ops path conv j v else v
      | Assign k w \<Rightarrow> if k = key then w else v
      | _ \<Rightarrow> v)"

fun expected :: "'j json_ops \<Rightarrow> string \<Rightarrow> ('j \<Rightarrow> failure + 'v) \<Rightarrow> int \<Rightarrow> ('j, 'v) config_op list \<Rightarrow> ('j, 'v) config_data \<Rightarrow> 'v \<Rightarrow> 'v" where
  "expected ops path conv key [] c v = v"
| "expected ops path conv key (a # as) c v =
     (case config_step ops a c of
        Inl e \<Rightarrow> v
      | Inr c' \<Rightarrow> expected ops path conv key as c' (expected_step ops path conv key a c v))"

definition config_inv :: "('j, 'v) config_data \<Rightarrow> bool" where
  "config_inv c \<longleftrightarrow> sorted_wrt (<) (map fst (cd_vars c)) \<and> (\<forall>k \<in> fst ` set (cd_vars c). 0 < k \<and> k \<le> cd_max c) \<and> 0 \<le> cd_max c"

lemma setConfig_move_Free: "setConfig_move ops j Free c = Some (run_listeners ops (c\<lparr>cd_json := j\<rparr>))"
  by (simp add: setConfig_move_def lock_exclusive_def lock_shared_def)

text \<open>Listeners run in the order of their keys, so a variable is changed exactly when the load reaches it.\<close>

lemma notify_all_reached:
  "notify_all ops j vars = (vars', calls, e) \<Longrightarrow> sorted_wrt (<) (map fst vars) \<Longrightarrow> map_of vars key = Some var \<Longrightarrow>
     map_of vars' key = Some (if reached ops j key vars then followed ops j var else var)"
proof (induction ops j vars arbitrary: vars' calls e rule: notify_all.induct)
  case (2 ops j k w vars)
  have le: "k \<le> key" using "2.prems"(2,3) by (auto split: if_splits dest!: map_of_SomeD)
  show ?case
  proof (cases "notify ops j (k, w)")
    case (Inl a)
    then show ?thesis using "2.prems"(1,3) le by (auto simp: reached_def)
  next
    case (Inr p)
    obtain w' cs where p: "p = (w', cs)" by (cases p)
    obtain vs cs' e' where r: "notify_all ops j vars = (vs, cs', e')" by (cases "notify_all ops j vars")
    have v: "vars' = (k, w') # vs" using "2.prems"(1) Inr p r by auto
    have w': "w' = followed ops j w" using notify_followed [of ops j k w w' cs] Inr p by simp
    show ?thesis
    proof (cases "k = key")
      case True
      then have "reached ops j key ((k, w) # vars)" using "2.prems"(2) Inr by (auto simp: reached_def list_all_iff)
      then show ?thesis using True v w' "2.prems"(3) by simp
    next
      case False
      then have "map_of vs key = Some (if reached ops j key vars then followed ops j var else var)"
        using "2.IH" [OF Inr, of w' cs] p r "2.prems"(2,3) by simp
      then show ?thesis using False v Inr by (simp add: reached_def)
    qed
  qed
qed simp

lemma notify_all_keys: "notify_all ops j vars = (vars', calls, e) \<Longrightarrow> map fst vars' = map fst vars"
proof (induction ops j vars arbitrary: vars' calls e rule: notify_all.induct)
  case (2 ops j k w vars)
  then show ?case by (auto simp: Let_def split: sum.splits prod.splits)
qed simp

lemma config_step_Load:
  assumes "config_step ops (Load j) c = Inr c'"
  shows "cd_max c' = cd_max c \<and> cd_json c' = j \<and> (\<exists>calls e. notify_all ops j (cd_vars c) = (cd_vars c', calls, e))"
  using assms by (auto simp: setConfig_move_Free run_listeners_def split: prod.splits)

lemma ConfigVar_new_Inr:
  assumes "ConfigVar_new ops path v conv cb c = Inr (key, c')"
  shows "key = cd_max c + 1 \<and> cd_vars c' = cd_vars c @ [(key, \<lparr>cv_path = path, cv_conv = conv, cv_val = follow ops path conv (cd_json c) v, cv_cb = cb\<rparr>)]
    \<and> cd_max c' = cd_max c + 1 \<and> cd_json c' = cd_json c"
  using assms by (auto simp: ConfigVar_new_def addListener_def follow_def Let_def split: sum.splits option.splits if_splits)

lemma config_step_Create:
  assumes "config_step ops (Create path v conv cb) c = Inr c'"
  shows "c' = c \<or> (\<exists>w. cd_vars c' = cd_vars c @ [(cd_max c + 1, w)] \<and> cd_max c' = cd_max c + 1)"
  using assms by (auto split: sum.splits if_splits dest: ConfigVar_new_Inr)

lemma map_of_followed: "map_of (map (\<lambda>(k, var). (k, f k var)) vars) key = map_option (f key) (map_of vars key)"
  by (induction vars) auto

lemma map_of_filtered: "key \<noteq> k \<Longrightarrow> map_of (filter (\<lambda>(k', v). k' \<noteq> k) vars) key = map_of vars key"
  by (induction vars) auto

lemma config_inv_default: "config_inv (ConfigData_default ops)"
  by (simp add: config_inv_def ConfigData_default_def)

lemma config_inv_same:
  "config_inv c \<Longrightarrow> map fst (cd_vars c') = map fst (cd_vars c) \<Longrightarrow> cd_max c' = cd_max c \<Longrightarrow> config_inv c'"
  by (simp add: config_inv_def flip: set_map)

lemma config_inv_destroy: "config_inv c \<Longrightarrow> config_inv (ConfigVar_destroy key c)"
proof -
  have "sorted_wrt (<) (map fst (filter P vars))" if "sorted_wrt (<) (map fst vars)" for P and vars :: "(int \<times> ('j, 'v) config_var) list"
    using that by (induction vars) auto
  then show "config_inv c \<Longrightarrow> config_inv (ConfigVar_destroy key c)"
    by (auto simp: config_inv_def ConfigVar_destroy_def delListener_def)
qed

lemma config_inv_create:
  assumes "config_inv c" and "cd_vars c' = cd_vars c @ [(cd_max c + 1, var)]" and "cd_max c' = cd_max c + 1"
  shows "config_inv c'"
  using assms by (force simp: config_inv_def sorted_wrt_append)

lemma config_step_inv: "config_inv c \<Longrightarrow> config_step ops a c = Inr c' \<Longrightarrow> config_inv c'"
proof (cases a)
  case (Load j)
  then show "config_inv c \<Longrightarrow> config_step ops a c = Inr c' \<Longrightarrow> config_inv c'"
    using config_step_Load [of ops j c c'] config_inv_same [of c c'] notify_all_keys by metis
next
  case (Create path v conv cb)
  then show "config_inv c \<Longrightarrow> config_step ops a c = Inr c' \<Longrightarrow> config_inv c'"
    using config_step_Create [of ops path v conv cb c c'] config_inv_create [of c c'] by blast
next
  case (Destroy key)
  then show "config_inv c \<Longrightarrow> config_step ops a c = Inr c' \<Longrightarrow> config_inv c'" using config_inv_destroy by auto
next
  case (Assign key v)
  then show "config_inv c \<Longrightarrow> config_step ops a c = Inr c' \<Longrightarrow> config_inv c'"
    using config_inv_same [of c c'] by (auto simp: setValue_def split: prod.splits)
qed

lemma config_run_inv: "config_inv c \<Longrightarrow> config_run ops as c = Inr c' \<Longrightarrow> config_inv c'"
  by (induction ops as c rule: config_run.induct) (auto split: sum.splits dest: config_step_inv)

text \<open>One step of a history, seen from a variable that it does not destroy.\<close>

lemma config_step_variable:
  assumes "config_inv c" and "map_of (cd_vars c) key = Some var" and "config_step ops a c = Inr c'" and "a \<noteq> Destroy key"
  shows "map_of (cd_vars c') key = Some (var\<lparr>cv_val := expected_step ops (cv_path var) (cv_conv var) key a c (cv_val var)\<rparr>)"
proof (cases a)
  case (Load j)
  obtain calls e where "notify_all ops j (cd_vars c) = (cd_vars c', calls, e)" using config_step_Load [of ops j c c'] assms(3) Load by blast
  from notify_all_reached [OF this _ assms(2)] show ?thesis using assms(1) Load by (simp add: config_inv_def expected_step_def)
next
  case (Create path v conv cb)
  consider "c' = c" | w where "cd_vars c' = cd_vars c @ [(cd_max c + 1, w)]"
    using config_step_Create [of ops path v conv cb c c'] assms(3) Create by blast
  then show ?thesis using assms(2) Create by cases (simp_all add: map_add_Some_iff expected_step_def)
next
  case (Destroy k)
  then have "key \<noteq> k" using assms(4) by blast
  then show ?thesis using assms(2,3) Destroy by (auto simp: ConfigVar_destroy_def delListener_def map_of_filtered expected_step_def)
next
  case (Assign k v)
  then show ?thesis using assms(2,3) map_of_followed [of "\<lambda>k' var. if k' = k then var\<lparr>cv_val := v\<rparr> else var" "cd_vars c" key]
    by (auto simp: setValue_def expected_step_def)
qed

lemma config_run_variable:
  "config_inv c \<Longrightarrow> map_of (cd_vars c) key = Some var \<Longrightarrow> config_run ops as c = Inr c' \<Longrightarrow> Destroy key \<notin> set as \<Longrightarrow>
   map_of (cd_vars c') key = Some (var\<lparr>cv_val := expected ops (cv_path var) (cv_conv var) key as c (cv_val var)\<rparr>)"
proof (induction as arbitrary: c var)
  case (Cons a as)
  obtain d where d: "config_step ops a c = Inr d" "config_run ops as d = Inr c'"
    using Cons.prems(3) by (auto split: sum.splits)
  have v: "map_of (cd_vars d) key = Some (var\<lparr>cv_val := expected_step ops (cv_path var) (cv_conv var) key a c (cv_val var)\<rparr>)"
    using config_step_variable [OF Cons.prems(1,2) d(1)] Cons.prems(4) by auto
  show ?case using Cons.IH [OF config_step_inv [OF Cons.prems(1) d(1)] v d(2)] Cons.prems(4) d(1) by simp
qed simp

text \<open>C37. A configuration variable created at any point of a history, the first included, keeps its listener key for itself:
  whatever is loaded, created, assigned or destroyed afterwards, except the variable itself, its value is the value at its path at its creation,
  or the default where the path was missing, changed by exactly its own assignments and the loads that reach it and have its path. A load without
  the path keeps the last value. A load reaches the variable when its own conversion and those of the variables created before it do not throw;
  the history goes on after an exception, and fewer than \<open>2\<^sup>31\<close> variables are created.\<close>

theorem config_variable_history:
  assumes "config_run ops as (ConfigData_default ops) = Inr c"
    and "ConfigVar_new ops path default_value conv cb c = Inr (key, c1)"
    and "config_run ops bs c1 = Inr c2"
    and "Destroy key \<notin> set bs"
  shows "getValue key c2 = Some (expected ops path conv key bs c1 (follow ops path conv (cd_json c) default_value))"
proof -
  let ?var = "\<lparr>cv_path = path, cv_conv = conv, cv_val = follow ops path conv (cd_json c) default_value, cv_cb = cb\<rparr>"
  have i: "config_inv c" by (rule config_run_inv [OF config_inv_default assms(1)])
  note n = ConfigVar_new_Inr [OF assms(2)]
  have s: "config_step ops (Create path default_value conv cb) c = Inr c1" using assms(2) by simp
  have "cd_max c + 1 \<notin> fst ` set (cd_vars c)" using i by (force simp: config_inv_def)
  then have "map_of (cd_vars c) (cd_max c + 1) = None" by (simp add: map_of_eq_None_iff)
  then have "map_of (cd_vars c1) key = Some ?var" using n by (simp add: map_add_def)
  from config_run_variable [OF config_step_inv [OF i s] this assms(3,4)] show ?thesis by (simp add: getValue_def)
qed

text \<open>A load of one configuration on a copy never returns: the thread waits for a lock that it holds itself.\<close>

lemma setConfig_copy_blocks: "setConfig_copy ops j m c = None"
  by (simp add: setConfig_copy_def lock_exclusive_def lock_shared_def)

text \<open>The copy is the only difference: loading a file always returns.\<close>

lemma LoadJson_returns: "\<exists>rc e reg'. LoadJson ops opened parsed config_id Free reg = Some (rc, e, reg') \<and> (rc = 0 \<longleftrightarrow> opened \<and> parsed \<noteq> None)"
  by (auto simp: LoadJson_def setConfig_move_Free split: option.splits prod.splits)

text \<open>A small JSON: numbers, arrays and objects.\<close>

datatype small_json = SNum int | SArr "small_json list" | SObj "(string \<times> small_json) list"

definition small_ops :: "small_json json_ops" where
  "small_ops = \<lparr>j_null = SObj [], j_clear = (\<lambda>_. SObj []),
     j_size = (\<lambda>j. case j of SNum _ \<Rightarrow> 1 | SArr xs \<Rightarrow> length xs | SObj fs \<Rightarrow> length fs),
     j_index = (\<lambda>j i. case j of SArr xs \<Rightarrow> if i < length xs then Some (xs ! i) else None | _ \<Rightarrow> None),
     j_find = (\<lambda>j s. case j of SObj fs \<Rightarrow> map_of fs s | _ \<Rightarrow> None)\<rparr>"

definition small_conv :: "small_json \<Rightarrow> failure + int" where
  "small_conv j = (case j of SNum n \<Rightarrow> Inr n | _ \<Rightarrow> Inl (Thrown ''type_error''))"

lemmas small_simps = small_ops_def small_conv_def ConfigVar_new_def ConfigData_default_def addListener_def follow_def
  getJsonValueByPath.simps json_step_def stoi_def digits_value_def digit_def setConfig_move_Free run_listeners_def notify_def

theorem config_variable_history_witness:
  "\<exists>c1 c2. ConfigVar_new small_ops ''a.1'' (7 :: int) small_conv True (ConfigData_default small_ops) = Inr (1, c1) \<and>
     config_run small_ops [Load (SObj [(''a'', SArr [SNum 3, SNum 4])]), Load (SObj [])] c1 = Inr c2 \<and> getValue 1 c2 = Some 4"
proof -
  obtain c1 where c1: "ConfigVar_new small_ops ''a.1'' (7 :: int) small_conv True (ConfigData_default small_ops) = Inr (1, c1)"
    by (simp add: small_simps)
  have e: "c1 = \<lparr>cd_json = SObj [], cd_vars = [(1, \<lparr>cv_path = ''a.1'', cv_conv = small_conv, cv_val = 7, cv_cb = True\<rparr>)], cd_max = 1, cd_calls = [(1, 7)]\<rparr>"
    using c1 by (simp add: small_simps)
  obtain c2 where c2: "config_run small_ops [Load (SObj [(''a'', SArr [SNum 3, SNum 4])]), Load (SObj [])] c1 = Inr c2"
    using c1 by (auto simp: small_simps)
  from config_variable_history [of small_ops "[]", OF _ c1 c2] have "getValue 1 c2 = Some 4"
    by (simp add: small_simps expected_step_def reached_def e)
  then show ?thesis using c1 c2 by blast
qed

end
