(* ===== verification/Log_Config.thy ===== *)
theory Log_Config
  imports Log_Manager Config
begin

section \<open>Log definitions in the configuration (basic/log, FormatConversion)\<close>

text \<open>
  The conversions between JSON values and sets of log definitions that the configuration variable of the logging
  system uses. On top of the operations of the configuration the JSON package builds strings, members of objects and elements of
  arrays; \<open>j_str\<close> is \<open>None\<close> where the package throws a type error. Both overloads build their results from
  \<^verbatim>\<open>null\<close>.
\<close>

record 'j json_build = "'j json_ops" +
  j_string :: "string \<Rightarrow> 'j"
  j_str :: "'j \<Rightarrow> string option"
  j_put :: "'j \<Rightarrow> string \<Rightarrow> 'j \<Rightarrow> 'j"
  j_push :: "'j \<Rightarrow> 'j \<Rightarrow> 'j"

abbreviation type_error :: failure where
  "type_error \<equiv> Thrown ''type_error''"

fun then_run :: "failure + 'a \<Rightarrow> ('a \<Rightarrow> failure + 'b) \<Rightarrow> failure + 'b" where
  "then_run (Inl e) f = Inl e"
| "then_run (Inr x) f = f x"

subsection \<open>From JSON\<close>

text \<open>A member that is looked up with \<^verbatim>\<open>find\<close> and converted to a string when it is there.\<close>

definition string_field :: "'j json_build \<Rightarrow> 'j \<Rightarrow> string \<Rightarrow> failure + string option" where
  "string_field ops j key =
     (case j_find ops j key of
        None \<Rightarrow> Inr None
      | Some x \<Rightarrow> (case j_str ops x of None \<Rightarrow> Inl type_error | Some s \<Rightarrow> Inr (Some s)))"

text \<open>The loops \<^verbatim>\<open>for(int i = 0; i < json.size(); i++)\<close> over \<^verbatim>\<open>json[i]\<close>.\<close>

fun each_json :: "'j json_build \<Rightarrow> ('j \<Rightarrow> 'a \<Rightarrow> failure + 'a) \<Rightarrow> 'j \<Rightarrow> nat \<Rightarrow> nat \<Rightarrow> 'a \<Rightarrow> failure + 'a" where
  "each_json ops f j i 0 acc = Inr acc"
| "each_json ops f j i (Suc n) acc =
     (case j_index ops j i of
        None \<Rightarrow> Inl type_error
      | Some x \<Rightarrow> then_run (f x acc) (\<lambda>acc. each_json ops f j (Suc i) n acc))"

definition for_json :: "'j json_build \<Rightarrow> ('j \<Rightarrow> 'a \<Rightarrow> failure + 'a) \<Rightarrow> 'j \<Rightarrow> 'a \<Rightarrow> failure + 'a" where
  "for_json ops f j acc = each_json ops f j 0 (j_size ops j) acc"

text \<open>
  \<open>type0\<close> and \<open>level0\<close> are what the members \<^verbatim>\<open>type\<close> and \<^verbatim>\<open>level\<close>, which have no initialiser, hold
  in a new object.
\<close>

definition appender_type :: "'j json_build \<Rightarrow> int \<Rightarrow> 'j \<Rightarrow> failure + int \<times> string" where
  "appender_type ops type0 appender =
     then_run (string_field ops appender ''type'') (\<lambda>t.
       case t of
         None \<Rightarrow> Inr (type0, [])
       | Some s \<Rightarrow>
           if s = ''StdoutLogAppender'' then Inr (0, [])
           else if s = ''FileLogAppender'' \<and> j_find ops appender ''file'' \<noteq> None
           then then_run (string_field ops appender ''file'') (\<lambda>f. Inr (1, the f))
           else Inr (-1, []))"

definition level_field :: "'j json_build \<Rightarrow> log_level \<Rightarrow> 'j \<Rightarrow> failure + log_level" where
  "level_field ops level0 j =
     then_run (string_field ops j ''level'') (\<lambda>l. Inr (case l of None \<Rightarrow> level0 | Some s \<Rightarrow> Level_FromString s))"

definition formatter_field :: "'j json_build \<Rightarrow> 'j \<Rightarrow> failure + log_formatter option" where
  "formatter_field ops j = then_run (string_field ops j ''formatter'') (\<lambda>p. Inr (map_option LogFormatter_new p))"

definition appender_of_json :: "'j json_build \<Rightarrow> int \<Rightarrow> 'j \<Rightarrow> failure + appender_define" where
  "appender_of_json ops type0 appender =
     then_run (appender_type ops type0 appender) (\<lambda>(t, f).
     then_run (level_field ops UNKNOWN appender) (\<lambda>l.
     then_run (formatter_field ops appender) (\<lambda>fm.
       Inr \<lparr>d_type = t, d_level = l, d_formatter = fm, d_file = f\<rparr>)))"

definition push_appender :: "'j json_build \<Rightarrow> int \<Rightarrow> 'j \<Rightarrow> appender_define list \<Rightarrow> failure + appender_define list" where
  "push_appender ops type0 appender ads =
     then_run (appender_of_json ops type0 appender) (\<lambda>a. Inr (if isValid a then ads @ [a] else ads))"

text \<open>One definition; without the member \<^verbatim>\<open>appenders\<close> it is skipped by \<^verbatim>\<open>continue\<close>.\<close>

definition define_of_json :: "'j json_build \<Rightarrow> int \<Rightarrow> log_level \<Rightarrow> 'j \<Rightarrow> failure + log_define option" where
  "define_of_json ops type0 level0 j =
     then_run (string_field ops j ''name'') (\<lambda>name.
     then_run (level_field ops level0 j) (\<lambda>level.
     then_run (formatter_field ops j) (\<lambda>formatter.
       case j_find ops j ''appenders'' of
         None \<Rightarrow> Inr None
       | Some as \<Rightarrow>
           then_run (for_json ops (push_appender ops type0) as []) (\<lambda>ads.
             Inr (Some \<lparr>ld_name = (case name of None \<Rightarrow> [] | Some s \<Rightarrow> s), ld_level = level, ld_formatter = formatter,
                        ld_appenders = ads\<rparr>)))))"

definition defines_of_json :: "'j json_build \<Rightarrow> int \<Rightarrow> log_level \<Rightarrow> 'j \<Rightarrow> failure + log_define list" where
  "defines_of_json ops type0 level0 j =
     for_json ops (\<lambda>x ds. then_run (define_of_json ops type0 level0 x) (\<lambda>d.
       Inr (case d of None \<Rightarrow> ds | Some d \<Rightarrow> insert_define d ds))) j []"

subsection \<open>To JSON\<close>

definition put_all :: "'j json_build \<Rightarrow> 'j \<Rightarrow> (string \<times> 'j) list \<Rightarrow> 'j" where
  "put_all ops j fs = foldl (\<lambda>j (k, v). j_put ops j k v) j fs"

definition push_all :: "'j json_build \<Rightarrow> 'j \<Rightarrow> 'j list \<Rightarrow> 'j" where
  "push_all ops j xs = foldl (j_push ops) j xs"

definition formatter_member :: "'j json_build \<Rightarrow> log_formatter option \<Rightarrow> (string \<times> 'j) list" where
  "formatter_member ops f = (case f of None \<Rightarrow> [] | Some f \<Rightarrow> [(''formatter'', j_string ops (m_pattern f))])"

definition appender_to_json :: "'j json_build \<Rightarrow> appender_define \<Rightarrow> 'j" where
  "appender_to_json ops a =
     put_all ops (j_null ops)
       ((if d_type a = 0 then [(''type'', j_string ops ''StdoutLogAppender'')]
         else if d_type a = 1 then [(''type'', j_string ops ''FileLogAppender''), (''file'', j_string ops (d_file a))]
         else [])
        @ [(''level'', j_string ops (level_to_string (d_level a)))] @ formatter_member ops (d_formatter a))"

text \<open>\<^verbatim>\<open>logDefine_json["appenders"].push_back(appender_json)\<close>: a missing member is first created as null.\<close>

definition add_appender_json :: "'j json_build \<Rightarrow> 'j \<Rightarrow> appender_define \<Rightarrow> 'j" where
  "add_appender_json ops j a =
     j_put ops j ''appenders''
       (j_push ops (case j_find ops j ''appenders'' of None \<Rightarrow> j_null ops | Some x \<Rightarrow> x) (appender_to_json ops a))"

definition define_to_json :: "'j json_build \<Rightarrow> log_define \<Rightarrow> 'j" where
  "define_to_json ops d =
     foldl (add_appender_json ops)
       (put_all ops (j_null ops)
          ([(''name'', j_string ops (ld_name d)), (''level'', j_string ops (level_to_string (ld_level d)))]
           @ formatter_member ops (ld_formatter d)))
       (ld_appenders d)"

definition defines_to_json :: "'j json_build \<Rightarrow> log_define list \<Rightarrow> 'j" where
  "defines_to_json ops ds = push_all ops (j_null ops) (map (define_to_json ops) ds)"

subsection \<open>Round trip\<close>

text \<open>
  What the package documents of values built from null: a string is converted back, an object has the members put
  last, an array has the elements pushed.
\<close>

definition json_laws :: "'j json_build \<Rightarrow> bool" where
  "json_laws ops \<longleftrightarrow>
     (\<forall>s. j_str ops (j_string ops s) = Some s) \<and>
     (\<forall>fs k. j_find ops (put_all ops (j_null ops) fs) k = map_of (rev fs) k) \<and>
     (\<forall>xs. j_size ops (push_all ops (j_null ops) xs) = length xs) \<and>
     (\<forall>xs i. i < length xs \<longrightarrow> j_index ops (push_all ops (j_null ops) xs) i = Some (xs ! i))"

lemma json_lawsD:
  assumes "json_laws ops"
  shows "j_str ops (j_string ops s) = Some s"
    and "j_find ops (put_all ops (j_null ops) fs) k = map_of (rev fs) k"
    and "j_size ops (push_all ops (j_null ops) xs) = length xs"
    and "i < length xs \<Longrightarrow> j_index ops (push_all ops (j_null ops) xs) i = Some (xs ! i)"
  using assms by (simp_all add: json_laws_def)

text \<open>The loop over an array, as a loop over its elements.\<close>

fun run_over :: "('b \<Rightarrow> 'a \<Rightarrow> failure + 'a) \<Rightarrow> 'b list \<Rightarrow> 'a \<Rightarrow> failure + 'a" where
  "run_over f [] acc = Inr acc"
| "run_over f (x # xs) acc = then_run (f x acc) (run_over f xs)"

lemma each_json_elements:
  assumes "json_laws ops"
  shows "i + n = length xs \<Longrightarrow> each_json ops f (push_all ops (j_null ops) xs) i n acc = run_over f (drop i xs) acc"
proof (induction n arbitrary: i acc)
  case (Suc n)
  then have "i < length xs" by simp
  then have "drop i xs = xs ! i # drop (Suc i) xs" by (rule Cons_nth_drop_Suc [symmetric])
  then show ?case using Suc json_lawsD(4) [OF assms \<open>i < length xs\<close>] by (cases "f (xs ! i) acc") simp_all
qed simp

lemma for_json_elements: "json_laws ops \<Longrightarrow> for_json ops f (push_all ops (j_null ops) xs) acc = run_over f xs acc"
  using each_json_elements [of ops 0 "length xs" xs f acc] by (simp add: for_json_def json_lawsD(3))

lemma put_all_snoc: "j_put ops (put_all ops j fs) k v = put_all ops j (fs @ [(k, v)])"
  by (simp add: put_all_def)

lemma push_all_snoc: "j_push ops (push_all ops j xs) x = push_all ops j (xs @ [x])"
  by (simp add: push_all_def)

text \<open>The object of a definition: its members are those put before, and the array of all appenders if there is one.\<close>

lemma appenders_member:
  assumes "json_laws ops" and "''appenders'' \<notin> fst ` set fs"
  shows "\<exists>fs'. foldl (add_appender_json ops) (put_all ops (j_null ops) fs) as = put_all ops (j_null ops) fs' \<and>
    (\<forall>k. map_of (rev fs') k = (if k = ''appenders''
       then (if as = [] then None else Some (push_all ops (j_null ops) (map (appender_to_json ops) as))) else map_of (rev fs) k))"
proof (induction as rule: rev_induct)
  case Nil
  have "map_of (rev fs) ''appenders'' = None" using assms(2) by (simp add: map_of_eq_None_iff)
  then show ?case by (intro exI [of _ fs]) simp
next
  case (snoc a as)
  let ?arr = "\<lambda>as. push_all ops (j_null ops) (map (appender_to_json ops) as)"
  from snoc obtain fs' where fs': "foldl (add_appender_json ops) (put_all ops (j_null ops) fs) as = put_all ops (j_null ops) fs'"
    "\<And>k. map_of (rev fs') k = (if k = ''appenders'' then (if as = [] then None else Some (?arr as)) else map_of (rev fs) k)"
    by blast
  have "j_find ops (put_all ops (j_null ops) fs') ''appenders'' = (if as = [] then None else Some (?arr as))"
    unfolding json_lawsD(2) [OF assms(1)] fs'(2) by simp
  moreover have "?arr [] = j_null ops" by (simp add: push_all_def)
  ultimately have "add_appender_json ops (put_all ops (j_null ops) fs') a = put_all ops (j_null ops) (fs' @ [(''appenders'', ?arr (as @ [a]))])"
    by (cases "as = []") (simp_all add: add_appender_json_def put_all_snoc push_all_snoc, simp_all add: push_all_def)
  then show ?case using fs' by (intro exI [of _ "fs' @ [(''appenders'', ?arr (as @ [a]))]"]) simp
qed

text \<open>Definitions as the program makes them: formatters come from their constructor, appenders print to a file with a name or to the standard output.\<close>

definition formatter_wf :: "log_formatter option \<Rightarrow> bool" where
  "formatter_wf f \<longleftrightarrow> (case f of None \<Rightarrow> True | Some f \<Rightarrow> f = LogFormatter_new (m_pattern f))"

definition appender_wf :: "appender_define \<Rightarrow> bool" where
  "appender_wf a \<longleftrightarrow> (d_type a = 0 \<and> d_file a = [] \<or> d_type a = 1 \<and> d_file a \<noteq> []) \<and> formatter_wf (d_formatter a)"

definition define_wf :: "log_define \<Rightarrow> bool" where
  "define_wf d \<longleftrightarrow> formatter_wf (ld_formatter d) \<and> list_all appender_wf (ld_appenders d)"

text \<open>What the readers of the members make of an object with known members.\<close>

lemma fields_of_members:
  assumes "json_laws ops" and "\<And>k. j_find ops j k = M k"
  shows "M key = Some (j_string ops s) \<Longrightarrow> string_field ops j key = Inr (Some s)"
    and "M key = None \<Longrightarrow> string_field ops j key = Inr None"
    and "M ''level'' = Some (j_string ops (level_to_string l)) \<Longrightarrow> level_field ops level0 j = Inr l"
    and "M ''formatter'' = map_of (formatter_member ops f) ''formatter'' \<Longrightarrow> formatter_wf f \<Longrightarrow> formatter_field ops j = Inr f"
  using assms by (auto simp: string_field_def level_field_def formatter_field_def formatter_member_def formatter_wf_def json_lawsD(1)
      split: option.splits)

lemma appender_json_roundtrip:
  assumes "json_laws ops" and "appender_wf a"
  shows "appender_of_json ops type0 (appender_to_json ops a) = Inr a"
proof -
  let ?j = "appender_to_json ops a"
  let ?fs = "(if d_type a = 0 then [(''type'', j_string ops ''StdoutLogAppender'')]
     else if d_type a = 1 then [(''type'', j_string ops ''FileLogAppender''), (''file'', j_string ops (d_file a))] else [])
    @ [(''level'', j_string ops (level_to_string (d_level a)))] @ formatter_member ops (d_formatter a)"
  have j: "j_find ops ?j k = map_of (rev ?fs) k" for k by (simp add: appender_to_json_def json_lawsD(2) [OF assms(1)])
  note F = fields_of_members [OF assms(1) j]
  have "level_field ops UNKNOWN ?j = Inr (d_level a)"
    by (rule F(3)) (simp add: formatter_member_def split: option.split)
  moreover have "formatter_field ops ?j = Inr (d_formatter a)"
    by (rule F(4)) (use assms(2) in \<open>simp_all add: appender_wf_def formatter_member_def split: option.split\<close>)
  moreover have "appender_type ops type0 ?j = Inr (d_type a, d_file a)"
  proof (cases "d_type a = 0")
    case True
    have "string_field ops ?j ''type'' = Inr (Some ''StdoutLogAppender'')"
      by (rule F(1)) (simp add: True formatter_member_def split: option.split)
    then show ?thesis using True assms(2) by (simp add: appender_type_def appender_wf_def)
  next
    case False
    then have t: "d_type a = 1" using assms(2) by (simp add: appender_wf_def)
    have "string_field ops ?j ''type'' = Inr (Some ''FileLogAppender'')"
      by (rule F(1)) (simp add: t formatter_member_def split: option.split)
    moreover have "string_field ops ?j ''file'' = Inr (Some (d_file a))"
      by (rule F(1)) (simp add: t formatter_member_def split: option.split)
    moreover have "j_find ops ?j ''file'' \<noteq> None" unfolding j by (simp add: t formatter_member_def split: option.split)
    ultimately show ?thesis using t by (simp add: appender_type_def)
  qed
  ultimately show ?thesis by (simp add: appender_of_json_def)
qed

lemma appenders_json_roundtrip:
  assumes "json_laws ops"
  shows "list_all appender_wf as \<Longrightarrow>
    run_over (push_appender ops type0) (map (appender_to_json ops) as) acc = Inr (acc @ as)"
proof (induction as arbitrary: acc)
  case (Cons a as)
  then have "isValid a" by (auto simp: appender_wf_def isValid_def)
  then show ?case using Cons by (simp add: push_appender_def appender_json_roundtrip [OF assms])
qed simp

lemma define_json_roundtrip:
  assumes "json_laws ops" and "define_wf d"
  shows "define_of_json ops type0 level0 (define_to_json ops d) = Inr (if ld_appenders d = [] then None else Some d)"
proof -
  let ?j = "define_to_json ops d"
  let ?fs = "[(''name'', j_string ops (ld_name d)), (''level'', j_string ops (level_to_string (ld_level d)))]
    @ formatter_member ops (ld_formatter d)"
  let ?arr = "push_all ops (j_null ops) (map (appender_to_json ops) (ld_appenders d))"
  let ?M = "\<lambda>k. if k = ''appenders'' then (if ld_appenders d = [] then None else Some ?arr) else map_of (rev ?fs) k"
  have "''appenders'' \<notin> fst ` set ?fs" by (cases "ld_formatter d") (simp_all add: formatter_member_def)
  from appenders_member [OF assms(1) this, of "ld_appenders d"] obtain fs' where
    "?j = put_all ops (j_null ops) fs'" "\<And>k. map_of (rev fs') k = ?M k" unfolding define_to_json_def by blast
  then have j: "j_find ops ?j k = ?M k" for k by (simp only: json_lawsD(2) [OF assms(1)])
  note F = fields_of_members [OF assms(1) j]
  have "string_field ops ?j ''name'' = Inr (Some (ld_name d))"
    by (rule F(1)) (simp add: formatter_member_def split: option.split)
  moreover have "level_field ops level0 ?j = Inr (ld_level d)"
    by (rule F(3)) (simp add: formatter_member_def split: option.split)
  moreover have "formatter_field ops ?j = Inr (ld_formatter d)"
    by (rule F(4)) (use assms(2) in \<open>simp_all add: define_wf_def formatter_member_def split: option.split\<close>)
  moreover have "for_json ops (push_appender ops type0) ?arr [] = Inr (ld_appenders d)"
    using assms(2) by (simp add: for_json_elements [OF assms(1)] appenders_json_roundtrip [OF assms(1)] define_wf_def)
  ultimately show ?thesis by (simp add: define_of_json_def j)
qed

lemma run_over_defines:
  assumes "json_laws ops"
  shows "list_all define_wf ds \<Longrightarrow> distinct (map ld_name (acc @ ds)) \<Longrightarrow>
    run_over (\<lambda>x ds. then_run (define_of_json ops type0 level0 x) (\<lambda>d. Inr (case d of None \<Rightarrow> ds | Some d \<Rightarrow> insert_define d ds)))
      (map (define_to_json ops) ds) acc = Inr (acc @ filter (\<lambda>d. ld_appenders d \<noteq> []) ds)"
proof (induction ds arbitrary: acc)
  case (Cons d ds)
  have "ld_name d \<notin> ld_name ` set acc" using Cons.prems(2) by auto
  then show ?case using Cons.prems Cons.IH [of acc] Cons.IH [of "acc @ [d]"]
    by (simp add: define_json_roundtrip [OF assms] insert_define_def)
qed simp

text \<open>Log definitions survive the way through the configuration: converting a set of definitions to JSON and back gives
  the same definitions, with their levels, formatters and appenders in order, for every JSON package that keeps what is put into
  its values; only the definitions without an appender get lost.\<close>

theorem json_defines_roundtrip:
  assumes "json_laws ops" and "list_all define_wf ds" and "distinct (map ld_name ds)"
  shows "defines_of_json ops type0 level0 (defines_to_json ops ds) = Inr (filter (\<lambda>d. ld_appenders d \<noteq> []) ds)"
  unfolding defines_of_json_def defines_to_json_def for_json_elements [OF assms(1)]
  using run_over_defines [OF assms(1,2), of "[]"] assms(3) by simp

text \<open>A small JSON with strings: members of an object are found from the last one put.\<close>

datatype str_json = TNull | TStr string | TArr "str_json list" | TObj "(string \<times> str_json) list"

definition str_ops :: "str_json json_build" where
  "str_ops = \<lparr>j_null = TNull, j_clear = (\<lambda>_. TNull),
     j_size = (\<lambda>j. case j of TArr xs \<Rightarrow> length xs | TObj fs \<Rightarrow> length fs | TStr _ \<Rightarrow> 1 | TNull \<Rightarrow> 0),
     j_index = (\<lambda>j i. case j of TArr xs \<Rightarrow> if i < length xs then Some (xs ! i) else None | _ \<Rightarrow> None),
     j_find = (\<lambda>j s. case j of TObj fs \<Rightarrow> map_of fs s | _ \<Rightarrow> None),
     j_string = TStr,
     j_str = (\<lambda>j. case j of TStr s \<Rightarrow> Some s | _ \<Rightarrow> None),
     j_put = (\<lambda>j k v. case j of TObj fs \<Rightarrow> TObj ((k, v) # fs) | _ \<Rightarrow> TObj [(k, v)]),
     j_push = (\<lambda>j v. case j of TArr xs \<Rightarrow> TArr (xs @ [v]) | _ \<Rightarrow> TArr [v])\<rparr>"

lemma str_ops_put: "put_all str_ops (TObj gs) fs = TObj (rev fs @ gs)"
  by (induction fs arbitrary: gs) (auto simp: put_all_def str_ops_def)

lemma str_ops_push: "push_all str_ops (TArr ys) xs = TArr (ys @ xs)"
  by (induction xs arbitrary: ys) (auto simp: push_all_def str_ops_def)

lemma str_ops_null: "put_all str_ops TNull fs = (if fs = [] then TNull else TObj (rev fs))"
  "push_all str_ops TNull xs = (if xs = [] then TNull else TArr xs)"
  using str_ops_put [of "[hd fs]" "tl fs"] str_ops_push [of "[hd xs]" "tl xs"]
  by (cases fs; cases xs; auto simp: put_all_def push_all_def str_ops_def)+

lemma str_ops_laws: "json_laws str_ops"
  unfolding json_laws_def using str_ops_null by (auto simp: str_ops_def)

theorem json_defines_roundtrip_witness:
  "defines_of_json str_ops 5 UNKNOWN (defines_to_json str_ops
     [\<lparr>ld_name = ''root'', ld_level = WARN, ld_formatter = None, ld_appenders =
         [\<lparr>d_type = 1, d_level = INFO, d_formatter = Some (LogFormatter_new ''%m%n''), d_file = ''a.log''\<rparr>]\<rparr>,
      \<lparr>ld_name = ''bare'', ld_level = INFO, ld_formatter = None, ld_appenders = []\<rparr>])
   = Inr [\<lparr>ld_name = ''root'', ld_level = WARN, ld_formatter = None, ld_appenders =
         [\<lparr>d_type = 1, d_level = INFO, d_formatter = Some (LogFormatter_new ''%m%n''), d_file = ''a.log''\<rparr>]\<rparr>]"
  using json_defines_roundtrip [OF str_ops_laws, of "[\<lparr>ld_name = ''root'', ld_level = WARN, ld_formatter = None, ld_appenders =
         [\<lparr>d_type = 1, d_level = INFO, d_formatter = Some (LogFormatter_new ''%m%n''), d_file = ''a.log''\<rparr>]\<rparr>,
      \<lparr>ld_name = ''bare'', ld_level = INFO, ld_formatter = None, ld_appenders = []\<rparr>]" 5 UNKNOWN]
  by (simp add: define_wf_def appender_wf_def formatter_wf_def LogFormatter_new_def Let_def)


subsection \<open>From the configuration file to the loggers\<close>

text \<open>
  The variable \<^verbatim>\<open>s_loggers\<close>, registered for the path \<^verbatim>\<open>logs\<close> with \<^verbatim>\<open>updataLogger\<close> as its callback, and the callbacks of
  it that a change of the configuration has called.
\<close>

definition s_loggers :: "'j json_build \<Rightarrow> int \<Rightarrow> log_level \<Rightarrow> log_define list \<Rightarrow> ('j, log_define list) config_data
    \<Rightarrow> failure + int \<times> ('j, log_define list) config_data" where
  "s_loggers ops type0 level0 default_value c =
     ConfigVar_new (json_ops.truncate ops) ''logs'' default_value (defines_of_json ops type0 level0) True c"

definition run_calls :: "(string \<Rightarrow> bool) \<Rightarrow> nat \<Rightarrow> (int \<times> log_define list) list \<Rightarrow> log_manager \<Rightarrow> log_manager" where
  "run_calls opens base calls m = fold (\<lambda>(key, ds). updataLogger opens base ds) calls m"

lemma logs_path: "getJsonValueByPath ops j ''logs'' = Inr (j_find ops j ''logs'')"
  by (simp add: getJsonValueByPath.simps [of ops j] json_step_def digit_def)

lemma truncate_find: "j_find (json_ops.truncate ops) = j_find ops"
  by (simp add: json_ops.truncate_def)

text \<open>C35. A configuration reaches the loggers: when a program that has registered only the variable of the logging system sets a
  configuration whose member \<^verbatim>\<open>logs\<close> is the JSON form of definitions with different names, each well formed and with at least one
  appender, the call returns, and every defined logger of the manager has exactly the level, the formatter and the appenders of its
  definition, at the pointer it had before.\<close>

theorem config_reaches_loggers:
  assumes "json_laws ops" and "list_all define_wf ds" and "distinct (map ld_name ds)" and "mgr_inv m"
    and "list_all (\<lambda>d. ld_appenders d \<noteq> []) ds"
    and "j_find ops cfg ''logs'' = Some (defines_to_json ops ds)"
    and "s_loggers ops type0 level0 old (ConfigData_default (json_ops.truncate ops)) = Inr (key, c)"
  shows "\<exists>c'. setConfig_move (json_ops.truncate ops) cfg Free c = Some (None, c') \<and> getValue key c' = Some ds \<and>
    (\<exists>calls. cd_calls c' = cd_calls c @ calls \<and>
      (\<forall>d \<in> set ds. \<exists>p. map_of (m_loggers (run_calls opens base calls m)) (ld_name d) = Some p \<and>
         (\<forall>q. map_of (m_loggers m) (ld_name d) = Some q \<longrightarrow> p = q) \<and>
         toDefine (m_store (run_calls opens base calls m) p) = Inr (completed d)))"
proof -
  let ?var = "\<lambda>v. \<lparr>cv_path = ''logs'', cv_conv = defines_of_json ops type0 level0, cv_val = v, cv_cb = True\<rparr>"
  have f: "filter (\<lambda>d. ld_appenders d \<noteq> []) ds = ds" using assms(5) by (simp add: filter_id_conv list_all_iff)
  have conv: "defines_of_json ops type0 level0 (defines_to_json ops ds) = Inr ds"
    unfolding defines_of_json_def defines_to_json_def for_json_elements [OF assms(1)]
    using run_over_defines [OF assms(1,2), of "[]"] assms(3) f by simp
  obtain v where c: "cd_vars c = [(key, ?var v)]"
    using assms(7) by (auto simp: s_loggers_def ConfigVar_new_def addListener_def ConfigData_default_def Let_def split: sum.splits option.splits)
  let ?c' = "c\<lparr>cd_json := cfg, cd_vars := [(key, ?var ds)], cd_calls := cd_calls c @ [(key, ds)]\<rparr>"
  have "setConfig_move (json_ops.truncate ops) cfg Free c = Some (None, ?c')"
    by (simp add: setConfig_move_Free run_listeners_def c notify_def logs_path truncate_find assms(6) conv)
  moreover have "getValue key ?c' = Some ds" by (simp add: getValue_def)
  moreover have "list_all (\<lambda>d. list_all appender_ok (ld_appenders d)) ds"
    using assms(2) by (auto simp: list_all_iff define_wf_def appender_wf_def appender_ok_def)
  then have "\<exists>p. map_of (m_loggers (run_calls opens base [(key, ds)] m)) (ld_name d) = Some p \<and>
      (\<forall>q. map_of (m_loggers m) (ld_name d) = Some q \<longrightarrow> p = q) \<and>
      toDefine (m_store (run_calls opens base [(key, ds)] m) p) = Inr (completed d)" if "d \<in> set ds" for d
    using configured_parts [OF assms(4,3), of d opens base] that by (simp add: run_calls_def)
  ultimately show ?thesis by (intro exI [of _ ?c']) simp
qed

theorem config_reaches_loggers_witness:
  "let ds = [\<lparr>ld_name = ''root'', ld_level = WARN, ld_formatter = None, ld_appenders =
       [\<lparr>d_type = 0, d_level = INFO, d_formatter = None, d_file = ''''\<rparr>]\<rparr>] in
   \<exists>c c'. s_loggers str_ops 5 UNKNOWN [] (ConfigData_default (json_ops.truncate str_ops)) = Inr (1, c) \<and>
     setConfig_move (json_ops.truncate str_ops) (TObj [(''logs'', defines_to_json str_ops ds)]) Free c = Some (None, c') \<and> getValue 1 c' = Some ds"
proof -
  let ?ds = "[\<lparr>ld_name = ''root'', ld_level = WARN, ld_formatter = None, ld_appenders =
       [\<lparr>d_type = 0, d_level = INFO, d_formatter = None, d_file = ''''\<rparr>]\<rparr>]"
  have n: "j_find str_ops (j_null (json_ops.truncate str_ops)) ''logs'' = None" by (simp add: str_ops_def json_ops.truncate_def)
  obtain c where c: "s_loggers str_ops 5 UNKNOWN [] (ConfigData_default (json_ops.truncate str_ops)) = Inr (1, c)"
    using n by (simp add: s_loggers_def ConfigVar_new_def addListener_def ConfigData_default_def logs_path truncate_find Let_def)
  have "list_all define_wf ?ds" by (simp add: define_wf_def appender_wf_def formatter_wf_def)
  moreover have "j_find str_ops (TObj [(''logs'', defines_to_json str_ops ?ds)]) ''logs'' = Some (defines_to_json str_ops ?ds)"
    by (subst str_ops_def) simp
  ultimately show ?thesis using c config_reaches_loggers [OF str_ops_laws _ _ mgr_inv_new _ _ c, where ds = ?ds] by (simp add: Let_def) blast
qed

end
