(* ===== verification/Socket.thy ===== *)
theory Socket
  imports Hook Address
begin

section \<open>Sockets (basic/socket)\<close>

text \<open>
  A \<^verbatim>\<open>Socket\<close> object owns a descriptor. Its operations are functions on the object and on the descriptor
  contexts; what the system calls return is an argument. The calls that a socket makes are recorded as a list of
  \<open>sock_act\<close>: \<open>Opened\<close> is a successful \<^verbatim>\<open>socket\<close> or \<^verbatim>\<open>accept\<close>, \<open>Closed\<close> a call of \<^verbatim>\<open>IOManager::closeFd\<close>.
\<close>

record socket =
  m_sock_fd :: int
  m_family :: u16
  m_protocol :: int
  m_type :: int
  m_is_set_reuseport :: int
  m_isConnected :: bool
  m_local_address :: "address option"
  m_remote_address :: "address option"

datatype sock_act = Opened int | Closed int | SetOption int int int | SetNonblock int | Cancelled int event

abbreviation SOCK_STREAM :: int where "SOCK_STREAM \<equiv> 1"
abbreviation SOCK_DGRAM :: int where "SOCK_DGRAM \<equiv> 2"
abbreviation SO_REUSEADDR :: int where "SO_REUSEADDR \<equiv> 2"
abbreviation SO_REUSEPORT :: int where "SO_REUSEPORT \<equiv> 15"
abbreviation IPPROTO_TCP :: int where "IPPROTO_TCP \<equiv> 6"
abbreviation TCP_NODELAY :: int where "TCP_NODELAY \<equiv> 1"

subsection \<open>Objects\<close>

text \<open>The address family is an \<^verbatim>\<open>int\<close> in the code; its values are those of \<^verbatim>\<open>sa_family_t\<close>, 16 bits.\<close>

definition Socket_new :: "u16 \<Rightarrow> int \<Rightarrow> int \<Rightarrow> socket" where
  "Socket_new fam type protocol =
     \<lparr>m_sock_fd = -1, m_family = fam, m_protocol = protocol, m_type = type, m_is_set_reuseport = 1,
      m_isConnected = False, m_local_address = None, m_remote_address = None\<rparr>"

definition Socket_destroy :: "socket \<Rightarrow> sock_act list" where
  "Socket_destroy s = (if m_sock_fd s \<noteq> -1 then [Closed (m_sock_fd s)] else [])"

text \<open>The move constructor: the new object and what is left of the other one.\<close>

definition Socket_move :: "socket \<Rightarrow> socket \<times> socket" where
  "Socket_move other =
     (\<lparr>m_sock_fd = m_sock_fd other, m_family = m_family other, m_protocol = m_protocol other, m_type = m_type other,
       m_is_set_reuseport = m_is_set_reuseport other, m_isConnected = m_isConnected other,
       m_local_address = m_local_address other, m_remote_address = m_remote_address other\<rparr>,
      other\<lparr>m_sock_fd := -1, m_isConnected := False\<rparr>)"

text \<open>The move assignment of two different objects.\<close>

definition Socket_move_assign :: "socket \<Rightarrow> socket \<Rightarrow> sock_act list \<times> socket \<times> socket" where
  "Socket_move_assign this other =
     (if m_sock_fd this \<noteq> -1 then [Closed (m_sock_fd this)] else [],
      \<lparr>m_sock_fd = m_sock_fd other, m_family = m_family other, m_protocol = m_protocol other, m_type = m_type other,
       m_is_set_reuseport = m_is_set_reuseport other, m_isConnected = m_isConnected other,
       m_local_address = m_local_address other, m_remote_address = m_remote_address other\<rparr>,
      other\<lparr>m_sock_fd := -1, m_isConnected := False\<rparr>)"

definition Socket_isValid :: "socket \<Rightarrow> bool" where
  "Socket_isValid s \<longleftrightarrow> m_sock_fd s \<noteq> -1"

text \<open>The options that a new descriptor gets.\<close>

definition initSock :: "socket \<Rightarrow> sock_act list" where
  "initSock s =
     [SetOption (m_sock_fd s) SOL_SOCKET SO_REUSEADDR, SetNonblock (m_sock_fd s)] @
     (if m_type s = SOCK_STREAM then [SetOption (m_sock_fd s) IPPROTO_TCP TCP_NODELAY] else [])"

text \<open>
  The results of the system calls for a new descriptor: the descriptor or \<open>-1\<close>, and what \<^verbatim>\<open>fstat\<close> and
  \<^verbatim>\<open>F_GETFL\<close> tell of it.
\<close>

type_synonym new_fd = "int \<times> bool option \<times> bool"

definition newSock :: "new_fd \<Rightarrow> socket \<Rightarrow> fd_mgr \<Rightarrow> failure + sock_act list \<times> socket \<times> fd_mgr" where
  "newSock nf s m =
     (case nf of (fd, st, nonblock) \<Rightarrow>
        (case co_socket fd st nonblock m of
           Inl e \<Rightarrow> Inl e
         | Inr (fd, m) \<Rightarrow>
             (let s = s\<lparr>m_sock_fd := fd\<rparr> in Inr (if fd \<noteq> -1 then Opened fd # initSock s else [], s, m))))"

definition Socket_create :: "u16 \<Rightarrow> int \<Rightarrow> new_fd \<Rightarrow> fd_mgr \<Rightarrow> failure + sock_act list \<times> socket \<times> fd_mgr" where
  "Socket_create fam type nf m = newSock nf (Socket_new fam type 0) m"

fun addr_family :: "address \<Rightarrow> u16" where
  "addr_family (IPv4 a) = sin_family a"
| "addr_family (IPv6 a) = sin6_family a"
| "addr_family (Unix a) = AF_UNIX"
| "addr_family (Unknown f) = f"

definition CreateTCP :: "address \<Rightarrow> new_fd \<Rightarrow> fd_mgr \<Rightarrow> failure + sock_act list \<times> socket \<times> fd_mgr" where
  "CreateTCP a = Socket_create (addr_family a) SOCK_STREAM"

definition CreateUDP :: "address \<Rightarrow> new_fd \<Rightarrow> fd_mgr \<Rightarrow> failure + sock_act list \<times> socket \<times> fd_mgr" where
  "CreateUDP a = Socket_create (addr_family a) SOCK_DGRAM"

definition CreateTCPSocket :: "new_fd \<Rightarrow> fd_mgr \<Rightarrow> failure + sock_act list \<times> socket \<times> fd_mgr" where
  "CreateTCPSocket = Socket_create AF_INET SOCK_STREAM"

definition CreateUDPSocket :: "new_fd \<Rightarrow> fd_mgr \<Rightarrow> failure + sock_act list \<times> socket \<times> fd_mgr" where
  "CreateUDPSocket = Socket_create AF_INET SOCK_DGRAM"

definition CreateTCPSocket6 :: "new_fd \<Rightarrow> fd_mgr \<Rightarrow> failure + sock_act list \<times> socket \<times> fd_mgr" where
  "CreateTCPSocket6 = Socket_create AF_INET6 SOCK_STREAM"

definition CreateUDPSocket6 :: "new_fd \<Rightarrow> fd_mgr \<Rightarrow> failure + sock_act list \<times> socket \<times> fd_mgr" where
  "CreateUDPSocket6 = Socket_create AF_INET6 SOCK_DGRAM"

definition CreateUnixTCPSocket :: "new_fd \<Rightarrow> fd_mgr \<Rightarrow> failure + sock_act list \<times> socket \<times> fd_mgr" where
  "CreateUnixTCPSocket = Socket_create AF_UNIX SOCK_STREAM"

definition CreateUnixUDPSocket :: "new_fd \<Rightarrow> fd_mgr \<Rightarrow> failure + sock_act list \<times> socket \<times> fd_mgr" where
  "CreateUnixUDPSocket = Socket_create AF_UNIX SOCK_DGRAM"

subsection \<open>Time limits and options\<close>

definition sock_getTimeOut :: "int \<Rightarrow> socket \<Rightarrow> fd_mgr \<Rightarrow> failure + u64" where
  "sock_getTimeOut type s m =
     (case fdm_get (m_sock_fd s) False None False m of
        Inl e \<Rightarrow> Inl e
      | Inr (None, _) \<Rightarrow> Inr (-1)
      | Inr (Some r, _) \<Rightarrow> Inr (FdCtx_getTimeout type (ctx_store m r)))"

definition sock_setTimeOut :: "int \<Rightarrow> u64 \<Rightarrow> socket \<Rightarrow> fd_mgr \<Rightarrow> failure + fd_mgr" where
  "sock_setTimeOut type time s m =
     (case fdm_get (m_sock_fd s) False None False m of
        Inl e \<Rightarrow> Inl e
      | Inr (None, _) \<Rightarrow> Inr m
      | Inr (Some r, _) \<Rightarrow> Inr (update_ctx r (FdCtx_setTimeout type time) m))"

definition getSendTimeOut :: "socket \<Rightarrow> fd_mgr \<Rightarrow> failure + u64" where
  "getSendTimeOut = sock_getTimeOut SO_SNDTIMEO"

definition setSendTimeOut :: "u64 \<Rightarrow> socket \<Rightarrow> fd_mgr \<Rightarrow> failure + fd_mgr" where
  "setSendTimeOut = sock_setTimeOut SO_SNDTIMEO"

definition getRecvTimeOut :: "socket \<Rightarrow> fd_mgr \<Rightarrow> failure + u64" where
  "getRecvTimeOut = sock_getTimeOut SO_RCVTIMEO"

definition setRecvTimeOut :: "u64 \<Rightarrow> socket \<Rightarrow> fd_mgr \<Rightarrow> failure + fd_mgr" where
  "setRecvTimeOut = sock_setTimeOut SO_RCVTIMEO"

text \<open>\<open>rt\<close>: what \<^verbatim>\<open>getsockopt\<close> or \<^verbatim>\<open>setsockopt\<close> returns. The template returns it converted to a boolean.\<close>

definition sock_getOption :: "int \<Rightarrow> bool" where
  "sock_getOption rt = (if rt \<noteq> 0 then False else True)"

definition sock_setOption :: "int \<Rightarrow> int \<Rightarrow> int \<times> int \<Rightarrow> int \<Rightarrow> socket \<Rightarrow> fd_mgr \<Rightarrow> failure + bool \<times> fd_mgr" where
  "sock_setOption level option tv rt s m =
     (case co_setsockopt (m_sock_fd s) level option tv m of
        Inl e \<Rightarrow> Inl e
      | Inr m \<Rightarrow> Inr (if rt \<noteq> 0 then False else True, m))"

definition sock_setOption_typed :: "int \<Rightarrow> int \<Rightarrow> int \<times> int \<Rightarrow> int \<Rightarrow> socket \<Rightarrow> fd_mgr \<Rightarrow> failure + bool \<times> fd_mgr" where
  "sock_setOption_typed level option tv rt s m =
     (case co_setsockopt (m_sock_fd s) level option tv m of
        Inl e \<Rightarrow> Inl e
      | Inr m \<Rightarrow> Inr (rt \<noteq> 0, m))"

subsection \<open>Addresses\<close>

text \<open>
  \<open>name fam\<close>: what \<^verbatim>\<open>getpeername\<close> or \<^verbatim>\<open>getsockname\<close> writes into a new address object of the class chosen by the
  family, with the length it stores; \<open>None\<close> when the call fails.
\<close>

type_synonym sock_name = "u16 \<Rightarrow> (address \<times> u32) option"

fun correct_length :: "address \<Rightarrow> u32 \<Rightarrow> address" where
  "correct_length (Unix a) len = Unix (a\<lparr>m_addr_size := len\<rparr>)"
| "correct_length a len = a"

definition getRemoteAddress :: "sock_name \<Rightarrow> socket \<Rightarrow> address option \<times> socket" where
  "getRemoteAddress name s =
     (if m_remote_address s \<noteq> None then (m_remote_address s, s)
      else (case name (m_family s) of
              None \<Rightarrow> (None, s)
            | Some (a, len) \<Rightarrow>
                (let result = correct_length a len in (Some result, s\<lparr>m_remote_address := Some result\<rparr>))))"

text \<open>The first test looks at the remote address.\<close>

definition getLocalAddress :: "sock_name \<Rightarrow> socket \<Rightarrow> address option \<times> socket" where
  "getLocalAddress name s =
     (if m_remote_address s \<noteq> None then (m_local_address s, s)
      else (case name (m_family s) of
              None \<Rightarrow> (None, s)
            | Some (a, len) \<Rightarrow>
                (let result = correct_length a len in (Some result, s\<lparr>m_local_address := Some result\<rparr>))))"

subsection \<open>Connections\<close>

text \<open>\<open>st\<close> and \<open>nonblock\<close> as for new descriptors; \<open>sockname\<close> and \<open>peername\<close> answer for this descriptor.\<close>

definition Socket_init :: "bool option \<Rightarrow> bool \<Rightarrow> sock_name \<Rightarrow> sock_name \<Rightarrow> int \<Rightarrow> socket \<Rightarrow> fd_mgr
    \<Rightarrow> failure + bool \<times> sock_act list \<times> socket \<times> fd_mgr" where
  "Socket_init st nonblock sockname peername sock_fd s m =
     (case fdm_get sock_fd True st nonblock m of
        Inl e \<Rightarrow> Inl e
      | Inr (None, m) \<Rightarrow> Inr (False, [], s, m)
      | Inr (Some r, m) \<Rightarrow>
          if m_is_socket (ctx_store m r) \<and> \<not> m_is_closed (ctx_store m r)
          then (let s = s\<lparr>m_sock_fd := sock_fd, m_isConnected := True\<rparr>;
                    acts = initSock s;
                    s = snd (getLocalAddress sockname s);
                    s = snd (getRemoteAddress peername s)
                in Inr (True, acts, s, m))
          else Inr (False, [], s, m))"

text \<open>\<open>new_sock_fd\<close> is the result of \<^verbatim>\<open>co_accept\<close>.\<close>

definition Socket_accept :: "int \<Rightarrow> bool option \<Rightarrow> bool \<Rightarrow> sock_name \<Rightarrow> sock_name \<Rightarrow> socket \<Rightarrow> fd_mgr
    \<Rightarrow> failure + socket option \<times> sock_act list \<times> fd_mgr" where
  "Socket_accept new_sock_fd st nonblock sockname peername s m =
     (let new_sock = Socket_new (m_family s) (m_type s) (m_protocol s)
      in if new_sock_fd = -1 then Inr (None, [], m)
         else (case Socket_init st nonblock sockname peername new_sock_fd new_sock m of
                 Inl e \<Rightarrow> Inl e
               | Inr (ok, acts, new_sock, m) \<Rightarrow>
                   Inr (if ok then Some new_sock else None, Opened new_sock_fd # acts, m)))"

text \<open>The head of \<^verbatim>\<open>bind\<close> and \<^verbatim>\<open>connect\<close>: a descriptor is created where there is none.\<close>

definition ensure_sock :: "new_fd \<Rightarrow> socket \<Rightarrow> fd_mgr \<Rightarrow> failure + sock_act list \<times> socket \<times> fd_mgr" where
  "ensure_sock nf s m = (if \<not> Socket_isValid s then newSock nf s m else Inr ([], s, m))"

definition Socket_bind :: "new_fd \<Rightarrow> int \<Rightarrow> address \<Rightarrow> socket \<Rightarrow> fd_mgr \<Rightarrow> failure + bool \<times> sock_act list \<times> socket \<times> fd_mgr" where
  "Socket_bind nf rt addr s m =
     (case ensure_sock nf s m of
        Inl e \<Rightarrow> Inl e
      | Inr (acts, s, m) \<Rightarrow>
          if \<not> Socket_isValid s then Inr (False, acts, s, m)
          else (let (acts, s) = (if m_is_set_reuseport s \<noteq> 0
                                 then (acts @ [SetOption (m_sock_fd s) SOL_SOCKET SO_REUSEPORT], s\<lparr>m_is_set_reuseport := 0\<rparr>)
                                 else (acts, s))
                in if addr_family addr \<noteq> m_family s then Inr (False, acts, s, m)
                   else if rt \<noteq> 0 then Inr (False, acts, s, m)
                   else Inr (True, acts, s, m)))"

definition Socket_connect :: "new_fd \<Rightarrow> int \<Rightarrow> sock_name \<Rightarrow> sock_name \<Rightarrow> address \<Rightarrow> socket \<Rightarrow> fd_mgr
    \<Rightarrow> failure + bool \<times> sock_act list \<times> socket \<times> fd_mgr" where
  "Socket_connect nf rt sockname peername addr s m =
     (case ensure_sock nf s m of
        Inl e \<Rightarrow> Inl e
      | Inr (acts, s, m) \<Rightarrow>
          if \<not> Socket_isValid s then Inr (False, acts, s, m)
          else if addr_family addr \<noteq> m_family s then Inr (False, acts, s, m)
          else if rt \<noteq> 0 then Inr (False, acts, s, m)
          else (let s = s\<lparr>m_isConnected := True\<rparr>;
                    s = snd (getRemoteAddress peername s);
                    s = snd (getLocalAddress sockname s)
                in Inr (True, acts, s, m)))"

definition Socket_listen :: "int \<Rightarrow> socket \<Rightarrow> bool" where
  "Socket_listen rt s = (if \<not> Socket_isValid s then False else if rt \<noteq> 0 then False else True)"

definition Socket_close :: "socket \<Rightarrow> bool \<times> sock_act list \<times> socket" where
  "Socket_close s =
     (if \<not> m_isConnected s \<or> m_sock_fd s = -1 then (True, [], s)
      else (let s = s\<lparr>m_isConnected := False\<rparr>
            in if m_sock_fd s \<noteq> -1 then (False, [Closed (m_sock_fd s)], s\<lparr>m_sock_fd := -1\<rparr>) else (False, [], s)))"

definition cancelRead :: "socket \<Rightarrow> bool \<times> sock_act list" where
  "cancelRead s = (True, [Cancelled (m_sock_fd s) READ])"

definition cancelWrite :: "socket \<Rightarrow> bool \<times> sock_act list" where
  "cancelWrite s = (True, [Cancelled (m_sock_fd s) WRITE])"

definition sock_cancelAll :: "socket \<Rightarrow> bool \<times> sock_act list" where
  "sock_cancelAll s = (True, [Cancelled (m_sock_fd s) (READ OR WRITE)])"

subsection \<open>Sending and receiving\<close>

text \<open>The calls that the wrappers of the hooks make; \<open>f q k\<close> is the result and \<^verbatim>\<open>errno\<close> of the call \<open>q\<close> at its \<open>k\<close>-th try.\<close>

record msghdr =
  msg_name :: "address option"
  msg_iov :: "bytes list"
  msg_iovlen :: nat

datatype io_request =
  Send_call bytes int
| Sendmsg_call msghdr int
| Sendto_call bytes int address
| Recv_call nat int
| Recvmsg_call msghdr int
| Recvfrom_call nat int address

type_synonym io_env = "(io_request \<Rightarrow> nat \<Rightarrow> int \<times> int) \<times> (nat \<Rightarrow> limit_state)"

definition ret_of :: "(failure + io_result) option \<Rightarrow> (failure + int) option" where
  "ret_of r = map_option (map_sum (\<lambda>e. e) io_ret) r"

definition Socket_send :: "io_env \<Rightarrow> bytes \<Rightarrow> int \<Rightarrow> socket \<Rightarrow> fd_mgr \<Rightarrow> (failure + int) option" where
  "Socket_send e buffer flags s m =
     (if m_isConnected s then ret_of (co_write_like (fst e (Send_call buffer flags)) (snd e) (m_sock_fd s) m)
      else Some (Inr (-1)))"

definition Socket_send_iov :: "io_env \<Rightarrow> bytes list \<Rightarrow> int \<Rightarrow> socket \<Rightarrow> fd_mgr \<Rightarrow> (failure + int) option" where
  "Socket_send_iov e buffers flags s m =
     (if m_isConnected s
      then (let message = \<lparr>msg_name = None, msg_iov = buffers, msg_iovlen = length buffers\<rparr>
            in ret_of (co_write_like (fst e (Sendmsg_call message flags)) (snd e) (m_sock_fd s) m))
      else Some (Inr (-1)))"

definition Socket_sendTo :: "io_env \<Rightarrow> address \<Rightarrow> bytes \<Rightarrow> int \<Rightarrow> socket \<Rightarrow> fd_mgr \<Rightarrow> (failure + int) option" where
  "Socket_sendTo e to buffer flags s m =
     (if m_isConnected s then ret_of (co_write_like (fst e (Sendto_call buffer flags to)) (snd e) (m_sock_fd s) m)
      else Some (Inr (-1)))"

definition Socket_sendTo_iov :: "io_env \<Rightarrow> address \<Rightarrow> bytes list \<Rightarrow> int \<Rightarrow> socket \<Rightarrow> fd_mgr \<Rightarrow> (failure + int) option" where
  "Socket_sendTo_iov e to buffers flags s m =
     (if m_isConnected s
      then (let message = \<lparr>msg_name = Some to, msg_iov = buffers, msg_iovlen = length buffers\<rparr>
            in ret_of (co_write_like (fst e (Sendmsg_call message flags)) (snd e) (m_sock_fd s) m))
      else Some (Inr (-1)))"

definition Socket_recv :: "io_env \<Rightarrow> nat \<Rightarrow> int \<Rightarrow> socket \<Rightarrow> fd_mgr \<Rightarrow> (failure + int) option" where
  "Socket_recv e len flags s m =
     (if m_isConnected s then ret_of (co_read_like (fst e (Recv_call len flags)) (snd e) (m_sock_fd s) m)
      else Some (Inr (-2)))"

definition Socket_recv_iov :: "io_env \<Rightarrow> bytes list \<Rightarrow> int \<Rightarrow> socket \<Rightarrow> fd_mgr \<Rightarrow> (failure + int) option" where
  "Socket_recv_iov e buffers flags s m =
     (if m_isConnected s
      then (let message = \<lparr>msg_name = None, msg_iov = buffers, msg_iovlen = length buffers\<rparr>
            in ret_of (co_read_like (fst e (Recvmsg_call message flags)) (snd e) (m_sock_fd s) m))
      else Some (Inr (-1)))"

text \<open>\<open>len\<close>: the length that \<^verbatim>\<open>recvfrom\<close> stores for the address of the sender.\<close>

definition Socket_recvFrom :: "io_env \<Rightarrow> u32 \<Rightarrow> address \<Rightarrow> nat \<Rightarrow> int \<Rightarrow> socket \<Rightarrow> fd_mgr \<Rightarrow> (failure + int \<times> address) option" where
  "Socket_recvFrom e len from n flags s m =
     (if m_isConnected s
      then map_option (map_sum (\<lambda>e. e) (\<lambda>status. (status, if addr_family from = AF_UNIX then correct_length from len else from)))
             (ret_of (co_read_like (fst e (Recvfrom_call n flags from)) (snd e) (m_sock_fd s) m))
      else Some (Inr (-1, from)))"

definition Socket_recvFrom_iov :: "io_env \<Rightarrow> address \<Rightarrow> bytes list \<Rightarrow> int \<Rightarrow> socket \<Rightarrow> fd_mgr \<Rightarrow> (failure + int) option" where
  "Socket_recvFrom_iov e from buffers flags s m =
     (if m_isConnected s
      then (let message = \<lparr>msg_name = Some from, msg_iov = buffers, msg_iovlen = length buffers\<rparr>
            in ret_of (co_read_like (fst e (Recvmsg_call message flags)) (snd e) (m_sock_fd s) m))
      else Some (Inr (-1)))"

text \<open>The printed form; \<open>pr\<close> prints an address.\<close>

definition dec_signed :: "int \<Rightarrow> string" where
  "dec_signed n = (if n < 0 then ''-'' @ dec (nat (- n)) else dec (nat n))"

definition sock_dump :: "(address \<Rightarrow> string) \<Rightarrow> socket \<Rightarrow> string" where
  "sock_dump pr s =
     ''socket family : '' @ dec (unat (m_family s)) @ CHR 0x0A # ''protocol : '' @ dec_signed (m_protocol s) @
     CHR 0x0A # ''socket fd : '' @ dec_signed (m_sock_fd s) @ CHR 0x0A # ''type : '' @ dec_signed (m_type s) @
     (case m_local_address s of None \<Rightarrow> [] | Some a \<Rightarrow> CHR 0x0A # '' local address : '' @ CHR 0x0A # pr a) @
     (case m_remote_address s of None \<Rightarrow> [] | Some a \<Rightarrow> CHR 0x0A # '' remote address : '' @ CHR 0x0A # pr a)"

definition dump_short :: "(address \<Rightarrow> string) \<Rightarrow> socket \<Rightarrow> string" where
  "dump_short pr s = (case m_remote_address s of None \<Rightarrow> [] | Some a \<Rightarrow> ''remote address : '' @ pr a)"

subsection \<open>Programs that use sockets\<close>

text \<open>
  The sockets that exist, the calls made so far, the descriptor contexts, and the descriptors that \<^verbatim>\<open>accept\<close> got but
  gave to no socket. A program creates, moves, assigns, uses and destroys sockets by their positions.
\<close>

record sock_world =
  w_socks :: "socket list"
  w_acts :: "sock_act list"
  w_fds :: fd_mgr
  w_lost :: "int list"

datatype sock_op =
  Op_create u16 int new_fd
| Op_move nat
| Op_assign nat nat
| Op_destroy nat
| Op_accept nat int "bool option" bool sock_name sock_name
| Op_bind nat new_fd int address
| Op_connect nat new_fd int sock_name sock_name address
| Op_close nat

text \<open>Adding calls, and putting the socket of a position back.\<close>

definition w_put :: "nat \<Rightarrow> sock_act list \<times> socket \<times> fd_mgr \<Rightarrow> sock_world \<Rightarrow> sock_world" where
  "w_put i r w = (case r of (acts, s, m) \<Rightarrow> w\<lparr>w_socks := (w_socks w)[i := s], w_acts := w_acts w @ acts, w_fds := m\<rparr>)"

fun sock_step :: "sock_op \<Rightarrow> sock_world \<Rightarrow> failure + sock_world" where
  "sock_step (Op_create fam type nf) w =
     (case Socket_create fam type nf (w_fds w) of
        Inl e \<Rightarrow> Inl e
      | Inr (acts, s, m) \<Rightarrow> Inr (w\<lparr>w_socks := w_socks w @ [s], w_acts := w_acts w @ acts, w_fds := m\<rparr>))"
| "sock_step (Op_move i) w =
     (let (new, old) = Socket_move (w_socks w ! i) in Inr (w\<lparr>w_socks := (w_socks w)[i := old] @ [new]\<rparr>))"
| "sock_step (Op_assign i j) w =
     (let (acts, this, other) = Socket_move_assign (w_socks w ! i) (w_socks w ! j)
      in Inr (if i = j then w else w\<lparr>w_socks := (w_socks w)[i := this, j := other], w_acts := w_acts w @ acts\<rparr>))"
| "sock_step (Op_destroy i) w =
     Inr (w\<lparr>w_socks := take i (w_socks w) @ drop (Suc i) (w_socks w), w_acts := w_acts w @ Socket_destroy (w_socks w ! i)\<rparr>)"
| "sock_step (Op_accept i fd st nonblock sockname peername) w =
     (case Socket_accept fd st nonblock sockname peername (w_socks w ! i) (w_fds w) of
        Inl e \<Rightarrow> Inl e
      | Inr (r, acts, m) \<Rightarrow>
          Inr (w\<lparr>w_socks := w_socks w @ (case r of None \<Rightarrow> [] | Some s \<Rightarrow> [s]), w_acts := w_acts w @ acts, w_fds := m,
                 w_lost := w_lost w @ (if r = None \<and> fd \<noteq> -1 then [fd] else [])\<rparr>))"
| "sock_step (Op_bind i nf rt addr) w =
     (case Socket_bind nf rt addr (w_socks w ! i) (w_fds w) of Inl e \<Rightarrow> Inl e | Inr (ok, r) \<Rightarrow> Inr (w_put i r w))"
| "sock_step (Op_connect i nf rt sockname peername addr) w =
     (case Socket_connect nf rt sockname peername addr (w_socks w ! i) (w_fds w) of Inl e \<Rightarrow> Inl e | Inr (ok, r) \<Rightarrow> Inr (w_put i r w))"
| "sock_step (Op_close i) w =
     (let (ok, acts, s) = Socket_close (w_socks w ! i) in Inr (w_put i (acts, s, w_fds w) w))"

text \<open>Positions of existing sockets, and descriptors as the system gives them.\<close>

fun sock_op_ok :: "sock_op \<Rightarrow> nat \<Rightarrow> bool" where
  "sock_op_ok (Op_create fam type nf) n \<longleftrightarrow> -1 \<le> fst nf"
| "sock_op_ok (Op_move i) n \<longleftrightarrow> i < n"
| "sock_op_ok (Op_assign i j) n \<longleftrightarrow> i < n \<and> j < n"
| "sock_op_ok (Op_destroy i) n \<longleftrightarrow> i < n"
| "sock_op_ok (Op_accept i fd st nonblock sockname peername) n \<longleftrightarrow> i < n \<and> -1 \<le> fd"
| "sock_op_ok (Op_bind i nf rt addr) n \<longleftrightarrow> i < n \<and> -1 \<le> fst nf"
| "sock_op_ok (Op_connect i nf rt sockname peername addr) n \<longleftrightarrow> i < n \<and> -1 \<le> fst nf"
| "sock_op_ok (Op_close i) n \<longleftrightarrow> i < n"

fun sock_run :: "sock_op list \<Rightarrow> sock_world \<Rightarrow> failure + sock_world" where
  "sock_run [] w = Inr w"
| "sock_run (a # as) w =
     (if sock_op_ok a (length (w_socks w)) then (case sock_step a w of Inl e \<Rightarrow> Inl e | Inr w \<Rightarrow> sock_run as w)
      else Inl (Thrown ''no such socket''))"

subsection \<open>Every descriptor has one owner\<close>

fun opened_fds :: "sock_act list \<Rightarrow> int multiset" where
  "opened_fds [] = {#}"
| "opened_fds (a # as) = (case a of Opened fd \<Rightarrow> {#fd#} | _ \<Rightarrow> {#}) + opened_fds as"

fun closed_fds :: "sock_act list \<Rightarrow> int multiset" where
  "closed_fds [] = {#}"
| "closed_fds (a # as) = (case a of Closed fd \<Rightarrow> {#fd#} | _ \<Rightarrow> {#}) + closed_fds as"

definition held :: "socket \<Rightarrow> int multiset" where
  "held s = (if m_sock_fd s = -1 then {#} else {#m_sock_fd s#})"

definition held_all :: "socket list \<Rightarrow> int multiset" where
  "held_all ss = sum_list (map held ss)"

definition sock_ok :: "socket \<Rightarrow> bool" where
  "sock_ok s \<longleftrightarrow> -1 \<le> m_sock_fd s \<and> (m_isConnected s \<longrightarrow> m_sock_fd s \<noteq> -1)"

definition sock_inv :: "sock_world \<Rightarrow> bool" where
  "sock_inv w \<longleftrightarrow> list_all sock_ok (w_socks w) \<and>
     opened_fds (w_acts w) = closed_fds (w_acts w) + held_all (w_socks w) + mset (w_lost w)"

lemma fds_append [simp]:
  "opened_fds (as @ bs) = opened_fds as + opened_fds bs" "closed_fds (as @ bs) = closed_fds as + closed_fds bs"
  by (induction as) (simp_all add: ac_simps)

lemma held_all_simps [simp]:
  "held_all [] = {#}" "held_all (s # ss) = held s + held_all ss" "held_all (ss @ ts) = held_all ss + held_all ts"
  by (simp_all add: held_all_def)

lemma held_all_update: "i < length ss \<Longrightarrow> held_all (ss[i := s]) + held (ss ! i) = held_all ss + held s"
  by (induction ss arbitrary: i) (auto simp: ac_simps split: nat.split)

lemma held_all_remove: "i < length ss \<Longrightarrow> held_all (take i ss @ drop (Suc i) ss) + held (ss ! i) = held_all ss"
  using id_take_nth_drop [of i ss] held_all_simps(3) [of "take i ss" "ss ! i # drop (Suc i) ss"] by (simp add: ac_simps)

lemma initSock_fds [simp]: "opened_fds (initSock s) = {#}" "closed_fds (initSock s) = {#}"
  by (simp_all add: initSock_def)

text \<open>What the operations on one socket do to the descriptor it holds.\<close>

definition keeps_fds :: "socket \<Rightarrow> sock_act list \<Rightarrow> socket \<Rightarrow> bool" where
  "keeps_fds s acts s' \<longleftrightarrow> held s + opened_fds acts = closed_fds acts + held s' \<and> sock_ok s'"

lemma names_keep_fd [simp]:
  "m_sock_fd (snd (getRemoteAddress name s)) = m_sock_fd s" "m_sock_fd (snd (getLocalAddress name s)) = m_sock_fd s"
  "m_isConnected (snd (getRemoteAddress name s)) = m_isConnected s" "m_isConnected (snd (getLocalAddress name s)) = m_isConnected s"
  by (auto simp: getRemoteAddress_def getLocalAddress_def Let_def split: option.splits)

lemma newSock_fds:
  "newSock nf s m = Inr (acts, s', m') \<Longrightarrow> m_sock_fd s = -1 \<Longrightarrow> \<not> m_isConnected s \<Longrightarrow> -1 \<le> fst nf \<Longrightarrow> keeps_fds s acts s' \<and> \<not> m_isConnected s'"
  by (auto simp: newSock_def co_socket_def keeps_fds_def held_def sock_ok_def Let_def split: sum.splits if_splits prod.splits)

lemma ensure_fds:
  assumes "ensure_sock nf s m = Inr (acts, s', m')" and "sock_ok s" and "-1 \<le> fst nf"
  shows "keeps_fds s acts s'"
  using assms newSock_fds [of nf s m acts s' m'] by (auto simp: ensure_sock_def Socket_isValid_def sock_ok_def keeps_fds_def split: if_splits)

lemma keeps_fds_same: "m_sock_fd s'' = m_sock_fd s' \<Longrightarrow> keeps_fds s acts s' \<Longrightarrow> m_isConnected s'' = m_isConnected s' \<or> m_sock_fd s'' \<noteq> -1
   \<Longrightarrow> opened_fds bs = {#} \<Longrightarrow> closed_fds bs = {#} \<Longrightarrow> keeps_fds s (acts @ bs) s''"
  by (auto simp: keeps_fds_def held_def sock_ok_def)

lemma bind_fds:
  assumes "Socket_bind nf rt addr s m = Inr (ok, acts, s', m')" and "sock_ok s" and "-1 \<le> fst nf"
  shows "keeps_fds s acts s'"
proof -
  obtain acts1 s1 m1 where e: "ensure_sock nf s m = Inr (acts1, s1, m1)" using assms(1)
    by (auto simp: Socket_bind_def split: sum.splits)
  note k = ensure_fds [OF e assms(2,3)]
  have "\<exists>bs. acts = acts1 @ bs \<and> opened_fds bs = {#} \<and> closed_fds bs = {#} \<and> m_sock_fd s' = m_sock_fd s1 \<and> m_isConnected s' = m_isConnected s1"
    using assms(1) e by (auto simp: Socket_bind_def Let_def split: if_splits)
  then show ?thesis using keeps_fds_same [OF _ k] by blast
qed

lemma connect_fds:
  assumes "Socket_connect nf rt sockname peername addr s m = Inr (ok, acts, s', m')" and "sock_ok s" and "-1 \<le> fst nf"
  shows "keeps_fds s acts s'"
proof -
  obtain acts1 s1 m1 where e: "ensure_sock nf s m = Inr (acts1, s1, m1)" using assms(1)
    by (auto simp: Socket_connect_def split: sum.splits)
  note k = ensure_fds [OF e assms(2,3)]
  have "acts = acts1 \<and> m_sock_fd s' = m_sock_fd s1 \<and> (m_isConnected s' = m_isConnected s1 \<or> m_sock_fd s' \<noteq> -1)"
    using assms(1) e by (auto simp: Socket_connect_def Socket_isValid_def Let_def split: if_splits)
  then show ?thesis using keeps_fds_same [OF _ k, of s' "[]"] by auto
qed

lemma close_fds: "Socket_close s = (ok, acts, s') \<Longrightarrow> sock_ok s \<Longrightarrow> keeps_fds s acts s'"
  by (auto simp: Socket_close_def keeps_fds_def held_def sock_ok_def Let_def split: if_splits)

lemma accept_fds:
  assumes "Socket_accept fd st nonblock sockname peername s m = Inr (r, acts, m')" and "-1 \<le> fd"
  shows "opened_fds acts = (case r of None \<Rightarrow> (if fd = -1 then {#} else {#fd#}) | Some n \<Rightarrow> held n) \<and> closed_fds acts = {#}
    \<and> (case r of None \<Rightarrow> True | Some n \<Rightarrow> sock_ok n)"
  using assms by (auto simp: Socket_accept_def Socket_init_def sock_ok_def held_def Let_def split: if_splits sum.splits option.splits)

lemma sock_inv_put:
  assumes "sock_inv w" and "i < length (w_socks w)" and "keeps_fds (w_socks w ! i) acts s"
  shows "sock_inv (w_put i (acts, s, m) w)"
proof -
  have "held_all ((w_socks w)[i := s]) + held (w_socks w ! i) = held_all (w_socks w) + held s" by (rule held_all_update [OF assms(2)])
  moreover have "held (w_socks w ! i) + opened_fds acts = closed_fds acts + held s" using assms(3) by (simp add: keeps_fds_def)
  ultimately have "opened_fds (w_acts w) + opened_fds acts + held (w_socks w ! i) + held_all (w_socks w)
      = closed_fds (w_acts w) + closed_fds acts + held_all ((w_socks w)[i := s]) + mset (w_lost w) + (held (w_socks w ! i) + held_all (w_socks w))"
    using assms(1) by (simp add: sock_inv_def ac_simps)
  then have "opened_fds (w_acts w @ acts) = closed_fds (w_acts w @ acts) + held_all ((w_socks w)[i := s]) + mset (w_lost w)"
    by (simp add: ac_simps)
  moreover have "list_all sock_ok ((w_socks w)[i := s])"
    using assms(1,3) set_update_subset_insert [of "w_socks w" i s] by (auto simp: sock_inv_def keeps_fds_def list_all_iff)
  ultimately show ?thesis by (simp add: sock_inv_def w_put_def)
qed

lemma move_fds: "Socket_move s = (n, old) \<Longrightarrow> held n = held s \<and> held old = {#} \<and> sock_ok old \<and> (sock_ok s \<longrightarrow> sock_ok n)"
  by (auto simp: Socket_move_def held_def sock_ok_def)

lemma assign_fds:
  "Socket_move_assign s t = (acts, this, other) \<Longrightarrow>
     opened_fds acts = {#} \<and> closed_fds acts = held s \<and> held this = held t \<and> held other = {#} \<and> sock_ok other \<and> (sock_ok t \<longrightarrow> sock_ok this)"
  by (auto simp: Socket_move_assign_def held_def sock_ok_def)

lemma sock_inv_nth: "sock_inv w \<Longrightarrow> i < length (w_socks w) \<Longrightarrow> sock_ok (w_socks w ! i)"
  by (simp add: sock_inv_def list_all_length)

lemma sock_ok_update: "list_all sock_ok ss \<Longrightarrow> sock_ok s \<Longrightarrow> list_all sock_ok (ss[i := s])"
  using set_update_subset_insert [of ss i s] by (auto simp: list_all_iff)

lemma create_inv:
  assumes "sock_inv w" and "-1 \<le> fst nf" and "sock_step (Op_create fam type nf) w = Inr w'"
  shows "sock_inv w'"
proof -
  obtain acts s m where c: "newSock nf (Socket_new fam type 0) (w_fds w) = Inr (acts, s, m)"
    "w' = w\<lparr>w_socks := w_socks w @ [s], w_acts := w_acts w @ acts, w_fds := m\<rparr>"
    using assms(3) by (auto simp: Socket_create_def split: sum.splits)
  have "keeps_fds (Socket_new fam type 0) acts s" using newSock_fds [OF c(1)] assms(2) by (simp add: Socket_new_def)
  then show ?thesis using assms(1) c(2) by (simp add: sock_inv_def keeps_fds_def held_def Socket_new_def ac_simps)
qed

lemma move_inv:
  assumes "sock_inv w" and "i < length (w_socks w)" and "sock_step (Op_move i) w = Inr w'"
  shows "sock_inv w'"
proof -
  obtain n old where m: "Socket_move (w_socks w ! i) = (n, old)" by fastforce
  note f = move_fds [OF m]
  show ?thesis using assms(1,3) m f sock_ok_update [of "w_socks w" old i] sock_inv_nth [OF assms(1,2)] held_all_update [OF assms(2), of old]
    by (auto simp: sock_inv_def)
qed

lemma assign_inv:
  assumes "sock_inv w" and i: "i < length (w_socks w)" "j < length (w_socks w)" and "i \<noteq> j" and "sock_step (Op_assign i j) w = Inr w'"
  shows "sock_inv w'"
proof -
  obtain acts this other where m: "Socket_move_assign (w_socks w ! i) (w_socks w ! j) = (acts, this, other)" by (metis prod_cases3)
  note f = assign_fds [OF m]
  let ?ss = "(w_socks w)[i := this, j := other]"
  have l: "list_all sock_ok ?ss" using assms(1) f sock_inv_nth [OF assms(1) i(2)] by (simp add: sock_ok_update sock_inv_def)
  have "held_all ?ss + held (w_socks w ! j) = held_all ((w_socks w)[i := this])"
    using held_all_update [of j "(w_socks w)[i := this]" other] i assms(4) f by simp
  moreover have "held_all ((w_socks w)[i := this]) + held (w_socks w ! i) = held_all (w_socks w) + held (w_socks w ! j)"
    using held_all_update [OF i(1), of this] f by simp
  ultimately have "held_all ?ss + held (w_socks w ! i) + held (w_socks w ! j) = held_all (w_socks w) + held (w_socks w ! j)"
    by (simp add: ac_simps)
  then have "held_all (w_socks w) = held_all ?ss + held (w_socks w ! i)" by simp
  then show ?thesis using assms(1,4,5) m f l by (auto simp: sock_inv_def ac_simps)
qed

lemma destroy_inv:
  assumes "sock_inv w" and i: "i < length (w_socks w)" and "sock_step (Op_destroy i) w = Inr w'"
  shows "sock_inv w'"
proof -
  have "opened_fds (Socket_destroy (w_socks w ! i)) = {#}" "closed_fds (Socket_destroy (w_socks w ! i)) = held (w_socks w ! i)"
    by (simp_all add: Socket_destroy_def held_def)
  moreover have "list_all sock_ok (take i (w_socks w) @ drop (Suc i) (w_socks w))"
    using assms(1) by (auto simp: sock_inv_def list_all_iff dest: in_set_takeD in_set_dropD)
  ultimately show ?thesis using assms(1,3) held_all_remove [OF i, symmetric] by (auto simp: sock_inv_def ac_simps)
qed

lemma accept_inv:
  assumes "sock_inv w" and "-1 \<le> fd" and "sock_step (Op_accept i fd st nonblock sockname peername) w = Inr w'"
  shows "sock_inv w'"
proof -
  obtain r acts m where c: "Socket_accept fd st nonblock sockname peername (w_socks w ! i) (w_fds w) = Inr (r, acts, m)"
    using assms(3) by (auto split: sum.splits)
  show ?thesis using assms c accept_fds [OF c] by (auto simp: sock_inv_def split: option.splits)
qed

lemma sock_step_inv:
  assumes "sock_inv w" and "sock_op_ok a (length (w_socks w))" and "sock_step a w = Inr w'"
  shows "sock_inv w'"
proof (cases a)
  case (Op_assign i j)
  then show ?thesis using assms assign_inv [of w i j w'] by (cases "i = j") (auto split: prod.splits)
next
  case (Op_bind i nf rt addr)
  then show ?thesis using assms sock_inv_nth [of w i] bind_fds [of nf rt addr "w_socks w ! i" "w_fds w"] sock_inv_put [OF assms(1), of i]
    by (auto split: sum.splits)
next
  case (Op_connect i nf rt sockname peername addr)
  then show ?thesis using assms sock_inv_nth [of w i] connect_fds [of nf rt sockname peername addr "w_socks w ! i" "w_fds w"]
      sock_inv_put [OF assms(1), of i] by (auto split: sum.splits)
next
  case (Op_close i)
  obtain r acts s where c: "Socket_close (w_socks w ! i) = (r, acts, s)" by (metis prod_cases3)
  then show ?thesis using assms Op_close sock_inv_nth [of w i] close_fds [OF c] sock_inv_put [OF assms(1), of i acts s "w_fds w"] by auto
next
  case (Op_create fam type nf)
  then show ?thesis using assms create_inv [of w nf fam type w'] by (simp del: sock_step.simps)
next
  case (Op_move i)
  then show ?thesis using assms move_inv [of w i w'] by (simp del: sock_step.simps)
next
  case (Op_destroy i)
  then show ?thesis using assms destroy_inv [of w i w'] by (simp del: sock_step.simps)
next
  case (Op_accept i fd st nonblock sockname peername)
  then show ?thesis using assms accept_inv [of w fd i st nonblock sockname peername w'] by (simp del: sock_step.simps)
qed

lemma sock_run_inv: "sock_inv w \<Longrightarrow> sock_run as w = Inr w' \<Longrightarrow> sock_inv w'"
  by (induction as w rule: sock_run.induct) (auto simp del: sock_step.simps split: if_splits sum.splits dest: sock_step_inv)

text \<open>The io calls of a connected socket look up a descriptor that is not negative.\<close>

lemma do_io_in_range: "0 \<le> fd \<Longrightarrow> do_io f wt fd ev type m \<noteq> Some (Inl e)"
  by (auto simp: do_io_def fdm_get_def Let_def split: option.splits if_splits)

lemma socket_io_in_range:
  "sock_ok s \<Longrightarrow> Socket_send env b flags s m \<noteq> Some (Inl e)" "sock_ok s \<Longrightarrow> Socket_recv env n flags s m \<noteq> Some (Inl e)"
  using do_io_in_range [of "m_sock_fd s"]
  by (auto simp: Socket_send_def Socket_recv_def ret_of_def co_write_like_def co_read_like_def sock_ok_def map_sum_def split: sum.splits)

text \<open>C36. Descriptors are closed exactly once: in every program that creates, moves, assigns, binds, connects, closes and destroys
  sockets and accepts connections, the descriptors the system gave are those that were handed to \<^verbatim>\<open>closeFd\<close>, each once, those that
  living sockets hold, and those that a failed \<^verbatim>\<open>accept\<close> lost; and no living socket sends or receives on a descriptor
  outside the table.\<close>

theorem descriptors_closed_once:
  assumes "sock_run as \<lparr>w_socks = [], w_acts = [], w_fds = m, w_lost = []\<rparr> = Inr w"
  shows "opened_fds (w_acts w) = closed_fds (w_acts w) + held_all (w_socks w) + mset (w_lost w) \<and>
    (\<forall>s \<in> set (w_socks w). \<forall>env b n flags e. Socket_send env b flags s (w_fds w) \<noteq> Some (Inl e) \<and> Socket_recv env n flags s (w_fds w) \<noteq> Some (Inl e))"
proof -
  have "sock_inv w" by (rule sock_run_inv [OF _ assms]) (simp add: sock_inv_def)
  then show ?thesis using socket_io_in_range by (auto simp: sock_inv_def list_all_iff)
qed

text \<open>A program that creates a socket, moves it into another one, closes it without effect and destroys both.\<close>

theorem descriptors_closed_once_witness:
  "\<exists>w. sock_run [Op_create AF_INET SOCK_STREAM (5, Some True, False), Op_create AF_INET SOCK_DGRAM (6, Some True, False),
       Op_assign 0 1, Op_close 0, Op_destroy 1, Op_destroy 0] \<lparr>w_socks = [], w_acts = [], w_fds = FdManager_new (\<lambda>_. snd (FdCtx_new 0 None False)), w_lost = []\<rparr> = Inr w
     \<and> w_socks w = [] \<and> closed_fds (w_acts w) = {#5, 6#}"
proof -
  let ?w0 = "\<lparr>w_socks = [], w_acts = [], w_fds = FdManager_new (\<lambda>_. snd (FdCtx_new 0 None False)), w_lost = []\<rparr>"
  let ?as = "[Op_create AF_INET SOCK_STREAM (5, Some True, False), Op_create AF_INET SOCK_DGRAM (6, Some True, False),
       Op_assign 0 1, Op_close 0, Op_destroy 1, Op_destroy 0]"
  have "\<exists>w. sock_run ?as ?w0 = Inr w \<and> w_socks w = [] \<and> w_lost w = [] \<and> opened_fds (w_acts w) = {#5, 6#}"
    by (simp add: Socket_create_def newSock_def co_socket_def fdm_get_def resize_def FdManager_new_def Socket_move_assign_def
        Socket_close_def Socket_destroy_def Socket_new_def w_put_def initSock_def Let_def)
  then obtain w where w: "sock_run ?as ?w0 = Inr w" "w_socks w = []" "w_lost w = []" "opened_fds (w_acts w) = {#5, 6#}" by blast
  from descriptors_closed_once [OF w(1)] w(2-4) have "closed_fds (w_acts w) = {#5, 6#}" by simp
  then show ?thesis using w(1,2) by blast
qed

subsection \<open>Addresses of a connection\<close>

text \<open>
  An accepted socket knows both of its addresses; a connected one only that of its peer: \<^verbatim>\<open>getLocalAddress\<close> tests
  the remote address, which \<^verbatim>\<open>connect\<close> has just determined.
\<close>

lemma accepted_addresses:
  assumes "Socket_accept fd st nonblock sockname peername s m = Inr (Some n, acts, m')"
    and "sockname (m_family s) = Some (a, la)" and "peername (m_family s) = Some (b, lb)"
  shows "m_local_address n = Some (correct_length a la) \<and> m_remote_address n = Some (correct_length b lb)"
  using assms by (auto simp: Socket_accept_def Socket_init_def Socket_new_def getLocalAddress_def getRemoteAddress_def Let_def
      split: if_splits sum.splits option.splits)

lemma connected_addresses:
  assumes "Socket_connect nf rt sockname peername addr s m = Inr (True, acts, s', m')"
    and "m_remote_address s = None" and "m_local_address s = None" and "peername (m_family s) = Some (b, lb)"
  shows "m_local_address s' = None \<and> fst (getLocalAddress sockname s') = None \<and> m_remote_address s' = Some (correct_length b lb)"
  using assms by (auto simp: Socket_connect_def ensure_sock_def newSock_def co_socket_def getLocalAddress_def getRemoteAddress_def Let_def
      split: if_splits sum.splits option.splits prod.splits)

text \<open>A socket that is closed and connected again keeps reporting its first peer.\<close>

lemma reconnect_keeps_peer:
  assumes "m_remote_address s = Some p" and "Socket_close s = (r, acts, s1)"
    and "Socket_connect nf rt sockname peername addr s1 m = Inr (True, acts', s', m')"
  shows "m_remote_address s' = Some p"
  using assms by (auto simp: Socket_close_def Socket_connect_def ensure_sock_def newSock_def co_socket_def getLocalAddress_def getRemoteAddress_def
      Let_def split: if_splits sum.splits option.splits prod.splits)

text \<open>Closing a socket that only listens has no effect, and the result tells the opposite of what happened.\<close>

lemma close_results:
  "\<not> m_isConnected s \<Longrightarrow> Socket_close s = (True, [], s)"
  "m_isConnected s \<Longrightarrow> m_sock_fd s \<noteq> -1 \<Longrightarrow> \<exists>s'. Socket_close s = (False, [Closed (m_sock_fd s)], s')"
  by (auto simp: Socket_close_def Let_def)

text \<open>The time limits that a session sets are those that the hooks use for this descriptor.\<close>

lemma timeout_roundtrip:
  assumes "sock_setTimeOut type time s m = Inr m'" and "m_sock_fd s \<ge> 0" and "ctx_of m (m_sock_fd s) = Some c"
  shows "sock_getTimeOut type s m' = Inr time"
  using assms by (auto simp: sock_setTimeOut_def sock_getTimeOut_def fdm_get_def ctx_of_def update_ctx_def FdCtx_setTimeout_def
      FdCtx_getTimeout_def Let_def split: if_splits option.splits)

end
