(* ===== verification/Mysql.thy ===== *)
theory Mysql
  imports Db_Pool Timeout Fd_Context "HOL-Library.AList"
begin

section \<open>The MySQL driver (DBPool/mysql)\<close>

text \<open>
  Responses, connections, prepared statements and the query of the pool. The functions of the MariaDB client library are
  parameters: those that work on a result set are a record of functions; a non-blocking call is its start, which
  returns the events to wait for (0: done) and an error, and the continuations, each after a wait with its outcome. A
  list of outcomes that ends before the call is done is a call that still waits, \<open>None\<close>.
\<close>

datatype io_state = SUCCESS | TIMEOUT | FAILED | UNKNOWN | INIT

subsection \<open>Waiting\<close>

abbreviation MYSQL_WAIT_READ :: u32 where "MYSQL_WAIT_READ \<equiv> 1"
abbreviation MYSQL_WAIT_WRITE :: u32 where "MYSQL_WAIT_WRITE \<equiv> 2"

definition MYSQL_QUERY_TIMEOUT :: u64 where
  "MYSQL_QUERY_TIMEOUT = 30000"

definition awaiter_event :: "u32 \<Rightarrow> event" where
  "awaiter_event status =
     (let ev = (if status AND MYSQL_WAIT_READ \<noteq> 0 then NONE OR READ else NONE)
      in if status AND MYSQL_WAIT_WRITE \<noteq> 0 then ev OR WRITE else ev)"

text \<open>The value with which the callback of \<^verbatim>\<open>MysqlAwaiter::on_suspend\<close> resumes the coroutine.\<close>

definition awaiter_state :: "limit_state \<Rightarrow> io_state" where
  "awaiter_state s = (if s = limit_state.FINISHED then SUCCESS else if s = limit_state.TIMEOUT then TIMEOUT else UNKNOWN)"

type_synonym async_call = "u32 \<times> int \<times> (io_state \<times> u32 \<times> int) list"

subsection \<open>Responses\<close>

type_synonym cell = "string option \<times> nat"

record 'r res_ops =
  fetch_row :: "'r \<Rightarrow> cell list option \<times> 'r"
  fetch_field :: "'r \<Rightarrow> string option \<times> 'r"
  data_seek :: "'r \<Rightarrow> 'r"
  num_rows :: "'r \<Rightarrow> nat"

record 'r mysql_resp =
  r_state :: io_state
  r_mysql :: bool
  r_body :: "'r option"
  r_colCount :: nat
  r_rowCount :: nat
  r_map :: "(string \<times> cell list) list"

definition MySQLResp_new :: "bool \<Rightarrow> io_state \<Rightarrow> 'r mysql_resp" where
  "MySQLResp_new mysql state =
     \<lparr>r_state = (if \<not> mysql then FAILED else state), r_mysql = mysql, r_body = None, r_colCount = 0, r_rowCount = 0, r_map = []\<rparr>"

text \<open>
  A value keeps a pointer and an \<^verbatim>\<open>int\<close>, made from the length that the library gives as an \<^verbatim>\<open>unsigned long\<close>; \<open>None\<close> is the
  invalid value. Where the length is needed it is converted to \<^verbatim>\<open>size_t\<close>, which makes a negative one huge.
\<close>

type_synonym mysql_value = "string option \<times> int"

definition Value_new :: "cell \<Rightarrow> mysql_value" where
  "Value_new c = (fst c, signed_take_bit 31 (int (snd c)))"

definition Value_size :: "mysql_value \<Rightarrow> cell" where
  "Value_size v = (fst v, nat (snd v mod 2 ^ 64))"

text \<open>
  \<^verbatim>\<open>std::string(data, length)\<close>: a null pointer is allowed with length 0 only; a length behind the end of the data reads
  memory that does not belong to it.
\<close>

definition std_string :: "cell \<Rightarrow> failure + string" where
  "std_string c =
     (case fst c of
        None \<Rightarrow> if snd c = 0 then Inr [] else Inl (Thrown ''logic_error'')
      | Some d \<Rightarrow> if snd c \<le> length d then Inr (take (snd c) d) else Inl OutOfRange)"

definition Value_get :: "mysql_value option \<Rightarrow> failure + string" where
  "Value_get v = (case v of None \<Rightarrow> Inr [] | Some v \<Rightarrow> std_string (Value_size v))"

record mysql_row =
  row_cells :: "cell list option"
  row_colCount :: nat
  row_colIdx :: nat

definition nextValue :: "mysql_row \<Rightarrow> failure + mysql_value option \<times> mysql_row" where
  "nextValue r =
     (if row_colIdx r < row_colCount r
      then (case row_cells r of
              None \<Rightarrow> Inl NullDeref
            | Some cs \<Rightarrow> if row_colIdx r < length cs then Inr (Some (Value_new (cs ! row_colIdx r)), r\<lparr>row_colIdx := Suc (row_colIdx r)\<rparr>)
                        else Inl OutOfRange)
      else Inr (None, r))"

definition resp_valid :: "'r mysql_resp \<Rightarrow> bool" where
  "resp_valid p \<longleftrightarrow> r_state p = SUCCESS \<and> r_body p \<noteq> None"

definition nextRow :: "'r res_ops \<Rightarrow> 'r mysql_resp \<Rightarrow> mysql_row \<times> 'r mysql_resp" where
  "nextRow ops p =
     (if \<not> resp_valid p then (\<lparr>row_cells = None, row_colCount = 0, row_colIdx = 0\<rparr>, p)
      else (let (row, body) = fetch_row ops (the (r_body p))
            in (\<lparr>row_cells = row, row_colCount = r_colCount p, row_colIdx = 0\<rparr>, p\<lparr>r_body := Some body\<rparr>)))"

definition resetRow :: "'r res_ops \<Rightarrow> 'r mysql_resp \<Rightarrow> 'r mysql_resp" where
  "resetRow ops p = (if \<not> resp_valid p then p else p\<lparr>r_body := Some (data_seek ops (the (r_body p)))\<rparr>)"

text \<open>The first loop of \<^verbatim>\<open>formatDate\<close>: the names of \<open>n\<close> columns, each with a column of empty values.\<close>

fun format_fields :: "'r res_ops \<Rightarrow> nat \<Rightarrow> string list \<Rightarrow> 'r mysql_resp \<Rightarrow> failure + string list \<times> 'r mysql_resp" where
  "format_fields ops 0 names p = Inr (names, p)"
| "format_fields ops (Suc n) names p =
     (let (field, body) = fetch_field ops (the (r_body p))
      in case field of
           None \<Rightarrow> Inl NullDeref
         | Some col_name \<Rightarrow>
             format_fields ops n (names @ [col_name])
               (p\<lparr>r_body := Some body, r_map := AList.update col_name (replicate (r_rowCount p) (None, 0)) (r_map p)\<rparr>))"

text \<open>The values of one row; \<open>names\<close> stands for the pointers to the columns.\<close>

fun format_cells :: "string list \<Rightarrow> nat \<Rightarrow> nat \<Rightarrow> cell list \<Rightarrow> (string \<times> cell list) list \<Rightarrow> failure + (string \<times> cell list) list" where
  "format_cells names row_idx col_idx [] mp = Inr mp"
| "format_cells names row_idx col_idx (c # cs) mp =
     (let name = names ! col_idx; col = the (map_of mp name)
      in if row_idx < length col then format_cells names row_idx (Suc col_idx) cs (AList.update name (col[row_idx := Value_size (Value_new c)]) mp)
         else Inl OutOfRange)"

text \<open>The loop over the rows. It ends when the library has no more rows; \<open>fuel\<close> bounds the rounds.\<close>

fun format_rows :: "'r res_ops \<Rightarrow> string list \<Rightarrow> nat \<Rightarrow> nat \<Rightarrow> 'r mysql_resp \<Rightarrow> (failure + 'r mysql_resp) option" where
  "format_rows ops names row_idx 0 p = None"
| "format_rows ops names row_idx (Suc fuel) p =
     (let (row, p) = nextRow ops p
      in case row_cells row of
           None \<Rightarrow> Some (Inr p)
         | Some cs \<Rightarrow>
             if length cs < row_colCount row then Some (Inl OutOfRange)
             else (case format_cells names row_idx 0 (take (row_colCount row) cs) (r_map p) of
                     Inl e \<Rightarrow> Some (Inl e)
                   | Inr mp \<Rightarrow> format_rows ops names (Suc row_idx) fuel (p\<lparr>r_map := mp\<rparr>)))"

definition formatDate :: "'r res_ops \<Rightarrow> nat \<Rightarrow> 'r mysql_resp \<Rightarrow> (failure + int \<times> 'r mysql_resp) option" where
  "formatDate ops fuel p =
     (if \<not> resp_valid p then Some (Inr (-1, p))
      else (case format_fields ops (r_colCount p) [] p of
              Inl e \<Rightarrow> Some (Inl e)
            | Inr (names, p) \<Rightarrow>
                map_option (map_sum (\<lambda>e. e) (\<lambda>p. (0, resetRow ops p))) (format_rows ops names 0 fuel p)))"

text \<open>\<^verbatim>\<open>resp[fieldName][i]\<close>.\<close>

definition ColProxy_at :: "string \<Rightarrow> int \<Rightarrow> 'r mysql_resp \<Rightarrow> failure + string" where
  "ColProxy_at fieldName i p =
     (case map_of (r_map p) fieldName of
        None \<Rightarrow> Inl AssertionFailed
      | Some vec \<Rightarrow> if 0 \<le> i \<and> nat i < length vec then std_string (vec ! nat i) else Inl AssertionFailed)"

text \<open>
  \<^verbatim>\<open>co_fetchAll\<close>: \<open>body\<close> is the result set that the library has stored at the end, \<open>nfields\<close> what
  \<^verbatim>\<open>mysql_field_count\<close> returns.
\<close>

fun store_loop :: "u32 \<Rightarrow> (io_state \<times> u32 \<times> int) list \<Rightarrow> io_state option" where
  "store_loop status es =
     (if status = 0 then Some SUCCESS
      else (case es of
              [] \<Rightarrow> None
            | (state, status, e) # es \<Rightarrow> if state = TIMEOUT then Some TIMEOUT else store_loop status es))"

definition resp_fetchAll :: "'r res_ops \<Rightarrow> async_call \<Rightarrow> 'r option \<Rightarrow> nat \<Rightarrow> 'r mysql_resp \<Rightarrow> (io_state \<times> 'r mysql_resp) option" where
  "resp_fetchAll ops call body nfields p =
     (if r_state p \<noteq> SUCCESS then Some (r_state p, p)
      else (case call of (status, e, es) \<Rightarrow>
        (case store_loop status es of
           None \<Rightarrow> None
         | Some TIMEOUT \<Rightarrow> Some (TIMEOUT, p\<lparr>r_state := FAILED\<rparr>)
         | Some _ \<Rightarrow>
             (let p = p\<lparr>r_body := body\<rparr>
              in case body of
                   None \<Rightarrow>
                     if nfields \<noteq> 0 then Some (FAILED, p\<lparr>r_state := FAILED\<rparr>)
                     else Some (SUCCESS, p\<lparr>r_colCount := 0, r_rowCount := 0, r_state := SUCCESS\<rparr>)
                 | Some b \<Rightarrow>
                     (let p = p\<lparr>r_colCount := nfields, r_rowCount := num_rows ops b\<rparr>
                      in if r_colCount p = 0 then Some (FAILED, p\<lparr>r_state := FAILED\<rparr>)
                         else Some (SUCCESS, p\<lparr>r_state := SUCCESS\<rparr>))))))"

subsection \<open>Connections\<close>

datatype conn_state = C_READY | C_READ | C_WRITE | C_ERROR | C_TIMO | C_INIT

record mysql_conn =
  c_state :: conn_state
  c_closed :: bool

definition MySQLConn_new :: "bool \<Rightarrow> failure + mysql_conn" where
  "MySQLConn_new inited =
     (if \<not> inited then Inl (Thrown ''failed to init a mysql instance'') else Inr \<lparr>c_state = C_INIT, c_closed = False\<rparr>)"

definition MySQLConn_destroy :: "mysql_conn \<Rightarrow> mysql_conn" where
  "MySQLConn_destroy c = (if c_state c \<noteq> C_INIT then c\<lparr>c_closed := True\<rparr> else c)"

text \<open>\<open>is_info\<close>: the information is that of a MySQL connection; \<open>connected\<close>: \<^verbatim>\<open>mysql_real_connect\<close> succeeds.\<close>

definition MySQLConn_connect :: "bool \<Rightarrow> bool \<Rightarrow> mysql_conn \<Rightarrow> int \<times> mysql_conn" where
  "MySQLConn_connect is_info connected c =
     (if \<not> is_info then (-1, c) else if \<not> connected then (-1, c) else (0, c\<lparr>c_state := C_READY\<rparr>))"

fun query_loop :: "u32 \<Rightarrow> (io_state \<times> u32 \<times> int) list \<Rightarrow> io_state option" where
  "query_loop status es =
     (if status = 0 then Some SUCCESS
      else (case es of
              [] \<Rightarrow> None
            | (state, status, err) # es \<Rightarrow>
                if state = TIMEOUT then Some TIMEOUT
                else if err \<noteq> 0 then Some FAILED
                else query_loop status es))"

definition conn_executeQuery :: "async_call \<Rightarrow> 'r mysql_resp option" where
  "conn_executeQuery call =
     (case call of (status, err, es) \<Rightarrow>
        if status = 0 then Some (MySQLResp_new True SUCCESS)
        else if err \<noteq> 0 then Some (MySQLResp_new True FAILED)
        else map_option (MySQLResp_new True) (query_loop status es))"

declare store_loop.simps [simp del] query_loop.simps [simp del]

text \<open>
  The part of \<^verbatim>\<open>MySQLPoolManager::executeQuery\<close> behind the acquisition of a connection: the query, its
  result, the rollback, and the wrapper that gives the connection back.
\<close>

definition pool_query :: "'r res_ops \<Rightarrow> async_call \<Rightarrow> async_call \<times> 'r option \<times> nat \<Rightarrow> async_call \<Rightarrow> async_call \<times> 'r option \<times> nat
    \<Rightarrow> int \<times> nat \<Rightarrow> conn_wrapper \<Rightarrow> db_pool \<Rightarrow> ('r mysql_resp \<times> task_coro20 list \<times> db_pool) option" where
  "pool_query ops query result rollback result' reconn w p =
     Option.bind (conn_executeQuery query) (\<lambda>resp.
     Option.bind (case result of (call, body, nfields) \<Rightarrow> resp_fetchAll ops call body nfields resp) (\<lambda>(_, resp).
     Option.bind (conn_executeQuery rollback) (\<lambda>reset.
     Option.bind (case result' of (call, body, nfields) \<Rightarrow> resp_fetchAll ops call body nfields reset) (\<lambda>(_, reset).
       let (tasks, p) = wrapper_destroy reconn w p in Some (resp, tasks, p)))))"

definition pool_executeQuery :: "'r res_ops \<Rightarrow> (nat \<Rightarrow> int \<Rightarrow> int) \<Rightarrow> async_call \<Rightarrow> async_call \<times> 'r option \<times> nat \<Rightarrow> async_call
    \<Rightarrow> async_call \<times> 'r option \<times> nat \<Rightarrow> int \<times> nat \<Rightarrow> db_pool \<Rightarrow> (failure + 'r mysql_resp \<times> task_coro20 list \<times> db_pool) option" where
  "pool_executeQuery ops connect query result rollback result' reconn p =
     (if \<not> checkRunState p then Some (Inr (MySQLResp_new False FAILED, [], p))
      else (case acquire connect 0 p of
              None \<Rightarrow> None
            | Some (Inl e) \<Rightarrow> Some (Inl e)
            | Some (Inr (MustWait, p)) \<Rightarrow> None
            | Some (Inr (Got w, p)) \<Rightarrow> map_option Inr (pool_query ops query result rollback result' reconn w p)))"


subsection \<open>Prepared statements\<close>

datatype stmt_state = S_INIT | S_PREPARE | S_BIND | S_EXECUTE | S_STORE | S_FETCH | S_CLOSED

text \<open>
  \<open>s_stmt\<close> and \<open>s_conn\<close>: whether the pointers to the statement and to the wrapper of the connection are set;
  \<open>s_rows\<close> are the rows of \<^verbatim>\<open>m_result\<close>.
\<close>

record 'w mysql_stmt =
  s_state :: stmt_state
  s_stmt :: bool
  s_conn :: bool
  s_rows :: "'w list"

abbreviation MYSQL_NO_DATA :: int where "MYSQL_NO_DATA \<equiv> 100"

definition MySQLStmt_new :: "'w mysql_stmt" where
  "MySQLStmt_new = \<lparr>s_state = S_INIT, s_stmt = True, s_conn = True, s_rows = []\<rparr>"

text \<open>The loop that all operations on statements share: \<open>Inl\<close> the outcome of a wait that ends it, \<open>Inr\<close> the result of the call.\<close>

fun stmt_loop :: "u32 \<Rightarrow> int \<Rightarrow> (io_state \<times> u32 \<times> int) list \<Rightarrow> (io_state + int) option" where
  "stmt_loop status ret es =
     (if status = 0 then Some (Inr ret)
      else (case es of
              [] \<Rightarrow> None
            | (state, status, ret) # es \<Rightarrow> if state \<noteq> SUCCESS then Some (Inl state) else stmt_loop status ret es))"

declare stmt_loop.simps [simp del]

definition stmt_call :: "async_call \<Rightarrow> (io_state + int) option" where
  "stmt_call call = (case call of (status, ret, es) \<Rightarrow> stmt_loop status ret es)"

definition co_prepare :: "async_call \<Rightarrow> 'w mysql_stmt \<Rightarrow> (io_state \<times> 'w mysql_stmt) option" where
  "co_prepare call s =
     (if s_state s \<noteq> S_INIT then Some (FAILED, s)
      else (case stmt_call call of
              None \<Rightarrow> None
            | Some (Inl state) \<Rightarrow> Some (state, s)
            | Some (Inr ret) \<Rightarrow> if ret \<noteq> 0 then Some (FAILED, s) else Some (SUCCESS, s\<lparr>s_state := S_PREPARE\<rparr>)))"

text \<open>\<open>bind\<close> and \<open>bind'\<close> are the results of \<^verbatim>\<open>mysql_stmt_bind_param\<close> and \<^verbatim>\<open>mysql_stmt_bind_result\<close>, \<open>n\<close> the number of result columns.\<close>

definition co_execute :: "async_call \<Rightarrow> int \<Rightarrow> nat \<Rightarrow> int \<Rightarrow> async_call \<Rightarrow> 'w mysql_stmt \<Rightarrow> (io_state \<times> 'w mysql_stmt) option" where
  "co_execute prepare bind n bind' execute s =
     Option.bind (co_prepare prepare s) (\<lambda>(state, s).
       if state \<noteq> SUCCESS then Some (FAILED, s)
       else if s_state s \<noteq> S_PREPARE then Some (FAILED, s)
       else if bind \<noteq> 0 then Some (FAILED, s)
       else if n \<noteq> 0 \<and> bind' \<noteq> 0 then Some (FAILED, s)
       else (case stmt_call execute of
               None \<Rightarrow> None
             | Some (Inl state) \<Rightarrow> Some (state, s)
             | Some (Inr ret) \<Rightarrow> if ret \<noteq> 0 then Some (FAILED, s) else Some (SUCCESS, s\<lparr>s_state := S_EXECUTE\<rparr>)))"

definition co_storeAll :: "async_call \<Rightarrow> 'w mysql_stmt \<Rightarrow> (io_state \<times> 'w mysql_stmt) option" where
  "co_storeAll call s =
     (if s_state s \<noteq> S_EXECUTE then Some (FAILED, s)
      else (case stmt_call call of
              None \<Rightarrow> None
            | Some (Inl state) \<Rightarrow> Some (FAILED, s)
            | Some (Inr ret) \<Rightarrow> if ret \<noteq> 0 then Some (FAILED, s) else Some (SUCCESS, s\<lparr>s_state := S_STORE\<rparr>)))"

text \<open>\<open>row\<close>: what the call has written into the bound row.\<close>

definition co_fetchNext :: "async_call \<Rightarrow> 'w \<Rightarrow> 'w mysql_stmt \<Rightarrow> ('w option \<times> 'w mysql_stmt) option" where
  "co_fetchNext call row s =
     (if s_state s \<noteq> S_EXECUTE \<and> s_state s \<noteq> S_STORE then Some (None, s)
      else (case stmt_call call of
              None \<Rightarrow> None
            | Some (Inl state) \<Rightarrow> Some (None, s)
            | Some (Inr ret) \<Rightarrow>
                if ret = MYSQL_NO_DATA then Some (None, s\<lparr>s_state := S_FETCH\<rparr>)
                else if ret \<noteq> 0 then Some (None, s)
                else Some (Some row, s)))"

text \<open>The loop over the rows, on the answers that the library answers one after the other.\<close>

fun fetch_loop :: "(async_call \<times> 'w) list \<Rightarrow> 'w mysql_stmt \<Rightarrow> 'w mysql_stmt option" where
  "fetch_loop [] s = None"
| "fetch_loop ((call, row) # answers) s =
     (case co_fetchNext call row s of
        None \<Rightarrow> None
      | Some (None, s) \<Rightarrow> Some s
      | Some (Some row, s) \<Rightarrow> fetch_loop answers (s\<lparr>s_rows := s_rows s @ [row]\<rparr>))"

definition stmt_fetchAll :: "(async_call \<times> 'w) list \<Rightarrow> 'w mysql_stmt \<Rightarrow> (io_state \<times> 'w mysql_stmt) option" where
  "stmt_fetchAll answers s = map_option (\<lambda>s. (if s_state s = S_FETCH then SUCCESS else FAILED, s)) (fetch_loop answers s)"

definition stmt_close :: "async_call \<Rightarrow> 'w mysql_stmt \<Rightarrow> (io_state \<times> 'w mysql_stmt) option" where
  "stmt_close call s =
     (case stmt_call call of
        None \<Rightarrow> None
      | Some (Inl state) \<Rightarrow> Some (FAILED, s)
      | Some (Inr ret) \<Rightarrow> if ret \<noteq> 0 then Some (FAILED, s) else Some (SUCCESS, s\<lparr>s_stmt := False, s_conn := False\<rparr>))"

subsection \<open>Texts and bound values\<close>

text \<open>\<^verbatim>\<open>STMT_Text<N>\<close>: \<open>N\<close> bytes, the length, and the flags for null and for a cut text.\<close>

record stmt_text =
  t_buf :: string
  t_length :: nat
  t_null :: bool
  t_error :: bool

definition StringToText :: "nat \<Rightarrow> string \<Rightarrow> failure + stmt_text" where
  "StringToText N str =
     (if N = 0 then Inl AssertionFailed
      else (let len = (if N - 1 > length str then length str else N - 1)
            in Inr \<lparr>t_buf = take len str @ CHR 0x00 # replicate (N - 1 - len) (CHR 0x00), t_length = len, t_null = False,
                   t_error = (length str > N - 1)\<rparr>))"

definition TextToString :: "stmt_text \<Rightarrow> string" where
  "TextToString t = (if t_null t then [] else take (t_length t) (t_buf t))"

datatype mysql_type = MYSQL_TYPE_DECIMAL | MYSQL_TYPE_TINY | MYSQL_TYPE_LONG | MYSQL_TYPE_LONGLONG | MYSQL_TYPE_FLOAT
  | MYSQL_TYPE_DOUBLE | MYSQL_TYPE_STRING

text \<open>Values of C++ types: integers with their size in bytes and whether they are unsigned.\<close>

datatype cpp_value = CBool bool | CInt nat bool int | CFloat | CDouble | CString string | CText nat | COpt "cpp_value option"

record mysql_bind =
  b_type :: mysql_type
  b_length :: nat
  b_unsigned :: bool
  b_null :: "bool option"

definition bind_cleared :: mysql_bind where
  "bind_cleared = \<lparr>b_type = MYSQL_TYPE_DECIMAL, b_length = 0, b_unsigned = False, b_null = None\<rparr>"

text \<open>\<^verbatim>\<open>StmtParams::bindOne\<close>; \<open>None\<close>: the type is refused when the program is compiled.\<close>

fun bind_param :: "cpp_value \<Rightarrow> mysql_bind \<Rightarrow> mysql_bind option" where
  "bind_param (COpt None) b = Some (b\<lparr>b_null := Some True\<rparr>)"
| "bind_param (COpt (Some v)) b = bind_param v (b\<lparr>b_null := Some False\<rparr>)"
| "bind_param (CString s) b = Some (b\<lparr>b_type := MYSQL_TYPE_STRING, b_length := length s\<rparr>)"
| "bind_param (CBool v) b = Some (b\<lparr>b_type := MYSQL_TYPE_TINY\<rparr>)"
| "bind_param (CInt width is_uns v) b =
     Some (b\<lparr>b_type := (if width = 8 then MYSQL_TYPE_LONGLONG else MYSQL_TYPE_LONG), b_unsigned := is_uns\<rparr>)"
| "bind_param CFloat b = Some (b\<lparr>b_type := MYSQL_TYPE_FLOAT\<rparr>)"
| "bind_param CDouble b = Some (b\<lparr>b_type := MYSQL_TYPE_DOUBLE\<rparr>)"
| "bind_param (CText n) b = None"

text \<open>\<^verbatim>\<open>StmtResultRow::bindOne\<close>, and the function \<^verbatim>\<open>TtoBind\<close> that does the same.\<close>

fun bind_result :: "cpp_value \<Rightarrow> mysql_bind \<Rightarrow> mysql_bind option" where
  "bind_result (CText n) b = Some (b\<lparr>b_type := MYSQL_TYPE_STRING, b_length := n, b_null := Some False\<rparr>)"
| "bind_result (CBool v) b = Some (b\<lparr>b_type := MYSQL_TYPE_TINY, b_null := Some False\<rparr>)"
| "bind_result (CInt width is_uns v) b =
     Some (b\<lparr>b_type := (if width = 8 then MYSQL_TYPE_LONGLONG else MYSQL_TYPE_LONG), b_unsigned := is_uns, b_null := Some False\<rparr>)"
| "bind_result CFloat b = Some (b\<lparr>b_type := MYSQL_TYPE_FLOAT, b_null := Some False\<rparr>)"
| "bind_result CDouble b = Some (b\<lparr>b_type := MYSQL_TYPE_DOUBLE, b_null := Some False\<rparr>)"
| "bind_result (CString s) b = None"
| "bind_result (COpt v) b = None"

fun bind_values :: "(cpp_value \<Rightarrow> mysql_bind \<Rightarrow> mysql_bind option) \<Rightarrow> cpp_value list \<Rightarrow> mysql_bind list option" where
  "bind_values f [] = Some []"
| "bind_values f (v # vs) =
     Option.bind (f v bind_cleared) (\<lambda>b. Option.bind (bind_values f vs) (\<lambda>bs. Some (b # bs)))"


section \<open>Properties\<close>

subsection \<open>Columns by name\<close>

text \<open>
  A cell as the library gives it: a null pointer with length 0, or data of at least the given length. The lengths fit an
  \<^verbatim>\<open>int\<close>; \<open>cell_text\<close> is the value of the cell.
\<close>

definition cell_ok :: "cell \<Rightarrow> bool" where
  "cell_ok c \<longleftrightarrow> snd c < 2 ^ 31 \<and> (case fst c of None \<Rightarrow> snd c = 0 | Some d \<Rightarrow> snd c \<le> length d)"

definition cell_text :: "cell \<Rightarrow> string" where
  "cell_text c = (case fst c of None \<Rightarrow> [] | Some d \<Rightarrow> take (snd c) d)"

lemma cell_kept: "cell_ok c \<Longrightarrow> Value_size (Value_new c) = c \<and> std_string c = Inr (cell_text c)"
  by (cases c) (auto simp: cell_ok_def cell_text_def std_string_def Value_size_def Value_new_def signed_take_bit_int_eq_self split: option.splits)

text \<open>
  What the client library documents of a result set: \<open>V r\<close> are the column names that \<^verbatim>\<open>mysql_fetch_field\<close> has still to
  give, the rows that \<^verbatim>\<open>mysql_fetch_row\<close> has still to give, and all rows.
\<close>

definition res_laws :: "'r res_ops \<Rightarrow> ('r \<Rightarrow> string list \<times> cell list list \<times> cell list list) \<Rightarrow> bool" where
  "res_laws ops V \<longleftrightarrow> (\<forall>r fs rs all. V r = (fs, rs, all) \<longrightarrow>
     (rs = [] \<longrightarrow> fst (fetch_row ops r) = None) \<and>
     (rs \<noteq> [] \<longrightarrow> fst (fetch_row ops r) = Some (hd rs)) \<and> V (snd (fetch_row ops r)) = (fs, tl rs, all) \<and>
     (fs = [] \<longrightarrow> fst (fetch_field ops r) = None) \<and>
     (fs \<noteq> [] \<longrightarrow> fst (fetch_field ops r) = Some (hd fs)) \<and> V (snd (fetch_field ops r)) = (tl fs, rs, all) \<and>
     V (data_seek ops r) = (fs, all, all) \<and> num_rows ops r = length all)"

lemma fetch_row_law:
  "res_laws ops V \<Longrightarrow> V r = (fs, rs, all) \<Longrightarrow>
     \<exists>r'. fetch_row ops r = (case rs of [] \<Rightarrow> None | x # xs \<Rightarrow> Some x, r') \<and> V r' = (fs, tl rs, all)"
  unfolding res_laws_def by (cases "fetch_row ops r"; cases rs) fastforce+

lemma fetch_field_law:
  "res_laws ops V \<Longrightarrow> V r = (f # fs, rs, all) \<Longrightarrow> \<exists>r'. fetch_field ops r = (Some f, r') \<and> V r' = (fs, rs, all)"
  unfolding res_laws_def by (cases "fetch_field ops r") fastforce

lemma format_fields_names:
  assumes "res_laws ops V"
  shows "r_body p = Some b \<Longrightarrow> V b = (fs, rs, all) \<Longrightarrow> distinct fs \<Longrightarrow>
    \<exists>p' b'. format_fields ops (length fs) acc p = Inr (acc @ fs, p') \<and> r_body p' = Some b' \<and> V b' = ([], rs, all) \<and>
      r_state p' = r_state p \<and> r_colCount p' = r_colCount p \<and> r_rowCount p' = r_rowCount p \<and>
      (\<forall>k. map_of (r_map p') k = (if k \<in> set fs then Some (replicate (r_rowCount p) (None, 0)) else map_of (r_map p) k))"
proof (induction fs arbitrary: p b acc)
  case (Cons f fs)
  obtain r' where r': "fetch_field ops b = (Some f, r')" "V r' = (fs, rs, all)"
    using fetch_field_law [OF assms Cons.prems(2)] by blast
  let ?p = "p\<lparr>r_body := Some r', r_map := AList.update f (replicate (r_rowCount p) (None, 0)) (r_map p)\<rparr>"
  from Cons.IH [of ?p r' "acc @ [f]"] r'(2) Cons.prems(3) obtain p' b' where p':
    "format_fields ops (length fs) (acc @ [f]) ?p = Inr (acc @ f # fs, p')" "r_body p' = Some b'" "V b' = ([], rs, all)"
    "r_state p' = r_state p" "r_colCount p' = r_colCount p" "r_rowCount p' = r_rowCount p"
    "\<And>k. map_of (r_map p') k = (if k \<in> set fs then Some (replicate (r_rowCount p) (None, 0)) else map_of (r_map ?p) k)"
    by auto
  have "format_fields ops (length (f # fs)) acc p = Inr (acc @ f # fs, p')" using p'(1) Cons.prems(1) r'(1) by simp
  moreover have "map_of (r_map p') k = (if k \<in> set (f # fs) then Some (replicate (r_rowCount p) (None, 0)) else map_of (r_map p) k)" for k
    using p'(7) [of k] by (auto simp: update_conv')
  ultimately show ?case using p'(2-6) by blast
qed simp

text \<open>One row: the cells go to the columns of their positions.\<close>

lemma format_cells_row:
  "distinct names \<Longrightarrow> k + length cs \<le> length names \<Longrightarrow> list_all cell_ok cs \<Longrightarrow>
   (\<And>j. j < length names \<Longrightarrow> map_of mp (names ! j) = Some (col j) \<and> row < length (col j)) \<Longrightarrow>
   \<exists>mp'. format_cells names row k cs mp = Inr mp' \<and>
     (\<forall>j < length names. map_of mp' (names ! j) = Some (if k \<le> j \<and> j < k + length cs then (col j)[row := cs ! (j - k)] else col j))"
proof (induction cs arbitrary: k mp col)
  case (Cons c cs)
  let ?mp = "AList.update (names ! k) ((col k)[row := c]) mp"
  let ?col = "\<lambda>j. if j = k then (col k)[row := c] else col j"
  have k: "k < length names" using Cons.prems(2) by simp
  have eq: "names ! j = names ! k \<longleftrightarrow> j = k" if "j < length names" for j using Cons.prems(1) k that by (simp add: nth_eq_iff_index_eq)
  have m: "map_of ?mp (names ! j) = Some (?col j) \<and> row < length (?col j)" if "j < length names" for j
    using Cons.prems(4) [OF that] Cons.prems(4) [OF k] eq [OF that] by (auto simp: update_conv')
  obtain mp' where mp': "format_cells names row (Suc k) cs ?mp = Inr mp'"
    "\<forall>j < length names. map_of mp' (names ! j) =
       Some (if Suc k \<le> j \<and> j < Suc k + length cs then (?col j)[row := cs ! (j - Suc k)] else ?col j)"
    using Cons.IH [where k = "Suc k", OF Cons.prems(1) _ _ m] Cons.prems(2,3) by auto
  have "format_cells names row k (c # cs) mp = Inr mp'" using mp'(1) Cons.prems(4) [OF k] Cons.prems(3) cell_kept [of c] by simp
  moreover have "map_of mp' (names ! j) = Some (if k \<le> j \<and> j < k + length (c # cs) then (col j)[row := (c # cs) ! (j - k)] else col j)"
    if "j < length names" for j
    using mp'(2) that by (auto simp: nth_Cons' Suc_le_eq not_less less_Suc_eq_le)
  ultimately show ?case by blast
qed auto

text \<open>The rows before \<open>i\<close> are in the columns.\<close>

definition filled :: "string list \<Rightarrow> cell list list \<Rightarrow> nat \<Rightarrow> (string \<times> cell list) list \<Rightarrow> bool" where
  "filled names rows i mp \<longleftrightarrow> (\<forall>j < length names. \<exists>col. map_of mp (names ! j) = Some col \<and> length col = length rows \<and>
     (\<forall>i' < i. col ! i' = rows ! i' ! j))"

lemma filled_row:
  assumes "filled names rows i mp" and "distinct names" and "i < length rows" and "length (rows ! i) = length names"
    and "list_all cell_ok (rows ! i)"
  shows "\<exists>mp'. format_cells names i 0 (rows ! i) mp = Inr mp' \<and> filled names rows (Suc i) mp'"
proof -
  have "\<forall>j. \<exists>col. j < length names \<longrightarrow> map_of mp (names ! j) = Some col \<and> length col = length rows \<and> (\<forall>i' < i. col ! i' = rows ! i' ! j)"
    using assms(1) by (simp add: filled_def)
  then obtain col where col: "\<And>j. j < length names \<Longrightarrow> map_of mp (names ! j) = Some (col j)"
    "\<And>j. j < length names \<Longrightarrow> length (col j) = length rows" "\<And>j i'. j < length names \<Longrightarrow> i' < i \<Longrightarrow> col j ! i' = rows ! i' ! j"
    by metis
  obtain mp' where mp': "format_cells names i 0 (rows ! i) mp = Inr mp'"
    "\<forall>j < length names. map_of mp' (names ! j) = Some (if 0 \<le> j \<and> j < 0 + length (rows ! i) then (col j)[i := rows ! i ! (j - 0)] else col j)"
    using format_cells_row [where k = 0 and cs = "rows ! i" and row = i and mp = mp and col = col, OF assms(2)] col(1,2) assms(3-5) by auto
  have "filled names rows (Suc i) mp'"
    using mp'(2) assms(3,4) col(2,3) by (auto simp: filled_def less_Suc_eq)
  then show ?thesis using mp'(1) by blast
qed

lemma format_rows_fill:
  assumes "res_laws ops V" and "distinct names" and "\<forall>row \<in> set rows. length row = length names \<and> list_all cell_ok row"
  shows "i \<le> length rows \<Longrightarrow> length rows - i < fuel \<Longrightarrow> filled names rows i (r_map p) \<Longrightarrow> r_state p = SUCCESS \<Longrightarrow> r_body p = Some b \<Longrightarrow>
     V b = (fs, drop i rows, rows) \<Longrightarrow> r_colCount p = length names \<Longrightarrow>
     \<exists>p' b'. format_rows ops names i fuel p = Some (Inr p') \<and> filled names rows (length rows) (r_map p') \<and> r_state p' = SUCCESS \<and>
       r_body p' = Some b' \<and> V b' = (fs, [], rows)"
proof (induction fuel arbitrary: i p b)
  case (Suc fuel)
  obtain r' where r': "fetch_row ops b = (case drop i rows of [] \<Rightarrow> None | x # xs \<Rightarrow> Some x, r')" "V r' = (fs, tl (drop i rows), rows)"
    using fetch_row_law [OF assms(1) Suc.prems(6)] by blast
  have v: "resp_valid p" using Suc.prems(4,5) by (simp add: resp_valid_def)
  show ?case
  proof (cases "i = length rows")
    case True
    then show ?thesis using r' Suc.prems v by (intro exI [of _ "p\<lparr>r_body := Some r'\<rparr>"] exI [of _ r']) (simp add: nextRow_def)
  next
    case False
    then have i: "i < length rows" using Suc.prems(1) by simp
    then have d: "drop i rows = rows ! i # drop (Suc i) rows" by (rule Cons_nth_drop_Suc [symmetric])
    have l: "length (rows ! i) = length names" "list_all cell_ok (rows ! i)" using assms(3) i by simp_all
    obtain mp' where mp': "format_cells names i 0 (rows ! i) (r_map p) = Inr mp'" "filled names rows (Suc i) mp'"
      using filled_row [OF Suc.prems(3) assms(2) i l] by blast
    have "format_rows ops names i (Suc fuel) p = format_rows ops names (Suc i) fuel (p\<lparr>r_body := Some r', r_map := mp'\<rparr>)"
      using r'(1) d v Suc.prems(5,7) l(1) mp'(1) by (simp add: nextRow_def)
    moreover have "length rows - Suc i < fuel" using Suc.prems(2) i by linarith
    ultimately show ?thesis using Suc.IH [of "Suc i" "p\<lparr>r_body := Some r', r_map := mp'\<rparr>" r'] i mp'(2) Suc.prems(4,7) r'(2) d by simp
  qed
qed simp

text \<open>C38. A query result can be read by column name: after \<^verbatim>\<open>formatDate\<close> on a valid result of which no row and no field has been
  read, with different column names, complete rows and values that an \<^verbatim>\<open>int\<close> can count, the value that \<^verbatim>\<open>resp[name][i]\<close> gives is the text of
  the cell of row \<open>i\<close> in the column of this name, for every row and column, and the rows can be read again from the first one; the loop over
  the rows ends. The fields are used up: a second call finds none.\<close>

theorem format_by_name:
  assumes "res_laws ops V" and "resp_valid p" and "V (the (r_body p)) = (names, rows, rows)" and "distinct names"
    and "\<forall>row \<in> set rows. length row = length names \<and> list_all cell_ok row" and "r_colCount p = length names" and "r_rowCount p = length rows"
    and "length rows < fuel"
  shows "\<exists>p'. formatDate ops fuel p = Some (Inr (0, p')) \<and>
    (\<forall>i < length rows. \<forall>j < length names. ColProxy_at (names ! j) (int i) p' = Inr (cell_text (rows ! i ! j))) \<and>
    V (the (r_body p')) = ([], rows, rows)"
proof -
  obtain b where b: "r_body p = Some b" "r_state p = SUCCESS" using assms(2) by (auto simp: resp_valid_def)
  obtain p1 b1 where p1: "format_fields ops (length names) [] p = Inr (names, p1)" "r_body p1 = Some b1" "V b1 = ([], rows, rows)"
    "r_state p1 = SUCCESS" "r_colCount p1 = length names"
    "\<forall>k. map_of (r_map p1) k = (if k \<in> set names then Some (replicate (length rows) (None, 0)) else map_of (r_map p) k)"
    using format_fields_names [OF assms(1) b(1), of names rows rows "[]"] assms(3,4,6,7) b by auto
  have "filled names rows 0 (r_map p1)" using p1(6) by (simp add: filled_def)
  then obtain p2 b2 where p2: "format_rows ops names 0 fuel p1 = Some (Inr p2)" "filled names rows (length rows) (r_map p2)"
    "r_state p2 = SUCCESS" "r_body p2 = Some b2" "V b2 = ([], [], rows)"
    using format_rows_fill [OF assms(1,4,5), of 0 fuel p1 b1 "[]"] assms(8) p1 by auto
  let ?p = "p2\<lparr>r_body := Some (data_seek ops b2)\<rparr>"
  have "formatDate ops fuel p = Some (Inr (0, ?p))"
    using assms(2,6) p1(1) p2 by (simp add: formatDate_def resetRow_def resp_valid_def)
  moreover have "ColProxy_at (names ! j) (int i) ?p = Inr (cell_text (rows ! i ! j))" if ij: "i < length rows" "j < length names" for i j
  proof -
    obtain col where "map_of (r_map p2) (names ! j) = Some col" "length col = length rows" "col ! i = rows ! i ! j"
      using p2(2) ij unfolding filled_def by blast
    moreover have "cell_ok (rows ! i ! j)" using assms(5) ij by (simp add: list_all_length)
    ultimately show ?thesis using cell_kept ij by (simp add: ColProxy_at_def)
  qed
  moreover have "V (the (r_body ?p)) = ([], rows, rows)" using assms(1) p2(5) by (simp add: res_laws_def)
  ultimately show ?thesis by blast
qed

text \<open>A result set as a list of names, a position and rows.\<close>

definition list_res :: "(string list \<times> cell list list \<times> cell list list) res_ops" where
  "list_res = \<lparr>fetch_row = (\<lambda>(fs, rs, all). (case rs of [] \<Rightarrow> None | x # _ \<Rightarrow> Some x, (fs, tl rs, all))),
     fetch_field = (\<lambda>(fs, rs, all). (case fs of [] \<Rightarrow> None | x # _ \<Rightarrow> Some x, (tl fs, rs, all))),
     data_seek = (\<lambda>(fs, rs, all). (fs, all, all)), num_rows = (\<lambda>(fs, rs, all). length all)\<rparr>"

lemma list_res_laws: "res_laws list_res (\<lambda>r. r)"
  by (auto simp: res_laws_def list_res_def neq_Nil_conv split: list.split)

theorem format_by_name_witness:
  "\<exists>p'. formatDate list_res 3 \<lparr>r_state = SUCCESS, r_mysql = True, r_body = Some ([''id'', ''name''],
       [[(Some ''1'', 1), (Some ''ann'', 3)], [(Some ''2'', 1), (None, 0)]], [[(Some ''1'', 1), (Some ''ann'', 3)], [(Some ''2'', 1), (None, 0)]]),
       r_colCount = 2, r_rowCount = 2, r_map = []\<rparr> = Some (Inr (0, p')) \<and> ColProxy_at ''name'' 0 p' = Inr ''ann'' \<and> ColProxy_at ''name'' 1 p' = Inr []"
proof -
  let ?rows = "[[(Some ''1'', 1), (Some ''ann'', 3)], [(Some ''2'', 1), (None, 0)]] :: cell list list"
  let ?p = "\<lparr>r_state = SUCCESS, r_mysql = True, r_body = Some ([''id'', ''name''], ?rows, ?rows), r_colCount = 2, r_rowCount = 2, r_map = []\<rparr>"
  obtain p' where p': "formatDate list_res 3 ?p = Some (Inr (0, p'))"
    "\<forall>i < length ?rows. \<forall>j < length [''id'', ''name'']. ColProxy_at ([''id'', ''name''] ! j) (int i) p' = Inr (cell_text (?rows ! i ! j))"
    using format_by_name [OF list_res_laws, of ?p "[''id'', ''name'']" ?rows 3] by (auto simp: resp_valid_def cell_ok_def)
  have "ColProxy_at ''name'' 0 p' = Inr ''ann''" using p'(2) [rule_format, of 0 1] by (simp add: cell_text_def)
  moreover have "ColProxy_at ''name'' 1 p' = Inr []" using p'(2) [rule_format, of 1 1] by (simp add: cell_text_def)
  ultimately show ?thesis using p'(1) by blast
qed

text \<open>
  A second \<^verbatim>\<open>formatDate\<close> follows the null pointer that \<^verbatim>\<open>mysql_fetch_field\<close> returns behind the last field; and one after a row was
  read fills the columns from the next row on, so index 0 is not the first row.
\<close>

lemma format_twice:
  assumes "res_laws ops V" and "resp_valid p" and "V (the (r_body p)) = ([], rows, rows)" and "0 < r_colCount p"
  shows "formatDate ops fuel p = Some (Inl NullDeref)"
proof -
  have "fst (fetch_field ops (the (r_body p))) = None" using assms(1,3) by (simp add: res_laws_def)
  then have "format_fields ops (r_colCount p) [] p = Inl NullDeref"
    using assms(4) by (cases "r_colCount p"; cases "fetch_field ops (the (r_body p))") simp_all
  then show ?thesis using assms(2) by (simp add: formatDate_def)
qed

lemma format_after_row:
  "\<exists>p'. formatDate list_res 3 (snd (nextRow list_res \<lparr>r_state = SUCCESS, r_mysql = True,
       r_body = Some ([''id''], [[(Some ''1'', 1)], [(Some ''2'', 1)]], [[(Some ''1'', 1)], [(Some ''2'', 1)]]),
       r_colCount = 1, r_rowCount = 2, r_map = []\<rparr>)) = Some (Inr (0, p')) \<and> ColProxy_at ''id'' 0 p' = Inr ''2'' \<and> ColProxy_at ''id'' 1 p' = Inr []"
  by (simp add: formatDate_def nextRow_def resp_valid_def list_res_def numeral_2_eq_2 numeral_3_eq_3 resetRow_def Value_size_def Value_new_def
      ColProxy_at_def std_string_def)

subsection \<open>Rows of a statement\<close>

lemma stmt_call_zero: "stmt_call (0, ret, es) = Some (Inr ret)"
  by (simp add: stmt_call_def stmt_loop.simps)

text \<open>A call whose waits all succeed and that is done after the last of them.\<close>

lemma stmt_loop_done:
  "list_all (\<lambda>(state, status', ret). state = SUCCESS \<and> status' \<noteq> 0) es \<Longrightarrow> status \<noteq> 0 \<Longrightarrow>
   stmt_loop status ret0 (es @ [(SUCCESS, 0, ret)] @ rest) = Some (Inr ret)"
proof (induction es arbitrary: status ret0)
  case (Cons e es)
  then show ?case by (cases e) (simp add: stmt_loop.simps [of status])
qed (simp add: stmt_loop.simps)

text \<open>Rows that can be fetched, one call each.\<close>

definition row_call :: "async_call \<times> 'w \<Rightarrow> bool" where
  "row_call c \<longleftrightarrow> stmt_call (fst c) = Some (Inr 0)"

lemma fetch_loop_rows:
  assumes "s_state s = S_EXECUTE \<or> s_state s = S_STORE"
  shows "list_all row_call cs \<Longrightarrow> fetch_loop (cs @ rest) s = fetch_loop rest (s\<lparr>s_rows := s_rows s @ map snd cs\<rparr>)"
  using assms
proof (induction cs arbitrary: s)
  case (Cons c cs)
  obtain call row where c: "c = (call, row)" by (cases c)
  have "co_fetchNext call row s = Some (Some row, s)" using Cons.prems c by (auto simp: co_fetchNext_def row_call_def)
  then show ?case using Cons.IH [of "s\<lparr>s_rows := s_rows s @ [row]\<rparr>"] Cons.prems c by simp
qed simp

text \<open>\<^verbatim>\<open>MySQLStmt::co_fetchAll\<close> delivers every row once and in order, and its result tells whether it got them all: on an executed statement
  it appends the rows of all calls that succeed; with the end of the data it reports success and can be repeated without effect;
  with an error, a failed wait or a cut value it reports failure and keeps the rows before; on a statement that was not
  executed it fails and changes nothing.\<close>

theorem fetch_all_rows:
  assumes "list_all row_call rows"
  shows "(s_state s = S_EXECUTE \<or> s_state s = S_STORE \<longrightarrow>
      (stmt_call call = Some (Inr MYSQL_NO_DATA) \<longrightarrow>
         stmt_fetchAll (rows @ (call, r) # rest) s = Some (SUCCESS, s\<lparr>s_rows := s_rows s @ map snd rows, s_state := S_FETCH\<rparr>)) \<and>
      (stmt_call call = Some (Inl state) \<or> stmt_call call = Some (Inr ret) \<and> ret \<noteq> 0 \<and> ret \<noteq> MYSQL_NO_DATA \<longrightarrow>
         stmt_fetchAll (rows @ (call, r) # rest) s = Some (FAILED, s\<lparr>s_rows := s_rows s @ map snd rows\<rparr>))) \<and>
    (s_state s = S_FETCH \<longrightarrow> stmt_fetchAll ((call, r) # rest) s = Some (SUCCESS, s)) \<and>
    (s_state s = S_INIT \<or> s_state s = S_PREPARE \<longrightarrow> stmt_fetchAll ((call, r) # rest) s = Some (FAILED, s))"
proof -
  have "stmt_fetchAll (rows @ (call, r) # rest) s = stmt_fetchAll ((call, r) # rest) (s\<lparr>s_rows := s_rows s @ map snd rows\<rparr>)"
    if "s_state s = S_EXECUTE \<or> s_state s = S_STORE" using fetch_loop_rows [OF that assms, of "(call, r) # rest"] by (simp add: stmt_fetchAll_def)
  then show ?thesis by (auto simp: stmt_fetchAll_def co_fetchNext_def)
qed

theorem fetch_all_rows_witness:
  "stmt_fetchAll [((1, 0, [(SUCCESS, 0, 0)]), ''a''), ((0, 0, []), ''b''), ((0, 100, []), ''c'')] (MySQLStmt_new\<lparr>s_state := S_EXECUTE\<rparr>)
     = Some (SUCCESS, \<lparr>s_state = S_FETCH, s_stmt = True, s_conn = True, s_rows = [''a'', ''b'']\<rparr>)"
proof -
  have "list_all row_call [((1 :: u32, 0 :: int, [(SUCCESS, 0 :: u32, 0 :: int)]), ''a''), ((0, 0, []), ''b'')]"
    by (simp add: row_call_def stmt_call_def stmt_loop.simps)
  from fetch_all_rows [OF this, of "MySQLStmt_new\<lparr>s_state := S_EXECUTE\<rparr>" "(0, 100, [])" "''c''" "[]"]
  show ?thesis by (simp add: MySQLStmt_new_def stmt_call_zero)
qed

text \<open>Executing, and the statement that cannot be prepared again.\<close>

lemma execute_success:
  assumes "s_state s = S_INIT" and "stmt_call prepare = Some (Inr 0)" and "stmt_call execute = Some (Inr 0)"
  shows "co_execute prepare 0 n 0 execute s = Some (SUCCESS, s\<lparr>s_state := S_EXECUTE\<rparr>)"
  using assms by (simp add: co_execute_def co_prepare_def)

lemma no_second_execute:
  assumes "s_state s \<noteq> S_INIT"
  shows "co_execute prepare b n b' execute s = Some (FAILED, s)"
  using assms by (simp add: co_execute_def co_prepare_def)

text \<open>After \<^verbatim>\<open>co_close\<close> the state still allows to fetch, although the statement is gone.\<close>

lemma closed_keeps_state:
  "stmt_close call s = Some (SUCCESS, s') \<Longrightarrow> s_state s' = s_state s \<and> \<not> s_stmt s' \<and> \<not> s_conn s'"
  by (auto simp: stmt_close_def split: option.splits sum.splits if_splits)

subsection \<open>Texts\<close>

text \<open>C40. A string that is put into a \<^verbatim>\<open>STMT_Text<N>\<close> comes back unchanged when it is shorter than \<open>N\<close>, and otherwise as its first
  \<open>N - 1\<close> bytes with the error flag set; the buffer always has \<open>N\<close> bytes and ends the text with a zero.\<close>

theorem text_roundtrip:
  assumes "0 < N"
  shows "\<exists>t. StringToText N str = Inr t \<and> TextToString t = take (N - 1) str \<and> (t_error t \<longleftrightarrow> TextToString t \<noteq> str) \<and>
    length (t_buf t) = N \<and> t_buf t ! t_length t = CHR 0x00"
  using assms by (cases "length str < N - 1")
    (auto simp: StringToText_def TextToString_def Let_def nth_append not_less min_def take_all_iff)

theorem text_roundtrip_witness:
  "\<exists>t. StringToText 4 ''abc'' = Inr t \<and> TextToString t = ''abc'' \<and> \<not> t_error t"
  using text_roundtrip [of 4 "''abc''"] by auto

subsection \<open>Queries\<close>

text \<open>An error that \<^verbatim>\<open>mysql_real_query_start\<close> reports at once is taken for success.\<close>

lemma early_error_lost: "conn_executeQuery (0, err, es) = Some (MySQLResp_new True SUCCESS)"
  by (simp add: conn_executeQuery_def)

text \<open>An integer of one or two bytes is bound as one of four.\<close>

fun bind_bytes :: "mysql_type \<Rightarrow> nat" where
  "bind_bytes MYSQL_TYPE_TINY = 1" | "bind_bytes MYSQL_TYPE_LONG = 4" | "bind_bytes MYSQL_TYPE_LONGLONG = 8"
| "bind_bytes MYSQL_TYPE_FLOAT = 4" | "bind_bytes MYSQL_TYPE_DOUBLE = 8" | "bind_bytes _ = 0"

lemma int_bind_width:
  "width \<in> {1, 2, 4, 8} \<Longrightarrow> bind_param (CInt width u v) b = Some b' \<Longrightarrow> bind_bytes (b_type b') \<le> width \<longleftrightarrow> width \<ge> 4"
  by auto

text \<open>The connection goes back to the pool whatever the query, the fetch and the rollback give.\<close>

lemma pool_query_returns:
  assumes "pool_query ops query result rollback result' reconn w p = Some (resp, tasks, p')"
  shows "(tasks, p') = wrapper_destroy reconn w p"
  using assms by (auto simp: pool_query_def Let_def split: Option.bind_splits prod.splits)

end
