(* ===== verification/Redis.thy ===== *)
theory Redis
  imports Mysql Strings
begin

section \<open>The Redis driver and the factory of pools (DBPool/redis, DBPool/factory)\<close>

text \<open>
  Replies are the values of the hiredis library: a type number, an integer, a text, a floating point number of a type that
  stays a parameter, and elements. What the library returns for a command is an argument.
\<close>

datatype 'd redis_reply = Reply (rr_type: int) (rr_integer: int) (rr_str: string) (rr_dval: 'd) (rr_elements: "'d redis_reply list")

abbreviation REDIS_REPLY_STRING :: int where "REDIS_REPLY_STRING \<equiv> 1"
abbreviation REDIS_REPLY_ARRAY :: int where "REDIS_REPLY_ARRAY \<equiv> 2"
abbreviation REDIS_REPLY_INTEGER :: int where "REDIS_REPLY_INTEGER \<equiv> 3"
abbreviation REDIS_REPLY_STATUS :: int where "REDIS_REPLY_STATUS \<equiv> 5"
abbreviation REDIS_REPLY_ERROR :: int where "REDIS_REPLY_ERROR \<equiv> 6"
abbreviation REDIS_REPLY_DOUBLE :: int where "REDIS_REPLY_DOUBLE \<equiv> 7"
abbreviation REDIS_REPLY_BIGNUM :: int where "REDIS_REPLY_BIGNUM \<equiv> 13"
abbreviation REDIS_REPLY_VERB :: int where "REDIS_REPLY_VERB \<equiv> 14"

subsection \<open>Responses\<close>

datatype 'd redis_resp = RedisResp (m_reply: "'d redis_reply") (m_is_child: bool) (m_array: "'d redis_resp list option") (resp_state: io_state)

definition RedisResp_new :: "'d redis_reply option \<Rightarrow> io_state \<Rightarrow> bool \<Rightarrow> failure + 'd redis_resp" where
  "RedisResp_new reply state is_child =
     (case reply of None \<Rightarrow> Inl AssertionFailed | Some r \<Rightarrow> Inr (RedisResp r is_child None state))"

text \<open>The replies that the destructor hands to \<^verbatim>\<open>freeReplyObject\<close>.\<close>

definition RedisResp_destroy :: "'d redis_resp \<Rightarrow> 'd redis_reply list" where
  "RedisResp_destroy p = (if \<not> m_is_child p then [m_reply p] else [])"

definition asInt :: "'d redis_resp \<Rightarrow> failure + int" where
  "asInt p = (if rr_type (m_reply p) = REDIS_REPLY_INTEGER then Inr (rr_integer (m_reply p)) else Inl (Thrown ''bad_cast''))"

text \<open>\<open>conv\<close> converts an integer to a floating point number.\<close>

definition asDouble :: "(int \<Rightarrow> 'd) \<Rightarrow> 'd redis_resp \<Rightarrow> failure + 'd" where
  "asDouble conv p =
     (if rr_type (m_reply p) = REDIS_REPLY_DOUBLE then Inr (rr_dval (m_reply p))
      else if rr_type (m_reply p) = REDIS_REPLY_INTEGER then Inr (conv (rr_integer (m_reply p)))
      else Inl (Thrown ''bad_cast''))"

definition to_string_int :: "int \<Rightarrow> string" where
  "to_string_int n = (if n < 0 then ''-'' @ dec (nat (- n)) else dec (nat n))"

definition asString :: "'d redis_resp \<Rightarrow> failure + string" where
  "asString p =
     (let t = rr_type (m_reply p)
      in if t \<in> {REDIS_REPLY_ERROR, REDIS_REPLY_STRING, REDIS_REPLY_VERB, REDIS_REPLY_DOUBLE, REDIS_REPLY_STATUS, REDIS_REPLY_BIGNUM}
         then Inr (rr_str (m_reply p))
         else if t = REDIS_REPLY_INTEGER then Inr (to_string_int (rr_integer (m_reply p)))
         else Inl (Thrown ''bad_cast''))"

definition asArray :: "'d redis_resp \<Rightarrow> 'd redis_resp list \<times> 'd redis_resp" where
  "asArray p =
     (case m_array p of
        Some a \<Rightarrow> (a, p)
      | None \<Rightarrow>
          (let a = map (\<lambda>r. RedisResp r True None SUCCESS) (rr_elements (m_reply p))
           in (a, RedisResp (m_reply p) (m_is_child p) (Some a) (resp_state p))))"

subsection \<open>Connections and the pool\<close>

text \<open>
  The context of a connection: \<open>None\<close> is the null pointer, otherwise its error flag. \<open>answer\<close> is what \<^verbatim>\<open>redisConnect\<close> or
  \<^verbatim>\<open>redisCommand\<close> returns.
\<close>

definition RedisConn_connect :: "bool option \<Rightarrow> int \<times> bool option" where
  "RedisConn_connect answer = (if answer = None \<or> answer = Some True then (-1, answer) else (0, answer))"

text \<open>The contexts that the destructor of a connection frees.\<close>

definition RedisConn_destroy :: "bool option \<Rightarrow> nat" where
  "RedisConn_destroy ctx = (if ctx \<noteq> None then 1 else 0)"

definition RedisConn_executeQuery :: "bool option \<Rightarrow> 'd redis_reply option \<Rightarrow> failure + 'd redis_resp option" where
  "RedisConn_executeQuery ctx answer =
     (if ctx = None then Inl AssertionFailed
      else (case answer of
              None \<Rightarrow> Inr None
            | Some r \<Rightarrow> (case RedisResp_new (Some r) SUCCESS False of Inl e \<Rightarrow> Inl e | Inr p \<Rightarrow> Inr (Some p))))"

definition redis_executeQuery :: "(nat \<Rightarrow> int \<Rightarrow> int) \<Rightarrow> (int \<Rightarrow> bool option) \<Rightarrow> 'd redis_reply option \<Rightarrow> int \<times> nat \<Rightarrow> db_pool
    \<Rightarrow> (failure + 'd redis_resp option \<times> task_coro20 list \<times> db_pool) option" where
  "redis_executeQuery connect ctx answer reconn p =
     (if \<not> checkRunState p
      then (case RedisResp_new None FAILED False of Inl e \<Rightarrow> Some (Inl e) | Inr r \<Rightarrow> Some (Inr (Some r, [], p)))
      else (case acquire connect 0 p of
              None \<Rightarrow> None
            | Some (Inl e) \<Rightarrow> Some (Inl e)
            | Some (Inr (MustWait, p)) \<Rightarrow> None
            | Some (Inr (Got w, p)) \<Rightarrow>
                (case RedisConn_executeQuery (ctx (m_conn_idx w)) answer of
                   Inl e \<Rightarrow> Some (Inl e)
                 | Inr r \<Rightarrow> (let (tasks, p) = wrapper_destroy reconn w p in Some (Inr (r, tasks, p))))))"

subsection \<open>The factory\<close>

text \<open>The public pools by their identities, and the sizes of all pools made so far with their kinds.\<close>

datatype pool_kind = MySQL_pool | Redis_pool

record db_factory =
  mysql_instance :: "nat option"
  redis_instance :: "nat option"
  pools_made :: "(pool_kind \<times> int \<times> int) list"

definition createMysqlPool :: "int \<Rightarrow> int \<Rightarrow> bool \<Rightarrow> db_factory \<Rightarrow> nat \<times> db_factory" where
  "createMysqlPool min_conn max_conn is_public f =
     (let pool = length (pools_made f); f = f\<lparr>pools_made := pools_made f @ [(MySQL_pool, min_conn, max_conn)]\<rparr>
      in (pool, if is_public then f\<lparr>mysql_instance := Some pool\<rparr> else f))"

definition createRedisPool :: "int \<Rightarrow> int \<Rightarrow> bool \<Rightarrow> db_factory \<Rightarrow> nat \<times> db_factory" where
  "createRedisPool min_conn max_conn is_public f =
     (let pool = length (pools_made f); f = f\<lparr>pools_made := pools_made f @ [(Redis_pool, min_conn, max_conn)]\<rparr>
      in (pool, if is_public then f\<lparr>redis_instance := Some pool\<rparr> else f))"

definition Mysql_getInstance :: "db_factory \<Rightarrow> nat option \<times> db_factory" where
  "Mysql_getInstance f =
     (if mysql_instance f \<noteq> None then (mysql_instance f, f)
      else (let f = snd (createMysqlPool 5 15 True f) in (mysql_instance f, f)))"

definition Redis_getInstance :: "db_factory \<Rightarrow> nat option \<times> db_factory" where
  "Redis_getInstance f =
     (if redis_instance f \<noteq> None then (redis_instance f, f)
      else (let f = snd (createMysqlPool 5 10 True f) in (redis_instance f, f)))"

subsection \<open>Properties\<close>

text \<open>Converting to an array twice gives the same responses, and only the whole reply is ever freed.\<close>

lemma asArray_cached: "asArray p = (a, p') \<Longrightarrow> asArray p' = (a, p')"
  by (auto simp: asArray_def Let_def split: option.splits)

definition array_ok :: "'d redis_resp \<Rightarrow> bool" where
  "array_ok p \<longleftrightarrow> (\<forall>a. m_array p = Some a \<longrightarrow> map m_reply a = rr_elements (m_reply p) \<and> list_all m_is_child a)"

lemma asArray_children:
  assumes "array_ok p" and "asArray p = (a, p')"
  shows "map m_reply a = rr_elements (m_reply p) \<and> array_ok p' \<and> concat (map RedisResp_destroy a) @ RedisResp_destroy p' = RedisResp_destroy p"
proof -
  have c: "list_all m_is_child a" "map m_reply a = rr_elements (m_reply p)" "m_reply p' = m_reply p" "m_is_child p' = m_is_child p"
    "array_ok p'"
    using assms by (auto simp: asArray_def array_ok_def Let_def comp_def list_all_iff split: option.splits)
  then have "concat (map RedisResp_destroy a) = []" by (auto simp: RedisResp_destroy_def list_all_iff)
  then show ?thesis using c by (simp add: RedisResp_destroy_def)
qed

lemma asString_int: "rr_type (m_reply p) = REDIS_REPLY_INTEGER \<Longrightarrow> asInt p = Inr n \<Longrightarrow> asString p = Inr (to_string_int n)"
  by (auto simp: asInt_def asString_def Let_def)

text \<open>A query on a Redis pool that does not run aborts the process instead of returning a failed response: the response is
  built from a null pointer, which its constructor refuses by an assertion.\<close>

theorem redis_query_aborts:
  assumes "\<not> checkRunState p"
  shows "redis_executeQuery connect ctx answer reconn p = Some (Inl AssertionFailed)"
  using assms by (simp add: redis_executeQuery_def RedisResp_new_def)

theorem redis_query_aborts_witness:
  "redis_executeQuery (\<lambda>_ _. 0) (\<lambda>_. Some False) (Some (Reply 3 1 [] () [])) (0, 0) (demo_pool\<lparr>pool_state := CLOSED\<rparr>) = Some (Inl AssertionFailed)"
  using redis_query_aborts [of "demo_pool\<lparr>pool_state := CLOSED\<rparr>"] by (simp add: checkRunState_def)

text \<open>The first use of the default Redis pool makes a MySQL pool, replaces the public one by it, and returns no pool at all.\<close>

lemma redis_instance_missing:
  assumes "redis_instance f = None" and "mysql_instance f = Some q"
  shows "fst (Redis_getInstance f) = None \<and> mysql_instance (snd (Redis_getInstance f)) = Some (length (pools_made f))"
  using assms by (simp add: Redis_getInstance_def createMysqlPool_def Let_def)

end
