(* ===== verification/Threads.thy ===== *)
theory Threads
  imports Prelude
begin

section \<open>Threads and results (basic/thread, basic/utils/result)\<close>

text \<open>
  A \<^verbatim>\<open>Thread\<close> object, its constructor and the new thread as two processes that take turns, and the operations on the
  object. \<^verbatim>\<open>ResultImpl\<close> is a value or an error with a flag beside it.
\<close>

subsection \<open>Results\<close>

record ('v, 'e) result_impl =
  m_value_or_error :: "'v + 'e"
  m_isError :: bool

definition createValue :: "'v \<Rightarrow> ('v, 'e) result_impl" where
  "createValue v = \<lparr>m_value_or_error = Inl v, m_isError = False\<rparr>"

definition createError :: "'e \<Rightarrow> ('v, 'e) result_impl" where
  "createError e = \<lparr>m_value_or_error = Inr e, m_isError = True\<rparr>"

definition isError :: "('v, 'e) result_impl \<Rightarrow> bool" where
  "isError r = m_isError r"

text \<open>\<^verbatim>\<open>std::get\<close> throws when the variant holds the other alternative.\<close>

definition result_getValue :: "('v, 'e) result_impl \<Rightarrow> failure + 'v" where
  "result_getValue r =
     (if m_isError r then Inl (Thrown ''No value'')
      else (case m_value_or_error r of Inl v \<Rightarrow> Inr v | Inr e \<Rightarrow> Inl (Thrown ''bad_variant_access'')))"

definition result_getError :: "('v, 'e) result_impl \<Rightarrow> failure + 'e" where
  "result_getError r =
     (if \<not> m_isError r then Inl (Thrown ''No error'')
      else (case m_value_or_error r of Inr e \<Rightarrow> Inr e | Inl v \<Rightarrow> Inl (Thrown ''bad_variant_access'')))"

definition result_setValue :: "'v \<Rightarrow> ('v, 'e) result_impl \<Rightarrow> ('v, 'e) result_impl" where
  "result_setValue v r = r\<lparr>m_value_or_error := Inl v, m_isError := False\<rparr>"

definition result_setError :: "'e \<Rightarrow> ('v, 'e) result_impl \<Rightarrow> ('v, 'e) result_impl" where
  "result_setError e r = r\<lparr>m_value_or_error := Inr e, m_isError := True\<rparr>"

definition result_move :: "('v, 'e) result_impl \<Rightarrow> ('v, 'e) result_impl" where
  "result_move other = \<lparr>m_value_or_error = m_value_or_error other, m_isError = m_isError other\<rparr>"

text \<open>The flag and the alternative agree in every object that the factory functions and the setters make.\<close>

definition result_wf :: "('v, 'e) result_impl \<Rightarrow> bool" where
  "result_wf r \<longleftrightarrow> (m_isError r \<longleftrightarrow> (\<exists>e. m_value_or_error r = Inr e))"

lemma result_wf_ops [simp]:
  "result_wf (createValue v)" "result_wf (createError e)" "result_wf (result_setValue v r)" "result_wf (result_setError e r)"
  "result_wf (result_move r) = result_wf r"
  by (simp_all add: result_wf_def createValue_def createError_def result_setValue_def result_setError_def result_move_def)

lemma result_no_bad_access:
  "result_wf r \<Longrightarrow> if isError r then (\<exists>e. result_getError r = Inr e) \<and> result_getValue r = Inl (Thrown ''No value'')
     else (\<exists>v. result_getValue r = Inr v) \<and> result_getError r = Inl (Thrown ''No error'')"
  by (auto simp: result_wf_def isError_def result_getValue_def result_getError_def split: sum.splits)

subsection \<open>Thread objects\<close>

datatype thread_state = T_INIT | T_RUNNING | T_JOINED | T_DETACHED

text \<open>\<open>t_thread\<close>: the handle is not 0; \<open>t_cb\<close>: the callback is still in the object; the number is the count of the semaphore.\<close>

record thread =
  t_id :: "nat option"
  t_thread :: bool
  t_cb :: "nat option"
  t_name :: string
  t_sem :: nat
  t_state :: thread_state

datatype pthread_call = Pthread_join | Pthread_detach

definition Thread_join :: "int \<Rightarrow> thread \<Rightarrow> failure option \<times> pthread_call list \<times> thread" where
  "Thread_join rt t =
     (if t_state t = T_JOINED \<or> t_state t = T_DETACHED then (None, [], t)
      else (let t = t\<lparr>t_state := T_JOINED\<rparr>
            in if t_thread t
               then (if rt \<noteq> 0 then (Some (Thrown ''pthread_join thread failed''), [Pthread_join], t)
                     else (None, [Pthread_join], t\<lparr>t_thread := False\<rparr>))
               else (None, [], t\<lparr>t_thread := False\<rparr>)))"

definition Thread_detach :: "int \<Rightarrow> thread \<Rightarrow> failure option \<times> pthread_call list \<times> thread" where
  "Thread_detach rt t =
     (if t_thread t
      then (if rt \<noteq> 0 then (Some (Thrown ''pthread_detach thread failed''), [Pthread_detach], t)
            else (None, [Pthread_detach], t\<lparr>t_thread := False\<rparr>))
      else (None, [], t\<lparr>t_thread := False\<rparr>))"

definition Thread_destroy :: "thread \<Rightarrow> pthread_call list" where
  "Thread_destroy t = (if t_state t = T_RUNNING then [Pthread_join] else [])"

text \<open>
  \<^verbatim>\<open>Thread::setName\<close> on a thread: with a current object it calls itself, and there is no other function of this name.
  \<open>None\<close>: the call does not return.
\<close>

partial_function (option) Thread_setName :: "bool \<Rightarrow> string \<Rightarrow> string option" where
  "Thread_setName has_thread nm =
     (if has_thread then Option.bind (Thread_setName has_thread nm) (\<lambda>_. Some nm) else Some nm)"

subsection \<open>The start of a thread\<close>

text \<open>
  The constructor after \<^verbatim>\<open>pthread_create\<close> (waiting for the semaphore, or returned) and the function \<^verbatim>\<open>run\<close> of the new
  thread, with the local variable for the callback and the callbacks that were called. \<^verbatim>\<open>Semaphore::wait\<close> returns when
  the semaphore was posted, and also when \<^verbatim>\<open>sem_wait\<close> fails (a signal interrupts it), which is only logged. The object
  is not destroyed while the new thread uses it.
\<close>

datatype run_pc = R_begin | R_named | R_swapped "nat option" | R_notified "nat option" | R_done

record start_state =
  st_thread :: thread
  st_returned :: bool
  st_interrupted :: bool
  st_run :: run_pc
  st_called :: "nat list"

definition Thread_new :: "nat \<Rightarrow> string \<Rightarrow> int \<Rightarrow> failure + start_state" where
  "Thread_new cb nm rt =
     (if rt \<noteq> 0 then Inl (Thrown ''pthread_create error'')
      else Inr \<lparr>st_thread = \<lparr>t_id = None, t_thread = True, t_cb = Some cb, t_name = nm, t_sem = 0, t_state = T_INIT\<rparr>,
              st_returned = False, st_interrupted = False, st_run = R_begin, st_called = []\<rparr>)"

text \<open>
  \<^verbatim>\<open>Semaphore::wait\<close>, where \<open>fails\<close> says that \<^verbatim>\<open>sem_wait\<close> returns an error: the count that is left when it returns, or \<open>None\<close>
  while it blocks. \<^verbatim>\<open>Semaphore::notify\<close> cannot fail on a count this small.
\<close>

definition Semaphore_wait :: "bool \<Rightarrow> nat \<Rightarrow> nat option" where
  "Semaphore_wait fails n = (if fails then Some n else if 0 < n then Some (n - 1) else None)"

definition Semaphore_notify :: "nat \<Rightarrow> nat" where
  "Semaphore_notify n = n + 1"

inductive thread_step :: "nat \<Rightarrow> start_state \<Rightarrow> start_state \<Rightarrow> bool" for tid where
  wait: "\<not> st_returned s \<Longrightarrow> Semaphore_wait fails (t_sem (st_thread s)) = Some n \<Longrightarrow>
    thread_step tid s (s\<lparr>st_returned := True, st_interrupted := fails, st_thread := (st_thread s)\<lparr>t_sem := n\<rparr>\<rparr>)"
| ident: "st_run s = R_begin \<Longrightarrow> thread_step tid s (s\<lparr>st_run := R_named, st_thread := (st_thread s)\<lparr>t_id := Some tid\<rparr>\<rparr>)"
| swap: "st_run s = R_named \<Longrightarrow>
    thread_step tid s (s\<lparr>st_run := R_swapped (t_cb (st_thread s)), st_thread := (st_thread s)\<lparr>t_cb := None\<rparr>\<rparr>)"
| post: "st_run s = R_swapped cb \<Longrightarrow>
    thread_step tid s (s\<lparr>st_run := R_notified cb, st_thread := (st_thread s)\<lparr>t_sem := Semaphore_notify (t_sem (st_thread s))\<rparr>\<rparr>)"
| call: "st_run s = R_notified (Some cb) \<Longrightarrow> thread_step tid s (s\<lparr>st_run := R_done, st_called := st_called s @ [cb]\<rparr>)"

inductive thread_steps :: "nat \<Rightarrow> start_state \<Rightarrow> start_state \<Rightarrow> bool" for tid where
  none: "thread_steps tid s s"
| another: "thread_steps tid s s' \<Longrightarrow> thread_step tid s' s'' \<Longrightarrow> thread_steps tid s s''"

text \<open>What holds in every state that the start of a thread for the callback \<open>cb\<close> can reach.\<close>

definition start_inv :: "nat \<Rightarrow> nat \<Rightarrow> start_state \<Rightarrow> bool" where
  "start_inv tid cb s \<longleftrightarrow>
     (let t = st_thread s; taken = (case st_run s of R_begin \<Rightarrow> False | R_named \<Rightarrow> False | _ \<Rightarrow> True);
          posted = (case st_run s of R_notified _ \<Rightarrow> True | R_done \<Rightarrow> True | _ \<Rightarrow> False)
      in (st_run s \<noteq> R_begin \<longrightarrow> t_id t = Some tid) \<and> t_cb t = (if taken then None else Some cb) \<and>
         (\<forall>c. st_run s = R_swapped c \<or> st_run s = R_notified c \<longrightarrow> c = Some cb) \<and>
         t_sem t + (if st_returned s \<and> \<not> st_interrupted s then 1 else 0) = (if posted then 1 else 0) \<and> (st_interrupted s \<longrightarrow> st_returned s) \<and>
         st_called s = (if st_run s = R_done then [cb] else []) \<and> t_state t = T_INIT)"

lemma start_inv_step: "thread_step tid s s' \<Longrightarrow> start_inv tid cb s \<Longrightarrow> start_inv tid cb s'"
  by (induction rule: thread_step.induct) (auto simp: start_inv_def Semaphore_wait_def Semaphore_notify_def Let_def split: run_pc.splits if_splits)

lemma start_inv_steps: "thread_steps tid s s' \<Longrightarrow> start_inv tid cb s \<Longrightarrow> start_inv tid cb s'"
  by (induction rule: thread_steps.induct) (auto dest: start_inv_step)

text \<open>C39. Unless its wait for the semaphore is interrupted, the constructor of a thread returns only after the new thread has stored its identifier
  and taken over the callback, so the object may be used and destroyed from then on. In every case, interrupted or not, the callback is called
  at most once, and where neither thread can go on the constructor has returned and the callback has been called exactly once.\<close>

theorem thread_start_handshake:
  assumes "Thread_new cb nm 0 = Inr s0" and "thread_steps tid s0 s"
  shows "(st_returned s \<and> \<not> st_interrupted s \<longrightarrow> t_id (st_thread s) = Some tid \<and> t_cb (st_thread s) = None) \<and> length (st_called s) \<le> 1 \<and>
    ((\<forall>s'. \<not> thread_step tid s s') \<longrightarrow> st_returned s \<and> st_called s = [cb])"
proof -
  have "start_inv tid cb s0" using assms(1) by (auto simp: Thread_new_def start_inv_def)
  then have i: "start_inv tid cb s" by (rule start_inv_steps [OF assms(2)])
  have "st_returned s \<and> st_called s = [cb]" if stuck: "\<forall>s'. \<not> thread_step tid s s'"
  proof -
    have "st_run s = R_done" using stuck i by (cases "st_run s") (auto simp: start_inv_def Let_def intro: thread_step.intros)
    moreover have "st_returned s" using stuck thread_step.wait [of s True] by (auto simp: Semaphore_wait_def)
    ultimately show ?thesis using i by (auto simp: start_inv_def Let_def split: if_splits)
  qed
  then show ?thesis using i by (auto simp: start_inv_def Let_def split: run_pc.splits if_splits)
qed

text \<open>A run in which the new thread gets as far as the semaphore before the constructor looks.\<close>

theorem thread_start_handshake_witness:
  "\<exists>s0 s. Thread_new 7 ''w'' 0 = Inr s0 \<and> thread_steps 42 s0 s \<and> st_returned s \<and> \<not> st_interrupted s \<and> t_id (st_thread s) = Some 42 \<and> t_cb (st_thread s) = None"
proof -
  let ?s = "\<lambda>tid cb sem ret pc. \<lparr>st_thread = \<lparr>t_id = tid, t_thread = True, t_cb = cb, t_name = ''w'', t_sem = sem, t_state = T_INIT\<rparr>,
              st_returned = ret, st_interrupted = False, st_run = pc, st_called = []\<rparr>"
  have n: "Thread_new 7 ''w'' 0 = Inr (?s None (Some 7) 0 False R_begin)" by (simp add: Thread_new_def)
  have "thread_step 42 (?s None (Some 7) 0 False R_begin) (?s (Some 42) (Some 7) 0 False R_named)"
    using thread_step.ident [of "?s None (Some 7) 0 False R_begin" 42] by simp
  moreover have "thread_step 42 (?s (Some 42) (Some 7) 0 False R_named) (?s (Some 42) None 0 False (R_swapped (Some 7)))"
    using thread_step.swap [of "?s (Some 42) (Some 7) 0 False R_named" 42] by simp
  moreover have "thread_step 42 (?s (Some 42) None 0 False (R_swapped (Some 7))) (?s (Some 42) None 1 False (R_notified (Some 7)))"
    using thread_step.post [of "?s (Some 42) None 0 False (R_swapped (Some 7))" "Some 7" 42] by (simp add: Semaphore_notify_def)
  moreover have "thread_step 42 (?s (Some 42) None 1 False (R_notified (Some 7))) (?s (Some 42) None 0 True (R_notified (Some 7)))"
    using thread_step.wait [of "?s (Some 42) None 1 False (R_notified (Some 7))" False 0 42] by (simp add: Semaphore_wait_def)
  ultimately have r: "thread_steps 42 (?s None (Some 7) 0 False R_begin) (?s (Some 42) None 0 True (R_notified (Some 7)))"
    by (meson thread_steps.intros)
  from thread_start_handshake [OF n r] show ?thesis using n r by (intro exI) auto
qed

text \<open>An interrupted wait lets the constructor return before the new thread has done anything.\<close>

lemma interrupted_start:
  "\<exists>s0 s. Thread_new cb nm 0 = Inr s0 \<and> thread_steps tid s0 s \<and> st_returned s \<and> t_id (st_thread s) = None \<and> t_cb (st_thread s) = Some cb"
proof -
  obtain s0 where s0: "Thread_new cb nm 0 = Inr s0" "\<not> st_returned s0" "t_id (st_thread s0) = None" "t_cb (st_thread s0) = Some cb"
    by (simp add: Thread_new_def)
  let ?s = "s0\<lparr>st_returned := True, st_interrupted := True, st_thread := (st_thread s0)\<lparr>t_sem := t_sem (st_thread s0)\<rparr>\<rparr>"
  have "thread_steps tid s0 ?s"
    using thread_step.wait [OF s0(2), of True "t_sem (st_thread s0)" tid] by (auto simp: Semaphore_wait_def intro: thread_steps.intros)
  then show ?thesis using s0 by (intro exI [of _ s0] exI [of _ ?s]) simp
qed

subsection \<open>The end of a thread\<close>

text \<open>No operation makes the state \<^verbatim>\<open>RUNNING\<close>, so the destructor never joins; a detached thread is not marked, but its
  handle is cleared, so a later \<^verbatim>\<open>join\<close> does nothing.\<close>

lemma never_running:
  "t_state t \<noteq> T_RUNNING \<Longrightarrow> t_state (snd (snd (Thread_join rt t))) \<noteq> T_RUNNING \<and> t_state (snd (snd (Thread_detach rt t))) \<noteq> T_RUNNING
     \<and> Thread_destroy t = []"
  by (auto simp: Thread_join_def Thread_detach_def Thread_destroy_def Let_def)

lemma join_once:
  assumes "Thread_join rt t = (e, calls, t')"
  shows "fst (snd (Thread_join rt' t')) = []"
  using assms by (auto simp: Thread_join_def Let_def split: if_splits)

text \<open>Renaming the current thread never returns.\<close>

lemma setName_loops: "Thread_setName True nm = None"
proof -
  have "h \<longrightarrow> False" if "Thread_setName h nm = Some r" for h nm r
    using that by (rule Thread_setName.raw_induct [rotated]) (auto split: if_splits Option.bind_splits)
  then show ?thesis by (cases "Thread_setName True nm") auto
qed

end
