(* ===== verification/Http_Istream.thy ===== *)
theory Http_Istream
  imports Http_Roundtrip
begin

section \<open>Reading a response from a stream (protocol/http/impl/response.hpp)\<close>

text \<open>
  \<^verbatim>\<open>response::consume(std::istream&)\<close> reads the stream with \<^verbatim>\<open>getline\<close> into a buffer of fixed size, puts the newline back and
  hands each line to the parser. The stream is the text that is left in it.
\<close>

definition istream_buffer :: nat where
  "istream_buffer = 512"

abbreviation LF :: char where
  "LF \<equiv> CHR 0x0A"

text \<open>
  \<^verbatim>\<open>getline(buf, n)\<close>: the characters stored, what is left in the stream, and the bits \<^verbatim>\<open>eof\<close> and \<^verbatim>\<open>fail\<close>. With neither bit the
  newline was found; it is removed, not stored, but counted by \<^verbatim>\<open>gcount\<close>.
\<close>

definition getline :: "nat \<Rightarrow> string \<Rightarrow> string \<times> string \<times> bool \<times> bool" where
  "getline n s =
     (let l = takeWhile (\<lambda>c. c \<noteq> LF) s
      in if length l \<le> n - 1
         then (if l = s then (l, [], True, l = []) else (l, drop (length l + 1) s, False, False))
         else (take (n - 1) s, drop (n - 1) s, False, True))"

lemma getline_shorter: "getline n s = (l, rest, False, False) \<Longrightarrow> length rest < length s"
  by (cases s) (auto simp: getline_def Let_def split: if_splits)

function istream_loop :: "string \<Rightarrow> nat \<Rightarrow> response \<Rightarrow> failure + nat \<times> response" where
  "istream_loop s tot r =
     (case getline istream_buffer s of
        (l, rest, False, False) \<Rightarrow>
          (case response_consume (l @ [LF]) r of
             Inl e \<Rightarrow> Inl e
           | Inr (k, r') \<Rightarrow> if k \<noteq> length l + 1 then Inr (tot + k, r') else istream_loop rest (tot + k) r')
      | (l, rest, _, _) \<Rightarrow>
          (case response_consume l r of Inl e \<Rightarrow> Inl e | Inr (k, r') \<Rightarrow> Inr (tot + k, r')))"
  by pat_completeness auto
termination
  by (relation "measure (\<lambda>(s, tot, r). length s)") (auto dest: getline_shorter [OF sym])

declare istream_loop.simps [simp del]

definition response_consume_istream :: "bool \<Rightarrow> string \<Rightarrow> response \<Rightarrow> failure + nat \<times> response" where
  "response_consume_istream good s r = (if good then istream_loop s 0 r else Inr (0, r))"

subsection \<open>Lines\<close>

lemma getline_line:
  assumes "LF \<notin> set l" and "length l < istream_buffer"
  shows "getline istream_buffer (l @ LF # t) = (l, t, False, False)"
proof -
  have "takeWhile (\<lambda>c. c \<noteq> LF) (l @ LF # t) = l" by (rule takeWhile_until [OF assms(1)])
  then show ?thesis using assms(2) by (simp add: getline_def istream_buffer_def)
qed

lemma istream_line:
  assumes "LF \<notin> set l" and "length l < istream_buffer" and "response_consume (l @ [LF]) r = Inr (length l + 1, r')"
  shows "istream_loop (l @ LF # t) k r = istream_loop t (k + length l + 1) r'"
  unfolding istream_loop.simps [of "l @ LF # t"] getline_line [OF assms(1,2)] using assms(3) by (simp add: add.assoc)

text \<open>One header line with its delimiter, as a call of its own.\<close>

lemma loop_end: "m_header_bytes r + 3 \<le> max_header_size \<Longrightarrow> response_loop [] r = Inr ([], r\<lparr>resp_buf := Some [], m_header_bytes := m_header_bytes r + 3\<rparr>, False)"
  by (simp add: response_loop.simps [of "[]"] crlf_def)

lemma consume_header:
  assumes "m_state r = HEADERS" and "resp_buf r = Some []" and "wf_header h" and "\<forall>x \<in> set (m_headers r). ci_less (fst x) (fst h)"
    and "m_header_bytes r + length (header_line h) + 6 \<le> max_header_size"
  shows "response_consume (header_line h @ crlf) r =
    Inr (length (header_line h) + 2, r\<lparr>m_headers := m_headers r @ [h], m_header_bytes := m_header_bytes r + length (header_line h) + 6,
      m_read := m_read r + length (header_line h) + 2\<rparr>)"
proof -
  let ?r = "r\<lparr>m_header_bytes := m_header_bytes r + length (header_line h) + 3\<rparr>"
  have "response_line (header_line h) ?r = Inr (?r\<lparr>m_headers := m_headers r @ [h]\<rparr>)"
    using process_header_line [OF assms(3), of ?r] assms(1,4) by (simp add: response_line_def)
  then have "response_loop (header_line h @ crlf) r = response_loop [] (?r\<lparr>m_headers := m_headers r @ [h]\<rparr>)"
    using find_line [OF header_line_no_cr [OF assms(3)], of "[]"] header_line_nonempty [of h] assms(5)
    unfolding response_loop.simps [of "header_line h @ crlf"] by simp
  also have "\<dots> = Inr ([], ?r\<lparr>m_headers := m_headers r @ [h], resp_buf := Some [], m_header_bytes := m_header_bytes r + length (header_line h) + 6\<rparr>, False)"
    using loop_end [of "?r\<lparr>m_headers := m_headers r @ [h]\<rparr>"] assms(5) by simp
  finally show ?thesis using assms(1,2) by (simp add: response_consume_def)
qed

lemma consume_status:
  assumes "wf_response r" and "length (status_line r) + 6 \<le> max_header_size"
  shows "response_consume (status_line r @ crlf) response_new =
    Inr (length (status_line r) + 2, response_new\<lparr>m_version := m_version r, m_status_code := m_status_code r, m_status_msg := m_status_msg r,
      m_state := HEADERS, m_header_bytes := length (status_line r) + 6, m_read := m_read response_new + length (status_line r) + 2\<rparr>)"
proof -
  let ?q = "response_new\<lparr>m_version := m_version r, m_status_code := m_status_code r, m_status_msg := m_status_msg r,
      m_state := HEADERS, m_header_bytes := length (status_line r) + 3\<rparr>"
  have "response_line (status_line r) (response_new\<lparr>m_header_bytes := length (status_line r) + 3\<rparr>) = Inr ?q"
    by (simp add: response_line_def process_status_line [OF assms(1)] response_new_simps)
  then have "response_loop (status_line r @ crlf) response_new = response_loop [] ?q"
    using find_line [OF status_line_no_cr [OF assms(1)], of "[]"] assms(2) status_line_nonempty [of r]
    unfolding response_loop.simps [of "status_line r @ crlf"] by (simp add: response_new_simps)
  also have "\<dots> = Inr ([], ?q\<lparr>resp_buf := Some [], m_header_bytes := length (status_line r) + 6\<rparr>, False)"
    using loop_end [of ?q] assms(2) by simp
  finally show ?thesis by (simp add: response_consume_def response_new_simps)
qed

lemma consume_blank:
  assumes "m_state r = HEADERS" and "resp_buf r = Some []" and "m_header_bytes r + 3 \<le> max_header_size" and "body_length r = Inr n"
  shows "response_consume crlf r = Inr (2, r\<lparr>m_header_bytes := m_header_bytes r + 3, m_read := n, m_state := BODY, resp_buf := None\<rparr>)"
proof -
  have "response_loop crlf r = Inr ([], r\<lparr>m_header_bytes := m_header_bytes r + 3\<rparr>, True)"
    using find_line [of "[]" "[]"] assms(1,3) unfolding response_loop.simps [of crlf] by simp
  moreover have "body_length (r\<lparr>m_header_bytes := m_header_bytes r + 3\<rparr>) = Inr n" using assms(4) by (simp add: body_length_def get_header_def)
  ultimately show ?thesis using assms(1,2) by (simp add: response_consume_def)
qed

subsection \<open>The head of a response\<close>

definition line_fits :: "string \<Rightarrow> bool" where
  "line_fits l \<longleftrightarrow> LF \<notin> set l \<and> length l + 1 < istream_buffer"

lemma istream_crlf_line:
  assumes "line_fits l" and "response_consume (l @ crlf) r = Inr (length l + 2, r')"
  shows "istream_loop (l @ crlf @ t) k r = istream_loop t (k + length l + 2) r'"
  using istream_line [of "l @ [CHR 0x0D]" r r' t k] assms by (simp add: line_fits_def crlf_def)

lemma istream_headers:
  "m_state r = HEADERS \<Longrightarrow> resp_buf r = Some [] \<Longrightarrow> ordered_headers (m_headers r @ hs) \<Longrightarrow> list_all wf_header hs \<Longrightarrow>
   list_all (\<lambda>h. line_fits (header_line h)) hs \<Longrightarrow> m_header_bytes r + lines_cost hs + 3 * length hs \<le> max_header_size \<Longrightarrow>
   \<exists>m. istream_loop (concat (map (\<lambda>h. header_line h @ crlf) hs) @ t) k r =
     istream_loop t (k + length (concat (map (\<lambda>h. header_line h @ crlf) hs)))
       (r\<lparr>m_headers := m_headers r @ hs, m_header_bytes := m_header_bytes r + lines_cost hs + 3 * length hs, m_read := m\<rparr>)"
proof (induction hs arbitrary: r k)
  case Nil
  then show ?case by (intro exI [of _ "m_read r"]) (simp add: lines_cost_def)
next
  case (Cons h hs)
  let ?more = "concat (map (\<lambda>h. header_line h @ crlf) hs) @ t"
  let ?r = "r\<lparr>m_headers := m_headers r @ [h], m_header_bytes := m_header_bytes r + length (header_line h) + 6,
      m_read := m_read r + length (header_line h) + 2\<rparr>"
  have lt: "\<forall>x \<in> set (m_headers r). ci_less (fst x) (fst h)" using Cons.prems(3) by (auto simp: ordered_headers_def sorted_wrt_append)
  have "response_consume (header_line h @ crlf) r = Inr (length (header_line h) + 2, ?r)"
    by (rule consume_header [OF Cons.prems(1,2) _ lt]) (use Cons.prems in \<open>simp_all add: lines_cost_def\<close>)
  then have "istream_loop (header_line h @ crlf @ ?more) k r = istream_loop ?more (k + length (header_line h) + 2) ?r"
    using istream_crlf_line Cons.prems(5) by simp
  moreover obtain m where "istream_loop ?more (k + length (header_line h) + 2) ?r =
      istream_loop t (k + length (header_line h) + 2 + length (concat (map (\<lambda>h. header_line h @ crlf) hs)))
       (?r\<lparr>m_headers := m_headers ?r @ hs, m_header_bytes := m_header_bytes ?r + lines_cost hs + 3 * length hs, m_read := m\<rparr>)"
    using Cons.IH [of ?r "k + length (header_line h) + 2"] Cons.prems by (auto simp: lines_cost_def)
  ultimately show ?case by (intro exI [of _ m]) (simp add: lines_cost_def add.assoc)
qed

subsection \<open>The body\<close>

text \<open>No run of 512 characters without a newline; \<open>n\<close> more may follow before one.\<close>

fun short_lines :: "nat \<Rightarrow> string \<Rightarrow> bool" where
  "short_lines n [] = True"
| "short_lines n (c # cs) = (if c = LF then short_lines (istream_buffer - 1) cs else 0 < n \<and> short_lines (n - 1) cs)"

lemma short_first:
  "short_lines n b \<Longrightarrow> length (takeWhile (\<lambda>c. c \<noteq> LF) b) \<le> n \<and>
     short_lines (istream_buffer - 1) (drop (length (takeWhile (\<lambda>c. c \<noteq> LF) b) + 1) b)"
  by (induction n b rule: short_lines.induct) (auto split: if_splits)

lemma body_piece:
  assumes "m_state r = BODY" and "m_read r = length (u @ v)" and "u \<noteq> []"
  shows "response_consume u r = Inr (length u, r\<lparr>m_body := m_body r @ u, m_read := length v, m_state := (if v = [] then DONE else BODY)\<rparr>)"
  using assms by (cases v) (simp_all add: response_consume_def response_process_body_def)

lemma split_first_line:
  assumes "takeWhile (\<lambda>c. c \<noteq> x) b \<noteq> b"
  shows "\<exists>l v. b = l @ x # v \<and> x \<notin> set l"
  using assms split_list_first [of x b] by (fastforce simp: takeWhile_eq_all_conv)

lemma istream_body:
  "short_lines (istream_buffer - 1) b \<Longrightarrow> (m_state r = BODY \<and> m_read r = length b) \<or> (b = [] \<and> m_state r = DONE) \<Longrightarrow>
   \<exists>r'. istream_loop b k r = Inr (k + length b, r') \<and> m_body r' = m_body r @ b \<and> m_state r' = DONE \<and> m_headers r' = m_headers r \<and>
     m_version r' = m_version r \<and> m_status_code r' = m_status_code r \<and> m_status_msg r' = m_status_msg r"
proof (induction "length b" arbitrary: b r k rule: less_induct)
  case less
  let ?l = "takeWhile (\<lambda>c. c \<noteq> LF) b"
  note sf = short_first [OF less.prems(1)]
  show ?case
  proof (cases "?l = b")
    case True
    then have g: "getline istream_buffer b = (b, [], True, b = [])" using sf unfolding getline_def Let_def True by simp
    show ?thesis
    proof (cases "b = []")
      case True
      then show ?thesis using less.prems(2) g
        by (auto simp: istream_loop.simps [of "[]"] response_consume_def response_process_body_def)
    next
      case False
      then have "response_consume b r = Inr (length b, r\<lparr>m_body := m_body r @ b, m_read := 0, m_state := DONE\<rparr>)"
        using less.prems(2) body_piece [of r b "[]"] by auto
      then show ?thesis unfolding istream_loop.simps [of b] g by simp
    qed
  next
    case False
    from split_first_line [OF this] obtain l v where b: "b = l @ LF # v" and l: "LF \<notin> set l" by blast
    let ?r = "r\<lparr>m_body := m_body r @ l @ [LF], m_read := length v, m_state := (if v = [] then DONE else BODY)\<rparr>"
    have sf': "length l \<le> istream_buffer - 1" "short_lines (istream_buffer - 1) v"
      using sf unfolding b takeWhile_until [OF l] by simp_all
    have "m_state r = BODY" "m_read r = length ((l @ [LF]) @ v)" using less.prems(2) b by auto
    then have "response_consume (l @ [LF]) r = Inr (length l + 1, ?r)" using body_piece by simp
    then have e: "istream_loop b k r = istream_loop v (k + length l + 1) ?r"
      unfolding b using istream_line [OF l] sf'(1) by (simp add: istream_buffer_def)
    show ?thesis using less.hyps [of v ?r "k + length l + 1"] sf'(2) b unfolding e by auto
  qed
qed

subsection \<open>Round trip\<close>

text \<open>
  C33. A well-formed response printed with \<^verbatim>\<open>raw()\<close> and read from a stream comes back with all its parts and every byte of the stream is
  consumed, provided that no line of the head or the body exceeds the buffer for a line. The response is done, also without a body
  and so without \<^verbatim>\<open>Content-Length\<close>: the documentation of \<^verbatim>\<open>ready()\<close> says that it then stays false, and the other \<^verbatim>\<open>consume\<close> leaves such a
  response open. The header limit counts three more bytes per line than for one call.
\<close>

theorem istream_roundtrip:
  assumes "wf_response r" and "response_cost r + 3 * (length (m_headers r) + 1) \<le> max_header_size"
    and "line_fits (status_line r)" and "list_all (\<lambda>h. line_fits (header_line h)) (m_headers r)"
    and "short_lines (istream_buffer - 1) (m_body r)"
  shows "\<exists>q. response_consume_istream True (response_raw r) response_new = Inr (length (response_raw r), q) \<and> m_state q = DONE \<and>
    m_version q = m_version r \<and> m_status_code q = m_status_code r \<and> m_status_msg q = m_status_msg r \<and> m_headers q = m_headers r \<and> m_body q = m_body r"
proof -
  let ?hs = "concat (map (\<lambda>h. header_line h @ crlf) (m_headers r))" and ?n = "length (status_line r) + 2"
  let ?q = "response_new\<lparr>m_version := m_version r, m_status_code := m_status_code r, m_status_msg := m_status_msg r,
      m_state := HEADERS, m_header_bytes := length (status_line r) + 6, m_read := m_read response_new + length (status_line r) + 2\<rparr>"
  have "response_consume (status_line r @ crlf) response_new = Inr (?n, ?q)"
    using consume_status [OF assms(1)] assms(2) by (simp add: response_cost_def)
  from istream_crlf_line [OF assms(3) this]
  have 1: "istream_loop (response_raw r) 0 response_new = istream_loop (?hs @ crlf @ m_body r) ?n ?q" by (simp add: response_raw_lines)
  obtain m where m: "istream_loop (?hs @ crlf @ m_body r) ?n ?q = istream_loop (crlf @ m_body r) (?n + length ?hs)
      (?q\<lparr>m_headers := m_headers r, m_header_bytes := length (status_line r) + 6 + lines_cost (m_headers r) + 3 * length (m_headers r), m_read := m\<rparr>)"
    using istream_headers [of ?q "m_headers r" "crlf @ m_body r" ?n] assms(1,2,4) by (auto simp: wf_response_def response_new_simps response_cost_def)
  let ?q2 = "?q\<lparr>m_headers := m_headers r, m_header_bytes := length (status_line r) + 6 + lines_cost (m_headers r) + 3 * length (m_headers r), m_read := m\<rparr>"
  have "length (m_body r) < 2 ^ 64" "get_header ''Content-Length'' ?q2 = (if m_body r = [] then [] else dec (length (m_body r)))"
    using assms(1) by (simp_all add: wf_response_def get_header_def)
  then have "body_length ?q2 = Inr (length (m_body r))" using scan_size_dec dec_digits [of "length (m_body r)"] by (simp add: body_length_def)
  then obtain q3 where q3: "response_consume crlf ?q2 = Inr (2, q3)" "m_state q3 = BODY" "m_read q3 = length (m_body r)" "m_body q3 = []"
    "m_headers q3 = m_headers r" "m_version q3 = m_version r" "m_status_code q3 = m_status_code r" "m_status_msg q3 = m_status_msg r"
    using consume_blank [of ?q2 "length (m_body r)"] assms(2) by (simp add: response_new_simps response_cost_def)
  have "istream_loop (crlf @ m_body r) (?n + length ?hs) ?q2 = istream_loop (m_body r) (?n + length ?hs + 2) q3"
    using istream_crlf_line [of "[]" ?q2 q3 "m_body r"] q3(1) by (simp add: line_fits_def istream_buffer_def)
  moreover obtain q where "istream_loop (m_body r) (?n + length ?hs + 2) q3 = Inr (?n + length ?hs + 2 + length (m_body r), q)" "m_state q = DONE"
    "m_body q = m_body r" "m_headers q = m_headers r" "m_version q = m_version r" "m_status_code q = m_status_code r" "m_status_msg q = m_status_msg r"
    using istream_body [OF assms(5), of q3 "?n + length ?hs + 2"] q3 by auto
  ultimately show ?thesis using 1 m by (simp add: response_consume_istream_def response_raw_lines)
qed

theorem istream_roundtrip_witness:
  "\<exists>q. response_consume_istream True (response_raw (set_status 404 (response_new\<lparr>m_version := ''HTTP/1.1''\<rparr>))) response_new
       = Inr (length (response_raw (set_status 404 (response_new\<lparr>m_version := ''HTTP/1.1''\<rparr>))), q)
     \<and> m_status_code q = 404 \<and> m_state q = DONE"
proof -
  let ?r = "set_status 404 (response_new\<lparr>m_version := ''HTTP/1.1''\<rparr>)"
  have g: "get_string 404 = ''Not Found''" by (simp add: get_string_def status_names_def)
  have b: "response_cost ?r + 3 * (length (m_headers ?r) + 1) \<le> max_header_size"
    by (simp add: g response_cost_def status_line_def set_status_def response_new_def lines_cost_def max_header_size_def dec.simps)
  have "length (status_line ?r) + 1 < istream_buffer"
    by (simp add: g status_line_def set_status_def response_new_def dec.simps istream_buffer_def)
  moreover have "LF \<notin> set (status_line ?r)"
    using dec_no [of LF] by (simp add: g status_line_def set_status_def response_new_def digit_def)
  ultimately have l: "line_fits (status_line ?r)" by (simp add: line_fits_def)
  show ?thesis using istream_roundtrip [OF example_response_wf(1) b l] by (auto simp: set_status_def response_new_def)
qed

text \<open>A line of the head longer than the buffer ends the reading: the rest of the stream is never looked at.\<close>

lemma long_line_stops:
  assumes "LF \<notin> set l" and "istream_buffer \<le> length l"
  shows "istream_loop (l @ t) k r = (case response_consume (take (istream_buffer - 1) l) r of Inl e \<Rightarrow> Inl e | Inr (j, r') \<Rightarrow> Inr (k + j, r'))"
proof -
  have "takeWhile (\<lambda>c. c \<noteq> LF) (l @ t) = l @ takeWhile (\<lambda>c. c \<noteq> LF) t" using assms(1) by (induction l) auto
  then have "getline istream_buffer (l @ t) = (take (istream_buffer - 1) l, drop (istream_buffer - 1) (l @ t), False, True)"
    unfolding getline_def Let_def using assms(2) by (simp add: istream_buffer_def)
  then show ?thesis by (simp add: istream_loop.simps [of "l @ t"])
qed

end
