(* ===== verification/Md5.thy ===== *)
theory Md5
  imports Sha1 Endian
begin

unbundle bit_operations_syntax

section \<open>MD5 (protocol/common/md5.hpp, protocol/websocket/md5)\<close>

text \<open>
  Two copies of the same library, a header and a C file. The state holds the length of the message in bits in two words,
  four registers and a block that fills up; whole blocks of the input are processed where they are. The reference is the
  definition of RFC 1321: padding of the whole message and one loop of 64 steps per block.
\<close>

subsection \<open>The code\<close>

record md5_state =
  md_count :: "u32 \<times> u32"
  abcd :: "u32 list"
  md_buf :: bytes

definition T_MASK :: u32 where
  "T_MASK = NOT 0"

definition md5_T :: "u32 list" where
  "md5_T =
    [T_MASK XOR 0x28955b87, T_MASK XOR 0x173848a9, 0x242070db, T_MASK XOR 0x3e423111,
     T_MASK XOR 0x0a83f050, 0x4787c62a, T_MASK XOR 0x57cfb9ec, T_MASK XOR 0x02b96afe,
     0x698098d8, T_MASK XOR 0x74bb0850, T_MASK XOR 0x0000a44e, T_MASK XOR 0x76a32841,
     0x6b901122, T_MASK XOR 0x02678e6c, T_MASK XOR 0x5986bc71, 0x49b40821,
     T_MASK XOR 0x09e1da9d, T_MASK XOR 0x3fbf4cbf, 0x265e5a51, T_MASK XOR 0x16493855,
     T_MASK XOR 0x29d0efa2, 0x02441453, T_MASK XOR 0x275e197e, T_MASK XOR 0x182c0437,
     0x21e1cde6, T_MASK XOR 0x3cc8f829, T_MASK XOR 0x0b2af278, 0x455a14ed,
     T_MASK XOR 0x561c16fa, T_MASK XOR 0x03105c07, 0x676f02d9, T_MASK XOR 0x72d5b375,
     T_MASK XOR 0x0005c6bd, T_MASK XOR 0x788e097e, 0x6d9d6122, T_MASK XOR 0x021ac7f3,
     T_MASK XOR 0x5b4115bb, 0x4bdecfa9, T_MASK XOR 0x0944b49f, T_MASK XOR 0x4140438f,
     0x289b7ec6, T_MASK XOR 0x155ed805, T_MASK XOR 0x2b10cf7a, 0x04881d05,
     T_MASK XOR 0x262b2fc6, T_MASK XOR 0x1924661a, 0x1fa27cf8, T_MASK XOR 0x3b53a99a,
     T_MASK XOR 0x0bd6ddbb, 0x432aff97, T_MASK XOR 0x546bdc58, T_MASK XOR 0x036c5fc6,
     0x655b59c3, T_MASK XOR 0x70f3336d, T_MASK XOR 0x00100b82, T_MASK XOR 0x7a7ba22e,
     0x6fa87e4f, T_MASK XOR 0x01d3191f, T_MASK XOR 0x5cfebceb, 0x4e0811a1,
     T_MASK XOR 0x08ac817d, T_MASK XOR 0x42c50dca, 0x2ad7d2bb, T_MASK XOR 0x14792c6e]"

definition md5_round1 :: "(nat \<times> nat \<times> nat \<times> nat) list" where
  "md5_round1 =
    [(0, 0, 7, 1), (3, 1, 12, 2), (2, 2, 17, 3), (1, 3, 22, 4), (0, 4, 7, 5), (3, 5, 12, 6), (2, 6, 17, 7), (1, 7, 22, 8),
     (0, 8, 7, 9), (3, 9, 12, 10), (2, 10, 17, 11), (1, 11, 22, 12), (0, 12, 7, 13), (3, 13, 12, 14), (2, 14, 17, 15), (1, 15, 22, 16)]"

definition md5_round2 :: "(nat \<times> nat \<times> nat \<times> nat) list" where
  "md5_round2 =
    [(0, 1, 5, 17), (3, 6, 9, 18), (2, 11, 14, 19), (1, 0, 20, 20), (0, 5, 5, 21), (3, 10, 9, 22), (2, 15, 14, 23), (1, 4, 20, 24),
     (0, 9, 5, 25), (3, 14, 9, 26), (2, 3, 14, 27), (1, 8, 20, 28), (0, 13, 5, 29), (3, 2, 9, 30), (2, 7, 14, 31), (1, 12, 20, 32)]"

definition md5_round3 :: "(nat \<times> nat \<times> nat \<times> nat) list" where
  "md5_round3 =
    [(0, 5, 4, 33), (3, 8, 11, 34), (2, 11, 16, 35), (1, 14, 23, 36), (0, 1, 4, 37), (3, 4, 11, 38), (2, 7, 16, 39), (1, 10, 23, 40),
     (0, 13, 4, 41), (3, 0, 11, 42), (2, 3, 16, 43), (1, 6, 23, 44), (0, 9, 4, 45), (3, 12, 11, 46), (2, 15, 16, 47), (1, 2, 23, 48)]"

definition md5_round4 :: "(nat \<times> nat \<times> nat \<times> nat) list" where
  "md5_round4 =
    [(0, 0, 6, 49), (3, 7, 10, 50), (2, 14, 15, 51), (1, 5, 21, 52), (0, 12, 6, 53), (3, 3, 10, 54), (2, 10, 15, 55), (1, 1, 21, 56),
     (0, 8, 6, 57), (3, 15, 10, 58), (2, 6, 15, 59), (1, 13, 21, 60), (0, 4, 6, 61), (3, 11, 10, 62), (2, 2, 15, 63), (1, 9, 21, 64)]"

text \<open>
  The words of a block. On a little-endian host the bytes are read as words, in place or from a copy; on a big-endian host they
  are put together one by one.
\<close>

definition load32_little :: "byte \<Rightarrow> byte \<Rightarrow> byte \<Rightarrow> byte \<Rightarrow> u32" where
  "load32_little b0 b1 b2 b3 = ucast b0 OR push_bit 8 (ucast b1) OR push_bit 16 (ucast b2) OR push_bit 24 (ucast b3)"

fun md5_X :: "host \<Rightarrow> bytes \<Rightarrow> u32 list" where
  "md5_X LITTLE_ENDIAN xp = map (\<lambda>i. load32_little (xp ! (4 * i)) (xp ! (4 * i + 1)) (xp ! (4 * i + 2)) (xp ! (4 * i + 3))) [0..<16]"
| "md5_X BIG_ENDIAN xp =
     map (\<lambda>i. ucast (xp ! (4 * i)) + push_bit 8 (ucast (xp ! (4 * i + 1))) + push_bit 16 (ucast (xp ! (4 * i + 2))) +
       push_bit 24 (ucast (xp ! (4 * i + 3)))) [0..<16]"

definition ROTATE_LEFT :: "u32 \<Rightarrow> nat \<Rightarrow> u32" where
  "ROTATE_LEFT x n = push_bit n x OR drop_bit (32 - n) x"

definition md5_F :: "u32 \<Rightarrow> u32 \<Rightarrow> u32 \<Rightarrow> u32" where "md5_F x y z = (x AND y) OR (NOT x AND z)"
definition md5_G :: "u32 \<Rightarrow> u32 \<Rightarrow> u32 \<Rightarrow> u32" where "md5_G x y z = (x AND z) OR (y AND NOT z)"
definition md5_H :: "u32 \<Rightarrow> u32 \<Rightarrow> u32 \<Rightarrow> u32" where "md5_H x y z = x XOR y XOR z"
definition md5_I :: "u32 \<Rightarrow> u32 \<Rightarrow> u32 \<Rightarrow> u32" where "md5_I x y z = y XOR (x OR NOT z)"

text \<open>
  \<^verbatim>\<open>SET(a, b, c, d, k, s, Ti)\<close> assigns to its first register; the others follow it cyclically, so the number of the first
  one among \<^verbatim>\<open>a\<close>, \<^verbatim>\<open>b\<close>, \<^verbatim>\<open>c\<close>, \<^verbatim>\<open>d\<close> stands for all four.
\<close>

definition SET :: "(u32 \<Rightarrow> u32 \<Rightarrow> u32 \<Rightarrow> u32) \<Rightarrow> u32 list \<Rightarrow> u32 list \<Rightarrow> nat \<times> nat \<times> nat \<times> nat \<Rightarrow> u32 list" where
  "SET f X regs op =
     (let (p, k, s, i) = op; a = regs ! p; b = regs ! ((p + 1) mod 4); c = regs ! ((p + 2) mod 4); d = regs ! ((p + 3) mod 4);
          t = a + f b c d + X ! k + md5_T ! (i - 1)
      in regs[p := ROTATE_LEFT t s + b])"

definition md5_process :: "host \<Rightarrow> bytes \<Rightarrow> md5_state \<Rightarrow> md5_state" where
  "md5_process host data pms =
     (let X = md5_X host data;
          r1 = foldl (SET md5_F X) (abcd pms) md5_round1;
          r2 = foldl (SET md5_G X) r1 md5_round2;
          r3 = foldl (SET md5_H X) r2 md5_round3;
          r4 = foldl (SET md5_I X) r3 md5_round4
      in pms\<lparr>abcd := map2 (+) (abcd pms) r4\<rparr>)"

definition md5_init :: "md5_state \<Rightarrow> md5_state" where
  "md5_init pms = pms\<lparr>md_count := (0, 0), abcd := [0x67452301, T_MASK XOR 0x10325476, T_MASK XOR 0x67452301, 0x10325476]\<rparr>"

fun process_full :: "host \<Rightarrow> bytes \<Rightarrow> md5_state \<Rightarrow> bytes \<times> md5_state" where
  "process_full host p pms =
     (if 64 \<le> length p then process_full host (drop 64 p) (md5_process host (take 64 p) pms) else (p, pms))"

declare process_full.simps [simp del]

definition add_length :: "nat \<Rightarrow> u32 \<times> u32 \<Rightarrow> u32 \<times> u32" where
  "add_length nbytes c =
     (let nbits = of_nat (8 * nbytes); c1 = snd c + of_nat (nbytes div 2 ^ 29); c0 = fst c + nbits
      in (c0, if c0 < nbits then c1 + 1 else c1))"

text \<open>The end of \<^verbatim>\<open>md5_append\<close>: the full blocks, then the final partial one.\<close>

definition append_rest :: "host \<Rightarrow> bytes \<Rightarrow> md5_state \<Rightarrow> md5_state" where
  "append_rest host p pms =
     (let (rest, pms) = process_full host p pms
      in if rest \<noteq> [] then pms\<lparr>md_buf := write_at (md_buf pms) 0 rest\<rparr> else pms)"

definition md5_append :: "host \<Rightarrow> bytes \<Rightarrow> md5_state \<Rightarrow> md5_state" where
  "md5_append host data pms =
     (let nbytes = length data; offset = unat (drop_bit 3 (fst (md_count pms)) AND 63)
      in if nbytes = 0 then pms
         else (let pms = pms\<lparr>md_count := add_length nbytes (md_count pms)\<rparr>
               in if offset \<noteq> 0
                  then (let copy = (if offset + nbytes > 64 then 64 - offset else nbytes);
                            pms = pms\<lparr>md_buf := write_at (md_buf pms) offset (take copy data)\<rparr>
                        in if offset + copy < 64 then pms
                           else append_rest host (drop copy data) (md5_process host (md_buf pms) pms))
                  else append_rest host data pms))"

text \<open>The bytes of words, least significant first: \<^verbatim>\<open>w[i >> 2] >> ((i & 3) << 3)\<close>.\<close>

definition md5_bytes :: "nat \<Rightarrow> u32 list \<Rightarrow> bytes" where
  "md5_bytes n w = map (\<lambda>i. ucast (drop_bit (8 * (i mod 4)) (w ! (i div 4)))) [0..<n]"

definition md5_padding :: bytes where
  "md5_padding = 0x80 # replicate 63 0"

definition md5_finish :: "host \<Rightarrow> md5_state \<Rightarrow> bytes \<times> md5_state" where
  "md5_finish host pms =
     (let data = md5_bytes 8 [fst (md_count pms), snd (md_count pms)];
          n = unat ((55 - drop_bit 3 (fst (md_count pms))) AND 63) + 1;
          pms = md5_append host (take n md5_padding) pms;
          pms = md5_append host data pms
      in (md5_bytes 16 (abcd pms), pms))"

text \<open>\<open>mem\<close> is what the memory of the state holds before; a string is its bytes.\<close>

definition md5_hash_string :: "host \<Rightarrow> md5_state \<Rightarrow> bytes \<Rightarrow> bytes" where
  "md5_hash_string host mem s = fst (md5_finish host (md5_append host s (md5_init mem)))"

definition hexval :: string where
  "hexval = ''0123456789abcdef''"

definition md5_hash_hex :: "host \<Rightarrow> md5_state \<Rightarrow> bytes \<Rightarrow> string" where
  "md5_hash_hex host mem input =
     concat (map (\<lambda>b. [hexval ! unat (drop_bit 4 b AND 0xF), hexval ! unat (b AND 0x0F)]) (md5_hash_string host mem input))"

section \<open>RFC 1321\<close>

type_synonym md5_chain = "u32 \<times> u32 \<times> u32 \<times> u32"

definition rfc_T :: "u32 list" where
  "rfc_T =
    [0xd76aa478, 0xe8c7b756, 0x242070db, 0xc1bdceee, 0xf57c0faf, 0x4787c62a, 0xa8304613, 0xfd469501,
     0x698098d8, 0x8b44f7af, 0xffff5bb1, 0x895cd7be, 0x6b901122, 0xfd987193, 0xa679438e, 0x49b40821,
     0xf61e2562, 0xc040b340, 0x265e5a51, 0xe9b6c7aa, 0xd62f105d, 0x02441453, 0xd8a1e681, 0xe7d3fbc8,
     0x21e1cde6, 0xc33707d6, 0xf4d50d87, 0x455a14ed, 0xa9e3e905, 0xfcefa3f8, 0x676f02d9, 0x8d2a4c8a,
     0xfffa3942, 0x8771f681, 0x6d9d6122, 0xfde5380c, 0xa4beea44, 0x4bdecfa9, 0xf6bb4b60, 0xbebfbc70,
     0x289b7ec6, 0xeaa127fa, 0xd4ef3085, 0x04881d05, 0xd9d4d039, 0xe6db99e5, 0x1fa27cf8, 0xc4ac5665,
     0xf4292244, 0x432aff97, 0xab9423a7, 0xfc93a039, 0x655b59c3, 0x8f0ccc92, 0xffeff47d, 0x85845dd1,
     0x6fa87e4f, 0xfe2ce6e0, 0xa3014314, 0x4e0811a1, 0xf7537e82, 0xbd3af235, 0x2ad7d2bb, 0xeb86d391]"

definition rfc_fun :: "nat \<Rightarrow> u32 \<Rightarrow> u32 \<Rightarrow> u32 \<Rightarrow> u32" where
  "rfc_fun j x y z =
     (if j < 16 then (x AND y) OR (NOT x AND z) else if j < 32 then (x AND z) OR (y AND NOT z)
      else if j < 48 then x XOR y XOR z else y XOR (x OR NOT z))"

definition rfc_k :: "nat \<Rightarrow> nat" where
  "rfc_k j = (if j < 16 then j else if j < 32 then (5 * j + 1) mod 16 else if j < 48 then (3 * j + 5) mod 16 else (7 * j) mod 16)"

definition rfc_s :: "nat \<Rightarrow> nat" where
  "rfc_s j = [[7, 12, 17, 22], [5, 9, 14, 20], [4, 11, 16, 23], [6, 10, 15, 21]] ! (j div 16) ! (j mod 4)"

definition rfc_word :: "bytes \<Rightarrow> nat \<Rightarrow> u32" where
  "rfc_word blk i = (\<Sum>k<4. ucast (blk ! (4 * i + k)) * 2 ^ (8 * k))"

definition rfc_step :: "bytes \<Rightarrow> md5_chain \<Rightarrow> nat \<Rightarrow> md5_chain" where
  "rfc_step blk h j =
     (let (A, B, C, D) = h
      in (D, B + word_rotl (rfc_s j) (A + rfc_fun j B C D + rfc_word blk (rfc_k j) + rfc_T ! j), B, C))"

definition rfc_compress :: "md5_chain \<Rightarrow> bytes \<Rightarrow> md5_chain" where
  "rfc_compress h blk =
     (let (A, B, C, D) = h; (a, b, c, d) = foldl (rfc_step blk) h [0..<64] in (A + a, B + b, C + c, D + d))"

definition le64 :: "nat \<Rightarrow> bytes" where
  "le64 n = map (\<lambda>k. of_nat (n div 256 ^ k)) [0..<8]"

definition rfc_pad :: "bytes \<Rightarrow> bytes" where
  "rfc_pad m = m @ [0x80] @ replicate ((119 - length m mod 64) mod 64) 0 @ le64 (8 * length m)"

definition rfc_output :: "md5_chain \<Rightarrow> bytes" where
  "rfc_output h = (let (A, B, C, D) = h in concat (map (\<lambda>w. map (\<lambda>k. ucast (drop_bit (8 * k) w)) [0..<4]) [A, B, C, D]))"

definition rfc_init :: md5_chain where
  "rfc_init = (0x67452301, 0xefcdab89, 0x98badcfe, 0x10325476)"

definition rfc_md5 :: "bytes \<Rightarrow> bytes" where
  "rfc_md5 m = rfc_output (foldl rfc_compress rfc_init (blocks (rfc_pad m)))"

section \<open>The code computes the digest of the RFC\<close>

subsection \<open>One block\<close>

lemma T_table: "md5_T = rfc_T"
  by (simp add: md5_T_def rfc_T_def T_MASK_def)

lemma rotate_rotl: "0 < k \<Longrightarrow> k < 32 \<Longrightarrow> ROTATE_LEFT w k = word_rotl k w"
proof -
  assume k: "0 < k" "k < 32"
  have ff: "(0xFFFFFFFF :: u32) = -1" by simp
  show ?thesis using CircularShift_rotl [OF k, of w] unfolding CircularShift_def ROTATE_LEFT_def ff by (simp only: and.right_neutral)
qed

lemma X_word: "length blk = 64 \<Longrightarrow> i < 16 \<Longrightarrow> md5_X host blk ! i = rfc_word blk i"
proof -
  assume i: "i < 16"
  have disj: "(ucast b0 :: u32) + push_bit 8 (ucast b1) + push_bit 16 (ucast b2) + push_bit 24 (ucast b3) = load32_little b0 b1 b2 b3" for b0 b1 b2 b3 :: byte
  proof -
    have 1: "(ucast b0 :: u32) + push_bit 8 (ucast b1) = ucast b0 OR push_bit 8 (ucast b1)"
      by (rule disjunctive_add) (auto simp: bit_simps)
    have 2: "(ucast b0 OR push_bit 8 (ucast b1)) + push_bit 16 (ucast b2) = (ucast b0 OR push_bit 8 (ucast b1)) OR (push_bit 16 (ucast b2) :: u32)"
      by (rule disjunctive_add) (auto simp: bit_simps)
    have 3: "((ucast b0 OR push_bit 8 (ucast b1)) OR push_bit 16 (ucast b2)) + push_bit 24 (ucast b3) =
        ((ucast b0 OR push_bit 8 (ucast b1)) OR push_bit 16 (ucast b2)) OR (push_bit 24 (ucast b3) :: u32)"
      by (rule disjunctive_add) (auto simp: bit_simps)
    show ?thesis unfolding load32_little_def 1 2 3 by (simp only: or.assoc)
  qed
  have "rfc_word blk i = ucast (blk ! (4 * i)) + push_bit 8 (ucast (blk ! (4 * i + 1))) + push_bit 16 (ucast (blk ! (4 * i + 2))) + push_bit 24 (ucast (blk ! (4 * i + 3)))"
    by (simp add: rfc_word_def push_bit_eq_mult numeral_eq_Suc lessThan_Suc add_ac)
  then show ?thesis using i disj by (cases host) simp_all
qed

text \<open>The registers of the code when the chain of the RFC has made \<open>j\<close> steps: the RFC rotates the values, the code the names.\<close>

definition regs_of :: "nat \<Rightarrow> md5_chain \<Rightarrow> u32 list" where
  "regs_of j h = (let (A, B, C, D) = h; i = j mod 4
     in if i = 0 then [A, B, C, D] else if i = 1 then [B, C, D, A] else if i = 2 then [C, D, A, B] else [D, A, B, C])"

lemma rounds_table:
  "md5_round1 = map (\<lambda>j. ((64 - j) mod 4, rfc_k j, rfc_s j, Suc j)) [0..<16]"
  "md5_round2 = map (\<lambda>j. ((64 - j) mod 4, rfc_k j, rfc_s j, Suc j)) [16..<32]"
  "md5_round3 = map (\<lambda>j. ((64 - j) mod 4, rfc_k j, rfc_s j, Suc j)) [32..<48]"
  "md5_round4 = map (\<lambda>j. ((64 - j) mod 4, rfc_k j, rfc_s j, Suc j)) [48..<64]"
  by code_simp+

lemma rfc_bounds: "j < 64 \<Longrightarrow> rfc_k j < 16 \<and> 0 < rfc_s j \<and> rfc_s j < 32"
proof -
  have "list_all (\<lambda>j. rfc_k j < 16 \<and> 0 < rfc_s j \<and> rfc_s j < 32) [0..<64]" by code_simp
  then show "j < 64 \<Longrightarrow> ?thesis" by (simp add: list_all_iff)
qed

lemma position: "j < 64 \<Longrightarrow> (64 - j) mod 4 = (4 - j mod 4) mod (4 :: nat)"
proof -
  have "list_all (\<lambda>j. (64 - j) mod 4 = (4 - j mod 4) mod (4 :: nat)) [0..<64]" by code_simp
  then show "j < 64 \<Longrightarrow> ?thesis" by (simp add: list_all_iff)
qed

lemma SET_step:
  assumes "j < 64" and "length blk = 64" and "f = rfc_fun j"
  shows "SET f (md5_X host blk) (regs_of j h) ((64 - j) mod 4, rfc_k j, rfc_s j, Suc j) = regs_of (Suc j) (rfc_step blk h j)"
proof -
  obtain A B C D where h: "h = (A, B, C, D)" by (cases h)
  have x: "md5_X host blk ! rfc_k j = rfc_word blk (rfc_k j)" using X_word assms rfc_bounds by blast
  have r: "ROTATE_LEFT w (rfc_s j) = word_rotl (rfc_s j) w" for w using rotate_rotl rfc_bounds assms(1) by blast
  have "j mod 4 = 0 \<or> j mod 4 = 1 \<or> j mod 4 = 2 \<or> j mod 4 = 3" by presburger
  moreover have p: "(64 - j) mod 4 = (4 - j mod 4) mod 4" using assms(1) by (simp add: position)
  ultimately show ?thesis
    unfolding SET_def regs_of_def rfc_step_def h Let_def p assms(3) T_table x r
    by (elim disjE) (simp_all add: x r mod_Suc add_ac)
qed

lemma foldl_rounds:
  assumes "length blk = 64" and "hi \<le> 64" and "\<forall>j. lo \<le> j \<and> j < hi \<longrightarrow> f = rfc_fun j" and "lo \<le> hi"
  shows "foldl (SET f (md5_X host blk)) (regs_of lo h) (map (\<lambda>j. ((64 - j) mod 4, rfc_k j, rfc_s j, Suc j)) [lo..<hi]) =
    regs_of hi (foldl (rfc_step blk) h [lo..<hi])"
  using assms(2-)
proof (induction hi)
  case (Suc hi)
  show ?case
  proof (cases "lo = Suc hi")
    case False
    then have "lo \<le> hi" using Suc.prems(3) by simp
    then show ?thesis using Suc SET_step [OF _ assms(1), of hi f host "foldl (rfc_step blk) h [lo..<hi]"] by simp
  qed simp
qed simp

lemma rfc_fun_code:
  "j < 16 \<Longrightarrow> md5_F = rfc_fun j" "16 \<le> j \<Longrightarrow> j < 32 \<Longrightarrow> md5_G = rfc_fun j" "32 \<le> j \<Longrightarrow> j < 48 \<Longrightarrow> md5_H = rfc_fun j" "48 \<le> j \<Longrightarrow> md5_I = rfc_fun j"
  by (simp_all add: fun_eq_iff rfc_fun_def md5_F_def md5_G_def md5_H_def md5_I_def)

lemma process_compress:
  assumes "length blk = 64" and "abcd pms = regs_of 0 h"
  shows "md5_process host blk pms = pms\<lparr>abcd := regs_of 0 (rfc_compress h blk)\<rparr>"
proof -
  let ?X = "md5_X host blk" and ?s = "rfc_step blk"
  have u: "[0..<64] = [0..<16] @ [16..<32] @ [32..<48] @ [48..<64]" by code_simp
  have 1: "foldl (SET md5_F ?X) (regs_of 0 h) md5_round1 = regs_of 16 (foldl ?s h [0..<16])"
    unfolding rounds_table by (rule foldl_rounds [OF assms(1)]) (simp_all add: rfc_fun_code)
  have 2: "foldl (SET md5_G ?X) (regs_of 16 h) md5_round2 = regs_of 32 (foldl ?s h [16..<32])" for h
    unfolding rounds_table by (rule foldl_rounds [OF assms(1)]) (auto simp: rfc_fun_code simp del: upt_rec_numeral)
  have 3: "foldl (SET md5_H ?X) (regs_of 32 h) md5_round3 = regs_of 48 (foldl ?s h [32..<48])" for h
    unfolding rounds_table by (rule foldl_rounds [OF assms(1)]) (auto simp: rfc_fun_code simp del: upt_rec_numeral)
  have 4: "foldl (SET md5_I ?X) (regs_of 48 h) md5_round4 = regs_of 64 (foldl ?s h [48..<64])" for h
    unfolding rounds_table by (rule foldl_rounds [OF assms(1)]) (auto simp: rfc_fun_code simp del: upt_rec_numeral)
  obtain A B C D a b c d where h: "h = (A, B, C, D)" "foldl ?s h [0..<64] = (a, b, c, d)" by (metis prod_cases4)
  have "foldl (SET md5_I ?X) (foldl (SET md5_H ?X) (foldl (SET md5_G ?X) (foldl (SET md5_F ?X) (regs_of 0 h) md5_round1) md5_round2) md5_round3) md5_round4
      = regs_of 64 (foldl ?s h [0..<64])"
    unfolding 1 2 3 4 u foldl_append ..
  then show ?thesis
    unfolding md5_process_def Let_def assms(2) rfc_compress_def h(2) by (simp add: h(1) regs_of_def)
qed

subsection \<open>The stream of bytes\<close>

lemma process_full_blocks:
  "abcd pms = regs_of 0 h \<Longrightarrow> \<exists>q rest. process_full host p pms = (rest, pms\<lparr>abcd := regs_of 0 (foldl rfc_compress h (blocks q))\<rparr>) \<and>
     p = q @ rest \<and> length q mod 64 = 0 \<and> length rest < 64"
proof (induction host p pms arbitrary: h rule: process_full.induct)
  case (1 host p pms)
  show ?case
  proof (cases "64 \<le> length p")
    case True
    let ?h = "rfc_compress h (take 64 p)" and ?pms = "md5_process host (take 64 p) pms"
    have m: "?pms = pms\<lparr>abcd := regs_of 0 ?h\<rparr>" using process_compress [of "take 64 p" pms h host] True "1.prems" by simp
    obtain q rest where q: "process_full host (drop 64 p) ?pms = (rest, ?pms\<lparr>abcd := regs_of 0 (foldl rfc_compress ?h (blocks q))\<rparr>)"
      "drop 64 p = q @ rest" "length q mod 64 = 0" "length rest < 64" using "1.IH" [OF True, of ?h] m by auto
    have "blocks (take 64 p @ q) = take 64 p # blocks q" using blocks_append [of "take 64 p" q] blocks_single [of "take 64 p"] True by simp
    moreover have "p = (take 64 p @ q) @ rest" using q(2) append_take_drop_id [of 64 p] by simp
    moreover have "length (take 64 p @ q) mod 64 = 0" using q(3) True by (simp add: mod_add_eq [symmetric])
    ultimately show ?thesis using q(1,4) True m
      by (intro exI [of _ "take 64 p @ q"] exI [of _ rest]) (simp add: process_full.simps [of host p pms])
  next
    case False
    then show ?thesis using "1.prems" by (intro exI [of _ "[]"] exI [of _ p]) (simp add: process_full.simps [of host p pms] blocks.simps)
  qed
qed

text \<open>
  What the state knows after the message \<open>d @ r\<close>: the full blocks \<open>d\<close> are processed, the rest \<open>r\<close> is at the start of the buffer, and
  the counter is the length in bits.
\<close>

definition md5_absorbed :: "bytes \<Rightarrow> bytes \<Rightarrow> md5_state \<Rightarrow> bool" where
  "md5_absorbed d r pms \<longleftrightarrow> length d mod 64 = 0 \<and> length r < 64 \<and> length (md_buf pms) = 64 \<and> take (length r) (md_buf pms) = r \<and>
     abcd pms = regs_of 0 (foldl rfc_compress rfc_init (blocks d)) \<and>
     md_count pms = (of_nat (8 * (length d + length r)), of_nat (8 * (length d + length r) div 2 ^ 32))"

lemma unat_u32: "unat (of_nat m :: u32) = m mod 2 ^ 32"
  by (simp add: unat_of_nat)

lemma low_bits: "unat (w AND 63) = unat w mod 64" for w :: u32
proof -
  have m: "(63 :: u32) = mask 6" by (simp add: mask_eq_exp_minus_1)
  have "w AND 63 = w mod 2 ^ 6" unfolding m by (simp only: take_bit_eq_mask [symmetric] take_bit_eq_mod)
  then show ?thesis by (simp add: unat_mod)
qed

lemma unat_drop3: "unat (drop_bit 3 w) = unat w div 8" for w :: u32
  by (simp add: drop_bit_eq_div unat_div)

lemma offset_eq: "unat (drop_bit 3 (of_nat (8 * n) :: u32) AND 63) = n mod 64"
proof -
  have "8 * n mod 2 ^ 32 div 8 = n mod 2 ^ 29" using mod_mult_mult1 [of 8 n "2 ^ 29"] by simp
  then show ?thesis unfolding low_bits unat_drop3 unat_u32 by (simp add: mod_mod_cancel)
qed

lemma carry:
  assumes "x < M" and "y < (M :: nat)"
  shows "(x + y) mod M < y \<longleftrightarrow> M \<le> x + y" and "(x + y) div M = (if M \<le> x + y then 1 else 0)"
  using assms by (cases "M \<le> x + y"; simp add: le_mod_geq le_div_geq)+

lemma add_length_eq:
  "add_length n (of_nat (8 * L), of_nat (8 * L div 2 ^ 32)) = (of_nat (8 * (L + n)), of_nat (8 * (L + n) div 2 ^ 32))"
proof -
  let ?a = "8 * L" and ?b = "8 * n"
  define M :: nat where "M = 2 ^ 32"
  have M: "0 < M" by (simp add: M_def)
  have b: "n div 2 ^ 29 = ?b div M" using div_mult_mult1 [of 8 n "2 ^ 29"] by (simp add: M_def)
  note c = carry [OF mod_less_divisor [OF M] mod_less_divisor [OF M], of ?a ?b]
  have "unat (of_nat ?a + of_nat ?b :: u32) = (?a mod M + ?b mod M) mod M"
    using unat_u32 [of "?a + ?b"] unfolding M_def [symmetric] by (simp only: of_nat_add mod_add_eq)
  moreover have "unat (of_nat ?b :: u32) = ?b mod M" unfolding M_def by (rule unat_u32)
  ultimately have lt: "(of_nat ?a + of_nat ?b :: u32) < of_nat ?b \<longleftrightarrow> M \<le> ?a mod M + ?b mod M" by (simp only: word_less_nat_alt c(1))
  have d: "8 * (L + n) div M = ?a div M + ?b div M + (if M \<le> ?a mod M + ?b mod M then 1 else 0)"
    unfolding add_mult_distrib2 div_add1_eq [of ?a ?b] c(2) ..
  show ?thesis unfolding M_def [symmetric] add_length_def Let_def b fst_conv snd_conv lt d by (simp add: distrib_left)
qed

definition bits_of :: "nat \<Rightarrow> u32 \<times> u32" where
  "bits_of n = (of_nat (8 * n), of_nat (8 * n div 2 ^ 32))"

lemma append_rest_absorbs:
  assumes "length d mod 64 = 0" and "length (md_buf pms) = 64" and "abcd pms = regs_of 0 (foldl rfc_compress rfc_init (blocks d))"
    and "md_count pms = bits_of (length (d @ p))"
  shows "\<exists>d' r'. md5_absorbed d' r' (append_rest host p pms) \<and> d' @ r' = d @ p"
proof -
  obtain q rest where q: "process_full host p pms = (rest, pms\<lparr>abcd := regs_of 0 (foldl rfc_compress (foldl rfc_compress rfc_init (blocks d)) (blocks q))\<rparr>)"
    "p = q @ rest" "length q mod 64 = 0" "length rest < 64" using process_full_blocks [OF assms(3), of host p] by (elim exE conjE) (rule that)
  have "blocks (d @ q) = blocks d @ blocks q" by (rule blocks_append [OF assms(1)])
  moreover have "length (d @ q) mod 64 = 0" using assms(1) q(3) by (simp add: mod_add_eq [symmetric])
  moreover have "take (length rest) (write_at (md_buf pms) 0 rest) = rest" using take_write_at [of 0 rest "md_buf pms"] assms(2) q(4) by simp
  ultimately have "md5_absorbed (d @ q) rest (append_rest host p pms)"
    using q assms(2,4) by (simp add: md5_absorbed_def append_rest_def bits_of_def add.assoc)
  then show ?thesis using q(2) by (intro exI [of _ "d @ q"] exI [of _ rest]) simp
qed

lemma append_absorbs:
  assumes "md5_absorbed d r pms"
  shows "\<exists>d' r'. md5_absorbed d' r' (md5_append host data pms) \<and> d' @ r' = d @ r @ data"
proof (cases "data = []")
  case True
  then show ?thesis using assms by (auto simp: md5_append_def)
next
  case ne: False
  let ?n = "length data" and ?o = "length r"
  let ?pms = "pms\<lparr>md_count := bits_of (length d + ?o + ?n)\<rparr>"
  have A: "length d mod 64 = 0" "?o < 64" "length (md_buf pms) = 64" "take ?o (md_buf pms) = r"
    "abcd pms = regs_of 0 (foldl rfc_compress rfc_init (blocks d))" "md_count pms = bits_of (length d + ?o)"
    using assms by (simp_all add: md5_absorbed_def bits_of_def)
  have off: "unat (drop_bit 3 (fst (md_count pms)) AND 63) = ?o"
    using offset_eq [of "length d + ?o"] A(1,2) by (simp only: A(6) bits_of_def fst_conv) (simp add: mod_add_eq [symmetric])
  have len: "add_length ?n (md_count pms) = bits_of (length d + ?o + ?n)" by (simp only: A(6) bits_of_def add_length_eq)
  show ?thesis
  proof (cases "r = []")
    case True
    then have "md5_append host data pms = append_rest host data ?pms" using ne off len by (simp add: md5_append_def)
    then show ?thesis using append_rest_absorbs [of d ?pms data host] A True by simp
  next
    case False
    let ?buf = "\<lambda>u. write_at (md_buf pms) ?o u"
    have buf: "take (?o + length u) (?buf u) = r @ u" "length (?buf u) = 64" if "?o + length u \<le> 64" for u
      using take_write_at [of ?o u "md_buf pms"] A(3,4) that by simp_all
    show ?thesis
    proof (cases "?o + ?n < 64")
      case True
      then have "md5_append host data pms = ?pms\<lparr>md_buf := ?buf data\<rparr>" using ne off len False by (simp add: md5_append_def Let_def)
      then have "md5_absorbed d (r @ data) (md5_append host data pms)" using A buf [of data] True by (simp add: md5_absorbed_def bits_of_def add.assoc)
      then show ?thesis by auto
    next
      case full: False
      let ?u = "take (64 - ?o) data" and ?v = "drop (64 - ?o) data"
      have u: "length ?u = 64 - ?o" using full by simp
      have blk: "?buf ?u = r @ ?u" "length (r @ ?u) = 64" using buf [of ?u] u A(2) by simp_all
      let ?h = "foldl rfc_compress rfc_init (blocks d)"
      let ?q = "?pms\<lparr>md_buf := r @ ?u, abcd := regs_of 0 (rfc_compress ?h (r @ ?u))\<rparr>"
      have "md5_process host (r @ ?u) (?pms\<lparr>md_buf := r @ ?u\<rparr>) = ?q" using process_compress [OF blk(2), of "?pms\<lparr>md_buf := r @ ?u\<rparr>" ?h host] A(5) by simp
      moreover have "(if 64 < ?o + ?n then 64 - ?o else ?n) = 64 - ?o" using full A(2) by auto
      ultimately have "md5_append host data pms = append_rest host ?v ?q"
        using ne off len False A(2) blk(1) by (simp add: md5_append_def Let_def)
      moreover have "blocks (d @ r @ ?u) = blocks d @ [r @ ?u]" using blocks_append [OF A(1), of "r @ ?u"] blocks_single [OF blk(2)] by simp
      moreover have "length (d @ r @ ?u) mod 64 = 0" using A(1) blk(2) by (simp add: mod_add_eq [symmetric])
      moreover have "length (d @ r @ ?u @ ?v) = length d + ?o + ?n" by simp
      ultimately show ?thesis using append_rest_absorbs [of "d @ r @ ?u" ?q ?v host] blk(2) by (simp add: add.assoc)
    qed
  qed
qed

subsection \<open>The digest\<close>

lemma init_absorbed: "length (md_buf mem) = 64 \<Longrightarrow> md5_absorbed [] [] (md5_init mem)"
  by (simp add: md5_absorbed_def md5_init_def T_MASK_def rfc_init_def regs_of_def blocks.simps)

lemma chunks_absorbed:
  assumes "md5_absorbed d r pms"
  shows "\<exists>d' r'. md5_absorbed d' r' (foldl (\<lambda>p c. md5_append host c p) pms chunks) \<and> d' @ r' = d @ r @ concat chunks"
  using assms
proof (induction chunks arbitrary: d r pms)
  case (Cons c cs)
  obtain d1 r1 where 1: "md5_absorbed d1 r1 (md5_append host c pms)" "d1 @ r1 = d @ r @ c" using append_absorbs [OF Cons.prems] by blast
  obtain d' r' where "md5_absorbed d' r' (foldl (\<lambda>p c. md5_append host c p) (md5_append host c pms) cs)" "d' @ r' = d1 @ r1 @ concat cs"
    using Cons.IH [OF 1(1)] by blast
  moreover have "d1 @ r1 @ concat cs = d @ r @ concat (c # cs)" using arg_cong [OF 1(2), of "\<lambda>x. x @ concat cs"] by simp
  ultimately show ?case by auto
qed auto

lemma pad_mod:
  assumes "x < 4294967296"
  shows "(if x \<le> 55 then 55 - x else 4294967351 - x) mod 64 = (119 - x mod 64) mod (64 :: nat)"
proof (cases "x \<le> 55")
  case True
  then have e: "119 - x = (55 - x) + 64" by simp
  have "(119 - x) mod 64 = (55 - x) mod 64" unfolding e by (rule mod_add_self2)
  then show ?thesis using True by simp
next
  case False
  have "x = 64 * (x div 64) + x mod 64" "x div 64 \<le> 67108863" "x mod 64 < 64" using assms by (simp_all add: mult_div_mod_eq)
  then have e: "4294967351 - x = (119 - x mod 64) + 64 * (67108863 - x div 64)" by linarith
  have "(4294967351 - x) mod 64 = (119 - x mod 64) mod 64" unfolding e by (rule mod_mult_self2)
  then show ?thesis using False by simp
qed

lemma pad_count: "unat ((55 - drop_bit 3 (of_nat (8 * n) :: u32)) AND 63) + 1 = (119 - n mod 64) mod 64 + 1"
proof -
  let ?w = "drop_bit 3 (of_nat (8 * n) :: u32)"
  have w: "unat ?w mod 64 = n mod 64" using offset_eq [of n] by (simp only: low_bits)
  have u: "unat (55 - v) = (if unat v \<le> 55 then 55 - unat v else 4294967351 - unat v)" for v :: u32
    by (simp add: unat_sub_if')
  have "unat ?w < 4294967296" using unsigned_less [of ?w, where 'a = nat] by simp
  then have "unat (55 - ?w) mod 64 = (119 - unat ?w mod 64) mod 64" unfolding u by (rule pad_mod)
  then show ?thesis unfolding low_bits w by (rule arg_cong)
qed

lemma small_ranges: "[0..<4] = [0, 1, 2, 3]" "[0..<8] = [0, 1, 2, 3, 4, 5, 6, 7]" "[0..<16] = [0, 1, 2, 3, 4, 5, 6, 7, 8, 9, 10, 11, 12, 13, 14, 15]"
  by code_simp+

lemma length_bytes: "md5_bytes 8 [of_nat (8 * n), of_nat (8 * n div 2 ^ 32)] = le64 (8 * n)"
proof -
  have b: "ucast (drop_bit (8 * k) (of_nat m :: u32)) = (of_nat (m div 256 ^ k) :: byte)" if "k < 4" for k m :: nat
  proof -
    have "m div 256 ^ k = drop_bit (8 * k) m" by (simp add: drop_bit_eq_div power_mult)
    then show ?thesis using that by (intro bit_word_eqI) (simp add: bit_simps)
  qed
  have "md5_bytes 8 [of_nat x, of_nat (x div 256 ^ 4)] = le64 x" for x
    using b [of 0 x] b [of 1 x] b [of 2 x] b [of 3 x] b [of 0 "x div 256 ^ 4"] b [of 1 "x div 256 ^ 4"] b [of 2 "x div 256 ^ 4"] b [of 3 "x div 256 ^ 4"]
    unfolding md5_bytes_def le64_def small_ranges by (simp add: div_mult2_eq [symmetric])
  from this [of "8 * n"] show ?thesis by simp
qed

lemma output_eq: "md5_bytes 16 (regs_of 0 h) = rfc_output h"
  unfolding md5_bytes_def rfc_output_def small_ranges by (cases h) (simp add: regs_of_def)

lemma whole_blocks: "md5_absorbed d r pms \<Longrightarrow> d @ r = x \<Longrightarrow> length x mod 64 = 0 \<Longrightarrow> abcd pms = regs_of 0 (foldl rfc_compress rfc_init (blocks x))"
proof -
  assume a: "md5_absorbed d r pms" "d @ r = x" "length x mod 64 = 0"
  then have "64 dvd length d" "64 dvd length d + length r" "length r < 64" by (auto simp: md5_absorbed_def)
  then have "r = []" using dvd_add_right_iff [of 64 "length d" "length r"] by (auto dest: nat_dvd_not_less)
  then show ?thesis using a by (auto simp: md5_absorbed_def)
qed

lemma padded_length: "length (rfc_pad m) mod 64 = 0"
proof -
  let ?l = "length m mod 64"
  have p: "length (rfc_pad m) = length m + ((119 - ?l) mod 64 + 9)" by (simp add: rfc_pad_def le64_def)
  have "(?l + ((119 - ?l) mod 64 + 9)) mod 64 = 0"
  proof (cases "?l \<le> 55")
    case True
    then have "(119 - ?l) mod 64 = 55 - ?l" using mod_add_self2 [of "55 - ?l" 64] by simp
    then show ?thesis using True by simp
  next
    case False
    then have "(119 - ?l) mod 64 = 119 - ?l" by simp
    then show ?thesis using False by simp
  qed
  then show ?thesis unfolding p by (metis mod_add_left_eq)
qed

lemma finish_digest:
  assumes "md5_absorbed d r pms" and "d @ r = m"
  shows "fst (md5_finish host pms) = rfc_md5 m"
proof -
  let ?n = "(119 - length m mod 64) mod 64 + 1"
  have c: "md_count pms = (of_nat (8 * length m), of_nat (8 * length m div 2 ^ 32))"
    using assms(1) unfolding md5_absorbed_def assms(2) [symmetric] length_append by (elim conjE)
  have pad: "take ?n md5_padding = 0x80 # replicate ((119 - length m mod 64) mod 64) 0" by (simp add: md5_padding_def min_def)
  let ?p1 = "md5_append host (take ?n md5_padding) pms"
  let ?p2 = "md5_append host (le64 (8 * length m)) ?p1"
  have f: "fst (md5_finish host pms) = md5_bytes 16 (abcd ?p2)"
    unfolding md5_finish_def Let_def c fst_conv snd_conv pad_count length_bytes by (rule refl)
  obtain d1 r1 where 1: "md5_absorbed d1 r1 ?p1" "d1 @ r1 = d @ r @ take ?n md5_padding" using append_absorbs [OF assms(1)] by blast
  obtain d2 r2 where 2: "md5_absorbed d2 r2 ?p2" "d2 @ r2 = d1 @ r1 @ le64 (8 * length m)" using append_absorbs [OF 1(1)] by blast
  have "d2 @ r2 = rfc_pad m" using 2(2) arg_cong [OF 1(2), of "\<lambda>x. x @ le64 (8 * length m)"] assms(2) unfolding pad by (auto simp: rfc_pad_def)
  from whole_blocks [OF 2(1) this padded_length] show ?thesis unfolding f rfc_md5_def by (simp only: output_eq)
qed

lemma digest_of_parts:
  assumes "length (md_buf mem) = 64"
  shows "fst (md5_finish host (foldl (\<lambda>p c. md5_append host c p) (md5_init mem) chunks)) = rfc_md5 (concat chunks)"
proof -
  obtain d r where "md5_absorbed d r (foldl (\<lambda>p c. md5_append host c p) (md5_init mem) chunks)" "d @ r = [] @ [] @ concat chunks"
    using chunks_absorbed [OF init_absorbed [OF assms]] by blast
  then show ?thesis using finish_digest by simp
qed

text \<open>
  C20. On hosts of either byte order, for a message of any length that is split over calls of \<^verbatim>\<open>md5_append\<close> in any way,
  \<^verbatim>\<open>md5_finish\<close> gives the digest that RFC 1321 defines for the whole message, whatever was in the memory of the state before.
\<close>

theorem md5_rfc_digest:
  assumes "length (md_buf mem) = 64"
  shows "fst (md5_finish host (foldl (\<lambda>p c. md5_append host c p) (md5_init mem) chunks)) = rfc_md5 (concat chunks)"
  by (rule digest_of_parts [OF assms])

theorem md5_rfc_digest_witness:
  "fst (md5_finish BIG_ENDIAN (foldl (\<lambda>p c. md5_append BIG_ENDIAN c p) (md5_init \<lparr>md_count = (7, 7), abcd = [], md_buf = replicate 64 1\<rparr>) [[0x61], [0x62, 0x63]]))
     = rfc_md5 [0x61, 0x62, 0x63]"
  using md5_rfc_digest [of "\<lparr>md_count = (7, 7), abcd = [], md_buf = replicate 64 1\<rparr>" BIG_ENDIAN "[[0x61], [0x62, 0x63]]"] by simp

text \<open>The convenience functions: the digest of a string, and its hexadecimal form with two digits per byte.\<close>

lemma hash_string_rfc: "length (md_buf mem) = 64 \<Longrightarrow> md5_hash_string host mem s = rfc_md5 s"
  using digest_of_parts [of mem host "[s]"] by (simp add: md5_hash_string_def)

lemma length_rfc: "length (rfc_md5 m) = 16"
  by (simp add: rfc_md5_def output_eq [symmetric] md5_bytes_def)

lemma hash_hex_length:
  assumes "length (md_buf mem) = 64"
  shows "length (md5_hash_hex host mem s) = 32 \<and> set (md5_hash_hex host mem s) \<subseteq> set hexval"
proof -
  have n: "unat (b AND 0xF) < 16" for b :: byte
  proof -
    have m: "(0xF :: byte) = mask 4" by (simp add: mask_eq_exp_minus_1)
    show ?thesis unfolding m take_bit_eq_mask [symmetric] using unsigned_take_bit_eq [of 4 b, where 'a = nat] take_bit_nat_less_exp [of 4 "unat b"] by simp
  qed
  have "length hexval = 16" by (simp add: hexval_def)
  then have h: "hexval ! unat (b AND 0xF) \<in> set hexval" for b :: byte using n nth_mem by metis
  have "length (concat (map (\<lambda>b. [f b, g b]) bs)) = 2 * length bs" for f g :: "byte \<Rightarrow> char" and bs by (induction bs) simp_all
  then show ?thesis using hash_string_rfc [OF assms, of host s] length_rfc [of s] h by (auto simp: md5_hash_hex_def)
qed

end
