(* ===== verification/Sha_Tools.thy ===== *)
theory Sha_Tools
  imports Sha1
begin

section \<open>The command line tools of SHA-1 (protocol/websocket/sha1: sha.cpp, shacmp.cpp)\<close>

text \<open>
  \<^verbatim>\<open>sha\<close> prints the digests of files, \<^verbatim>\<open>shacmp\<close> compares those of two files. The arguments are those behind the name of the program; the
  file system is a function from names to contents, \<open>None\<close> for a file that cannot be opened, and the contents of the standard
  input are an argument. One digest object serves all files; its memory at the start is arbitrary. What is printed is the list
  of names with their digests, or \<open>None\<close> for the message that there is none.
\<close>

definition sha_input :: "bytes \<Rightarrow> sha1 \<Rightarrow> digest option \<times> sha1" where
  "sha_input contents sha = Result (foldl (\<lambda>s c. Input_element c s) (Reset sha) contents)"

fun sha_files ::
  "(string \<Rightarrow> bytes option) \<Rightarrow> bytes \<Rightarrow> bool \<Rightarrow> string list \<Rightarrow> sha1 \<Rightarrow> (string \<times> digest option) list \<times> nat" where
  "sha_files fopen stdin read_stdin [] sha = ([], 0)"
| "sha_files fopen stdin read_stdin (a # as) sha =
     (if a = ''-''
      then (if read_stdin then sha_files fopen stdin True as sha
            else (let (d, sha') = sha_input stdin sha; (out, rc) = sha_files fopen stdin True as sha' in ((''STDIN'', d) # out, rc)))
      else (case fopen a of
              None \<Rightarrow> ([], 2)
            | Some contents \<Rightarrow>
                (let (d, sha') = sha_input contents sha; (out, rc) = sha_files fopen stdin read_stdin as sha' in ((a, d) # out, rc))))"

definition sha_main :: "(string \<Rightarrow> bytes option) \<Rightarrow> bytes \<Rightarrow> string list \<Rightarrow> sha1 \<Rightarrow> (string \<times> digest option) list \<times> nat" where
  "sha_main fopen stdin as sha =
     (case as of
        [] \<Rightarrow> (let (d, _) = sha_input stdin sha in ([(''STDIN'', d)], 0))
      | a # _ \<Rightarrow> if a = ''-?'' \<or> a = ''--help'' then ([], 1) else sha_files fopen stdin False as sha)"

definition shacmp_main :: "(string \<Rightarrow> bytes option) \<Rightarrow> string list \<Rightarrow> sha1 \<Rightarrow> nat" where
  "shacmp_main fopen as sha =
     (case as of
        [a, b] \<Rightarrow>
          (case fopen a of
             None \<Rightarrow> 3
           | Some x \<Rightarrow>
               (case sha_input x sha of
                  (None, _) \<Rightarrow> 3
                | (Some d1, sha1) \<Rightarrow>
                    (case fopen b of
                       None \<Rightarrow> 3
                     | Some y \<Rightarrow> (case sha_input y sha1 of (None, _) \<Rightarrow> 3 | (Some d2, _) \<Rightarrow> if d1 = d2 then 0 else 1))))
      | _ \<Rightarrow> 2)"

subsection \<open>Lemmas\<close>

text \<open>The objects of the tools: their block has 64 bytes, which no operation changes.\<close>

definition block64 :: "sha1 \<Rightarrow> bool" where
  "block64 sha \<longleftrightarrow> length (Message_Block sha) = 64"

lemma Reset_new: "Reset sha = SHA1_new (Message_Block sha)"
  by (simp add: SHA1_new_def Reset_def)

lemma block_process: "Message_Block (ProcessMessageBlock s) = Message_Block s"
  by (simp add: ProcessMessageBlock_def Let_def split: prod.splits)

lemma block_put: "length (Message_Block (put b s)) = length (Message_Block s)"
  by (simp add: put_def)

lemma block_zero_fill: "length (Message_Block (zero_fill lim s)) = length (Message_Block s)"
  by (induction lim s rule: zero_fill.induct) (simp add: zero_fill.simps block_put)

lemma block_pad: "length (Message_Block s) = 64 \<Longrightarrow> length (Message_Block (PadMessage s)) = 64"
  by (simp add: PadMessage_def Let_def block_process store_length_def block_zero_fill block_put)

lemma sha_input_digest:
  assumes "block64 sha" and "8 * length m < 2 ^ 64"
  obtains sha' where "sha_input m sha = (Some (sha1_standard m), sha')" "block64 sha'"
proof -
  let ?s = "foldl (\<lambda>s c. Input_element c s) (Reset sha) m"
  have f: "foldl (\<lambda>s c. Input_element c s) s m = foldl (\<lambda>s c. Input c s) s (map (\<lambda>b. [b]) m)" for s
    by (induction m arbitrary: s) (simp_all add: Input_element_def)
  have c: "concat (map (\<lambda>b. [b]) m) = m" by (induction m) simp_all
  have l: "length (Message_Block sha) = 64" using assms(1) by (simp add: block64_def)
  have d: "fst (Result ?s) = Some (sha1_standard m)"
    using digest_of_chunks [OF l, of "map (\<lambda>b. [b]) m"] assms(2) unfolding Reset_new f c by simp
  obtain x y where "absorbed x y ?s"
    using message_absorbed [OF l, of "map (\<lambda>b. [b]) m"] assms(2) unfolding Reset_new f c by blast
  then have "block64 (snd (Result ?s))" using block_pad [of ?s] by (auto simp: block64_def Result_def Let_def absorbed_def)
  then show thesis using that [of "snd (Result ?s)"] d unfolding sha_input_def by (metis prod.collapse)
qed

text \<open>What the files the program reads contain: the names up to the first that cannot be opened, the standard input once.\<close>

fun sha_spec :: "(string \<Rightarrow> bytes option) \<Rightarrow> bytes \<Rightarrow> bool \<Rightarrow> string list \<Rightarrow> (string \<times> bytes) list \<times> nat" where
  "sha_spec fopen stdin seen [] = ([], 0)"
| "sha_spec fopen stdin seen (a # as) =
     (if a = ''-'' \<and> seen then sha_spec fopen stdin seen as
      else case (if a = ''-'' then Some stdin else fopen a) of
        None \<Rightarrow> ([], 2)
      | Some x \<Rightarrow> (let (out, rc) = sha_spec fopen stdin (seen \<or> a = ''-'') as in ((if a = ''-'' then ''STDIN'' else a, x) # out, rc)))"

lemma sha_files_spec:
  assumes "\<And>a x. fopen a = Some x \<Longrightarrow> 8 * length x < 2 ^ 64" and "8 * length stdin < 2 ^ 64"
  shows "block64 sha \<Longrightarrow> sha_files fopen stdin seen as sha = map_prod (map (map_prod id (\<lambda>x. Some (sha1_standard x)))) id (sha_spec fopen stdin seen as)"
proof (induction as arbitrary: seen sha)
  case (Cons a as)
  show ?case
  proof (cases "a = ''-'' \<and> seen")
    case True
    then show ?thesis using Cons by simp
  next
    case False
    show ?thesis
    proof (cases "if a = ''-'' then Some stdin else fopen a")
      case None
      then show ?thesis using False by (simp split: if_splits)
    next
      case (Some x)
      then have "8 * length x < 2 ^ 64" using assms by (auto split: if_splits)
      from sha_input_digest [OF Cons.prems this] obtain sha' where s: "sha_input x sha = (Some (sha1_standard x), sha')" "block64 sha'" .
      show ?thesis
      proof (cases "a = ''-''")
        case True
        then show ?thesis using Some False s Cons.IH [OF s(2), of True] by (simp split: prod.splits)
      next
        case ne: False
        then show ?thesis using Some s Cons.IH [OF s(2), of seen] by (simp split: prod.splits)
      qed
    qed
  qed
qed simp

text \<open>
  \<^verbatim>\<open>sha\<close> prints the digest of the standard for every file it can open, in order, up to the first it cannot open, and the standard
  input at most once; \<^verbatim>\<open>shacmp\<close> returns 0 exactly when the digests of two readable files agree.
\<close>

lemma sha_main_digests:
  assumes "\<And>a x. fopen a = Some x \<Longrightarrow> 8 * length x < 2 ^ 64" and "8 * length stdin < 2 ^ 64" and "block64 sha"
    and "as = [] \<or> hd as \<noteq> ''-?'' \<and> hd as \<noteq> ''--help''"
  shows "sha_main fopen stdin as sha =
    map_prod (map (map_prod id (\<lambda>x. Some (sha1_standard x)))) id (sha_spec fopen stdin False (if as = [] then [''-''] else as))"
proof (cases as)
  case Nil
  from sha_input_digest [OF assms(3,2)] obtain sha' where "sha_input stdin sha = (Some (sha1_standard stdin), sha')" .
  then show ?thesis using Nil by (simp add: sha_main_def)
next
  case (Cons a bs)
  then show ?thesis using assms sha_files_spec [of fopen stdin sha False as] by (simp add: sha_main_def)
qed

lemma shacmp_compares:
  assumes "fopen a = Some x" and "fopen b = Some y" and "8 * length x < 2 ^ 64" and "8 * length y < 2 ^ 64" and "block64 sha"
  shows "shacmp_main fopen [a, b] sha = (if sha1_standard x = sha1_standard y then 0 else 1)"
proof -
  obtain s1 where s1: "sha_input x sha = (Some (sha1_standard x), s1)" "block64 s1" using sha_input_digest [OF assms(5,3)] .
  obtain s2 where "sha_input y s1 = (Some (sha1_standard y), s2)" using sha_input_digest [OF s1(2) assms(4)] .
  then show ?thesis using s1 assms(1,2) by (simp add: shacmp_main_def)
qed

end
