(* ===== verification/Utilities.thy ===== *)
theory Utilities
  imports Http_Headers Endian
begin

unbundle bit_operations_syntax

section \<open>Utilities (protocol/common/utilities.hpp, protocol/common/network.hpp, protocol/impl/utilities_impl.hpp, basic/until)\<close>

text \<open>
  Functions on strings that come with the HTTP parser, and the readers of the clock and of back traces. Replacing all occurrences
  of a string is a loop that need not end: it is a partial function, with \<open>None\<close> for a call that does not return.
\<close>

subsection \<open>Replacing\<close>

partial_function (option) replace_from :: "string \<Rightarrow> string \<Rightarrow> nat \<Rightarrow> string \<Rightarrow> string option" where
  "replace_from search rep pos subject =
     (case str_find subject search pos of
        None \<Rightarrow> Some subject
      | Some p \<Rightarrow> replace_from search rep (p + length rep) (take p subject @ rep @ drop (p + length search) subject))"

definition string_replace_all :: "string \<Rightarrow> string \<Rightarrow> string \<Rightarrow> string option" where
  "string_replace_all subject search rep = replace_from search rep 0 subject"

text \<open>The reference: the first occurrence is replaced, and the search goes on behind it in the original text.\<close>

function replaced :: "string \<Rightarrow> string \<Rightarrow> string \<Rightarrow> string" where
  "replaced search rep s =
     (if search = [] then s
      else case find_in search s of None \<Rightarrow> s | Some k \<Rightarrow> take k s @ rep @ replaced search rep (drop (k + length search) s))"
  by pat_completeness auto
termination
proof (relation "measure (\<lambda>(search, rep, s). length s)")
  fix search rep s :: string and k
  assume "search \<noteq> []" "find_in search s = Some k"
  then show "((search, rep, drop (k + length search) s), search, rep, s) \<in> measure (\<lambda>(search, rep, s). length s)"
    using find_in_bound [of search s k] by (cases search) auto
qed simp

declare replaced.simps [simp del]

lemma replace_from_replaced:
  "search \<noteq> [] \<Longrightarrow> replace_from search rep (length u) (u @ s) = Some (u @ replaced search rep s)"
proof (induction search rep s arbitrary: u rule: replaced.induct)
  case (1 search rep s)
  show ?case
  proof (cases "find_in search s")
    case None
    then show ?thesis using "1.prems" by (simp add: replace_from.simps [of search rep "length u"] replaced.simps [of search rep s] str_find_def)
  next
    case (Some k)
    let ?v = "u @ take k s @ rep" and ?t = "drop (k + length search) s"
    have k: "k \<le> length s" using find_in_bound [OF Some "1.prems"] by simp
    have "replace_from search rep (length ?v) (?v @ ?t) = Some (?v @ replaced search rep ?t)" by (rule "1.IH" [OF "1.prems" Some "1.prems"])
    moreover have "replace_from search rep (length u) (u @ s) = replace_from search rep (length ?v) (?v @ ?t)"
      using Some k by (subst replace_from.simps) (simp add: str_find_def min_def add.assoc)
    ultimately show ?thesis using Some "1.prems" by (simp add: replaced.simps [of search rep s])
  qed
qed

lemma find_empty: "find_in [] s = Some 0"
  by (cases s) simp_all

lemma replace_empty_diverges:
  assumes "replace_from search rep pos s = Some t"
  shows "search = [] \<longrightarrow> \<not> pos \<le> length s"
proof (rule replace_from.raw_induct [where P = "\<lambda>search rep pos s t. search = [] \<longrightarrow> \<not> pos \<le> length s", OF _ assms])
  fix f :: "string \<Rightarrow> string \<Rightarrow> nat \<Rightarrow> string \<Rightarrow> string option" and search rep pos s t
  assume IH: "\<And>search rep pos s t. f search rep pos s = Some t \<Longrightarrow> search = [] \<longrightarrow> \<not> pos \<le> length s"
    and st: "(case str_find s search pos of None \<Rightarrow> Some s
      | Some p \<Rightarrow> f search rep (p + length rep) (take p s @ rep @ drop (p + length search) s)) = Some t"
  show "search = [] \<longrightarrow> \<not> pos \<le> length s"
  proof (intro impI notI)
    assume e: "search = []" and le: "pos \<le> length s"
    then have "f [] rep (pos + length rep) (take pos s @ rep @ drop pos s) = Some t" using st by (simp add: str_find_def find_empty)
    from IH [OF this] show False using le by simp
  qed
qed

text \<open>
  \<^verbatim>\<open>string_replace_all\<close> returns exactly when the string to search for is not empty, and then replaces the occurrences from left to
  right without looking into what it put in; with an empty one it never returns.
\<close>

theorem string_replace_all_returns:
  "string_replace_all subject search rep = (if search = [] then None else Some (replaced search rep subject))"
proof (cases "search = []")
  case True
  then have "string_replace_all subject search rep \<noteq> Some t" for t
    using replace_empty_diverges [of search rep 0 subject t] by (auto simp: string_replace_all_def)
  then show ?thesis using True by (cases "string_replace_all subject search rep") simp_all
next
  case False
  then show ?thesis using replace_from_replaced [of search rep "[]" subject] by (simp add: string_replace_all_def)
qed

subsection \<open>Case\<close>

definition to_lower :: "string \<Rightarrow> string" where
  "to_lower s = map (\<lambda>c. char_of (tolower c)) s"

definition toupper :: "char \<Rightarrow> nat" where
  "toupper c = (let n = of_char c in if 97 \<le> n \<and> n \<le> 122 then n - 32 else n)"

definition my_equal :: "char \<Rightarrow> char \<Rightarrow> bool" where
  "my_equal c1 c2 \<longleftrightarrow> toupper c1 = toupper c2"

text \<open>\<^verbatim>\<open>std::search\<close> with a comparison; the end of the text when there is no match.\<close>

fun search_by :: "(char \<Rightarrow> char \<Rightarrow> bool) \<Rightarrow> string \<Rightarrow> string \<Rightarrow> nat" where
  "search_by eq hay needle =
     (if length needle \<le> length hay \<and> list_all2 eq (take (length needle) hay) needle then 0
      else case hay of [] \<Rightarrow> 0 | _ # hay' \<Rightarrow> Suc (search_by eq hay' needle))"

declare search_by.simps [simp del]

definition ci_find_substr :: "string \<Rightarrow> string \<Rightarrow> nat" where
  "ci_find_substr haystack needle = search_by my_equal haystack needle"

lemma tolower_bound: "tolower c < 256"
  using nat_of_char_less_256 [of c] by (simp add: tolower_def Let_def)

lemma to_lower_ci: "to_lower s = to_lower t \<longleftrightarrow> ci_same s t"
proof -
  have "char_of (tolower c) = (char_of (tolower d) :: char) \<longleftrightarrow> tolower c = tolower d" for c d
    using tolower_bound by (metis mod_less of_char_of)
  then show ?thesis by (induction s t rule: list_induct2') (auto simp: to_lower_def ci_same_def)
qed

lemma to_lower_idem: "to_lower (to_lower s) = to_lower s"
proof -
  have "char_of (tolower (char_of (tolower c))) = (char_of (tolower c) :: char)" for c
    using nat_of_char_less_256 [of c] by (simp add: tolower_def Let_def)
  then show ?thesis by (simp add: to_lower_def)
qed

text \<open>Two texts of equal length match without regard to upper case exactly when their lower case forms agree.\<close>

lemma upper_lower_nat:
  "(if 97 \<le> x \<and> x \<le> 122 then x - 32 else x) = (if 97 \<le> y \<and> y \<le> 122 then y - 32 else y) \<longleftrightarrow>
   (if 65 \<le> x \<and> x \<le> 90 then x + 32 else x) = (if 65 \<le> y \<and> y \<le> 90 then y + 32 else (y :: nat))"
  by (auto split: if_splits)

lemma upper_lower: "toupper c = toupper d \<longleftrightarrow> tolower c = tolower d"
  unfolding toupper_def tolower_def Let_def by (rule upper_lower_nat)

lemma ci_find_first:
  "ci_find_substr hay needle = k \<longleftrightarrow>
     (k \<le> length hay \<and> (\<forall>j<k. \<not> ci_same (take (length needle) (drop j hay)) needle) \<and>
      (k < length hay \<or> needle = [] \<longrightarrow> ci_same (take (length needle) (drop k hay)) needle))"
proof (induction hay arbitrary: k)
  case Nil
  then show ?case by (auto simp: ci_find_substr_def search_by.simps ci_same_def)
next
  case (Cons c hay)
  have m: "length needle \<le> length (c # hay) \<and> list_all2 my_equal (take (length needle) (c # hay)) needle \<longleftrightarrow> ci_same (take (length needle) (c # hay)) needle"
    by (auto simp: ci_same_def list_all2_conv_all_nth my_equal_def upper_lower list_eq_iff_nth_eq dest: arg_cong [where f = length])
  show ?case
  proof (cases "ci_same (take (length needle) (c # hay)) needle")
    case True
    then have z: "ci_find_substr (c # hay) needle = 0" using m by (simp add: ci_find_substr_def search_by.simps [of _ "c # hay"])
    show ?thesis unfolding z using True by (cases k) (auto intro: exI [of _ 0])
  next
    case False
    then have s: "ci_find_substr (c # hay) needle = Suc (ci_find_substr hay needle)" using m by (simp add: ci_find_substr_def search_by.simps [of _ "c # hay"])
    show ?thesis
    proof (cases k)
      case 0
      then show ?thesis unfolding s using False by auto
    next
      case (Suc j)
      have "(\<forall>i<Suc j. \<not> ci_same (take (length needle) (drop i (c # hay))) needle) \<longleftrightarrow> (\<forall>i<j. \<not> ci_same (take (length needle) (drop i hay)) needle)"
        using False by (auto simp: less_Suc_eq_0_disj)
      then show ?thesis unfolding s Suc using Cons.IH [of j] by simp
    qed
  qed
qed

subsection \<open>Hexadecimal output\<close>

definition hex_digits :: string where
  "hex_digits = ''0123456789ABCDEF''"

definition to_hex :: "bytes \<Rightarrow> string" where
  "to_hex input = concat (map (\<lambda>b. [hex_digits ! unat (drop_bit 4 (b AND 0xF0)), hex_digits ! unat (b AND 0x0F), CHR '' '']) input)"

text \<open>The value of a printed byte, and reading back a printed text.\<close>

definition hex_value :: "char \<Rightarrow> nat" where
  "hex_value c = length (takeWhile (\<lambda>d. d \<noteq> c) hex_digits)"

fun of_hex :: "string \<Rightarrow> bytes" where
  "of_hex (h # l # c # s) = of_nat (16 * hex_value h + hex_value l) # of_hex s"
| "of_hex s = []"

lemma nibbles: "unat (drop_bit 4 (b AND 0xF0)) = unat b div 16" "unat (b AND 0x0F) = unat b mod 16" for b :: byte
proof -
  have l: "(0x0F :: byte) = mask 4" by (simp add: mask_eq_exp_minus_1)
  have "b AND 0x0F = b mod 2 ^ 4" unfolding l by (simp only: take_bit_eq_mask [symmetric] take_bit_eq_mod)
  then show "unat (b AND 0x0F) = unat b mod 16" by (simp add: unat_mod)
  have "drop_bit 4 (0xF0 :: byte) = mask 4" by (simp add: mask_eq_exp_minus_1)
  then have "drop_bit 4 (b AND 0xF0) = drop_bit 4 b AND mask 4" by (simp only: drop_bit_and)
  also have "\<dots> = drop_bit 4 b" by (rule bit_word_eqI) (auto simp: bit_simps dest: bit_imp_le_length)
  finally show "unat (drop_bit 4 (b AND 0xF0)) = unat b div 16" by (simp add: drop_bit_eq_div unat_div)
qed

lemma hex_value_digit: "n < 16 \<Longrightarrow> hex_value (hex_digits ! n) = n"
proof -
  have "list_all (\<lambda>n. hex_value (hex_digits ! n) = n) [0..<16]" by code_simp
  then show "n < 16 \<Longrightarrow> ?thesis" by (simp add: list_all_iff)
qed

lemma to_hex_Cons: "to_hex (b # bs) = hex_digits ! (unat b div 16) # hex_digits ! (unat b mod 16) # CHR '' '' # to_hex bs"
  by (simp only: to_hex_def list.map concat.simps nibbles append.simps)

lemma to_hex_roundtrip: "of_hex (to_hex bs) = bs"
proof (induction bs)
  case (Cons b bs)
  have b: "unat b < 256" using unsigned_less [of b, where 'a = nat] by simp
  have "hex_value (hex_digits ! (unat b div 16)) = unat b div 16" "hex_value (hex_digits ! (unat b mod 16)) = unat b mod 16"
    using b by (simp_all add: hex_value_digit)
  then have "of_nat (16 * hex_value (hex_digits ! (unat b div 16)) + hex_value (hex_digits ! (unat b mod 16))) = b"
    unfolding mult_div_mod_eq by simp
  then show ?case using Cons unfolding to_hex_Cons of_hex.simps by (simp only:)
qed (simp add: to_hex_def)

subsection \<open>Back traces and the clock\<close>

text \<open>\<open>traces\<close> is what \<^verbatim>\<open>backtrace_symbols\<close> returns; a negative \<^verbatim>\<open>skip\<close> becomes a huge index.\<close>

definition BackTrace :: "string list option \<Rightarrow> int \<Rightarrow> string list \<Rightarrow> string list" where
  "BackTrace traces skip bt = (case traces of None \<Rightarrow> bt | Some ts \<Rightarrow> if skip < 0 then bt else bt @ drop (nat skip) ts)"

definition BackTraceToStr :: "string list option \<Rightarrow> int \<Rightarrow> string \<Rightarrow> string" where
  "BackTraceToStr traces skip trace_prefix = trace_prefix @ concat (map (\<lambda>t. t @ [CHR 0x0A]) (BackTrace traces skip []))"

definition GetCurrentTime_ms :: "nat \<times> nat \<Rightarrow> u64" where
  "GetCurrentTime_ms tv = of_nat (fst tv * 1000 + snd tv div 1000)"

definition GetCurrentTime_us :: "nat \<times> nat \<Rightarrow> u64" where
  "GetCurrentTime_us tv = of_nat (fst tv * 1000000 + snd tv)"

text \<open>The two clocks agree, as long as the microseconds since 1970 fit into 64 bits.\<close>

lemma clocks_agree:
  assumes "fst tv * 1000000 + snd tv < 2 ^ 64"
  shows "unat (GetCurrentTime_ms tv) = unat (GetCurrentTime_us tv) div 1000"
proof -
  have "fst tv * 1000 + snd tv div 1000 = (fst tv * 1000000 + snd tv) div 1000"
    using div_mult_self3 [of 1000 "fst tv * 1000" "snd tv"] by (simp add: mult.commute mult.assoc)
  moreover have "(fst tv * 1000000 + snd tv) div 1000 < 2 ^ 64" using assms by linarith
  moreover have u: "unat (of_nat n :: u64) = n" if "n < 2 ^ 64" for n using that by (simp add: unat_of_nat)
  ultimately show ?thesis unfolding GetCurrentTime_ms_def GetCurrentTime_us_def u [OF assms] by (simp only: u)
qed

subsection \<open>Network order of 64 bits (protocol/common/network.hpp)\<close>

text \<open>The union of a number and its eight bytes: \<open>store64\<close> and \<open>load64\<close> read one as the other, on a host of either byte order.\<close>

definition store64 :: "host \<Rightarrow> u64 \<Rightarrow> bytes" where
  "store64 h v =
     (let little = map (\<lambda>i. ucast (drop_bit (8 * i) v)) [0, 1, 2, 3, 4, 5, 6, 7]
      in case h of LITTLE_ENDIAN \<Rightarrow> little | BIG_ENDIAN \<Rightarrow> rev little)"

definition load64 :: "host \<Rightarrow> bytes \<Rightarrow> u64" where
  "load64 h bs = foldr (\<lambda>b n. push_bit 8 n OR ucast b) (case h of LITTLE_ENDIAN \<Rightarrow> bs | BIG_ENDIAN \<Rightarrow> rev bs) 0"

definition is_little_endian :: "host \<Rightarrow> bool" where
  "is_little_endian h \<longleftrightarrow> hd (store16 h 1) = 1"

datatype host_typ = TYP_INIT | TYP_SMLE | TYP_BIGE

definition swap_bytes :: "nat \<Rightarrow> nat \<Rightarrow> bytes \<Rightarrow> bytes" where
  "swap_bytes i j x = (let c = x ! i in x[i := x ! j, j := c])"

text \<open>The static variable \<^verbatim>\<open>typ\<close> is an argument, and its new value a result.\<close>

definition htonll :: "host \<Rightarrow> host_typ \<Rightarrow> u64 \<Rightarrow> u64 \<times> host_typ" where
  "htonll h typ src =
     (let typ' = (if typ = TYP_INIT then (if store64 h 1 ! 7 = 1 then TYP_BIGE else TYP_SMLE) else typ)
      in if typ' = TYP_BIGE then (src, typ')
         else (load64 h (swap_bytes 3 4 (swap_bytes 2 5 (swap_bytes 1 6 (swap_bytes 0 7 (store64 h src))))), typ'))"

definition ntohll :: "host \<Rightarrow> host_typ \<Rightarrow> u64 \<Rightarrow> u64 \<times> host_typ" where
  "ntohll h typ src = htonll h typ src"

text \<open>What the static variable can hold on a host.\<close>

definition typ_ok :: "host \<Rightarrow> host_typ \<Rightarrow> bool" where
  "typ_ok h typ \<longleftrightarrow> typ \<in> {TYP_INIT, if h = BIG_ENDIAN then TYP_BIGE else TYP_SMLE}"

lemma little_endian_host: "is_little_endian h \<longleftrightarrow> h = LITTLE_ENDIAN"
  by (cases h) (simp_all add: is_little_endian_def)

lemma host_detected: "store64 h 1 ! 7 = 1 \<longleftrightarrow> h = BIG_ENDIAN"
  by (cases h) (simp_all add: store64_def)

lemma swapped: "swap_bytes 3 4 (swap_bytes 2 5 (swap_bytes 1 6 (swap_bytes 0 7 [a, b, c, d, e, f, g, i]))) = [i, g, f, e, d, c, b, a]"
  by (simp add: swap_bytes_def)

lemma store_load64:
  assumes "length bs = 8"
  shows "store64 LITTLE_ENDIAN (load64 LITTLE_ENDIAN bs) = bs"
proof -
  obtain a b c d e f g i where bs: "bs = [a, b, c, d, e, f, g, i]"
    using assms by (auto simp: numeral_eq_Suc length_Suc_conv)
  show ?thesis unfolding bs store64_def load64_def by (auto intro!: bit_word_eqI simp: bit_simps)
qed

text \<open>
  On either host \<^verbatim>\<open>_htonll\<close> gives a number whose bytes in memory are those of the argument with the most significant one first,
  at the first call as at every later one.
\<close>

lemma htonll_network:
  assumes "typ_ok h typ" and "htonll h typ src = (v, typ')"
  shows "store64 h v = store64 BIG_ENDIAN src \<and> typ_ok h typ' \<and> typ' \<noteq> TYP_INIT"
proof (cases h)
  case LITTLE_ENDIAN
  have s: "swap_bytes 3 4 (swap_bytes 2 5 (swap_bytes 1 6 (swap_bytes 0 7 (store64 h src)))) = store64 BIG_ENDIAN src"
    using LITTLE_ENDIAN by (simp add: store64_def swapped [simplified])
  have "length (store64 BIG_ENDIAN src) = 8" by (simp add: store64_def)
  from store_load64 [OF this] show ?thesis
    using assms s LITTLE_ENDIAN by (auto simp: htonll_def typ_ok_def host_detected split: if_splits)
next
  case BIG_ENDIAN
  then show ?thesis using assms by (auto simp: htonll_def typ_ok_def host_detected split: if_splits)
qed

end
