(* ===== verification/Ws_Handler.thy ===== *)
theory Ws_Handler
  imports Ws_Server
begin

unbundle bit_operations_syntax

section \<open>The default callbacks of a WebSocket server (server/websocket/wsserver, class WsHandler)\<close>

text \<open>
  Handlers derive from \<^verbatim>\<open>WsHandler\<close>; a callback that they do not override only logs, except the one for a ping, which sends a
  pong. \<open>WsHandler_frames\<close> are the frames handed to \<^verbatim>\<open>co_sendFrame\<close>; the callbacks leave the rest of the session as it is.
\<close>

definition WsHandler_default :: ws_handler where
  "WsHandler_default ev session = (False, session)"

definition pong_frame :: "bytes \<Rightarrow> frame" where
  "pong_frame reason = setPongPayload reason (Frame_default\<lparr>m_opcode := WS_OP_PONG\<rparr>)"

fun WsHandler_frames :: "ws_event \<Rightarrow> bytes list" where
  "WsHandler_frames (OnPing reason) = [Frame_make 0 False (pong_frame reason)]"
| "WsHandler_frames ev = []"

text \<open>The destructor of a session gives up its timer; the result is the timer that is cancelled.\<close>

definition ws_destroy :: "ws_session \<Rightarrow> nat option \<times> ws_session" where
  "ws_destroy s = (m_timer_task s, s\<lparr>m_timer_task := None\<rparr>)"

subsection \<open>Lemmas\<close>

lemma destroy_after_clean: "ws_destroy (snd (ws_clean s)) = (None, snd (ws_clean s))"
  by (simp add: ws_destroy_def ws_clean_def)

lemma pong_consistent: "length d < 2 ^ 64 \<Longrightarrow> frame_consistent (pong_frame d)"
  unfolding pong_frame_def setPongPayload_def by (rule text_frame_consistent) simp_all

lemma pong_fields: "m_opcode (pong_frame d) = WS_OP_PONG" "frame_payload (pong_frame d) = d"
  by (simp_all add: pong_frame_def setPongPayload_def setTextPayload_def frame_payload_def)

lemma pong_decoded:
  assumes "fb_inv fb" "pstate fb = s_start" "mask_key fb = [0, 0, 0, 0]" "length d < 2 ^ 64"
  shows "frame_done fb (snd (FrameBuffer_consume h fb (Frame_make 0 False (pong_frame d)))) (received_frame WS_OP_PONG d)"
  using make_roundtrip [OF assms(1,2,3) pong_consistent [OF assms(4)], of h 0] by (simp add: pong_fields)

lemma ping_event: "event_of (received_frame WS_OP_PING d) = OnPing d"
  by (simp add: event_of_def received_frame_def Let_def)

lemma single_sender:
  "send_run [(0, 0), (0, int (length f)), (0, 0)] (send_init [f]) = \<lparr>bf = READY, pending = [], sent = [(f, length f)], lost = [], senders = [S_done 0]\<rparr>"
  by (simp add: send_run_def send_step_def send_init_def goto_def transmit_def)

lemma done_then_get:
  assumes "frame_done p q f" "buffered_frames (pdata p) = []"
  obtains q' where "FrameBuffer_getFrame q = (Some f, q')" "buffered_frames (pdata q') = []" "pstate q' = s_start"
  using assms by (auto simp: frame_done_def FrameBuffer_getFrame_def)

text \<open>
  C10. A ping is answered: the masked ping frame of a client, received by a session between two frames, gives one frame; routing it to the default
  callbacks succeeds and only notes the time, and the one frame they send goes out at once on an idle session, when the socket takes it whole, and is decoded
  by the client into a pong with the payload of the ping.
\<close>

theorem ping_answered:
  assumes "fb_inv (m_frame_buffer s)" "pstate (m_frame_buffer s) = s_start" "buffered_frames (pdata (m_frame_buffer s)) = []"
    and "fl AND WS_HAS_MASK \<noteq> 0" "fl AND WS_OP_MASK = WS_OP_PING" "length msk = 4" "length d < 2 ^ 64"
    and "fb_inv peer" "pstate peer = s_start" "mask_key peer = [0, 0, 0, 0]"
  shows "\<exists>q answer. FrameBuffer_getFrame (snd (FrameBuffer_consume h (m_frame_buffer s) (websocket_build_frame old fl (Some msk) d))) =
      (Some (received_frame WS_OP_PING d), q) \<and> buffered_frames (pdata q) = [] \<and> pstate q = s_start \<and>
    co_Route WsHandler_default now (Some (received_frame WS_OP_PING d)) s = (0, s\<lparr>m_recent_frame_time := now\<rparr>) \<and>
    WsHandler_frames (event_of (received_frame WS_OP_PING d)) = [answer] \<and>
    sent (send_run [(0, 0), (0, int (length answer)), (0, 0)] (send_init [answer])) = [(answer, length answer)] \<and>
    frame_done peer (snd (FrameBuffer_consume h' peer answer)) (received_frame WS_OP_PONG d)"
proof -
  let ?fb = "snd (FrameBuffer_consume h (m_frame_buffer s) (websocket_build_frame old fl (Some msk) d))"
  have "frame_done ((m_frame_buffer s)\<lparr>mask_key := msk\<rparr>) ?fb (received_frame WS_OP_PING d)"
    using masked_decoded [OF assms(1,2,4,6,7)] unfolding assms(5) .
  then obtain q where "FrameBuffer_getFrame ?fb = (Some (received_frame WS_OP_PING d), q)" "buffered_frames (pdata q) = []" "pstate q = s_start"
    by (rule done_then_get) (simp_all add: assms(3))
  moreover have "co_Route WsHandler_default now (Some (received_frame WS_OP_PING d)) s = (0, s\<lparr>m_recent_frame_time := now\<rparr>)"
    by (simp add: co_Route_def ping_event WsHandler_default_def)
  ultimately show ?thesis using pong_decoded [OF assms(8,9,10,7), of h'] single_sender by (auto simp: ping_event)
qed

theorem ping_answered_witness:
  "\<exists>q answer. FrameBuffer_getFrame (snd (FrameBuffer_consume LITTLE_ENDIAN (FrameBuffer_new zero_parser)
       (websocket_build_frame [] 0x39 (Some [1, 2, 3, 4]) [0x68, 0x69]))) = (Some (received_frame WS_OP_PING [0x68, 0x69]), q) \<and>
     WsHandler_frames (event_of (received_frame WS_OP_PING [0x68, 0x69])) = [answer] \<and>
     frame_done (FrameBuffer_new zero_parser) (snd (FrameBuffer_consume BIG_ENDIAN (FrameBuffer_new zero_parser) answer)) (received_frame WS_OP_PONG [0x68, 0x69])"
proof -
  let ?s = "WsSession_new 0 (replicate 8 0) zero_parser 8 3 1" and ?fb = "FrameBuffer_new zero_parser"
  have s: "m_frame_buffer ?s = ?fb" by (simp add: WsSession_new_def)
  have "fb_inv (m_frame_buffer ?s)" "pstate (m_frame_buffer ?s) = s_start" "buffered_frames (pdata (m_frame_buffer ?s)) = []"
    unfolding s by (rule new_inv, rule new_start, rule new_start)
  from ping_answered [OF this _ _ _ _ new_inv [of zero_parser] new_start(1,2), where fl = "0x39" and msk = "[1, 2, 3, 4]" and d = "[0x68, 0x69]"
      and h = LITTLE_ENDIAN and old = "[]" and now = 5 and h' = BIG_ENDIAN]
  show ?thesis unfolding s by fastforce
qed

end
