(* ===== verification/Hook_Control.thy ===== *)
theory Hook_Control
  imports Hook
begin

unbundle bit_operations_syntax

section \<open>Control of descriptors (coroutine/coro20/hook.cc: co\_fcntl, fdTimerInfo)\<close>

text \<open>
  \<^verbatim>\<open>co_fcntl\<close> chooses the type of its optional argument by the command. The commands are those the switch names; a command it does not
  name is given by its number. What reaches \<^verbatim>\<open>fcntl\<close> is the command with an argument or without, and \<open>sys\<close> is what \<^verbatim>\<open>fcntl\<close>
  returns for it. Arguments that are pointers are addresses.
\<close>

datatype fcntl_op = F_SETFL | F_GETFL
  | F_DUPFD | F_DUPFD_CLOEXEC | F_SETFD | F_SETOWN | F_SETSIG | F_SETLEASE | F_NOTIFY | F_SETPIPE_SZ | F_ADD_SEALS
  | F_GET_RW_HINT | F_SET_RW_HINT | F_GET_FILE_RW_HINT | F_SET_FILE_RW_HINT
  | F_SETLK | F_SETLKW | F_GETLK | F_OFD_SETLK | F_OFD_SETLKW | F_OFD_GETLK
  | F_GETOWN_EX | F_SETOWN_EX
  | F_other int

datatype fcntl_call = Fcntl_plain fcntl_op | Fcntl_int fcntl_op u32 | Fcntl_ptr fcntl_op u64

definition int_ops :: "fcntl_op list" where
  "int_ops = [F_DUPFD, F_DUPFD_CLOEXEC, F_SETFD, F_SETOWN, F_SETSIG, F_SETLEASE, F_NOTIFY, F_SETPIPE_SZ, F_ADD_SEALS]"

definition ptr_ops :: "fcntl_op list" where
  "ptr_ops = [F_GET_RW_HINT, F_SET_RW_HINT, F_GET_FILE_RW_HINT, F_SET_FILE_RW_HINT,
     F_SETLK, F_SETLKW, F_GETLK, F_OFD_SETLK, F_OFD_SETLKW, F_OFD_GETLK, F_GETOWN_EX, F_SETOWN_EX]"

text \<open>\<open>ap\<close> is the register of the optional argument: an integer is its lower half.\<close>

definition co_fcntl :: "int \<Rightarrow> fcntl_op \<Rightarrow> u64 \<Rightarrow> (fcntl_call \<Rightarrow> u32) \<Rightarrow> fd_mgr \<Rightarrow> failure + u32 \<times> fd_mgr" where
  "co_fcntl fd cmd ap sys m =
     (if cmd = F_SETFL then map_sum id (\<lambda>(arg, m). (sys (Fcntl_int cmd arg), m)) (co_fcntl_setfl fd (ucast ap) m)
      else if cmd = F_GETFL then map_sum id (\<lambda>v. (v, m)) (co_fcntl_getfl fd (sys (Fcntl_plain cmd)) m)
      else if cmd \<in> set int_ops then Inr (sys (Fcntl_int cmd (ucast ap)), m)
      else if cmd \<in> set ptr_ops then Inr (sys (Fcntl_ptr cmd ap), m)
      else Inr (sys (Fcntl_plain cmd), m))"

text \<open>The time limit of one descriptor: it leaves \<^verbatim>\<open>WATTING\<close> once, for a timeout or for the end of the wait.\<close>

datatype fd_timer_state = FT_UNKNOWN | FT_WATTING | FT_TIMEOUT | FT_FINISHED

definition fdTimerInfo_init :: "fd_timer_state \<Rightarrow> fd_timer_state" where
  "fdTimerInfo_init s = FT_WATTING"

definition setTimo :: "fd_timer_state \<Rightarrow> bool \<times> fd_timer_state" where
  "setTimo s = (if s \<noteq> FT_WATTING then (False, s) else (True, FT_TIMEOUT))"

definition setFinish :: "fd_timer_state \<Rightarrow> bool \<times> fd_timer_state" where
  "setFinish s = (if s \<noteq> FT_WATTING then (False, s) else (True, FT_FINISHED))"

subsection \<open>Lemmas\<close>

text \<open>What the calls return, in the order in which they take the lock: \<open>True\<close> stands for \<^verbatim>\<open>setTimo\<close>.\<close>

fun timer_calls :: "bool list \<Rightarrow> fd_timer_state \<Rightarrow> bool list \<times> fd_timer_state" where
  "timer_calls [] s = ([], s)"
| "timer_calls (c # cs) s = (let (r, s) = (if c then setTimo s else setFinish s); (rs, s) = timer_calls cs s in (r # rs, s))"

lemma calls_settled: "s \<noteq> FT_WATTING \<Longrightarrow> timer_calls cs s = (replicate (length cs) False, s)"
  by (induction cs) (simp_all add: setTimo_def setFinish_def)

lemma first_call_wins:
  "timer_calls (c # cs) (fdTimerInfo_init s) = (True # replicate (length cs) False, if c then FT_TIMEOUT else FT_FINISHED)"
  by (simp add: fdTimerInfo_init_def setTimo_def setFinish_def calls_settled)

text \<open>
  Only \<^verbatim>\<open>F_SETFL\<close> changes what the manager knows; every other command than the two on flags reaches \<^verbatim>\<open>fcntl\<close> unchanged, with its
  argument when it has one.
\<close>

lemma fcntl_other:
  assumes "cmd \<noteq> F_SETFL" and "co_fcntl fd cmd ap sys m = Inr (v, m')"
  shows "m' = m"
  using assms by (cases "co_fcntl_getfl fd (sys (Fcntl_plain F_GETFL)) m") (auto simp: co_fcntl_def split: if_splits)

text \<open>
  Through \<^verbatim>\<open>co_fcntl\<close> a program sees the flags it set, although \<^verbatim>\<open>fcntl\<close> keeps the descriptor non-blocking: on a managed socket, over a
  system that returns the flags it was given last, reading them back gives what was written.
\<close>

lemma fcntl_flags_seen:
  assumes "fdm_inv m" "ctx_of m fd = Some c" "managed (Some c)" "m_sysNoblock c"
    and "\<And>arg. sys (Fcntl_int F_SETFL arg) = 0"
  shows "\<exists>m' flags. co_fcntl fd F_SETFL ap sys m = Inr (0, m') \<and> flags AND O_NONBLOCK \<noteq> 0 \<and>
    (\<forall>sys'. sys' (Fcntl_plain F_GETFL) = flags \<longrightarrow> co_fcntl fd F_GETFL 0 sys' m' = Inr (ucast ap, m'))"
proof -
  obtain flags m' where "co_fcntl_setfl fd (ucast ap) m = Inr (flags, m')" "co_fcntl_getfl fd flags m' = Inr (ucast ap)" "flags AND O_NONBLOCK \<noteq> 0"
    using fcntl_flags_roundtrip [OF assms(1-4), of "ucast ap"] by blast
  then show ?thesis using assms(5) by (auto simp: co_fcntl_def)
qed

end
