(* ===== verification/Spec2Isabelle.thy ===== *)
theory Spec2Isabelle
  imports Timeout Task_Object Shutdown Db_Pool Snowflake Hook Address Ws_Server Http_Server Http_Params Tcp_Server
    Log_Config Socket Mysql Redis Threads Http_Istream Md5 Sha_Tools Utilities Ws_Handler Hook_Control
begin

text \<open>
  Verification of m\_sylar, a C++20 framework for network servers on coroutines: tasks, a scheduler with a
  pool of tasks, timers, a wrapper around \<^verbatim>\<open>epoll\<close>, system calls that suspend instead of blocking, and on
  top of them TCP, HTTP and WebSocket servers and pools of database connections; logging and a configuration
  that is read from JSON serve all of them.

  \<^bold>\<open>How the parts interact.\<close> A worker of the scheduler takes tasks from the pool and runs them. A coroutine
  that calls \<^verbatim>\<open>co_recv\<close> and finds no data registers itself with the IO manager, for a descriptor and with a
  time limit that is a timer; when the descriptor is ready or the time is over, exactly one of the two
  puts the coroutine back into the pool. Servers accept clients in such coroutines; each client has a session with
  a receive buffer, from which the HTTP or the WebSocket parser takes what it needs.

  \<^bold>\<open>Conventions.\<close> Machine integers are words where overflow matters and numbers where the code keeps
  them bounded. Exceptions, failed assertions, null pointers and accesses outside an array are values of the type
  \<^verbatim>\<open>failure\<close> in the left summand of a result. What the system returns (\<^verbatim>\<open>recv\<close>, \<^verbatim>\<open>send\<close>,
  \<^verbatim>\<open>accept\<close>, \<^verbatim>\<open>epoll_wait\<close>, the clock, \<^verbatim>\<open>errno\<close>, uninitialised memory) is an argument, often the list of what
  successive calls return; a loop that still waits at the end of the list gives \<open>None\<close>. Concurrent
  code is a step function per atomic action of a thread, and theorems quantify over all sequences of steps.

  \<^bold>\<open>The theories\<close>, with the code under \<^verbatim>\<open>src/sylar\<close> they model:

  \<^item> \<^verbatim>\<open>Prelude\<close>: words, failures, writing into an array, named collections of facts; \<^verbatim>\<open>Strings\<close>: searching in
    strings, decimal output.
  \<^item> \<^verbatim>\<open>Endian\<close> (\<^verbatim>\<open>basic/endian.h\<close>): byte order of the host and of the network.
  \<^item> \<^verbatim>\<open>Multimap\<close>, \<^verbatim>\<open>Timer\<close>, \<^verbatim>\<open>Timeout\<close> (\<^verbatim>\<open>basic/timer\<close>): the blocks of timers, triggering, cancelling, races of
    a timer with an event. Due tasks and only these are triggered; a time limit has a single winner.
  \<^item> \<^verbatim>\<open>Coro_Task\<close>, \<^verbatim>\<open>Task_Object\<close> (\<^verbatim>\<open>coroutine/coro20/task.hpp\<close>): the life of a coroutine frame; it is freed exactly once.
    Many frames with task objects and child tasks: each frame that is not given up has exactly one owner, and freeing
    one never uses a frame that is gone.
  \<^item> \<^verbatim>\<open>Task_Pool\<close>, \<^verbatim>\<open>Scheduler\<close> (\<^verbatim>\<open>taskPool.cc\<close>, \<^verbatim>\<open>scheduler.cc\<close>, \<^verbatim>\<open>fiber.h\<close>): no task is lost or run twice, and a
    worker finds a task that is there.
  \<^item> \<^verbatim>\<open>Fd_Context\<close>, \<^verbatim>\<open>Io_Manager\<close> (\<^verbatim>\<open>fdContext.cc\<close>, \<^verbatim>\<open>ioManager.cc\<close>): requests on a descriptor under concurrency; what
    \<^verbatim>\<open>epoll\<close> watches mirrors the registered events. A callback that throws is a step of its own: what was queued behind it is
    dropped and the descriptor stays busy.
  \<^item> \<^verbatim>\<open>Shutdown\<close> (\<^verbatim>\<open>scheduler.cc\<close>, \<^verbatim>\<open>ioManager.cc\<close>): all worker threads with the eventfd and the lock \<^verbatim>\<open>m_mutex\<close>, threads
    in the middle of \<^verbatim>\<open>schedule\<close>, and the thread that stops them. Stopping ends in every run that is fair to the workers, with every
    worker gone; after \<^verbatim>\<open>autoStop\<close> only tasks whose \<^verbatim>\<open>schedule\<close> overlapped with it can be left in the pool.
  \<^item> \<^verbatim>\<open>Fd_Manager\<close>, \<^verbatim>\<open>Hook\<close> (\<^verbatim>\<open>basic/fdManager.cc\<close>, \<^verbatim>\<open>coroutine/coro20/hook.cc\<close>): the flags and time limits of
    descriptors and the system calls that suspend; what such a call returns. \<^verbatim>\<open>Hook_Control\<close>: all commands of \<^verbatim>\<open>co_fcntl\<close>.
  \<^item> \<^verbatim>\<open>Address\<close> (\<^verbatim>\<open>basic/address.cc\<close>): IPv4 and IPv6 networks, prefixes and the order of addresses.
  \<^item> \<^verbatim>\<open>Db_Pool\<close> (\<^verbatim>\<open>DBPool/database.tpp\<close>): connections are not shared, acquiring terminates, returning wakes a waiter.
  \<^item> \<^verbatim>\<open>Id_Allocator\<close>, \<^verbatim>\<open>Snowflake\<close> (\<^verbatim>\<open>basic/tool.cc\<close>, \<^verbatim>\<open>tools/Snowflake.hpp\<close>): identifiers are unique; the bit map implements
    a set.
  \<^item> \<^verbatim>\<open>Ws_Parser\<close>, \<^verbatim>\<open>Ws_Stream\<close>, \<^verbatim>\<open>Ws_Frame\<close> (\<^verbatim>\<open>protocol/websocket\<close>: \<^verbatim>\<open>websocket_parser.cc\<close>, \<^verbatim>\<open>parser.cc\<close>): the streaming
    frame parser refines decoding of the whole stream, however it is cut; frames round-trip.
  \<^item> \<^verbatim>\<open>Base64\<close>, \<^verbatim>\<open>Sha1\<close>, \<^verbatim>\<open>Ws_Handshake\<close> (\<^verbatim>\<open>base64.cpp\<close>, \<^verbatim>\<open>sha1.cpp\<close>, \<^verbatim>\<open>WebSocket.cc\<close>): the optimised SHA-1 equals the
    standard, base64 equals RFC 4648, and the handshake answers with the key the protocol demands. \<^verbatim>\<open>Sha_Tools\<close> (\<^verbatim>\<open>sha.cpp\<close>, \<^verbatim>\<open>shacmp.cpp\<close>): the command
    line programs print and compare these digests. \<^verbatim>\<open>Md5\<close> (\<^verbatim>\<open>websocket/md5\<close>, \<^verbatim>\<open>protocol/common/md5.hpp\<close>): the code equals RFC 1321.
  \<^item> \<^verbatim>\<open>Session\<close>, \<^verbatim>\<open>Ws_Session\<close>, \<^verbatim>\<open>Ws_Server\<close> (\<^verbatim>\<open>server/common\<close>, \<^verbatim>\<open>server/websocket\<close>): the receive buffer is a queue of bytes (the
    locale \<^verbatim>\<open>byte_queue\<close>); sessions deliver exactly the frames of the stream and send each frame at most once; the
    table of sessions agrees with the allocator. \<^verbatim>\<open>Ws_Handler\<close>: the default callbacks; a ping is answered with its pong.
  \<^item> \<^verbatim>\<open>Http_Parser\<close>, \<^verbatim>\<open>Http_Headers\<close>, \<^verbatim>\<open>Http_Stream\<close>, \<^verbatim>\<open>Http_Response\<close>, \<^verbatim>\<open>Http_Roundtrip\<close>, \<^verbatim>\<open>Http_Params\<close>
    (\<^verbatim>\<open>protocol/http\<close>): messages. Headers are a map up to case (the locale \<^verbatim>\<open>keyed_map\<close>), parsing does not depend on how
    the bytes are cut, printed messages are read back. \<^verbatim>\<open>Http_Istream\<close>: reading a response line by line from a stream.
  \<^item> \<^verbatim>\<open>Utilities\<close> (\<^verbatim>\<open>protocol/impl/utilities_impl.hpp\<close>, \<^verbatim>\<open>protocol/common\<close>: \<^verbatim>\<open>utilities.hpp\<close>, \<^verbatim>\<open>network.hpp\<close>; \<^verbatim>\<open>basic/until.cc\<close>):
    replacing and searching in strings, hexadecimal output, 64 bit numbers in network order, back traces and the clock.
  \<^item> \<^verbatim>\<open>Config\<close> (\<^verbatim>\<open>basic/config\<close>): paths into JSON values, variables and their listeners; a variable follows exactly the loads
    that have its path and reach it, also when conversions throw. \<^verbatim>\<open>Log_Format\<close>, \<^verbatim>\<open>Log_Manager\<close>, \<^verbatim>\<open>Log_Config\<close> (\<^verbatim>\<open>basic/log\<close>): patterns, loggers and their manager, and
    log definitions as JSON; a configuration reaches every logger it defines.
  \<^item> \<^verbatim>\<open>Socket\<close> (\<^verbatim>\<open>basic/socket\<close>): objects that own descriptors; every descriptor is closed once. \<^verbatim>\<open>Threads\<close>
    (\<^verbatim>\<open>basic/thread\<close>, \<^verbatim>\<open>basic/utils/result.hpp\<close>): the handshake at the start of a thread,
    with a wait that a signal may interrupt.
  \<^item> \<^verbatim>\<open>Mysql\<close>, \<^verbatim>\<open>Redis\<close> (\<^verbatim>\<open>DBPool/mysql\<close>, \<^verbatim>\<open>DBPool/redis\<close>, \<^verbatim>\<open>DBPool/factory\<close>): results by column name with the lengths the code keeps in an \<^verbatim>\<open>int\<close>, rows of prepared
    statements, texts of bounded length, replies. The client libraries are parameters: functions on result sets with
    their documented laws as hypotheses, and scripts of what their non-blocking calls answer.
  \<^item> \<^verbatim>\<open>Http_Server\<close>, \<^verbatim>\<open>Tcp_Server\<close> (\<^verbatim>\<open>server/http\<close>, \<^verbatim>\<open>server/tcp\<close>): a client's requests are served in order; malformed
    requests; binding and accepting.

  The theorem of this theory composes the WebSocket server with the identifier allocator.

  \<^bold>\<open>Bounds.\<close> Recursions that model loops of the code terminate by a measure: the length of the text that is
  left, the number of results of system calls that are left. The number of passes in the retry
  loops of concurrent code is an argument, and the termination theorems give a number that is enough: \<open>20 * n\<close> fair stretches for
  stopping \<open>n\<close> workers, because a batch has at most 15 tasks. The limit of
  the HTTP headers is kept as a hypothesis (\<^verbatim>\<open>head_cost\<close>, \<^verbatim>\<open>header_cost\<close>: what the counter of the code adds up to),
  because the code rejects what exceeds it.

  \<^bold>\<open>Not modelled.\<close> The remaining headers of \<^verbatim>\<open>protocol/common\<close> only select library types by preprocessor, \<^verbatim>\<open>middleware/mq\<close> is a
  stub without operations, and \<^verbatim>\<open>shatest.cpp\<close> and \<^verbatim>\<open>tests\<close> are test programs. The JSON package and the database client
  libraries are not part of the repository and appear as parameters. In the modelled parts, \<^verbatim>\<open>getInstance\<close> and other
  singletons, locks that only serialise single operations, the identifiers of threads and fibers, and output that is
  only printed for debugging are left out.
\<close>

section \<open>Properties across components\<close>

text \<open>
  C11. The WebSocket server over the identifier allocator: however sessions are opened (with or without
  success of their timer) and closed, the identifiers the allocator has given out are exactly the
  occupied slots of the session table, and the counter counts them. The only failure is an index
  past the end of the table, which happens when a session is opened while all slots are taken. The server is made for
  \<open>n\<close> blocks of 64 sessions with \<open>128 * n < 2\<^sup>31\<close>, so that the capacity of the allocator fits an \<^verbatim>\<open>int\<close> also after it has grown once.
\<close>

theorem session_table_consistent:
  assumes "WsServer_new n = Inr srv" "0 < n" "128 * nat n < 2 ^ 31"
  shows "case srv_run mk now ops srv of
      Inr srv' \<Rightarrow> ids (m_bit_map (m_sessionIdAllocator srv')) = occupied srv' \<and> m_sessionCount srv' = int (card (occupied srv')) \<and> srv_inv srv'
    | Inl e \<Rightarrow> e = OutOfRange \<and> (\<exists>ops1 t ops2 srv1. ops = ops1 @ Open_session t # ops2 \<and> srv_run mk now ops1 srv = Inr srv1 \<and>
        all_taken srv1 \<and> length (m_sessions srv1) = nat n * 64)"
  using srv_run_inv [OF new_server_inv(1) [OF assms], of ops mk now] new_server_inv(3) [OF assms]
  by (auto simp: srv_inv_def split: sum.splits)

theorem session_table_consistent_witness:
  "\<exists>srv. WsServer_new 1 = Inr srv \<and>
     (case srv_run (WsSession_new 0 (replicate 8 0) zero_parser 8 3) 5 [Open_session (Some 1), Open_session None, Close_session 0] srv of
        Inr srv' \<Rightarrow> srv_inv srv' | Inl e \<Rightarrow> e = OutOfRange)"
proof -
  obtain srv where s: "WsServer_new 1 = Inr srv" by (simp add: WsServer_new_def PackedIDAllocator_new_def)
  from session_table_consistent [OF this, of "[Open_session (Some 1), Open_session None, Close_session 0]" "WsSession_new 0 (replicate 8 0) zero_parser 8 3" 5]
  have "case srv_run (WsSession_new 0 (replicate 8 0) zero_parser 8 3) 5 [Open_session (Some 1), Open_session None, Close_session 0] srv of
      Inr srv' \<Rightarrow> srv_inv srv' | Inl e \<Rightarrow> e = OutOfRange"
    by (auto simp del: srv_run.simps split: sum.splits)
  with s show ?thesis by blast
qed

end
